(* ===== verification/Price_Utils.thy ===== *)
theory Price_Utils
  imports Speedex_Prelude
begin

text \<open>
  Fixed-point prices, \<^verbatim>\<open>implementation/src/price_utils.h\<close>.  A price is an unsigned 64-bit
  number read as \<open>price / 2^24\<close>; valid prices fit in 48 bits.  The theory holds the big-endian
  encodings (whose byte order must agree with the numeric order, since offers are found by walking
  a trie in key order), the exact comparison of price ratios, and the 128-bit multiply-divide
  that every payout goes through.
\<close>

type_synonym price = u64

section \<open>Constants\<close>

definition PRICE_RADIX :: nat where
  "PRICE_RADIX = 24"

definition PRICE_BIT_LEN :: nat where
  "PRICE_BIT_LEN = 2 * PRICE_RADIX"

definition PRICE_BYTES :: nat where
  "PRICE_BYTES = PRICE_BIT_LEN div 8"

definition MAX_PRICE :: price where
  "MAX_PRICE = push_bit PRICE_BIT_LEN 1 - 1"

definition PRICE_ONE :: price where
  "PRICE_ONE = push_bit PRICE_RADIX 1"

definition PRICE_MAX :: price where
  "PRICE_MAX = push_bit PRICE_RADIX PRICE_ONE - 1"

lemma PRICE_BYTES_eq [simp]: "PRICE_BYTES = 6"
  by (simp add: PRICE_BYTES_def PRICE_BIT_LEN_def PRICE_RADIX_def)

lemma PRICE_MAX_eq: "PRICE_MAX = 281474976710655"
  by (simp add: PRICE_MAX_def PRICE_ONE_def PRICE_RADIX_def push_bit_eq_mult)

lemma unat_PRICE_MAX [word_nat]: "unat PRICE_MAX = 2 ^ 48 - 1"
  by (simp add: PRICE_MAX_eq)

section \<open>Big-endian encodings\<close>

text \<open>The byte the loops store at position \<open>loc\<close>: \<open>(value >> ((sz - loc - 1) * 8)) & 0xFF\<close>.\<close>

definition be_byte :: "nat \<Rightarrow> 'a::len word \<Rightarrow> nat \<Rightarrow> byte" where
  "be_byte sz v loc = ucast (drop_bit ((sz - loc - 1) * 8) v AND 0xFF)"

definition big_endian_bytes :: "nat \<Rightarrow> 'a::len word \<Rightarrow> byte list" where
  "big_endian_bytes sz v = map (be_byte sz v) [0..<sz]"

text \<open>The stores go through \<open>buf.at(loc + offset)\<close>, which throws past the end of the buffer.\<close>

fun write_bytes_at :: "byte list \<Rightarrow> nat \<Rightarrow> byte list \<Rightarrow> byte list res" where
  "write_bytes_at buf loc [] = Inr buf"
| "write_bytes_at buf loc (b # bs) =
     (if loc < length buf then write_bytes_at (buf[loc := b]) (Suc loc) bs else Inl Out_of_range)"

definition write_price_big_endian :: "byte list \<Rightarrow> price \<Rightarrow> byte list res" where
  "write_price_big_endian buf p = write_bytes_at buf 0 (big_endian_bytes PRICE_BYTES p)"

definition write_unsigned_big_endian :: "byte list \<Rightarrow> 'a::len word \<Rightarrow> nat \<Rightarrow> byte list res" where
  "write_unsigned_big_endian buf v offset =
     write_bytes_at buf offset (big_endian_bytes (LENGTH('a) div 8) v)"

definition append_unsigned_big_endian :: "byte list \<Rightarrow> 'a::len word \<Rightarrow> byte list" where
  "append_unsigned_big_endian buf v = buf @ big_endian_bytes (LENGTH('a) div 8) v"

text \<open>The read loops: \<open>p <<= 8; p += buf[loc]\<close>.\<close>

definition read_bytes_big_endian :: "nat \<Rightarrow> byte list \<Rightarrow> 'a::len word" where
  "read_bytes_big_endian sz buf = foldl (\<lambda>p b. push_bit 8 p + ucast b) 0 (take sz buf)"

definition read_price_big_endian :: "byte list \<Rightarrow> price" where
  "read_price_big_endian buf = read_bytes_big_endian PRICE_BYTES buf"

definition read_unsigned_big_endian :: "byte list \<Rightarrow> 'a::len word" where
  "read_unsigned_big_endian buf = read_bytes_big_endian (LENGTH('a) div 8) buf"

text \<open>\<open>memcmp(a, b, n) < 0\<close> on two buffers of the same length.\<close>

fun memcmp_less :: "byte list \<Rightarrow> byte list \<Rightarrow> bool" where
  "memcmp_less (a # as) (b # bs) = (if a = b then memcmp_less as bs else a < b)"
| "memcmp_less _ _ = False"

section \<open>Price arithmetic\<close>

definition impose_bounds :: "u128 \<Rightarrow> price" where
  "impose_bounds val =
     (if ucast PRICE_MAX < val then PRICE_MAX else if val = 0 then 1 else ucast val)"

definition is_valid_price :: "price \<Rightarrow> bool" where
  "is_valid_price p \<longleftrightarrow> p \<le> PRICE_MAX \<and> p \<noteq> 0"

definition smooth_mult :: "price \<Rightarrow> nat \<Rightarrow> price" where
  "smooth_mult p s = p - drop_bit s p"

definition a_over_b_leq_c :: "price \<Rightarrow> price \<Rightarrow> price \<Rightarrow> bool" where
  "a_over_b_leq_c a b c \<longleftrightarrow> push_bit PRICE_RADIX (ucast a :: u128) \<le> ucast b * ucast c"

definition a_over_b_lt_c :: "price \<Rightarrow> price \<Rightarrow> price \<Rightarrow> bool" where
  "a_over_b_lt_c a b c \<longleftrightarrow> push_bit PRICE_RADIX (ucast a :: u128) < ucast b * ucast c"

text \<open>
  \<open>value * a / b\<close> in 128 bits, without the 192-bit intermediate product.  The division by
  \<open>b = 0\<close> is undefined in the source; every statement below carries \<open>b \<noteq> 0\<close>.
\<close>

definition wide_multiply_val_by_a_over_b :: "u128 \<Rightarrow> price \<Rightarrow> price \<Rightarrow> u128" where
  "wide_multiply_val_by_a_over_b val a b =
     (let denom = ucast b; numer = ucast a;
          modulo = (val div denom) * numer;
          remainder = ((val mod denom) * numer) div denom
      in modulo + remainder)"

definition UINT64_MAX :: u128 where
  "UINT64_MAX = 0xFFFFFFFFFFFFFFFF"

definition safe_multiply_and_drop_lowbits :: "u128 \<Rightarrow> u128 \<Rightarrow> nat \<Rightarrow> price res" where
  "safe_multiply_and_drop_lowbits x y lowbits_to_drop =
     (if lowbits_to_drop < 64 \<or> 196 < lowbits_to_drop then Inl (Runtime_error ''unimplemented'')
      else
        let first_low = x AND UINT64_MAX; first_high = drop_bit 64 x AND UINT64_MAX;
            second_low = y AND UINT64_MAX; second_high = drop_bit 64 y AND UINT64_MAX;
            low_low = first_low * second_low;
            low_high = first_low * second_high;
            high_low = first_high * second_low;
            high_high = first_high * second_high;
            out = (if lowbits_to_drop < 128 then drop_bit lowbits_to_drop low_low else 0);
            lowhigh_offset = lowbits_to_drop - 64;
            out = out + (drop_bit lowhigh_offset low_high + drop_bit lowhigh_offset high_low);
            out = (if lowbits_to_drop \<le> 128
                   then let used_lowbits = 128 - lowbits_to_drop;
                            used_highbits = (if used_lowbits \<le> PRICE_BIT_LEN
                                             then PRICE_BIT_LEN - used_lowbits else 0);
                            max_highbits = push_bit used_highbits 1 - 1;
                            high_high = (if max_highbits < high_high then max_highbits
                                         else high_high)
                        in out + push_bit used_lowbits high_high
                   else out + drop_bit (lowbits_to_drop - 128) high_high)
        in Inr (if ucast PRICE_MAX < out then PRICE_MAX else ucast out))"

definition divide_prices :: "price \<Rightarrow> price \<Rightarrow> price" where
  "divide_prices sell_price buy_price =
     (let ratio = push_bit 64 (ucast sell_price :: u128) div ucast buy_price;
          ratio = drop_bit (64 - PRICE_RADIX) ratio
      in ucast (ratio AND UINT64_MAX))"

section \<open>Byte strings as numbers\<close>

definition be_nat :: "byte list \<Rightarrow> nat" where
  "be_nat bs = foldl (\<lambda>n b. n * 256 + unat b) 0 bs"

lemma foldl_be_nat:
  "foldl (\<lambda>n b. n * 256 + unat (b :: byte)) k bs = k * 256 ^ length bs + be_nat bs"
proof (induction bs arbitrary: k)
  case Nil
  then show ?case by (simp add: be_nat_def)
next
  case (Cons b bs)
  have "foldl (\<lambda>n b. n * 256 + unat b) k (b # bs) = (k * 256 + unat b) * 256 ^ length bs + be_nat bs"
    using Cons.IH [of "k * 256 + unat b"] by simp
  moreover have "be_nat (b # bs) = unat b * 256 ^ length bs + be_nat bs"
    using Cons.IH [of "unat b"] by (simp add: be_nat_def)
  ultimately show ?case by (simp add: algebra_simps)
qed

lemma be_nat_simps [simp]:
  "be_nat [] = 0"
  "be_nat (b # bs) = unat b * 256 ^ length bs + be_nat bs"
  using foldl_be_nat [of "unat b" bs] by (simp_all add: be_nat_def)

lemma be_nat_append: "be_nat (as @ bs) = be_nat as * 256 ^ length bs + be_nat bs"
  by (induction as) (simp_all add: algebra_simps power_add)

lemma be_nat_less: "be_nat bs < 256 ^ length bs"
proof (induction bs)
  case Nil
  then show ?case by simp
next
  case (Cons b bs)
  have "unat b * 256 ^ length bs + be_nat bs < (unat b + 1) * 256 ^ length bs"
    using Cons.IH by (simp add: algebra_simps)
  also have "\<dots> \<le> 256 * 256 ^ length bs"
    by (rule mult_right_mono) (use unat_lt2p_u8 [of b] in linarith, simp)
  finally show ?case by simp
qed

lemma length_big_endian_bytes [simp]: "length (big_endian_bytes sz v) = sz"
  by (simp add: big_endian_bytes_def)

lemma big_endian_bytes_Suc:
  "big_endian_bytes (Suc n) v = be_byte (Suc n) v 0 # big_endian_bytes n v"
proof -
  have "map (be_byte (Suc n) v) (map Suc [0..<n]) = map (be_byte n v) [0..<n]"
    by (simp add: be_byte_def)
  then show ?thesis by (simp add: big_endian_bytes_def upt_conv_Cons map_Suc_upt del: upt_Suc)
qed

lemma unat_and_FF: "unat ((x :: 'a::len word) AND 0xFF) = unat x mod 256"
proof -
  have "(0xFF :: 'a word) = mask 8" by (simp add: mask_eq_exp_minus_1)
  then have "x AND 0xFF = take_bit 8 x" by (simp add: take_bit_eq_mask)
  then have "unat (x AND 0xFF) = take_bit 8 (unat x)" by (simp only: unsigned_take_bit_eq)
  then show ?thesis by (simp only: take_bit_eq_mod) simp
qed

lemma unat_be_byte: "unat (be_byte sz (v :: 'a::len word) loc) = unat v div 256 ^ (sz - loc - 1) mod 256"
proof -
  have "unat (be_byte sz v loc) = unat (drop_bit ((sz - loc - 1) * 8) v AND 0xFF) mod 256"
    by (simp add: be_byte_def unsigned_ucast_eq take_bit_eq_mod)
  also have "\<dots> = unat v div 2 ^ ((sz - loc - 1) * 8) mod 256"
    by (simp add: unat_and_FF unat_drop_bit del: drop_bit_numeral_minus_bit1)
  finally show ?thesis by (simp only: pow256 mult.commute)
qed

lemma be_nat_big_endian_bytes: "be_nat (big_endian_bytes n v) = unat v mod 256 ^ n"
proof (induction n)
  case 0
  then show ?case by (simp add: big_endian_bytes_def)
next
  case (Suc n)
  have "unat v mod (256 ^ n * 256) = 256 ^ n * (unat v div 256 ^ n mod 256) + unat v mod 256 ^ n"
    by (rule mod_mult2_eq)
  with Suc show ?case
    by (simp add: big_endian_bytes_Suc unat_be_byte mult.commute)
qed

lemma read_bytes_unat:
  assumes "length bs * 8 \<le> LENGTH('a)"
  shows "unat (foldl (\<lambda>p b. push_bit 8 p + ucast b) 0 bs :: 'a::len word) = be_nat bs"
  using assms
proof (induction bs rule: rev_induct)
  case Nil
  then show ?case by simp
next
  case (snoc b bs)
  let ?p = "foldl (\<lambda>p b. push_bit 8 p + ucast b) 0 bs :: 'a word"
  have IH: "unat ?p = be_nat bs" using snoc by simp
  have "be_nat (bs @ [b]) < 256 ^ length (bs @ [b])" by (rule be_nat_less)
  also have "(256 :: nat) ^ length (bs @ [b]) = 2 ^ (8 * length (bs @ [b]))"
    by (rule pow256)
  also have "\<dots> \<le> 2 ^ LENGTH('a)"
    using snoc.prems by (intro power_increasing) (simp_all add: mult.commute)
  finally have bound: "be_nat bs * 256 + unat b < 2 ^ LENGTH('a)"
    by (simp add: be_nat_append)
  have push: "unat (push_bit 8 ?p) = be_nat bs * 256"
    using bound IH by (simp add: unat_push_bit)
  have "LENGTH(8) \<le> LENGTH('a)" using snoc.prems by simp
  then have cast: "unat (ucast b :: 'a word) = unat b"
    using unat_ucast_up [where 'a = 8 and 'b = 'a] by blast
  have "unat (push_bit 8 ?p + ucast b) = be_nat bs * 256 + unat b"
    using bound push cast by (subst unat_add_exact) simp_all
  then show ?case by (simp add: be_nat_append)
qed

lemma write_bytes_at_eq:
  "loc + length bs \<le> length buf \<Longrightarrow>
   write_bytes_at buf loc bs = Inr (take loc buf @ bs @ drop (loc + length bs) buf)"
proof (induction bs arbitrary: buf loc)
  case Nil
  then show ?case by simp
next
  case (Cons b bs)
  have "take (Suc loc) (buf[loc := b]) = take loc buf @ [b]"
    using Cons.prems by (simp add: take_Suc_conv_app_nth)
  with Cons show ?case by simp
qed

lemma memcmp_less_be_nat:
  "length as = length bs \<Longrightarrow> memcmp_less as bs \<longleftrightarrow> be_nat as < be_nat bs"
proof (induction as bs rule: list_induct2)
  case Nil
  then show ?case by simp
next
  case (Cons a as b bs)
  let ?n = "256 ^ length bs :: nat"
  have lt: "be_nat as < ?n" "be_nat bs < ?n"
    using be_nat_less [of as] be_nat_less [of bs] Cons.hyps by simp_all
  have step: "unat x * ?n + r < unat y * ?n + s" if "unat x < unat y" "r < ?n" for x y :: byte and r s
  proof -
    have "unat x * ?n + r < (unat x + 1) * ?n" using that(2) by simp
    also have "\<dots> \<le> unat y * ?n" using that(1) by (intro mult_right_mono) simp_all
    finally show ?thesis by simp
  qed
  consider "a = b" | "unat a < unat b" | "unat b < unat a"
    using unsigned_word_eqI [where 'a = nat] by (metis linorder_neqE_nat)
  then show ?case
  proof cases
    case 1
    with Cons show ?thesis by simp
  next
    case 2
    then have "a \<noteq> b" "a < b" by (auto simp: word_less_nat_alt)
    with 2 step [OF 2 lt(1), of "be_nat bs"] Cons.hyps show ?thesis by simp
  next
    case 3
    then have "a \<noteq> b" "\<not> a < b" by (auto simp: word_less_nat_alt)
    with 3 step [OF 3 lt(2), of "be_nat as"] Cons.hyps show ?thesis by simp
  qed
qed

section \<open>Encoding: round trips and order\<close>

lemma read_bytes_big_endian_unat:
  assumes "sz * 8 \<le> LENGTH('a)" "sz \<le> length buf"
  shows "unat (read_bytes_big_endian sz buf :: 'a::len word) = be_nat (take sz buf)"
  using read_bytes_unat [of "take sz buf", where 'a = 'a] assms
  by (simp add: read_bytes_big_endian_def)

lemma big_endian_bytes_read:
  assumes "sz * 8 \<le> LENGTH('a)" "unat (v :: 'a::len word) < 256 ^ sz"
  shows "(read_bytes_big_endian sz (big_endian_bytes sz v @ rest) :: 'a word) = v"
proof (rule unsigned_word_eqI [where 'a = nat])
  show "unat (read_bytes_big_endian sz (big_endian_bytes sz v @ rest) :: 'a word) = unat v"
    using assms by (simp add: read_bytes_big_endian_unat be_nat_big_endian_bytes)
qed

lemma unat_valid_price: "is_valid_price p \<Longrightarrow> unat p < 256 ^ 6"
  by (simp add: is_valid_price_def word_le_nat_alt unat_PRICE_MAX)

lemma write_price_eq:
  "6 \<le> length buf \<Longrightarrow>
   write_price_big_endian buf p = Inr (big_endian_bytes 6 p @ drop 6 buf)"
  by (simp add: write_price_big_endian_def write_bytes_at_eq)

lemma write_price_short:
  assumes "length buf < 6"
  shows "write_price_big_endian buf p = Inl Out_of_range"
proof -
  have gen: "length buf < loc + length bs \<Longrightarrow> loc \<le> length buf
             \<Longrightarrow> write_bytes_at buf loc bs = Inl Out_of_range" for buf loc bs
    by (induction buf loc bs rule: write_bytes_at.induct) auto
  show ?thesis
    using gen [of buf 0 "big_endian_bytes 6 p"] assms by (simp add: write_price_big_endian_def)
qed

lemma read_price_of_bytes:
  "is_valid_price p \<Longrightarrow> read_price_big_endian (big_endian_bytes 6 p @ rest) = p"
  using big_endian_bytes_read [of 6 p rest] unat_valid_price [of p]
  by (simp add: read_price_big_endian_def)

lemma read_unsigned_of_bytes:
  "read_unsigned_big_endian (big_endian_bytes 8 (v :: u64) @ rest) = v"
  using big_endian_bytes_read [of 8 v rest] by (simp add: read_unsigned_big_endian_def)

lemma memcmp_less_append:
  "length as = length bs \<Longrightarrow>
   memcmp_less (as @ cs) (bs @ ds) \<longleftrightarrow> memcmp_less as bs \<or> as = bs \<and> memcmp_less cs ds"
  by (induction as bs rule: list_induct2) auto

lemma memcmp_less_bytes:
  assumes "unat v < 256 ^ sz" "unat w < 256 ^ sz"
  shows "memcmp_less (big_endian_bytes sz v) (big_endian_bytes sz w) \<longleftrightarrow> v < w"
  using assms
  by (simp add: memcmp_less_be_nat be_nat_big_endian_bytes word_less_nat_alt)

lemma big_endian_bytes_inject:
  assumes "unat v < 256 ^ sz" "unat w < 256 ^ sz"
  shows "big_endian_bytes sz v = big_endian_bytes sz w \<longleftrightarrow> v = w"
proof
  assume "big_endian_bytes sz v = big_endian_bytes sz w"
  then have "be_nat (big_endian_bytes sz v) = be_nat (big_endian_bytes sz w)" by simp
  then show "v = w" using assms
    by (intro unsigned_word_eqI [where 'a = nat]) (simp add: be_nat_big_endian_bytes)
qed simp

text \<open>
  The encoding of a valid price occupies exactly the first six bytes and is undone by the read;
  a shorter buffer is refused.
\<close>

lemma price_encoding_round_trip:
  assumes "is_valid_price p"
  shows "write_price_big_endian buf p =
           (if length buf < 6 then Inl Out_of_range
            else Inr (big_endian_bytes 6 p @ drop 6 buf))"
    and "read_price_big_endian (big_endian_bytes 6 p @ rest) = p"
  using assms write_price_eq [of buf p] write_price_short [of buf p] read_price_of_bytes
  by (auto simp: not_less)

section \<open>Exactness of the price arithmetic\<close>

lemma unat_u64_to_u128 [simp]: "unat (ucast (x :: u64) :: u128) = unat x"
  by (rule unat_ucast_up) simp

lemma unat_u64_times: "unat (ucast (a :: u64) * ucast (b :: u64) :: u128) = unat a * unat b"
proof -
  have "unat a * unat b \<le> (2 ^ 64 - 1) * (2 ^ 64 - 1)"
    by (intro mult_mono) simp_all
  then show ?thesis by (subst unat_mult_exact) simp_all
qed

lemma unat_u64_shift: "unat (push_bit PRICE_RADIX (ucast (a :: u64)) :: u128) = unat a * 2 ^ 24"
proof -
  have "unat a < 20282409603651670423947251286016" by (rule le_less_trans [OF unat_le_u64]) simp
  then have "unat a * 2 ^ 24 < 2 ^ 128" by simp
  then show ?thesis by (simp add: unat_push_bit PRICE_RADIX_def)
qed

lemma a_over_b_leq_c_exact: "a_over_b_leq_c a b c \<longleftrightarrow> unat a * 2 ^ 24 \<le> unat b * unat c"
  by (simp only: a_over_b_leq_c_def word_le_nat_alt unat_u64_shift unat_u64_times)

lemma a_over_b_lt_c_exact: "a_over_b_lt_c a b c \<longleftrightarrow> unat a * 2 ^ 24 < unat b * unat c"
  by (simp only: a_over_b_lt_c_def word_less_nat_alt unat_u64_shift unat_u64_times)

text \<open>The numeric identity behind the multiply-divide without a wide intermediate product.\<close>

lemma mult_div_split: "(v div d) * n + ((v mod d) * n) div d = v * n div (d :: nat)"
proof (cases "d = 0")
  case False
  have "v * n = d * ((v div d) * n) + (v mod d) * n"
    by (metis add_mult_distrib mult.assoc mult_div_mod_eq)
  then have "v * n div d = (d * ((v div d) * n) + (v mod d) * n) div d" by simp
  also have "\<dots> = (v div d) * n + ((v mod d) * n) div d" using False by simp
  finally show ?thesis by simp
qed simp

lemma wide_multiply_exact:
  assumes b: "b \<noteq> 0" and fits: "unat val * unat a div unat b < 2 ^ 128"
  shows "unat (wide_multiply_val_by_a_over_b val a b) = unat val * unat a div unat b"
proof -
  let ?v = "unat val" and ?a = "unat a" and ?b = "unat b"
  have b0: "0 < ?b" using b by (simp add: unat_gt_0)
  note split = mult_div_split [of ?v ?b ?a]
  have q: "unat (val div ucast b) = ?v div ?b" by (simp add: unat_div)
  have r: "unat (val mod ucast b) = ?v mod ?b" by (simp add: unat_mod)
  have modulo: "unat ((val div ucast b) * ucast a) = (?v div ?b) * ?a"
    using fits split by (subst unat_mult_exact) (simp_all add: q)
  have "?v mod ?b * ?a \<le> (2 ^ 64 - 1) * (2 ^ 64 - 1)"
    using mod_less_divisor [OF b0, of ?v] unat_le_u64 [of b]
    by (intro mult_mono) (simp_all del: unat_le_u64 mod_less_divisor, simp)
  then have "unat ((val mod ucast b) * ucast a) = ?v mod ?b * ?a"
    by (subst unat_mult_exact) (simp_all add: r)
  then have remainder: "unat (((val mod ucast b) * ucast a) div ucast b) = ?v mod ?b * ?a div ?b"
    by (simp add: unat_div)
  show ?thesis
    using fits split unfolding wide_multiply_val_by_a_over_b_def Let_def
    by (subst unat_add_exact) (simp_all only: modulo remainder, simp_all)
qed

lemma impose_bounds_spec:
  "unat (impose_bounds val) = max 1 (min (unat val) (2 ^ 48 - 1))" (is ?unat)
  "is_valid_price (impose_bounds val)" (is ?valid)
proof -
  have c: "unat (ucast val :: u64) = unat val" if "unat val \<le> 2 ^ 48 - 1"
    using that by (simp add: unsigned_ucast_eq take_bit_nat_eq_self)
  have z: "val = 0 \<longleftrightarrow> unat val = 0" by (simp add: unat_eq_0)
  show ?unat
    using c by (auto simp: impose_bounds_def word_less_nat_alt unat_PRICE_MAX z)
  then show ?valid
    by (auto simp: is_valid_price_def word_le_nat_alt unat_PRICE_MAX unat_eq_0 [symmetric])
qed

end
