(* ===== verification/Fixed_Precision.thy ===== *)
theory Fixed_Precision
  imports Speedex_Prelude
begin

text \<open>
  \<^verbatim>\<open>FixedPrecision<radix, integral_type>\<close> of \<^verbatim>\<open>fixed_point_value.h\<close> at its only
  instance \<^verbatim>\<open>FractionalAsset\<close>: 128-bit amounts with 10 fractional bits.  The operators
  wrap like the C++ ones; the lemmas give their value in \<open>nat\<close>, the tax in closed form, and the
  superadditivity of tax and rounding that the solvency of a clearing rests on.
\<close>

section \<open>The type and its operators\<close>

definition RADIX :: nat where
  "RADIX = 10"

record FractionalAsset =
  fa_value :: u128

definition get_lowbits_mask :: "nat \<Rightarrow> u128" where
  "get_lowbits_mask query_radix = push_bit query_radix 1 - 1"

definition from_raw :: "u128 \<Rightarrow> FractionalAsset" where
  "from_raw v = \<lparr>fa_value = v\<rparr>"

definition from_integral :: "u128 \<Rightarrow> FractionalAsset" where
  "from_integral v = \<lparr>fa_value = push_bit RADIX v\<rparr>"

definition fa_plus :: "FractionalAsset \<Rightarrow> FractionalAsset \<Rightarrow> FractionalAsset" where
  "fa_plus x y = from_raw (fa_value x + fa_value y)"

definition fa_minus :: "FractionalAsset \<Rightarrow> FractionalAsset \<Rightarrow> FractionalAsset" where
  "fa_minus x y = from_raw (fa_value x - fa_value y)"

definition fa_times :: "FractionalAsset \<Rightarrow> u64 \<Rightarrow> FractionalAsset" where
  "fa_times x y = from_raw (fa_value x * ucast y)"

definition fa_shift_right :: "FractionalAsset \<Rightarrow> nat \<Rightarrow> FractionalAsset" where
  "fa_shift_right x i = from_raw (drop_bit i (fa_value x))"

definition fa_floor :: "FractionalAsset \<Rightarrow> u128" where
  "fa_floor x = drop_bit RADIX (fa_value x)"

definition fa_ceil :: "FractionalAsset \<Rightarrow> u128" where
  "fa_ceil x = fa_floor x + of_bool (fa_value x AND get_lowbits_mask RADIX \<noteq> 0)"

text \<open>The common part of \<open>tax\<close> and \<open>tax_and_round\<close>: the tax is rounded up.\<close>

definition tax_amount :: "u128 \<Rightarrow> u8 \<Rightarrow> u128" where
  "tax_amount v tax_rate =
     (let tax = drop_bit (unat tax_rate) v
      in if v AND get_lowbits_mask (unat tax_rate) \<noteq> 0 then tax + 1 else tax)"

definition fa_tax :: "FractionalAsset \<Rightarrow> u8 \<Rightarrow> FractionalAsset" where
  "fa_tax x tax_rate = from_raw (fa_value x - tax_amount (fa_value x) tax_rate)"

definition tax_and_round :: "FractionalAsset \<Rightarrow> u8 \<Rightarrow> u128" where
  "tax_and_round x tax_rate =
     drop_bit RADIX (fa_value x - tax_amount (fa_value x) tax_rate)"

text \<open>The struct is ordered by its raw value, as its defaulted comparison is.\<close>

instantiation FractionalAsset_ext :: (linorder) linorder
begin

definition less_eq_FractionalAsset_ext ::
    "('a :: linorder) FractionalAsset_scheme \<Rightarrow> 'a FractionalAsset_scheme \<Rightarrow> bool" where
  "x \<le> y \<longleftrightarrow> fa_value x < fa_value y \<or>
     fa_value x = fa_value y \<and> FractionalAsset.more x \<le> FractionalAsset.more y"

definition less_FractionalAsset_ext ::
    "('a :: linorder) FractionalAsset_scheme \<Rightarrow> 'a FractionalAsset_scheme \<Rightarrow> bool" where
  "x < y \<longleftrightarrow> fa_value x < fa_value y \<or>
     fa_value x = fa_value y \<and> FractionalAsset.more x < FractionalAsset.more y"

instance
  by standard (auto simp: less_eq_FractionalAsset_ext_def less_FractionalAsset_ext_def
      intro: FractionalAsset.equality)

end

section \<open>Values of the operators\<close>

lemma fa_value_from_raw [simp]: "fa_value (from_raw v) = v"
  by (simp add: from_raw_def)

lemma from_raw_fa_value [simp]: "from_raw (fa_value x) = x"
  by (simp add: from_raw_def)

lemma lowbits_zero_iff:
  assumes "n < 128"
  shows "v AND get_lowbits_mask n = 0 \<longleftrightarrow> unat v mod 2 ^ n = 0"
proof -
  have "get_lowbits_mask n = mask n"
    by (simp add: get_lowbits_mask_def mask_eq_exp_minus_1 push_bit_eq_mult)
  then have "v AND get_lowbits_mask n = take_bit n v" by (simp add: take_bit_eq_mask)
  moreover have "unat (take_bit n v) = take_bit n (unat v)" by (rule unsigned_take_bit_eq)
  then have "unat (take_bit n v) = unat v mod 2 ^ n" by (simp only: take_bit_eq_mod)
  ultimately show ?thesis by (metis unat_eq_0 unat_0)
qed

lemma unat_from_integral:
  assumes "unat v < 2 ^ 118"
  shows "unat (fa_value (from_integral v)) = unat v * 2 ^ 10"
proof -
  have "unat v * 2 ^ 10 < 2 ^ 128" using assms by simp
  then show ?thesis by (simp add: from_integral_def RADIX_def unat_push_bit)
qed

lemma unat_fa_floor: "unat (fa_floor x) = unat (fa_value x) div 2 ^ 10"
  by (simp only: fa_floor_def RADIX_def unat_drop_bit)

definition ceil_div :: "nat \<Rightarrow> nat \<Rightarrow> nat" where
  "ceil_div x d = x div d + of_bool (x mod d \<noteq> 0)"

lemma unat_floor_plus_lowbits:
  assumes n: "0 < n" "n < 128"
  shows "unat (drop_bit n v + of_bool (v AND get_lowbits_mask n \<noteq> 0) :: u128)
         = ceil_div (unat v) (2 ^ n)"
proof -
  have "unat v div 2 ^ n \<le> unat v div 2 ^ 1"
    using n by (intro div_le_mono2 power_increasing) simp_all
  also have "\<dots> < 2 ^ 127" by (rule less_mult_imp_div_less) simp
  finally have "unat v div 2 ^ n + 1 < 2 ^ LENGTH(128)" by simp
  then show ?thesis
    by (subst unat_add_exact)
      (auto simp: unat_drop_bit lowbits_zero_iff n ceil_div_def of_bool_def)
qed

lemma unat_fa_ceil: "unat (fa_ceil x) = ceil_div (unat (fa_value x)) (2 ^ 10)"
  using unat_floor_plus_lowbits [of 10 "fa_value x"]
  by (simp add: fa_ceil_def fa_floor_def RADIX_def)

lemma ceil_div_upper: "0 < d \<Longrightarrow> x \<le> ceil_div x d * d"
proof -
  assume d: "0 < d"
  have "x mod d \<le> of_bool (x mod d \<noteq> 0) * d"
    using less_imp_le [OF mod_less_divisor [OF d, of x]] by (cases "x mod d = 0") simp_all
  then have "x div d * d + x mod d \<le> x div d * d + of_bool (x mod d \<noteq> 0) * d"
    by (rule add_left_mono)
  then show ?thesis by (simp only: ceil_div_def add_mult_distrib div_mult_mod_eq)
qed

section \<open>The tax in closed form\<close>

text \<open>\<open>x - ceil(x / 2^t)\<close> is \<open>x (2^t - 1) / 2^t\<close> rounded down.\<close>

lemma minus_ceil_div: "0 < T \<Longrightarrow> x - ceil_div x T = x * (T - 1) div (T :: nat)"
proof -
  assume T: "0 < T"
  define q r where "q = x div T" and "r = x mod T"
  have x: "x = q * T + r" and r: "r < T"
    using T by (simp_all add: q_def r_def)
  show "x - ceil_div x T = x * (T - 1) div T"
  proof (cases "r = 0")
    case True
    then have "x * (T - 1) div T = q * (T - 1)" using x T by (simp add: mult.assoc)
    moreover have "ceil_div x T = q"
      using True by (simp add: ceil_div_def flip: q_def r_def)
    ultimately show ?thesis using True by (simp only: x) (simp add: right_diff_distrib')
  next
    case False
    then obtain k m where km: "r = Suc k" "T = Suc m" "k \<le> m"
      using r by (cases r; cases T) auto
    have rT: "r * (T - 1) = (r - 1) * T + (T - r)" by (simp add: km)
    have "x * (T - 1) = q * (T - 1) * T + r * (T - 1)" by (simp add: x algebra_simps)
    also have "\<dots> = (T - r) + (q * (T - 1) + (r - 1)) * T"
      by (simp only: rT distrib_left ac_simps)
    finally have "x * (T - 1) div T = (T - r) div T + (q * (T - 1) + (r - 1))"
      using T by (simp only: div_mult_self1)
    moreover have "(T - r) div T = 0" using False T by simp
    moreover have "ceil_div x T = q + 1"
      using False by (simp add: ceil_div_def flip: q_def r_def)
    ultimately show ?thesis by (simp only: x) (simp add: km)
  qed
qed

definition taxed :: "nat \<Rightarrow> nat \<Rightarrow> nat" where
  "taxed t x = x * (2 ^ t - 1) div 2 ^ t"

lemma taxed_le: "taxed t x \<le> x"
proof -
  have "x * (2 ^ t - 1) div 2 ^ t \<le> x * 2 ^ t div 2 ^ t" by (intro div_le_mono mult_le_mono) simp_all
  then show ?thesis by (simp add: taxed_def)
qed

text \<open>
  Rounding down, taxing and converting at a price never gain by splitting an amount.  The interface
  is one law; that a sum of rounded parts stays below the rounded sum follows once for all of them.
\<close>

locale superadditive =
  fixes h :: "nat \<Rightarrow> nat"
  assumes split_loses: "h x + h y \<le> h (x + y)"
begin

lemma mono: "x \<le> y \<Longrightarrow> h x \<le> h y"
  using split_loses [of x "y - x"] by simp

lemma sum_list_le: "sum_list (map h xs) \<le> h (sum_list xs)"
proof (induction xs)
  case (Cons x xs)
  then show ?case using split_loses [of x "sum_list xs"] by simp
qed simp

lemma compose:
  assumes "superadditive g"
  shows "superadditive (\<lambda>x. h (g x))"
proof
  fix x y
  have "h (g x) + h (g y) \<le> h (g x + g y)" by (rule split_loses)
  also have "\<dots> \<le> h (g (x + y))" by (rule mono) (rule superadditive.split_loses [OF assms])
  finally show "h (g x) + h (g y) \<le> h (g (x + y))" .
qed

end

interpretation floor_div: superadditive "\<lambda>x. x div d" for d
  by unfold_locales (metis div_add1_eq le_add1)

interpretation scale: superadditive "\<lambda>x. x * p" for p
  by unfold_locales (simp add: add_mult_distrib)

interpretation convert: superadditive "\<lambda>x. x * p div q" for p q
  by (rule floor_div.compose) (rule scale.superadditive_axioms)

interpretation taxed: superadditive "taxed t" for t
  unfolding taxed_def by (rule convert.superadditive_axioms)

interpretation tax_round: superadditive "\<lambda>x. taxed t x div d" for t d
  by (rule floor_div.compose) (rule taxed.superadditive_axioms)

interpretation payout: superadditive "\<lambda>x. taxed t (x * p div q) div d" for t p q d
  by (rule tax_round.compose) (rule convert.superadditive_axioms)

lemma unat_tax_amount:
  assumes "unat t < 128"
  shows "unat (tax_amount v t) = ceil_div (unat v) (2 ^ unat t)"
proof (cases "unat t = 0")
  case True
  then show ?thesis
    by (simp add: tax_amount_def get_lowbits_mask_def ceil_div_def)
next
  case False
  have "tax_amount v t = drop_bit (unat t) v + of_bool (v AND get_lowbits_mask (unat t) \<noteq> 0)"
    by (simp add: tax_amount_def Let_def)
  with False assms show ?thesis using unat_floor_plus_lowbits [of "unat t" v] by simp
qed

lemma unat_minus_tax:
  assumes "unat t < 128"
  shows "unat (v - tax_amount v t) = taxed (unat t) (unat v)"
proof -
  have "ceil_div (unat v) (2 ^ unat t) \<le> unat v"
  proof -
    have "ceil_div x d \<le> x" if "0 < d" for x d
    proof (cases "d = 1")
      case False
      show ?thesis
      proof (cases "x < d")
        case True
        then show ?thesis by (auto simp: ceil_div_def)
      next
        case le: False
        have "x div d < x" using that False le by (intro div_less_dividend) linarith+
        then show ?thesis by (auto simp: ceil_div_def of_bool_def)
      qed
    qed (simp add: ceil_div_def)
    then show ?thesis by simp
  qed
  then have "unat (v - tax_amount v t) = unat v - ceil_div (unat v) (2 ^ unat t)"
    by (subst unat_sub_exact) (simp_all add: unat_tax_amount assms)
  then show ?thesis by (simp add: minus_ceil_div taxed_def)
qed

lemma unat_fa_tax:
  "unat t < 128 \<Longrightarrow> unat (fa_value (fa_tax x t)) = taxed (unat t) (unat (fa_value x))"
  by (simp add: fa_tax_def unat_minus_tax)

lemma unat_tax_and_round:
  "unat t < 128 \<Longrightarrow>
   unat (tax_and_round x t) = taxed (unat t) (unat (fa_value x)) div 2 ^ 10"
  by (simp only: tax_and_round_def RADIX_def unat_drop_bit unat_minus_tax)

end
