(* ===== verification/Xdr_Types.thy ===== *)
theory Xdr_Types
  imports Price_Utils Fixed_Precision
begin

text \<open>
  The wire types the processing code works on, from \<^verbatim>\<open>xdr/types.x\<close>,
  \<^verbatim>\<open>xdr/transaction.x\<close>, \<^verbatim>\<open>xdr/block.x\<close> and
  \<^verbatim>\<open>xdr/database_commitments.x\<close>: structs as records, enums and unions as datatypes,
  opaque arrays as byte lists.
\<close>

type_synonym AccountID = u64
type_synonym AssetID = u32
type_synonym PublicKey = "byte list"
type_synonym Hash = "byte list"
type_synonym Signature = "byte list"
type_synonym OfferKeyType = "byte list"

definition NATIVE_ASSET :: AssetID where
  "NATIVE_ASSET = 0"

section \<open>Offers\<close>

text \<open>\<open>OFFER_TYPE_INVALID\<close> is \<open>static_cast<OfferType>(-1)\<close>.\<close>

datatype OfferType = SELL | OFFER_TYPE_INVALID

definition NUM_OFFER_TYPES :: nat where
  "NUM_OFFER_TYPES = 1"

record OfferCategory =
  sellAsset :: AssetID
  buyAsset :: AssetID
  offerType :: OfferType

record Offer =
  category :: OfferCategory
  offerId :: u64
  offer_owner :: AccountID
  offer_amount :: u64
  minPrice :: price

section \<open>Transactions\<close>

datatype TransactionProcessingStatus =
    SUCCESS | SOURCE_ACCOUNT_NEXIST | INVALID_OPERATION_TYPE | SEQ_NUM_TOO_LOW | SEQ_NUM_TOO_HIGH
  | SEQ_NUM_TEMP_IN_USE | STARTING_BALANCE_TOO_LOW | NEW_ACCOUNT_ALREADY_EXISTS
  | NEW_ACCOUNT_TEMP_RESERVED | INSUFFICIENT_BALANCE | INVALID_TX_FORMAT | INVALID_OFFER_CATEGORY
  | INVALID_PRICE | CANCEL_OFFER_TARGET_NEXIST | RECIPIENT_ACCOUNT_NEXIST
  | INVALID_PRINT_MONEY_AMOUNT | INVALID_AMOUNT

record CreateAccountOp =
  startingBalance :: i64
  newAccountId :: AccountID
  newAccountPublicKey :: PublicKey

record CreateSellOfferOp =
  cso_category :: OfferCategory
  cso_amount :: i64
  cso_minPrice :: price

record CancelSellOfferOp =
  cancel_category :: OfferCategory
  cancel_offerId :: u64
  cancel_minPrice :: price

record PaymentOp =
  receiver :: AccountID
  payment_asset :: AssetID
  payment_amount :: i64

record MoneyPrinterOp =
  printer_asset :: AssetID
  printer_amount :: i64

datatype Operation =
    CREATE_ACCOUNT CreateAccountOp
  | CREATE_SELL_OFFER CreateSellOfferOp
  | CANCEL_SELL_OFFER CancelSellOfferOp
  | PAYMENT PaymentOp
  | MONEY_PRINTER MoneyPrinterOp

definition CREATE_ACCOUNT_MIN_STARTING_BALANCE :: i64 where
  "CREATE_ACCOUNT_MIN_STARTING_BALANCE = 100"

definition MAX_OPS_PER_TX :: nat where
  "MAX_OPS_PER_TX = 256"

definition RESERVED_SEQUENCE_NUM_LOWBITS :: u64 where
  "RESERVED_SEQUENCE_NUM_LOWBITS = 255"

record TransactionMetadata =
  sourceAccount :: AccountID
  sequenceNumber :: u64

record Transaction =
  metadata :: TransactionMetadata
  operations :: "Operation list"
  fee :: u32

record SignedTransaction =
  transaction :: Transaction
  signature :: Signature

section \<open>Commitments\<close>

record SingleWorkUnitStateCommitment =
  rootHash :: Hash
  fractionalSupplyActivated_bytes :: "byte list"
  partialExecThresholdKey :: OfferKeyType
  thresholdKeyIsNull :: u32
  partialExecOfferActivationAmount_bytes :: "byte list"

record AssetCommitment =
  commit_asset :: AssetID
  amount_available :: u64

record AccountCommitment =
  commit_owner :: AccountID
  commit_assets :: "AssetCommitment list"
  commit_last_committed_id :: u64
  commit_pk :: PublicKey

section \<open>Modified accounts and block statistics\<close>

record TxIdentifier =
  txid_owner :: AccountID
  txid_sequence_number :: u64

record AccountModificationTxList =
  log_owner :: AccountID
  new_transactions_self :: "SignedTransaction list"
  identifiers_self :: "u64 list"
  identifiers_others :: "TxIdentifier list"

record BlockStateUpdateStats =
  new_offer_count :: u32
  cancel_offer_count :: u32
  fully_clear_offer_count :: u32
  partial_clear_offer_count :: u32
  payment_count :: u32
  new_account_count :: u32

end
