(* ===== verification/Offer_Clearing.thy ===== *)
theory Offer_Clearing
  imports Xdr_Types "HOL-Library.Signed_Division"
begin

text \<open>
  Market indexing, the payout of a cleared offer and the acceptance check of a whole clearing:
  \<^verbatim>\<open>work_unit_manager_utils.h\<close>, \<^verbatim>\<open>offer_clearing_logic.h\<close> and
  \<^verbatim>\<open>work_unit_state_commitment.cc\<close>.
\<close>

section \<open>Market indices\<close>

definition map_type_to_int :: "OfferType \<Rightarrow> u32 res" where
  "map_type_to_int t = (case t of SELL \<Rightarrow> Inr 0
     | OFFER_TYPE_INVALID \<Rightarrow> Inl (Runtime_error ''invalid offer type''))"

definition map_int_to_type :: "int \<Rightarrow> OfferType" where
  "map_int_to_type i = (if i = 0 then SELL else OFFER_TYPE_INVALID)"

text \<open>
  The index of a market.  The products are computed in \<open>unsigned int\<close> and converted to
  \<open>int\<close>, so they wrap.
\<close>

definition category_to_idx :: "OfferCategory \<Rightarrow> u32 \<Rightarrow> int res" where
  "category_to_idx c asset_count =
     (if asset_count \<le> sellAsset c \<or> asset_count \<le> buyAsset c
      then Inl (Runtime_error ''invalid asset number'')
      else
        let units_per_order_type = asset_count * (asset_count - 1);
            idx_in_order_type = sellAsset c * (asset_count - 1) +
              (buyAsset c - (if sellAsset c < buyAsset c then 1 else 0))
        in res_bind (map_type_to_int (offerType c)) (\<lambda>t.
             Inr (sint (units_per_order_type * t + idx_in_order_type))))"

text \<open>
  The inverse works in \<open>int\<close> with C's truncating division; signed overflow (from 46342 assets
  on) and the division by zero of fewer than two assets are undefined in the source.
\<close>

definition category_from_idx :: "int \<Rightarrow> int \<Rightarrow> OfferCategory" where
  "category_from_idx idx asset_count =
     (let units_per_order_type = asset_count * (asset_count - 1);
          type = map_int_to_type (idx sdiv units_per_order_type);
          remainder = idx smod units_per_order_type;
          sell_asset = word_of_int (remainder sdiv (asset_count - 1));
          buy_asset = word_of_int (remainder smod (asset_count - 1));
          buy_asset = (if sell_asset \<le> buy_asset then buy_asset + 1 else buy_asset)
      in \<lparr>sellAsset = sell_asset, buyAsset = buy_asset, offerType = type\<rparr>)"

definition validate_category :: "OfferCategory \<Rightarrow> u32 \<Rightarrow> bool" where
  "validate_category c asset_count \<longleftrightarrow>
     \<not> (sellAsset c = buyAsset c) \<and> \<not> (asset_count \<le> sellAsset c \<or> asset_count \<le> buyAsset c)"

definition get_num_work_units_by_asset_count :: "u32 \<Rightarrow> u32" where
  "get_num_work_units_by_asset_count asset_count =
     of_nat NUM_OFFER_TYPES * (asset_count * (asset_count - 1))"

section \<open>Payout of one offer\<close>

text \<open>The amount of \<open>buyAsset\<close> credited to the owner of a fully executed offer.\<close>

definition offer_buy_amount :: "FractionalAsset \<Rightarrow> price \<Rightarrow> price \<Rightarrow> u8 \<Rightarrow> u128" where
  "offer_buy_amount amt sellPrice buyPrice tax_rate =
     tax_and_round
       (from_raw (wide_multiply_val_by_a_over_b (fa_value amt) sellPrice buyPrice)) tax_rate"

text \<open>
  \<open>transfer\<close> is \<open>db.transfer_available(db_idx, asset, change)\<close> on whatever database the template is
  instantiated with; the 128-bit amount is narrowed to \<open>int64_t\<close> by the call.
\<close>

definition clear_offer_full ::
    "('db \<Rightarrow> nat \<Rightarrow> AssetID \<Rightarrow> i64 \<Rightarrow> 'db res) \<Rightarrow> Offer \<Rightarrow> price \<Rightarrow> price \<Rightarrow> u8 \<Rightarrow> 'db \<Rightarrow> nat \<Rightarrow> 'db res"
where
  "clear_offer_full transfer offer sellPrice buyPrice tax_rate db db_idx =
     (let amt = from_integral (ucast (offer_amount offer))
      in transfer db db_idx (buyAsset (category offer))
           (ucast (offer_buy_amount amt sellPrice buyPrice tax_rate)))"

text \<open>Returns the database, \<open>out_sell_amount\<close> and \<open>out_buy_amount\<close>.\<close>

definition clear_offer_partial ::
    "('db \<Rightarrow> nat \<Rightarrow> AssetID \<Rightarrow> i64 \<Rightarrow> 'db res) \<Rightarrow> Offer \<Rightarrow> price \<Rightarrow> price \<Rightarrow> u8 \<Rightarrow> FractionalAsset
      \<Rightarrow> 'db \<Rightarrow> nat \<Rightarrow> ('db \<times> i64 \<times> i64) res" where
  "clear_offer_partial transfer offer sellPrice buyPrice tax_rate remaining_to_clear db db_idx =
     (let out_buy_amount =
            ucast (offer_buy_amount remaining_to_clear sellPrice buyPrice tax_rate);
          out_sell_amount = ucast (fa_ceil remaining_to_clear)
      in res_bind (transfer db db_idx (buyAsset (category offer)) out_buy_amount)
           (\<lambda>db. Inr (db, out_sell_amount, out_buy_amount)))"

section \<open>Acceptance of a clearing\<close>

record ClearingParams =
  tax_rate :: u8
  work_unit_params :: "FractionalAsset list"

type_synonym sd_vectors = "FractionalAsset list \<times> FractionalAsset list"

text \<open>One iteration of the accumulation loop: supplies and demands indexed by asset.\<close>

definition accumulate_work_unit ::
    "price list \<Rightarrow> nat \<Rightarrow> nat \<Rightarrow> FractionalAsset \<Rightarrow> sd_vectors \<Rightarrow> sd_vectors" where
  "accumulate_work_unit prices num_assets i supply_activated sd =
     (case sd of (supplies, demands) \<Rightarrow>
        let c = category_from_idx (int i) (int num_assets);
            s = unat (sellAsset c); b = unat (buyAsset c);
            demanded = wide_multiply_val_by_a_over_b (fa_value supply_activated)
                         (prices ! s) (prices ! b)
        in (supplies[s := fa_plus (supplies ! s) supply_activated],
            demands[b := fa_plus (demands ! b) (from_raw demanded)]))"

fun accumulate_from ::
    "price list \<Rightarrow> nat \<Rightarrow> nat \<Rightarrow> FractionalAsset list \<Rightarrow> sd_vectors \<Rightarrow> sd_vectors" where
  "accumulate_from prices num_assets i [] sd = sd"
| "accumulate_from prices num_assets i (s # ss) sd =
     accumulate_from prices num_assets (Suc i) ss (accumulate_work_unit prices num_assets i s sd)"

definition check_clearing_params :: "ClearingParams \<Rightarrow> price list \<Rightarrow> nat \<Rightarrow> bool" where
  "check_clearing_params params prices num_assets =
     (let zeros = replicate num_assets (from_raw 0);
          (supplies, demands) =
            accumulate_from prices num_assets 0 (work_unit_params params) (zeros, zeros)
      in list_all (\<lambda>i. \<not> supplies ! i < fa_tax (demands ! i) (tax_rate params)) [0..<num_assets])"

section \<open>The committed clearing a validator checks\<close>

record WorkUnitStateCommitmentChecker =
  commitments :: "SingleWorkUnitStateCommitment list"
  checker_prices :: "price list"
  checker_tax_rate :: u8

definition fractionalSupplyActivated :: "SingleWorkUnitStateCommitment \<Rightarrow> FractionalAsset" where
  "fractionalSupplyActivated c =
     from_raw (read_unsigned_big_endian (fractionalSupplyActivated_bytes c))"

definition partialExecOfferActivationAmount ::
    "SingleWorkUnitStateCommitment \<Rightarrow> FractionalAsset" where
  "partialExecOfferActivationAmount c =
     from_raw (read_unsigned_big_endian (partialExecOfferActivationAmount_bytes c))"

definition OFFER_KEY_LEN_BYTES :: nat where
  "OFFER_KEY_LEN_BYTES = 22"

definition check_sanity :: "SingleWorkUnitStateCommitment \<Rightarrow> bool" where
  "check_sanity c =
     (let zero_key = replicate OFFER_KEY_LEN_BYTES 0
      in if zero_key \<noteq> partialExecThresholdKey c
         then thresholdKeyIsNull c = 0
         else thresholdKeyIsNull c = 1)"

text \<open>\<open>make_minimum_size(sz)\<close> grows the statistics to \<open>sz + 1\<close> entries (\<open>while size() <= sz\<close>).\<close>

definition make_minimum_size :: "FractionalAsset list \<Rightarrow> nat \<Rightarrow> FractionalAsset list" where
  "make_minimum_size stats sz = stats @ replicate (Suc sz - length stats) (from_raw 0)"

text \<open>\<open>ValidationStatistics::operator+=\<close>.\<close>

fun validation_stats_plus :: "FractionalAsset list \<Rightarrow> FractionalAsset list \<Rightarrow> FractionalAsset list"
where
  "validation_stats_plus xs [] = xs"
| "validation_stats_plus [] ys = map (fa_plus (from_raw 0)) ys"
| "validation_stats_plus (x # xs) (y # ys) = fa_plus x y # validation_stats_plus xs ys"

definition commitment_checker_check ::
    "WorkUnitStateCommitmentChecker \<Rightarrow> FractionalAsset list \<Rightarrow> bool" where
  "commitment_checker_check ck fully_cleared_stats =
     (let stats = make_minimum_size fully_cleared_stats (length (commitments ck))
      in list_all (\<lambda>i.
           let c = commitments ck ! i
           in fa_plus (stats ! i) (partialExecOfferActivationAmount c) = fractionalSupplyActivated c
              \<and> check_sanity c)
         [0..<length (commitments ck)])"

text \<open>The overload of \<open>check_clearing_params\<close> a validator runs on the committed supplies.\<close>

definition check_clearing_commitment :: "WorkUnitStateCommitmentChecker \<Rightarrow> nat \<Rightarrow> bool" where
  "check_clearing_commitment ck num_assets =
     check_clearing_params
       \<lparr>tax_rate = checker_tax_rate ck,
        work_unit_params = map fractionalSupplyActivated (commitments ck)\<rparr>
       (checker_prices ck) num_assets"

section \<open>Market indexing is a bijection\<close>

lemma sdiv_smod_nonneg:
  "0 \<le> a \<Longrightarrow> 0 < b \<Longrightarrow> a sdiv b = a div (b :: int)"
  "0 \<le> a \<Longrightarrow> 0 < b \<Longrightarrow> a smod b = a mod (b :: int)"
proof -
  assume *: "0 \<le> a" "0 < b"
  show d: "a sdiv b = a div b" using * by (cases "a = 0") (simp_all add: signed_divide_int_def)
  show "a smod b = a mod b" using * by (cases "a = 0") (simp_all add: signed_modulo_int_def)
qed

lemma sint_small: "unat (w :: u32) < 2 ^ 31 \<Longrightarrow> sint w = int (unat w)"
proof -
  assume lt: "unat w < 2 ^ 31"
  have u: "uint w = int (unat w)" by simp
  have "int (unat w) < int (2 ^ 31)" using lt by (simp only: of_nat_less_iff)
  then have le: "uint w < 2 ^ 31" by (simp only: u) simp
  have "sint w = signed_take_bit 31 (uint w)" by (simp add: sint_uint)
  also have "\<dots> = uint w"
    using le order_trans [OF _ unsigned_greater_eq [of w, where 'a = int], of "- (2 ^ 31)"]
    by (intro signed_take_bit_int_eq_self) simp_all
  finally show ?thesis by simp
qed

text \<open>The index in \<open>nat\<close>: row \<open>s\<close> of a matrix without its diagonal.\<close>

definition market_idx :: "nat \<Rightarrow> nat \<Rightarrow> nat \<Rightarrow> nat" where
  "market_idx n s b = s * (n - 1) + (if s < b then b - 1 else b)"

lemma market_idx_bound:
  assumes "s < n" "b < n" "s \<noteq> b"
  shows "market_idx n s b < n * (n - 1)"
    and "market_idx n s b div (n - 1) = s"
    and "market_idx n s b mod (n - 1) = (if s < b then b - 1 else b)"
proof -
  have n: "0 < n - 1" using assms by linarith
  have col: "(if s < b then b - 1 else b) < n - 1" using assms by auto
  show "market_idx n s b div (n - 1) = s" "market_idx n s b mod (n - 1) = (if s < b then b - 1 else b)"
    using n col by (simp_all only: market_idx_def) simp_all
  have "market_idx n s b < (s + 1) * (n - 1)" using col by (simp only: market_idx_def add_mult_distrib mult_1)
  also have "\<dots> \<le> n * (n - 1)" using assms by (intro mult_le_mono1) simp
  finally show "market_idx n s b < n * (n - 1)" .
qed

lemma market_idx_surj:
  assumes i: "i < n * (n - 1)"
  defines "s \<equiv> i div (n - 1)" and "b' \<equiv> i mod (n - 1)"
  defines "b \<equiv> if s \<le> b' then b' + 1 else b'"
  shows "s < n" "b < n" "s \<noteq> b" "market_idx n s b = i"
proof -
  have n: "0 < n - 1" using i by (cases "n - 1") simp_all
  show sn: "s < n" unfolding s_def using i by (rule less_mult_imp_div_less)
  have b': "b' < n - 1" unfolding b'_def using n by simp
  then show "b < n" "s \<noteq> b" by (auto simp: b_def)
  have "(if s < b then b - 1 else b) = b'" by (simp add: b_def)
  then show "market_idx n s b = i"
    by (simp only: market_idx_def) (simp only: s_def b'_def div_mult_mod_eq)
qed

definition MAX_INDEXABLE_ASSETS :: nat where
  "MAX_INDEXABLE_ASSETS = 46340"

lemma indexable_product:
  "n \<le> MAX_INDEXABLE_ASSETS \<Longrightarrow> n * (n - 1) < (2 :: nat) ^ 31"
proof -
  assume "n \<le> MAX_INDEXABLE_ASSETS"
  then have "n * (n - 1) \<le> 46340 * 46339"
    by (intro mult_le_mono) (simp_all add: MAX_INDEXABLE_ASSETS_def)
  then show ?thesis by simp
qed

lemma category_to_idx_eq:
  assumes v: "validate_category c n" and t: "offerType c = SELL"
    and n: "unat n \<le> MAX_INDEXABLE_ASSETS"
  shows "category_to_idx c n =
           Inr (int (market_idx (unat n) (unat (sellAsset c)) (unat (buyAsset c))))"
proof -
  let ?s = "sellAsset c" and ?b = "buyAsset c"
  have lt: "unat ?s < unat n" "unat ?b < unat n" and ne: "unat ?s \<noteq> unat ?b"
    using v by (auto simp: validate_category_def not_le word_less_nat_alt)
  define col where "col = ?b - (if ?s < ?b then 1 else 0)"
  have col: "unat col = (if unat ?s < unat ?b then unat ?b - 1 else unat ?b)"
    by (auto simp: col_def word_less_nat_alt unat_minus_one unat_gt_0 unat_sub_exact)
  have n1: "unat (n - 1) = unat n - 1" using lt by (subst unat_sub_exact) simp_all
  note bound = market_idx_bound(1) [OF lt ne] and small = indexable_product [OF n]
  have "unat ?s * unat (n - 1) + unat col = market_idx (unat n) (unat ?s) (unat ?b)"
    by (simp only: n1 col market_idx_def)
  moreover from this have "unat (?s * (n - 1)) = unat ?s * unat (n - 1)"
    using bound small by (intro unat_mult_exact) simp
  ultimately have idx: "unat (?s * (n - 1) + col) = market_idx (unat n) (unat ?s) (unat ?b)"
    using bound small by (subst unat_add_exact) simp_all
  then have "sint (?s * (n - 1) + col) = int (market_idx (unat n) (unat ?s) (unat ?b))"
    using bound small by (subst sint_small) simp_all
  then show ?thesis
    using lt t by (simp add: category_to_idx_def map_type_to_int_def col_def [symmetric] not_le
        word_less_nat_alt [of _ n] Let_def)
qed

lemma category_from_idx_eq:
  assumes i: "i < n * (n - 1)" and n: "n \<le> MAX_INDEXABLE_ASSETS"
  defines "s \<equiv> i div (n - 1)"
  defines "b \<equiv> if s \<le> i mod (n - 1) then i mod (n - 1) + 1 else i mod (n - 1)"
  shows "category_from_idx (int i) (int n) =
           \<lparr>sellAsset = of_nat s, buyAsset = of_nat b, offerType = SELL\<rparr>"
proof -
  have n1: "0 < n - 1" using i by (cases "n - 1") simp_all
  have units: "int n * (int n - 1) = int (n * (n - 1))" and cols: "int n - 1 = int (n - 1)"
    using n1 by (simp_all add: of_nat_diff)
  have pos: "0 < int (n * (n - 1))" "0 < int (n - 1)" using i n1 by simp_all
  have type: "int i sdiv (int n * (int n - 1)) = 0"
    unfolding units sdiv_smod_nonneg(1) [OF of_nat_0_le_iff pos(1)] 
    by (simp only: zdiv_int [symmetric] div_less [OF i] of_nat_0)
  have rem: "int i smod (int n * (int n - 1)) = int i"
    unfolding units sdiv_smod_nonneg(2) [OF of_nat_0_le_iff pos(1)] 
    by (simp only: zmod_int [symmetric] mod_less [OF i])
  have row: "int i sdiv (int n - 1) = int s" "int i smod (int n - 1) = int (i mod (n - 1))"
    unfolding cols sdiv_smod_nonneg [OF of_nat_0_le_iff pos(2)] s_def by (simp_all only: zdiv_int zmod_int)
  have small: "x \<le> n \<Longrightarrow> x < 2 ^ LENGTH(32)" for x using n by (simp add: MAX_INDEXABLE_ASSETS_def)
  have s: "unat (of_nat s :: u32) = s"
    using market_idx_surj(1) [OF i] small by (simp add: s_def unat_of_nat_small)
  have m: "unat (of_nat (i mod (n - 1)) :: u32) = i mod (n - 1)"
    using less_imp_le [OF less_le_trans [OF mod_less_divisor [OF n1, of i] diff_le_self]]
    by (intro unat_of_nat_small small)
  have "(of_nat s :: u32) \<le> of_nat (i mod (n - 1)) \<longleftrightarrow> s \<le> i mod (n - 1)"
    by (simp only: word_le_nat_alt s m)
  then show ?thesis
    unfolding category_from_idx_def Let_def type rem row
    by (simp add: map_int_to_type_def b_def)
qed

lemma unat_market_of_idx:
  assumes i: "i < n * (n - 1)" and n: "n \<le> MAX_INDEXABLE_ASSETS"
  defines "c \<equiv> category_from_idx (int i) (int n)"
  shows "unat (sellAsset c) < n" "unat (buyAsset c) < n" "unat (sellAsset c) \<noteq> unat (buyAsset c)"
    and "offerType c = SELL" "market_idx n (unat (sellAsset c)) (unat (buyAsset c)) = i"
proof -
  have small: "x < n \<Longrightarrow> unat (of_nat x :: u32) = x" for x
    using n by (simp add: unat_of_nat_small MAX_INDEXABLE_ASSETS_def)
  note surj = market_idx_surj [OF i]
  note c = c_def [unfolded category_from_idx_eq [OF i n]]
  have s: "unat (sellAsset c) = i div (n - 1)"
    by (simp only: c OfferCategory.simps small [OF surj(1)])
  have b: "unat (buyAsset c) = (if i div (n - 1) \<le> i mod (n - 1) then i mod (n - 1) + 1 else i mod (n - 1))"
    by (simp only: c OfferCategory.simps small [OF surj(2)])
  show "unat (sellAsset c) < n" "unat (buyAsset c) < n" "unat (sellAsset c) \<noteq> unat (buyAsset c)"
    "market_idx n (unat (sellAsset c)) (unat (buyAsset c)) = i"
    unfolding s b by (rule surj)+
  show "offerType c = SELL" by (simp only: c OfferCategory.simps)
qed

lemma category_idx_round_trip:
  assumes v: "validate_category c n" and t: "offerType c = SELL"
    and n: "unat n \<le> MAX_INDEXABLE_ASSETS"
  shows "\<exists>i < unat n * (unat n - 1).
           category_to_idx c n = Inr (int i) \<and> category_from_idx (int i) (int (unat n)) = c"
proof -
  let ?s = "unat (sellAsset c)" and ?b = "unat (buyAsset c)"
  have lt: "?s < unat n" "?b < unat n" and ne: "?s \<noteq> ?b"
    using v by (auto simp: validate_category_def not_le word_less_nat_alt)
  note mi = market_idx_bound [OF lt ne]
  have "category_from_idx (int (market_idx (unat n) ?s ?b)) (int (unat n)) = c"
    unfolding category_from_idx_eq [OF mi(1) n] mi(2,3) using ne t by auto
  with mi(1) category_to_idx_eq [OF assms] show ?thesis by blast
qed

lemma idx_category_round_trip:
  assumes i: "i < unat n * (unat n - 1)" and n: "unat n \<le> MAX_INDEXABLE_ASSETS"
  shows "validate_category (category_from_idx (int i) (int (unat n))) n"
    and "category_to_idx (category_from_idx (int i) (int (unat n))) n = Inr (int i)"
proof -
  note m = unat_market_of_idx [OF i n]
  show v: "validate_category (category_from_idx (int i) (int (unat n))) n"
    using m(1-3) by (auto simp: validate_category_def not_le word_less_nat_alt)
  show "category_to_idx (category_from_idx (int i) (int (unat n))) n = Inr (int i)"
    using category_to_idx_eq [OF v m(4) n] m(5) by simp
qed

end
