(* ===== verification/Clearing_Solvency.thy ===== *)
theory Clearing_Solvency
  imports Offer_Clearing
begin

text \<open>
  Solvency of a block's clearing: when \<^verbatim>\<open>check_clearing_params\<close> accepts the activated
  supplies, the amounts the offers are paid (each rounded down and taxed on its own) never exceed
  the amounts sold.  The executions are those the clearing code performs: per market, a list of
  fully executed offers and one partially executed offer.
\<close>

section \<open>Per-asset totals in natural numbers\<close>

definition sell_of :: "nat \<Rightarrow> nat \<Rightarrow> nat" where
  "sell_of n i = unat (sellAsset (category_from_idx (int i) (int n)))"

definition buy_of :: "nat \<Rightarrow> nat \<Rightarrow> nat" where
  "buy_of n i = unat (buyAsset (category_from_idx (int i) (int n)))"

text \<open>Totals over the markets \<open>i, i + 1, \<dots>\<close> that sell, respectively buy, asset \<open>k\<close>.\<close>

fun total_where :: "(nat \<Rightarrow> bool) \<Rightarrow> (nat \<Rightarrow> 'a \<Rightarrow> nat) \<Rightarrow> nat \<Rightarrow> 'a list \<Rightarrow> nat" where
  "total_where P f i [] = 0"
| "total_where P f i (x # xs) = (if P i then f i x else 0) + total_where P f (Suc i) xs"

definition unit_demand :: "price list \<Rightarrow> nat \<Rightarrow> nat \<Rightarrow> FractionalAsset \<Rightarrow> nat" where
  "unit_demand prices n i s =
     unat (fa_value s) * unat (prices ! sell_of n i) div unat (prices ! buy_of n i)"

definition supply_total :: "nat \<Rightarrow> nat \<Rightarrow> FractionalAsset list \<Rightarrow> nat" where
  "supply_total n k ss = total_where (\<lambda>i. sell_of n i = k) (\<lambda>_ s. unat (fa_value s)) 0 ss"

definition demand_total :: "price list \<Rightarrow> nat \<Rightarrow> nat \<Rightarrow> FractionalAsset list \<Rightarrow> nat" where
  "demand_total prices n k ss =
     total_where (\<lambda>i. buy_of n i = k) (unit_demand prices n) 0 ss"

lemma total_where_mono:
  "(\<And>j. j < length xs \<Longrightarrow> P (i + j) \<Longrightarrow> f (i + j) (xs ! j) \<le> g (i + j) (ys ! j)) \<Longrightarrow>
   length ys = length xs \<Longrightarrow> total_where P f i xs \<le> total_where P g i ys"
proof (induction xs arbitrary: i ys)
  case (Cons x xs)
  obtain y ys' where ys: "ys = y # ys'" using Cons.prems(2) by (cases ys) simp_all
  have "total_where P f (Suc i) xs \<le> total_where P g (Suc i) ys'"
    using Cons.prems(1) [of "Suc _"] Cons.prems(2) by (intro Cons.IH) (simp_all add: ys)
  moreover have "P i \<Longrightarrow> f i x \<le> g i y" using Cons.prems(1) [of 0] by (simp add: ys)
  ultimately show ?case by (auto simp: ys intro: add_mono)
qed simp

lemma total_where_superadditive:
  assumes "superadditive h"
  shows "total_where P (\<lambda>i x. h (f i x)) i xs \<le> h (total_where P f i xs)"
proof (induction xs arbitrary: i)
  case (Cons x xs)
  show ?case
    using Cons [of "Suc i"] superadditive.split_loses [OF assms, of "f i x" "total_where P f (Suc i) xs"]
    by simp
qed simp

lemma total_where_scale: "total_where P (\<lambda>i x. c * f i x) i xs = c * total_where P f i xs"
  by (induction xs arbitrary: i) (simp_all add: algebra_simps)

lemma total_where_bound:
  "(\<And>j. j < length xs \<Longrightarrow> f (i + j) (xs ! j) \<le> B) \<Longrightarrow>
   total_where P f i xs \<le> B * card {j. j < length xs \<and> P (i + j)}"
proof (induction xs arbitrary: i)
  case (Cons x xs)
  have split: "{j. j < length (x # xs) \<and> P (i + j)} =
      (if P i then {0} else {}) \<union> Suc ` {j. j < length xs \<and> P (Suc i + j)}"
    by (auto simp: image_iff less_Suc_eq_0_disj)
  have "card {j. j < length (x # xs) \<and> P (i + j)} =
      (if P i then 1 else 0) + card {j. j < length xs \<and> P (Suc i + j)}"
    unfolding split by (subst card_Un_disjoint) (auto simp: card_image)
  moreover have "total_where P f (Suc i) xs \<le> B * card {j. j < length xs \<and> P (Suc i + j)}"
    using Cons.prems [of "Suc _"] by (intro Cons.IH) simp
  moreover have "f i x \<le> B" using Cons.prems [of 0] by simp
  ultimately show ?case by (simp add: algebra_simps)
qed simp

section \<open>The accumulation loop computes the totals\<close>

text \<open>What the loop needs to stay exact in 128 bits.\<close>

definition totals_fit :: "price list \<Rightarrow> nat \<Rightarrow> FractionalAsset list \<Rightarrow> bool" where
  "totals_fit prices n ss \<longleftrightarrow>
     length ss \<le> n * (n - 1) \<and> n \<le> MAX_INDEXABLE_ASSETS \<and>
     (\<forall>k<n. prices ! k \<noteq> 0 \<and> supply_total n k ss < 2 ^ 128 \<and> demand_total prices n k ss < 2 ^ 128)"

lemma sell_buy_less:
  assumes "i < n * (n - 1)" "n \<le> MAX_INDEXABLE_ASSETS"
  shows "sell_of n i < n" "buy_of n i < n" "sell_of n i \<noteq> buy_of n i"
  using unat_market_of_idx [OF assms] by (simp_all add: sell_of_def buy_of_def)

lemma unat_fa_plus:
  "unat (fa_value x) + unat (fa_value y) < 2 ^ 128 \<Longrightarrow>
   unat (fa_value (fa_plus x y)) = unat (fa_value x) + unat (fa_value y)"
  unfolding fa_plus_def fa_value_from_raw by (rule unat_add_exact) simp

lemma accumulate_from_exact:
  assumes "i + length ss \<le> n * (n - 1)" "n \<le> MAX_INDEXABLE_ASSETS"
    and "\<forall>k<n. prices ! k \<noteq> 0"
    and "length sp = n" "length dm = n"
    and "\<forall>k<n. unat (fa_value (sp ! k)) +
           total_where (\<lambda>i. sell_of n i = k) (\<lambda>_ s. unat (fa_value s)) i ss < 2 ^ 128"
    and "\<forall>k<n. unat (fa_value (dm ! k)) +
           total_where (\<lambda>i. buy_of n i = k) (unit_demand prices n) i ss < 2 ^ 128"
    and "accumulate_from prices n i ss (sp, dm) = (sp', dm')"
  shows "\<forall>k<n. unat (fa_value (sp' ! k)) = unat (fa_value (sp ! k)) +
           total_where (\<lambda>i. sell_of n i = k) (\<lambda>_ s. unat (fa_value s)) i ss \<and>
         unat (fa_value (dm' ! k)) = unat (fa_value (dm ! k)) +
           total_where (\<lambda>i. buy_of n i = k) (unit_demand prices n) i ss"
  using assms
proof (induction ss arbitrary: i sp dm)
  case Nil
  then show ?case by simp
next
  case (Cons s ss)
  let ?a = "sell_of n i" and ?b = "buy_of n i"
  have ab: "?a < n" "?b < n" using sell_buy_less [of i n] Cons.prems(1,2) by simp_all
  let ?v = "wide_multiply_val_by_a_over_b (fa_value s) (prices ! ?a) (prices ! ?b)"
  have fit: "unat (fa_value (dm ! ?b)) + unit_demand prices n i s < 2 ^ 128"
    using Cons.prems(7) [rule_format, OF ab(2)] by (simp only: total_where.simps) simp
  then have v: "unat ?v = unit_demand prices n i s"
    unfolding unit_demand_def using Cons.prems(3) ab by (intro wide_multiply_exact) simp_all
  have sfit: "unat (fa_value (sp ! ?a)) + unat (fa_value s) < 2 ^ 128"
    using Cons.prems(6) [rule_format, OF ab(1)] by (simp only: total_where.simps) simp
  let ?sp = "sp[?a := fa_plus (sp ! ?a) s]" and ?dm = "dm[?b := fa_plus (dm ! ?b) (from_raw ?v)]"
  have sp: "k < n \<Longrightarrow> unat (fa_value (?sp ! k)) =
      unat (fa_value (sp ! k)) + (if ?a = k then unat (fa_value s) else 0)" for k
    using unat_fa_plus [OF sfit] Cons.prems(4) by (cases "?a = k") simp_all
  have dm: "k < n \<Longrightarrow> unat (fa_value (?dm ! k)) =
      unat (fa_value (dm ! k)) + (if ?b = k then unit_demand prices n i s else 0)" for k
    using unat_fa_plus [of "dm ! ?b" "from_raw ?v"] fit v Cons.prems(5)
    by (cases "?b = k") simp_all
  have "accumulate_from prices n (Suc i) ss (?sp, ?dm) = (sp', dm')"
    using Cons.prems(8) by (simp add: accumulate_work_unit_def Let_def sell_of_def buy_of_def)
  moreover have "\<forall>k<n. unat (fa_value (?sp ! k)) +
      total_where (\<lambda>i. sell_of n i = k) (\<lambda>_ s. unat (fa_value s)) (Suc i) ss < 2 ^ 128"
    using Cons.prems(6) by (simp add: sp add.assoc)
  moreover have "\<forall>k<n. unat (fa_value (?dm ! k)) +
      total_where (\<lambda>i. buy_of n i = k) (unit_demand prices n) (Suc i) ss < 2 ^ 128"
    using Cons.prems(7) by (simp add: dm add.assoc)
  ultimately have "\<forall>k<n. unat (fa_value (sp' ! k)) = unat (fa_value (?sp ! k)) +
           total_where (\<lambda>i. sell_of n i = k) (\<lambda>_ s. unat (fa_value s)) (Suc i) ss \<and>
         unat (fa_value (dm' ! k)) = unat (fa_value (?dm ! k)) +
           total_where (\<lambda>i. buy_of n i = k) (unit_demand prices n) (Suc i) ss"
    using Cons.prems(1-5) by (intro Cons.IH) simp_all
  then show ?case by (simp add: sp dm add.assoc)
qed

lemma accumulate_from_length:
  "accumulate_from prices n i ss (sp, dm) = (sp', dm') \<Longrightarrow>
   length sp' = length sp \<and> length dm' = length dm"
  by (induction ss arbitrary: i sp dm) (auto simp: accumulate_work_unit_def Let_def)

lemma fa_less_iff: "(x :: FractionalAsset) < y \<longleftrightarrow> unat (fa_value x) < unat (fa_value y)"
  by (simp add: less_FractionalAsset_ext_def word_less_nat_alt)

text \<open>The check is exact: it accepts when no asset's taxed demand exceeds its supply.\<close>

lemma check_clearing_params_exact:
  assumes fit: "totals_fit prices n (work_unit_params params)" and t: "unat (tax_rate params) < 128"
  shows "check_clearing_params params prices n \<longleftrightarrow>
    (\<forall>k<n. taxed (unat (tax_rate params)) (demand_total prices n k (work_unit_params params))
            \<le> supply_total n k (work_unit_params params))"
proof -
  let ?z = "replicate n (from_raw 0)"
  obtain sp dm where acc:
    "accumulate_from prices n 0 (work_unit_params params) (?z, ?z) = (sp, dm)" by fastforce
  have "\<forall>k<n. unat (fa_value (sp ! k)) = supply_total n k (work_unit_params params) \<and>
      unat (fa_value (dm ! k)) = demand_total prices n k (work_unit_params params)"
    using accumulate_from_exact [OF _ _ _ _ _ _ _ acc] fit
    by (simp add: totals_fit_def supply_total_def demand_total_def)
  then show ?thesis
    by (auto simp: check_clearing_params_def acc list_all_iff fa_less_iff unat_fa_tax t not_less)
qed

section \<open>What the executed offers receive\<close>

text \<open>
  The execution of one market: the amounts of the fully executed offers, and the remaining amount
  the partially executed offer sells.
\<close>

record market_execution =
  full_amounts :: "u64 list"
  partial_amount :: FractionalAsset

definition executes :: "market_execution \<Rightarrow> FractionalAsset \<Rightarrow> bool" where
  "executes e s \<longleftrightarrow>
     sum_list (map unat (full_amounts e)) * 2 ^ 10 + unat (fa_value (partial_amount e))
       = unat (fa_value s)"

definition market_paid :: "price list \<Rightarrow> u8 \<Rightarrow> nat \<Rightarrow> nat \<Rightarrow> market_execution \<Rightarrow> nat" where
  "market_paid prices t n i e =
     (let pay = (\<lambda>x. unat (offer_buy_amount x (prices ! sell_of n i) (prices ! buy_of n i) t))
      in sum_list (map (\<lambda>a. pay (from_integral (ucast a))) (full_amounts e))
         + pay (partial_amount e))"

definition market_sold :: "market_execution \<Rightarrow> nat" where
  "market_sold e = sum_list (map unat (full_amounts e)) + unat (fa_ceil (partial_amount e))"

definition asset_paid :: "price list \<Rightarrow> u8 \<Rightarrow> nat \<Rightarrow> nat \<Rightarrow> market_execution list \<Rightarrow> nat" where
  "asset_paid prices t n k es =
     total_where (\<lambda>i. buy_of n i = k) (market_paid prices t n) 0 es"

definition asset_sold :: "nat \<Rightarrow> nat \<Rightarrow> market_execution list \<Rightarrow> nat" where
  "asset_sold n k es = total_where (\<lambda>i. sell_of n i = k) (\<lambda>_. market_sold) 0 es"

lemma unat_offer_buy_amount:
  assumes "unat t < 128" "q \<noteq> 0" "unat (fa_value x) * unat p div unat q < 2 ^ 128"
  shows "unat (offer_buy_amount x p q t) =
           taxed (unat t) (unat (fa_value x) * unat p div unat q) div 2 ^ 10"
  using wide_multiply_exact [OF assms(2,3)] assms(1)
  by (simp only: offer_buy_amount_def unat_tax_and_round fa_value_from_raw)

lemma unat_from_integral_u64:
  "unat (fa_value (from_integral (ucast (a :: u64)))) = unat a * 2 ^ 10"
proof -
  have "unat a < 2 ^ 118" by (rule le_less_trans [OF unat_le_u64]) simp
  then show ?thesis using unat_from_integral [of "ucast a"] by simp
qed

lemma market_paid_le:
  assumes ex: "executes e s" and t: "unat t < 128" and q: "prices ! buy_of n i \<noteq> 0"
    and fit: "unit_demand prices n i s < 2 ^ 128"
  shows "market_paid prices t n i e \<le> taxed (unat t) (unit_demand prices n i s) div 2 ^ 10"
proof -
  let ?p = "unat (prices ! sell_of n i)" and ?q = "unat (prices ! buy_of n i)"
  let ?h = "\<lambda>x. taxed (unat t) (x * ?p div ?q) div 2 ^ 10"
  let ?xs = "map (\<lambda>a. unat a * 2 ^ 10) (full_amounts e) @ [unat (fa_value (partial_amount e))]"
  have sum: "sum_list ?xs = unat (fa_value s)"
    using ex by (simp add: executes_def sum_list_mult_const)
  have pay: "unat (offer_buy_amount x (prices ! sell_of n i) (prices ! buy_of n i) t) = ?h (unat (fa_value x))"
    if "unat (fa_value x) \<in> set ?xs" for x
  proof -
    have "unat (fa_value x) \<le> unat (fa_value s)" using member_le_sum_list [OF that] sum by simp
    then have "unat (fa_value x) * ?p div ?q \<le> unit_demand prices n i s"
      unfolding unit_demand_def by (rule convert.mono)
    with fit show ?thesis using t q by (intro unat_offer_buy_amount) simp_all
  qed
  have full: "unat (offer_buy_amount (from_integral (ucast a)) (prices ! sell_of n i) (prices ! buy_of n i) t)
      = ?h (unat a * 2 ^ 10)" if "a \<in> set (full_amounts e)" for a
    using pay [of "from_integral (ucast a)"] that by (simp only: unat_from_integral_u64) simp
  have "market_paid prices t n i e = sum_list (map ?h ?xs)"
    using pay [of "partial_amount e"] full
    by (simp add: market_paid_def o_def cong: map_cong)
  also have "\<dots> \<le> ?h (sum_list ?xs)" by (rule payout.sum_list_le)
  finally show ?thesis by (simp only: sum unit_demand_def)
qed

lemma market_sold_ge:
  assumes "executes e s"
  shows "unat (fa_value s) \<le> 2 ^ 10 * market_sold e"
  using assms ceil_div_upper [of "2 ^ 10" "unat (fa_value (partial_amount e))"]
  by (simp add: executes_def market_sold_def unat_fa_ceil)

lemma total_where_member:
  "j < length xs \<Longrightarrow> P (i + j) \<Longrightarrow> f (i + j) (xs ! j) \<le> total_where P f i xs"
proof (induction xs arbitrary: i j)
  case (Cons x xs)
  then show ?case
    by (cases j) (simp_all, metis add_Suc_right add_Suc trans_le_add2)
qed simp

lemma solvency:
  assumes fit: "totals_fit prices n ss" and t: "unat t < 128"
    and ex: "length es = length ss" "\<And>i. i < length ss \<Longrightarrow> executes (es ! i) (ss ! i)"
    and ok: "check_clearing_params \<lparr>tax_rate = t, work_unit_params = ss\<rparr> prices n"
    and k: "k < n"
  shows "asset_paid prices t n k es \<le> asset_sold n k es"
proof -
  let ?h = "\<lambda>x. taxed (unat t) x div 2 ^ 10"
  let ?buys = "\<lambda>i. buy_of n i = k" and ?sells = "\<lambda>i. sell_of n i = k"
  have unit: "unit_demand prices n i (ss ! i) < 2 ^ 128" if "i < length ss" "buy_of n i = k" for i
    using total_where_member [of i ss ?buys 0 "unit_demand prices n"] that fit k
    by (auto simp: totals_fit_def demand_total_def)
  have "market_paid prices t n i (es ! i) \<le> ?h (unit_demand prices n i (ss ! i))"
    if "i < length ss" "buy_of n i = k" for i
    using that fit k by (intro market_paid_le ex t unit) (simp_all add: totals_fit_def)
  then have "asset_paid prices t n k es \<le> total_where ?buys (\<lambda>i s. ?h (unit_demand prices n i s)) 0 ss"
    unfolding asset_paid_def using ex by (intro total_where_mono) simp_all
  also have "\<dots> \<le> ?h (demand_total prices n k ss)"
    unfolding demand_total_def
    by (rule total_where_superadditive) (rule tax_round.superadditive_axioms)
  also have "\<dots> \<le> supply_total n k ss div 2 ^ 10"
    using check_clearing_params_exact [of prices n "\<lparr>tax_rate = t, work_unit_params = ss\<rparr>"] fit t ok k
    by (intro div_le_mono) simp
  also have "\<dots> \<le> (2 ^ 10 * asset_sold n k es) div 2 ^ 10"
    unfolding asset_sold_def supply_total_def total_where_scale [symmetric] using ex(1)
    by (intro div_le_mono total_where_mono) (simp_all only: add_0 market_sold_ge [OF ex(2)])
  finally show ?thesis by simp
qed

section \<open>When the totals fit\<close>

lemma market_unique:
  assumes "i < n * (n - 1)" "j < n * (n - 1)" "n \<le> MAX_INDEXABLE_ASSETS"
    and "sell_of n i = sell_of n j" "buy_of n i = buy_of n j"
  shows "i = j"
proof -
  have "i = market_idx n (sell_of n i) (buy_of n i)" "j = market_idx n (sell_of n j) (buy_of n j)"
    unfolding sell_of_def buy_of_def
    by (simp_all only: unat_market_of_idx(5) [OF assms(1,3)] unat_market_of_idx(5) [OF assms(2,3)])
  then show ?thesis by (simp only: assms(4,5))
qed

lemma markets_per_asset:
  assumes "m \<le> n * (n - 1)" "n \<le> MAX_INDEXABLE_ASSETS"
  shows "card {i. i < m \<and> sell_of n i = k} \<le> n" "card {i. i < m \<and> buy_of n i = k} \<le> n"
proof -
  have lt: "i < n * (n - 1)" if "i < m" for i using that assms(1) by (rule less_le_trans)
  have "inj_on (buy_of n) {i. i < m \<and> sell_of n i = k}" "buy_of n ` {i. i < m \<and> sell_of n i = k} \<subseteq> {..<n}"
    using market_unique [OF lt lt assms(2)] sell_buy_less(2) [OF lt assms(2)]
    by (auto intro!: inj_onI simp del: One_nat_def)
  then have "card {i. i < m \<and> sell_of n i = k} \<le> card {..<n}" by (rule card_inj_on_le) simp
  then show "card {i. i < m \<and> sell_of n i = k} \<le> n" by simp
  have "inj_on (sell_of n) {i. i < m \<and> buy_of n i = k}" "sell_of n ` {i. i < m \<and> buy_of n i = k} \<subseteq> {..<n}"
    using market_unique [OF lt lt assms(2)] sell_buy_less(1) [OF lt assms(2)]
    by (auto intro!: inj_onI simp del: One_nat_def)
  then have "card {i. i < m \<and> buy_of n i = k} \<le> card {..<n}" by (rule card_inj_on_le) simp
  then show "card {i. i < m \<and> buy_of n i = k} \<le> n" by simp
qed

text \<open>
  Amounts of an asset are \<open>int64_t\<close>, so a market activates at most \<open>2^63\<close> units, \<open>2^73\<close> as a raw
  fixed-point value.  With valid prices the totals of up to 128 assets are exact.
\<close>

definition clearing_in_range :: "price list \<Rightarrow> nat \<Rightarrow> FractionalAsset list \<Rightarrow> bool" where
  "clearing_in_range prices n ss \<longleftrightarrow>
     n \<le> 128 \<and> length prices = n \<and> length ss = n * (n - 1) \<and>
     list_all is_valid_price prices \<and> list_all (\<lambda>s. unat (fa_value s) \<le> 2 ^ 73) ss"

lemma clearing_in_range_totals_fit:
  assumes r: "clearing_in_range prices n ss"
  shows "totals_fit prices n ss"
proof -
  have n: "n \<le> 128" and nm: "n \<le> MAX_INDEXABLE_ASSETS" and len: "length ss \<le> n * (n - 1)"
    using r by (auto simp: clearing_in_range_def MAX_INDEXABLE_ASSETS_def)
  have s: "unat (fa_value (ss ! j)) \<le> 2 ^ 73" if "j < length ss" for j
    using r that by (simp add: clearing_in_range_def list_all_length)
  have p: "unat (prices ! k) \<le> 2 ^ 48 - 1" "prices ! k \<noteq> 0" if "k < n" for k
    using r that by (auto simp: clearing_in_range_def list_all_length is_valid_price_def
        word_le_nat_alt unat_PRICE_MAX)
  have d: "unit_demand prices n j (ss ! j) \<le> 2 ^ 73 * (2 ^ 48 - 1)" if "j < length ss" for j
  proof -
    have "unit_demand prices n j (ss ! j) \<le> unat (fa_value (ss ! j)) * unat (prices ! sell_of n j)"
      unfolding unit_demand_def by (rule div_le_dividend)
    also have "\<dots> \<le> 2 ^ 73 * (2 ^ 48 - 1)"
      using that len nm by (intro mult_le_mono s p sell_buy_less) simp_all
    finally show ?thesis .
  qed
  have mult: "(B :: nat) * c \<le> B * 128" if "c \<le> n" for B c
    using that n by (intro mult_le_mono) simp_all
  have "supply_total n k ss \<le> 2 ^ 73 * 128" for k
    unfolding supply_total_def
    by (rule order_trans [OF total_where_bound [where B = "2 ^ 73"] mult])
      (simp_all only: add_0 s markets_per_asset [OF len nm])
  moreover have "demand_total prices n k ss \<le> 2 ^ 73 * (2 ^ 48 - 1) * 128" for k
    unfolding demand_total_def
    by (rule order_trans [OF total_where_bound [where B = "2 ^ 73 * (2 ^ 48 - 1)"] mult])
      (simp_all only: add_0 d markets_per_asset [OF len nm])
  moreover have "(2 :: nat) ^ 73 * 128 < 2 ^ 128" "(2 :: nat) ^ 73 * (2 ^ 48 - 1) * 128 < 2 ^ 128"
    by simp_all
  ultimately show ?thesis
    unfolding totals_fit_def using len nm p(2) by (blast intro: le_less_trans)
qed

end
