(* ===== verification/Trie_Metadata.thy ===== *)
theory Trie_Metadata
  imports Xdr_Types
begin

text \<open>
  The metadata a trie node carries, \<^verbatim>\<open>merkle_trie_utils.h\<close> and
  \<^verbatim>\<open>work_unit_metadata.h\<close>.  \<^verbatim>\<open>CombinedMetadata<...>\<close> adds its mixins component by
  component; the tries of the program use the mixins below, and the ones a trie lacks stay zero.
  The insert and merge policies (template parameters of the trie's operations) are records of
  functions.
\<close>

section \<open>The mixins\<close>

text \<open>
  \<open>SizeMixin\<close>, \<open>DeletableMixin\<close>, \<open>RollbackMixin\<close> and \<open>WorkUnitMetadata\<close>, in this order.
\<close>

datatype Metadata =
  Metadata (md_size: i64) (num_deleted_subnodes: u32) (num_rollback_subnodes: u32) (endow: i64)

instantiation Metadata :: ab_group_add
begin

definition zero_Metadata :: Metadata where
  "0 = Metadata 0 0 0 0"

definition plus_Metadata :: "Metadata \<Rightarrow> Metadata \<Rightarrow> Metadata" where
  "x + y = Metadata (md_size x + md_size y) (num_deleted_subnodes x + num_deleted_subnodes y)
     (num_rollback_subnodes x + num_rollback_subnodes y) (endow x + endow y)"

definition uminus_Metadata :: "Metadata \<Rightarrow> Metadata" where
  "- x = Metadata (- md_size x) (- num_deleted_subnodes x) (- num_rollback_subnodes x) (- endow x)"

definition minus_Metadata :: "Metadata \<Rightarrow> Metadata \<Rightarrow> Metadata" where
  "x - y = Metadata (md_size x - md_size y) (num_deleted_subnodes x - num_deleted_subnodes y)
     (num_rollback_subnodes x - num_rollback_subnodes y) (endow x - endow y)"

instance
  by standard
    (simp_all add: zero_Metadata_def plus_Metadata_def uminus_Metadata_def minus_Metadata_def
      algebra_simps)

end

lemma Metadata_sel [simp]:
  "md_size (0 :: Metadata) = 0" "num_deleted_subnodes (0 :: Metadata) = 0"
  "num_rollback_subnodes (0 :: Metadata) = 0" "endow (0 :: Metadata) = 0"
  "md_size (x + y) = md_size x + md_size y"
  "num_deleted_subnodes (x + y) = num_deleted_subnodes x + num_deleted_subnodes y"
  "num_rollback_subnodes (x + y) = num_rollback_subnodes x + num_rollback_subnodes y"
  "endow (x + y) = endow x + endow y"
  "md_size (x - y) = md_size x - md_size y"
  "num_deleted_subnodes (x - y) = num_deleted_subnodes x - num_deleted_subnodes y"
  "num_rollback_subnodes (x - y) = num_rollback_subnodes x - num_rollback_subnodes y"
  "endow (x - y) = endow x - endow y"
  "md_size (- x) = - md_size x" "num_deleted_subnodes (- x) = - num_deleted_subnodes x"
  "num_rollback_subnodes (- x) = - num_rollback_subnodes x" "endow (- x) = - endow x"
  by (simp_all add: zero_Metadata_def plus_Metadata_def uminus_Metadata_def minus_Metadata_def)

definition set_deleted :: "u32 \<Rightarrow> Metadata \<Rightarrow> Metadata" where
  "set_deleted n m = Metadata (md_size m) n (num_rollback_subnodes m) (endow m)"

definition set_rollback :: "u32 \<Rightarrow> Metadata \<Rightarrow> Metadata" where
  "set_rollback n m = Metadata (md_size m) (num_deleted_subnodes m) n (endow m)"

lemma set_deleted_sel [simp]:
  "md_size (set_deleted n m) = md_size m" "num_deleted_subnodes (set_deleted n m) = n"
  "num_rollback_subnodes (set_deleted n m) = num_rollback_subnodes m"
  "endow (set_deleted n m) = endow m"
  by (simp_all add: set_deleted_def)

lemma set_rollback_sel [simp]:
  "md_size (set_rollback n m) = md_size m" "num_deleted_subnodes (set_rollback n m) = num_deleted_subnodes m"
  "num_rollback_subnodes (set_rollback n m) = n" "endow (set_rollback n m) = endow m"
  by (simp_all add: set_rollback_def)

text \<open>The constructors \<open>MetadataType(value)\<close>: of an account commitment or log entry, and of an offer.\<close>

definition size_metadata :: "'v \<Rightarrow> Metadata" where
  "size_metadata v = Metadata 1 0 0 0"

definition offer_metadata :: "Offer \<Rightarrow> Metadata" where
  "offer_metadata offer = Metadata 1 0 0 (offer_amount offer)"

text \<open>\<open>AtomicDeletableMixin::compare_exchange(expect, desired)\<close>: the new metadata and the result.\<close>

definition compare_exchange_deleted :: "Metadata \<Rightarrow> u32 \<Rightarrow> u32 \<Rightarrow> Metadata \<times> bool" where
  "compare_exchange_deleted m expect desired =
     (if num_deleted_subnodes m = expect then (set_deleted desired m, True) else (m, False))"

section \<open>Insert and merge policies\<close>

text \<open>
  \<open>new_value\<close> and \<open>value_insert\<close> build the stored value from the inserted one;
  \<open>new_metadata\<close> is taken of the stored value, \<open>leaf_metadata\<close> of the inserted one (the two
  instantiations of the same template); \<open>metadata_insert\<close> returns the leaf's new metadata and the
  change reported to the ancestors; \<open>leaf_value\<close> is what \<open>make_value_leaf\<close> stores.
\<close>

record ('k, 'v, 'i) insert_fn =
  new_value :: "'k \<Rightarrow> 'v"
  value_insert :: "'v \<Rightarrow> 'i \<Rightarrow> 'v"
  leaf_value :: "'k \<Rightarrow> 'i \<Rightarrow> 'v"
  new_metadata :: "'v \<Rightarrow> Metadata"
  leaf_metadata :: "'i \<Rightarrow> Metadata"
  metadata_insert :: "Metadata \<Rightarrow> 'v \<Rightarrow> Metadata \<times> Metadata"

text \<open>\<open>OverwriteInsertFn\<close>; \<open>mk\<close> is \<open>MetadataType(value)\<close> and \<open>dflt\<close> is \<open>ValueType{}\<close>.\<close>

definition OverwriteInsertFn :: "('v \<Rightarrow> Metadata) \<Rightarrow> 'v \<Rightarrow> ('k, 'v, 'v) insert_fn" where
  "OverwriteInsertFn mk dflt =
     \<lparr>new_value = (\<lambda>k. dflt), value_insert = (\<lambda>main other. other), leaf_value = (\<lambda>k v. v),
      new_metadata = mk, leaf_metadata = mk,
      metadata_insert = (\<lambda>original v. (mk v, mk v - original))\<rparr>"

text \<open>\<open>RollbackInsertFn\<close>: as above, with \<open>num_rollback_subnodes = 1\<close> in the new metadata.\<close>

definition RollbackInsertFn :: "('v \<Rightarrow> Metadata) \<Rightarrow> 'v \<Rightarrow> ('k, 'v, 'v) insert_fn" where
  "RollbackInsertFn mk dflt =
     \<lparr>new_value = (\<lambda>k. dflt), value_insert = (\<lambda>main other. other), leaf_value = (\<lambda>k v. v),
      new_metadata = (\<lambda>v. set_rollback 1 (mk v)), leaf_metadata = (\<lambda>v. set_rollback 1 (mk v)),
      metadata_insert = (\<lambda>original v. (set_rollback 1 (mk v), set_rollback 1 (mk v) - original))\<rparr>"

record 'v merge_fn =
  value_merge :: "'v \<Rightarrow> 'v \<Rightarrow> 'v"
  metadata_merge :: "Metadata \<Rightarrow> Metadata \<Rightarrow> Metadata \<times> Metadata"

definition OverwriteMergeFn :: "'v merge_fn" where
  "OverwriteMergeFn =
     \<lparr>value_merge = (\<lambda>main other. other), metadata_merge = (\<lambda>main other. (other, other - main))\<rparr>"

text \<open>
  What the trie relies on of a policy: a new leaf holds the same value and metadata however it comes
  about, and the reported change is the difference of the leaf's metadata.
\<close>

locale insert_policy =
  fixes F :: "('k, 'v, 'i) insert_fn"
  assumes leaf_value_eq: "leaf_value F k i = value_insert F (new_value F k) i"
    and leaf_metadata_eq: "leaf_metadata F i = new_metadata F (leaf_value F k i)"
    and metadata_insert_eq: "metadata_insert F m v = (new_metadata F v, new_metadata F v - m)"

interpretation overwrite: insert_policy "OverwriteInsertFn mk dflt" for mk dflt
  by unfold_locales (simp_all add: OverwriteInsertFn_def)

interpretation rollback: insert_policy "RollbackInsertFn mk dflt" for mk dflt
  by unfold_locales (simp_all add: RollbackInsertFn_def)

locale merge_policy =
  fixes M :: "'v merge_fn"
  assumes metadata_merge_delta: "snd (metadata_merge M m o') = fst (metadata_merge M m o') - m"

interpretation overwrite_merge: merge_policy OverwriteMergeFn
  by unfold_locales (simp add: OverwriteMergeFn_def)

end
