(* ===== verification/Trie_Node.thy ===== *)
theory Trie_Node
  imports Trie_Metadata "HOL-Library.Sublist"
begin

text \<open>
  The nodes of the Merkle trie, \<^verbatim>\<open>merkle_trie.h\<close>: a prefix in units of four bits, the
  value of a leaf or the children of an inner node by their next four bits, the metadata, and the
  cached hash.  The theory holds the node type, the children map, the prefix operations at the level
  of branch units, the invariants
  every operation keeps, and the canonical-form theorem.
\<close>

section \<open>Keys and children\<close>

type_synonym nib = "4 word"
type_synonym key = "nib list"

text \<open>
  \<open>Leaf\<close> is a node with \<open>prefix_len == MAX_KEY_LEN_BITS\<close>; prefixes are absolute (from the root).
  The hash field is \<open>Some h\<close> when \<open>hash_valid\<close> is set and \<open>None\<close> otherwise.
\<close>

datatype 'v node =
    Leaf (node_prefix: key) (leaf_val: 'v) (metadata: Metadata) (cached: "Hash option")
  | Inner (node_prefix: key) (children: "(nib \<times> 'v node) list") (metadata: Metadata) (cached: "Hash option")

where
  "children (Leaf p v m h) = []"

definition make_empty_node :: "'v node" where
  "make_empty_node = Inner [] [] 0 None"

text \<open>\<open>FixedChildrenMap\<close>: iterated from the lowest branch, so an ordered association list.\<close>

fun child_emplace :: "nib \<Rightarrow> 'a \<Rightarrow> (nib \<times> 'a) list \<Rightarrow> (nib \<times> 'a) list" where
  "child_emplace b c [] = [(b, c)]"
| "child_emplace b c ((b', c') # cs) =
     (if b < b' then (b, c) # (b', c') # cs
      else if b = b' then (b, c) # cs
      else (b', c') # child_emplace b c cs)"

definition child_find :: "nib \<Rightarrow> (nib \<times> 'a) list \<Rightarrow> 'a option" where
  "child_find b cs = map_of cs b"

definition child_erase :: "nib \<Rightarrow> (nib \<times> 'a) list \<Rightarrow> (nib \<times> 'a) list" where
  "child_erase b cs = filter (\<lambda>(b', c). b' \<noteq> b) cs"

definition single_child :: "'v node \<Rightarrow> bool" where
  "single_child t \<longleftrightarrow> length (children t) = 1"

definition get_single_child :: "'v node \<Rightarrow> 'v node res" where
  "get_single_child t =
     (case children t of [(b, c)] \<Rightarrow> Inr c
      | _ \<Rightarrow> Inl (Runtime_error ''can't get single child from nonsingle children map''))"

text \<open>The pointer-valued \<open>update_metadata\<close> and \<open>invalidate_hash\<close> of a node.\<close>

definition invalidate_hash :: "'v node \<Rightarrow> 'v node" where
  "invalidate_hash t = (case t of Leaf p v m h \<Rightarrow> Leaf p v m None | Inner p cs m h \<Rightarrow> Inner p cs m None)"

definition set_metadata :: "Metadata \<Rightarrow> 'v node \<Rightarrow> 'v node" where
  "set_metadata m t = (case t of Leaf p v _ h \<Rightarrow> Leaf p v m h | Inner p cs _ h \<Rightarrow> Inner p cs m h)"

section \<open>Prefixes\<close>

text \<open>\<open>get_prefix_match_len\<close>, in branch units.\<close>

fun prefix_match :: "key \<Rightarrow> key \<Rightarrow> nat" where
  "prefix_match (a # as) (b # bs) = (if a = b then Suc (prefix_match as bs) else 0)"
| "prefix_match _ _ = 0"

text \<open>\<open>get_branch_bits\<close> of a key at a length; past the end it throws.\<close>

definition branch_bits :: "key \<Rightarrow> nat \<Rightarrow> nib res" where
  "branch_bits k n = (if n < length k then Inr (k ! n) else Inl (Runtime_error ''can't branch beyond end''))"

lemma prefix_match_le: "prefix_match p k \<le> length p" "prefix_match p k \<le> length k"
  by (induction p k rule: prefix_match.induct) auto

lemma take_prefix_match: "take (prefix_match p k) p = take (prefix_match p k) k"
  by (induction p k rule: prefix_match.induct) auto

lemma prefix_match_full: "prefix_match p k = length p \<longleftrightarrow> prefix p k"
  by (induction p k rule: prefix_match.induct) auto

lemma prefix_match_commute: "prefix_match p k = prefix_match k p"
  by (induction p k rule: prefix_match.induct) auto

lemma prefix_match_differ:
  "prefix_match p k < length p \<Longrightarrow> prefix_match p k < length k \<Longrightarrow>
   p ! prefix_match p k \<noteq> k ! prefix_match p k"
  by (induction p k rule: prefix_match.induct) auto

lemma prefix_nth: "prefix p k \<Longrightarrow> length p < length k \<Longrightarrow> prefix (p @ [k ! length p]) k"
proof -
  assume "prefix p k" "length p < length k"
  then obtain z zs where "k = p @ z # zs" by (auto simp: prefix_def neq_Nil_conv)
  then show ?thesis by simp
qed

section \<open>Facts on the children map\<close>

definition ordered :: "(nib \<times> 'a) list \<Rightarrow> bool" where
  "ordered cs \<longleftrightarrow> sorted_wrt (<) (map fst cs)"

lemma ordered_simps [simp]:
  "ordered []"
  "ordered (bc # cs) \<longleftrightarrow> (\<forall>x \<in> set cs. fst bc < fst x) \<and> ordered cs"
  by (auto simp: ordered_def)

lemma ordered_distinct: "ordered cs \<Longrightarrow> distinct (map fst cs)"
  by (induction cs) (auto simp: less_le)

lemma child_find_in: "ordered cs \<Longrightarrow> child_find b cs = Some c \<longleftrightarrow> (b, c) \<in> set cs"
  by (simp add: child_find_def ordered_distinct)

lemma child_find_None: "child_find b cs = None \<longleftrightarrow> b \<notin> fst ` set cs"
  by (simp add: child_find_def map_of_eq_None_iff)

lemma set_child_emplace:
  "ordered cs \<Longrightarrow> set (child_emplace b c cs) = {x \<in> set cs. fst x \<noteq> b} \<union> {(b, c)}"
  by (induction b c cs rule: child_emplace.induct) (auto simp: less_le)

lemma ordered_child_emplace [simp]: "ordered cs \<Longrightarrow> ordered (child_emplace b c cs)"
  by (induction b c cs rule: child_emplace.induct) (auto simp: set_child_emplace)

lemma child_find_emplace:
  "ordered cs \<Longrightarrow> child_find b' (child_emplace b c cs) = (if b' = b then Some c else child_find b' cs)"
  by (induction b c cs rule: child_emplace.induct) (auto simp: child_find_def)

lemma length_child_emplace:
  "ordered cs \<Longrightarrow> length (child_emplace b c cs) = (if child_find b cs = None then Suc (length cs) else length cs)"
  by (induction b c cs rule: child_emplace.induct)
    (auto simp: child_find_def map_of_eq_None_iff less_le dest: weak_map_of_SomeI split: if_splits)

lemma set_child_erase: "set (child_erase b cs) = {x \<in> set cs. fst x \<noteq> b}"
  by (auto simp: child_erase_def)

lemma ordered_filter [simp]: "ordered cs \<Longrightarrow> ordered (filter P cs)"
  by (induction cs) auto

lemma ordered_child_erase [simp]: "ordered cs \<Longrightarrow> ordered (child_erase b cs)"
  by (simp add: child_erase_def)

lemma child_find_erase: "child_find b' (child_erase b cs) = (if b' = b then None else child_find b' cs)"
  by (induction cs) (auto simp: child_erase_def child_find_def)

lemma length_child_erase:
  "ordered cs \<Longrightarrow> length (child_erase b cs) = (if child_find b cs = None then length cs else length cs - 1)"
proof (induction cs)
  case (Cons bc cs)
  have "b = fst bc \<Longrightarrow> child_erase b cs = cs"
    using Cons.prems by (auto simp: child_erase_def filter_id_conv)
  then show ?case using Cons
    by (cases cs; cases bc) (auto simp: child_erase_def child_find_def)
qed (simp add: child_erase_def child_find_def)

lemma child_size: "(b, c) \<in> set cs \<Longrightarrow> size c < size (Inner p cs m h)"
  by (induction cs) auto

lemma child_find_size: "child_find b cs = Some c \<Longrightarrow> size c < size (Inner p cs m h)"
  unfolding child_find_def by (drule map_of_SomeD) (rule child_size)

lemmas node_termination = in_measure wf_measure split_conv child_size child_find_size

lemma node_induct [case_names Leaf Inner]:
  assumes "\<And>p v m h. P (Leaf p v m h)"
    and "\<And>p cs m h. (\<And>b c. (b, c) \<in> set cs \<Longrightarrow> P c) \<Longrightarrow> P (Inner p cs m h)"
  shows "P t"
  by (induction t) (use assms in \<open>force+\<close>)

section \<open>Contents\<close>

text \<open>The key-value pairs below a node, in order.\<close>

fun contents :: "'v node \<Rightarrow> (key \<times> 'v) list" where
  "contents (Leaf p v m h) = [(p, v)]"
| "contents (Inner p cs m h) = concat (map (\<lambda>(b, c). contents c) cs)"

definition trie_map :: "'v node \<Rightarrow> key \<Rightarrow> 'v option" where
  "trie_map t = map_of (contents t)"

section \<open>Invariants\<close>

text \<open>
  The shape below the root: leaves have full keys; an inner node has at least two children, each of
  which extends its prefix by the branch it hangs on.
\<close>

fun wf_node :: "nat \<Rightarrow> 'v node \<Rightarrow> bool" where
  "wf_node n (Leaf p v m h) \<longleftrightarrow> length p = n"
| "wf_node n (Inner p cs m h) \<longleftrightarrow>
     length p < n \<and> 2 \<le> length cs \<and> ordered cs \<and>
     (\<forall>x \<in> set cs. wf_node n (snd x) \<and> prefix (p @ [fst x]) (node_prefix (snd x)))"

text \<open>A whole trie is empty or a well-formed node; keys have at least one unit.\<close>

definition is_empty_node :: "'v node \<Rightarrow> bool" where
  "is_empty_node t \<longleftrightarrow> (case t of Leaf p v m h \<Rightarrow> False | Inner p cs m h \<Rightarrow> p = [] \<and> cs = [] \<and> m = 0)"

definition wf_trie :: "nat \<Rightarrow> 'v node \<Rightarrow> bool" where
  "wf_trie n t \<longleftrightarrow> 0 < n \<and> (is_empty_node t \<or> wf_node n t)"

text \<open>Metadata: an inner node holds the sum of its children, a leaf satisfies \<open>L\<close> of its value.\<close>

fun meta_ok :: "('v \<Rightarrow> Metadata \<Rightarrow> bool) \<Rightarrow> 'v node \<Rightarrow> bool" where
  "meta_ok L (Leaf p v m h) \<longleftrightarrow> L v m"
| "meta_ok L (Inner p cs m h) \<longleftrightarrow>
     m = sum_list (map (\<lambda>(b, c). metadata c) cs) \<and> (\<forall>x \<in> set cs. meta_ok L (snd x))"

lemma contents_prefix:
  "wf_node n t \<Longrightarrow> kv \<in> set (contents t) \<Longrightarrow> prefix (node_prefix t) (fst kv) \<and> length (fst kv) = n"
proof (induction t rule: node_induct)
  case (Inner p cs m h)
  then obtain b c where bc: "(b, c) \<in> set cs" "kv \<in> set (contents c)" by auto
  then have "prefix (node_prefix c) (fst kv) \<and> length (fst kv) = n"
    using Inner by force
  moreover have "prefix (p @ [b]) (node_prefix c)" using bc(1) Inner.prems(1) by auto
  ultimately show ?case by (auto dest: prefix_order.trans append_prefixD)
qed simp

lemma wf_node_contents_nonempty: "wf_node n t \<Longrightarrow> contents t \<noteq> []"
proof (induction t rule: node_induct)
  case (Inner p cs m h)
  then obtain b c cs' where cs: "cs = (b, c) # cs'" by (cases cs) auto
  then have "contents c \<noteq> []" using Inner.prems by (intro Inner.IH [of b c]) auto
  then show ?case by (simp add: cs)
qed simp

lemma child_contents_prefix:
  assumes "wf_node n (Inner p cs m h)" "(b, c) \<in> set cs" "kv \<in> set (contents c)"
  shows "prefix (p @ [b]) (fst kv)"
proof -
  have c: "wf_node n c" "prefix (p @ [b]) (node_prefix c)" using assms(1,2) by auto
  then show ?thesis using contents_prefix [OF c(1) assms(3)] by (auto intro: prefix_order.trans)
qed

lemma prefix_snoc_unique:
  "prefix (p @ [a]) k \<Longrightarrow> prefix (p @ [b]) k \<Longrightarrow> a = b"
  by (auto simp: prefix_def)

text \<open>Looking a key up in an inner node goes to one child.\<close>

lemma trie_map_Inner:
  assumes wf: "wf_node n (Inner p cs m h)" and k: "length k = n"
  shows "trie_map (Inner p cs m h) k =
    (if prefix p k
     then (case child_find (k ! length p) cs of None \<Rightarrow> None | Some c \<Rightarrow> trie_map c k)
     else None)"
proof -
  have len: "length p < length k" and ord: "ordered cs" using wf k by auto
  have miss: "map_of (contents c) k = None" if "(b, c) \<in> set cs" "\<not> prefix (p @ [b]) k" for b c
    using child_contents_prefix [OF wf that(1)] that(2) by (auto simp: map_of_eq_None_iff)
  have "map_of (concat (map (\<lambda>(b, c). contents c) ds)) k =
      (case map_of ds (k ! length p) of None \<Rightarrow> None | Some c \<Rightarrow> map_of (contents c) k)"
    if "prefix p k" "set ds \<subseteq> set cs" "ordered ds" for ds
    using that(2,3)
  proof (induction ds)
    case (Cons d ds)
    obtain b c where d: "d = (b, c)" by force
    show ?case
    proof (cases "b = k ! length p")
      case True
      have "map_of (contents c') k = None" if c': "(b', c') \<in> set ds" for b' c'
      proof (rule miss)
        show "(b', c') \<in> set cs" using c' Cons.prems by auto
        have "b' \<noteq> b" using c' Cons.prems d by force
        then show "\<not> prefix (p @ [b']) k"
          using prefix_snoc_unique [of p b' k "k ! length p"] prefix_nth [OF \<open>prefix p k\<close> len] True by auto
      qed
      then have "map_of (concat (map (\<lambda>(b, c). contents c) ds)) k = None"
        by (auto simp: map_of_eq_None_iff)
      then show ?thesis using True by (simp add: d map_add_def split: option.splits)
    next
      case False
      have "\<not> prefix (p @ [b]) k"
        using prefix_snoc_unique [of p b k "k ! length p"] prefix_nth [OF \<open>prefix p k\<close> len] False by auto
      then have "map_of (contents c) k = None" using miss [of b c] Cons.prems d by auto
      then show ?thesis using Cons False by (auto simp: d map_add_def split: option.splits)
    qed
  qed simp
  moreover have "map_of (concat (map (\<lambda>(b, c). contents c) cs)) k = None" if "\<not> prefix p k"
  proof -
    have "kv \<in> set (contents (Inner p cs m h)) \<Longrightarrow> fst kv \<noteq> k" for kv
      using contents_prefix [OF wf, of kv] that by auto
    then have "k \<notin> fst ` set (contents (Inner p cs m h))" by blast
    then show ?thesis by (simp only: map_of_eq_None_iff contents.simps not_False_eq_True)
  qed
  ultimately show ?thesis
    using ord unfolding trie_map_def child_find_def contents.simps by simp
qed

lemma trie_map_Leaf: "trie_map (Leaf p v m h) k = (if k = p then Some v else None)"
  by (simp add: trie_map_def)

lemma trie_map_empty: "is_empty_node t \<Longrightarrow> trie_map t k = None"
  by (cases t) (simp_all add: is_empty_node_def trie_map_def)

section \<open>Order\<close>

text \<open>Byte order on keys of the same length is the lexicographic order of their units.\<close>

fun key_less :: "key \<Rightarrow> key \<Rightarrow> bool" where
  "key_less (a # as) (b # bs) \<longleftrightarrow> a < b \<or> a = b \<and> key_less as bs"
| "key_less _ _ = False"

lemma key_less_append: "key_less (p @ x) (p @ y) \<longleftrightarrow> key_less x y"
  by (induction p) auto

lemma key_less_irrefl [simp]: "\<not> key_less k k"
  by (induction k) auto

lemma key_less_trans: "key_less a b \<Longrightarrow> key_less b c \<Longrightarrow> key_less a c"
proof (induction a b arbitrary: c rule: key_less.induct)
  case (1 a as b bs)
  then show ?case by (cases c) auto
qed simp_all

lemma key_less_linear: "length a = length b \<Longrightarrow> key_less a b \<or> a = b \<or> key_less b a"
  by (induction a b rule: list_induct2) auto

lemma key_less_branch:
  assumes "prefix (p @ [a]) k" "prefix (p @ [b]) k'" "a < b"
  shows "key_less k k'"
  using assms by (auto simp: prefix_def key_less_append)

definition ascending :: "key list \<Rightarrow> bool" where
  "ascending ks \<longleftrightarrow> sorted_wrt key_less ks"

lemma contents_ascending: "wf_node n t \<Longrightarrow> ascending (map fst (contents t))"
proof (induction t rule: node_induct)
  case (Leaf p v m h)
  then show ?case by (simp add: ascending_def)
next
  case (Inner p cs m h)
  note wf = Inner.prems
  have "sorted_wrt key_less (map fst (concat (map (\<lambda>(b, c). contents c) ds)))"
    if "set ds \<subseteq> set cs" "ordered ds" for ds
    using that
  proof (induction ds)
    case (Cons d ds)
    obtain b c where d: "d = (b, c)" by force
    have bc: "(b, c) \<in> set cs" using Cons.prems d by auto
    have "ascending (map fst (contents c))" using Inner.IH [OF bc] wf bc by auto
    moreover have "key_less (fst x) (fst y)"
      if "x \<in> set (contents c)" "(b', c') \<in> set ds" "y \<in> set (contents c')" for x y b' c'
    proof (rule key_less_branch)
      show "prefix (p @ [b]) (fst x)" by (rule child_contents_prefix [OF wf bc that(1)])
      show "prefix (p @ [b']) (fst y)" using that Cons.prems by (intro child_contents_prefix [OF wf]) auto
      show "b < b'" using that(2) Cons.prems d by force
    qed
    ultimately show ?case using Cons by (fastforce simp: d ascending_def sorted_wrt_append)
  qed simp
  with wf show ?case by (auto simp: ascending_def)
qed

lemma ascending_distinct: "ascending ks \<Longrightarrow> distinct ks"
  unfolding ascending_def by (induction ks) auto

lemma ascending_unique:
  assumes "ascending (map fst xs)" "ascending (map fst ys)" "map_of xs = map_of ys"
  shows "xs = ys"
proof -
  have "set xs = set ys"
    using assms ascending_distinct [of "map fst xs"] ascending_distinct [of "map fst ys"]
    by (metis map_of_inject_set)
  then show ?thesis using assms(1,2)
  proof (induction xs arbitrary: ys)
    case (Cons x xs)
    then obtain y ys' where ys: "ys = y # ys'" by (cases ys) auto
    have lt: "\<forall>z \<in> set xs. key_less (fst x) (fst z)" "\<forall>z \<in> set ys'. key_less (fst y) (fst z)"
      using Cons.prems(2,3) by (auto simp: ascending_def ys)
    have "x = y"
    proof (rule ccontr)
      assume "x \<noteq> y"
      then have "x \<in> set ys'" "y \<in> set xs" using Cons.prems(1) by (auto simp: ys)
      then show False using lt key_less_trans key_less_irrefl by blast
    qed
    moreover have "x \<notin> set xs" "x \<notin> set ys'" using lt \<open>x = y\<close> by (auto dest: bspec)
    ultimately have "set xs = set ys'" using Cons.prems(1) by (auto simp: ys)
    then have "xs = ys'" using Cons by (auto simp: ys ascending_def)
    with \<open>x = y\<close> show ?case by (simp add: ys)
  qed simp
qed

section \<open>Canonical form\<close>

text \<open>The shape of a trie without metadata and hashes.\<close>

datatype 'v skel = Skel_Leaf key 'v | Skel_Inner key "(nib \<times> 'v skel) list"

fun skeleton :: "'v node \<Rightarrow> 'v skel" where
  "skeleton (Leaf p v m h) = Skel_Leaf p v"
| "skeleton (Inner p cs m h) = Skel_Inner p (map (\<lambda>(b, c). (b, skeleton c)) cs)"

lemma wf_inner_two_branches:
  assumes wf: "wf_node n (Inner p cs m h)"
  obtains b1 c1 k1 b2 c2 k2 where "(b1, c1) \<in> set cs" "(b2, c2) \<in> set cs" "b1 \<noteq> b2"
    "k1 \<in> fst ` set (contents c1)" "k2 \<in> fst ` set (contents c2)"
    "prefix (p @ [b1]) k1" "prefix (p @ [b2]) k2"
proof -
  obtain b1 c1 b2 c2 cs' where cs: "cs = (b1, c1) # (b2, c2) # cs'"
    using wf by (cases cs; cases "tl cs") auto
  have "wf_node n c1" "wf_node n c2" using wf cs by auto
  then obtain x1 x2 where x: "x1 \<in> set (contents c1)" "x2 \<in> set (contents c2)"
    using wf_node_contents_nonempty by (metis list.set_sel(1))
  show thesis
    using that [of b1 c1 b2 c2 "fst x1" "fst x2"] wf cs x
      child_contents_prefix [OF wf, of b1 c1 x1] child_contents_prefix [OF wf, of b2 c2 x2]
    by auto
qed

text \<open>An inner prefix is the longest common prefix of the keys below it.\<close>

lemma common_prefix_le:
  assumes wf: "wf_node n (Inner p cs m h)"
    and q: "\<forall>k \<in> fst ` set (contents (Inner p cs m h)). prefix q k"
  shows "prefix q p"
proof -
  obtain b1 c1 k1 b2 c2 k2 where x: "(b1, c1) \<in> set cs" "(b2, c2) \<in> set cs" "b1 \<noteq> b2"
    "k1 \<in> fst ` set (contents c1)" "k2 \<in> fst ` set (contents c2)"
    "prefix (p @ [b1]) k1" "prefix (p @ [b2]) k2"
    by (rule wf_inner_two_branches [OF wf])
  have in1: "k1 \<in> fst ` set (contents (Inner p cs m h))" "k2 \<in> fst ` set (contents (Inner p cs m h))"
    using x(1,2,4,5) by force+
  then have "prefix q k1" "prefix q k2" using q by blast+
  show ?thesis
  proof (rule ccontr)
    assume no: "\<not> prefix q p"
    have "prefix p k1" "prefix p k2" using x(6,7) by (auto dest: append_prefixD)
    then have "prefix p q" using no \<open>prefix q k1\<close> by (auto dest: prefix_same_cases)
    with no obtain z zs where z: "q = p @ z # zs" by (auto simp: prefix_def neq_Nil_conv)
    then have "prefix (p @ [z]) k1" "prefix (p @ [z]) k2"
      using \<open>prefix q k1\<close> \<open>prefix q k2\<close> by (auto simp: prefix_def)
    then show False using x(3,6,7) prefix_snoc_unique by metis
  qed
qed

lemma prefix_common: "wf_node n t \<Longrightarrow> \<forall>k \<in> fst ` set (contents t). prefix (node_prefix t) k"
  using contents_prefix by force

lemma child_contents_branch:
  assumes "wf_node n (Inner p cs m h)" "(b, c) \<in> set cs" "kv \<in> set (contents c)"
  shows "fst kv ! length p = b"
  using child_contents_prefix [OF assms] by (auto simp: prefix_def nth_append)

lemma filter_branch_contents:
  assumes wf: "wf_node n (Inner p cs m h)" and sub: "set ds \<subseteq> set cs" and ord: "ordered ds"
  shows "filter (\<lambda>kv. fst kv ! length p = b) (concat (map (\<lambda>(b, c). contents c) ds)) =
           (case map_of ds b of None \<Rightarrow> [] | Some c \<Rightarrow> contents c)"
  using sub ord
proof (induction ds)
  case (Cons d ds)
  obtain b' c where d: "d = (b', c)" by force
  have all: "\<forall>kv \<in> set (contents c). fst kv ! length p = b'"
    using child_contents_branch [OF wf, of b' c] Cons.prems d by auto
  show ?case
  proof (cases "b' = b")
    case True
    have "map_of ds b = None" using Cons.prems True d by (force simp: map_of_eq_None_iff)
    then show ?thesis using Cons all True by (simp add: d filter_True)
  next
    case False
    then have "filter (\<lambda>kv. fst kv ! length p = b) (contents c) = []" using all by (auto simp: filter_empty_conv)
    then show ?thesis using Cons False by (simp add: d)
  qed
qed simp

lemma children_contents_determined:
  assumes wf: "wf_node n (Inner p cs m h)"
  shows "map (\<lambda>(b, c). (b, contents c)) cs =
    map (\<lambda>b. (b, filter (\<lambda>kv. fst kv ! length p = b) (contents (Inner p cs m h)))) (map fst cs)"
    and "set (map fst cs) = (\<lambda>kv. fst kv ! length p) ` set (contents (Inner p cs m h))"
proof -
  have ord: "ordered cs" using wf by simp
  have "filter (\<lambda>kv. fst kv ! length p = b) (contents (Inner p cs m h)) = contents c"
    if "(b, c) \<in> set cs" for b c
    using filter_branch_contents [OF wf subset_refl ord, of b] that ord
    by (simp add: ordered_distinct)
  then show "map (\<lambda>(b, c). (b, contents c)) cs =
    map (\<lambda>b. (b, filter (\<lambda>kv. fst kv ! length p = b) (contents (Inner p cs m h)))) (map fst cs)"
    by (auto simp del: contents.simps)
  have ne: "(b, c) \<in> set cs \<Longrightarrow> \<exists>kv. kv \<in> set (contents c)" for b c
    using wf wf_node_contents_nonempty [of n c] by (cases "contents c") auto
  show "set (map fst cs) = (\<lambda>kv. fst kv ! length p) ` set (contents (Inner p cs m h))"
  proof (intro equalityI subsetI)
    fix b assume "b \<in> set (map fst cs)"
    then obtain c where c: "(b, c) \<in> set cs" by auto
    then obtain kv where "kv \<in> set (contents c)" using ne by blast
    with c show "b \<in> (\<lambda>kv. fst kv ! length p) ` set (contents (Inner p cs m h))"
      using child_contents_branch [OF wf, of b c kv] by force
  next
    fix b assume "b \<in> (\<lambda>kv. fst kv ! length p) ` set (contents (Inner p cs m h))"
    then obtain b' c kv where "(b', c) \<in> set cs" "kv \<in> set (contents c)" "b = fst kv ! length p"
      by auto
    then show "b \<in> set (map fst cs)" using child_contents_branch [OF wf, of b' c kv] by force
  qed
qed

lemma contents_inner_ne_singleton: "wf_node n (Inner p cs m h) \<Longrightarrow> contents (Inner p cs m h) \<noteq> [x]"
proof
  assume wf: "wf_node n (Inner p cs m h)" and eq: "contents (Inner p cs m h) = [x]"
  obtain b1 c1 k1 b2 c2 k2 where y: "(b1, c1) \<in> set cs" "(b2, c2) \<in> set cs" "b1 \<noteq> b2"
    "k1 \<in> fst ` set (contents c1)" "k2 \<in> fst ` set (contents c2)"
    "prefix (p @ [b1]) k1" "prefix (p @ [b2]) k2"
    by (rule wf_inner_two_branches [OF wf])
  have "k1 \<in> fst ` set (contents (Inner p cs m h))" "k2 \<in> fst ` set (contents (Inner p cs m h))"
    using y(1,2,4,5) by force+
  then have "k1 = k2" by (simp only: eq) simp
  then show False using y(3,6,7) prefix_snoc_unique by metis
qed

text \<open>Two well-formed nodes with the same contents have the same shape, whatever their history.\<close>

lemma canonical:
  "wf_node n t \<Longrightarrow> wf_node n u \<Longrightarrow> contents t = contents u \<Longrightarrow> skeleton t = skeleton u"
proof (induction t arbitrary: u rule: node_induct)
  case (Leaf p v m h)
  show ?case
  proof (cases u)
    case (Inner q ds m' h')
    then show ?thesis
      using contents_inner_ne_singleton [of n q ds m' h' "(p, v)"] Leaf.prems by (metis contents.simps(1))
  qed (use Leaf.prems in simp)
next
  case (Inner p cs m h)
  have "\<not> is_Leaf u"
    using contents_inner_ne_singleton [OF Inner.prems(1)] Inner.prems(3)
    by (metis contents.simps(1) is_Leaf_def)
  then obtain q ds m' h' where u: "u = Inner q ds m' h'" by (cases u) simp_all
  note wft = Inner.prems(1) and wfu = Inner.prems(2) [unfolded u] and eq = Inner.prems(3) [unfolded u]
  have "prefix p q" "prefix q p"
    using common_prefix_le [OF wfu, of p] common_prefix_le [OF wft, of q]
      prefix_common [OF wft] prefix_common [OF wfu] by (simp_all only: eq node.sel)
  then have pq: "p = q" by (rule prefix_order.antisym)
  have "map fst cs = map fst ds"
  proof (rule strict_sorted_equal)
    show "sorted_wrt (<) (map fst cs)" "sorted_wrt (<) (map fst ds)" using wft wfu by (simp_all add: ordered_def)
    show "set (map fst cs) = set (map fst ds)"
      unfolding children_contents_determined(2) [OF wft] children_contents_determined(2) [OF wfu] eq
      by (simp only: pq)
  qed
  then have cd: "map (\<lambda>(b, c). (b, contents c)) cs = map (\<lambda>(b, c). (b, contents c)) ds"
    unfolding children_contents_determined(1) [OF wft] children_contents_determined(1) [OF wfu] eq
    by (simp only: pq)
  have len: "length cs = length ds" using cd by (rule map_eq_imp_length_eq)
  have "map (\<lambda>(b, c). (b, skeleton c)) cs = map (\<lambda>(b, c). (b, skeleton c)) ds"
  proof (rule nth_equalityI)
    fix i assume "i < length (map (\<lambda>(b, c). (b, skeleton c)) cs)"
    then have i: "i < length cs" by simp
    obtain b c b' d where nth: "cs ! i = (b, c)" "ds ! i = (b', d)" by force
    have "map (\<lambda>(b, c). (b, contents c)) cs ! i = map (\<lambda>(b, c). (b, contents c)) ds ! i" by (simp only: cd)
    then have "b = b'" "contents c = contents d" using i len nth by simp_all
    moreover have mem: "(b, c) \<in> set cs" "(b', d) \<in> set ds" using i len nth nth_mem by metis+
    then have "wf_node n c" "wf_node n d" using wft wfu by auto
    ultimately have "skeleton c = skeleton d" using Inner.IH mem by blast
    then show "map (\<lambda>(b, c). (b, skeleton c)) cs ! i = map (\<lambda>(b, c). (b, skeleton c)) ds ! i"
      using i len nth \<open>b = b'\<close> by simp
  qed (simp add: len)
  then show ?case by (simp add: u pq)
qed

end
