(* ===== verification/Trie_Insert.thy ===== *)
theory Trie_Insert
  imports Trie_Node
begin

text \<open>
  Insertion, \<^verbatim>\<open>TrieNode::_insert\<close> of \<^verbatim>\<open>merkle_trie.h\<close>, for any insert policy: it does
  not throw on a well-formed trie, adds or overwrites exactly one key, keeps the shape, and reports
  to the ancestors the change of the metadata.
\<close>

definition make_value_leaf :: "(key, 'v, 'i) insert_fn \<Rightarrow> key \<Rightarrow> 'i \<Rightarrow> 'v node" where
  "make_value_leaf F k i = Leaf k (leaf_value F k i) (leaf_metadata F i) None"

text \<open>
  \<open>move_contents_to_new_node\<close> followed by \<open>set_metadata_unsafe\<close>: the same node, not yet hashed.
\<close>

definition move_contents_to_new_node :: "'v node \<Rightarrow> 'v node" where
  "move_contents_to_new_node t = invalidate_hash t"

text \<open>The last branch of \<open>_insert\<close>: the key leaves the prefix, so the node becomes the join of two.\<close>

definition split_insert :: "(key, 'v, 'i) insert_fn \<Rightarrow> key \<Rightarrow> 'i \<Rightarrow> 'v node \<Rightarrow> ('v node \<times> Metadata) res" where
  "split_insert F data leaf t =
     (let prefix_len = prefix_match (node_prefix t) data;
          original_child_branch = move_contents_to_new_node t;
          new_child = make_value_leaf F data leaf
      in res_bind (branch_bits data prefix_len) (\<lambda>bb.
         res_bind (branch_bits (node_prefix t) prefix_len) (\<lambda>old_bb.
           if bb = old_bb then Inl (Runtime_error ''we split at the wrong index!'')
           else Inr (Inner (take prefix_len (node_prefix t))
                       (child_emplace old_bb original_child_branch (child_emplace bb new_child []))
                       (metadata new_child + metadata t) None,
                     metadata new_child))))"

function (sequential) node_insert :: "(key, 'v, 'i) insert_fn \<Rightarrow> key \<Rightarrow> 'i \<Rightarrow> 'v node \<Rightarrow> ('v node \<times> Metadata) res" where
  "node_insert F data leaf (Leaf p v m h) =
     (if prefix_match p data = length p
      then let v' = value_insert F v leaf; (m', delta) = metadata_insert F m v'
           in Inr (Leaf p v' m' None, delta)
      else split_insert F data leaf (Leaf p v m h))"
| "node_insert F data leaf (Inner p cs m h) =
     (if length cs = 1 then Inl (Runtime_error ''children size should never be 1 (insert)'')
      else if cs = [] \<and> p \<noteq> [] then Inl (Runtime_error ''invalid initialization somewhere'')
      else if p = [] \<and> cs = []
      then let v = value_insert F (new_value F data) leaf; m' = new_metadata F v
           in Inr (Leaf data v m' None, m')
      else if prefix_match p data = length p
      then res_bind (branch_bits data (length p)) (\<lambda>bb.
             case child_find bb cs of
               Some child \<Rightarrow>
                 res_bind (node_insert F data leaf child) (\<lambda>(child', delta).
                   Inr (Inner p (child_emplace bb child' cs) (m + delta) None, delta))
             | None \<Rightarrow>
                 let new_child = make_value_leaf F data leaf
                 in Inr (Inner p (child_emplace bb new_child cs) (m + metadata new_child) None,
                         metadata new_child))
      else split_insert F data leaf (Inner p cs m h))"
  by pat_completeness auto

termination
  by (relation "measure (\<lambda>(F, d, i, t). size t)") (simp_all only: node_termination)

section \<open>Insertion updates the map\<close>

lemma invalidate_hash_simps [simp]:
  "node_prefix (invalidate_hash t) = node_prefix t"
  "metadata (invalidate_hash t) = metadata t"
  "contents (invalidate_hash t) = contents t"
  "wf_node n (invalidate_hash t) = wf_node n t"
  "meta_ok L (invalidate_hash t) = meta_ok L t"
  "children (invalidate_hash t) = children t"
  by (cases t; simp add: invalidate_hash_def)+

lemma sum_metadata_emplace:
  assumes "ordered cs"
  shows "sum_list (map (\<lambda>(b, c). metadata c) (child_emplace b c cs)) =
    sum_list (map (\<lambda>(b, c). metadata c) cs) + metadata c -
      (case child_find b cs of None \<Rightarrow> 0 | Some c' \<Rightarrow> metadata c')"
  using assms
proof (induction b c cs rule: child_emplace.induct)
  case (2 b c b' c' cs)
  have "b < b' \<Longrightarrow> map_of cs b = None"
    using 2 by (force simp: map_of_eq_None_iff)
  with 2 show ?case by (auto simp: child_find_def split: option.splits)
qed (simp add: child_find_def)

lemma wf_Inner_emplace:
  assumes "wf_node n (Inner p cs m h)" "wf_node n c" "prefix (p @ [b]) (node_prefix c)"
  shows "wf_node n (Inner p (child_emplace b c cs) m' h')"
  using assms by (auto simp: set_child_emplace length_child_emplace)

lemma trie_map_emplace:
  assumes wf: "wf_node n (Inner p cs m h)" and c: "wf_node n c" "prefix (p @ [b]) (node_prefix c)"
    and k: "length k = n"
  shows "trie_map (Inner p (child_emplace b c cs) m' h') k =
    (if prefix (p @ [b]) k then trie_map c k else trie_map (Inner p cs m h) k)"
proof -
  have ord: "ordered cs" and len: "length p < length k" using wf k by auto
  have pb: "prefix (p @ [b]) k \<longleftrightarrow> prefix p k \<and> k ! length p = b"
    using prefix_nth [OF _ len] by (auto dest: append_prefixD simp: prefix_def nth_append)
  show ?thesis
    unfolding trie_map_Inner [OF wf k] trie_map_Inner [OF wf_Inner_emplace [OF wf c] k]
      child_find_emplace [OF ord] pb by (simp split: option.splits)
qed

text \<open>A node made of two branches.\<close>

lemma join_two:
  fixes t u :: "'v node" and m h
  assumes t: "wf_node n t" "wf_node n u" and p: "prefix (p @ [a]) (node_prefix t)" "prefix (p @ [b]) (node_prefix u)"
    and ab: "a \<noteq> b" and k: "length k = n"
  defines "j \<equiv> Inner p (child_emplace a t (child_emplace b u [])) m h"
  shows "wf_node n j"
    and "trie_map j k = (if prefix (p @ [b]) k then trie_map u k else if prefix (p @ [a]) k then trie_map t k else None)"
proof -
  have "length (p @ [a]) \<le> n"
    using p(1) t(1) by (cases t) (auto dest: prefix_length_le)
  then have len: "length p < n" by simp
  show wf: "wf_node n j" using assms len by (auto simp: j_def)
  have "prefix (p @ [x]) k \<longleftrightarrow> prefix p k \<and> k ! length p = x" for x
    using prefix_nth [of p k] len k by (auto dest: append_prefixD simp: prefix_def nth_append)
  then show "trie_map j k = (if prefix (p @ [b]) k then trie_map u k else if prefix (p @ [a]) k then trie_map t k else None)"
    using ab trie_map_Inner [OF wf [unfolded j_def] k] by (auto simp: j_def child_find_def)
qed

lemma meta_ok_join:
  assumes "a \<noteq> b" "metadata t = m" "meta_ok L u" "meta_ok L t"
  shows "meta_ok L (Inner p (child_emplace a t (child_emplace b u [])) (metadata u + m) h)"
  using assms by (auto simp: add.commute)

lemma trie_map_other_prefix:
  "wf_node n t \<Longrightarrow> \<not> prefix (node_prefix t) k \<Longrightarrow> trie_map t k = None"
  using contents_prefix [of n t] by (force simp: trie_map_def map_of_eq_None_iff)

lemma trie_map_other_branch:
  assumes "wf_node n t" "prefix q (node_prefix t)" "\<not> prefix q k"
  shows "trie_map t k = None"
  by (rule trie_map_other_prefix [OF assms(1)]) (use assms(3) prefix_order.trans [OF assms(2), of k] in iprover)

text \<open>Insertion below a branch stays below that branch.\<close>

lemma prefix_match_common: "prefix q a \<Longrightarrow> prefix q b \<Longrightarrow> length q \<le> prefix_match a b"
proof (induction a b arbitrary: q rule: prefix_match.induct)
  case (1 a as b bs)
  then show ?case by (cases q) auto
qed auto

lemma split_insert_prefix:
  assumes "split_insert F data leaf t = Inr (t', delta)" "prefix q (node_prefix t)" "prefix q data"
  shows "prefix q (node_prefix t')"
proof -
  let ?ml = "prefix_match (node_prefix t) data"
  have "node_prefix t' = take ?ml (node_prefix t)"
    using assms(1) by (auto simp: split_insert_def Let_def split: if_splits)
  moreover have "length q \<le> length (take ?ml (node_prefix t))"
    using prefix_match_common [OF assms(2,3)] prefix_length_le [OF assms(2)] by simp
  ultimately show ?thesis using assms(2) by (metis prefix_length_prefix take_is_prefix)
qed

lemma node_insert_prefix:
  assumes ins: "node_insert F data leaf t = Inr (t', delta)" and q: "prefix q (node_prefix t)" "prefix q data"
  shows "prefix q (node_prefix t')"
proof (cases t)
  case (Leaf p v m h)
  show ?thesis
  proof (cases "prefix_match p data = length p")
    case True
    then have "node_prefix t' = p"
      using ins Leaf by (auto simp: Let_def split: prod.splits)
    then show ?thesis using q Leaf by simp
  next
    case False
    then have "split_insert F data leaf t = Inr (t', delta)" using ins Leaf by simp
    then show ?thesis using q by (rule split_insert_prefix)
  qed
next
  case (Inner p cs m h)
  consider "p = []" "cs = []" | "cs \<noteq> []" "prefix_match p data = length p" | "cs \<noteq> []" "prefix_match p data \<noteq> length p"
    using ins Inner by (cases "cs = []"; cases "p = []") auto
  then show ?thesis
  proof cases
    case 1
    then have "node_prefix t' = data" using ins Inner by (auto simp: Let_def)
    then show ?thesis using q by simp
  next
    case 2
    then have "node_prefix t' = p"
      using ins Inner by (auto simp: Let_def split: if_splits option.splits)
    then show ?thesis using q Inner by simp
  next
    case 3
    then have "split_insert F data leaf t = Inr (t', delta)" using ins Inner by (simp split: if_splits)
    then show ?thesis using q by (rule split_insert_prefix)
  qed
qed

context insert_policy
begin

definition stored :: "'v option \<Rightarrow> 'k \<Rightarrow> 'i \<Rightarrow> 'v" where
  "stored old k i = value_insert F (case old of None \<Rightarrow> new_value F k | Some v \<Rightarrow> v) i"

end

text \<open>Where the key leaves the prefix of a node: the first differing unit, and the two branches.\<close>

lemma split_point:
  assumes wf: "wf_node n t" and d: "length data = n" and no: "\<not> prefix (node_prefix t) data"
  obtains q a b where "q = take (prefix_match (node_prefix t) data) (node_prefix t)" "a \<noteq> b"
    "prefix (q @ [a]) (node_prefix t)" "prefix (q @ [b]) data"
    "branch_bits data (prefix_match (node_prefix t) data) = Inr b"
    "branch_bits (node_prefix t) (prefix_match (node_prefix t) data) = Inr a"
proof -
  define p where "p = node_prefix t"
  define ml where "ml = prefix_match p data"
  have lp: "length p \<le> n" using wf by (cases t) (auto simp: p_def)
  have "ml \<noteq> length p" using no by (simp add: prefix_match_full ml_def p_def)
  then have lt: "ml < length p" using prefix_match_le(1) [of p data] by (simp add: ml_def)
  then have ld: "ml < length data" using lp d by simp
  have "p ! ml \<noteq> data ! ml" unfolding ml_def by (rule prefix_match_differ [OF lt [unfolded ml_def] ld [unfolded ml_def]])
  moreover have "prefix (take ml p @ [p ! ml]) p"
    unfolding take_Suc_conv_app_nth [OF lt, symmetric] by (rule take_is_prefix)
  moreover have "take ml p = take ml data" unfolding ml_def by (rule take_prefix_match)
  then have "prefix (take ml p @ [data ! ml]) data"
    using take_is_prefix [of "Suc ml" data] by (simp only: take_Suc_conv_app_nth [OF ld])
  moreover have "branch_bits data ml = Inr (data ! ml)" "branch_bits p ml = Inr (p ! ml)"
    using lt ld by (simp_all add: branch_bits_def)
  ultimately show thesis
    using that [of "take ml p" "p ! ml" "data ! ml"] unfolding p_def ml_def by blast
qed

lemma split_insert_eq:
  assumes "q = take (prefix_match (node_prefix t) data) (node_prefix t)" "a \<noteq> b"
    "branch_bits data (prefix_match (node_prefix t) data) = Inr b"
    "branch_bits (node_prefix t) (prefix_match (node_prefix t) data) = Inr a"
  shows "split_insert F data leaf t =
    Inr (Inner q (child_emplace a (move_contents_to_new_node t) (child_emplace b (make_value_leaf F data leaf) []))
           (metadata (make_value_leaf F data leaf) + metadata t) None, metadata (make_value_leaf F data leaf))"
  unfolding split_insert_def Let_def assms(3,4) assms(1) [symmetric] res_bind_simps
  by (rule if_not_P) (rule assms(2) [symmetric])

locale trie_insert_policy = insert_policy F for F :: "(key, 'v, 'i) insert_fn"
begin

text \<open>What an insertion at \<open>data\<close> makes of a node.\<close>

definition inserted :: "nat \<Rightarrow> key \<Rightarrow> 'i \<Rightarrow> 'v node \<Rightarrow> 'v node \<Rightarrow> Metadata \<Rightarrow> bool" where
  "inserted n data leaf t t' delta \<longleftrightarrow>
     wf_node n t' \<and> metadata t' = metadata t + delta \<and>
     (\<forall>k. length k = n \<longrightarrow>
        trie_map t' k = (if k = data then Some (stored (trie_map t data) data leaf) else trie_map t k)) \<and>
     (\<forall>L. meta_ok L t \<longrightarrow>
        L (stored (trie_map t data) data leaf) (new_metadata F (stored (trie_map t data) data leaf)) \<longrightarrow>
        meta_ok L t')"

lemma new_leaf:
  fixes leaf :: 'i
  assumes "length data = n"
  shows "wf_node n (make_value_leaf F data leaf)" "node_prefix (make_value_leaf F data leaf) = data"
    "metadata (make_value_leaf F data leaf) = new_metadata F (stored None data leaf)"
    "trie_map (make_value_leaf F data leaf) k = (if k = data then Some (stored None data leaf) else None)"
    "meta_ok L (make_value_leaf F data leaf) = L (stored None data leaf) (new_metadata F (stored None data leaf))"
  using assms
  by (simp_all add: make_value_leaf_def trie_map_Leaf stored_def leaf_value_eq leaf_metadata_eq [of _ data])

lemma split_insert_correct:
  assumes wf: "wf_node n t" and d: "length data = n" and no: "\<not> prefix (node_prefix t) data"
  shows "\<exists>t' delta. split_insert F data leaf t = Inr (t', delta) \<and> inserted n data leaf t t' delta"
proof -
  obtain q a b where q: "q = take (prefix_match (node_prefix t) data) (node_prefix t)" and ab: "a \<noteq> b"
    and qa: "prefix (q @ [a]) (node_prefix t)" and qb: "prefix (q @ [b]) data"
    and bits: "branch_bits data (prefix_match (node_prefix t) data) = Inr b"
      "branch_bits (node_prefix t) (prefix_match (node_prefix t) data) = Inr a"
    by (rule split_point [OF assms])
  define l where "l = make_value_leaf F data leaf"
  define u where "u = move_contents_to_new_node t"
  define j where "j = Inner q (child_emplace a u (child_emplace b l [])) (metadata l + metadata t) None"
  note l = new_leaf [OF d, where leaf = leaf, folded l_def]
  have u: "wf_node n u" "node_prefix u = node_prefix t" "metadata u = metadata t" "trie_map u = trie_map t"
    "\<And>L. meta_ok L u = meta_ok L t"
    using wf by (simp_all add: u_def move_contents_to_new_node_def trie_map_def)
  have qa': "prefix (q @ [a]) (node_prefix u)" and qb': "prefix (q @ [b]) (node_prefix l)"
    unfolding u(2) l(2) by (rule qa, rule qb)
  have eq: "split_insert F data leaf t = Inr (j, metadata l)"
    unfolding j_def l_def u_def by (rule split_insert_eq [OF q ab bits])
  have tq: "trie_map t k = None" if "\<not> prefix (q @ [a]) k" for k
    by (rule trie_map_other_branch [OF wf qa that])
  have none: "trie_map t data = None" by (rule trie_map_other_prefix [OF wf no])
  have map: "trie_map j k = (if k = data then Some (stored None data leaf) else trie_map t k)"
    if k: "length k = n" for k
  proof -
    have m: "trie_map j k = (if prefix (q @ [b]) k then trie_map l k else if prefix (q @ [a]) k then trie_map u k else None)"
      unfolding j_def by (rule join_two(2) [OF u(1) l(1) qa' qb' ab k])
    show ?thesis
    proof (cases "prefix (q @ [b]) k")
      case True
      then have "\<not> prefix (q @ [a]) k" using ab prefix_snoc_unique [of q a k b] by iprover
      then show ?thesis unfolding m l(4) using True tq by simp
    next
      case False
      then have "k \<noteq> data" using qb by blast
      then show ?thesis unfolding m u(4) using False tq by simp
    qed
  qed
  have wfj: "wf_node n j" unfolding j_def by (rule join_two(1) [OF u(1) l(1) qa' qb' ab d])
  have md: "metadata j = metadata t + metadata l" by (simp add: j_def add.commute)
  have mok: "meta_ok L j" if "meta_ok L t" "L (stored None data leaf) (new_metadata F (stored None data leaf))" for L
    unfolding j_def by (rule meta_ok_join [OF ab u(3)]) (use that in \<open>simp_all only: u(5) l(5)\<close>)
  have "inserted n data leaf t j (metadata l)"
    unfolding inserted_def none using wfj md map mok by blast
  with eq show ?thesis by blast
qed

lemma insert_new_child:
  fixes leaf :: 'i
  assumes wf: "wf_node n (Inner p cs m h)" and d: "length data = n" and pd: "prefix p data"
    and None: "child_find (data ! length p) cs = None"
  defines "l \<equiv> make_value_leaf F data leaf"
  shows "inserted n data leaf (Inner p cs m h)
    (Inner p (child_emplace (data ! length p) l cs) (m + metadata l) None) (metadata l)"
proof -
  define b where "b = data ! length p"
  define t where "t = Inner p cs m h"
  define t' where "t' = Inner p (child_emplace b l cs) (m + metadata l) None"
  note l = new_leaf [OF d, where leaf = leaf, folded l_def] and wf' = wf [folded t_def]
  have ord: "ordered cs" using wf by simp
  have pb: "prefix (p @ [b]) data" unfolding b_def using wf d by (intro prefix_nth [OF pd]) simp
  have pl: "prefix (p @ [b]) (node_prefix l)" unfolding l(2) by (rule pb)
  have none: "trie_map t k = None" if "prefix (p @ [b]) k" "length k = n" for k
  proof -
    have "k ! length p = b" using that by (auto simp: prefix_def nth_append)
    then show ?thesis using None unfolding t_def trie_map_Inner [OF wf that(2)] b_def by simp
  qed
  have map: "trie_map t' k = (if k = data then Some (stored None data leaf) else trie_map t k)"
    if k: "length k = n" for k
    unfolding t'_def trie_map_emplace [OF wf l(1) pl k] l(4) t_def [symmetric] using none [OF _ k] pb by simp
  have wft: "wf_node n t'" unfolding t'_def by (rule wf_Inner_emplace [OF wf l(1) pl])
  have md: "metadata t' = metadata t + metadata l" by (simp add: t_def t'_def)
  have mok: "meta_ok L t'" if "meta_ok L t" "L (stored None data leaf) (new_metadata F (stored None data leaf))" for L
    using that l(5) [of L] sum_metadata_emplace [OF ord, of b l] None
    unfolding t'_def t_def b_def [symmetric] by (auto simp: set_child_emplace [OF ord])
  have "inserted n data leaf t t' (metadata l)"
    unfolding inserted_def none [OF pb d] using wft map mok md by blast
  then show ?thesis unfolding t_def t'_def b_def .
qed

lemma insert_into_child:
  assumes wf: "wf_node n (Inner p cs m h)" and d: "length data = n" and pd: "prefix p data"
    and Some: "child_find (data ! length p) cs = Some c" and c': "inserted n data leaf c c' delta"
    and pc': "prefix (p @ [data ! length p]) (node_prefix c')"
  shows "inserted n data leaf (Inner p cs m h)
    (Inner p (child_emplace (data ! length p) c' cs) (m + delta) None) delta"
proof -
  define b where "b = data ! length p"
  define t where "t = Inner p cs m h"
  define t' where "t' = Inner p (child_emplace b c' cs) (m + delta) None"
  note Some' = Some [folded b_def] and pc = pc' [folded b_def]
  have ord: "ordered cs" using wf by simp
  have mem: "(b, c) \<in> set cs" using Some' ord by (simp add: child_find_in)
  have pb: "prefix (p @ [b]) data" unfolding b_def using wf d by (intro prefix_nth [OF pd]) simp
  have ins: "wf_node n c'" "metadata c' = metadata c + delta"
    "\<And>k. length k = n \<Longrightarrow> trie_map c' k = (if k = data then Some (stored (trie_map c data) data leaf) else trie_map c k)"
    "\<And>L. meta_ok L c \<Longrightarrow> L (stored (trie_map c data) data leaf) (new_metadata F (stored (trie_map c data) data leaf)) \<Longrightarrow> meta_ok L c'"
    using c' unfolding inserted_def by blast+
  have below: "trie_map t k = trie_map c k" if "prefix (p @ [b]) k" "length k = n" for k
  proof -
    have "k ! length p = b" "prefix p k" using that by (auto simp: prefix_def nth_append)
    then show ?thesis using Some' unfolding t_def trie_map_Inner [OF wf that(2)] by simp
  qed
  have map: "trie_map t' k = (if k = data then Some (stored (trie_map c data) data leaf) else trie_map t k)"
    if k: "length k = n" for k
    unfolding t'_def trie_map_emplace [OF wf ins(1) pc k] ins(3) [OF k] t_def [symmetric]
    using below [OF _ k] pb by auto
  have wft: "wf_node n t'" unfolding t'_def by (rule wf_Inner_emplace [OF wf ins(1) pc])
  have md: "metadata t' = metadata t + delta" by (simp add: t_def t'_def)
  have mok: "meta_ok L t'" if t: "meta_ok L t"
    and "L (stored (trie_map c data) data leaf) (new_metadata F (stored (trie_map c data) data leaf))" for L
  proof -
    have "meta_ok L c" using t mem by (auto simp: t_def)
    then have "meta_ok L c'" using that(2) by (rule ins(4))
    then show ?thesis
      using t sum_metadata_emplace [OF ord, of b c'] Some' ins(2)
      unfolding t'_def t_def by (auto simp: set_child_emplace [OF ord])
  qed
  have "inserted n data leaf t t' delta"
    unfolding inserted_def below [OF pb d] using wft map mok md by blast
  then show ?thesis unfolding t_def t'_def b_def .
qed

lemma node_insert_correct:
  assumes "wf_node n t" "length data = n"
  shows "\<exists>t' delta. node_insert F data leaf t = Inr (t', delta) \<and> inserted n data leaf t t' delta"
  using assms
proof (induction t rule: node_induct)
  case (Leaf p v m h)
  show ?case
  proof (cases "prefix p data")
    case True
    then have p: "p = data" using Leaf.prems by (auto simp: prefix_def)
    let ?v = "value_insert F v leaf"
    have "node_insert F data leaf (Leaf data v m h) = Inr (Leaf data ?v (new_metadata F ?v) None, new_metadata F ?v - m)"
      by (simp add: prefix_match_full metadata_insert_eq Let_def)
    moreover have "inserted n data leaf (Leaf data v m h) (Leaf data ?v (new_metadata F ?v) None) (new_metadata F ?v - m)"
      using Leaf.prems(2) by (simp add: inserted_def trie_map_Leaf stored_def)
    ultimately show ?thesis unfolding p by blast
  next
    case False
    then have "node_insert F data leaf (Leaf p v m h) = split_insert F data leaf (Leaf p v m h)"
      by (simp add: prefix_match_full)
    then show ?thesis using split_insert_correct [OF Leaf.prems] False by (simp only: node.sel not_False_eq_True)
  qed
next
  case (Inner p cs m h)
  note wf = Inner.prems(1) and d = Inner.prems(2)
  have cs: "length cs \<noteq> 1" "cs \<noteq> []" and ord: "ordered cs" and lp: "length p < length data"
    using wf d by auto
  show ?case
  proof (cases "prefix p data")
    case False
    then have "node_insert F data leaf (Inner p cs m h) = split_insert F data leaf (Inner p cs m h)"
      using cs by (simp add: prefix_match_full)
    then show ?thesis using split_insert_correct [OF wf d] False by (simp only: node.sel not_False_eq_True)
  next
    case True
    let ?b = "data ! length p"
    have bb: "branch_bits data (length p) = Inr ?b" using lp by (simp add: branch_bits_def)
    have pm: "prefix_match p data = length p" using True by (simp add: prefix_match_full)
    show ?thesis
    proof (cases "child_find ?b cs")
      case None
      then show ?thesis
        using insert_new_child [OF wf d True None, of leaf] cs pm bb by (auto simp: Let_def)
    next
      case (Some c)
      have mem: "(?b, c) \<in> set cs" using Some ord by (simp add: child_find_in)
      have c: "wf_node n c" "prefix (p @ [?b]) (node_prefix c)" using wf mem by auto
      obtain c' delta where c': "node_insert F data leaf c = Inr (c', delta)" "inserted n data leaf c c' delta"
        using Inner.IH [OF mem c(1) d] by blast
      have "prefix (p @ [?b]) (node_prefix c')"
        by (rule node_insert_prefix [OF c'(1) c(2) prefix_nth [OF True lp]])
      from insert_into_child [OF wf d True Some c'(2) this] show ?thesis
        using cs pm bb Some c'(1) by auto
    qed
  qed
qed

end

end
