(* ===== verification/Trie_Shrink.thy ===== *)
theory Trie_Shrink
  imports Trie_Insert
begin

text \<open>
  Removing leaves from a trie (\<^verbatim>\<open>merkle_trie.h\<close>): \<open>perform_deletion\<close> of one key,
  \<open>perform_marked_deletions\<close> and \<open>do_rollback\<close> of all leaves with a flag, and the contraction of
  nodes left with a single child, with the trie-level wrappers.
\<close>

section \<open>Leaves with their metadata\<close>

fun leaves :: "'v node \<Rightarrow> (key \<times> 'v \<times> Metadata) list" where
  "leaves (Leaf p v m h) = [(p, v, m)]"
| "leaves (Inner p cs m h) = concat (map (\<lambda>(b, c). leaves c) cs)"

abbreviation leaf_md :: "key \<times> 'v \<times> Metadata \<Rightarrow> Metadata" where
  "leaf_md x \<equiv> snd (snd x)"

abbreviation drop_md :: "key \<times> 'v \<times> Metadata \<Rightarrow> key \<times> 'v" where
  "drop_md x \<equiv> (fst x, fst (snd x))"

lemma contents_leaves: "contents t = map drop_md (leaves t)"
proof (induction t rule: node_induct)
  case (Inner p cs m h)
  then have "map (\<lambda>(b, c). contents c) cs = map (\<lambda>(b, c). map drop_md (leaves c)) cs" by auto
  also have "\<dots> = map (map drop_md) (map (\<lambda>(b, c). leaves c) cs)" by (simp add: case_prod_unfold)
  finally show ?case by (simp only: contents.simps leaves.simps map_concat)
qed simp

lemma sum_list_concat: "sum_list (map f (concat xss)) = sum_list (map (\<lambda>xs. sum_list (map f xs)) xss)"
  for f :: "'a \<Rightarrow> 'b::ab_group_add"
  by (induction xss) auto

lemma metadata_leaves: "meta_ok L t \<Longrightarrow> metadata t = sum_list (map leaf_md (leaves t))"
proof (induction t rule: node_induct)
  case (Inner p cs m h)
  have "map (\<lambda>(b, c). metadata c) cs = map (\<lambda>(b, c). sum_list (map leaf_md (leaves c))) cs"
    using Inner by (force intro: map_cong)
  also have "\<dots> = map (\<lambda>xs. sum_list (map leaf_md xs)) (map (\<lambda>(b, c). leaves c) cs)"
    by (simp add: case_prod_unfold)
  finally show ?case using Inner.prems by (simp only: node.sel meta_ok.simps leaves.simps sum_list_concat)
qed simp

lemma leaves_meta: "meta_ok L t \<Longrightarrow> x \<in> set (leaves t) \<Longrightarrow> L (fst (snd x)) (leaf_md x)"
  by (induction t rule: node_induct) force+

lemma leaves_nonempty: "wf_node n t \<Longrightarrow> leaves t \<noteq> []"
  using wf_node_contents_nonempty [of n t] by (auto simp: contents_leaves)

lemma leaves_prefix: "wf_node n t \<Longrightarrow> x \<in> set (leaves t) \<Longrightarrow> prefix (node_prefix t) (fst x) \<and> length (fst x) = n"
  using contents_prefix [of n t "drop_md x"] by (auto simp: contents_leaves)

lemma leaves_invalidate [simp]: "leaves (invalidate_hash t) = leaves t"
  by (cases t) (simp_all add: invalidate_hash_def)

section \<open>Contraction\<close>

text \<open>
  \<open>if (p->single_child()) children.emplace(bb, p->get_single_child())\<close>: what the parent (or the
  trie, for its root) keeps of a node that may have a single child.
\<close>

definition contract :: "'v node \<Rightarrow> 'v node" where
  "contract t = (case get_single_child t of Inr c \<Rightarrow> c | Inl e \<Rightarrow> t)"

lemma contract_cases:
  "contract t = t \<and> \<not> single_child t \<or> (\<exists>p b c m h. t = Inner p [(b, c)] m h \<and> contract t = c)"
  by (cases t) (auto simp: contract_def get_single_child_def single_child_def length_Suc_conv split: list.splits)

lemma contract_wf: "wf_node n t \<Longrightarrow> contract t = t"
  using contract_cases [of t] by (elim disjE exE conjE) simp_all

text \<open>A node between two operations: at least one child.\<close>

definition wf_weak :: "nat \<Rightarrow> 'v node \<Rightarrow> bool" where
  "wf_weak n t \<longleftrightarrow> (case t of Leaf p v m h \<Rightarrow> length p = n | Inner p cs m h \<Rightarrow>
     length p < n \<and> cs \<noteq> [] \<and> ordered cs \<and>
     (\<forall>x \<in> set cs. wf_node n (snd x) \<and> prefix (p @ [fst x]) (node_prefix (snd x))))"

lemma wf_node_weak: "wf_node n t \<Longrightarrow> wf_weak n t"
  by (cases t) (auto simp: wf_weak_def)

lemma wf_contract:
  assumes "wf_weak n t"
  shows "wf_node n (contract t)" "prefix (node_prefix t) (node_prefix (contract t))" "leaves (contract t) = leaves t"
    "meta_ok L t \<Longrightarrow> meta_ok L (contract t) \<and> metadata (contract t) = metadata t"
proof -
  consider "contract t = t" "\<not> single_child t" | p b c m h where "t = Inner p [(b, c)] m h" "contract t = c"
    using contract_cases [of t] by blast
  then have "wf_node n (contract t) \<and> prefix (node_prefix t) (node_prefix (contract t)) \<and>
    leaves (contract t) = leaves t \<and>
    (meta_ok L t \<longrightarrow> meta_ok L (contract t) \<and> metadata (contract t) = metadata t)"
  proof cases
    case 1
    then show ?thesis
      using assms by (cases t; cases "children t"; cases "tl (children t)") (auto simp: wf_weak_def single_child_def)
  next
    case 2
    then show ?thesis using assms by (auto simp: wf_weak_def dest: append_prefixD)
  qed
  then show "wf_node n (contract t)" "prefix (node_prefix t) (node_prefix (contract t))" "leaves (contract t) = leaves t"
    "meta_ok L t \<Longrightarrow> meta_ok L (contract t) \<and> metadata (contract t) = metadata t"
    by blast+
qed

section \<open>Removing the flagged leaves\<close>

text \<open>
  \<open>perform_marked_deletions\<close> and \<open>do_rollback\<close> are the same traversal on two counters \<open>cnt\<close> of the
  metadata.  The result is (whether the parent erases the node, the change of the metadata), the node,
  and the calls of the side-effect handler in order.
\<close>

type_synonym 'v pruned = "(bool \<times> Metadata) \<times> 'v node \<times> (key \<times> 'v) list"

definition keep_child :: "nib \<times> 'v pruned \<Rightarrow> (nib \<times> 'v node) list" where
  "keep_child = (\<lambda>(b, (erase, d), c, out). if erase then [] else [(b, contract c)])"

function (sequential) prune :: "(Metadata \<Rightarrow> u32) \<Rightarrow> string \<Rightarrow> 'v node \<Rightarrow> 'v pruned res" where
  "prune cnt msg (Leaf p v m h) =
     (if cnt m = 0 then Inr ((False, 0), Leaf p v m h, [])
      else if cnt m = 1 then Inr ((True, - m), Leaf p v m None, [(p, v)])
      else Inl (Runtime_error msg))"
| "prune cnt msg (Inner p cs m h) =
     (if cnt m = 0 then Inr ((False, 0), Inner p cs m h, [])
      else res_bind (res_map (\<lambda>(b, c). res_bind (prune cnt msg c) (\<lambda>r. Inr (b, r))) cs) (\<lambda>rs.
        let cs' = concat (map keep_child rs);
            delta = sum_list (map (\<lambda>(b, (e, d), c, out). d) rs)
        in Inr ((cs' = [], delta), Inner p cs' (m + delta) None, concat (map (\<lambda>(b, r, c, out). out) rs))))"
  by pat_completeness auto

termination
  by (relation "measure (\<lambda>(cnt, msg, t). size t)") (auto simp only: node_termination)

definition node_perform_marked_deletions :: "'v node \<Rightarrow> 'v pruned res" where
  "node_perform_marked_deletions =
     prune num_deleted_subnodes ''can't have num deleted subnodes not 0 or 1 at leaf''"

definition node_do_rollback :: "'v node \<Rightarrow> ((bool \<times> Metadata) \<times> 'v node) res" where
  "node_do_rollback t =
     res_bind (prune num_rollback_subnodes ''can't have num rollback subnodes > 1 at leaf'' t)
       (\<lambda>(r, t', out). Inr (r, t'))"


lemma keep_children_eq:
  "concat (map keep_child (map (\<lambda>(b, c). (b, R c)) cs)) =
     map (\<lambda>(b, c). (b, contract (fst (snd (R c))))) (filter (\<lambda>(b, c). \<not> fst (fst (R c))) cs)"
  by (induction cs) (auto simp: keep_child_def case_prod_unfold)

section \<open>What removal leaves behind\<close>

lemma ordered_map_snd: "ordered (map (\<lambda>(b, c). (b, f b c)) cs) = ordered cs"
  by (induction cs) auto

text \<open>
  Children are dropped or replaced by nodes that hold the leaves satisfying \<open>P\<close>: the node then holds
  the leaves satisfying \<open>P\<close>.
\<close>

lemma filter_children:
  fixes P :: "key \<times> 'v \<times> Metadata \<Rightarrow> bool" and p :: key
  assumes ord: "ordered cs" and pre: "\<And>b c. (b, c) \<in> set cs \<Longrightarrow> prefix (p @ [b]) (node_prefix c)"
    and keep: "\<And>b c. (b, c) \<in> set cs \<Longrightarrow> keep b c \<Longrightarrow>
      wf_node n (f b c) \<and> prefix (node_prefix c) (node_prefix (f b c)) \<and> leaves (f b c) = filter P (leaves c)"
    and drop: "\<And>b c. (b, c) \<in> set cs \<Longrightarrow> \<not> keep b c \<Longrightarrow> filter P (leaves c) = []"
  defines "ds \<equiv> map (\<lambda>(b, c). (b, f b c)) (filter (\<lambda>(b, c). keep b c) cs)"
  shows "ordered ds" "\<forall>x \<in> set ds. wf_node n (snd x) \<and> prefix (p @ [fst x]) (node_prefix (snd x))"
    "concat (map (\<lambda>(b, c). leaves c) ds) = filter P (concat (map (\<lambda>(b, c). leaves c) cs))"
    "ds = [] \<longleftrightarrow> filter P (concat (map (\<lambda>(b, c). leaves c) cs)) = []"
proof -
  show "ordered ds" using ord by (simp add: ds_def ordered_map_snd)
  show wf: "\<forall>x \<in> set ds. wf_node n (snd x) \<and> prefix (p @ [fst x]) (node_prefix (snd x))"
    using keep pre by (fastforce simp: ds_def dest: prefix_order.trans)
  show eq: "concat (map (\<lambda>(b, c). leaves c) ds) = filter P (concat (map (\<lambda>(b, c). leaves c) cs))"
    using keep drop unfolding ds_def
  proof (induction cs)
    case (Cons x cs)
    obtain b c where x: "x = (b, c)" by force
    have "concat (map (\<lambda>(b, c). leaves c) (map (\<lambda>(b, c). (b, f b c)) (filter (\<lambda>(b, c). keep b c) cs))) =
        filter P (concat (map (\<lambda>(b, c). leaves c) cs))"
      by (rule Cons.IH; rule Cons.prems) auto
    then show ?case using Cons.prems [of b c] by (cases "keep b c") (simp_all add: x)
  qed simp
  show "ds = [] \<longleftrightarrow> filter P (concat (map (\<lambda>(b, c). leaves c) cs)) = []"
  proof (cases ds)
    case (Cons x ds')
    then have "leaves (snd x) \<noteq> []" using wf leaves_nonempty by fastforce
    then show ?thesis unfolding eq [symmetric] unfolding Cons by (simp add: case_prod_unfold)
  qed (simp add: eq [symmetric])
qed

locale leaf_counter =
  fixes cnt :: "Metadata \<Rightarrow> u32"
  assumes cnt_add: "cnt (x + y) = cnt x + cnt y" and cnt_zero: "cnt 0 = 0"
begin

definition flagged :: "key \<times> 'v \<times> Metadata \<Rightarrow> bool" where
  "flagged x \<longleftrightarrow> cnt (leaf_md x) \<noteq> 0"

definition unflagged :: "key \<times> 'v \<times> Metadata \<Rightarrow> bool" where
  "unflagged x \<longleftrightarrow> cnt (leaf_md x) = 0"

lemma cnt_sum:
  "(\<And>x. x \<in> set xs \<Longrightarrow> cnt (leaf_md x) = 0 \<or> cnt (leaf_md x) = 1) \<Longrightarrow>
   cnt (sum_list (map leaf_md xs)) = of_nat (length (filter flagged xs))"
  by (induction xs) (auto simp: cnt_zero cnt_add flagged_def)

lemma cnt_zero_iff:
  assumes "meta_ok L t" and L: "\<And>v m. L v m \<Longrightarrow> cnt m = 0 \<or> cnt m = 1" and len: "length (leaves t) < 2 ^ 32"
  shows "cnt (metadata t) = 0 \<longleftrightarrow> filter flagged (leaves t) = []"
proof -
  have "cnt (metadata t) = of_nat (length (filter flagged (leaves t)))"
    unfolding metadata_leaves [OF assms(1)] by (rule cnt_sum) (use leaves_meta [OF assms(1)] L in blast)
  moreover have "length (filter flagged (leaves t)) < 2 ^ LENGTH(32)"
    using le_less_trans [OF length_filter_le len] by simp
  then have "unat (of_nat (length (filter flagged (leaves t))) :: u32) = length (filter flagged (leaves t))"
    by (rule unat_of_nat_small)
  ultimately show ?thesis by (metis length_0_conv unat_0 unat_inject)
qed

text \<open>The result of a removal below a node.\<close>

definition prune_ok :: "nat \<Rightarrow> ('v \<Rightarrow> Metadata \<Rightarrow> bool) \<Rightarrow> 'v node \<Rightarrow> 'v pruned \<Rightarrow> bool" where
  "prune_ok n L t r \<longleftrightarrow> (case r of ((erase, delta), t', out) \<Rightarrow>
     out = map drop_md (filter flagged (leaves t)) \<and>
     erase = (filter unflagged (leaves t) = []) \<and>
     metadata t + delta = sum_list (map leaf_md (filter unflagged (leaves t))) \<and>
     (\<not> erase \<longrightarrow> wf_weak n t' \<and> node_prefix t' = node_prefix t \<and>
        leaves t' = filter unflagged (leaves t) \<and> meta_ok L t'))"

lemma prune_ok_unchanged:
  assumes "wf_node n t" "meta_ok L t" "filter flagged (leaves t) = []"
  shows "prune_ok n L t ((False, 0), t, [])"
proof -
  have "filter unflagged (leaves t) = leaves t"
    using assms(3) by (auto simp: filter_empty_conv filter_id_conv flagged_def unflagged_def)
  then show ?thesis
    using assms leaves_nonempty [OF assms(1)]
    by (simp add: prune_ok_def wf_node_weak metadata_leaves)
qed

lemma prune_children:
  assumes wf: "wf_node n (Inner p cs m h)" and mok: "meta_ok L (Inner p cs m h)"
    and ok: "\<And>b c. (b, c) \<in> set cs \<Longrightarrow> prune_ok n L c (R c)"
  defines "rs \<equiv> map (\<lambda>(b, c). (b, R c)) cs"
  defines "cs' \<equiv> concat (map keep_child rs)" and "delta \<equiv> sum_list (map (\<lambda>(b, (e, d), c, out). d) rs)"
  shows "prune_ok n L (Inner p cs m h)
    ((cs' = [], delta), Inner p cs' (m + delta) h', concat (map (\<lambda>(b, r, c, out). out) rs))"
proof -
  define keep where "keep c = (\<not> fst (fst (R c)))" for c
  define f where "f c = contract (fst (snd (R c)))" for c
  have cs': "cs' = map (\<lambda>(b, c). (b, f c)) (filter (\<lambda>(b, c). keep c) cs)"
    unfolding cs'_def rs_def keep_def f_def by (rule keep_children_eq)
  have ok': "snd (snd (R c)) = map drop_md (filter flagged (leaves c))"
    "keep c = (filter unflagged (leaves c) \<noteq> [])"
    "snd (fst (R c)) = sum_list (map leaf_md (filter unflagged (leaves c))) - metadata c"
    "keep c \<Longrightarrow> wf_weak n (fst (snd (R c))) \<and> node_prefix (fst (snd (R c))) = node_prefix c \<and>
      leaves (fst (snd (R c))) = filter unflagged (leaves c) \<and> meta_ok L (fst (snd (R c)))"
    if "(b, c) \<in> set cs" for b c
    using ok [OF that] unfolding prune_ok_def case_prod_unfold keep_def by (auto simp: algebra_simps)
  have f: "wf_node n (f c) \<and> prefix (node_prefix c) (node_prefix (f c)) \<and> leaves (f c) = filter unflagged (leaves c)"
    and fm: "meta_ok L (f c)" if "(b, c) \<in> set cs" "keep c" for b c
    using ok'(4) [OF that] wf_contract(1-3) [of n "fst (snd (R c))"] wf_contract(4) [of n "fst (snd (R c))" L]
    unfolding f_def by auto
  have cs: "ordered cs" "\<And>b c. (b, c) \<in> set cs \<Longrightarrow> prefix (p @ [b]) (node_prefix c)" "length p < n" using wf by auto
  have drop: "filter unflagged (leaves c) = []" if "(b, c) \<in> set cs" "\<not> keep c" for b c
    using ok'(2) [OF that(1)] that(2) by simp
  have flt: "ordered cs'" "\<forall>x \<in> set cs'. wf_node n (snd x) \<and> prefix (p @ [fst x]) (node_prefix (snd x))"
    "concat (map (\<lambda>(b, c). leaves c) cs') = filter unflagged (concat (map (\<lambda>(b, c). leaves c) cs))"
    "cs' = [] \<longleftrightarrow> filter unflagged (concat (map (\<lambda>(b, c). leaves c) cs)) = []"
    unfolding cs' by (rule filter_children [where keep = "\<lambda>b. keep" and f = "\<lambda>b. f", OF cs(1,2) f drop]; assumption)+
  have mok': "\<forall>x \<in> set cs'. meta_ok L (snd x)" unfolding cs' using fm by auto
  have "delta = (\<Sum>(b, c) \<leftarrow> cs. sum_list (map leaf_md (filter unflagged (leaves c))) - metadata c)"
    unfolding delta_def rs_def map_map by (rule arg_cong [of _ _ sum_list]) (use ok'(3) in \<open>auto simp: case_prod_unfold\<close>)
  also have "\<dots> = (\<Sum>(b, c) \<leftarrow> cs. sum_list (map leaf_md (filter unflagged (leaves c)))) - m"
    using mok by (simp add: case_prod_unfold sum_list_subtractf)
  also have "(\<Sum>(b, c) \<leftarrow> cs. sum_list (map leaf_md (filter unflagged (leaves c)))) =
      sum_list (map leaf_md (filter unflagged (leaves (Inner p cs m h))))"
    by (simp add: filter_concat sum_list_concat case_prod_unfold comp_def)
  finally have delta: "m + delta = sum_list (map leaf_md (filter unflagged (leaves (Inner p cs m h))))" by simp
  have "map (\<lambda>(b, r, c, out). out) rs = map (\<lambda>(b, c). map drop_md (filter flagged (leaves c))) cs"
    unfolding rs_def map_map using ok'(1) by (auto simp: case_prod_unfold)
  then have out: "concat (map (\<lambda>(b, r, c, out). out) rs) = map drop_md (filter flagged (leaves (Inner p cs m h)))"
    by (simp add: filter_concat map_concat case_prod_unfold comp_def)
  have md: "m + delta = sum_list (map (\<lambda>(b, c). metadata c) cs')"
    unfolding delta unfolding leaves.simps flt(3) [symmetric] sum_list_concat map_map
    by (rule arg_cong [of _ _ sum_list]) (use mok' metadata_leaves [of L] in \<open>auto simp: case_prod_unfold\<close>)
  have "cs' \<noteq> [] \<Longrightarrow> wf_weak n (Inner p cs' (m + delta) h')" using flt(1,2) cs(3) by (simp add: wf_weak_def)
  then show ?thesis
    using out delta md mok' flt(3,4) by (simp add: prune_ok_def)
qed

lemma prune_correct:
  assumes "wf_node n t" "meta_ok L t" "length (leaves t) < 2 ^ 32"
    and L: "\<And>v m. L v m \<Longrightarrow> cnt m = 0 \<or> cnt m = 1"
  shows "\<exists>r. prune cnt msg t = Inr r \<and> prune_ok n L t r"
  using assms(1-3)
proof (induction t rule: node_induct)
  case (Leaf p v m h)
  have "cnt m = 0 \<or> cnt m = 1" using Leaf.prems(2) L by simp
  then show ?case
    using Leaf.prems by (auto simp: prune_ok_def flagged_def unflagged_def wf_weak_def)
next
  case (Inner p cs m h)
  note wf = Inner.prems(1) and mok = Inner.prems(2)
  show ?case
  proof (cases "cnt m = 0")
    case True
    then have "filter flagged (leaves (Inner p cs m h)) = []"
      using cnt_zero_iff [OF mok L Inner.prems(3)] by simp
    from prune_ok_unchanged [OF wf mok this] True show ?thesis by simp
  next
    case False
    define R where "R c = projr (prune cnt msg c)" for c :: "'a node"
    have c: "prune cnt msg c = Inr (R c) \<and> prune_ok n L c (R c)" if bc: "(b, c) \<in> set cs" for b c
    proof -
      have "length (leaves c) \<le> length (leaves (Inner p cs m h))"
        using bc by (induction cs) auto
      then show ?thesis
        using Inner.IH [OF bc] wf mok Inner.prems(3) bc by (fastforce simp: R_def)
    qed
    have "res_map (\<lambda>(b, c). res_bind (prune cnt msg c) (\<lambda>r. Inr (b, r))) cs = Inr (map (\<lambda>(b, c). (b, R c)) cs)"
      by (rule res_map_Inr) (use c in auto)
    then show ?thesis
      using False prune_children [OF wf mok, of R None] c by (simp add: Let_def)
  qed
qed

end


interpretation deleted_count: leaf_counter num_deleted_subnodes
  by unfold_locales simp_all

interpretation rollback_count: leaf_counter num_rollback_subnodes
  by unfold_locales simp_all

section \<open>Deleting one key\<close>

function (sequential) node_perform_deletion ::
  "key \<Rightarrow> 'v node \<Rightarrow> ((bool \<times> 'v option \<times> Metadata) \<times> 'v node) res" where
  "node_perform_deletion k (Leaf p v m h) =
     (if prefix_match p k < length p then Inr ((False, None, 0), Leaf p v m h)
      else Inr ((True, Some v, - m), Leaf p v m h))"
| "node_perform_deletion k (Inner p cs m h) =
     (if prefix_match p k < length p then Inr ((False, None, 0), Inner p cs m h)
      else res_bind (branch_bits k (length p)) (\<lambda>bb.
        case child_find bb cs of
          None \<Rightarrow> Inr ((False, None, 0), Inner p cs m h)
        | Some child \<Rightarrow>
            res_bind (node_perform_deletion k child) (\<lambda>((delete_child, deleted_obj, delta), child').
              let cs' = (if delete_child then child_erase bb cs else child_emplace bb (contract child') cs)
              in Inr ((False, deleted_obj, delta),
                      Inner p cs' (m + delta) (if deleted_obj = None then h else None)))))"
  by pat_completeness auto

termination
  by (relation "measure (\<lambda>(k, t). size t)") (auto simp only: node_termination)

definition deletion_ok :: "nat \<Rightarrow> key \<Rightarrow> 'v node \<Rightarrow> (bool \<times> 'v option \<times> Metadata) \<times> 'v node \<Rightarrow> bool" where
  "deletion_ok n k t r \<longleftrightarrow> (case r of ((erase, obj, delta), t') \<Rightarrow>
     obj = trie_map t k \<and> erase = (filter (\<lambda>x. fst x \<noteq> k) (leaves t) = []) \<and>
     (\<not> erase \<longrightarrow> wf_weak n t' \<and> node_prefix t' = node_prefix t \<and> leaves t' = filter (\<lambda>x. fst x \<noteq> k) (leaves t)) \<and>
     (\<forall>L. meta_ok L t \<longrightarrow> metadata t + delta = sum_list (map leaf_md (filter (\<lambda>x. fst x \<noteq> k) (leaves t))) \<and>
        (\<not> erase \<longrightarrow> meta_ok L t' \<and> metadata t' = metadata t + delta)))"

lemma no_leaf_unchanged:
  assumes wf: "wf_node n t" and k: "\<forall>x \<in> set (leaves t). fst x \<noteq> k"
  shows "deletion_ok n k t ((False, None, 0), t)"
proof -
  have "filter (\<lambda>x. fst x \<noteq> k) (leaves t) = leaves t" using k by (simp add: filter_id_conv)
  moreover have "trie_map t k = None"
    using k by (force simp: trie_map_def contents_leaves map_of_eq_None_iff)
  ultimately show ?thesis
    using wf leaves_nonempty [OF wf] by (simp add: deletion_ok_def wf_node_weak metadata_leaves)
qed

lemma child_emplace_map:
  "ordered cs \<Longrightarrow> child_find b cs \<noteq> None \<Longrightarrow>
   child_emplace b c cs = map (\<lambda>(b', c'). (b', if b' = b then c else c')) cs"
proof (induction b c cs rule: child_emplace.induct)
  case (2 b c b' c' cs)
  have "b = b' \<Longrightarrow> \<forall>x \<in> set cs. fst x \<noteq> b" using 2 by auto
  then have "b = b' \<Longrightarrow> map (\<lambda>(b', c'). (b', if b' = b then c else c')) cs = cs"
    by (intro map_idI) auto
  moreover have "b < b' \<Longrightarrow> map_of cs b = None" using 2 by (force simp: map_of_eq_None_iff)
  ultimately show ?case using 2 by (auto simp: child_find_def)
qed (simp add: child_find_def)

lemma sum_metadata_erase:
  "ordered cs \<Longrightarrow> (b, c) \<in> set cs \<Longrightarrow>
   sum_list (map (\<lambda>(b, c). metadata c) (child_erase b cs)) = sum_list (map (\<lambda>(b, c). metadata c) cs) - metadata c"
proof (induction cs)
  case (Cons x cs)
  show ?case
  proof (cases "fst x = b")
    case True
    then have "\<forall>y \<in> set cs. fst y \<noteq> b" using Cons.prems by auto
    then have "child_erase b cs = cs" by (auto simp: child_erase_def filter_id_conv)
    then show ?thesis using True Cons.prems by (auto simp: child_erase_def)
  next
    case False
    then show ?thesis using Cons by (auto simp: child_erase_def)
  qed
qed simp

lemma deletion_child:
  assumes wf: "wf_node n (Inner p cs m h)" and k: "length k = n" "prefix p k"
    and find: "child_find (k ! length p) cs = Some c" and ok: "deletion_ok n k c ((erase, obj, delta), c')"
  defines "cs' \<equiv> if erase then child_erase (k ! length p) cs else child_emplace (k ! length p) (contract c') cs"
  shows "deletion_ok n k (Inner p cs m h) ((False, obj, delta), Inner p cs' (m + delta) h')"
proof -
  define b where "b = k ! length p"
  define P where "P = (\<lambda>x :: key \<times> 'a \<times> Metadata. fst x \<noteq> k)"
  define keep where "keep b' c = (b' = b \<longrightarrow> \<not> erase)" for b' and c :: "'a node"
  define f where "f b' d = (if b' = b then contract c' else d)" for b' and d
  have ord: "ordered cs" and pre: "\<And>b c. (b, c) \<in> set cs \<Longrightarrow> prefix (p @ [b]) (node_prefix c)"
    and wfc: "\<And>b c. (b, c) \<in> set cs \<Longrightarrow> wf_node n c" and lp: "length p < n" "2 \<le> length cs" using wf by auto
  have mem: "(b, c) \<in> set cs" using find ord by (simp add: child_find_in b_def)
  have uniq: "d = c" if "(b, d) \<in> set cs" for d
    using mem that ord by (metis child_find_in option.inject)
  have cs': "cs' = map (\<lambda>(b, c). (b, f b c)) (filter (\<lambda>(b, c). keep b c) cs)"
  proof (cases erase)
    case True
    then have "map (\<lambda>(b, c). (b, f b c)) (filter (\<lambda>(b, c). keep b c) cs) = filter (\<lambda>(b, c). keep b c) cs"
      by (intro map_idI) (auto simp: f_def keep_def)
    then show ?thesis using True by (simp add: cs'_def child_erase_def keep_def b_def)
  next
    case False
    then show ?thesis using find ord by (simp add: cs'_def child_emplace_map keep_def f_def b_def)
  qed
  have other: "filter P (leaves d) = leaves d" if "(b', d) \<in> set cs" "b' \<noteq> b" for b' d
  proof -
    have pb': "prefix (p @ [b']) (fst x)" if "x \<in> set (leaves d)" for x
      using child_contents_prefix [OF wf \<open>(b', d) \<in> set cs\<close>, of "drop_md x"] that by (force simp: contents_leaves)
    have "prefix (p @ [b]) k" unfolding b_def using lp k by (intro prefix_nth) auto
    then have "x \<in> set (leaves d) \<Longrightarrow> fst x \<noteq> k" for x
      using \<open>b' \<noteq> b\<close> pb' prefix_snoc_unique [of p b' k b] by blast
    then show ?thesis by (simp add: P_def filter_id_conv)
  qed
  have c: "obj = trie_map c k" "erase = (filter P (leaves c) = [])"
    "\<not> erase \<Longrightarrow> wf_weak n c' \<and> node_prefix c' = node_prefix c \<and> leaves c' = filter P (leaves c)"
    "\<And>L. meta_ok L c \<Longrightarrow> metadata c + delta = sum_list (map leaf_md (filter P (leaves c))) \<and>
       (\<not> erase \<longrightarrow> meta_ok L c' \<and> metadata c' = metadata c + delta)"
    using ok by (simp_all add: deletion_ok_def P_def)
  have kept: "wf_node n (f b' d) \<and> prefix (node_prefix d) (node_prefix (f b' d)) \<and> leaves (f b' d) = filter P (leaves d)"
    if "(b', d) \<in> set cs" "keep b' d" for b' d
    using that c(3) uniq wfc other wf_contract(1-3) [of n c'] by (cases "b' = b") (auto simp: f_def keep_def)
  have dropped: "filter P (leaves d) = []" if "(b', d) \<in> set cs" "\<not> keep b' d" for b' d
    using that uniq c(2) by (auto simp: keep_def)
  have flt: "ordered cs'" "\<forall>x \<in> set cs'. wf_node n (snd x) \<and> prefix (p @ [fst x]) (node_prefix (snd x))"
    "concat (map (\<lambda>(b, c). leaves c) cs') = filter P (concat (map (\<lambda>(b, c). leaves c) cs))"
    "cs' = [] \<longleftrightarrow> filter P (concat (map (\<lambda>(b, c). leaves c) cs)) = []"
    unfolding cs' by (rule filter_children [OF ord pre kept dropped]; assumption)+
  have len: "cs' \<noteq> []"
    using lp(2) length_child_erase [OF ord, of b] length_child_emplace [OF ord, of b "contract c'"]
    by (auto simp: cs'_def b_def [symmetric] split: if_splits)
  have mok: "meta_ok L (Inner p cs' (m + delta) h')" if L: "meta_ok L (Inner p cs m h)" for L
  proof -
    have Lc: "meta_ok L c" using L mem by auto
    have "m + delta = sum_list (map (\<lambda>(b, c). metadata c) cs')"
    proof (cases erase)
      case True
      then have "delta = - metadata c" using c(2) c(4) [OF Lc] by (simp add: eq_neg_iff_add_eq_0 add.commute)
      then show ?thesis using True L sum_metadata_erase [OF ord mem] by (simp add: cs'_def b_def)
    next
      case False
      then have "metadata (contract c') = metadata c + delta"
        using c(3) c(4) [OF Lc] wf_contract(4) [of n c' L] by simp
      then show ?thesis
        using False L sum_metadata_emplace [OF ord, of b "contract c'"] find by (simp add: cs'_def b_def)
    qed
    moreover have "\<forall>x \<in> set cs'. meta_ok L (snd x)"
      using L c(4) [OF Lc] c(3) wf_contract(4) [of n c' L]
      by (auto simp: cs'_def set_child_emplace [OF ord] set_child_erase split: if_splits)
    ultimately show ?thesis by simp
  qed
  have "trie_map (Inner p cs m h) k = obj"
    using find k(2) by (simp add: trie_map_Inner [OF wf k(1)] c(1))
  moreover have "wf_weak n (Inner p cs' (m + delta) h')" using len flt(1,2) lp(1) by (simp add: wf_weak_def)
  moreover have "metadata (Inner p cs m h) + delta = sum_list (map leaf_md (filter P (leaves (Inner p cs m h))))"
    if "meta_ok L (Inner p cs m h)" for L
    using metadata_leaves [OF mok [OF that]] flt(3) by simp
  ultimately show ?thesis
    using flt(3,4) len mok unfolding deletion_ok_def P_def by auto
qed


lemma node_perform_deletion_correct:
  assumes "wf_node n t" "length k = n"
  shows "\<exists>r. node_perform_deletion k t = Inr r \<and> deletion_ok n k t r"
  using assms
proof (induction t rule: node_induct)
  case (Leaf p v m h)
  show ?case
  proof (cases "prefix p k")
    case True
    then have "p = k" using Leaf.prems by (auto simp: prefix_def)
    then show ?thesis using Leaf.prems
      by (simp add: prefix_match_full [THEN iffD2] deletion_ok_def trie_map_Leaf)
  next
    case False
    then have "prefix_match p k < length p" using prefix_match_le(1) [of p k] by (simp add: prefix_match_full le_neq_implies_less)
    then show ?thesis using no_leaf_unchanged [OF Leaf.prems(1), of k] False by auto
  qed
next
  case (Inner p cs m h)
  note wf = Inner.prems(1) and k = Inner.prems(2)
  have ord: "ordered cs" and lp: "length p < length k" using wf k by auto
  have absent: "deletion_ok n k (Inner p cs m h) ((False, None, 0), Inner p cs m h)"
    if "trie_map (Inner p cs m h) k = None"
  proof (rule no_leaf_unchanged [OF wf])
    show "\<forall>x \<in> set (leaves (Inner p cs m h)). fst x \<noteq> k"
      using that unfolding trie_map_def contents_leaves by (force simp: map_of_eq_None_iff)
  qed
  show ?case
  proof (cases "prefix p k")
    case False
    then have "prefix_match p k < length p" using prefix_match_le(1) [of p k] by (simp add: prefix_match_full le_neq_implies_less)
    moreover have "trie_map (Inner p cs m h) k = None" using False by (simp add: trie_map_Inner [OF wf k])
    ultimately show ?thesis using absent by simp
  next
    case True
    then have pm: "prefix_match p k = length p" by (simp add: prefix_match_full)
    have bb: "branch_bits k (length p) = Inr (k ! length p)" using lp by (simp add: branch_bits_def)
    show ?thesis
    proof (cases "child_find (k ! length p) cs")
      case None
      then have "trie_map (Inner p cs m h) k = None" by (simp add: trie_map_Inner [OF wf k])
      then show ?thesis using absent pm bb None by simp
    next
      case (Some c)
      have mem: "(k ! length p, c) \<in> set cs" using Some ord by (simp add: child_find_in)
      then obtain e obj d c' where r: "node_perform_deletion k c = Inr ((e, obj, d), c')"
        and ok: "deletion_ok n k c ((e, obj, d), c')"
        using Inner.IH [OF mem] wf k by fastforce
      show ?thesis using pm bb Some r deletion_child [OF wf k True Some ok] by (simp add: Let_def)
    qed
  qed
qed

end
