(* ===== verification/Trie_Query.thy ===== *)
theory Trie_Query
  imports Trie_Shrink
begin

text \<open>
  Reading a trie (\<^verbatim>\<open>merkle_trie.h\<close>): membership, lookup, traversal in key order, and the
  queries over all keys below a bound.
\<close>

section \<open>Lookup\<close>

function (sequential) node_contains_key :: "key \<Rightarrow> 'v node \<Rightarrow> bool res" where
  "node_contains_key k (Leaf p v m h) = Inr (\<not> prefix_match p k < length p)"
| "node_contains_key k (Inner p cs m h) =
     (if prefix_match p k < length p then Inr False
      else res_bind (branch_bits k (length p)) (\<lambda>bb.
        case child_find bb cs of None \<Rightarrow> Inr False | Some c \<Rightarrow> node_contains_key k c))"
  by pat_completeness auto

termination
  by (relation "measure (\<lambda>(k, t). size t)") (auto simp only: node_termination)

text \<open>\<open>get_value\<close> follows the branches only: it compares no prefix.\<close>

function (sequential) node_get_value :: "key \<Rightarrow> 'v node \<Rightarrow> 'v option res" where
  "node_get_value k (Leaf p v m h) = Inr (Some v)"
| "node_get_value k (Inner p cs m h) =
     res_bind (branch_bits k (length p)) (\<lambda>bb.
       case child_find bb cs of None \<Rightarrow> Inr None | Some c \<Rightarrow> node_get_value k c)"
  by pat_completeness auto

termination
  by (relation "measure (\<lambda>(k, t). size t)") (auto simp only: node_termination)

section \<open>Traversal\<close>

text \<open>\<open>get_lowest_key\<close>: the first child from branch 0.\<close>

function (sequential) node_get_lowest_key :: "'v node \<Rightarrow> key option" where
  "node_get_lowest_key (Leaf p v m h) = Some p"
| "node_get_lowest_key (Inner p [] m h) = None"
| "node_get_lowest_key (Inner p ((b, c) # cs) m h) = node_get_lowest_key c"
  by pat_completeness auto

termination
  by (relation "measure size") auto

text \<open>\<open>accumulate_values\<close> with its sanity check of the size, and \<open>accumulate_keys\<close>.\<close>

function (sequential) node_accumulate_values :: "'v node \<Rightarrow> 'v list res" where
  "node_accumulate_values (Leaf p v m h) = Inr [v]"
| "node_accumulate_values (Inner p cs m h) =
     (if sint (md_size m) < 0 \<or> sint (md_size m) > 1000000000 then Inl (Runtime_error ''invalid size!!!'')
      else res_bind (res_map (\<lambda>(b, c). node_accumulate_values c) cs) (\<lambda>vs. Inr (concat vs)))"
  by pat_completeness auto

termination
  by (relation "measure size") (auto simp only: node_termination)

fun node_accumulate_keys :: "'v node \<Rightarrow> key list" where
  "node_accumulate_keys (Leaf p v m h) = [p]"
| "node_accumulate_keys (Inner p cs m h) = concat (map (\<lambda>(b, c). node_accumulate_keys c) cs)"

text \<open>\<open>apply(func) const\<close>: the values \<open>func\<close> is called on, in order.\<close>

fun node_apply :: "'v node \<Rightarrow> 'v list" where
  "node_apply (Leaf p v m h) = [v]"
| "node_apply (Inner p cs m h) = concat (map (\<lambda>(b, c). node_apply c) cs)"

section \<open>Queries below a key\<close>

text \<open>
  The comparisons of \<open>prefix\<close> with the truncated key are on units of the same number, the rest
  of both being zero.
\<close>

function (sequential) node_apply_lt_key :: "key \<Rightarrow> 'v node \<Rightarrow> 'v list res" where
  "node_apply_lt_key k (Leaf p v m h) = Inr (if key_less p k then [v] else [])"
| "node_apply_lt_key k (Inner p cs m h) =
     (let k_truncated = take (length p) k in
      if key_less p k_truncated then Inr (concat (map (\<lambda>(b, c). node_apply c) cs))
      else if key_less k_truncated p then Inr []
      else res_bind (branch_bits k (length p)) (\<lambda>min_branch_bits.
        res_bind (res_map (\<lambda>(b, c).
            if b = min_branch_bits then node_apply_lt_key k c
            else if b < min_branch_bits then Inr (node_apply c) else Inr []) cs)
          (\<lambda>vs. Inr (concat vs))))"
  by pat_completeness auto

termination
  by (relation "measure (\<lambda>(k, t). size t)") (auto simp only: node_termination)

function (sequential) node_endow_lt_key :: "key \<Rightarrow> 'v node \<Rightarrow> i64 res" where
  "node_endow_lt_key k (Leaf p v m h) = Inr (if key_less p k then endow m else 0)"
| "node_endow_lt_key k (Inner p cs m h) =
     (let max_key_truncated = take (length p) k in
      if key_less p max_key_truncated then Inr (endow m)
      else if key_less max_key_truncated p then Inr 0
      else res_bind (branch_bits k (length p)) (\<lambda>max_branch_bits.
        res_bind (res_map (\<lambda>(b, c).
            if b = max_branch_bits then node_endow_lt_key k c
            else if b < max_branch_bits then Inr (endow (metadata c)) else Inr 0) cs)
          (\<lambda>es. Inr (sum_list es))))"
  by pat_completeness auto

termination
  by (relation "measure (\<lambda>(k, t). size t)") (auto simp only: node_termination)

section \<open>Correctness of lookup and traversal\<close>

lemma match_lt_iff: "prefix_match p k < length p \<longleftrightarrow> \<not> prefix p k"
  using prefix_match_le(1) [of p k] by (auto simp: prefix_match_full [symmetric])

lemma node_contains_key_correct:
  "wf_node n t \<Longrightarrow> length k = n \<Longrightarrow> node_contains_key k t = Inr (trie_map t k \<noteq> None)"
proof (induction t rule: node_induct)
  case (Leaf p v m h)
  then show ?case by (auto simp: match_lt_iff trie_map_Leaf prefix_def)
next
  case (Inner p cs m h)
  note wf = Inner.prems(1) and k = Inner.prems(2)
  show ?case
  proof (cases "child_find (k ! length p) cs")
    case (Some c)
    then have "(k ! length p, c) \<in> set cs" using wf by (simp add: child_find_in)
    with Some Inner show ?thesis
      by (auto simp: match_lt_iff trie_map_Inner [OF wf k] branch_bits_def)
  qed (use wf k in \<open>auto simp: match_lt_iff trie_map_Inner [OF wf k] branch_bits_def\<close>)
qed

lemma node_get_value_present:
  "wf_node n t \<Longrightarrow> length k = n \<Longrightarrow> trie_map t k = Some v \<Longrightarrow> node_get_value k t = Inr (Some v)"
proof (induction t rule: node_induct)
  case (Leaf p v' m h)
  then show ?case by (auto simp: trie_map_Leaf split: if_splits)
next
  case (Inner p cs m h)
  note wf = Inner.prems(1) and k = Inner.prems(2)
  obtain c where c: "child_find (k ! length p) cs = Some c" "trie_map c k = Some v"
    using Inner.prems(3) by (auto simp: trie_map_Inner [OF wf k] split: if_splits option.splits)
  then have mem: "(k ! length p, c) \<in> set cs" using wf by (simp add: child_find_in)
  then have "wf_node n c" using wf by auto
  with Inner.IH [OF mem] c k wf show ?case by (auto simp: branch_bits_def)
qed

lemma node_get_lowest_key_correct:
  "wf_node n t \<Longrightarrow> node_get_lowest_key t = Some (fst (hd (contents t)))"
proof (induction t rule: node_induct)
  case (Inner p cs m h)
  then obtain b c cs' where cs: "cs = (b, c) # cs'" by (cases cs) auto
  then have c: "wf_node n c" using Inner.prems by auto
  then show ?case using Inner.IH [of b c] wf_node_contents_nonempty [OF c] by (simp add: cs)
qed simp

lemma node_accumulate_keys_correct: "node_accumulate_keys t = map fst (contents t)"
proof (induction t rule: node_induct)
  case (Inner p cs m h)
  then have "map (\<lambda>(b, c). node_accumulate_keys c) cs = map (map fst) (map (\<lambda>(b, c). contents c) cs)" by auto
  then show ?case by (simp only: node_accumulate_keys.simps contents.simps map_concat)
qed simp

lemma node_apply_correct: "node_apply t = map snd (contents t)"
proof (induction t rule: node_induct)
  case (Inner p cs m h)
  then have "map (\<lambda>(b, c). node_apply c) cs = map (map snd) (map (\<lambda>(b, c). contents c) cs)" by auto
  then show ?case by (simp only: node_apply.simps contents.simps map_concat)
qed simp

text \<open>Leaves with the size metadata \<open>1\<close>; the size of a node is then its number of leaves.\<close>

abbreviation unit_size :: "'v \<Rightarrow> Metadata \<Rightarrow> bool" where
  "unit_size v m \<equiv> md_size m = 1"

lemma md_size_sum: "(\<And>x. x \<in> set xs \<Longrightarrow> md_size (leaf_md x) = 1) \<Longrightarrow>
  md_size (sum_list (map leaf_md xs)) = of_nat (length xs)"
  by (induction xs) auto

lemma md_size_leaves: "meta_ok unit_size t \<Longrightarrow> md_size (metadata t) = of_nat (length (leaves t))"
  unfolding metadata_leaves by (rule md_size_sum) (auto dest: leaves_meta)

lemma node_accumulate_values_correct:
  "meta_ok unit_size t \<Longrightarrow> length (leaves t) \<le> 1000000000 \<Longrightarrow> node_accumulate_values t = Inr (map snd (contents t))"
proof (induction t rule: node_induct)
  case (Inner p cs m h)
  have "md_size m = of_nat (length (leaves (Inner p cs m h)))"
    using md_size_leaves [OF Inner.prems(1)] by simp
  moreover have "sint (of_nat n :: i64) = int n" if "n \<le> 1000000000" for n
    using that by (simp add: signed_of_nat signed_take_bit_int_eq_self)
  ultimately have m: "0 \<le> sint (md_size m)" "sint (md_size m) \<le> 1000000000"
    using Inner.prems(2) by (simp_all del: leaves.simps)
  have "node_accumulate_values c = Inr (map snd (contents c))" if bc: "(b, c) \<in> set cs" for b c
  proof -
    have "length (leaves c) \<le> length (leaves (Inner p cs m h))" using bc by (induction cs) auto
    then show ?thesis using Inner bc by force
  qed
  then have "res_map (\<lambda>(b, c). node_accumulate_values c) cs = Inr (map (map snd) (map (\<lambda>(b, c). contents c) cs))"
    unfolding map_map by (intro res_map_Inr) auto
  then show ?case using m by (simp add: map_concat)
qed simp

section \<open>Correctness of the queries below a key\<close>

definition lt_leaves :: "key \<Rightarrow> 'v node \<Rightarrow> (key \<times> 'v \<times> Metadata) list" where
  "lt_leaves k t = filter (\<lambda>x. key_less (fst x) k) (leaves t)"

lemma key_less_take: "key_less p (take (length p) k) \<Longrightarrow> prefix p x \<Longrightarrow> key_less x k"
proof (induction p arbitrary: k x)
  case (Cons a p)
  then show ?case by (cases k; cases x) auto
qed simp

lemma key_less_take': "key_less (take (length p) k) p \<Longrightarrow> prefix p x \<Longrightarrow> key_less k x"
proof (induction p arbitrary: k x)
  case (Cons a p)
  then show ?case by (cases k; cases x) auto
qed simp

lemma key_less_asym: "key_less a b \<Longrightarrow> \<not> key_less b a"
  using key_less_trans key_less_irrefl by blast

lemma lt_leaves_all:
  "wf_node n t \<Longrightarrow> key_less (node_prefix t) (take (length (node_prefix t)) k) \<Longrightarrow> lt_leaves k t = leaves t"
  unfolding lt_leaves_def using leaves_prefix [of n t] key_less_take [of "node_prefix t" k] by (auto simp: filter_id_conv)

lemma lt_leaves_none:
  "wf_node n t \<Longrightarrow> key_less (take (length (node_prefix t)) k) (node_prefix t) \<Longrightarrow> lt_leaves k t = []"
  unfolding lt_leaves_def using leaves_prefix [of n t] key_less_take' [of "node_prefix t" k] key_less_asym
  by (fastforce simp: filter_empty_conv)

text \<open>On the path of the key, the children split into those below, at and above its branch.\<close>

lemma lt_leaves_child:
  assumes wf: "wf_node n (Inner p cs m h)" and k: "length k = n" and pk: "prefix p k" and bc: "(b, c) \<in> set cs"
  shows "lt_leaves k c = (if b = k ! length p then lt_leaves k c else if b < k ! length p then leaves c else [])"
proof -
  let ?b = "k ! length p"
  have pb: "prefix (p @ [?b]) k" using wf k by (intro prefix_nth [OF pk]) simp
  have pre: "prefix (p @ [b]) (fst x)" if "x \<in> set (leaves c)" for x
    using child_contents_prefix [OF wf bc, of "drop_md x"] that by (force simp: contents_leaves)
  show ?thesis
  proof (cases b ?b rule: linorder_cases)
    case less
    then have "\<forall>x \<in> set (leaves c). key_less (fst x) k" using pre pb key_less_branch by blast
    then show ?thesis using less by (auto simp: lt_leaves_def filter_id_conv)
  next
    case greater
    then have "\<forall>x \<in> set (leaves c). key_less k (fst x)" using pre pb key_less_branch by blast
    then show ?thesis using greater key_less_asym by (auto simp: lt_leaves_def filter_empty_conv)
  qed simp
qed

lemma lt_leaves_path:
  assumes wf: "wf_node n (Inner p cs m h)" and k: "length k = n"
    and no: "\<not> key_less p (take (length p) k)" "\<not> key_less (take (length p) k) p"
  shows "prefix p k" "lt_leaves k (Inner p cs m h) =
    concat (map (\<lambda>(b, c). if b = k ! length p then lt_leaves k c else if b < k ! length p then leaves c else []) cs)"
proof -
  have len: "length (take (length p) k) = length p" using wf k by simp
  then have "take (length p) k = p" using no key_less_linear [of p "take (length p) k"] by auto
  then show pk: "prefix p k" by (metis take_is_prefix)
  have "map (\<lambda>(b, c). lt_leaves k c) cs =
      map (\<lambda>(b, c). if b = k ! length p then lt_leaves k c else if b < k ! length p then leaves c else []) cs"
    using lt_leaves_child [OF wf k pk] by auto
  moreover have "lt_leaves k (Inner p cs m h) = concat (map (\<lambda>(b, c). lt_leaves k c) cs)"
    by (simp add: lt_leaves_def filter_concat case_prod_unfold comp_def)
  ultimately show "lt_leaves k (Inner p cs m h) =
    concat (map (\<lambda>(b, c). if b = k ! length p then lt_leaves k c else if b < k ! length p then leaves c else []) cs)"
    by (simp only:)
qed

lemma node_apply_lt_key_correct:
  "wf_node n t \<Longrightarrow> length k = n \<Longrightarrow> node_apply_lt_key k t = Inr (map (\<lambda>x. fst (snd x)) (lt_leaves k t))"
proof (induction t rule: node_induct)
  case (Leaf p v m h)
  then show ?case by (simp add: lt_leaves_def)
next
  case (Inner p cs m h)
  note wf = Inner.prems(1) and k = Inner.prems(2)
  have app: "node_apply t = map (\<lambda>x. fst (snd x)) (leaves t)" for t :: "'a node"
    by (simp add: node_apply_correct contents_leaves)
  have all: "concat (map (\<lambda>(b, c). node_apply c) cs) = map (\<lambda>x. fst (snd x)) (leaves (Inner p cs m h))"
    using app [of "Inner p cs m h"] by simp
  consider "key_less p (take (length p) k)" | "key_less (take (length p) k) p" "\<not> key_less p (take (length p) k)"
    | "\<not> key_less p (take (length p) k)" "\<not> key_less (take (length p) k) p" by blast
  then show ?case
  proof cases
    case 1
    then show ?thesis using lt_leaves_all [OF wf, of k] all by (simp add: Let_def)
  next
    case 2
    then show ?thesis using lt_leaves_none [OF wf, of k] by (simp add: Let_def)
  next
    case 3
    have bb: "branch_bits k (length p) = Inr (k ! length p)" using wf k by (simp add: branch_bits_def)
    let ?f = "\<lambda>(b, c). if b = k ! length p then lt_leaves k c else if b < k ! length p then leaves c else []"
    have "res_map (\<lambda>(b, c). if b = k ! length p then node_apply_lt_key k c
            else if b < k ! length p then Inr (node_apply c) else Inr []) cs =
        Inr (map (\<lambda>x. map (\<lambda>x. fst (snd x)) (?f x)) cs)"
      by (rule res_map_Inr) (use Inner wf in \<open>auto simp: app\<close>)
    then show ?thesis using 3 bb lt_leaves_path(2) [OF wf k 3] by (simp add: Let_def map_concat comp_def)
  qed
qed

lemma endow_sum: "endow (sum_list ms) = sum_list (map endow ms)"
  by (induction ms) simp_all

lemma node_endow_lt_key_correct:
  "wf_node n t \<Longrightarrow> meta_ok L t \<Longrightarrow> length k = n \<Longrightarrow>
   node_endow_lt_key k t = Inr (\<Sum>x \<leftarrow> lt_leaves k t. endow (leaf_md x))"
proof (induction t rule: node_induct)
  case (Leaf p v m h)
  then show ?case by (simp add: lt_leaves_def)
next
  case (Inner p cs m h)
  note wf = Inner.prems(1) and mok = Inner.prems(2) and k = Inner.prems(3)
  have md: "endow (metadata t) = (\<Sum>x \<leftarrow> leaves t. endow (leaf_md x))" if "meta_ok L t" for t :: "'a node"
    by (simp add: metadata_leaves [OF that] endow_sum comp_def)
  consider "key_less p (take (length p) k)" | "key_less (take (length p) k) p" "\<not> key_less p (take (length p) k)"
    | "\<not> key_less p (take (length p) k)" "\<not> key_less (take (length p) k) p" by blast
  then show ?case
  proof cases
    case 1
    then show ?thesis using lt_leaves_all [OF wf, of k] md [OF mok] by (simp add: Let_def)
  next
    case 2
    then show ?thesis using lt_leaves_none [OF wf, of k] by (simp add: Let_def)
  next
    case 3
    have bb: "branch_bits k (length p) = Inr (k ! length p)" using wf k by (simp add: branch_bits_def)
    let ?f = "\<lambda>(b, c). if b = k ! length p then lt_leaves k c else if b < k ! length p then leaves c else []"
    have c: "node_endow_lt_key k c = Inr (\<Sum>x \<leftarrow> lt_leaves k c. endow (leaf_md x)) \<and>
        endow (metadata c) = (\<Sum>x \<leftarrow> leaves c. endow (leaf_md x))" if "(b, c) \<in> set cs" for b c
      using Inner.IH [OF that] md [of c] wf mok k that by fastforce
    have "res_map (\<lambda>(b, c). if b = k ! length p then node_endow_lt_key k c
            else if b < k ! length p then Inr (endow (metadata c)) else Inr 0) cs =
        Inr (map (\<lambda>x. \<Sum>x \<leftarrow> ?f x. endow (leaf_md x)) cs)"
      by (rule res_map_Inr) (use c in \<open>auto split: if_splits\<close>)
    then show ?thesis using 3 bb lt_leaves_path(2) [OF wf k 3] by (simp add: Let_def sum_list_concat comp_def)
  qed
qed

end
