(* ===== verification/Trie_Mark.thy ===== *)
theory Trie_Mark
  imports Trie_Query
begin

text \<open>
  The deletion marks and rollback flags of a trie (\<^verbatim>\<open>merkle_trie.h\<close>): marking and
  unmarking one key, marking a subtree or all keys below a bound, and clearing the marks.  Marks are
  metadata of leaves; none of these operations changes the shape or the values.
\<close>

section \<open>The operations\<close>

definition deleted_metadata :: "u32 \<Rightarrow> Metadata" where
  "deleted_metadata n = set_deleted n 0"

function (sequential) node_mark_for_deletion :: "key \<Rightarrow> 'v node \<Rightarrow> ((Metadata \<times> 'v option) \<times> 'v node) res" where
  "node_mark_for_deletion k (Leaf p v m h) =
     (if prefix_match p k < length p then Inr ((0, None), Leaf p v m h)
      else let (m', swapped) = compare_exchange_deleted m 0 1
           in if \<not> swapped then Inr ((deleted_metadata 0, None), Leaf p v m' h)
              else Inr ((deleted_metadata 1, Some v), Leaf p v m' None))"
| "node_mark_for_deletion k (Inner p cs m h) =
     (if prefix_match p k < length p then Inr ((0, None), Inner p cs m h)
      else res_bind (branch_bits k (length p)) (\<lambda>bb.
        case child_find bb cs of
          None \<Rightarrow> Inr ((0, None), Inner p cs m h)
        | Some c \<Rightarrow> res_bind (node_mark_for_deletion k c) (\<lambda>((delta, obj), c').
            Inr ((delta, obj), Inner p (child_emplace bb c' cs) (m + delta) None))))"
  by pat_completeness auto

termination
  by (relation "measure (\<lambda>(k, t). size t)") (auto simp only: node_termination)

function (sequential) node_unmark_for_deletion :: "key \<Rightarrow> 'v node \<Rightarrow> ((Metadata \<times> 'v option) \<times> 'v node) res" where
  "node_unmark_for_deletion k (Leaf p v m h) =
     (if prefix_match p k < length p then Inr ((0, None), Leaf p v m h)
      else let (m', swapped) = compare_exchange_deleted m 1 0
           in if \<not> swapped then Inr ((deleted_metadata 0, None), Leaf p v m' h)
              else Inr ((deleted_metadata (- 1), Some v), Leaf p v m' None))"
| "node_unmark_for_deletion k (Inner p cs m h) =
     (if prefix_match p k < length p then Inr ((0, None), Inner p cs m h)
      else res_bind (branch_bits k (length p)) (\<lambda>bb.
        case child_find bb cs of
          None \<Rightarrow> Inr ((0, None), Inner p cs m h)
        | Some c \<Rightarrow> res_bind (node_unmark_for_deletion k c) (\<lambda>((delta, obj), c').
            Inr ((delta, obj),
                 Inner p (child_emplace bb c' cs) (m + delta) (if obj = None then h else None)))))"
  by pat_completeness auto

termination
  by (relation "measure (\<lambda>(k, t). size t)") (auto simp only: node_termination)

text \<open>\<open>mark_subtree_for_deletion\<close>; it throws on no input of the model's type.\<close>

fun node_mark_subtree :: "'v node \<Rightarrow> Metadata \<times> 'v node" where
  "node_mark_subtree (Leaf p v m h) =
     (let (m', swapped) = compare_exchange_deleted m 0 1
      in (deleted_metadata (if swapped then 1 else 0), Leaf p v m' (if swapped then None else h)))"
| "node_mark_subtree (Inner p cs m h) =
     (let rs = map (\<lambda>(b, c). (b, node_mark_subtree c)) cs;
          delta = sum_list (map (\<lambda>(b, d, c). d) rs)
      in (delta, Inner p (map (\<lambda>(b, d, c). (b, c)) rs) (m + delta)
                   (if num_deleted_subnodes delta \<noteq> 0 then None else h)))"

text \<open>
  \<open>mark_subtree_lt_key_for_deletion\<close>, with \<open>use_locks\<close> for the template parameter: with locks the
  branch for a prefix below the bound repeats the loop of \<open>mark_subtree_for_deletion\<close> without
  invalidating this node's hash.
\<close>

function (sequential) node_mark_subtree_lt :: "bool \<Rightarrow> key \<Rightarrow> 'v node \<Rightarrow> (Metadata \<times> 'v node) res" where
  "node_mark_subtree_lt use_locks k (Leaf p v m h) =
     (if key_less p k then Inr (node_mark_subtree (Leaf p v m h)) else Inr (0, Leaf p v m h))"
| "node_mark_subtree_lt use_locks k (Inner p cs m h) =
     (let max_key_truncated = take (length p) k in
      if key_less p max_key_truncated then
        (if use_locks
         then let rs = map (\<lambda>(b, c). (b, node_mark_subtree c)) cs;
                  delta = sum_list (map (\<lambda>(b, d, c). d) rs)
              in Inr (delta, Inner p (map (\<lambda>(b, d, c). (b, c)) rs) (m + delta) h)
         else Inr (node_mark_subtree (Inner p cs m h)))
      else if key_less max_key_truncated p then Inr (0, Inner p cs m h)
      else res_bind (branch_bits k (length p)) (\<lambda>max_branch_bits.
        res_bind (res_map (\<lambda>(b, c).
            if b = max_branch_bits then res_bind (node_mark_subtree_lt use_locks k c) (\<lambda>r. Inr (b, r))
            else if b < max_branch_bits then Inr (b, node_mark_subtree c) else Inr (b, 0, c)) cs)
          (\<lambda>rs. let delta = sum_list (map (\<lambda>(b, d, c). d) rs)
                in Inr (delta, Inner p (map (\<lambda>(b, d, c). (b, c)) rs) (m + delta)
                          (if num_deleted_subnodes delta \<noteq> 0 then None else h)))))"
  by pat_completeness auto

termination
  by (relation "measure (\<lambda>(l, k, t). size t)") (auto simp only: node_termination)

text \<open>
  \<open>clear_marked_deletions\<close> and \<open>clear_rollback\<close> are the same traversal for two counters: \<open>cnt\<close> reads
  the counter, \<open>clr\<close> sets it to zero.  Neither touches a hash.
\<close>

fun clear_flags :: "(Metadata \<Rightarrow> u32) \<Rightarrow> (Metadata \<Rightarrow> Metadata) \<Rightarrow> 'v node \<Rightarrow> 'v node" where
  "clear_flags cnt clr (Leaf p v m h) = (if cnt m = 0 then Leaf p v m h else Leaf p v (clr m) h)"
| "clear_flags cnt clr (Inner p cs m h) =
     (if cnt m = 0 then Inner p cs m h
      else Inner p (map (\<lambda>(b, c). (b, clear_flags cnt clr c)) cs) (clr m) h)"

definition node_clear_marked_deletions :: "'v node \<Rightarrow> 'v node" where
  "node_clear_marked_deletions = clear_flags num_deleted_subnodes (set_deleted 0)"

definition node_clear_rollback :: "'v node \<Rightarrow> 'v node" where
  "node_clear_rollback = clear_flags num_rollback_subnodes (set_rollback 0)"

section \<open>Changing the metadata of leaves\<close>

text \<open>Every inner node holds the sum of its children.\<close>

abbreviation sums_ok :: "'v node \<Rightarrow> bool" where
  "sums_ok \<equiv> meta_ok (\<lambda>v m. True)"

lemma meta_ok_iff: "meta_ok L t \<longleftrightarrow> sums_ok t \<and> (\<forall>x \<in> set (leaves t). L (fst (snd x)) (leaf_md x))"
proof (induction t rule: node_induct)
  case (Inner p cs m h)
  then have "(\<forall>x \<in> set cs. meta_ok L (snd x)) \<longleftrightarrow>
      (\<forall>x \<in> set cs. sums_ok (snd x) \<and> (\<forall>y \<in> set (leaves (snd x)). L (fst (snd y)) (leaf_md y)))"
    by (intro ball_cong refl) (metis prod.collapse)
  then show ?case by (auto simp: case_prod_unfold)
qed simp

text \<open>The leaf metadata changed by \<open>g\<close>, with \<open>delta\<close> the change of the sum.\<close>

definition relabelled :: "(key \<Rightarrow> Metadata \<Rightarrow> Metadata) \<Rightarrow> 'v node \<Rightarrow> Metadata \<Rightarrow> 'v node \<Rightarrow> bool" where
  "relabelled g t delta t' \<longleftrightarrow>
     skeleton t' = skeleton t \<and> leaves t' = map (\<lambda>(k, v, m). (k, v, g k m)) (leaves t) \<and>
     metadata t' = metadata t + delta \<and>
     (sums_ok t \<longrightarrow> sums_ok t')"

lemma skeleton_wf:
  "skeleton t = skeleton u \<Longrightarrow> wf_node n t = wf_node n u \<and> node_prefix t = node_prefix u \<and> contents t = contents u"
proof (induction t arbitrary: u rule: node_induct)
  case (Leaf p v m h)
  then show ?case by (cases u) auto
next
  case (Inner p cs m h)
  then obtain ds m' h' where u: "u = Inner p ds m' h'" by (cases u) auto
  have eq: "map (\<lambda>(b, c). (b, skeleton c)) cs = map (\<lambda>(b, c). (b, skeleton c)) ds" using Inner.prems u by simp
  have len: "length cs = length ds" using eq by (rule map_eq_imp_length_eq)
  have nth: "fst (cs ! i) = fst (ds ! i) \<and> wf_node n (snd (cs ! i)) = wf_node n (snd (ds ! i)) \<and>
      node_prefix (snd (cs ! i)) = node_prefix (snd (ds ! i)) \<and> contents (snd (cs ! i)) = contents (snd (ds ! i))"
    if i: "i < length cs" for i
  proof -
    have "map (\<lambda>(b, c). (b, skeleton c)) cs ! i = map (\<lambda>(b, c). (b, skeleton c)) ds ! i" by (simp only: eq)
    then have "fst (cs ! i) = fst (ds ! i)" "skeleton (snd (cs ! i)) = skeleton (snd (ds ! i))"
      using i len by (simp_all add: case_prod_unfold)
    moreover have "(fst (cs ! i), snd (cs ! i)) \<in> set cs" using i by simp
    ultimately show ?thesis using Inner.IH by blast
  qed
  have "map fst cs = map fst ds" "map (\<lambda>x. contents (snd x)) cs = map (\<lambda>x. contents (snd x)) ds"
    by (rule nth_equalityI; simp add: len nth)+
  then show ?case
    using len nth unfolding u by (auto simp: ordered_def case_prod_unfold all_set_conv_all_nth)
qed

lemma relabelled_wf: "relabelled g t d t' \<Longrightarrow> wf_node n t' = wf_node n t"
  using skeleton_wf unfolding relabelled_def by blast

lemma relabelled_id:
  assumes "\<And>x. x \<in> set (leaves t) \<Longrightarrow> g (fst x) (leaf_md x) = leaf_md x"
  shows "relabelled g t 0 t"
proof -
  have "map (\<lambda>(k, v, m). (k, v, g k m)) (leaves t) = leaves t"
    using assms by (intro map_idI) auto
  then show ?thesis by (simp add: relabelled_def)
qed

lemma relabelled_cong:
  assumes "relabelled g t d t'" "\<And>x. x \<in> set (leaves t) \<Longrightarrow> g (fst x) (leaf_md x) = g' (fst x) (leaf_md x)"
  shows "relabelled g' t d t'"
proof -
  have "map (\<lambda>(k, v, m). (k, v, g k m)) (leaves t) = map (\<lambda>(k, v, m). (k, v, g' k m)) (leaves t)"
    using assms(2) by auto
  then show ?thesis using assms(1) by (simp add: relabelled_def)
qed

lemma relabelled_children:
  assumes "\<And>b c. (b, c) \<in> set cs \<Longrightarrow> relabelled g c (D b c) (f b c)"
  shows "relabelled g (Inner p cs m h) (\<Sum>(b, c) \<leftarrow> cs. D b c)
    (Inner p (map (\<lambda>(b, c). (b, f b c)) cs) (m + (\<Sum>(b, c) \<leftarrow> cs. D b c)) h')"
proof -
  have "map ((\<lambda>(b, c). (b, skeleton c)) \<circ> (\<lambda>(b, c). (b, f b c))) cs = map (\<lambda>(b, c). (b, skeleton c)) cs"
    using assms by (auto simp: relabelled_def)
  moreover have "concat (map ((\<lambda>(b, c). leaves c) \<circ> (\<lambda>(b, c). (b, f b c))) cs) =
      map (\<lambda>(k, v, m). (k, v, g k m)) (concat (map (\<lambda>(b, c). leaves c) cs))"
    unfolding map_concat map_map by (rule arg_cong [of _ _ concat]) (use assms in \<open>auto simp: relabelled_def\<close>)
  moreover have "(\<Sum>(b, c) \<leftarrow> cs. metadata c) + (\<Sum>(b, c) \<leftarrow> cs. D b c) = (\<Sum>x \<leftarrow> cs. metadata (f (fst x) (snd x)))"
    using assms
  proof (induction cs)
    case (Cons x cs)
    then have "metadata (f (fst x) (snd x)) = metadata (snd x) + D (fst x) (snd x)"
      by (auto simp: relabelled_def)
    with Cons show ?case by (auto simp: algebra_simps case_prod_unfold)
  qed simp
  moreover have "sums_ok (f b c)" if "(b, c) \<in> set cs" "sums_ok c" for b c
    using assms [OF that(1)] that(2) unfolding relabelled_def by blast
  ultimately show ?thesis
    by (fastforce simp: relabelled_def case_prod_unfold comp_def)
qed


section \<open>Marking\<close>

text \<open>The new metadata of a leaf when the keys satisfying \<open>P\<close> are marked, or unmarked.\<close>

definition marking :: "(key \<Rightarrow> bool) \<Rightarrow> key \<Rightarrow> Metadata \<Rightarrow> Metadata" where
  "marking P k m = (if P k \<and> num_deleted_subnodes m = 0 then set_deleted 1 m else m)"

definition unmarking :: "(key \<Rightarrow> bool) \<Rightarrow> key \<Rightarrow> Metadata \<Rightarrow> Metadata" where
  "unmarking P k m = (if P k \<and> num_deleted_subnodes m = 1 then set_deleted 0 m else m)"

lemma set_deleted_delta:
  "set_deleted n m = m + deleted_metadata (n - num_deleted_subnodes m)"
  by (rule Metadata.expand) (simp add: deleted_metadata_def)

lemma deleted_metadata_0: "deleted_metadata 0 = 0"
  by (rule Metadata.expand) (simp add: deleted_metadata_def)

lemma relabelled_Leaf:
  "g p m = m' \<Longrightarrow> m + d = m' \<Longrightarrow> relabelled g (Leaf p v m h) d (Leaf p v m' h')"
  by (auto simp: relabelled_def)

lemma leaf_in_Inner:
  assumes wf: "wf_node n (Inner p cs m h)" and k: "length k = n"
  shows "(k, x) \<in> set (leaves (Inner p cs m h)) \<longleftrightarrow>
    prefix p k \<and> (\<exists>c. child_find (k ! length p) cs = Some c \<and> (k, x) \<in> set (leaves c))"
proof -
  have ord: "ordered cs" using wf by simp
  have "prefix (p @ [b]) k" if "(b, c) \<in> set cs" "(k, x) \<in> set (leaves c)" for b c
    using child_contents_prefix [OF wf that(1), of "drop_md (k, x)"] that(2) by (force simp: contents_leaves)
  then have "prefix p k \<and> k ! length p = b" if "(b, c) \<in> set cs" "(k, x) \<in> set (leaves c)" for b c
    using that by (fastforce simp: prefix_def nth_append)
  then show ?thesis using ord by (force simp: child_find_in)
qed

text \<open>A change confined to one key reaches a node through one child.\<close>

lemma relabelled_path:
  assumes wf: "wf_node n (Inner p cs m h)" and k: "length k = n"
    and find: "child_find (k ! length p) cs = Some c" and c': "relabelled g c d c'"
    and g: "\<And>k' m. k' \<noteq> k \<Longrightarrow> g k' m = m" and pk: "prefix p k"
  shows "relabelled g (Inner p cs m h) d (Inner p (child_emplace (k ! length p) c' cs) (m + d) h')"
proof -
  let ?b = "k ! length p"
  define D where "D b' (x :: 'a node) = (if b' = ?b then d else 0)" for b' x
  define f where "f b' x = (if b' = ?b then c' else x)" for b' x
  have ord: "ordered cs" and lp: "length p < length k" using wf k by auto
  have pb: "prefix (p @ [?b]) k" by (rule prefix_nth [OF pk lp])
  have rel: "relabelled g x (D b' x) (f b' x)" if bc: "(b', x) \<in> set cs" for b' x
  proof (cases "b' = ?b")
    case True
    then have "x = c" using find bc ord by (metis child_find_in option.inject)
    then show ?thesis using True c' by (simp add: D_def f_def)
  next
    case False
    have "fst y \<noteq> k" if "y \<in> set (leaves x)" for y
      using child_contents_prefix [OF wf bc, of "drop_md y"] that False pb prefix_snoc_unique [of p b' k ?b]
      by (auto simp: contents_leaves)
    then show ?thesis using False g by (auto simp: D_def f_def intro: relabelled_id)
  qed
  have "(\<Sum>(b, c) \<leftarrow> cs. D b c) = d"
  proof -
    have "(?b, c) \<in> set cs" using find ord by (simp add: child_find_in)
    then have "\<And>x. (\<Sum>(b, c) \<leftarrow> cs. if b = ?b then x else (0::Metadata)) = x"
      using ordered_distinct [OF ord]
    proof (induction cs)
      case (Cons y cs)
      have "(\<Sum>(b, c) \<leftarrow> cs. if b = ?b then x else (0::Metadata)) = 0" if "?b \<notin> fst ` set cs" for x
        using that by (induction cs) auto
      with Cons show ?case by (cases y) (auto simp: image_iff)
    qed simp
    then show ?thesis by (simp add: D_def)
  qed
  moreover have "child_emplace ?b c' cs = map (\<lambda>(b, c). (b, f b c)) cs"
    using ord find by (simp add: child_emplace_map f_def)
  ultimately show ?thesis using relabelled_children [of cs g D f p m h h', OF rel] by simp
qed

lemma node_mark_for_deletion_correct:
  assumes "wf_node n t" "length k = n"
  shows "\<exists>d obj t'. node_mark_for_deletion k t = Inr ((d, obj), t') \<and>
    relabelled (marking (\<lambda>k'. k' = k)) t d t' \<and>
    (\<forall>v. obj = Some v \<longleftrightarrow> (\<exists>m. (k, v, m) \<in> set (leaves t) \<and> num_deleted_subnodes m = 0))"
  using assms
proof (induction t rule: node_induct)
  case (Leaf p v m h)
  show ?case
  proof (cases "p = k")
    case True
    have "relabelled (marking (\<lambda>k'. k' = k)) (Leaf k v m h) (deleted_metadata 1) (Leaf k v (set_deleted 1 m) None)"
      if "num_deleted_subnodes m = 0"
      by (rule relabelled_Leaf) (simp_all add: that marking_def set_deleted_delta)
    moreover have "relabelled (marking (\<lambda>k'. k' = k)) (Leaf k v m h) (deleted_metadata 0) (Leaf k v m h)"
      if "num_deleted_subnodes m \<noteq> 0"
      by (rule relabelled_Leaf) (simp_all add: that marking_def deleted_metadata_0)
    ultimately show ?thesis using True
      by (auto simp: prefix_match_full [THEN iffD2] compare_exchange_deleted_def)
  next
    case False
    then have "\<not> prefix p k" using Leaf.prems by (auto simp: prefix_def)
    then show ?thesis using False by (auto simp: match_lt_iff marking_def intro: relabelled_id)
  qed
next
  case (Inner p cs m h)
  note wf = Inner.prems(1) and k = Inner.prems(2)
  have ord: "ordered cs" and bb: "prefix p k \<Longrightarrow> branch_bits k (length p) = Inr (k ! length p)"
    using wf k by (auto simp: branch_bits_def)
  have id: "relabelled (marking (\<lambda>k'. k' = k)) (Inner p cs m h) 0 (Inner p cs m h)"
    if "\<And>x. (k, x) \<notin> set (leaves (Inner p cs m h))"
  proof (rule relabelled_id)
    fix x assume "x \<in> set (leaves (Inner p cs m h))"
    then have "fst x \<noteq> k" using that [of "snd x"] by (metis prod.collapse)
    then show "marking (\<lambda>k'. k' = k) (fst x) (leaf_md x) = leaf_md x" by (simp add: marking_def)
  qed
  show ?case
  proof (cases "prefix p k \<and> child_find (k ! length p) cs \<noteq> None")
    case True
    then obtain c where c: "prefix p k" "child_find (k ! length p) cs = Some c" by auto
    then have mem: "(k ! length p, c) \<in> set cs" using ord by (simp add: child_find_in)
    then obtain d obj c' where r: "node_mark_for_deletion k c = Inr ((d, obj), c')"
      "relabelled (marking (\<lambda>k'. k' = k)) c d c'"
      "\<forall>v. obj = Some v \<longleftrightarrow> (\<exists>m. (k, v, m) \<in> set (leaves c) \<and> num_deleted_subnodes m = 0)"
      using Inner.IH [OF mem] wf k by fastforce
    have "relabelled (marking (\<lambda>k'. k' = k)) (Inner p cs m h) d (Inner p (child_emplace (k ! length p) c' cs) (m + d) None)"
      by (rule relabelled_path [OF wf k c(2) r(2) _ c(1)]) (simp add: marking_def)
    then show ?thesis
      using c r(1,3) bb by (auto simp: match_lt_iff leaf_in_Inner [OF wf k] simp del: leaves.simps)
  next
    case False
    then have no: "(k, x) \<notin> set (leaves (Inner p cs m h))" for x by (auto simp: leaf_in_Inner [OF wf k] simp del: leaves.simps)
    show ?thesis using False id [OF no] no bb
      by (cases "prefix p k") (auto simp: match_lt_iff simp del: leaves.simps)
  qed
qed

lemma node_unmark_for_deletion_correct:
  assumes "wf_node n t" "length k = n"
  shows "\<exists>d obj t'. node_unmark_for_deletion k t = Inr ((d, obj), t') \<and>
    relabelled (unmarking (\<lambda>k'. k' = k)) t d t' \<and>
    (\<forall>v. obj = Some v \<longleftrightarrow> (\<exists>m. (k, v, m) \<in> set (leaves t) \<and> num_deleted_subnodes m = 1))"
  using assms
proof (induction t rule: node_induct)
  case (Leaf p v m h)
  show ?case
  proof (cases "p = k")
    case True
    have "relabelled (unmarking (\<lambda>k'. k' = k)) (Leaf k v m h) (deleted_metadata (- 1)) (Leaf k v (set_deleted 0 m) None)"
      if "num_deleted_subnodes m = 1"
      by (rule relabelled_Leaf) (simp_all add: that unmarking_def set_deleted_delta)
    moreover have "relabelled (unmarking (\<lambda>k'. k' = k)) (Leaf k v m h) (deleted_metadata 0) (Leaf k v m h)"
      if "num_deleted_subnodes m \<noteq> 1"
      by (rule relabelled_Leaf) (simp_all add: that unmarking_def deleted_metadata_0)
    ultimately show ?thesis using True
      by (auto simp: prefix_match_full [THEN iffD2] compare_exchange_deleted_def)
  next
    case False
    then have "\<not> prefix p k" using Leaf.prems by (auto simp: prefix_def)
    then show ?thesis using False by (auto simp: match_lt_iff unmarking_def intro: relabelled_id)
  qed
next
  case (Inner p cs m h)
  note wf = Inner.prems(1) and k = Inner.prems(2)
  have ord: "ordered cs" and bb: "prefix p k \<Longrightarrow> branch_bits k (length p) = Inr (k ! length p)"
    using wf k by (auto simp: branch_bits_def)
  have id: "relabelled (unmarking (\<lambda>k'. k' = k)) (Inner p cs m h) 0 (Inner p cs m h)"
    if "\<And>x. (k, x) \<notin> set (leaves (Inner p cs m h))"
  proof (rule relabelled_id)
    fix x assume "x \<in> set (leaves (Inner p cs m h))"
    then have "fst x \<noteq> k" using that [of "snd x"] by (metis prod.collapse)
    then show "unmarking (\<lambda>k'. k' = k) (fst x) (leaf_md x) = leaf_md x" by (simp add: unmarking_def)
  qed
  show ?case
  proof (cases "prefix p k \<and> child_find (k ! length p) cs \<noteq> None")
    case True
    then obtain c where c: "prefix p k" "child_find (k ! length p) cs = Some c" by auto
    then have mem: "(k ! length p, c) \<in> set cs" using ord by (simp add: child_find_in)
    then obtain d obj c' where r: "node_unmark_for_deletion k c = Inr ((d, obj), c')"
      "relabelled (unmarking (\<lambda>k'. k' = k)) c d c'"
      "\<forall>v. obj = Some v \<longleftrightarrow> (\<exists>m. (k, v, m) \<in> set (leaves c) \<and> num_deleted_subnodes m = 1)"
      using Inner.IH [OF mem] wf k by fastforce
    have "relabelled (unmarking (\<lambda>k'. k' = k)) (Inner p cs m h) d (Inner p (child_emplace (k ! length p) c' cs) (m + d) (if obj = None then h else None))"
      by (rule relabelled_path [OF wf k c(2) r(2) _ c(1)]) (simp add: unmarking_def)
    then show ?thesis
      using c r(1,3) bb by (auto simp: match_lt_iff leaf_in_Inner [OF wf k] simp del: leaves.simps)
  next
    case False
    then have no: "(k, x) \<notin> set (leaves (Inner p cs m h))" for x by (auto simp: leaf_in_Inner [OF wf k] simp del: leaves.simps)
    show ?thesis using False id [OF no] no bb
      by (cases "prefix p k") (auto simp: match_lt_iff simp del: leaves.simps)
  qed
qed


lemma node_mark_subtree_correct:
  "relabelled (marking (\<lambda>k. True)) t (fst (node_mark_subtree t)) (snd (node_mark_subtree t))"
proof (induction t rule: node_induct)
  case (Leaf p v m h)
  show ?case
    by (cases "num_deleted_subnodes m = 0"; simp add: compare_exchange_deleted_def; rule relabelled_Leaf)
      (simp_all add: marking_def set_deleted_delta deleted_metadata_0)
next
  case (Inner p cs m h)
  show ?case
    using relabelled_children [where D = "\<lambda>b c. fst (node_mark_subtree c)" and f = "\<lambda>b c. snd (node_mark_subtree c)", OF Inner.IH]
    by (simp add: Let_def comp_def case_prod_unfold)
qed

lemma node_mark_subtree_lt_correct:
  assumes "wf_node n t" "length k = n"
  shows "\<exists>d t'. node_mark_subtree_lt use_locks k t = Inr (d, t') \<and> relabelled (marking (\<lambda>k'. key_less k' k)) t d t'"
  using assms
proof (induction t rule: node_induct)
  case (Leaf p v m h)
  show ?case
  proof (cases "key_less p k")
    case True
    then have "relabelled (marking (\<lambda>k'. key_less k' k)) (Leaf p v m h)
        (fst (node_mark_subtree (Leaf p v m h))) (snd (node_mark_subtree (Leaf p v m h)))"
      by (intro relabelled_cong [OF node_mark_subtree_correct]) (simp add: marking_def)
    then show ?thesis using True by (metis node_mark_subtree_lt.simps(1) prod.collapse)
  qed (auto simp: marking_def intro: relabelled_id)
next
  case (Inner p cs m h)
  note wf = Inner.prems(1) and k = Inner.prems(2)
  let ?g = "marking (\<lambda>k'. key_less k' k)"
  have sub: "relabelled ?g c (fst (node_mark_subtree c)) (snd (node_mark_subtree c))" if "lt_leaves k c = leaves c" for c :: "'a node"
    by (rule relabelled_cong [OF node_mark_subtree_correct])
      (use that in \<open>auto simp: lt_leaves_def filter_id_conv marking_def\<close>)
  have skip: "relabelled ?g c 0 c" if "lt_leaves k c = []" for c :: "'a node"
    by (rule relabelled_id) (use that in \<open>auto simp: lt_leaves_def filter_empty_conv marking_def\<close>)
  consider "key_less p (take (length p) k)" | "key_less (take (length p) k) p" "\<not> key_less p (take (length p) k)"
    | "\<not> key_less p (take (length p) k)" "\<not> key_less (take (length p) k) p" by blast
  then show ?case
  proof cases
    case 1
    have all: "lt_leaves k (Inner p cs m h) = leaves (Inner p cs m h)" using lt_leaves_all [OF wf, of k] 1 by simp
    then have "lt_leaves k c = leaves c" if "(b, c) \<in> set cs" for b c
      using that by (fastforce simp: lt_leaves_def filter_id_conv)
    then have "relabelled ?g (Inner p cs m h) (\<Sum>(b, c) \<leftarrow> cs. fst (node_mark_subtree c))
      (Inner p (map (\<lambda>(b, c). (b, snd (node_mark_subtree c))) cs) (m + (\<Sum>(b, c) \<leftarrow> cs. fst (node_mark_subtree c))) h)"
      by (intro relabelled_children sub)
    with sub [OF all] 1 show ?thesis
      by (cases use_locks) (auto simp: Let_def comp_def case_prod_unfold)
  next
    case 2
    then show ?thesis using lt_leaves_none [OF wf, of k] skip [of "Inner p cs m h"] by (simp add: Let_def)
  next
    case 3
    have bb: "branch_bits k (length p) = Inr (k ! length p)" using wf k by (simp add: branch_bits_def)
    define R where "R b c = (if b = k ! length p then projr (node_mark_subtree_lt use_locks k c)
      else if b < k ! length p then node_mark_subtree c else (0, c))" for b and c :: "'a node"
    have part: "lt_leaves k c = (if b = k ! length p then lt_leaves k c else if b < k ! length p then leaves c else [])"
      if "(b, c) \<in> set cs" for b c by (rule lt_leaves_child [OF wf k lt_leaves_path(1) [OF wf k 3] that])
    have rel: "relabelled ?g c (fst (R b c)) (snd (R b c))" if bc: "(b, c) \<in> set cs" for b c
    proof (cases b "k ! length p" rule: linorder_cases)
      case equal
      have "wf_node n c" using wf bc by auto
      then show ?thesis using Inner.IH [OF bc _ k] equal by (auto simp: R_def)
    qed (use part [OF bc] sub skip in \<open>auto simp: R_def\<close>)
    have "res_map (\<lambda>(b, c).
            if b = k ! length p then res_bind (node_mark_subtree_lt use_locks k c) (\<lambda>r. Inr (b, r))
            else if b < k ! length p then Inr (b, node_mark_subtree c) else Inr (b, 0, c)) cs =
        Inr (map (\<lambda>(b, c). (b, R b c)) cs)"
    proof (rule res_map_Inr, safe)
      fix b c assume bc: "(b, c) \<in> set cs"
      have "b = k ! length p \<Longrightarrow> node_mark_subtree_lt use_locks k c = Inr (R b c)"
        using Inner.IH [OF bc] wf k bc by (fastforce simp: R_def)
      then show "(if b = k ! length p then res_bind (node_mark_subtree_lt use_locks k c) (\<lambda>r. Inr (b, r))
          else if b < k ! length p then Inr (b, node_mark_subtree c) else Inr (b, 0, c)) = Inr (b, R b c)"
      proof (cases "b = k ! length p")
        case True
        then show ?thesis using \<open>b = k ! length p \<Longrightarrow> _\<close> by simp
      qed (simp add: R_def)
    qed
    then show ?thesis
      using 3 bb relabelled_children [where D = "\<lambda>b c. fst (R b c)" and f = "\<lambda>b c. snd (R b c)", OF rel]
      by (simp add: Let_def comp_def case_prod_unfold)
  qed
qed


section \<open>Clearing\<close>

locale leaf_flag = leaf_counter cnt for cnt +
  fixes clr :: "Metadata \<Rightarrow> Metadata"
  assumes clr_add: "clr (x + y) = clr x + clr y" and clr_id: "cnt m = 0 \<Longrightarrow> clr m = m"
begin

lemma clr_zero: "clr 0 = 0"
  by (simp add: clr_id cnt_zero)

lemma clr_sum: "clr (\<Sum>(b, c) \<leftarrow> cs. F c) = (\<Sum>(b, c) \<leftarrow> cs. clr (F c))"
  by (induction cs) (auto simp: clr_zero clr_add)

lemma clear_flags_correct:
  assumes "meta_ok L t" "length (leaves t) < 2 ^ 32" and L: "\<And>v m. L v m \<Longrightarrow> cnt m = 0 \<or> cnt m = 1"
  shows "relabelled (\<lambda>k. clr) t (clr (metadata t) - metadata t) (clear_flags cnt clr t)"
  using assms(1,2)
proof (induction t rule: node_induct)
  case (Leaf p v m h)
  show ?case by (cases "cnt m = 0") (auto intro: relabelled_Leaf simp: clr_id)
next
  case (Inner p cs m h)
  show ?case
  proof (cases "cnt m = 0")
    case True
    then have "filter flagged (leaves (Inner p cs m h)) = []"
      using cnt_zero_iff [OF Inner.prems(1) L Inner.prems(2)] by simp
    then have "relabelled (\<lambda>k. clr) (Inner p cs m h) 0 (Inner p cs m h)"
      by (intro relabelled_id clr_id) (auto simp: filter_empty_conv flagged_def simp del: leaves.simps)
    then show ?thesis using True by (simp add: clr_id)
  next
    case False
    have "relabelled (\<lambda>k. clr) c (clr (metadata c) - metadata c) (clear_flags cnt clr c)" if bc: "(b, c) \<in> set cs" for b c
    proof -
      have "length (leaves c) \<le> length (leaves (Inner p cs m h))" using bc by (induction cs) auto
      then show ?thesis using Inner bc by force
    qed
    from relabelled_children [where D = "\<lambda>b c. clr (metadata c) - metadata c" and f = "\<lambda>b. clear_flags cnt clr", OF this]
    have "relabelled (\<lambda>k. clr) (Inner p cs m h) (\<Sum>(b, c) \<leftarrow> cs. clr (metadata c) - metadata c)
      (Inner p (map (\<lambda>(b, c). (b, clear_flags cnt clr c)) cs) (m + (\<Sum>(b, c) \<leftarrow> cs. clr (metadata c) - metadata c)) h)" .
    moreover have "(\<Sum>(b, c) \<leftarrow> cs. clr (metadata c) - metadata c) = clr m - m"
      using Inner.prems(1) clr_sum [of metadata cs] by (simp add: sum_list_subtractf case_prod_unfold)
    ultimately show ?thesis using False by simp
  qed
qed

end

interpretation deleted_flag: leaf_flag num_deleted_subnodes "set_deleted 0"
  by unfold_locales (simp_all add: Metadata.expand)

interpretation rollback_flag: leaf_flag num_rollback_subnodes "set_rollback 0"
  by unfold_locales (simp_all add: Metadata.expand)

end
