(* ===== verification/Trie_Hash.thy ===== *)
theory Trie_Hash
  imports Trie_Mark
begin

text \<open>
  Node and root hashes of the Merkle trie (\<^verbatim>\<open>merkle_trie.h\<close>, \<^verbatim>\<open>merkle_trie_utils.h\<close>),
  with the per-node cache.  SHA-256 and the serialisation of values are parameters.
\<close>

section \<open>Bytes of a node\<close>

text \<open>\<open>sha256\<close>; \<open>copy_data\<close> of a value; the value of an empty node's union.\<close>

record 'v hash_env =
  SHA256 :: "byte list \<Rightarrow> Hash"
  copy_data :: "'v \<Rightarrow> byte list"
  default_value :: 'v

text \<open>\<open>prefix.get_bytes(prefix_len)\<close>: two units per byte, the first in the high half; the rest is zero.\<close>

fun prefix_bytes :: "key \<Rightarrow> byte list" where
  "prefix_bytes [] = []"
| "prefix_bytes [a] = [push_bit 4 (ucast a)]"
| "prefix_bytes (a # b # k) = (push_bit 4 (ucast a) OR ucast b) # prefix_bytes k"

definition node_header :: "key \<Rightarrow> byte list" where
  "node_header p = append_unsigned_big_endian [] (of_nat (4 * length p) :: u16) @ prefix_bytes p"

definition compute_hash_value_node :: "'v hash_env \<Rightarrow> key \<Rightarrow> 'v \<Rightarrow> Hash" where
  "compute_hash_value_node E p v = SHA256 E (node_header p @ copy_data E v)"

text \<open>\<open>SimpleBitVector<4>\<close>: \<open>add\<close> on an empty vector, then \<open>write\<close>.\<close>

definition bv_add :: "nib \<Rightarrow> u16 \<Rightarrow> u16" where
  "bv_add b bv = bv OR push_bit (unat b) 1"

definition branch_digest :: "'v hash_env \<Rightarrow> key \<Rightarrow> (nib \<times> Hash) list \<Rightarrow> Hash" where
  "branch_digest E p hs =
     SHA256 E (append_unsigned_big_endian (node_header p) (fold bv_add (map fst hs) 0) @ concat (map snd hs))"

section \<open>Computing hashes\<close>

text \<open>A child takes part when it has leaves that are not marked; \<open>ign\<close> is \<open>METADATA_DELETABLE\<close>.\<close>

definition has_live :: "'v node \<Rightarrow> bool" where
  "has_live c \<longleftrightarrow> int (unat (num_deleted_subnodes (metadata c))) < sint (md_size (metadata c))"

definition overdeleted :: "'v node \<Rightarrow> bool" where
  "overdeleted c \<longleftrightarrow> sint (md_size (metadata c)) < int (unat (num_deleted_subnodes (metadata c)))"

definition node_hash :: "'v node \<Rightarrow> Hash" where
  "node_hash t = (case cached t of Some h \<Rightarrow> h | None \<Rightarrow> [])"

text \<open>What a branch node's hash is, from the hashes of the children that take part.\<close>

definition combine_hashes :: "'v hash_env \<Rightarrow> bool \<Rightarrow> key \<Rightarrow> (nib \<times> Hash) list \<Rightarrow> Hash" where
  "combine_hashes E ign p hs =
     (case hs of [(b, h)] \<Rightarrow> if ign then h else branch_digest E p hs | _ \<Rightarrow> branch_digest E p hs)"

function (sequential) compute_hash :: "'v hash_env \<Rightarrow> bool \<Rightarrow> 'v node \<Rightarrow> 'v node res" where
  "compute_hash E ign (Leaf p v m (Some h)) = Inr (Leaf p v m (Some h))"
| "compute_hash E ign (Inner p cs m (Some h)) = Inr (Inner p cs m (Some h))"
| "compute_hash E ign (Leaf p v m None) = Inr (Leaf p v m (Some (compute_hash_value_node E p v)))"
| "compute_hash E ign (Inner p cs m None) =
     (if cs = [] then Inr (Inner p cs m (Some (compute_hash_value_node E p (default_value E))))
      else res_bind (res_map (\<lambda>(b, c).
             if ign \<and> overdeleted c then Inl (Runtime_error ''invalid num deleted subnodes > size'')
             else if ign \<and> \<not> has_live c then Inr (b, c)
             else res_bind (compute_hash E ign c) (\<lambda>c'. Inr (b, c'))) cs) (\<lambda>cs'.
           let hs = map (\<lambda>(b, c). (b, node_hash c)) (filter (\<lambda>(b, c). ign \<longrightarrow> has_live c) cs')
           in Inr (Inner p cs' m (Some (combine_hashes E ign p hs)))))"
  by pat_completeness auto

termination
  by (relation "measure (\<lambda>(E, ign, t). size t)") (auto simp only: node_termination)

text \<open>\<open>get_root_hash\<close>: the number of keys and the hash of the root node.\<close>

definition get_root_hash :: "'v hash_env \<Rightarrow> bool \<Rightarrow> 'v node \<Rightarrow> Hash" where
  "get_root_hash E ign t =
     (let num_children = ucast (md_size (metadata t)) - (if ign then num_deleted_subnodes (metadata t) else 0) :: u32
      in SHA256 E (big_endian_bytes 4 num_children @
           (if num_children = 0 then replicate 32 0 else node_hash t)))"

section \<open>The hash as a function of the trie\<close>

text \<open>The hash a node should have, whatever its cache holds.\<close>

fun digest :: "'v hash_env \<Rightarrow> bool \<Rightarrow> 'v node \<Rightarrow> Hash" where
  "digest E ign (Leaf p v m h) = compute_hash_value_node E p v"
| "digest E ign (Inner p cs m h) =
     (if cs = [] then compute_hash_value_node E p (default_value E)
      else combine_hashes E ign p
        (map (\<lambda>(b, c). (b, digest E ign c)) (filter (\<lambda>(b, c). ign \<longrightarrow> has_live c) cs)))"

text \<open>Every valid cache entry is right.\<close>

fun cache_ok :: "'v hash_env \<Rightarrow> bool \<Rightarrow> 'v node \<Rightarrow> bool" where
  "cache_ok E ign (Leaf p v m h) \<longleftrightarrow> (h = None \<or> h = Some (digest E ign (Leaf p v m h)))"
| "cache_ok E ign (Inner p cs m h) \<longleftrightarrow>
     (h = None \<or> h = Some (digest E ign (Inner p cs m None))) \<and> (\<forall>x \<in> set cs. cache_ok E ign (snd x))"

text \<open>No subtree counts more deleted leaves than leaves.\<close>

fun counts_ok :: "'v node \<Rightarrow> bool" where
  "counts_ok (Leaf p v m h) \<longleftrightarrow> True"
| "counts_ok (Inner p cs m h) \<longleftrightarrow> (\<forall>x \<in> set cs. \<not> overdeleted (snd x) \<and> counts_ok (snd x))"

definition same_but_cache :: "'v node \<Rightarrow> 'v node \<Rightarrow> bool" where
  "same_but_cache t t' \<longleftrightarrow> skeleton t' = skeleton t \<and> metadata t' = metadata t \<and> leaves t' = leaves t \<and>
     (\<forall>L. meta_ok L t' = meta_ok L t)"

lemma digest_hash_irrelevant: "digest E ign (Inner p cs m h) = digest E ign (Inner p cs m' h')"
  by simp

lemma filter_map_children:
  assumes "\<And>b c. (b, c) \<in> set cs \<Longrightarrow> P (f c) = P c" "\<And>b c. (b, c) \<in> set cs \<Longrightarrow> P c \<Longrightarrow> G (f c) = H c"
  shows "map (\<lambda>(b, c). (b, G c)) (filter (\<lambda>(b, c). P c) (map (\<lambda>(b, c). (b, f c)) cs)) =
    map (\<lambda>(b, c). (b, H c)) (filter (\<lambda>(b, c). P c) cs)"
proof -
  have "\<forall>x \<in> set cs. P (f (snd x)) = P (snd x) \<and> (P (snd x) \<longrightarrow> G (f (snd x)) = H (snd x))" using assms by auto
  then show ?thesis by (induction cs) (auto simp: case_prod_unfold)
qed

lemma compute_hash_correct:
  assumes "cache_ok E ign t" "ign \<Longrightarrow> counts_ok t"
  shows "\<exists>t'. compute_hash E ign t = Inr t' \<and> cached t' = Some (digest E ign t) \<and> cache_ok E ign t' \<and>
    digest E ign t' = digest E ign t \<and> same_but_cache t t'"
  using assms
proof (induction t rule: node_induct)
  case (Leaf p v m h)
  then show ?case by (cases h) (auto simp: same_but_cache_def)
next
  case (Inner p cs m h)
  show ?case
  proof (cases "h = None \<and> cs \<noteq> []")
    case False
    then show ?thesis using Inner.prems(1) by (cases h) (auto simp: same_but_cache_def)
  next
    case True
    then have h: "h = None" and cs: "cs \<noteq> []" by auto
    define f where "f c = (if ign \<and> \<not> has_live c then c else projr (compute_hash E ign c))" for c
    have IH: "\<exists>t'. compute_hash E ign c = Inr t' \<and> cached t' = Some (digest E ign c) \<and> cache_ok E ign t' \<and>
        digest E ign t' = digest E ign c \<and> same_but_cache c t'" if "(b, c) \<in> set cs" for b c
      by (rule Inner.IH [OF that]) (use Inner.prems that in force)+
    have f: "cache_ok E ign (f c)" "digest E ign (f c) = digest E ign c" "same_but_cache c (f c)"
      "(ign \<longrightarrow> has_live c) \<Longrightarrow> compute_hash E ign c = Inr (f c) \<and> node_hash (f c) = digest E ign c"
      if "(b, c) \<in> set cs" for b c
      using IH [OF that] Inner.prems(1) that by (auto simp: f_def node_hash_def same_but_cache_def)
    have live: "has_live (f c) = has_live c" if "(b, c) \<in> set cs" for b c
      using f(3) [OF that] by (simp add: has_live_def same_but_cache_def)
    let ?cs = "map (\<lambda>(b, c). (b, f c)) cs"
    have "res_map (\<lambda>(b, c).
             if ign \<and> overdeleted c then Inl (Runtime_error ''invalid num deleted subnodes > size'')
             else if ign \<and> \<not> has_live c then Inr (b, c)
             else res_bind (compute_hash E ign c) (\<lambda>c'. Inr (b, c'))) cs = Inr ?cs"
    proof (rule res_map_Inr, safe)
      fix b c assume bc: "(b, c) \<in> set cs"
      have "\<not> (ign \<and> overdeleted c)" using Inner.prems(2) bc by fastforce
      then show "(if ign \<and> overdeleted c then Inl (Runtime_error ''invalid num deleted subnodes > size'')
          else if ign \<and> \<not> has_live c then Inr (b, c)
          else res_bind (compute_hash E ign c) (\<lambda>c'. Inr (b, c'))) = Inr (b, f c)"
        using f(4) [OF bc] by (cases "ign \<and> \<not> has_live c") (auto simp: f_def [of c])
    qed
    moreover have "map (\<lambda>(b, c). (b, node_hash c)) (filter (\<lambda>(b, c). ign \<longrightarrow> has_live c) ?cs) =
        map (\<lambda>(b, c). (b, digest E ign c)) (filter (\<lambda>(b, c). ign \<longrightarrow> has_live c) cs)"
      by (rule filter_map_children) (use live f(4) in auto)
    moreover have "map (\<lambda>(b, c). (b, digest E ign c)) (filter (\<lambda>(b, c). ign \<longrightarrow> has_live c) ?cs) =
        map (\<lambda>(b, c). (b, digest E ign c)) (filter (\<lambda>(b, c). ign \<longrightarrow> has_live c) cs)"
      by (rule filter_map_children) (use live f(2) in auto)
    moreover have "same_but_cache (Inner p cs m h) (Inner p ?cs m h')" for h'
    proof -
      have "map (\<lambda>(b, c). leaves c) ?cs = map (\<lambda>(b, c). leaves c) cs"
        "map (\<lambda>(b, c). (b, skeleton c)) ?cs = map (\<lambda>(b, c). (b, skeleton c)) cs"
        "map (\<lambda>(b, c). metadata c) ?cs = map (\<lambda>(b, c). metadata c) cs"
        "(\<forall>x \<in> set ?cs. meta_ok L (snd x)) = (\<forall>x \<in> set cs. meta_ok L (snd x))" for L
        using f(3) by (auto simp: same_but_cache_def)
      then show ?thesis unfolding same_but_cache_def by (simp only: leaves.simps skeleton.simps node.sel meta_ok.simps simp_thms)
    qed
    moreover have "\<forall>x \<in> set ?cs. cache_ok E ign (snd x)" using f(1) by auto
    ultimately show ?thesis using h cs by (simp add: Let_def)
  qed
qed


section \<open>Hashes and marks\<close>

abbreviation marks_ok :: "'v \<Rightarrow> Metadata \<Rightarrow> bool" where
  "marks_ok v m \<equiv> md_size m = 1 \<and> (num_deleted_subnodes m = 0 \<or> num_deleted_subnodes m = 1)"

abbreviation marked :: "key \<times> 'v \<times> Metadata \<Rightarrow> bool" where
  "marked \<equiv> deleted_count.flagged"

abbreviation unmarked :: "key \<times> 'v \<times> Metadata \<Rightarrow> bool" where
  "unmarked \<equiv> deleted_count.unflagged"

lemma meta_ok_mono: "meta_ok L t \<Longrightarrow> (\<And>v m. L v m \<Longrightarrow> L' v m) \<Longrightarrow> meta_ok L' t"
  unfolding meta_ok_iff [of L] meta_ok_iff [of L'] by blast

lemma live_counts:
  assumes mok: "meta_ok marks_ok t" and len: "length (leaves t) < 2 ^ 32"
  shows "sint (md_size (metadata t)) = int (length (leaves t))"
    "unat (num_deleted_subnodes (metadata t)) = length (filter marked (leaves t))"
proof -
  have "md_size (metadata t) = of_nat (length (leaves t))"
    by (rule md_size_leaves) (rule meta_ok_mono [OF mok], simp)
  moreover have "sint (of_nat n :: i64) = int n" if "n < 2 ^ 32" for n
    using that by (simp add: signed_of_nat signed_take_bit_int_eq_self)
  ultimately show "sint (md_size (metadata t)) = int (length (leaves t))" using len by simp
  have "num_deleted_subnodes (metadata t) = of_nat (length (filter marked (leaves t)))"
    unfolding metadata_leaves [OF mok] by (rule deleted_count.cnt_sum) (use leaves_meta [OF mok] in blast)
  then show "unat (num_deleted_subnodes (metadata t)) = length (filter marked (leaves t))"
    using le_less_trans [OF length_filter_le len] by (simp add: unat_of_nat_small)
qed

lemma unmarked_iff: "unmarked = (\<lambda>x. \<not> marked x)"
  by (simp add: fun_eq_iff deleted_count.flagged_def deleted_count.unflagged_def)

lemma has_live_iff:
  assumes "meta_ok marks_ok t" "length (leaves t) < 2 ^ 32"
  shows "has_live t \<longleftrightarrow> filter unmarked (leaves t) \<noteq> []" "\<not> overdeleted t"
proof -
  have "length (filter marked (leaves t)) + length (filter unmarked (leaves t)) = length (leaves t)"
    using sum_length_filter_compl [of marked "leaves t"] by (simp only: unmarked_iff)
  moreover have "(filter unmarked (leaves t) \<noteq> []) = (0 < length (filter unmarked (leaves t)))"
    by (rule length_greater_0_conv [symmetric])
  ultimately show "has_live t \<longleftrightarrow> filter unmarked (leaves t) \<noteq> []" "\<not> overdeleted t"
    unfolding has_live_def overdeleted_def live_counts [OF assms] by linarith+
qed

lemma child_leaves_length:
  "(b, c) \<in> set cs \<Longrightarrow> length (leaves c) \<le> length (leaves (Inner p cs m h))"
  by (induction cs) auto

lemma counts_ok_marks: "meta_ok marks_ok t \<Longrightarrow> length (leaves t) < 2 ^ 32 \<Longrightarrow> counts_ok t"
proof (induction t rule: node_induct)
  case (Inner p cs m h)
  have "\<not> overdeleted c \<and> counts_ok c" if bc: "(b, c) \<in> set cs" for b c
  proof -
    have "meta_ok marks_ok c" "length (leaves c) < 2 ^ 32"
      using Inner.prems bc child_leaves_length [OF bc, of p m h] by auto
    then show ?thesis using has_live_iff(2) Inner.IH [OF bc] by blast
  qed
  then show ?case by auto
qed simp

text \<open>Without the treatment of marks the hash depends on the shape alone.\<close>

lemma digest_skeleton: "skeleton t = skeleton u \<Longrightarrow> digest E False t = digest E False u"
proof (induction t arbitrary: u rule: node_induct)
  case (Leaf p v m h)
  then show ?case by (cases u) auto
next
  case (Inner p cs m h)
  then obtain ds m' h' where u: "u = Inner p ds m' h'" by (cases u) auto
  have eq: "map (\<lambda>(b, c). (b, skeleton c)) cs = map (\<lambda>(b, c). (b, skeleton c)) ds" using Inner.prems u by simp
  have "map (\<lambda>(b, c). (b, digest E False c)) cs = map (\<lambda>(b, c). (b, digest E False c)) ds"
  proof (rule nth_equalityI)
    show len: "length (map (\<lambda>(b, c). (b, digest E False c)) cs) = length (map (\<lambda>(b, c). (b, digest E False c)) ds)"
      using map_eq_imp_length_eq [OF eq] by simp
    fix i assume "i < length (map (\<lambda>(b, c). (b, digest E False c)) cs)"
    then have i: "i < length cs" "i < length ds" using len by simp_all
    have "map (\<lambda>(b, c). (b, skeleton c)) cs ! i = map (\<lambda>(b, c). (b, skeleton c)) ds ! i" by (simp only: eq)
    then have "fst (cs ! i) = fst (ds ! i)" "skeleton (snd (cs ! i)) = skeleton (snd (ds ! i))"
      using i by (simp_all add: case_prod_unfold)
    moreover have "(fst (cs ! i), snd (cs ! i)) \<in> set cs" using i by simp
    ultimately have "fst (cs ! i) = fst (ds ! i)" "digest E False (snd (cs ! i)) = digest E False (snd (ds ! i))"
      using Inner.IH by blast+
    then show "map (\<lambda>(b, c). (b, digest E False c)) cs ! i = map (\<lambda>(b, c). (b, digest E False c)) ds ! i"
      using i by (simp add: case_prod_unfold)
  qed
  moreover have "cs = [] \<longleftrightarrow> ds = []" using map_eq_imp_length_eq [OF eq] by auto
  ultimately show ?case by (simp add: u)
qed

text \<open>On a trie without marks both hashes agree.\<close>

lemma digest_unmarked:
  "wf_node n t \<Longrightarrow> meta_ok marks_ok t \<Longrightarrow> length (leaves t) < 2 ^ 32 \<Longrightarrow> filter marked (leaves t) = [] \<Longrightarrow>
   digest E True t = digest E False t"
proof (induction t rule: node_induct)
  case (Inner p cs m h)
  have c: "has_live c \<and> digest E True c = digest E False c" if bc: "(b, c) \<in> set cs" for b c
  proof -
    have ok: "wf_node n c" "meta_ok marks_ok c" "length (leaves c) < 2 ^ 32" "filter marked (leaves c) = []"
      using Inner.prems bc child_leaves_length [OF bc, of p m h] by (auto simp: filter_empty_conv)
    then have "filter unmarked (leaves c) = leaves c"
      by (auto simp: filter_id_conv filter_empty_conv deleted_count.flagged_def deleted_count.unflagged_def)
    then have "has_live c" using has_live_iff(1) [OF ok(2,3)] leaves_nonempty [OF ok(1)] by simp
    then show ?thesis using Inner.IH [OF bc ok] by simp
  qed
  then have "filter (\<lambda>(b, c). True \<longrightarrow> has_live c) cs = cs" by (auto simp: filter_id_conv)
  moreover have "map (\<lambda>(b, c). (b, digest E True c)) cs = map (\<lambda>(b, c). (b, digest E False c)) cs" using c by auto
  moreover have "combine_hashes E True p hs = combine_hashes E False p hs" if "2 \<le> length hs" for hs
    using that by (auto simp: combine_hashes_def split: list.split)
  ultimately show ?case using Inner.prems(1) by (simp only: digest.simps) simp
qed simp


text \<open>
  Marked leaves are ignored in the hash exactly as if they had been removed: a branch node left with
  one live child takes the hash of that child, as the removal contracts it.
\<close>

lemma digest_prune:
  assumes "wf_node n t" "meta_ok marks_ok t" "length (leaves t) < 2 ^ 32" "filter unmarked (leaves t) \<noteq> []"
    and "prune num_deleted_subnodes msg t = Inr (r, t', out)"
  shows "digest E True (contract t') = digest E True t"
  using assms
proof (induction t arbitrary: r t' out rule: node_induct)
  case (Leaf p v m h)
  then have "num_deleted_subnodes m = 0" by (simp add: deleted_count.unflagged_def split: if_splits)
  then show ?case using Leaf.prems(5) by (auto simp: contract_def get_single_child_def)
next
  case (Inner p cs m h)
  note wf = Inner.prems(1) and mok = Inner.prems(2)
  show ?case
  proof (cases "num_deleted_subnodes m = 0")
    case True
    then have "t' = Inner p cs m h" using Inner.prems(5) by simp
    then show ?thesis by (simp only: contract_wf [OF wf])
  next
    case False
    define R where "R c = projr (prune num_deleted_subnodes msg c)" for c :: "'a node"
    define f where "f c = contract (fst (snd (R c)))" for c
    have c: "wf_node n c" "meta_ok marks_ok c" "length (leaves c) < 2 ^ 32" if bc: "(b, c) \<in> set cs" for b c
      using Inner.prems bc child_leaves_length [OF bc, of p m h] by auto
    have R: "prune num_deleted_subnodes msg c = Inr (R c) \<and> deleted_count.prune_ok n marks_ok c (R c)"
      if "(b, c) \<in> set cs" for b c
      using deleted_count.prune_correct [OF c [OF that], of msg] by (force simp: R_def)
    have keep: "\<not> fst (fst (R c)) \<longleftrightarrow> has_live c" if "(b, c) \<in> set cs" for b c
      using R [OF that] has_live_iff(1) [OF c(2,3) [OF that]]
      by (auto simp: deleted_count.prune_ok_def case_prod_unfold)
    have f: "has_live (f c) \<and> digest E True (f c) = digest E True c" if bc: "(b, c) \<in> set cs" and l: "has_live c" for b c
    proof -
      have r: "wf_weak n (fst (snd (R c)))" "leaves (fst (snd (R c))) = filter unmarked (leaves c)"
        "meta_ok marks_ok (fst (snd (R c)))"
        using R [OF bc] keep [OF bc] l by (auto simp: deleted_count.prune_ok_def case_prod_unfold)
      have "leaves (f c) = filter unmarked (leaves c)" "meta_ok marks_ok (f c)"
        using wf_contract(3) [OF r(1)] wf_contract(4) [OF r(1,3)] r(2) unfolding f_def by simp_all
      moreover have "filter unmarked (leaves c) \<noteq> []" using has_live_iff(1) [OF c(2,3) [OF bc]] l by simp
      moreover have "length (filter unmarked (leaves c)) < 2 ^ 32" using le_less_trans [OF length_filter_le c(3) [OF bc]] .
      ultimately have "has_live (f c)" using has_live_iff(1) [of "f c"] by simp
      moreover have "digest E True (f c) = digest E True c"
        using Inner.IH [OF bc c [OF bc] \<open>filter unmarked (leaves c) \<noteq> []\<close>] R [OF bc] unfolding f_def by (metis prod.collapse)
      ultimately show ?thesis by simp
    qed
    define ds where "ds = filter (\<lambda>(b, c). has_live c) cs"
    have "filter (\<lambda>(b, c). \<not> fst (fst (R c))) cs = ds" unfolding ds_def using keep by (auto intro: filter_cong)
    then have cs': "concat (map keep_child (map (\<lambda>(b, c). (b, R c)) cs)) = map (\<lambda>(b, c). (b, f c)) ds"
      unfolding keep_children_eq f_def by simp
    have "res_map (\<lambda>(b, c). res_bind (prune num_deleted_subnodes msg c) (\<lambda>r. Inr (b, r))) cs = Inr (map (\<lambda>(b, c). (b, R c)) cs)"
      by (rule res_map_Inr) (use R in auto)
    then obtain m' where t': "t' = Inner p (map (\<lambda>(b, c). (b, f c)) ds) m' None"
      using Inner.prems(5) False cs' by (auto simp: Let_def)
    have ds: "(b, c) \<in> set ds \<Longrightarrow> has_live (f c) \<and> digest E True (f c) = digest E True c" for b c
      using f by (auto simp: ds_def)
    have "ds \<noteq> []"
      using Inner.prems(4) has_live_iff(1) [OF c(2,3)] by (fastforce simp: ds_def filter_empty_conv)
    have dt: "digest E True (Inner p cs m h) = combine_hashes E True p (map (\<lambda>(b, c). (b, digest E True c)) ds)"
      using wf by (auto simp: ds_def)
    show ?thesis
    proof (cases "\<exists>b c. ds = [(b, c)]")
      case True
      then obtain b c where bc: "ds = [(b, c)]" by blast
      then show ?thesis using ds [of b c] unfolding dt t' by (simp add: contract_def get_single_child_def combine_hashes_def)
    next
      case False
      then have "contract t' = t'" using \<open>ds \<noteq> []\<close> contract_cases [of t'] unfolding t' by (cases ds) auto
      moreover have "filter (\<lambda>(b, c). has_live c) (map (\<lambda>(b, c). (b, f c)) ds) = map (\<lambda>(b, c). (b, f c)) ds"
        using ds by (auto simp: filter_id_conv)
      moreover have "map (\<lambda>(b, c). (b, digest E True c)) (map (\<lambda>(b, c). (b, f c)) ds) = map (\<lambda>(b, c). (b, digest E True c)) ds"
        using ds by auto
      ultimately show ?thesis using \<open>ds \<noteq> []\<close> unfolding dt t' by (simp only: digest.simps simp_thms map_is_Nil_conv if_False)
    qed
  qed
qed

end
