(* ===== verification/Trie_Merge.thy ===== *)
theory Trie_Merge
  imports Trie_Insert
begin

text \<open>
  Merging one trie into another, \<^verbatim>\<open>TrieNode::_merge_in\<close> of \<^verbatim>\<open>merkle_trie.h\<close>, for any
  merge policy.  The cases are numbered as in the source.
\<close>

section \<open>The operation\<close>

text \<open>Case 4: neither prefix extends the other; the node becomes the common ancestor.\<close>

definition merge_join :: "'v node \<Rightarrow> 'v node \<Rightarrow> ('v node \<times> Metadata) res" where
  "merge_join t other =
     (let prefix_match_len = prefix_match (node_prefix t) (node_prefix other);
          original_child_branch = move_contents_to_new_node t
      in res_bind (branch_bits (node_prefix t) prefix_match_len) (\<lambda>original_branch_bits.
         res_bind (branch_bits (node_prefix other) prefix_match_len) (\<lambda>other_branch_bits.
           Inr (Inner (take prefix_match_len (node_prefix t))
                  (child_emplace other_branch_bits other
                     (child_emplace original_branch_bits original_child_branch []))
                  (metadata t + metadata other) None,
                metadata other))))"

lemma size_move_contents [simp]: "size (move_contents_to_new_node t) = size t"
  by (cases t) (simp_all add: move_contents_to_new_node_def invalidate_hash_def)

lemma child_size_children: "(b, c) \<in> set (children t) \<Longrightarrow> size c < size t"
  by (cases t) (auto dest: child_size)

lemma child_find_size_children: "child_find b (children t) = Some c \<Longrightarrow> size c < size t"
  unfolding child_find_def by (drule map_of_SomeD) (rule child_size_children)

function (sequential) node_merge_in :: "'v merge_fn \<Rightarrow> 'v node \<Rightarrow> 'v node \<Rightarrow> ('v node \<times> Metadata) res" where
  "node_merge_in M (Leaf p v m h) (Leaf q w m' h') =
     (if prefix_match p q = length p
      then let (new_m, delta) = metadata_merge M m m'   \<comment> \<open>case 0\<close>
           in Inr (Leaf p (value_merge M v w) new_m None, delta)
      else merge_join (Leaf p v m h) (Leaf q w m' h'))"
| "node_merge_in M (Inner p cs m h) other =
     (if cs = [] \<and> p = []
      then Inl (Runtime_error ''cannot _merge into empty trie!  Must call merge or somehow guard against this.'')
      else if prefix_match p (node_prefix other) = length p \<and> length p = length (node_prefix other)
      then res_bind (res_map (\<lambda>(b, d).                    \<comment> \<open>case 1\<close>
               case child_find b cs of
                 None \<Rightarrow> Inr (b, d, metadata d)
               | Some c \<Rightarrow> res_bind (node_merge_in M c d) (\<lambda>r. Inr (b, r))) (children other)) (\<lambda>rs.
             let delta = sum_list (map (\<lambda>(b, c, d). d) rs)
             in Inr (Inner p (fold (\<lambda>(b, c, d). child_emplace b c) rs cs) (m + delta) None, delta))
      else if prefix_match p (node_prefix other) = length p
      then res_bind (branch_bits (node_prefix other) (length p)) (\<lambda>bb.   \<comment> \<open>case 2\<close>
             case child_find bb cs of
               None \<Rightarrow> Inr (Inner p (child_emplace bb other cs) (m + metadata other) None, metadata other)
             | Some c \<Rightarrow> res_bind (node_merge_in M c other) (\<lambda>(c', delta).
                 Inr (Inner p (child_emplace bb c' cs) (m + delta) None, delta)))
      else if prefix_match p (node_prefix other) = length (node_prefix other)
      then let original = move_contents_to_new_node (Inner p cs m h)     \<comment> \<open>case 3\<close>
           in res_bind (branch_bits p (length (node_prefix other))) (\<lambda>bb.
             case child_find bb (children other) of
               None \<Rightarrow> Inr (Inner (node_prefix other) (child_emplace bb original (children other))
                              (metadata other + m) None, metadata other)
             | Some matching \<Rightarrow> res_bind (node_merge_in M original matching) (\<lambda>(c', delta).
                 let meta_delta = delta - (metadata matching - m);
                     new_m = metadata other + meta_delta
                 in Inr (Inner (node_prefix other) (child_emplace bb c' (children other)) new_m None, new_m - m)))
      else merge_join (Inner p cs m h) other)"
| "node_merge_in M (Leaf p v m h) (Inner q ds m' h') =
     (if prefix_match p q = length q
      then let original = move_contents_to_new_node (Leaf p v m h)        \<comment> \<open>case 3\<close>
           in res_bind (branch_bits p (length q)) (\<lambda>bb.
             case child_find bb ds of
               None \<Rightarrow> Inr (Inner q (child_emplace bb original ds) (m' + m) None, m')
             | Some matching \<Rightarrow> res_bind (node_merge_in M original matching) (\<lambda>(c', delta).
                 let meta_delta = delta - (metadata matching - m);
                     new_m = m' + meta_delta
                 in Inr (Inner q (child_emplace bb c' ds) new_m None, new_m - m)))
      else merge_join (Leaf p v m h) (Inner q ds m' h'))"
  by pat_completeness auto

termination
proof (relation "measure (\<lambda>(M, t, u). size t + size u)", goal_cases)
  case 2
  then show ?case by (auto simp only: in_measure split_conv intro!: add_strict_mono
    intro: child_find_size child_size_children)
qed (auto simp only: in_measure wf_measure split_conv size_move_contents add_less_cancel_left add_less_cancel_right
    intro: child_find_size child_find_size_children)

section \<open>Correctness\<close>

text \<open>Putting a node at a branch of a well-formed node.\<close>

lemma meta_ok_emplace:
  assumes "ordered cs" "meta_ok L (Inner p cs m h)" "meta_ok L c"
    and "m' = m + metadata c - (case child_find b cs of None \<Rightarrow> 0 | Some c' \<Rightarrow> metadata c')"
  shows "meta_ok L (Inner q (child_emplace b c cs) m' h')"
  using assms sum_metadata_emplace [OF assms(1), of b c] by (auto simp: set_child_emplace)

lemma trie_map_branch:
  assumes "wf_node n (Inner p cs m h)" "length k = n" "prefix (p @ [b]) k"
  shows "trie_map (Inner p cs m h) k = (case child_find b cs of None \<Rightarrow> None | Some c \<Rightarrow> trie_map c k)"
proof -
  have "k ! length p = b" "prefix p k" using assms(3) by (auto simp: prefix_def nth_append)
  then show ?thesis by (simp add: trie_map_Inner [OF assms(1,2)])
qed

lemma trie_map_move [simp]: "trie_map (move_contents_to_new_node t) = trie_map t"
  by (simp add: move_contents_to_new_node_def trie_map_def)

lemma move_contents_simps [simp]:
  "wf_node n (move_contents_to_new_node t) = wf_node n t"
  "node_prefix (move_contents_to_new_node t) = node_prefix t"
  "metadata (move_contents_to_new_node t) = metadata t"
  "meta_ok L (move_contents_to_new_node t) = meta_ok L t"
  by (simp_all add: move_contents_to_new_node_def)

fun merge_values :: "('v \<Rightarrow> 'v \<Rightarrow> 'v) \<Rightarrow> 'v option \<Rightarrow> 'v option \<Rightarrow> 'v option" where
  "merge_values f (Some a) (Some b) = Some (f a b)"
| "merge_values f (Some a) None = Some a"
| "merge_values f None x = x"

lemma merge_values_None [simp]: "merge_values f x None = x"
  by (cases x) auto

context merge_policy
begin

definition compatible :: "('v \<Rightarrow> Metadata \<Rightarrow> bool) \<Rightarrow> bool" where
  "compatible L \<longleftrightarrow> (\<forall>v m w m'. L v m \<longrightarrow> L w m' \<longrightarrow> L (value_merge M v w) (fst (metadata_merge M m m')))"

definition merged :: "nat \<Rightarrow> 'v node \<Rightarrow> 'v node \<Rightarrow> 'v node \<times> Metadata \<Rightarrow> bool" where
  "merged n t u r \<longleftrightarrow> (case r of (t', delta) \<Rightarrow>
     wf_node n t' \<and> metadata t' = metadata t + delta \<and>
     (\<forall>k. length k = n \<longrightarrow> trie_map t' k = merge_values (value_merge M) (trie_map t k) (trie_map u k)) \<and>
     (\<forall>q. prefix q (node_prefix t) \<longrightarrow> prefix q (node_prefix u) \<longrightarrow> prefix q (node_prefix t')) \<and>
     (\<forall>L. compatible L \<longrightarrow> meta_ok L t \<longrightarrow> meta_ok L u \<longrightarrow> meta_ok L t'))"

lemma merged_move [simp]: "merged n (move_contents_to_new_node t) u r = merged n t u r"
  by (simp add: merged_def)

text \<open>The node at a branch is the merge of what was there with what \<open>u\<close> holds below it.\<close>

lemma merged_at_branch:
  assumes wf: "wf_node n (Inner p cs m h)" and u: "wf_node n u" "prefix (p @ [b]) (node_prefix u)"
    and c': "wf_node n c'" "prefix (p @ [b]) (node_prefix c')"
    and map: "\<And>k. length k = n \<Longrightarrow> prefix (p @ [b]) k \<Longrightarrow>
      trie_map c' k = merge_values (value_merge M) (trie_map (Inner p cs m h) k) (trie_map u k)"
    and delta: "metadata c' = (case child_find b cs of None \<Rightarrow> 0 | Some c \<Rightarrow> metadata c) + delta"
    and meta: "\<And>L. compatible L \<Longrightarrow> meta_ok L (Inner p cs m h) \<Longrightarrow> meta_ok L u \<Longrightarrow> meta_ok L c'"
  shows "merged n (Inner p cs m h) u (Inner p (child_emplace b c' cs) (m + delta) h', delta)"
proof -
  have ord: "ordered cs" using wf by simp
  have "trie_map (Inner p (child_emplace b c' cs) (m + delta) h') k =
      merge_values (value_merge M) (trie_map (Inner p cs m h) k) (trie_map u k)" if k: "length k = n" for k
  proof (cases "prefix (p @ [b]) k")
    case True
    then show ?thesis using map [OF k] by (simp add: trie_map_emplace [OF wf c' k])
  next
    case False
    then have "trie_map u k = None" by (rule trie_map_other_branch [OF u])
    then show ?thesis using False by (simp add: trie_map_emplace [OF wf c' k])
  qed
  moreover have "meta_ok L (Inner p (child_emplace b c' cs) (m + delta) h')"
    if "compatible L" "meta_ok L (Inner p cs m h)" "meta_ok L u" for L
    by (rule meta_ok_emplace [OF ord that(2) meta [OF that]]) (simp add: delta)
  ultimately show ?thesis
    using wf_Inner_emplace [OF wf c'] by (simp add: merged_def del: wf_node.simps meta_ok.simps)
qed


text \<open>Case 4.\<close>

lemma merge_join_correct:
  assumes wf: "wf_node n t" "wf_node n u" and no: "\<not> prefix (node_prefix t) (node_prefix u)" "\<not> prefix (node_prefix u) (node_prefix t)"
  shows "\<exists>r. merge_join t u = Inr r \<and> merged n t u r"
proof -
  define p where "p = node_prefix t"
  define q where "q = node_prefix u"
  define ml where "ml = prefix_match p q"
  have "ml \<noteq> length p" "ml \<noteq> length q"
    using no prefix_match_full [of p q] prefix_match_full [of q p] prefix_match_commute [of p q]
    by (simp_all add: ml_def p_def q_def)
  then have lt: "ml < length p" "ml < length q" using prefix_match_le [of p q] by (simp_all add: ml_def)
  have ab: "q ! ml \<noteq> p ! ml" using prefix_match_differ [of p q] lt by (simp add: ml_def)
  have eqt: "take ml p = take ml q" unfolding ml_def by (rule take_prefix_match)
  have pa: "prefix (take ml p @ [p ! ml]) (node_prefix (move_contents_to_new_node t))"
    unfolding take_Suc_conv_app_nth [OF lt(1), symmetric] by (simp add: p_def take_is_prefix)
  have pb: "prefix (take ml p @ [q ! ml]) (node_prefix u)"
    unfolding eqt take_Suc_conv_app_nth [OF lt(2), symmetric] by (simp add: q_def take_is_prefix)
  have wft: "wf_node n (move_contents_to_new_node t)" using wf by simp
  define j where "j = Inner (take ml p) (child_emplace (q ! ml) u (child_emplace (p ! ml) (move_contents_to_new_node t) []))
    (metadata t + metadata u) None"
  have eq: "merge_join t u = Inr (j, metadata u)"
    unfolding merge_join_def Let_def p_def [symmetric] q_def [symmetric] ml_def [symmetric] j_def
    using lt by (simp add: branch_bits_def)
  obtain k0 :: key where k0: "length k0 = n" using Ex_list_of_length by blast
  note j = join_two [OF wf(2) wft pb pa ab, where m = "metadata t + metadata u" and h = None, folded j_def]
  have map: "trie_map j k = merge_values (value_merge M) (trie_map t k) (trie_map u k)" if k: "length k = n" for k
  proof -
    have tn: "trie_map t k = None" if "\<not> prefix (take ml p @ [p ! ml]) k"
      using trie_map_other_branch [OF wft pa that] by simp
    have un: "trie_map u k = None" if "\<not> prefix (take ml p @ [q ! ml]) k"
      by (rule trie_map_other_branch [OF wf(2) pb that])
    show ?thesis
    proof (cases "prefix (take ml p @ [p ! ml]) k")
      case True
      then have "\<not> prefix (take ml p @ [q ! ml]) k"
        using ab prefix_snoc_unique [of "take ml p" "q ! ml" k "p ! ml"] by iprover
      then show ?thesis unfolding j(2) [OF k] trie_map_move using True by (simp add: un)
    next
      case False
      then show ?thesis unfolding j(2) [OF k] trie_map_move tn [OF False] using un by simp
    qed
  qed
  have pre: "prefix x (node_prefix j)" if x: "prefix x (node_prefix t)" "prefix x (node_prefix u)" for x
  proof -
    have "length x \<le> ml" unfolding ml_def p_def q_def by (rule prefix_match_common [OF x])
    then have "length x \<le> length (take ml p)" using lt by simp
    then show ?thesis
      unfolding j_def node.sel by (rule prefix_length_prefix [OF x(1) [folded p_def] take_is_prefix])
  qed
  have mok: "meta_ok L j" if "meta_ok L t" "meta_ok L u" for L
    using meta_ok_join [OF ab refl, of L "move_contents_to_new_node t" u] that
    by (simp only: j_def move_contents_simps)
  have "metadata j = metadata t + metadata u" by (simp only: j_def node.sel)
  then have "merged n t u (j, metadata u)"
    unfolding merged_def split_conv using j(1) [OF k0] map pre mok by iprover
  with eq show ?thesis by blast
qed


text \<open>Cases 2 and 3: the branch is new, or it is merged below.\<close>

lemma merged_new_branch:
  assumes wf: "wf_node n (Inner p cs m h)" and u: "wf_node n u" "prefix (p @ [b]) (node_prefix u)"
    and none: "child_find b cs = None"
  shows "merged n (Inner p cs m h) u (Inner p (child_emplace b u cs) (m + metadata u) h', metadata u)"
  by (rule merged_at_branch [OF wf u u]) (simp_all add: none trie_map_branch [OF wf])

lemma merged_old_branch:
  assumes wf: "wf_node n (Inner p cs m h)" and u: "wf_node n u" "prefix (p @ [b]) (node_prefix u)"
    and some: "child_find b cs = Some c" and c': "merged n c u (c', delta)"
  shows "merged n (Inner p cs m h) u (Inner p (child_emplace b c' cs) (m + delta) h', delta)"
proof (rule merged_at_branch [OF wf u])
  have mem: "(b, c) \<in> set cs" using wf some by (simp add: child_find_in)
  then have pc: "prefix (p @ [b]) (node_prefix c)" and Lc: "\<And>L. meta_ok L (Inner p cs m h) \<Longrightarrow> meta_ok L c"
    using wf by auto
  have m: "wf_node n c'" "metadata c' = metadata c + delta"
    "\<And>k. length k = n \<Longrightarrow> trie_map c' k = merge_values (value_merge M) (trie_map c k) (trie_map u k)"
    "\<And>q. prefix q (node_prefix c) \<Longrightarrow> prefix q (node_prefix u) \<Longrightarrow> prefix q (node_prefix c')"
    "\<And>L. compatible L \<Longrightarrow> meta_ok L c \<Longrightarrow> meta_ok L u \<Longrightarrow> meta_ok L c'"
    using c' by (simp_all add: merged_def)
  show "wf_node n c'" by (rule m(1))
  show "prefix (p @ [b]) (node_prefix c')" by (rule m(4) [OF pc u(2)])
  show "metadata c' = (case child_find b cs of None \<Rightarrow> 0 | Some c \<Rightarrow> metadata c) + delta" by (simp add: some m(2))
  show "trie_map c' k = merge_values (value_merge M) (trie_map (Inner p cs m h) k) (trie_map u k)"
    if "length k = n" "prefix (p @ [b]) k" for k
    using m(3) [OF that(1)] by (simp add: trie_map_branch [OF wf that] some)
  show "meta_ok L c'" if "compatible L" "meta_ok L (Inner p cs m h)" "meta_ok L u" for L
    by (rule m(5) [OF that(1) Lc [OF that(2)] that(3)])
qed

text \<open>Case 3 exchanges the roles: the original becomes a child of the other node.\<close>

lemma merged_swap_new:
  assumes wf: "wf_node n (Inner q ds m' h)" and t: "wf_node n t" "prefix (q @ [b]) (node_prefix t)"
    and none: "child_find b ds = None"
  shows "merged n t (Inner q ds m' h) (Inner q (child_emplace b t ds) (m' + metadata t) h', m')"
proof -
  have "merged n (Inner q ds m' h) t (Inner q (child_emplace b t ds) (m' + metadata t) h', metadata t)"
    by (rule merged_new_branch [OF wf t none])
  moreover have "merge_values f (trie_map (Inner q ds m' h) k) (trie_map t k) =
      merge_values f (trie_map t k) (trie_map (Inner q ds m' h) k)" if k: "length k = n" for k f
  proof (cases "prefix (q @ [b]) k")
    case True
    then show ?thesis by (simp add: trie_map_branch [OF wf k] none)
  next
    case False
    then show ?thesis by (simp add: trie_map_other_branch [OF t])
  qed
  ultimately show ?thesis by (simp add: merged_def add.commute del: meta_ok.simps)
qed

lemma merged_swap_old:
  assumes wf: "wf_node n (Inner q ds m' h)" and t: "wf_node n t" "prefix (q @ [b]) (node_prefix t)"
    and some: "child_find b ds = Some d" and c': "merged n t d (c', delta)"
  defines "new_m \<equiv> m' + (delta - (metadata d - metadata t))"
  shows "merged n t (Inner q ds m' h) (Inner q (child_emplace b c' ds) new_m h', new_m - metadata t)"
proof -
  have ord: "ordered ds" and mem: "(b, d) \<in> set ds" using wf some by (simp_all add: child_find_in)
  then have pd: "prefix (q @ [b]) (node_prefix d)" and Ld: "\<And>L. meta_ok L (Inner q ds m' h) \<Longrightarrow> meta_ok L d"
    using wf by auto
  have m: "wf_node n c'" "metadata c' = metadata t + delta"
    "\<And>k. length k = n \<Longrightarrow> trie_map c' k = merge_values (value_merge M) (trie_map t k) (trie_map d k)"
    "\<And>L. compatible L \<Longrightarrow> meta_ok L t \<Longrightarrow> meta_ok L d \<Longrightarrow> meta_ok L c'"
    and pc: "prefix (q @ [b]) (node_prefix c')"
    using c' t(2) pd by (simp_all add: merged_def)
  have "trie_map (Inner q (child_emplace b c' ds) new_m h') k =
      merge_values (value_merge M) (trie_map t k) (trie_map (Inner q ds m' h) k)" if k: "length k = n" for k
  proof (cases "prefix (q @ [b]) k")
    case True
    then show ?thesis
      using m(3) [OF k] by (simp add: trie_map_emplace [OF wf m(1) pc k] trie_map_branch [OF wf k True] some)
  next
    case False
    then show ?thesis by (simp add: trie_map_emplace [OF wf m(1) pc k] trie_map_other_branch [OF t])
  qed
  moreover have "meta_ok L (Inner q (child_emplace b c' ds) new_m h')"
    if "compatible L" "meta_ok L t" "meta_ok L (Inner q ds m' h)" for L
    by (rule meta_ok_emplace [OF ord that(3) m(4) [OF that(1,2) Ld [OF that(3)]]]) (simp add: new_m_def some m(2))
  ultimately show ?thesis
    using wf_Inner_emplace [OF wf m(1) pc, of new_m h'] by (simp add: merged_def del: wf_node.simps meta_ok.simps)
qed


text \<open>Case 1: the children of the other node are merged in one by one.\<close>

definition child_lookup :: "key \<Rightarrow> (nib \<times> 'v node) list \<Rightarrow> key \<Rightarrow> 'v option" where
  "child_lookup p ds k =
     (if prefix p k then (case child_find (k ! length p) ds of None \<Rightarrow> None | Some d \<Rightarrow> trie_map d k) else None)"

lemma merge_children:
  assumes "wf_node n (Inner p cs m h)" "distinct (map fst ds)"
    and "\<And>b d. (b, d) \<in> set ds \<Longrightarrow> wf_node n d \<and> prefix (p @ [b]) (node_prefix d)"
    and "\<And>b d. (b, d) \<in> set ds \<Longrightarrow>
      (case child_find b cs of None \<Rightarrow> R b d = (d, metadata d) | Some c \<Rightarrow> merged n c d (R b d))"
  shows "let t' = Inner p (fold (\<lambda>(b, d). child_emplace b (fst (R b d))) ds cs) (m + (\<Sum>(b, d) \<leftarrow> ds. snd (R b d))) h'
     in wf_node n t' \<and>
       (\<forall>k. length k = n \<longrightarrow>
          trie_map t' k = merge_values (value_merge M) (trie_map (Inner p cs m h) k) (child_lookup p ds k)) \<and>
       (\<forall>L. compatible L \<longrightarrow> meta_ok L (Inner p cs m h) \<longrightarrow> (\<forall>x \<in> set ds. meta_ok L (snd x)) \<longrightarrow> meta_ok L t')"
  using assms
proof (induction ds arbitrary: cs m h)
  case Nil
  have "trie_map (Inner p cs m h') = trie_map (Inner p cs m h)" by (simp add: trie_map_def)
  then show ?case using Nil.prems(1) by (simp add: child_lookup_def child_find_def)
next
  case (Cons x ds)
  obtain b d where x: "x = (b, d)" by force
  note wf = Cons.prems(1)
  obtain c' delta where R: "R b d = (c', delta)" by force
  have d: "wf_node n d" "prefix (p @ [b]) (node_prefix d)" using Cons.prems(3) [of b d] by (auto simp: x)
  have step: "merged n (Inner p cs m h) d (Inner p (child_emplace b c' cs) (m + delta) h', delta)" for h'
    using Cons.prems(4) [of b d] R merged_new_branch [OF wf d] merged_old_branch [OF wf d]
    by (auto simp: x split: option.splits)
  let ?t1 = "Inner p (child_emplace b c' cs) (m + delta) h"
  have t1: "wf_node n ?t1"
    "\<And>k. length k = n \<Longrightarrow> trie_map ?t1 k = merge_values (value_merge M) (trie_map (Inner p cs m h) k) (trie_map d k)"
    "\<And>L. compatible L \<Longrightarrow> meta_ok L (Inner p cs m h) \<Longrightarrow> meta_ok L d \<Longrightarrow> meta_ok L ?t1"
    using step [of h] by (simp_all add: merged_def del: wf_node.simps meta_ok.simps)
  have ord: "ordered cs" using wf by simp
  have rest: "case child_find b' (child_emplace b c' cs) of None \<Rightarrow> R b' d' = (d', metadata d') | Some c \<Rightarrow> merged n c d' (R b' d')"
    if "(b', d') \<in> set ds" for b' d'
  proof -
    have "b' \<noteq> b" using Cons.prems(2) that by (force simp: x)
    then show ?thesis using Cons.prems(4) [of b' d'] that by (simp add: child_find_emplace [OF ord])
  qed
  have wfd: "wf_node n d' \<and> prefix (p @ [b']) (node_prefix d')" if "(b', d') \<in> set ds" for b' d'
    by (rule Cons.prems(3)) (use that in simp)
  define t' where "t' = Inner p (fold (\<lambda>(b, d). child_emplace b (fst (R b d))) ds (child_emplace b c' cs))
    (m + delta + (\<Sum>(b, d) \<leftarrow> ds. snd (R b d))) h'"
  have IH: "wf_node n t'"
    "\<And>k. length k = n \<Longrightarrow> trie_map t' k = merge_values (value_merge M) (trie_map ?t1 k) (child_lookup p ds k)"
    "\<And>L. compatible L \<Longrightarrow> meta_ok L ?t1 \<Longrightarrow> \<forall>x \<in> set ds. meta_ok L (snd x) \<Longrightarrow> meta_ok L t'"
    using Cons.IH [OF t1(1) _ wfd rest] Cons.prems(2)
    unfolding t'_def [symmetric] Let_def by (simp_all add: x del: wf_node.simps meta_ok.simps)
  have "trie_map t' k = merge_values (value_merge M) (trie_map (Inner p cs m h) k) (child_lookup p (x # ds) k)"
    if k: "length k = n" for k
  proof (cases "prefix (p @ [b]) k")
    case True
    then have kb: "prefix p k" "k ! length p = b" by (auto simp: prefix_def nth_append)
    have "child_find b ds = None" using Cons.prems(2) by (simp add: x child_find_None)
    then show ?thesis using IH(2) [OF k] t1(2) [OF k] kb by (simp add: child_lookup_def x child_find_def)
  next
    case False
    have "length p < length k" using wf k by simp
    then have "child_lookup p (x # ds) k = child_lookup p ds k"
      using False prefix_nth [of p k] by (auto simp: child_lookup_def x child_find_def)
    then show ?thesis using IH(2) [OF k] t1(2) [OF k] trie_map_other_branch [OF d False] by simp
  qed
  moreover have "meta_ok L t'" if "compatible L" "meta_ok L (Inner p cs m h)" "\<forall>y \<in> set (x # ds). meta_ok L (snd y)" for L
    by (rule IH(3) [OF that(1) t1(3) [OF that(1,2)]]) (use that(3) x in auto)
  ultimately show ?case
    using IH(1) unfolding t'_def x by (simp add: R add.assoc Let_def del: wf_node.simps meta_ok.simps)
qed


lemma merge_case_1:
  assumes wf: "wf_node n (Inner p cs m h)" "wf_node n (Inner p ds m' h')"
    and IH: "\<And>b c d. (b, d) \<in> set ds \<Longrightarrow> child_find b cs = Some c \<Longrightarrow>
      \<exists>r. node_merge_in M c d = Inr r \<and> merged n c d r"
  shows "\<exists>r. node_merge_in M (Inner p cs m h) (Inner p ds m' h') = Inr r \<and> merged n (Inner p cs m h) (Inner p ds m' h') r"
proof -
  define R where "R b d = (case child_find b cs of None \<Rightarrow> (d, metadata d) | Some c \<Rightarrow> projr (node_merge_in M c d))"
    for b and d :: "'v node"
  have ord: "ordered ds" using wf(2) by simp
  have R: "case child_find b cs of None \<Rightarrow> R b d = (d, metadata d) | Some c \<Rightarrow> merged n c d (R b d)"
    "(case child_find b cs of None \<Rightarrow> Inr (b, d, metadata d)
      | Some c \<Rightarrow> res_bind (node_merge_in M c d) (\<lambda>r. Inr (b, r))) = Inr (b, R b d)"
    if "(b, d) \<in> set ds" for b d
    using IH [OF that] by (auto simp: R_def split: option.splits)
  have rs: "res_map (\<lambda>(b, d). case child_find b cs of None \<Rightarrow> Inr (b, d, metadata d)
      | Some c \<Rightarrow> res_bind (node_merge_in M c d) (\<lambda>r. Inr (b, r))) ds = Inr (map (\<lambda>(b, d). (b, R b d)) ds)"
    by (rule res_map_Inr) (use R(2) in auto)
  let ?delta = "\<Sum>(b, d) \<leftarrow> ds. snd (R b d)"
  define t' where "t' = Inner p (fold (\<lambda>(b, d). child_emplace b (fst (R b d))) ds cs) (m + ?delta) None"
  have fold: "fold (\<lambda>(b, c, d). child_emplace b c) (map (\<lambda>(b, d). (b, R b d)) ds) cs =
      fold (\<lambda>(b, d). child_emplace b (fst (R b d))) ds cs"
    by (simp add: fold_map comp_def case_prod_unfold)
  have cs: "cs \<noteq> []" using wf(1) by auto
  have eq: "node_merge_in M (Inner p cs m h) (Inner p ds m' h') = Inr (t', ?delta)"
    unfolding node_merge_in.simps node.sel rs res_bind_simps Let_def fold t'_def
    using cs by (simp add: prefix_match_full case_prod_unfold comp_def)
  have wfd: "wf_node n d \<and> prefix (p @ [b]) (node_prefix d)" if "(b, d) \<in> set ds" for b d using wf(2) that by auto
  have mc: "wf_node n t' \<and>
     (\<forall>k. length k = n \<longrightarrow>
        trie_map t' k = merge_values (value_merge M) (trie_map (Inner p cs m h) k) (child_lookup p ds k)) \<and>
     (\<forall>L. compatible L \<longrightarrow> meta_ok L (Inner p cs m h) \<longrightarrow> (\<forall>x \<in> set ds. meta_ok L (snd x)) \<longrightarrow> meta_ok L t')"
    unfolding t'_def
    by (rule merge_children [OF wf(1) ordered_distinct [OF ord] wfd R(1), unfolded Let_def]; assumption)
  have lookup: "trie_map (Inner p ds m' h') k = child_lookup p ds k" if "length k = n" for k
    unfolding child_lookup_def by (rule trie_map_Inner [OF wf(2) that])
  have "merged n (Inner p cs m h) (Inner p ds m' h') (t', ?delta)"
    unfolding merged_def split_conv
  proof (intro conjI allI impI)
    show "wf_node n t'" by (rule mc [THEN conjunct1])
    show "metadata t' = metadata (Inner p cs m h) + ?delta" by (simp only: t'_def node.sel)
    show "trie_map t' k = merge_values (value_merge M) (trie_map (Inner p cs m h) k) (trie_map (Inner p ds m' h') k)"
      if "length k = n" for k
      unfolding lookup [OF that] by (rule mc [THEN conjunct2, THEN conjunct1, rule_format, OF that])
    show "prefix q (node_prefix t')" if "prefix q (node_prefix (Inner p cs m h))" for q
      using that by (simp only: t'_def node.sel)
    show "meta_ok L t'" if "compatible L" "meta_ok L (Inner p cs m h)" "meta_ok L (Inner p ds m' h')" for L
      using mc [THEN conjunct2, THEN conjunct2, rule_format, OF that(1,2)] that(3) by simp
  qed
  with eq show ?thesis by blast
qed

lemma prefix_match_full': "prefix_match p q = length q \<longleftrightarrow> prefix q p"
  unfolding prefix_match_commute [of p] by (rule prefix_match_full)

lemma merge_same:
  assumes wf: "wf_node n t" "wf_node n u" and same: "node_prefix t = node_prefix u"
    and IH: "\<And>b c d. (b, d) \<in> set (children u) \<Longrightarrow> child_find b (children t) = Some c \<Longrightarrow>
      \<exists>r. node_merge_in M c d = Inr r \<and> merged n c d r"
  shows "\<exists>r. node_merge_in M t u = Inr r \<and> merged n t u r"
proof (cases t)
  case (Leaf p v m h)
  then obtain w m' h' where u: "u = Leaf p w m' h'" using wf same by (cases u) auto
  obtain nm delta where mm: "metadata_merge M m m' = (nm, delta)" by force
  have "delta = nm - m" using metadata_merge_delta [of m m'] mm by simp
  moreover have "L (value_merge M v w) nm" if "compatible L" "L v m" "L w m'" for L
    using that mm unfolding compatible_def by (metis fst_conv)
  ultimately have "merged n t u (Leaf p (value_merge M v w) nm None, delta)"
    using wf unfolding Leaf u by (auto simp: merged_def trie_map_Leaf)
  then show ?thesis unfolding Leaf u by (simp add: prefix_match_full mm)
next
  case (Inner p cs m h)
  then obtain ds m' h' where u: "u = Inner p ds m' h'" using wf same by (cases u) auto
  show ?thesis
    using wf IH merge_case_1 [of n p cs m h ds m' h'] unfolding Inner u by simp
qed

lemma branch_bits_below:
  assumes "wf_node n u" "prefix p (node_prefix u)" "length p < length (node_prefix u)"
  shows "branch_bits (node_prefix u) (length p) = Inr (node_prefix u ! length p)"
    "prefix (p @ [node_prefix u ! length p]) (node_prefix u)"
  using assms prefix_nth by (auto simp: branch_bits_def)

lemma wf_leaf_prefix:
  assumes "wf_node n t" "wf_node n u" "prefix (node_prefix t) (node_prefix u)" "is_Leaf t"
  shows "is_Leaf u \<and> node_prefix u = node_prefix t"
proof -
  have "length (node_prefix t) = n" "length (node_prefix u) \<le> n" using assms by (cases t; cases u; auto)+
  then have "node_prefix u = node_prefix t" using assms(3) by (auto simp: prefix_def)
  then show ?thesis using assms(2) \<open>length (node_prefix t) = n\<close> by (cases u) auto
qed

lemma node_merge_in_correct:
  "wf_node n t \<Longrightarrow> wf_node n u \<Longrightarrow> \<exists>r. node_merge_in M t u = Inr r \<and> merged n t u r"
proof (induction "size t + size u" arbitrary: t u rule: less_induct)
  case less
  note wf = less.prems
  consider (join) "\<not> prefix (node_prefix t) (node_prefix u)" "\<not> prefix (node_prefix u) (node_prefix t)"
    | (same) "node_prefix t = node_prefix u"
    | (below) "prefix (node_prefix t) (node_prefix u)" "length (node_prefix t) < length (node_prefix u)"
    | (above) "prefix (node_prefix u) (node_prefix t)" "length (node_prefix u) < length (node_prefix t)"
    by (metis le_neq_implies_less prefix_length_le prefix_length_prefix prefix_order.antisym prefix_order.refl order_refl)
  then show ?case
  proof cases
    case join
    then have "node_merge_in M t u = merge_join t u"
      by (cases t; cases u) (auto simp: prefix_match_full prefix_match_full')
    then show ?thesis using merge_join_correct [OF wf join] by simp
  next
    case same
    show ?thesis
    proof (rule merge_same [OF wf same])
      fix b c d assume bd: "(b, d) \<in> set (children u)" "child_find b (children t) = Some c"
      have "wf_node n d" using wf(2) bd(1) by (cases u) auto
      moreover have "wf_node n c" using wf(1) bd(2) by (cases t) (auto simp: child_find_in)
      ultimately show "\<exists>r. node_merge_in M c d = Inr r \<and> merged n c d r"
        using less.hyps [of c d] child_size_children [OF bd(1)] child_find_size_children [OF bd(2)] by simp
    qed
  next
    case below
    have "\<not> is_Leaf t" using wf_leaf_prefix [OF wf below(1)] below(2) by auto
    then obtain p cs m h where t: "t = Inner p cs m h" by (cases t) auto
    note bb = branch_bits_below [OF wf(2) below [unfolded t node.sel]]
    let ?b = "node_prefix u ! length p"
    have cs: "cs \<noteq> []" using wf(1) t by auto
    show ?thesis
    proof (cases "child_find ?b cs")
      case None
      then show ?thesis
        using merged_new_branch [OF wf(1) [unfolded t] wf(2) bb(2) None, of None] below cs bb(1)
        unfolding t by (auto simp: prefix_match_full)
    next
      case (Some c)
      have "wf_node n c" using wf(1) Some t by (auto simp: child_find_in)
      then obtain c' delta where c': "node_merge_in M c u = Inr (c', delta)" "merged n c u (c', delta)"
        using less.hyps [of c u] wf(2) child_find_size [OF Some, of p m h] t by auto
      show ?thesis
        using merged_old_branch [OF wf(1) [unfolded t] wf(2) bb(2) Some c'(2), of None] below cs bb(1) Some c'(1)
        unfolding t by (auto simp: prefix_match_full)
    qed
  next
    case above
    have "\<not> is_Leaf u" using wf_leaf_prefix [OF wf(2,1) above(1)] above(2) by auto
    then obtain q ds m' h' where u: "u = Inner q ds m' h'" by (cases u) auto
    note bb = branch_bits_below [OF wf(1) above [unfolded u node.sel]]
    let ?b = "node_prefix t ! length q" and ?o = "move_contents_to_new_node t"
    have o: "wf_node n ?o" "prefix (q @ [?b]) (node_prefix ?o)" "metadata ?o = metadata t" using wf(1) bb(2) by simp_all
    have eq: "node_merge_in M t u = (case child_find ?b ds of
        None \<Rightarrow> Inr (Inner q (child_emplace ?b ?o ds) (m' + metadata t) None, m')
      | Some matching \<Rightarrow> res_bind (node_merge_in M ?o matching) (\<lambda>(c', delta).
          let new_m = m' + (delta - (metadata matching - metadata t))
          in Inr (Inner q (child_emplace ?b c' ds) new_m None, new_m - metadata t)))"
    proof -
      have "\<not> prefix (node_prefix t) q" "node_prefix t \<noteq> []"
        using above(2) prefix_length_le [of "node_prefix t" q] unfolding u by auto
      then show ?thesis
        using above(1) bb(1) unfolding u
        by (cases t) (auto simp: prefix_match_full prefix_match_full' Let_def split: option.split)
    qed
    show ?thesis
    proof (cases "child_find ?b ds")
      case None
      have "merged n ?o u (Inner q (child_emplace ?b ?o ds) (m' + metadata t) None, m')"
        using merged_swap_new [OF wf(2) [unfolded u] o(1,2) None, of None] by (simp add: u)
      then show ?thesis unfolding eq None by simp
    next
      case (Some d)
      have "wf_node n d" using wf(2) Some u by (auto simp: child_find_in)
      then obtain c' delta where c': "node_merge_in M ?o d = Inr (c', delta)" "merged n ?o d (c', delta)"
        using less.hyps [of ?o d] o(1) child_find_size [OF Some, of q m' h'] u by auto
      have "merged n ?o u (Inner q (child_emplace ?b c' ds) (m' + (delta - (metadata d - metadata t))) None,
          m' + (delta - (metadata d - metadata t)) - metadata t)"
        using merged_swap_old [OF wf(2) [unfolded u] o(1,2) Some c'(2), of None] by (simp add: u)
      then show ?thesis unfolding eq Some by (simp add: c'(1) Let_def)
    qed
  qed
qed

end

end
