(* ===== verification/Trie_Split.thy ===== *)
theory Trie_Split
  imports Trie_Mark
begin

text \<open>
  Taking the cheapest offers off a trie by their total endowment, \<^verbatim>\<open>endow_split\<close> of
  \<^verbatim>\<open>merkle_trie.h\<close>, and the clean-up of the nodes it leaves with a single child.
\<close>

section \<open>The operations\<close>

text \<open>
  The loop of \<open>endow_split\<close> runs over all sixteen branches and tests \<open>acc_endow >= endow_threshold\<close>
  after each, so before every child but one on branch 0.  It returns the children kept, the children of
  the new node, and the metadata that moved.
\<close>

function (sequential)
  node_endow_split :: "i64 \<Rightarrow> 'v node \<Rightarrow> ('v node option \<times> 'v node) res"
and endow_split_children ::
  "i64 \<Rightarrow> i64 \<Rightarrow> (nib \<times> 'v node) list \<Rightarrow> ((nib \<times> 'v node) list \<times> (nib \<times> 'v node) list \<times> Metadata) res" where
  "node_endow_split threshold (Leaf p v m h) = Inr (None, Leaf p v m h)"
| "node_endow_split threshold (Inner p cs m h) =
     (if cs = [] then Inr (None, Inner p cs m h)
      else if sint (endow m) \<le> sint threshold
      then Inl (Runtime_error ''shouldn't have reached this far down - entire node is consumed'')
      else if sint threshold < 0 then Inl (Runtime_error ''endow threshold can't be negative'')
      else res_bind (endow_split_children threshold 0 cs) (\<lambda>(kept, new, moved).
        Inr (if new = [] then None else Some (Inner p new (sum_list (map (\<lambda>(b, c). metadata c) new)) None),
             Inner p kept (m - moved) None)))"
| "endow_split_children threshold acc [] = Inr ([], [], 0)"
| "endow_split_children threshold acc ((b, c) # cs) =
     (if b \<noteq> 0 \<and> sint threshold \<le> sint acc then Inr ((b, c) # cs, [], 0)
      else let fully_consumed_subtree = acc + endow (metadata c) in
        if sint fully_consumed_subtree \<le> sint threshold
        then res_bind (endow_split_children threshold fully_consumed_subtree cs) (\<lambda>(kept, new, moved).
               Inr (kept, (b, c) # new, metadata c + moved))
        else res_bind (node_endow_split (threshold - acc) c) (\<lambda>(split_obj, c').
             res_bind (endow_split_children threshold fully_consumed_subtree cs) (\<lambda>(kept, new, moved).
               Inr ((b, contract c') # kept,
                    (case split_obj of None \<Rightarrow> new | Some s \<Rightarrow> (b, s) # new),
                    (case split_obj of None \<Rightarrow> moved | Some s \<Rightarrow> metadata s + moved)))))"
  by pat_completeness auto

termination
  by (relation "measure (\<lambda>x. case x of Inl (thr, t) \<Rightarrow> size t
      | Inr (thr, acc, cs) \<Rightarrow> size_list (size_prod (\<lambda>x. 0) size) cs)") auto


text \<open>
  \<open>clean_singlechild_nodes\<close>: on every branch, a child with a single child is replaced by it until
  there is none; then the same below the branch of the path.
\<close>

lemma size_contract: "single_child t \<Longrightarrow> size (contract t) < size t"
proof -
  assume "single_child t"
  then obtain p b m h where t: "t = Inner p [(b, contract t)] m h" using contract_cases [of t] by auto
  show ?thesis by (subst (2) t) simp
qed

function contract_chain :: "'v node \<Rightarrow> 'v node" where
  "contract_chain t = (if single_child t then contract_chain (contract t) else t)"
  by pat_completeness auto

termination
  by (relation "measure size") (auto simp: size_contract)

declare contract_chain.simps [simp del]

lemma size_contract_chain: "size (contract_chain t) \<le> size t"
proof (induction t rule: contract_chain.induct)
  case (1 t)
  then show ?case using size_contract [of t] by (subst contract_chain.simps) auto
qed

lemma child_chain_size:
  assumes "child_find b (map (\<lambda>(b, c). (b, contract_chain c)) cs) = Some c"
  shows "size c < size (Inner p cs m h)"
proof -
  obtain d where "(b, d) \<in> set cs" "c = contract_chain d"
    using assms by (auto simp: child_find_def dest!: map_of_SomeD)
  then show ?thesis using child_size [of b d cs p m h] size_contract_chain [of d] by simp
qed

function (sequential) node_clean_singlechild :: "key \<Rightarrow> 'v node \<Rightarrow> 'v node res" where
  "node_clean_singlechild explore_path (Leaf p v m h) = Inr (Leaf p v m h)"
| "node_clean_singlechild explore_path (Inner p cs m h) =
     (let cs' = map (\<lambda>(b, c). (b, contract_chain c)) cs in
      res_bind (branch_bits explore_path (length p)) (\<lambda>bb.
        case child_find bb cs' of
          None \<Rightarrow> Inr (Inner p cs' m h)
        | Some c \<Rightarrow> res_bind (node_clean_singlechild explore_path c) (\<lambda>c'.
            Inr (Inner p (child_emplace bb c' cs') m h))))"
  by pat_completeness auto

termination
  by (relation "measure (\<lambda>(k, t). size t)") (auto simp only: in_measure wf_measure split_conv child_chain_size)

section \<open>Correctness of the split\<close>

text \<open>Nodes on the path of \<open>k\<close> may have a single child; everything beside the path is well-formed.\<close>

fun path_loose :: "nat \<Rightarrow> key \<Rightarrow> 'v node \<Rightarrow> bool" where
  "path_loose n k (Leaf p v m h) \<longleftrightarrow> length p = n"
| "path_loose n k (Inner p cs m h) \<longleftrightarrow>
     length p < n \<and> cs \<noteq> [] \<and> ordered cs \<and> prefix p k \<and>
     (\<forall>x \<in> set cs. prefix (p @ [fst x]) (node_prefix (snd x)) \<and>
        (wf_node n (snd x) \<or> fst x = k ! length p \<and> path_loose n k (snd x)))"

abbreviation leaf_endow :: "key \<times> 'v \<times> Metadata \<Rightarrow> int" where
  "leaf_endow x \<equiv> sint (endow (leaf_md x))"

definition endow_total :: "(key \<times> 'v \<times> Metadata) list \<Rightarrow> int" where
  "endow_total xs = sum_list (map leaf_endow xs)"

lemma endow_total_simps [simp]:
  "endow_total [] = 0" "endow_total (x # xs) = leaf_endow x + endow_total xs"
  "endow_total (xs @ ys) = endow_total xs + endow_total ys"
  by (simp_all add: endow_total_def)

text \<open>Offers have positive amounts.\<close>

abbreviation positive_endow :: "'v \<Rightarrow> Metadata \<Rightarrow> bool" where
  "positive_endow v m \<equiv> 0 < sint (endow m)"

lemma endow_total_nonneg: "\<forall>x \<in> set xs. 0 < leaf_endow x \<Longrightarrow> 0 \<le> endow_total xs"
proof (induction xs)
  case (Cons x xs)
  then have "0 < leaf_endow x" "0 \<le> endow_total xs" by auto
  then show ?case by simp
qed simp

lemma endow_exact:
  assumes "\<forall>x \<in> set xs. 0 < leaf_endow x" "endow_total xs < 2 ^ 63"
  shows "sint (endow (sum_list (map leaf_md xs))) = endow_total xs"
  using assms
proof (induction xs)
  case (Cons x xs)
  have "0 \<le> endow_total xs" "0 < leaf_endow x" using Cons.prems(1) endow_total_nonneg [of xs] by auto
  with Cons show ?case using sint_add_exact [of "endow (leaf_md x)" "endow (sum_list (map leaf_md xs))"] by simp
qed simp

abbreviation list_leaves :: "(nib \<times> 'v node) list \<Rightarrow> (key \<times> 'v \<times> Metadata) list" where
  "list_leaves cs \<equiv> concat (map (\<lambda>(b, c). leaves c) cs)"

text \<open>Where the threshold falls in a list of leaves.\<close>

definition splits_at :: "int \<Rightarrow> (key \<times> 'v \<times> Metadata) list \<Rightarrow> (key \<times> 'v \<times> Metadata) list \<Rightarrow> bool" where
  "splits_at threshold A B \<longleftrightarrow>
     endow_total A \<le> threshold \<and> B \<noteq> [] \<and> threshold < endow_total A + leaf_endow (hd B)"

text \<open>The outcome for a node and for a list of children; \<open>B\<close> stays and \<open>A\<close> goes.\<close>

definition split_ok :: "nat \<Rightarrow> ('v \<Rightarrow> Metadata \<Rightarrow> bool) \<Rightarrow> int \<Rightarrow> 'v node \<Rightarrow> 'v node option \<times> 'v node \<Rightarrow> bool" where
  "split_ok n L threshold t r \<longleftrightarrow> (\<exists>A B s t'. r = (s, t') \<and> leaves t = A @ B \<and> splits_at threshold A B \<and>
     wf_weak n t' \<and> node_prefix t' = node_prefix t \<and> leaves t' = B \<and> meta_ok L t' \<and>
     (case s of None \<Rightarrow> A = []
      | Some u \<Rightarrow> leaves u = A \<and> A \<noteq> [] \<and> node_prefix u = node_prefix t \<and> meta_ok L u \<and> path_loose n (fst (hd B)) u))"

definition split_children_ok ::
  "nat \<Rightarrow> key \<Rightarrow> ('v \<Rightarrow> Metadata \<Rightarrow> bool) \<Rightarrow> int \<Rightarrow> (nib \<times> 'v node) list \<Rightarrow>
   (nib \<times> 'v node) list \<times> (nib \<times> 'v node) list \<times> Metadata \<Rightarrow> bool" where
  "split_children_ok n p L threshold cs r \<longleftrightarrow> (\<exists>A B kept new moved. r = (kept, new, moved) \<and>
     list_leaves cs = A @ B \<and> splits_at threshold A B \<and> moved = sum_list (map leaf_md A) \<and>
     list_leaves kept = B \<and> list_leaves new = A \<and> (new = [] \<longleftrightarrow> A = []) \<and>
     ordered kept \<and> ordered new \<and> fst ` set kept \<subseteq> fst ` set cs \<and> fst ` set new \<subseteq> fst ` set cs \<and>
     (\<forall>x \<in> set kept. wf_node n (snd x) \<and> prefix (p @ [fst x]) (node_prefix (snd x)) \<and> meta_ok L (snd x)) \<and>
     (\<forall>x \<in> set new. prefix (p @ [fst x]) (node_prefix (snd x)) \<and> meta_ok L (snd x) \<and>
        (wf_node n (snd x) \<or> fst x = fst (hd B) ! length p \<and> path_loose n (fst (hd B)) (snd x))))"


lemma split_unchanged:
  assumes "ordered cs" "\<forall>x \<in> set cs. wf_node n (snd x) \<and> prefix (p @ [fst x]) (node_prefix (snd x)) \<and> meta_ok L (snd x)"
    and "splits_at threshold [] (list_leaves cs)"
  shows "split_children_ok n p L threshold cs (cs, [], 0)"
  unfolding split_children_ok_def
  by (rule exI [of _ "[]"], rule exI [of _ "list_leaves cs"]) (use assms in simp)

text \<open>Past the threshold nothing more is taken.\<close>

lemma endow_split_children_rest:
  assumes "sint threshold \<le> sint acc" "\<forall>x \<in> set cs. fst x \<noteq> 0"
  shows "endow_split_children threshold acc cs = Inr (cs, [], 0)"
  using assms by (cases cs) auto

lemma split_consumed:
  assumes "split_children_ok n p L (threshold - endow_total (leaves c)) cs (kept, new, moved)"
    and "ordered ((b, c) # cs)" "wf_node n c" "prefix (p @ [b]) (node_prefix c)" "meta_ok L c"
  shows "split_children_ok n p L threshold ((b, c) # cs) (kept, (b, c) # new, metadata c + moved)"
proof -
  obtain A B where AB: "list_leaves cs = A @ B" "splits_at (threshold - endow_total (leaves c)) A B"
    "moved = sum_list (map leaf_md A)" "list_leaves kept = B" "list_leaves new = A" "new = [] \<longleftrightarrow> A = []"
    "ordered kept" "ordered new" "fst ` set kept \<subseteq> fst ` set cs" "fst ` set new \<subseteq> fst ` set cs"
    "\<forall>x \<in> set kept. wf_node n (snd x) \<and> prefix (p @ [fst x]) (node_prefix (snd x)) \<and> meta_ok L (snd x)"
    "\<forall>x \<in> set new. prefix (p @ [fst x]) (node_prefix (snd x)) \<and> meta_ok L (snd x) \<and>
        (wf_node n (snd x) \<or> fst x = fst (hd B) ! length p \<and> path_loose n (fst (hd B)) (snd x))"
    using assms(1) unfolding split_children_ok_def by blast
  have "ordered ((b, c) # new)" using AB(8,10) assms(2) by fastforce
  moreover have "leaves c \<noteq> []" using assms(3) by (rule leaves_nonempty)
  moreover have "splits_at threshold (leaves c @ A) B" using AB(2) by (simp add: splits_at_def)
  ultimately show ?thesis
    unfolding split_children_ok_def using AB assms(3-5) metadata_leaves [OF assms(5)]
    by (intro exI [of _ "leaves c @ A"] exI [of _ B]) auto
qed

lemma split_inside:
  assumes s: "split_ok n L threshold c (s, c')" and ord: "ordered ((b, c) # cs)" and pre: "prefix (p @ [b]) (node_prefix c)"
    and wf: "wf_node n c" and rest: "\<forall>x \<in> set cs. wf_node n (snd x) \<and> prefix (p @ [fst x]) (node_prefix (snd x)) \<and> meta_ok L (snd x)"
  shows "split_children_ok n p L threshold ((b, c) # cs)
    ((b, contract c') # cs, (case s of None \<Rightarrow> [] | Some u \<Rightarrow> [(b, u)]), (case s of None \<Rightarrow> 0 | Some u \<Rightarrow> metadata u))"
proof -
  obtain A B where AB: "leaves c = A @ B" "splits_at threshold A B" "wf_weak n c'" "node_prefix c' = node_prefix c"
    "leaves c' = B" "meta_ok L c'"
    "case s of None \<Rightarrow> A = []
      | Some u \<Rightarrow> leaves u = A \<and> A \<noteq> [] \<and> node_prefix u = node_prefix c \<and> meta_ok L u \<and> path_loose n (fst (hd B)) u"
    using s unfolding split_ok_def by blast
  have B: "B \<noteq> []" using AB(2) by (simp add: splits_at_def)
  then have "hd B \<in> set (leaves c)" using AB(1) by (cases B) auto
  then have "prefix (p @ [b]) (fst (hd B))" using leaves_prefix [OF wf] pre by (meson prefix_order.trans)
  then have hdb: "fst (hd B) ! length p = b" by (auto simp: prefix_def nth_append)
  note ct = wf_contract [OF AB(3)]
  have pc: "prefix (p @ [b]) (node_prefix (contract c'))" using ct(2) AB(4) pre by (simp add: prefix_order.trans)
  have "splits_at threshold A (B @ list_leaves cs)" using AB(2) B by (simp add: splits_at_def)
  moreover have "hd (B @ list_leaves cs) = hd B" using B by simp
  moreover have "meta_ok L (contract c')" using ct(4) AB(6) by blast
  ultimately show ?thesis
    unfolding split_children_ok_def using AB ord rest pre hdb ct(1,3) pc metadata_leaves
    by (intro exI [of _ A] exI [of _ "B @ list_leaves cs"]) (auto split: option.splits)
qed


abbreviation child_ok :: "nat \<Rightarrow> key \<Rightarrow> ('v \<Rightarrow> Metadata \<Rightarrow> bool) \<Rightarrow> nib \<times> 'v node \<Rightarrow> bool" where
  "child_ok n p L x \<equiv> wf_node n (snd x) \<and> prefix (p @ [fst x]) (node_prefix (snd x)) \<and> meta_ok L (snd x)"

lemma positive_leaves:
  "meta_ok L t \<Longrightarrow> (\<And>v m. L v m \<Longrightarrow> positive_endow v m) \<Longrightarrow> \<forall>x \<in> set (leaves t). 0 < leaf_endow x"
  using leaves_meta [of L t] by blast

text \<open>The loop, given that each child splits correctly.\<close>

lemma endow_split_children_correct:
  assumes L: "\<And>v m. L v m \<Longrightarrow> positive_endow v m"
    and "\<forall>x \<in> set cs. child_ok n p L x" "ordered cs"
    and "\<And>b c thr. (b, c) \<in> set cs \<Longrightarrow> 0 \<le> sint thr \<Longrightarrow> sint thr < endow_total (leaves c) \<Longrightarrow>
      \<exists>r. node_endow_split thr c = Inr r \<and> split_ok n L (sint thr) c r"
    and "0 \<le> sint acc" "sint acc \<le> sint threshold" "sint threshold < sint acc + endow_total (list_leaves cs)"
    and "sint acc + endow_total (list_leaves cs) < 2 ^ 63"
  shows "\<exists>r. endow_split_children threshold acc cs = Inr r \<and> split_children_ok n p L (sint threshold - sint acc) cs r"
  using assms(2-8)
proof (induction cs arbitrary: acc)
  case (Cons x cs)
  obtain b c where x: "x = (b, c)" by force
  have c: "wf_node n c" "prefix (p @ [b]) (node_prefix c)" "meta_ok L c" and rest: "\<forall>x \<in> set cs. child_ok n p L x"
    using Cons.prems(1) x by auto
  have pos: "\<forall>y \<in> set (leaves c). 0 < leaf_endow y" by (rule positive_leaves [OF c(3) L])
  have posr: "\<forall>y \<in> set (list_leaves cs). 0 < leaf_endow y" using rest positive_leaves [of L] L by force
  have nn: "0 \<le> endow_total (leaves c)" "0 \<le> endow_total (list_leaves cs)"
    using endow_total_nonneg [OF pos] endow_total_nonneg [OF posr] by auto
  have lt: "sint acc + (endow_total (leaves c) + endow_total (list_leaves cs)) < 2 ^ 63"
    and thr: "sint threshold < sint acc + (endow_total (leaves c) + endow_total (list_leaves cs))"
    using Cons.prems(6,7) by (simp_all add: x)
  have ec: "sint (endow (metadata c)) = endow_total (leaves c)"
    unfolding metadata_leaves [OF c(3)] by (rule endow_exact [OF pos]) (use lt nn Cons.prems(4) in linarith)
  have fully: "sint (acc + endow (metadata c)) = sint acc + endow_total (leaves c)"
    using sint_add_exact [of acc "endow (metadata c)"] ec lt nn Cons.prems(4) by simp
  have nz: "\<forall>y \<in> set cs. fst y \<noteq> 0" using Cons.prems(2) x by auto
  consider (stop) "b \<noteq> 0 \<and> sint threshold \<le> sint acc"
    | (all) "\<not> (b \<noteq> 0 \<and> sint threshold \<le> sint acc)" "sint acc + endow_total (leaves c) \<le> sint threshold"
    | (part) "\<not> (b \<noteq> 0 \<and> sint threshold \<le> sint acc)" "sint threshold < sint acc + endow_total (leaves c)"
    by linarith
  then show ?case
  proof cases
    case stop
    have "leaves c \<noteq> []" using c(1) by (rule leaves_nonempty)
    then have "splits_at (sint threshold - sint acc) [] (list_leaves (x # cs))"
      using pos Cons.prems(5) stop by (cases "leaves c") (auto simp: splits_at_def x)
    then show ?thesis
      using split_unchanged [OF Cons.prems(2,1)] stop by (simp add: x)
  next
    case all
    obtain kept new moved where r: "endow_split_children threshold (acc + endow (metadata c)) cs = Inr (kept, new, moved)"
      "split_children_ok n p L (sint threshold - sint (acc + endow (metadata c))) cs (kept, new, moved)"
      using Cons.IH [of "acc + endow (metadata c)"] Cons.prems rest fully all lt thr nn x by fastforce
    have "split_children_ok n p L (sint threshold - sint acc) (x # cs) (kept, (b, c) # new, metadata c + moved)"
      unfolding x by (rule split_consumed) (use r(2) fully Cons.prems(2) c x in \<open>simp_all add: algebra_simps\<close>)
    then show ?thesis using all r(1) fully by (auto simp: x Let_def)
  next
    case part
    have sub: "sint (threshold - acc) = sint threshold - sint acc"
      using sint_sub_exact [of threshold acc] Cons.prems(4,5) lt thr by simp
    obtain s c' where r: "node_endow_split (threshold - acc) c = Inr (s, c')" "split_ok n L (sint threshold - sint acc) c (s, c')"
      using Cons.prems(3) [of b c "threshold - acc"] part(2) Cons.prems(5) sub x by fastforce
    have "endow_split_children threshold (acc + endow (metadata c)) cs = Inr (cs, [], 0)"
      using part(2) fully by (intro endow_split_children_rest nz) simp
    moreover have "split_children_ok n p L (sint threshold - sint acc) (x # cs)
        ((b, contract c') # cs, (case s of None \<Rightarrow> [] | Some u \<Rightarrow> [(b, u)]), (case s of None \<Rightarrow> 0 | Some u \<Rightarrow> metadata u))"
      unfolding x by (rule split_inside [OF r(2)]) (use Cons.prems(2) c rest x in simp_all)
    ultimately show ?thesis using part r(1) fully by (cases s) (auto simp: x Let_def)
  qed
qed simp

lemma node_endow_split_correct:
  assumes L: "\<And>v m. L v m \<Longrightarrow> positive_endow v m"
  shows "wf_node n t \<Longrightarrow> meta_ok L t \<Longrightarrow> 0 \<le> sint threshold \<Longrightarrow> sint threshold < endow_total (leaves t) \<Longrightarrow>
    endow_total (leaves t) < 2 ^ 63 \<Longrightarrow> \<exists>r. node_endow_split threshold t = Inr r \<and> split_ok n L (sint threshold) t r"
proof (induction t arbitrary: threshold rule: node_induct)
  case (Leaf p v m h)
  then show ?case
    by (auto simp: split_ok_def splits_at_def wf_weak_def intro!: exI [of _ "[]"])
next
  case (Inner p cs m h)
  note wf = Inner.prems(1) and mok = Inner.prems(2)
  have pos: "\<forall>y \<in> set (leaves (Inner p cs m h)). 0 < leaf_endow y" by (rule positive_leaves [OF mok L])
  have em: "sint (endow m) = endow_total (leaves (Inner p cs m h))"
    using endow_exact [OF pos Inner.prems(5)] metadata_leaves [OF mok] by simp
  have ok: "\<forall>x \<in> set cs. child_ok n p L x" "ordered cs" "cs \<noteq> []" "length p < n" using wf mok by auto
  have IH: "\<exists>r. node_endow_split thr c = Inr r \<and> split_ok n L (sint thr) c r"
    if bc: "(b, c) \<in> set cs" and thr: "0 \<le> sint thr" "sint thr < endow_total (leaves c)" for b c thr
  proof -
    obtain xs ys where "leaves (Inner p cs m h) = xs @ leaves c @ ys"
      using split_list [OF bc] by auto
    moreover from this have "0 \<le> endow_total xs" "0 \<le> endow_total ys" using pos by (auto intro: endow_total_nonneg)
    ultimately have "endow_total (leaves c) < 2 ^ 63" using Inner.prems(5) by simp
    then show ?thesis using Inner.IH [OF bc _ _ thr] ok(1) bc by auto
  qed
  have "\<exists>r. endow_split_children threshold 0 cs = Inr r \<and> split_children_ok n p L (sint threshold - sint (0 :: i64)) cs r"
  proof (rule endow_split_children_correct [OF _ ok(1,2)])
    show "positive_endow v m" if "L v m" for v m by (rule L [OF that])
    show "\<exists>r. node_endow_split thr c = Inr r \<and> split_ok n L (sint thr) c r"
      if "(b, c) \<in> set cs" "0 \<le> sint thr" "sint thr < endow_total (leaves c)" for b c thr by (rule IH [OF that])
  qed (use Inner.prems(3-5) in simp_all)
  then obtain kept new moved where r: "endow_split_children threshold 0 cs = Inr (kept, new, moved)"
    "split_children_ok n p L (sint threshold) cs (kept, new, moved)" by auto
  obtain A B where AB: "list_leaves cs = A @ B" "splits_at (sint threshold) A B"
    "moved = sum_list (map leaf_md A)" "list_leaves kept = B" "list_leaves new = A" "new = [] \<longleftrightarrow> A = []"
    "ordered kept" "ordered new"
    "\<forall>x \<in> set kept. child_ok n p L x"
    "\<forall>x \<in> set new. prefix (p @ [fst x]) (node_prefix (snd x)) \<and> meta_ok L (snd x) \<and>
        (wf_node n (snd x) \<or> fst x = fst (hd B) ! length p \<and> path_loose n (fst (hd B)) (snd x))"
    using r(2) unfolding split_children_ok_def by blast
  have sums: "(\<Sum>(b, c) \<leftarrow> ds. metadata c) = sum_list (map leaf_md (list_leaves ds))"
    if "\<forall>x \<in> set ds. meta_ok L (snd x)" for ds
    unfolding sum_list_concat map_map
    by (rule arg_cong [of _ _ sum_list]) (use that metadata_leaves [of L] in \<open>auto simp: case_prod_unfold\<close>)
  have "m = sum_list (map leaf_md (A @ B))" using metadata_leaves [OF mok] AB(1) by simp
  then have mB: "m - moved = (\<Sum>(b, c) \<leftarrow> kept. metadata c)" using sums [of kept] AB(3,4,9) by simp
  have B: "B \<noteq> []" "kept \<noteq> []" using AB(2) AB(4) [symmetric] by (auto simp only: splits_at_def list.map concat.simps)
  have "hd B \<in> set (A @ B)" using B(1) by simp
  then have "hd B \<in> set (leaves (Inner p cs m h))" unfolding leaves.simps AB(1) .
  from leaves_prefix [OF wf this] have pB: "prefix p (fst (hd B))" by simp
  let ?new = "Inner p new (\<Sum>(b, c) \<leftarrow> new. metadata c) None"
  have "split_ok n L (sint threshold) (Inner p cs m h) (if new = [] then None else Some ?new, Inner p kept (m - moved) None)"
    unfolding split_ok_def
  proof (rule exI [of _ A], rule exI [of _ B], rule exI [of _ "if new = [] then None else Some ?new"],
      rule exI [of _ "Inner p kept (m - moved) None"], intro conjI)
    show "leaves (Inner p cs m h) = A @ B" using AB(1) by simp
    show "splits_at (sint threshold) A B" by (rule AB(2))
    show "wf_weak n (Inner p kept (m - moved) None)" using AB(7,9) B(2) ok(4) by (simp add: wf_weak_def)
    show "leaves (Inner p kept (m - moved) None) = B" using AB(4) by simp
    show "meta_ok L (Inner p kept (m - moved) None)" using mB AB(9) by simp
    have "path_loose n (fst (hd B)) ?new" if "new \<noteq> []" using AB(8,10) ok(4) pB that by simp
    then show "case if new = [] then None else Some ?new of None \<Rightarrow> A = []
      | Some u \<Rightarrow> leaves u = A \<and> A \<noteq> [] \<and> node_prefix u = node_prefix (Inner p cs m h) \<and> meta_ok L u \<and> path_loose n (fst (hd B)) u"
      using AB(5,6,10) by (simp del: path_loose.simps)
  qed simp_all
  moreover have "node_endow_split threshold (Inner p cs m h) = Inr (if new = [] then None else Some ?new, Inner p kept (m - moved) None)"
    using ok(3) em Inner.prems(3,4) r(1) by simp
  ultimately show ?case by blast
qed


section \<open>Correctness of the clean-up\<close>

lemma wf_node_not_single: "wf_node n t \<Longrightarrow> \<not> single_child t"
  by (cases t) (auto simp: single_child_def)

lemma contract_chain_wf [simp]: "wf_node n t \<Longrightarrow> contract_chain t = t"
  using wf_node_not_single [of n t] by (simp add: contract_chain.simps)

text \<open>The same leaves below the same prefix.\<close>

definition same_leaves :: "'v node \<Rightarrow> 'v node \<Rightarrow> bool" where
  "same_leaves t t' \<longleftrightarrow> prefix (node_prefix t) (node_prefix t') \<and> leaves t' = leaves t \<and>
     (\<forall>L. meta_ok L t \<longrightarrow> meta_ok L t' \<and> metadata t' = metadata t)"

lemma same_leaves_refl [simp]: "same_leaves t t"
  by (simp add: same_leaves_def)

lemma same_leaves_trans: "same_leaves t u \<Longrightarrow> same_leaves u v \<Longrightarrow> same_leaves t v"
  by (force simp: same_leaves_def)

lemma contract_chain_loose:
  "path_loose n k t \<Longrightarrow> same_leaves t (contract_chain t) \<and> \<not> single_child (contract_chain t) \<and>
     (wf_node n (contract_chain t) \<or> path_loose n k (contract_chain t))"
proof (induction t rule: contract_chain.induct)
  case (1 t)
  show ?case
  proof (cases "single_child t")
    case True
    then obtain p b c m h where t: "t = Inner p [(b, c)] m h" and ct: "contract t = c"
      using contract_cases [of t] by blast
    have sl: "same_leaves t c" using 1(2) by (auto simp: same_leaves_def t dest: append_prefixD)
    consider "wf_node n c" | "path_loose n k c" using 1(2) by (auto simp: t)
    then show ?thesis
    proof cases
      case 1
      then have "\<not> single_child c" by (cases c) (auto simp: single_child_def)
      then show ?thesis using 1 sl True by (simp add: contract_chain.simps [of t] ct)
    next
      case 2
      then show ?thesis
        using "1.IH" [OF True] sl True unfolding contract_chain.simps [of t] ct by (auto intro: same_leaves_trans)
    qed
  next
    case False
    then show ?thesis using 1(2) by (simp add: contract_chain.simps [of t])
  qed
qed

lemma clean_wf: "wf_node n t \<Longrightarrow> length k = n \<Longrightarrow> node_clean_singlechild k t = Inr t"
proof (induction t rule: node_induct)
  case (Inner p cs m h)
  have "map (\<lambda>(b, c). (b, contract_chain c)) cs = cs" using Inner.prems(1) by (intro map_idI) auto
  moreover have "child_emplace b c cs = cs" if "child_find b cs = Some c" for b c
  proof -
    have "map (\<lambda>(b', c'). (b', if b' = b then c else c')) cs = cs"
    proof (intro map_idI)
      fix x assume x: "x \<in> set cs"
      then have "fst x = b \<Longrightarrow> snd x = c"
        using x that Inner.prems(1) child_find_in [of cs "fst x" "snd x"] by (cases x) auto
      then show "(case x of (b', c') \<Rightarrow> (b', if b' = b then c else c')) = x" by (cases x) auto
    qed
    then show ?thesis using that Inner.prems(1) by (simp add: child_emplace_map)
  qed
  moreover have "node_clean_singlechild k c = Inr c" if "child_find b cs = Some c" for b c
    using Inner.IH [of b c] that Inner.prems by (auto simp: child_find_in)
  ultimately show ?case using Inner.prems by (auto simp: branch_bits_def Let_def split: option.split)
qed simp


lemma wf_weak_not_single: "wf_weak n t \<Longrightarrow> \<not> single_child t \<Longrightarrow> wf_node n t"
  by (cases t; cases "children t"; cases "tl (children t)") (auto simp: wf_weak_def single_child_def)

lemma same_leaves_children:
  assumes "\<And>b c. (b, c) \<in> set cs \<Longrightarrow> same_leaves c (g b c)"
  shows "same_leaves (Inner p cs m h) (Inner p (map (\<lambda>(b, c). (b, g b c)) cs) m h')"
proof -
  let ?ds = "map (\<lambda>(b, c). (b, g b c)) cs"
  have lv: "map (\<lambda>(b, c). leaves c) ?ds = map (\<lambda>(b, c). leaves c) cs"
    using assms by (auto simp: same_leaves_def)
  have mok: "meta_ok L (Inner p ?ds m h')" if L: "meta_ok L (Inner p cs m h)" for L
  proof -
    have c: "meta_ok L (g b c) \<and> metadata (g b c) = metadata c" if "(b, c) \<in> set cs" for b c
      using assms [OF that] L that by (auto simp: same_leaves_def)
    then have "map (\<lambda>(b, c). metadata c) ?ds = map (\<lambda>(b, c). metadata c) cs" by auto
    moreover have "\<forall>x \<in> set ?ds. meta_ok L (snd x)" using c by auto
    ultimately show ?thesis using L by (simp only: meta_ok.simps)
  qed
  have "leaves (Inner p ?ds m h') = leaves (Inner p cs m h)" by (simp only: leaves.simps lv)
  with mok show ?thesis unfolding same_leaves_def node.sel by blast
qed

text \<open>The clean-up along the path of \<open>k\<close> restores the shape, keeping leaves, metadata and prefix.\<close>

lemma clean_loose:
  "path_loose n k t \<Longrightarrow> length k = n \<Longrightarrow>
   \<exists>t'. node_clean_singlechild k t = Inr t' \<and> wf_weak n t' \<and> node_prefix t' = node_prefix t \<and>
     same_leaves t t' \<and> length (children t') = length (children t)"
proof (induction "size t" arbitrary: t rule: less_induct)
  case less
  show ?case
  proof (cases t)
    case (Leaf p v m h)
    then show ?thesis using less.prems by (simp add: wf_weak_def)
  next
    case (Inner p cs m h)
    define cs' where "cs' = map (\<lambda>(b, c). (b, contract_chain c)) cs"
    have pl: "length p < n" "cs \<noteq> []" "ordered cs" "prefix p k"
      "\<And>b c. (b, c) \<in> set cs \<Longrightarrow> prefix (p @ [b]) (node_prefix c) \<and>
         (wf_node n c \<or> b = k ! length p \<and> path_loose n k c)"
      using less.prems(1) Inner by auto
    have bb: "branch_bits k (length p) = Inr (k ! length p)" using pl(1) less.prems(2) by (simp add: branch_bits_def)
    have chain: "same_leaves c (contract_chain c)" "\<not> single_child (contract_chain c)"
      "wf_node n (contract_chain c) \<or> b = k ! length p \<and> path_loose n k (contract_chain c)" if "(b, c) \<in> set cs" for b c
      using contract_chain_loose [of n k c] pl(5) [OF that] wf_node_not_single [of n c] by auto
    define g where "g b c = (if b = k ! length p then projr (node_clean_singlechild k (contract_chain c)) else contract_chain c)"
      for b and c :: "'a node"
    have path: "node_clean_singlechild k (contract_chain c) = Inr (g b c) \<and> wf_node n (g b c) \<and> same_leaves c (g b c)"
      if bc: "(b, c) \<in> set cs" and b: "b = k ! length p" for b c
    proof (cases "wf_node n (contract_chain c)")
      case True
      then show ?thesis using clean_wf [OF True less.prems(2)] chain(1) [OF bc] b by (simp add: g_def)
    next
      case False
      then have "path_loose n k (contract_chain c)" using chain(3) [OF bc] by blast
      moreover have "size (contract_chain c) < size t"
        using size_contract_chain [of c] child_size [OF bc, of p m h] Inner by simp
      ultimately obtain t' where t': "node_clean_singlechild k (contract_chain c) = Inr t'" "wf_weak n t'"
        "same_leaves (contract_chain c) t'" "length (children t') = length (children (contract_chain c))"
        using less.hyps less.prems(2) by blast
      then have "wf_node n t'" using chain(2) [OF bc] by (intro wf_weak_not_single) (simp_all add: single_child_def)
      then show ?thesis using t' chain(1) [OF bc] b by (auto simp: g_def intro: same_leaves_trans)
    qed
    have g: "wf_node n (g b c) \<and> same_leaves c (g b c)" if "(b, c) \<in> set cs" for b c
      using path [OF that] chain [OF that] by (cases "b = k ! length p") (auto simp: g_def)
    let ?t' = "Inner p (map (\<lambda>(b, c). (b, g b c)) cs) m h"
    have eq: "node_clean_singlechild k t = Inr ?t'"
    proof (cases "child_find (k ! length p) cs'")
      case None
      then have "\<forall>x \<in> set cs. fst x \<noteq> k ! length p" by (force simp: cs'_def child_find_None)
      then have "cs' = map (\<lambda>(b, c). (b, g b c)) cs" by (auto simp: cs'_def g_def)
      then show ?thesis using None bb Inner by (simp add: Let_def cs'_def)
    next
      case (Some d)
      have ord': "ordered cs'" using pl(3) by (simp add: cs'_def ordered_map_snd)
      then obtain c where c: "(k ! length p, c) \<in> set cs" "d = contract_chain c"
        using Some by (auto simp: child_find_in) (auto simp: cs'_def)
      have "c' = c" if "(k ! length p, c') \<in> set cs" for c'
        using that c(1) pl(3) by (metis child_find_in option.inject)
      then have "map (\<lambda>(b', c'). (b', if b' = k ! length p then g (k ! length p) c else c')) cs' = map (\<lambda>(b, c). (b, g b c)) cs"
        unfolding cs'_def map_map by (auto simp: g_def)
      then have "child_emplace (k ! length p) (g (k ! length p) c) cs' = map (\<lambda>(b, c). (b, g b c)) cs"
        using Some ord' by (simp add: child_emplace_map)
      then show ?thesis using Some bb Inner path [OF c(1) refl] c(2) by (simp add: Let_def cs'_def)
    qed
    have "prefix (p @ [b]) (node_prefix (g b c))" if "(b, c) \<in> set cs" for b c
      using g [OF that] pl(5) [OF that] prefix_order.trans unfolding same_leaves_def by blast
    then have "wf_weak n ?t'" using pl(1-3) g by (auto simp: wf_weak_def ordered_map_snd)
    moreover have "same_leaves t ?t'" unfolding Inner by (rule same_leaves_children) (use g in blast)
    ultimately show ?thesis using eq Inner by simp
  qed
qed

end
