(* ===== verification/Trie_Cache.thy ===== *)
theory Trie_Cache
  imports Trie_Hash Trie_Merge Trie_Split
begin

text \<open>
  The cached hashes stay right under the operations that change a trie, and the root hash binds the
  contents: two tries with the same hash have the same contents, or SHA-256 has a collision.
\<close>

section \<open>Invalidation\<close>

lemma set_child_emplace_subset: "set (child_emplace b c cs) \<subseteq> insert (b, c) (set cs)"
  by (induction b c cs rule: child_emplace.induct) auto

lemma cache_emplace:
  "\<forall>x \<in> set cs. cache_ok E ign (snd x) \<Longrightarrow> cache_ok E ign c \<Longrightarrow> cache_ok E ign (Inner p (child_emplace b c cs) m None)"
  using set_child_emplace_subset [of b c cs] by fastforce

lemma cache_invalidate [simp]: "cache_ok E ign t \<Longrightarrow> cache_ok E ign (invalidate_hash t)"
  by (cases t) (auto simp: invalidate_hash_def)

lemma cache_move [simp]: "cache_ok E ign t \<Longrightarrow> cache_ok E ign (move_contents_to_new_node t)"
  by (simp add: move_contents_to_new_node_def)

lemma cache_children: "cache_ok E ign t \<Longrightarrow> \<forall>x \<in> set (children t). cache_ok E ign (snd x)"
  by (cases t) auto

lemma cache_find: "cache_ok E ign t \<Longrightarrow> child_find b (children t) = Some c \<Longrightarrow> cache_ok E ign c"
  using cache_children [of E ign t] by (auto simp: child_find_def dest!: map_of_SomeD)

lemma cache_contract: "cache_ok E ign t \<Longrightarrow> cache_ok E ign (contract t)"
  using contract_cases [of t] by (elim disjE exE conjE) simp_all

lemma cache_split_insert:
  "split_insert F data leaf t = Inr (t', d) \<Longrightarrow> cache_ok E ign t \<Longrightarrow> cache_ok E ign t'"
  by (auto simp: split_insert_def Let_def make_value_leaf_def split: if_splits)

lemma cache_node_insert:
  "node_insert F data leaf t = Inr (t', d) \<Longrightarrow> cache_ok E ign t \<Longrightarrow> cache_ok E ign t'"
proof (induction t arbitrary: t' d rule: node_induct)
  case (Leaf p v m h)
  then show ?case using cache_split_insert [of F data leaf "Leaf p v m h"]
    by (auto simp: Let_def split: if_splits prod.splits)
next
  case (Inner p cs m h)
  have cs: "\<forall>x \<in> set cs. cache_ok E ign (snd x)" using Inner.prems(2) by simp
  show ?case
  proof (cases "cs = [] \<or> prefix_match p data \<noteq> length p")
    case True
    then consider "split_insert F data leaf (Inner p cs m h) = Inr (t', d)" | v m' where "t' = Leaf data v m' None"
      using Inner.prems(1) by (cases "cs = []"; cases "p = []") (auto simp: Let_def split: if_splits)
    then show ?thesis using Inner.prems(2) by cases (auto intro: cache_split_insert)
  next
    case False
    then have "length cs \<noteq> 1" using Inner.prems(1) by (simp split: if_splits)
    then have eq: "res_bind (branch_bits data (length p)) (\<lambda>bb.
        case child_find bb cs of
          Some child \<Rightarrow> res_bind (node_insert F data leaf child) (\<lambda>(child', delta).
            Inr (Inner p (child_emplace bb child' cs) (m + delta) None, delta))
        | None \<Rightarrow> let new_child = make_value_leaf F data leaf
            in Inr (Inner p (child_emplace bb new_child cs) (m + metadata new_child) None, metadata new_child)) = Inr (t', d)"
      using Inner.prems(1) False by simp
    then obtain b where b: "branch_bits data (length p) = Inr b" by auto
    show ?thesis
    proof (cases "child_find b cs")
      case None
      then have "t' = Inner p (child_emplace b (make_value_leaf F data leaf) cs) (m + d) None"
        using eq b by (simp add: Let_def) blast
      moreover have "cache_ok E ign (make_value_leaf F data leaf)" by (simp add: make_value_leaf_def)
      ultimately show ?thesis using cache_emplace [OF cs] by simp
    next
      case (Some c)
      then obtain c' where c': "node_insert F data leaf c = Inr (c', d)" "t' = Inner p (child_emplace b c' cs) (m + d) None"
        using eq b by auto
      have mem: "(b, c) \<in> set cs" using Some by (auto simp: child_find_def dest: map_of_SomeD)
      then have "cache_ok E ign c'" using Inner.IH [OF mem c'(1)] cs by force
      then show ?thesis using cache_emplace [OF cs] c'(2) by simp
    qed
  qed
qed

lemma cache_merge_join:
  "merge_join t u = Inr (t', d) \<Longrightarrow> cache_ok E ign t \<Longrightarrow> cache_ok E ign u \<Longrightarrow> cache_ok E ign t'"
  by (auto simp: merge_join_def Let_def)

lemma cache_fold_emplace:
  assumes "\<forall>(b, c, d) \<in> set rs. cache_ok E ign c" "\<forall>x \<in> set cs. cache_ok E ign (snd x)"
  shows "\<forall>x \<in> set (fold (\<lambda>(b, c, d). child_emplace b c) rs cs). cache_ok E ign (snd x)"
  using assms
proof (induction rs arbitrary: cs)
  case (Cons r rs)
  obtain b c d where r: "r = (b, c, d)" by (cases r)
  have "\<forall>x \<in> set (child_emplace b c cs). cache_ok E ign (snd x)"
    using Cons.prems set_child_emplace_subset [of b c cs] unfolding r by auto
  from Cons.IH [OF _ this] show ?case using Cons.prems(1) by (simp add: r)
qed simp

lemma cache_merge:
  "node_merge_in M t u = Inr (t', d) \<Longrightarrow> cache_ok E ign t \<Longrightarrow> cache_ok E ign u \<Longrightarrow> cache_ok E ign t'"
proof (induction M t u arbitrary: t' d rule: node_merge_in.induct)
  case (1 M p v m h q w m' h')
  then show ?case by (auto simp: Let_def split_beta dest: cache_merge_join split: if_splits)
next
  case (2 M p cs m h other)
  note IH = "2.IH"
  have cs: "\<forall>x \<in> set cs. cache_ok E ign (snd x)" using "2.prems"(2) by simp
  have ds: "\<forall>x \<in> set (children other). cache_ok E ign (snd x)" using cache_children [OF "2.prems"(3)] .
  have ne: "\<not> (cs = [] \<and> p = [])" using "2.prems"(1) by auto
  let ?q = "node_prefix other"
  consider (same) "prefix_match p ?q = length p" "length p = length ?q"
    | (below) "prefix_match p ?q = length p" "length p \<noteq> length ?q"
    | (above) "prefix_match p ?q \<noteq> length p" "prefix_match p ?q = length ?q"
    | (join) "prefix_match p ?q \<noteq> length p" "prefix_match p ?q \<noteq> length ?q" by blast
  then show ?case
  proof cases
    case same
    define f where "f = (\<lambda>(b, d). case child_find b cs of None \<Rightarrow> Inr (b, d, metadata d)
      | Some c \<Rightarrow> res_bind (node_merge_in M c d) (\<lambda>r. Inr (b, r)))"
    obtain rs where rs: "res_map f (children other) = Inr rs" "t' = Inner p (fold (\<lambda>(b, c, d). child_emplace b c) rs cs) (m + d) None"
      using "2.prems"(1) ne same by (auto simp: Let_def f_def)
    have "cache_ok E ign (fst (snd r))" if r: "r \<in> set rs" for r
    proof -
      obtain x where x: "x \<in> set (children other)" "f x = Inr r" using res_map_mem [OF rs(1) r] by blast
      obtain b e where be: "x = (b, e)" by (cases x)
      have e: "cache_ok E ign e" using ds x(1) be by auto
      show ?thesis
      proof (cases "child_find b cs")
        case None
        then show ?thesis using x(2) e by (auto simp: f_def be)
      next
        case (Some c)
        then obtain c' d' where c': "node_merge_in M c e = Inr (c', d')" "r = (b, c', d')" using x(2) by (auto simp: f_def be)
        have "cache_ok E ign c" using cs Some by (auto simp: child_find_def dest!: map_of_SomeD)
        then show ?thesis using IH(1) [OF ne _ x(1) be [symmetric] Some c'(1) _ e] same c'(2) by auto
      qed
    qed
    then have "\<forall>(b, c, d) \<in> set rs. cache_ok E ign c" by auto
    from cache_fold_emplace [OF this cs] show ?thesis by (simp add: rs(2))
  next
    case below
    obtain bb where bb: "branch_bits ?q (length p) = Inr bb" using "2.prems"(1) ne below by (cases "branch_bits ?q (length p)") auto
    show ?thesis
    proof (cases "child_find bb cs")
      case None
      then show ?thesis using "2.prems" ne below bb cache_emplace [OF cs, of other] by auto
    next
      case (Some c)
      then obtain c' where c': "node_merge_in M c other = Inr (c', d)" "t' = Inner p (child_emplace bb c' cs) (m + d) None"
        using "2.prems"(1) ne below bb by auto
      have "cache_ok E ign c" using cs Some by (auto simp: child_find_def dest!: map_of_SomeD)
      then have "cache_ok E ign c'" using IH(2) [OF ne _ _ bb Some c'(1) _ "2.prems"(3)] below by auto
      then show ?thesis unfolding c'(2) by (rule cache_emplace [OF cs])
    qed
  next
    case above
    let ?o = "move_contents_to_new_node (Inner p cs m h)"
    have o: "cache_ok E ign ?o" using "2.prems"(2) by simp
    obtain bb where bb: "branch_bits p (length ?q) = Inr bb" using "2.prems"(1) ne above by (cases "branch_bits p (length ?q)") auto
    show ?thesis
    proof (cases "child_find bb (children other)")
      case None
      then have "t' = Inner ?q (child_emplace bb ?o (children other)) (metadata other + m) None" using "2.prems"(1) ne above bb by auto
      then show ?thesis using cache_emplace [OF ds o] by simp
    next
      case (Some e)
      then obtain c' d' where c': "node_merge_in M ?o e = Inr (c', d')" "\<exists>m'. t' = Inner ?q (child_emplace bb c' (children other)) m' None"
        using "2.prems"(1) ne above bb by (auto simp: Let_def)
      have "cache_ok E ign e" using ds Some by (auto simp: child_find_def dest!: map_of_SomeD)
      then have "cache_ok E ign c'" using IH(3) [OF ne _ _ _ refl bb Some c'(1) o] above by auto
      then show ?thesis using c'(2) cache_emplace [OF ds] by auto
    qed
  next
    case join
    then show ?thesis using "2.prems" ne by (auto dest: cache_merge_join)
  qed
next
  case (3 M p v m h q ds m' h')
  let ?o = "move_contents_to_new_node (Leaf p v m h)"
  have ds: "\<forall>x \<in> set ds. cache_ok E ign (snd x)" using "3.prems"(3) by simp
  have o: "cache_ok E ign ?o" using "3.prems"(2) by simp
  show ?case
  proof (cases "prefix_match p q = length q")
    case False
    then show ?thesis using "3.prems" by (auto dest: cache_merge_join)
  next
    case True
    obtain bb where bb: "branch_bits p (length q) = Inr bb" using "3.prems"(1) True by (cases "branch_bits p (length q)") auto
    show ?thesis
    proof (cases "child_find bb ds")
      case None
      then have "t' = Inner q (child_emplace bb ?o ds) (m' + m) None" using "3.prems"(1) True bb by auto
      then show ?thesis using cache_emplace [OF ds o] by simp
    next
      case (Some e)
      then obtain c' d' where c': "node_merge_in M ?o e = Inr (c', d')" "\<exists>m'. t' = Inner q (child_emplace bb c' ds) m' None"
        using "3.prems"(1) True bb by (auto simp: Let_def)
      have "cache_ok E ign e" using ds Some by (auto simp: child_find_def dest!: map_of_SomeD)
      then have "cache_ok E ign c'" using "3.IH" [OF True refl bb Some c'(1) o] by auto
      then show ?thesis using c'(2) cache_emplace [OF ds] by auto
    qed
  qed
qed

lemma cache_prune:
  "prune cnt msg t = Inr (r, t', out) \<Longrightarrow> cache_ok E ign t \<Longrightarrow> cache_ok E ign t'"
proof (induction t arbitrary: r t' out rule: node_induct)
  case (Leaf p v m h)
  then show ?case by (auto split: if_splits)
next
  case (Inner p cs m h)
  show ?case
  proof (cases "cnt m = 0")
    case False
    then obtain rs where rs: "res_map (\<lambda>(b, c). res_bind (prune cnt msg c) (\<lambda>r. Inr (b, r))) cs = Inr rs"
      and t': "\<exists>m'. t' = Inner p (concat (map keep_child rs)) m' None"
      using Inner.prems(1) by (auto simp: Let_def)
    have "cache_ok E ign (fst (snd (snd x)))" if x: "x \<in> set rs" for x
    proof -
      obtain b c where bc: "(b, c) \<in> set cs" and "res_bind (prune cnt msg c) (\<lambda>r. Inr (b, r)) = Inr x"
        using res_map_mem [OF rs x] by auto
      then have "prune cnt msg c = Inr (fst (snd x), fst (snd (snd x)), snd (snd (snd x)))" by auto
      then show ?thesis by (rule Inner.IH [OF bc]) (use Inner.prems(2) bc in force)
    qed
    then have "\<forall>x \<in> set (concat (map keep_child rs)). cache_ok E ign (snd x)"
      by (auto simp: keep_child_def intro!: cache_contract split: if_splits)
    then show ?thesis using t' by auto
  qed (use Inner.prems in auto)
qed


lemma child_emplace_same: "ordered cs \<Longrightarrow> child_find b cs = Some c \<Longrightarrow> child_emplace b c cs = cs"
proof -
  assume ord: "ordered cs" and find: "child_find b cs = Some c"
  have "map (\<lambda>(b', c'). (b', if b' = b then c else c')) cs = cs"
  proof (intro map_idI)
    fix x assume x: "x \<in> set cs"
    then have "fst x = b \<Longrightarrow> snd x = c"
      using find ord child_find_in [of cs "fst x" "snd x"] by (cases x) auto
    then show "(case x of (b', c') \<Rightarrow> (b', if b' = b then c else c')) = x" by (cases x) auto
  qed
  then show ?thesis using ord find by (simp add: child_emplace_map)
qed

lemma cache_mark:
  "node_mark_for_deletion k t = Inr ((d, obj), t') \<Longrightarrow> cache_ok E ign t \<Longrightarrow> cache_ok E ign t'"
proof (induction t arbitrary: d obj t' rule: node_induct)
  case (Leaf p v m h)
  then show ?case by (auto simp: compare_exchange_deleted_def split: if_splits)
next
  case (Inner p cs m h)
  have cs: "\<forall>x \<in> set cs. cache_ok E ign (snd x)" using Inner.prems(2) by simp
  consider "t' = Inner p cs m h"
    | b c c' where "child_find b cs = Some c" "node_mark_for_deletion k c = Inr ((d, obj), c')"
        "t' = Inner p (child_emplace b c' cs) (m + d) None"
    using Inner.prems(1) by (auto split: if_splits option.splits)
  then show ?case
  proof cases
    case 2
    have mem: "(b, c) \<in> set cs" using 2(1) by (auto simp: child_find_def dest: map_of_SomeD)
    have "cache_ok E ign c'" using Inner.IH [OF mem 2(2)] cs mem by force
    then show ?thesis using cache_emplace [OF cs] 2(3) by simp
  qed (use Inner.prems(2) in simp)
qed

text \<open>Nothing changes when there is nothing to unmark or delete.\<close>

lemma unmark_none:
  "wf_node n t \<Longrightarrow> node_unmark_for_deletion k t = Inr ((d, None), t') \<Longrightarrow> d = 0 \<and> t' = t"
proof (induction t arbitrary: d t' rule: node_induct)
  case (Leaf p v m h)
  then show ?case by (auto simp: compare_exchange_deleted_def deleted_metadata_0 split: if_splits)
next
  case (Inner p cs m h)
  consider "d = 0 \<and> t' = Inner p cs m h"
    | b c c' where "child_find b cs = Some c" "node_unmark_for_deletion k c = Inr ((d, None), c')"
        "t' = Inner p (child_emplace b c' cs) (m + d) h"
    using Inner.prems(2) by (auto split: if_splits option.splits)
  then show ?case
  proof cases
    case 2
    have mem: "(b, c) \<in> set cs" using 2(1) by (auto simp: child_find_def dest: map_of_SomeD)
    have "d = 0" "c' = c" using Inner.IH [OF mem _ 2(2)] Inner.prems(1) mem by auto
    then show ?thesis using 2 Inner.prems(1) by (simp add: child_emplace_same)
  qed simp
qed

lemma cache_unmark:
  "wf_node n t \<Longrightarrow> node_unmark_for_deletion k t = Inr ((d, obj), t') \<Longrightarrow> cache_ok E ign t \<Longrightarrow> cache_ok E ign t'"
proof (induction t arbitrary: d obj t' rule: node_induct)
  case (Leaf p v m h)
  then show ?case by (auto simp: compare_exchange_deleted_def split: if_splits)
next
  case (Inner p cs m h)
  show ?case
  proof (cases obj)
    case None
    then show ?thesis using unmark_none [OF Inner.prems(1)] Inner.prems(2,3) by blast
  next
    case (Some v)
    have cs: "\<forall>x \<in> set cs. cache_ok E ign (snd x)" using Inner.prems(3) by simp
    obtain b c c' where c: "child_find b cs = Some c" "node_unmark_for_deletion k c = Inr ((d, obj), c')"
        "t' = Inner p (child_emplace b c' cs) (m + d) None"
      using Inner.prems(2) Some by (auto split: if_splits option.splits)
    have mem: "(b, c) \<in> set cs" using c(1) by (auto simp: child_find_def dest: map_of_SomeD)
    have "cache_ok E ign c'" using Inner.IH [OF mem _ c(2)] Inner.prems(1) cs mem by force
    then show ?thesis using cache_emplace [OF cs] c(3) by simp
  qed
qed

lemma deletion_none:
  "wf_node n t \<Longrightarrow> node_perform_deletion k t = Inr ((e, None, d), t') \<Longrightarrow> \<not> e \<and> d = 0 \<and> t' = t"
proof (induction t arbitrary: e d t' rule: node_induct)
  case (Leaf p v m h)
  then show ?case by (auto split: if_splits)
next
  case (Inner p cs m h)
  consider "\<not> e \<and> d = 0 \<and> t' = Inner p cs m h"
    | b c c' e' where "\<not> e" "child_find b cs = Some c" "node_perform_deletion k c = Inr ((e', None, d), c')"
        "t' = Inner p (if e' then child_erase b cs else child_emplace b (contract c') cs) (m + d) h"
    using Inner.prems(2) by (auto simp: Let_def split: if_splits option.splits)
  then show ?case
  proof cases
    case 2
    have mem: "(b, c) \<in> set cs" using 2(2) by (auto simp: child_find_def dest: map_of_SomeD)
    have wfc: "wf_node n c" using Inner.prems(1) mem by auto
    have "\<not> e'" "d = 0" "c' = c" using Inner.IH [OF mem wfc 2(3)] by auto
    then show ?thesis using 2 Inner.prems(1) by (simp add: contract_wf [OF wfc] child_emplace_same)
  qed simp
qed

lemma cache_deletion:
  "wf_node n t \<Longrightarrow> node_perform_deletion k t = Inr ((e, obj, d), t') \<Longrightarrow> cache_ok E ign t \<Longrightarrow> cache_ok E ign t'"
proof (induction t arbitrary: e obj d t' rule: node_induct)
  case (Leaf p v m h)
  then show ?case by (auto split: if_splits)
next
  case (Inner p cs m h)
  show ?case
  proof (cases obj)
    case None
    then show ?thesis using deletion_none [OF Inner.prems(1)] Inner.prems(2,3) by blast
  next
    case (Some v)
    have cs: "\<forall>x \<in> set cs. cache_ok E ign (snd x)" using Inner.prems(3) by simp
    obtain b c c' e' where c: "child_find b cs = Some c" "node_perform_deletion k c = Inr ((e', obj, d), c')"
        "t' = Inner p (if e' then child_erase b cs else child_emplace b (contract c') cs) (m + d) None"
      using Inner.prems(2) Some by (auto simp: Let_def split: if_splits option.splits)
    have mem: "(b, c) \<in> set cs" using c(1) by (auto simp: child_find_def dest: map_of_SomeD)
    have "cache_ok E ign c'" using Inner.IH [OF mem _ c(2)] Inner.prems(1) cs mem by force
    then have "cache_ok E ign (contract c')" by (rule cache_contract)
    then show ?thesis using cache_emplace [OF cs, of "contract c'" p b "m + d"] cs c(3)
      by (cases e') (auto simp: child_erase_def)
  qed
qed


section \<open>The hash binds the contents\<close>

lemma pack_bit:
  "bit (push_bit 4 (ucast (a :: nib)) OR ucast (b :: nib) :: byte) i \<longleftrightarrow>
     (if i < 4 then bit b i else i < 8 \<and> bit a (i - 4))"
  by (auto simp: bit_simps dest: bit_imp_le_length)

lemma pack_inject:
  "(push_bit 4 (ucast (a :: nib)) OR ucast (b :: nib) :: byte) = push_bit 4 (ucast (a' :: nib)) OR ucast (b' :: nib) \<longleftrightarrow> a = a' \<and> b = b'"
proof
  assume eq: "(push_bit 4 (ucast a) OR ucast b :: byte) = push_bit 4 (ucast a') OR ucast b'"
  have bits: "bit (push_bit 4 (ucast a) OR ucast b :: byte) i = bit (push_bit 4 (ucast a') OR ucast b' :: byte) i" for i
    by (simp only: eq)
  have "bit b i = bit b' i" if "i < 4" for i using bits [of i, unfolded pack_bit] that by simp
  moreover have "bit a i = bit a' i" if "i < 4" for i using bits [of "i + 4", unfolded pack_bit] that by simp
  ultimately show "a = a' \<and> b = b'" by (auto intro!: bit_word_eqI)
qed simp

lemma length_prefix_bytes: "length (prefix_bytes p) = (length p + 1) div 2"
  by (induction p rule: prefix_bytes.induct) auto

lemma prefix_bytes_inject: "length p = length q \<Longrightarrow> prefix_bytes p = prefix_bytes q \<Longrightarrow> p = q"
proof (induction p arbitrary: q rule: prefix_bytes.induct)
  case (2 a)
  then obtain b where q: "q = [b]" by (cases q) auto
  then show ?case using 2 pack_inject [of a 0 b 0] by simp
next
  case (3 a b k)
  then obtain a' b' k' where q: "q = a' # b' # k'" by (cases q; cases "tl q") auto
  then show ?case using 3 pack_inject [of a b a' b'] by simp
qed simp

lemma header_inject:
  assumes "node_header p @ xs = node_header q @ ys" "4 * length p < 2 ^ 16" "4 * length q < 2 ^ 16"
  shows "p = q \<and> xs = ys"
proof -
  have u: "unat (of_nat (4 * length r) :: u16) = 4 * length r" if "4 * length r < 2 ^ 16" for r :: key
    by (rule unat_of_nat_small) (use that in simp)
  have "big_endian_bytes 2 (of_nat (4 * length p) :: u16) = big_endian_bytes 2 (of_nat (4 * length q) :: u16)"
    and rest: "prefix_bytes p @ xs = prefix_bytes q @ ys"
    using assms(1) by (simp_all add: node_header_def append_unsigned_big_endian_def append_eq_append_conv)
  then have "(of_nat (4 * length p) :: u16) = of_nat (4 * length q)"
    using big_endian_bytes_inject [of "of_nat (4 * length p) :: u16" 2 "of_nat (4 * length q)"] u assms(2,3)
    by (simp add: pow256)
  then have len: "length p = length q" using u [OF assms(2)] u [OF assms(3)] by (metis mult_cancel1 zero_neq_numeral)
  then have "length (prefix_bytes p) = length (prefix_bytes q)" by (simp add: length_prefix_bytes)
  with rest have "prefix_bytes p = prefix_bytes q" "xs = ys" by (simp_all add: append_eq_append_conv)
  then show ?thesis using prefix_bytes_inject [OF len] by simp
qed

lemma bit_bv: "bit (fold bv_add bs v) i \<longleftrightarrow> bit v i \<or> i < 16 \<and> (\<exists>b \<in> set bs. unat b = i)"
  by (induction bs arbitrary: v) (auto simp: bv_add_def bit_simps)

lemma bv_inject:
  assumes "sorted_wrt (<) bs" "sorted_wrt (<) cs" "fold bv_add bs 0 = fold bv_add cs 0"
  shows "bs = cs"
proof (rule strict_sorted_equal)
  show "sorted_wrt (<) bs" "sorted_wrt (<) cs" by (rule assms)+
  have lt: "unat b < 16" for b :: nib using unsigned_less [of b] by simp
  have ex: "(\<exists>b \<in> set bs. unat b = i) \<longleftrightarrow> (\<exists>b \<in> set cs. unat b = i)" if "i < 16" for i
    using bit_bv [of bs 0 i] bit_bv [of cs 0 i] assms(3) that by simp
  have "b \<in> set bs \<longleftrightarrow> b \<in> set cs" for b using ex [OF lt [of b]] by (simp add: unat_inject)
  then show "set bs = set cs" by blast
qed

lemma concat_inject:
  "\<forall>x \<in> set xs. length x = n \<Longrightarrow> \<forall>y \<in> set ys. length y = n \<Longrightarrow> length xs = length ys \<Longrightarrow>
   concat xs = concat ys \<Longrightarrow> xs = ys"
proof (induction xs arbitrary: ys)
  case (Cons x xs)
  obtain y ys' where ys: "ys = y # ys'" using Cons.prems(3) by (cases ys) auto
  have "length x = length y" using Cons.prems(1,2) ys by simp
  moreover have "x @ concat xs = y @ concat ys'" using Cons.prems(4) ys by simp
  ultimately have xy: "x = y" and rest: "concat xs = concat ys'" by (simp_all add: append_eq_append_conv)
  have "\<forall>x \<in> set xs. length x = n" "\<forall>y \<in> set ys'. length y = n" "length xs = length ys'"
    using Cons.prems(1-3) ys by simp_all
  then have "xs = ys'" using rest by (rule Cons.IH)
  then show ?case using ys xy by simp
qed simp

text \<open>The byte strings that are hashed below a node.\<close>

definition branch_message :: "'v hash_env \<Rightarrow> key \<Rightarrow> (nib \<times> 'v node) list \<Rightarrow> byte list" where
  "branch_message E p cs = node_header p @ big_endian_bytes 2 (fold bv_add (map fst cs) 0) @
     concat (map (\<lambda>(b, c). digest E False c) cs)"

fun hash_inputs :: "'v hash_env \<Rightarrow> 'v node \<Rightarrow> byte list list" where
  "hash_inputs E (Leaf p v m h) = [node_header p @ copy_data E v]"
| "hash_inputs E (Inner p cs m h) = branch_message E p cs # concat (map (\<lambda>(b, c). hash_inputs E c) cs)"

lemma digest_length: "\<forall>x. length (SHA256 E x) = 32 \<Longrightarrow> length (digest E False t) = 32"
  by (cases t) (auto simp: compute_hash_value_node_def combine_hashes_def branch_digest_def split: list.split)

lemma digest_Inner: "cs \<noteq> [] \<Longrightarrow> digest E False (Inner p cs m h) = SHA256 E (branch_message E p cs)"
  by (auto simp: combine_hashes_def branch_digest_def branch_message_def append_unsigned_big_endian_def
      case_prod_unfold comp_def split: list.split)

lemma branch_message_inject:
  assumes len: "\<forall>x. length (SHA256 E x) = 32"
    and ord: "ordered cs" "ordered ds" and p: "4 * length p < 2 ^ 16" "4 * length q < 2 ^ 16"
    and eq: "branch_message E p cs = branch_message E q ds"
  shows "p = q" "map fst cs = map fst ds" "map (\<lambda>(b, c). digest E False c) cs = map (\<lambda>(b, c). digest E False c) ds"
proof -
  let ?hs = "\<lambda>cs. map (\<lambda>(b, c). digest E False c) cs" and ?bv = "\<lambda>cs. fold bv_add (map fst cs) 0"
  have "p = q \<and> big_endian_bytes 2 (?bv cs) @ concat (?hs cs) = big_endian_bytes 2 (?bv ds) @ concat (?hs ds)"
    by (rule header_inject [OF _ p]) (rule eq [unfolded branch_message_def])
  then show "p = q" and "map fst cs = map fst ds" and "?hs cs = ?hs ds"
  proof -
    assume "p = q \<and> big_endian_bytes 2 (?bv cs) @ concat (?hs cs) = big_endian_bytes 2 (?bv ds) @ concat (?hs ds)"
    then show "p = q" by blast
  next
    assume "p = q \<and> big_endian_bytes 2 (?bv cs) @ concat (?hs cs) = big_endian_bytes 2 (?bv ds) @ concat (?hs ds)"
    then have be: "big_endian_bytes 2 (?bv cs) = big_endian_bytes 2 (?bv ds)" and cc: "concat (?hs cs) = concat (?hs ds)"
      by (simp_all add: append_eq_append_conv)
    have "unat v < 256 ^ 2" for v :: u16 using unsigned_less [of v] by simp
    then have "?bv cs = ?bv ds" using be by (simp add: big_endian_bytes_inject)
    then show bs: "map fst cs = map fst ds" using ord by (intro bv_inject) (simp_all add: ordered_def)
    then have "length cs = length ds" by (metis length_map)
    then show "?hs cs = ?hs ds"
      using cc by (intro concat_inject [of _ 32]) (auto simp: digest_length [OF len])
  qed
qed


lemma hash_inputs_child: "(b, c) \<in> set cs \<Longrightarrow> set (hash_inputs E c) \<subseteq> set (hash_inputs E (Inner p cs m h))"
  by force

lemma digest_Leaf_eq:
  assumes inj: "inj_on (SHA256 E) S" and ser: "inj (copy_data E)" and n: "4 * n < 2 ^ 16"
    and wf: "wf_node n (Leaf p v m h)" "wf_node n u"
    and S: "node_header p @ copy_data E v \<in> S" "set (hash_inputs E u) \<subseteq> S"
    and eq: "digest E False (Leaf p v m h) = digest E False u"
  shows "skeleton (Leaf p v m h) = skeleton u"
proof (cases u)
  case (Leaf q w m' h')
  have "SHA256 E (node_header p @ copy_data E v) = SHA256 E (node_header q @ copy_data E w)"
    using eq by (simp add: Leaf compute_hash_value_node_def)
  then have "node_header p @ copy_data E v = node_header q @ copy_data E w"
    by (rule inj_onD [OF inj]) (use S Leaf in simp_all)
  then have "p = q \<and> copy_data E v = copy_data E w"
    by (rule header_inject) (use wf n Leaf in simp_all)
  then show ?thesis using injD [OF ser, of v w] by (simp add: Leaf)
next
  case (Inner q ds m' h')
  then have ds: "ds \<noteq> []" "length q < n" using wf(2) by auto
  have "SHA256 E (node_header p @ copy_data E v) = SHA256 E (branch_message E q ds)"
    using eq unfolding Inner digest_Inner [OF ds(1)] by (simp add: compute_hash_value_node_def)
  then have "node_header p @ copy_data E v = branch_message E q ds"
    by (rule inj_onD [OF inj]) (use S Inner in simp_all)
  then have "p = q \<and> copy_data E v = big_endian_bytes 2 (fold bv_add (map fst ds) 0) @ concat (map (\<lambda>(b, c). digest E False c) ds)"
    unfolding branch_message_def by (rule header_inject) (use wf n ds(2) in simp_all)
  then show ?thesis using wf(1) ds(2) by simp
qed

lemma digest_inject:
  assumes inj: "inj_on (SHA256 E) S" and len: "\<forall>x. length (SHA256 E x) = 32"
    and ser: "inj (copy_data E)" and n: "4 * n < 2 ^ 16"
  shows "wf_node n t \<Longrightarrow> wf_node n u \<Longrightarrow> set (hash_inputs E t) \<subseteq> S \<Longrightarrow> set (hash_inputs E u) \<subseteq> S \<Longrightarrow>
    digest E False t = digest E False u \<Longrightarrow> skeleton t = skeleton u"
proof (induction t arbitrary: u rule: node_induct)
  case (Leaf p v m h)
  show ?case by (rule digest_Leaf_eq [OF inj ser n Leaf(1,2) _ Leaf(4,5)]) (use Leaf(3) in simp)
next
  case (Inner p cs m h)
  note wf = Inner.prems(1,2) and S = Inner.prems(3,4) and eq = Inner.prems(5)
  have cs: "cs \<noteq> []" "length p < n" "ordered cs" using wf(1) by auto
  show ?case
  proof (cases u)
    case (Leaf q w m' h')
    have "skeleton u = skeleton (Inner p cs m h)"
      unfolding Leaf
      by (rule digest_Leaf_eq [OF inj ser n wf(2) [unfolded Leaf] wf(1) _ S(1) eq [unfolded Leaf, symmetric]])
        (use S(2) Leaf in simp)
    then show ?thesis by (rule sym)
  next
    case (Inner q ds m' h')
    note u = this
    have ds: "ds \<noteq> []" "length q < n" "ordered ds" using wf(2) u by auto
    have "SHA256 E (branch_message E p cs) = SHA256 E (branch_message E q ds)"
      using eq unfolding u digest_Inner [OF cs(1)] digest_Inner [OF ds(1)] .
    then have "branch_message E p cs = branch_message E q ds"
      by (rule inj_onD [OF inj]) (use S u in simp_all)
    note bm = branch_message_inject [OF len cs(3) ds(3) _ _ this]
    have pq: "p = q" and bs: "map fst cs = map fst ds"
      and hs: "map (\<lambda>(b, c). digest E False c) cs = map (\<lambda>(b, c). digest E False c) ds"
      by (rule bm; use n cs(2) ds(2) in linarith)+
    have ln: "length cs = length ds" using hs by (rule map_eq_imp_length_eq)
    have "map (\<lambda>(b, c). (b, skeleton c)) cs = map (\<lambda>(b, c). (b, skeleton c)) ds"
    proof (rule nth_equalityI)
      fix i assume "i < length (map (\<lambda>(b, c). (b, skeleton c)) cs)"
      then have i: "i < length cs" "i < length ds" using ln by simp_all
      have "map fst cs ! i = map fst ds ! i" "map (\<lambda>(b, c). digest E False c) cs ! i = map (\<lambda>(b, c). digest E False c) ds ! i"
        by (simp_all only: hs bs)
      then have d: "fst (cs ! i) = fst (ds ! i)" "digest E False (snd (cs ! i)) = digest E False (snd (ds ! i))"
        using i by (simp_all add: case_prod_unfold)
      have mem: "(fst (cs ! i), snd (cs ! i)) \<in> set cs" "(fst (ds ! i), snd (ds ! i)) \<in> set ds" using i by simp_all
      have "skeleton (snd (cs ! i)) = skeleton (snd (ds ! i))"
      proof (rule Inner.IH [OF mem(1)])
        show "wf_node n (snd (cs ! i))" using wf(1) mem(1) by auto
        show "wf_node n (snd (ds ! i))" using wf(2) mem(2) u by auto
        show "set (hash_inputs E (snd (cs ! i))) \<subseteq> S" by (rule subset_trans [OF hash_inputs_child [OF mem(1)] S(1)])
        show "set (hash_inputs E (snd (ds ! i))) \<subseteq> S"
          by (rule subset_trans [OF hash_inputs_child [OF mem(2)] S(2) [unfolded u]])
      qed (rule d(2))
      then show "map (\<lambda>(b, c). (b, skeleton c)) cs ! i = map (\<lambda>(b, c). (b, skeleton c)) ds ! i"
        using i d(1) by (simp add: case_prod_unfold)
    qed (simp add: ln)
    then show ?thesis by (simp add: u pq)
  qed
qed

end
