(* ===== verification/Merkle_Trie.thy ===== *)
theory Merkle_Trie
  imports Trie_Cache
begin

text \<open>
  The trie objects, \<^verbatim>\<open>MerkleTrie\<close> and \<^verbatim>\<open>_BaseTrie\<close> of \<^verbatim>\<open>merkle_trie.h\<close>: the root node
  and the cached root hash, with every public operation.  An operation holds the trie's lock for its
  whole body, so each is one atomic step on the record.
\<close>

section \<open>The trie object\<close>

text \<open>\<open>root_hash\<close> is \<open>Some h\<close> when \<open>hash_valid\<close> is set.\<close>

record 'v MerkleTrie =
  root :: "'v node"
  root_hash :: "Hash option"

definition empty_trie :: "'v MerkleTrie" where
  "empty_trie = \<lparr>root = make_empty_node, root_hash = None\<rparr>"

definition trie_of :: "'v node \<Rightarrow> 'v MerkleTrie" where
  "trie_of t = \<lparr>root = t, root_hash = None\<rparr>"

text \<open>\<open>size()\<close> with the \<open>SizeMixin\<close>.\<close>

definition trie_size :: "'v node \<Rightarrow> i64 res" where
  "trie_size t = (if sint (md_size (metadata t)) < 0 then Inl (Runtime_error ''invalid size!'') else Inr (md_size (metadata t)))"

section \<open>Changing operations\<close>

definition trie_clear :: "'v MerkleTrie \<Rightarrow> 'v MerkleTrie" where
  "trie_clear T = \<lparr>root = make_empty_node, root_hash = None\<rparr>"

definition extract_root :: "'v MerkleTrie \<Rightarrow> 'v node \<times> 'v MerkleTrie" where
  "extract_root T = (root T, \<lparr>root = make_empty_node, root_hash = None\<rparr>)"

definition trie_insert :: "(key, 'v, 'i) insert_fn \<Rightarrow> key \<Rightarrow> 'i \<Rightarrow> 'v MerkleTrie \<Rightarrow> 'v MerkleTrie res" where
  "trie_insert F k v T = res_bind (node_insert F k v (root T)) (\<lambda>(t, d). Inr \<lparr>root = t, root_hash = None\<rparr>)"

definition trie_merge_in :: "'v merge_fn \<Rightarrow> 'v MerkleTrie \<Rightarrow> 'v MerkleTrie \<Rightarrow> 'v MerkleTrie res" where
  "trie_merge_in M other T =
     res_bind (trie_size (root T)) (\<lambda>sz.
       if sz = 0 then Inr \<lparr>root = root other, root_hash = None\<rparr>
       else res_bind (trie_size (root other)) (\<lambda>osz.
         if osz = 0 then Inr (T\<lparr>root_hash := None\<rparr>)
         else res_bind (node_merge_in M (root T) (root other)) (\<lambda>(t, d). Inr \<lparr>root = t, root_hash = None\<rparr>)))"

definition trie_mark_for_deletion :: "key \<Rightarrow> 'v MerkleTrie \<Rightarrow> ('v option \<times> 'v MerkleTrie) res" where
  "trie_mark_for_deletion k T =
     res_bind (node_mark_for_deletion k (root T)) (\<lambda>((d, obj), t).
       Inr (obj, \<lparr>root = t, root_hash = (if obj = None then root_hash T else None)\<rparr>))"

definition trie_unmark_for_deletion :: "key \<Rightarrow> 'v MerkleTrie \<Rightarrow> ('v option \<times> 'v MerkleTrie) res" where
  "trie_unmark_for_deletion k T =
     res_bind (node_unmark_for_deletion k (root T)) (\<lambda>((d, obj), t).
       Inr (obj, \<lparr>root = t, root_hash = (if obj = None then root_hash T else None)\<rparr>))"

text \<open>\<open>perform_marked_deletions(handler)\<close>: the trie and the calls of the handler.\<close>

definition trie_perform_marked_deletions :: "'v MerkleTrie \<Rightarrow> ('v MerkleTrie \<times> (key \<times> 'v) list) res" where
  "trie_perform_marked_deletions T =
     (if num_deleted_subnodes (metadata (root T)) = 0 then Inr (T, [])
      else res_bind (node_perform_marked_deletions (root T)) (\<lambda>((erase, d), t, out).
        let t' = (if erase then make_empty_node else t)
        in Inr (\<lparr>root = contract t', root_hash = None\<rparr>, out)))"

definition trie_clean_singlechild_nodes :: "key \<Rightarrow> 'v MerkleTrie \<Rightarrow> 'v MerkleTrie res" where
  "trie_clean_singlechild_nodes k T =
     res_bind (node_clean_singlechild k (root T)) (\<lambda>t. Inr \<lparr>root = contract_chain t, root_hash = None\<rparr>)"

text \<open>The next three keep the cached root hash, as the source does.\<close>

definition trie_clear_marked_deletions :: "'v MerkleTrie \<Rightarrow> 'v MerkleTrie" where
  "trie_clear_marked_deletions T = T\<lparr>root := node_clear_marked_deletions (root T)\<rparr>"

definition trie_mark_subtree_lt_key :: "bool \<Rightarrow> key \<Rightarrow> 'v MerkleTrie \<Rightarrow> 'v MerkleTrie res" where
  "trie_mark_subtree_lt_key use_locks k T =
     res_bind (node_mark_subtree_lt use_locks k (root T)) (\<lambda>(d, t). Inr (T\<lparr>root := t\<rparr>))"

definition trie_mark_entire_tree :: "'v MerkleTrie \<Rightarrow> 'v MerkleTrie" where
  "trie_mark_entire_tree T = T\<lparr>root := snd (node_mark_subtree (root T))\<rparr>"

text \<open>\<open>do_rollback\<close> ignores whether the root should be erased, and keeps the cached root hash.\<close>

definition trie_do_rollback :: "'v MerkleTrie \<Rightarrow> 'v MerkleTrie res" where
  "trie_do_rollback T =
     res_bind (node_do_rollback (root T)) (\<lambda>(r, t). Inr (T\<lparr>root := contract t\<rparr>))"

definition trie_clear_rollback :: "'v MerkleTrie \<Rightarrow> 'v MerkleTrie" where
  "trie_clear_rollback T = T\<lparr>root := node_clear_rollback (root T)\<rparr>"

definition trie_perform_deletion :: "key \<Rightarrow> 'v MerkleTrie \<Rightarrow> ('v option \<times> 'v MerkleTrie) res" where
  "trie_perform_deletion k T =
     res_bind (node_perform_deletion k (root T)) (\<lambda>((delete_child, obj, d), t).
       let t1 = contract (if delete_child then make_empty_node else t) in
       res_bind (trie_size t1) (\<lambda>sz.
         Inr (obj, \<lparr>root = (if sz = 0 then make_empty_node else t1),
                    root_hash = (if obj = None then root_hash T else None)\<rparr>)))"

text \<open>\<open>endow_split\<close>: the trie split off and the trie that remains.\<close>

definition trie_endow_split :: "i64 \<Rightarrow> 'v MerkleTrie \<Rightarrow> ('v MerkleTrie \<times> 'v MerkleTrie) res" where
  "trie_endow_split endow_threshold T =
     (if endow_threshold = 0 then Inr (empty_trie, T)
      else let root_endow = endow (metadata (root T)) in
        if sint root_endow < sint endow_threshold then Inl (Runtime_error ''not enough endow'')
        else if endow_threshold = root_endow
        then Inr (trie_of (root T), \<lparr>root = make_empty_node, root_hash = None\<rparr>)
        else res_bind (node_endow_split endow_threshold (root T)) (\<lambda>(s, t).
          Inr (case s of None \<Rightarrow> empty_trie | Some u \<Rightarrow> trie_of u,
               \<lparr>root = contract t, root_hash = None\<rparr>)))"

definition trie_endow_lt_key :: "key \<Rightarrow> 'v MerkleTrie \<Rightarrow> i64 res" where
  "trie_endow_lt_key k T = node_endow_lt_key k (root T)"

text \<open>\<open>freeze_and_hash\<close>: a valid root hash is returned as it is.\<close>

definition freeze_and_hash :: "'v hash_env \<Rightarrow> bool \<Rightarrow> 'v MerkleTrie \<Rightarrow> (Hash \<times> 'v MerkleTrie) res" where
  "freeze_and_hash E ign T =
     (case root_hash T of
        Some h \<Rightarrow> Inr (h, T)
      | None \<Rightarrow> res_bind (compute_hash E ign (root T)) (\<lambda>t.
          let h = get_root_hash E ign t in Inr (h, \<lparr>root = t, root_hash = Some h\<rparr>)))"


section \<open>Tries as maps\<close>

text \<open>The empty trie.\<close>

lemma empty_node_cases: "is_empty_node t \<Longrightarrow> \<exists>h. t = Inner [] [] 0 h"
  by (cases t) (auto simp: is_empty_node_def)

lemma make_empty_node_facts [simp]:
  "is_empty_node make_empty_node" "0 < n \<Longrightarrow> wf_trie n make_empty_node"
  "leaves make_empty_node = []" "trie_map make_empty_node k = None" "meta_ok L make_empty_node"
  "contract make_empty_node = make_empty_node" "metadata make_empty_node = 0"
  by (simp_all add: make_empty_node_def is_empty_node_def wf_trie_def trie_map_def contract_def get_single_child_def)

lemma cache_empty_node [simp]: "cache_ok E ign make_empty_node"
  by (simp add: make_empty_node_def)

lemma leaves_empty_node: "is_empty_node t \<Longrightarrow> leaves t = []"
  by (auto dest: empty_node_cases)

lemma wf_trie_cases:
  assumes "wf_trie n t"
  obtains "is_empty_node t" "leaves t = []" | "wf_node n t" "leaves t \<noteq> []"
  using assms leaves_empty_node leaves_nonempty by (auto simp: wf_trie_def)

lemma wf_trie_keys: "wf_trie n t \<Longrightarrow> trie_map t k \<noteq> None \<Longrightarrow> length k = n"
  by (erule wf_trie_cases)
    (auto simp: trie_map_def contents_leaves dest!: map_of_SomeD dest: leaves_prefix)

lemma wf_trie_other: "wf_trie n t \<Longrightarrow> length k \<noteq> n \<Longrightarrow> trie_map t k = None"
  using wf_trie_keys [of n t k] by blast

lemma trie_map_ext:
  assumes "wf_trie n t" "wf_trie n u" "\<And>k. length k = n \<Longrightarrow> trie_map t k = trie_map u k"
  shows "trie_map t = trie_map u"
proof
  fix k
  show "trie_map t k = trie_map u k"
    using assms wf_trie_other [OF assms(1)] wf_trie_other [OF assms(2)] by (cases "length k = n") simp_all
qed

lemma trie_map_leaf: "wf_trie n t \<Longrightarrow> trie_map t k = Some v \<longleftrightarrow> (\<exists>m. (k, v, m) \<in> set (leaves t))"
proof (erule wf_trie_cases)
  assume wf: "wf_node n t"
  have "distinct (map fst (contents t))" by (rule ascending_distinct [OF contents_ascending [OF wf]])
  then show ?thesis by (force simp: trie_map_def contents_leaves)
qed (simp add: trie_map_def contents_leaves)

text \<open>The shape, and so the hash, of a trie is a function of the map it holds.\<close>

lemma skeleton_determined:
  assumes t: "wf_trie n t" and u: "wf_trie n u" and eq: "trie_map t = trie_map u"
  shows "skeleton t = skeleton u"
proof -
  have none: "trie_map x = Map.empty \<longleftrightarrow> leaves x = []" if "wf_trie n x" for x :: "'a node"
  proof
    assume "trie_map x = Map.empty"
    then have "(k, v, m) \<notin> set (leaves x)" for k v m using trie_map_leaf [OF that, of k v] by auto
    then have "y \<notin> set (leaves x)" for y by (cases y) blast
    then show "leaves x = []" using hd_in_set [of "leaves x"] by blast
  next
    assume "leaves x = []"
    then show "trie_map x = Map.empty" by (simp add: trie_map_def contents_leaves)
  qed
  show ?thesis
  proof (cases "leaves t = []")
    case True
    then have "leaves u = []" using none [OF t] none [OF u] eq by simp
    then have "is_empty_node t" "is_empty_node u" using True t u by (auto elim: wf_trie_cases)
    then show ?thesis by (auto dest!: empty_node_cases)
  next
    case False
    then have "leaves u \<noteq> []" using none [OF t] none [OF u] eq by simp
    then have wf: "wf_node n t" "wf_node n u" using False t u by (auto elim: wf_trie_cases)
    have "contents t = contents u"
      using ascending_unique [OF contents_ascending [OF wf(1)] contents_ascending [OF wf(2)]] eq by (simp add: trie_map_def)
    then show ?thesis using canonical [OF wf] by simp
  qed
qed

section \<open>Insertion\<close>

context trie_insert_policy
begin

lemma trie_insert_correct:
  assumes wf: "wf_trie n (root T)" and k: "length k = n"
  shows "\<exists>t'. trie_insert F k i T = Inr \<lparr>root = t', root_hash = None\<rparr> \<and> wf_trie n t' \<and>
    trie_map t' = (trie_map (root T))(k \<mapsto> stored (trie_map (root T) k) k i) \<and>
    (\<forall>L. meta_ok L (root T) \<longrightarrow>
       L (stored (trie_map (root T) k) k i) (new_metadata F (stored (trie_map (root T) k) k i)) \<longrightarrow> meta_ok L t') \<and>
    (\<forall>E ign. cache_ok E ign (root T) \<longrightarrow> cache_ok E ign t')"
  using wf
proof (cases rule: wf_trie_cases)
  case 1
  then obtain h where t: "root T = Inner [] [] 0 h" using empty_node_cases by blast
  have n: "0 < n" using wf by (simp add: wf_trie_def)
  then have "k \<noteq> []" using k by auto
  let ?v = "stored None k i" let ?t' = "Leaf k ?v (new_metadata F ?v) None"
  have "node_insert F k i (root T) = Inr (?t', new_metadata F ?v)" by (simp add: t stored_def Let_def)
  moreover have "trie_map (root T) = Map.empty" by (simp add: t trie_map_def)
  moreover have "trie_map ?t' = [k \<mapsto> ?v]" by (auto simp: trie_map_def)
  ultimately show ?thesis using n k by (simp add: trie_insert_def wf_trie_def)
next
  case 2
  obtain t' d where r: "node_insert F k i (root T) = Inr (t', d)" "inserted n k i (root T) t' d"
    using node_insert_correct [OF 2(1) k, of i] by blast
  have wf': "wf_trie n t'" using r(2) wf by (simp add: inserted_def wf_trie_def)
  have "trie_map t' k' = ((trie_map (root T))(k \<mapsto> stored (trie_map (root T) k) k i)) k'" for k'
  proof (cases "length k' = n")
    case True
    then show ?thesis using r(2) by (simp add: inserted_def)
  next
    case False
    then have "trie_map t' k' = None" "trie_map (root T) k' = None"
      using wf_trie_other [OF wf'] wf_trie_other [OF wf] by simp_all
    then show ?thesis using False k by auto
  qed
  then have "trie_map t' = (trie_map (root T))(k \<mapsto> stored (trie_map (root T) k) k i)" by blast
  then show ?thesis
    using r wf' cache_node_insert [OF r(1)] by (simp add: trie_insert_def inserted_def)
qed

end

interpretation overwrite_trie: trie_insert_policy "OverwriteInsertFn mk dflt" for mk dflt
  by unfold_locales

interpretation rollback_trie: trie_insert_policy "RollbackInsertFn mk dflt" for mk dflt
  by unfold_locales

lemma overwrite_stored [simp]: "overwrite.stored mk dflt old k v = v"
  unfolding overwrite.stored_def by (simp add: OverwriteInsertFn_def)

lemma rollback_stored [simp]: "rollback.stored mk dflt old k v = v"
  unfolding rollback.stored_def by (simp add: RollbackInsertFn_def)


section \<open>Removal\<close>

text \<open>Facts at the root: what a removal leaves is the empty trie or a contracted node.\<close>

lemma wf_trie_contract: "0 < n \<Longrightarrow> wf_weak n t \<Longrightarrow> wf_trie n (contract t)"
  using wf_contract(1) [of n t] by (simp add: wf_trie_def)

lemma trie_size_leaves:
  assumes "meta_ok unit_size t" "length (leaves t) < 2 ^ 32"
  shows "trie_size t = Inr (of_nat (length (leaves t)))" "of_nat (length (leaves t)) = (0 :: i64) \<longleftrightarrow> leaves t = []"
proof -
  have s: "sint (of_nat n :: i64) = int n" if "n < 2 ^ 32" for n
    using that by (simp add: signed_of_nat signed_take_bit_int_eq_self)
  show "trie_size t = Inr (of_nat (length (leaves t)))"
    by (simp add: trie_size_def md_size_leaves [OF assms(1)] s [OF assms(2)])
  show "of_nat (length (leaves t)) = (0 :: i64) \<longleftrightarrow> leaves t = []"
  proof
    assume "of_nat (length (leaves t)) = (0 :: i64)"
    then have "int (length (leaves t)) = 0" using s [OF assms(2)] by simp
    then show "leaves t = []" by simp
  qed simp
qed

lemma meta_ok_filter:
  "sums_ok t' \<Longrightarrow> meta_ok L t \<Longrightarrow> set (leaves t') \<subseteq> set (leaves t) \<Longrightarrow> meta_ok L t'"
  unfolding meta_ok_iff [of L] by blast

lemma trie_perform_deletion_correct:
  assumes wf: "wf_trie n (root T)" and k: "length k = n"
    and mok: "meta_ok unit_size (root T)" and len: "length (leaves (root T)) < 2 ^ 32"
  shows "\<exists>T'. trie_perform_deletion k T = Inr (trie_map (root T) k, T') \<and> wf_trie n (root T') \<and>
    leaves (root T') = filter (\<lambda>x. fst x \<noteq> k) (leaves (root T)) \<and> meta_ok unit_size (root T') \<and>
    root_hash T' = (if trie_map (root T) k = None then root_hash T else None) \<and>
    (\<forall>E ign. cache_ok E ign (root T) \<longrightarrow> cache_ok E ign (root T'))"
  using wf
proof (cases rule: wf_trie_cases)
  case 1
  then obtain h where t: "root T = Inner [] [] 0 h" using empty_node_cases by blast
  have n: "0 < n" using wf by (simp add: wf_trie_def)
  have "node_perform_deletion k (root T) = Inr ((False, None, 0), root T)"
    using n k by (simp add: t branch_bits_def child_find_def)
  moreover have "trie_map (root T) = Map.empty" by (simp add: t trie_map_def)
  moreover have "contract (root T) = root T" by (simp add: t contract_def get_single_child_def)
  moreover have "trie_size (root T) = Inr 0" by (simp add: t trie_size_def)
  moreover have "leaves (root T) = []" by (simp add: t)
  ultimately show ?thesis using n by (simp add: trie_perform_deletion_def Let_def)
next
  case 2
  define P where "P = (\<lambda>x :: key \<times> 'a \<times> Metadata. fst x \<noteq> k)"
  obtain e obj d t where r: "node_perform_deletion k (root T) = Inr ((e, obj, d), t)"
    and ok: "deletion_ok n k (root T) ((e, obj, d), t)"
    using node_perform_deletion_correct [OF 2(1) k] by auto
  have n: "0 < n" using wf by (simp add: wf_trie_def)
  define t1 where "t1 = contract (if e then make_empty_node else t)"
  have "wf_weak n t \<and> leaves t = filter P (leaves (root T)) \<and> meta_ok unit_size t" if "\<not> e"
    using ok that mok by (auto simp: deletion_ok_def P_def)
  then have t1: "wf_trie n t1" "leaves t1 = filter P (leaves (root T))" "meta_ok unit_size t1"
    using wf_trie_contract [OF n] wf_contract(3) [of n t] wf_contract(4) [of n t unit_size] ok n
    by (auto simp: t1_def deletion_ok_def P_def)
  have obj: "obj = trie_map (root T) k" using ok by (simp add: deletion_ok_def)
  have len1: "length (leaves t1) < 2 ^ 32" unfolding t1(2) by (rule le_less_trans [OF length_filter_le len])
  define t2 where "t2 = (if leaves t1 = [] then make_empty_node else t1)"
  have t2: "wf_trie n t2" "leaves t2 = filter P (leaves (root T))" "meta_ok unit_size t2"
    using t1 n by (auto simp: t2_def)
  have "trie_perform_deletion k T = Inr (trie_map (root T) k, \<lparr>root = t2, root_hash = (if obj = None then root_hash T else None)\<rparr>)"
    using r trie_size_leaves [OF t1(3) len1]
    by (simp add: trie_perform_deletion_def Let_def t1_def [symmetric] t2_def obj)
  moreover have "cache_ok E ign t2" if "cache_ok E ign (root T)" for E ign
  proof -
    have "cache_ok E ign t" by (rule cache_deletion [OF 2(1) r that])
    then have "cache_ok E ign t1" by (auto simp: t1_def make_empty_node_def intro: cache_contract)
    then show ?thesis by (simp add: t2_def make_empty_node_def)
  qed
  ultimately show ?thesis using t2 by (auto simp: P_def obj)
qed

lemma trie_perform_marked_deletions_correct:
  assumes wf: "wf_trie n (root T)" and mok: "meta_ok marks_ok (root T)" and len: "length (leaves (root T)) < 2 ^ 32"
  shows "\<exists>T'. trie_perform_marked_deletions T = Inr (T', map drop_md (filter marked (leaves (root T)))) \<and>
    wf_trie n (root T') \<and> leaves (root T') = filter unmarked (leaves (root T)) \<and> meta_ok marks_ok (root T') \<and>
    (\<forall>E ign. cache_ok E ign (root T) \<longrightarrow> cache_ok E ign (root T')) \<and>
    (\<forall>E. filter unmarked (leaves (root T)) \<noteq> [] \<longrightarrow> digest E True (root T') = digest E True (root T))"
proof (cases "num_deleted_subnodes (metadata (root T)) = 0")
  case True
  have "filter marked (leaves (root T)) = []"
    using deleted_count.cnt_zero_iff [OF mok _ len] True by auto
  then have "filter unmarked (leaves (root T)) = leaves (root T)"
    by (simp add: unmarked_iff filter_empty_conv filter_id_conv)
  then show ?thesis
    using True wf mok \<open>filter marked (leaves (root T)) = []\<close> by (simp add: trie_perform_marked_deletions_def)
next
  case False
  have n: "0 < n" using wf by (simp add: wf_trie_def)
  have wf': "wf_node n (root T)" using wf False by (auto simp: wf_trie_def dest: empty_node_cases)
  obtain e d t out where r: "node_perform_marked_deletions (root T) = Inr ((e, d), t, out)"
    and ok: "deleted_count.prune_ok n marks_ok (root T) ((e, d), t, out)"
    using deleted_count.prune_correct [OF wf' mok len] unfolding node_perform_marked_deletions_def by fast
  define t1 where "t1 = contract (if e then make_empty_node else t)"
  have out: "out = map drop_md (filter marked (leaves (root T)))"
    and e: "e \<longleftrightarrow> filter unmarked (leaves (root T)) = []"
    and t: "\<not> e \<Longrightarrow> wf_weak n t \<and> leaves t = filter unmarked (leaves (root T)) \<and> meta_ok marks_ok t"
    using ok by (simp_all add: deleted_count.prune_ok_def)
  have t1: "wf_trie n t1" "leaves t1 = filter unmarked (leaves (root T))" "meta_ok marks_ok t1"
    using wf_trie_contract [OF n] wf_contract(3) [of n t] wf_contract(4) [of n t marks_ok] t e n
    by (auto simp: t1_def)
  have eq: "trie_perform_marked_deletions T = Inr (\<lparr>root = t1, root_hash = None\<rparr>, out)"
    using False r by (simp add: trie_perform_marked_deletions_def Let_def t1_def)
  have cache: "cache_ok E ign t1" if "cache_ok E ign (root T)" for E ign
    using cache_contract [OF cache_prune [OF r [unfolded node_perform_marked_deletions_def] that]]
    by (simp add: t1_def)
  have dig: "digest E True t1 = digest E True (root T)" if "filter unmarked (leaves (root T)) \<noteq> []" for E
    using digest_prune [OF wf' mok len that r [unfolded node_perform_marked_deletions_def]] that e by (simp add: t1_def)
  show ?thesis using eq out t1 cache dig by auto
qed

end
