(* ===== verification/Trie_Refinement.thy ===== *)
theory Trie_Refinement
  imports Merkle_Trie
begin

text \<open>
  The trie as an abstract data type: an association of values and leaf metadata to keys.  Every
  operation of \<^verbatim>\<open>MerkleTrie\<close> is simulated by an update of that association, and the hash it
  returns depends on the association only.
\<close>

section \<open>The abstract state\<close>

definition leaf_map :: "'v node \<Rightarrow> key \<Rightarrow> ('v \<times> Metadata) option" where
  "leaf_map t = map_of (leaves t)"

text \<open>A trie whose values also hold the leaf's metadata; its contents are the leaves.\<close>

fun annotate :: "'v node \<Rightarrow> ('v \<times> Metadata) node" where
  "annotate (Leaf p v m h) = Leaf p (v, m) m h"
| "annotate (Inner p cs m h) = Inner p (map (\<lambda>(b, c). (b, annotate c)) cs) m h"

lemma contents_annotate [simp]: "contents (annotate t) = leaves t"
proof (induction t rule: node_induct)
  case (Inner p cs m h)
  then have "map (\<lambda>(b, c). contents c) (map (\<lambda>(b, c). (b, annotate c)) cs) = map (\<lambda>(b, c). leaves c) cs" by auto
  then show ?case by (simp only: annotate.simps contents.simps leaves.simps)
qed simp

lemma trie_map_annotate: "trie_map (annotate t) = leaf_map t"
  by (simp add: trie_map_def leaf_map_def)

lemma annotate_simps [simp]:
  "node_prefix (annotate t) = node_prefix t" "metadata (annotate t) = metadata t"
  "children (annotate t) = map (\<lambda>(b, c). (b, annotate c)) (children t)"
  "annotate (invalidate_hash t) = invalidate_hash (annotate t)"
  "annotate (move_contents_to_new_node t) = move_contents_to_new_node (annotate t)"
  by (cases t; simp add: invalidate_hash_def move_contents_to_new_node_def)+

lemma ordered_annotate [simp]: "ordered (map (\<lambda>(b, c). (b, f c)) cs) = ordered cs"
  by (simp add: ordered_def comp_def case_prod_unfold)

lemma wf_annotate [simp]: "wf_node n (annotate t) = wf_node n t"
proof (induction t rule: node_induct)
  case (Inner p cs m h)
  have "(\<forall>x \<in> set (map (\<lambda>(b, c). (b, annotate c)) cs). wf_node n (snd x) \<and> prefix (p @ [fst x]) (node_prefix (snd x))) \<longleftrightarrow>
      (\<forall>x \<in> set cs. wf_node n (snd x) \<and> prefix (p @ [fst x]) (node_prefix (snd x)))"
    using Inner.IH by auto
  then show ?case by (simp add: comp_def)
qed simp

definition annotated_fn :: "(key, 'v, 'i) insert_fn \<Rightarrow> (key, 'v \<times> Metadata, 'i) insert_fn" where
  "annotated_fn F =
     \<lparr>new_value = (\<lambda>k. (new_value F k, 0)),
      value_insert = (\<lambda>x i. let v = value_insert F (fst x) i in (v, new_metadata F v)),
      leaf_value = (\<lambda>k i. (leaf_value F k i, leaf_metadata F i)),
      new_metadata = (\<lambda>x. new_metadata F (fst x)), leaf_metadata = leaf_metadata F,
      metadata_insert = (\<lambda>m x. metadata_insert F m (fst x))\<rparr>"

lemma annotated_fn_sel [simp]:
  "new_value (annotated_fn F) k = (new_value F k, 0)"
  "value_insert (annotated_fn F) x i = (value_insert F (fst x) i, new_metadata F (value_insert F (fst x) i))"
  "leaf_value (annotated_fn F) k i = (leaf_value F k i, leaf_metadata F i)"
  "new_metadata (annotated_fn F) x = new_metadata F (fst x)"
  "leaf_metadata (annotated_fn F) = leaf_metadata F"
  "metadata_insert (annotated_fn F) m x = metadata_insert F m (fst x)"
  by (simp_all add: annotated_fn_def Let_def)

lemma annotate_new_leaf [simp]: "make_value_leaf (annotated_fn F) k i = annotate (make_value_leaf F k i)"
  by (simp add: make_value_leaf_def)

lemma child_find_annotate [simp]:
  "child_find b (map (\<lambda>(b, c). (b, f c)) cs) = map_option f (child_find b cs)"
  by (simp add: child_find_def map_of_map)

lemma emplace_annotate:
  "child_emplace b (f c) (map (\<lambda>(b, c). (b, f c)) cs) = map (\<lambda>(b, c). (b, f c)) (child_emplace b c cs)"
  by (induction cs rule: child_emplace.induct) auto

abbreviation annotate_res :: "('v node \<times> 'd) res \<Rightarrow> (('v \<times> Metadata) node \<times> 'd) res" where
  "annotate_res r \<equiv> res_bind r (\<lambda>(t, d). Inr (annotate t, d))"

lemma annotate_split_insert:
  "split_insert (annotated_fn F) k i (annotate t) = annotate_res (split_insert F k i t)"
proof -
  have two: "map (\<lambda>(b, c). (b, annotate c)) (child_emplace b (move_contents_to_new_node t) (child_emplace b' l [])) =
     child_emplace b (move_contents_to_new_node (annotate t)) (child_emplace b' (annotate l) [])" for b b' l
    by (simp only: emplace_annotate [of _ annotate, symmetric] annotate_simps list.map)
  show ?thesis
    unfolding split_insert_def Let_def res_bind_assoc annotate_simps annotate_new_leaf
    by (intro res_bind_cong refl) (auto simp: two simp del: child_emplace.simps)
qed

lemma annotate_insert:
  "insert_policy F \<Longrightarrow> node_insert (annotated_fn F) k i (annotate t) = annotate_res (node_insert F k i t)"
proof (induction F k i t rule: node_insert.induct)
  case (1 F k i p v m h)
  show ?case
    using annotate_split_insert [of F k i "Leaf p v m h"]
    by (simp add: Let_def insert_policy.metadata_insert_eq [OF 1])
next
  case (2 F k i p cs m h)
  show ?case
  proof (cases "length cs = 1 \<or> cs = [] \<or> prefix_match p k \<noteq> length p")
    case True
    then consider "length cs = 1" | "cs = []" | "length cs \<noteq> 1" "cs \<noteq> []" "prefix_match p k \<noteq> length p" by auto
    then show ?thesis
    proof cases
      case 3
      have "node_insert (annotated_fn F) k i (annotate (Inner p cs m h)) = split_insert (annotated_fn F) k i (annotate (Inner p cs m h))"
        using 3 by simp
      also have "\<dots> = annotate_res (split_insert F k i (Inner p cs m h))" by (rule annotate_split_insert)
      finally show ?thesis using 3 by simp
    qed (simp_all add: Let_def)
  next
    case False
    then have c: "length cs \<noteq> 1" "cs \<noteq> []" "prefix_match p k = length p" by auto
    show ?thesis
    proof (cases "branch_bits k (length p)")
      case (Inl e)
      then show ?thesis using c by simp
    next
      case (Inr bb)
      show ?thesis
      proof (cases "child_find bb cs")
        case None
        then show ?thesis using c Inr by (simp add: Let_def emplace_annotate)
      next
        case (Some child)
        have IH: "node_insert (annotated_fn F) k i (annotate child) = annotate_res (node_insert F k i child)"
          by (rule "2.IH"; (rule c Inr Some "2.prems" | simp add: c(2)))
        show ?thesis using c Inr Some IH by (cases "node_insert F k i child") (auto simp: emplace_annotate)
      qed
    qed
  qed
qed

section \<open>Operations on the abstract state\<close>

lemma leaf_map_iff: "wf_trie n t \<Longrightarrow> leaf_map t k = Some (v, m) \<longleftrightarrow> (k, v, m) \<in> set (leaves t)"
proof (erule wf_trie_cases)
  assume "wf_node n t"
  then have "distinct (map fst (leaves t))"
    using ascending_distinct [OF contents_ascending, of n "annotate t"] by simp
  then show ?thesis by (simp add: leaf_map_def)
qed (simp add: leaf_map_def)

lemma trie_map_leaf_map: "trie_map t k = map_option fst (leaf_map t k)"
proof -
  have "map_of (map drop_md xs) k = map_option fst (map_of xs k)" for xs :: "(key \<times> 'a \<times> Metadata) list"
    by (induction xs) auto
  then show ?thesis by (simp add: trie_map_def leaf_map_def contents_leaves)
qed

lemma leaf_map_empty [simp]: "leaf_map make_empty_node = Map.empty" "leaf_map (Inner [] [] m h) = Map.empty"
  by (simp_all add: leaf_map_def)

lemma card_leaf_map:
  assumes "wf_trie n t"
  shows "card (dom (leaf_map t)) = length (leaves t)" "finite (dom (leaf_map t))"
proof -
  have "distinct (map fst (leaves t))"
    using assms ascending_distinct [OF contents_ascending, of n "annotate t"] by (auto elim: wf_trie_cases)
  then show "card (dom (leaf_map t)) = length (leaves t)"
    using distinct_card [of "map fst (leaves t)"] by (simp add: leaf_map_def dom_map_of_conv_image_fst)
qed (simp add: leaf_map_def finite_dom_map_of)

lemma leaf_map_relabelled:
  assumes "relabelled g t d t'"
  shows "leaf_map t' k = map_option (\<lambda>(v, m). (v, g k m)) (leaf_map t k)"
proof -
  have "map_of (map (\<lambda>(k, v, m). (k, v, g k m)) xs) k = map_option (\<lambda>(v, m). (v, g k m)) (map_of xs k)" for xs
    by (induction xs) auto
  then show ?thesis using assms by (simp add: relabelled_def leaf_map_def)
qed

lemma leaf_map_filter:
  assumes "wf_trie n t" "wf_trie n t'" "leaves t' = filter P (leaves t)"
  shows "leaf_map t' k = (case leaf_map t k of None \<Rightarrow> None | Some x \<Rightarrow> if P (k, x) then Some x else None)"
proof (rule option_ext)
  fix y :: "'a \<times> Metadata"
  obtain v m where y: "y = (v, m)" by (cases y)
  have "(case z of None \<Rightarrow> None | Some x \<Rightarrow> if P (k, x) then Some x else None) = Some y \<longleftrightarrow> z = Some y \<and> P (k, y)" for z
    by (auto split: option.split)
  then show "leaf_map t' k = Some y \<longleftrightarrow> (case leaf_map t k of None \<Rightarrow> None | Some x \<Rightarrow> if P (k, x) then Some x else None) = Some y"
    using leaf_map_iff [OF assms(1), of k v m] leaf_map_iff [OF assms(2), of k v m] assms(3) by (simp add: y)
qed

lemma annotated_policy:
  assumes "insert_policy F"
  shows "trie_insert_policy (annotated_fn F)"
proof -
  note eqs = insert_policy.leaf_value_eq [OF assms] insert_policy.leaf_metadata_eq [OF assms]
    insert_policy.metadata_insert_eq [OF assms]
  show ?thesis
  proof unfold_locales
    show "leaf_value (annotated_fn F) k i = value_insert (annotated_fn F) (new_value (annotated_fn F) k) i" for k i
      using eqs(1) [of k i] eqs(2) [of i k] by simp
    show "leaf_metadata (annotated_fn F) i = new_metadata (annotated_fn F) (leaf_value (annotated_fn F) k i)" for i k
      using eqs(2) [of i k] by simp
  qed (simp add: eqs(3))
qed

context trie_insert_policy
begin

lemma leaf_map_insert:
  assumes wf: "wf_trie n (root T)" and k: "length k = n" and T': "trie_insert F k i T = Inr T'"
  shows "leaf_map (root T') =
    (leaf_map (root T))(k \<mapsto> (let v = stored (trie_map (root T) k) k i in (v, new_metadata F v)))"
proof -
  let ?T = "\<lparr>root = annotate (root T), root_hash = None\<rparr>" and ?F = "annotated_fn F"
  have pol: "insert_policy F" by unfold_locales
  have eq: "trie_insert ?F k i ?T = Inr \<lparr>root = annotate (root T'), root_hash = None\<rparr>"
    using T' annotate_insert [OF pol, of k i "root T"] by (auto simp: trie_insert_def)
  have wf': "wf_trie n (annotate (root T))"
    using wf by (cases "root T") (auto simp: wf_trie_def is_empty_node_def)
  have "insert_policy.stored ?F x k i = (let v = stored (map_option fst x) k i in (v, new_metadata F v))" for x
    using trie_insert_policy.axioms [OF annotated_policy [OF pol]]
    by (auto simp: insert_policy.stored_def [OF _] stored_def Let_def split: option.split)
  then show ?thesis
    using trie_insert_policy.trie_insert_correct [OF annotated_policy [OF pol], of n ?T k i] eq wf' k
    by (simp add: trie_map_annotate trie_map_leaf_map)
qed

end

section \<open>Programs over a trie\<close>

datatype 'v trie_op =
    Insert key 'v
  | Insert_new key 'v
  | Mark key
  | Unmark key
  | Delete key
  | Apply_deletions
  | Mark_below key
  | Mark_all
  | Clear_marks
  | Clear_rollback
  | Rehash

text \<open>\<open>Insert\<close> overwrites, \<open>Insert_new\<close> inserts with the rollback flag, \<open>Rehash\<close> is \<open>freeze_and_hash\<close>.\<close>

fun run_op :: "'v hash_env \<Rightarrow> bool \<Rightarrow> ('v \<Rightarrow> Metadata) \<Rightarrow> 'v \<Rightarrow> 'v trie_op \<Rightarrow> 'v MerkleTrie \<Rightarrow> 'v MerkleTrie res" where
  "run_op E ul mk dflt (Insert k v) T = trie_insert (OverwriteInsertFn mk dflt) k v T"
| "run_op E ul mk dflt (Insert_new k v) T = trie_insert (RollbackInsertFn mk dflt) k v T"
| "run_op E ul mk dflt (Mark k) T = res_bind (trie_mark_for_deletion k T) (\<lambda>(v, T'). Inr T')"
| "run_op E ul mk dflt (Unmark k) T = res_bind (trie_unmark_for_deletion k T) (\<lambda>(v, T'). Inr T')"
| "run_op E ul mk dflt (Delete k) T = res_bind (trie_perform_deletion k T) (\<lambda>(v, T'). Inr T')"
| "run_op E ul mk dflt Apply_deletions T = res_bind (trie_perform_marked_deletions T) (\<lambda>(T', out). Inr T')"
| "run_op E ul mk dflt (Mark_below k) T = trie_mark_subtree_lt_key ul k T"
| "run_op E ul mk dflt Mark_all T = Inr (trie_mark_entire_tree T)"
| "run_op E ul mk dflt Clear_marks T = Inr (trie_clear_marked_deletions T)"
| "run_op E ul mk dflt Clear_rollback T = Inr (trie_clear_rollback T)"
| "run_op E ul mk dflt Rehash T = res_bind (freeze_and_hash E True T) (\<lambda>(h, T'). Inr T')"

fun run_ops :: "'v hash_env \<Rightarrow> bool \<Rightarrow> ('v \<Rightarrow> Metadata) \<Rightarrow> 'v \<Rightarrow> 'v trie_op list \<Rightarrow> 'v MerkleTrie \<Rightarrow> 'v MerkleTrie res" where
  "run_ops E ul mk dflt [] T = Inr T"
| "run_ops E ul mk dflt (x # xs) T = res_bind (run_op E ul mk dflt x T) (run_ops E ul mk dflt xs)"

text \<open>The specification.\<close>

definition relabel :: "(key \<Rightarrow> Metadata \<Rightarrow> Metadata) \<Rightarrow> (key \<Rightarrow> ('v \<times> Metadata) option) \<Rightarrow> key \<Rightarrow> ('v \<times> Metadata) option" where
  "relabel g A k = map_option (\<lambda>(v, m). (v, g k m)) (A k)"

definition live_part :: "(key \<Rightarrow> ('v \<times> Metadata) option) \<Rightarrow> key \<Rightarrow> ('v \<times> Metadata) option" where
  "live_part A k = (case A k of None \<Rightarrow> None | Some (v, m) \<Rightarrow> if num_deleted_subnodes m = 0 then Some (v, m) else None)"

fun spec_op :: "('v \<Rightarrow> Metadata) \<Rightarrow> 'v trie_op \<Rightarrow> (key \<Rightarrow> ('v \<times> Metadata) option) \<Rightarrow> key \<Rightarrow> ('v \<times> Metadata) option" where
  "spec_op mk (Insert k v) A = A(k \<mapsto> (v, mk v))"
| "spec_op mk (Insert_new k v) A = A(k \<mapsto> (v, set_rollback 1 (mk v)))"
| "spec_op mk (Mark k) A = relabel (marking (\<lambda>x. x = k)) A"
| "spec_op mk (Unmark k) A = relabel (unmarking (\<lambda>x. x = k)) A"
| "spec_op mk (Delete k) A = A(k := None)"
| "spec_op mk Apply_deletions A = live_part A"
| "spec_op mk (Mark_below k) A = relabel (marking (\<lambda>x. key_less x k)) A"
| "spec_op mk Mark_all A = relabel (marking (\<lambda>x. True)) A"
| "spec_op mk Clear_marks A = relabel (\<lambda>k. set_deleted 0) A"
| "spec_op mk Clear_rollback A = relabel (\<lambda>k. set_rollback 0) A"
| "spec_op mk Rehash A = A"

fun op_key_ok :: "nat \<Rightarrow> 'v trie_op \<Rightarrow> bool" where
  "op_key_ok n (Insert k v) = (length k = n)"
| "op_key_ok n (Insert_new k v) = (length k = n)"
| "op_key_ok n (Mark k) = (length k = n)"
| "op_key_ok n (Unmark k) = (length k = n)"
| "op_key_ok n (Delete k) = (length k = n)"
| "op_key_ok n (Mark_below k) = (length k = n)"
| "op_key_ok n x = True"

text \<open>The operations that invalidate the hashes they should.\<close>

fun hash_safe :: "'v trie_op \<Rightarrow> bool" where
  "hash_safe (Mark_below k) = False"
| "hash_safe Mark_all = False"
| "hash_safe Clear_marks = False"
| "hash_safe x = True"

abbreviation flags_ok :: "'v \<Rightarrow> Metadata \<Rightarrow> bool" where
  "flags_ok v m \<equiv> md_size m = 1 \<and> (num_deleted_subnodes m = 0 \<or> num_deleted_subnodes m = 1) \<and>
     (num_rollback_subnodes m = 0 \<or> num_rollback_subnodes m = 1)"

text \<open>\<open>MetadataType(value)\<close> of every trie: one leaf, no flags.\<close>

definition fresh_metadata :: "('v \<Rightarrow> Metadata) \<Rightarrow> bool" where
  "fresh_metadata mk \<longleftrightarrow> (\<forall>v. md_size (mk v) = 1 \<and> num_deleted_subnodes (mk v) = 0 \<and> num_rollback_subnodes (mk v) = 0)"

definition trie_inv :: "nat \<Rightarrow> 'v MerkleTrie \<Rightarrow> bool" where
  "trie_inv n T \<longleftrightarrow> wf_trie n (root T) \<and> meta_ok flags_ok (root T)"

text \<open>The hash of a trie, as a function of its leaves that are not marked.\<close>

definition trie_digest :: "'v hash_env \<Rightarrow> 'v node \<Rightarrow> Hash" where
  "trie_digest E t =
     (let num_live = of_nat (length (filter unmarked (leaves t))) :: u32
      in SHA256 E (big_endian_bytes 4 num_live @ (if num_live = 0 then replicate 32 0 else digest E True t)))"

definition hash_inv :: "'v hash_env \<Rightarrow> 'v MerkleTrie \<Rightarrow> bool" where
  "hash_inv E T \<longleftrightarrow> cache_ok E True (root T) \<and> (\<forall>h. root_hash T = Some h \<longrightarrow> h = trie_digest E (root T))"

lemma flags_marks: "meta_ok flags_ok t \<Longrightarrow> meta_ok marks_ok t" "meta_ok flags_ok t \<Longrightarrow> meta_ok unit_size t"
  by (erule meta_ok_mono; simp)+

lemma live_part_trie:
  assumes "wf_trie n t" "wf_trie n t'" "leaves t' = filter unmarked (leaves t)"
  shows "leaf_map t' = live_part (leaf_map t)"
  by (rule ext) (use leaf_map_filter [OF assms] in \<open>auto simp: live_part_def deleted_count.unflagged_def split: option.split\<close>)

section \<open>The hash depends on the live contents only\<close>

lemma digest_live:
  assumes t: "wf_trie n t" "meta_ok marks_ok t" "length (leaves t) < 2 ^ 32"
    and u: "wf_trie n u" "meta_ok marks_ok u" "length (leaves u) < 2 ^ 32"
    and eq: "map drop_md (filter unmarked (leaves t)) = map drop_md (filter unmarked (leaves u))"
    and ne: "filter unmarked (leaves t) \<noteq> []"
  shows "digest E True t = digest E True u"
proof -
  have clean: "\<exists>x. wf_trie n x \<and> contents x = map drop_md (filter unmarked (leaves y)) \<and> digest E False x = digest E True y"
    if y: "wf_trie n y" "meta_ok marks_ok y" "length (leaves y) < 2 ^ 32" "filter unmarked (leaves y) \<noteq> []" for y :: "'a node"
  proof -
    obtain T' :: "'a MerkleTrie" where T': "wf_trie n (root T')" "leaves (root T') = filter unmarked (leaves y)"
      "meta_ok marks_ok (root T')" "digest E True (root T') = digest E True y"
      using trie_perform_marked_deletions_correct [of n "\<lparr>root = y, root_hash = None\<rparr>"] y by auto
    have "wf_node n (root T')" using T'(1,2) y(4) by (auto elim: wf_trie_cases)
    moreover have "length (leaves (root T')) < 2 ^ 32"
      unfolding T'(2) by (rule le_less_trans [OF length_filter_le y(3)])
    moreover have "filter marked (leaves (root T')) = []"
      by (auto simp: T'(2) filter_empty_conv deleted_count.flagged_def deleted_count.unflagged_def)
    ultimately have "digest E True (root T') = digest E False (root T')" using T'(3) by (intro digest_unmarked)
    then show ?thesis using T' by (intro exI [of _ "root T'"]) (simp add: contents_leaves)
  qed
  have ne': "filter unmarked (leaves u) \<noteq> []" using ne eq by (auto dest: map_eq_imp_length_eq)
  obtain x where x: "wf_trie n x" "contents x = map drop_md (filter unmarked (leaves t))" "digest E False x = digest E True t"
    using clean [OF t ne] by blast
  obtain y where y: "wf_trie n y" "contents y = map drop_md (filter unmarked (leaves u))" "digest E False y = digest E True u"
    using clean [OF u ne'] by blast
  have "skeleton x = skeleton y" using skeleton_determined [OF x(1) y(1)] x(2) y(2) eq by (simp add: trie_map_def)
  then show ?thesis using digest_skeleton [of x y E] x(3) y(3) by simp
qed

lemma trie_digest_live:
  assumes "wf_trie n t" "meta_ok marks_ok t" "length (leaves t) < 2 ^ 32"
    and "wf_trie n u" "meta_ok marks_ok u" "length (leaves u) < 2 ^ 32"
    and eq: "map drop_md (filter unmarked (leaves t)) = map drop_md (filter unmarked (leaves u))"
  shows "trie_digest E t = trie_digest E u"
proof -
  have "length (filter unmarked (leaves t)) = length (filter unmarked (leaves u))"
    using eq by (rule map_eq_imp_length_eq)
  then show ?thesis using digest_live [OF assms] by (cases "filter unmarked (leaves t) = []") (auto simp: trie_digest_def Let_def)
qed

section \<open>Each operation refines its specification\<close>

text \<open>What a step from \<open>T\<close> to \<open>T'\<close> with the abstract result \<open>A\<close> keeps.\<close>

definition refines :: "nat \<Rightarrow> 'v MerkleTrie \<Rightarrow> 'v MerkleTrie \<Rightarrow> (key \<Rightarrow> ('v \<times> Metadata) option) \<Rightarrow> bool" where
  "refines n T T' A \<longleftrightarrow> trie_inv n T' \<and> leaf_map (root T') = A"

definition few_leaves :: "'v MerkleTrie \<Rightarrow> bool" where
  "few_leaves T \<longleftrightarrow> card (dom (leaf_map (root T))) < 2 ^ 32"

lemma few_leaves_iff: "trie_inv n T \<Longrightarrow> few_leaves T \<longleftrightarrow> length (leaves (root T)) < 2 ^ 32"
  using card_leaf_map(1) [of n "root T"] by (simp add: few_leaves_def trie_inv_def)

context trie_insert_policy
begin

lemma insert_refines:
  assumes inv: "trie_inv n T" and k: "length k = n" and md: "\<And>v. flags_ok v (new_metadata F v)"
  shows "\<exists>T'. trie_insert F k i T = Inr T' \<and>
    refines n T T' ((leaf_map (root T))(k \<mapsto> (let v = stored (trie_map (root T) k) k i in (v, new_metadata F v)))) \<and>
    (hash_inv E T \<longrightarrow> hash_inv E T')"
proof -
  have wf: "wf_trie n (root T)" "meta_ok flags_ok (root T)" using inv by (simp_all add: trie_inv_def)
  obtain t' where t': "trie_insert F k i T = Inr \<lparr>root = t', root_hash = None\<rparr>" "wf_trie n t'"
    "\<forall>L. meta_ok L (root T) \<longrightarrow>
       L (stored (trie_map (root T) k) k i) (new_metadata F (stored (trie_map (root T) k) k i)) \<longrightarrow> meta_ok L t'"
    "\<forall>E ign. cache_ok E ign (root T) \<longrightarrow> cache_ok E ign t'"
    using trie_insert_correct [OF wf(1) k, of i] by blast
  have "meta_ok flags_ok t'" using t'(3) wf(2) md by blast
  then have "trie_inv n \<lparr>root = t', root_hash = None\<rparr>" using t'(2) by (simp add: trie_inv_def)
  moreover have "hash_inv E T \<longrightarrow> hash_inv E \<lparr>root = t', root_hash = None\<rparr>" using t'(4) by (simp add: hash_inv_def)
  ultimately show ?thesis using t'(1) leaf_map_insert [OF wf(1) k t'(1)] by (simp add: refines_def)
qed

end

lemma deletion_refines:
  assumes inv: "trie_inv n T" and k: "length k = n" and few: "few_leaves T"
  shows "\<exists>T'. trie_perform_deletion k T = Inr (trie_map (root T) k, T') \<and>
    refines n T T' ((leaf_map (root T))(k := None)) \<and> (hash_inv E T \<longrightarrow> hash_inv E T')"
proof -
  have wf: "wf_trie n (root T)" "meta_ok flags_ok (root T)" using inv by (simp_all add: trie_inv_def)
  have len: "length (leaves (root T)) < 2 ^ 32" using few few_leaves_iff [OF inv] by simp
  obtain T' where T': "trie_perform_deletion k T = Inr (trie_map (root T) k, T')" "wf_trie n (root T')"
    "leaves (root T') = filter (\<lambda>x. fst x \<noteq> k) (leaves (root T))" "meta_ok unit_size (root T')"
    "root_hash T' = (if trie_map (root T) k = None then root_hash T else None)"
    "\<forall>E ign. cache_ok E ign (root T) \<longrightarrow> cache_ok E ign (root T')"
    using trie_perform_deletion_correct [OF wf(1) k flags_marks(2) [OF wf(2)] len] by blast
  have "sums_ok (root T')" using T'(4) by (rule meta_ok_mono) simp
  then have mok: "meta_ok flags_ok (root T')" using wf(2) by (rule meta_ok_filter) (simp add: T'(3))
  have "leaf_map (root T') = (leaf_map (root T))(k := None)"
    by (rule ext) (use leaf_map_filter [OF wf(1) T'(2,3)] in \<open>auto split: option.split\<close>)
  then have ref: "refines n T T' ((leaf_map (root T))(k := None))"
    using T'(2) mok by (simp add: refines_def trie_inv_def)
  have "trie_digest E (root T') = trie_digest E (root T)" if none: "trie_map (root T) k = None"
  proof -
    have "leaves (root T') = leaves (root T)"
      using trie_map_leaf [OF wf(1), of k] none unfolding T'(3) by (auto intro: filter_True)
    then show ?thesis
      using len by (intro trie_digest_live [OF T'(2) flags_marks(1) [OF mok] _ wf(1) flags_marks(1) [OF wf(2)]]) simp_all
  qed
  then have "hash_inv E T \<longrightarrow> hash_inv E T'" using T'(5,6) by (auto simp: hash_inv_def)
  then show ?thesis using T'(1) ref by blast
qed

lemma relabel_refines:
  assumes inv: "trie_inv n T" and r: "relabelled g (root T) d t'" and g: "\<And>k v m. flags_ok v m \<Longrightarrow> flags_ok v (g k m)"
  shows "refines n T \<lparr>root = t', root_hash = h\<rparr> (relabel g (leaf_map (root T)))"
proof -
  have wf: "wf_trie n (root T)" "meta_ok flags_ok (root T)" using inv by (simp_all add: trie_inv_def)
  have "sums_ok t'" using r wf(2) unfolding relabelled_def meta_ok_iff [of flags_ok] by blast
  moreover have "\<forall>x \<in> set (leaves t'). flags_ok (fst (snd x)) (leaf_md x)"
    using r wf(2) g unfolding relabelled_def meta_ok_iff [of flags_ok] by fastforce
  ultimately have "meta_ok flags_ok t'" unfolding meta_ok_iff [of flags_ok] by blast
  moreover have "wf_trie n t'"
    using wf(1)
  proof (cases rule: wf_trie_cases)
    case 1
    then obtain h where "root T = Inner [] [] 0 h" using empty_node_cases by blast
    then have "skeleton t' = Skel_Inner [] []" using r by (simp add: relabelled_def)
    then show ?thesis using \<open>sums_ok t'\<close> wf(1) by (cases t') (auto simp: wf_trie_def is_empty_node_def)
  next
    case 2
    then show ?thesis using wf(1) relabelled_wf [OF r] by (simp add: wf_trie_def)
  qed
  ultimately show ?thesis
    using leaf_map_relabelled [OF r] by (auto simp: refines_def trie_inv_def relabel_def)
qed

lemma marking_flags [simp]:
  "flags_ok v m \<Longrightarrow> flags_ok v (marking P k m)" "flags_ok v m \<Longrightarrow> flags_ok v (unmarking P k m)"
  by (auto simp: marking_def unmarking_def)

lemma marking_marks: "m = marking P k m \<longleftrightarrow> \<not> (P k \<and> num_deleted_subnodes m = 0)"
  by (cases m) (auto simp: marking_def set_deleted_def)

text \<open>Marking: a trie on which nothing changed keeps its hash.\<close>

lemma relabel_hash:
  assumes inv: "trie_inv n T" and len: "length (leaves (root T)) < 2 ^ 32" and r: "relabelled g (root T) d t'"
    and T': "trie_inv n \<lparr>root = t', root_hash = h\<rparr>"
    and same: "h \<noteq> None \<Longrightarrow> \<forall>(k, v, m) \<in> set (leaves (root T)). num_deleted_subnodes (g k m) = num_deleted_subnodes m"
    and h: "h \<noteq> None \<Longrightarrow> h = root_hash T"
    and cache: "cache_ok E True (root T) \<Longrightarrow> cache_ok E True t'"
  shows "hash_inv E T \<longrightarrow> hash_inv E \<lparr>root = t', root_hash = h\<rparr>"
proof -
  have "trie_digest E t' = trie_digest E (root T)" if "h \<noteq> None"
  proof (rule trie_digest_live)
    have "map drop_md (filter unmarked (map (\<lambda>(k, v, m). (k, v, g k m)) xs)) = map drop_md (filter unmarked xs)"
      if "\<forall>(k, v, m) \<in> set xs. num_deleted_subnodes (g k m) = num_deleted_subnodes m" for xs :: "(key \<times> 'a \<times> Metadata) list"
      using that by (induction xs) (auto simp: deleted_count.unflagged_def)
    then show "map drop_md (filter unmarked (leaves t')) = map drop_md (filter unmarked (leaves (root T)))"
      using same [OF that] r by (simp add: relabelled_def)
    show "length (leaves t') < 2 ^ 32" "length (leaves (root T)) < 2 ^ 32" using len r by (simp_all add: relabelled_def)
  qed (use inv T' flags_marks(1) in \<open>auto simp: trie_inv_def\<close>)
  then show ?thesis using h cache by (auto simp: hash_inv_def)
qed

text \<open>The node operations on a root that may be empty.\<close>

lemma branch_bits_root: "0 < n \<Longrightarrow> length k = n \<Longrightarrow> \<exists>b. branch_bits k 0 = Inr b"
  by (cases k) (auto simp: branch_bits_def)

lemma mark_node:
  assumes "wf_trie n t" "length k = n"
  shows "\<exists>d obj t'. node_mark_for_deletion k t = Inr ((d, obj), t') \<and>
    relabelled (marking (\<lambda>x. x = k)) t d t' \<and>
    (\<forall>v. obj = Some v \<longleftrightarrow> (\<exists>m. (k, v, m) \<in> set (leaves t) \<and> num_deleted_subnodes m = 0))"
  using assms(1)
proof (cases rule: wf_trie_cases)
  case 1
  then obtain h where "t = Inner [] [] 0 h" using empty_node_cases by blast
  then show ?thesis
    using assms branch_bits_root [of n k] by (auto simp: wf_trie_def child_find_def relabelled_def)
qed (use node_mark_for_deletion_correct [OF _ assms(2)] in blast)

lemma unmark_node:
  assumes "wf_trie n t" "length k = n"
  shows "\<exists>d obj t'. node_unmark_for_deletion k t = Inr ((d, obj), t') \<and>
    relabelled (unmarking (\<lambda>x. x = k)) t d t' \<and>
    (\<forall>v. obj = Some v \<longleftrightarrow> (\<exists>m. (k, v, m) \<in> set (leaves t) \<and> num_deleted_subnodes m = 1)) \<and>
    (\<forall>E ign. cache_ok E ign t \<longrightarrow> cache_ok E ign t')"
  using assms(1)
proof (cases rule: wf_trie_cases)
  case 1
  then obtain h where "t = Inner [] [] 0 h" using empty_node_cases by blast
  then show ?thesis
    using assms branch_bits_root [of n k] by (auto simp: wf_trie_def child_find_def relabelled_def)
next
  case 2
  obtain d obj t' where "node_unmark_for_deletion k t = Inr ((d, obj), t')"
    "relabelled (unmarking (\<lambda>x. x = k)) t d t'"
    "\<forall>v. obj = Some v \<longleftrightarrow> (\<exists>m. (k, v, m) \<in> set (leaves t) \<and> num_deleted_subnodes m = 1)"
    using node_unmark_for_deletion_correct [OF 2(1) assms(2)] by blast
  then show ?thesis using cache_unmark [OF 2(1)] by blast
qed

lemma flip_refines:
  assumes inv: "trie_inv n T" and few: "few_leaves T" and r: "relabelled g (root T) d t'"
    and g: "\<And>k v m. flags_ok v m \<Longrightarrow> flags_ok v (g k m)"
    and same: "obj = None \<Longrightarrow> \<forall>(k, v, m) \<in> set (leaves (root T)). num_deleted_subnodes (g k m) = num_deleted_subnodes m"
    and cache: "cache_ok E True (root T) \<Longrightarrow> cache_ok E True t'"
  shows "let T' = \<lparr>root = t', root_hash = (if obj = None then root_hash T else None)\<rparr>
    in refines n T T' (relabel g (leaf_map (root T))) \<and> (hash_inv E T \<longrightarrow> hash_inv E T')"
proof -
  define h where "h = (if obj = None then root_hash T else None)"
  have ref: "refines n T \<lparr>root = t', root_hash = h\<rparr> (relabel g (leaf_map (root T)))"
    by (rule relabel_refines [OF inv r g])
  have len: "length (leaves (root T)) < 2 ^ 32" using few few_leaves_iff [OF inv] by simp
  have "hash_inv E T \<longrightarrow> hash_inv E \<lparr>root = t', root_hash = h\<rparr>"
    using ref same cache by (intro relabel_hash [OF inv len r]) (auto simp: h_def refines_def split: if_splits)
  then show ?thesis using ref by (simp add: Let_def h_def)
qed

lemma mark_refines:
  assumes inv: "trie_inv n T" and k: "length k = n" and few: "few_leaves T"
  shows "\<exists>obj T'. trie_mark_for_deletion k T = Inr (obj, T') \<and>
    refines n T T' (relabel (marking (\<lambda>x. x = k)) (leaf_map (root T))) \<and> (hash_inv E T \<longrightarrow> hash_inv E T') \<and>
    (\<forall>v. obj = Some v \<longleftrightarrow> (\<exists>m. leaf_map (root T) k = Some (v, m) \<and> num_deleted_subnodes m = 0))"
proof -
  have wf: "wf_trie n (root T)" using inv by (simp add: trie_inv_def)
  obtain d obj t' where r: "node_mark_for_deletion k (root T) = Inr ((d, obj), t')"
    "relabelled (marking (\<lambda>x. x = k)) (root T) d t'"
    "\<forall>v. obj = Some v \<longleftrightarrow> (\<exists>m. (k, v, m) \<in> set (leaves (root T)) \<and> num_deleted_subnodes m = 0)"
    using mark_node [OF wf k] by blast
  have "\<forall>(k', v, m) \<in> set (leaves (root T)). num_deleted_subnodes (marking (\<lambda>x. x = k) k' m) = num_deleted_subnodes m"
    if "obj = None" using that r(3) by (auto simp: marking_def)
  note flip_refines [OF inv few r(2) _ this cache_mark [OF r(1)], where E = E and obj = obj]
  then show ?thesis
    using r(3) leaf_map_iff [OF wf] by (auto simp: trie_mark_for_deletion_def r(1) Let_def)
qed

lemma unmark_refines:
  assumes inv: "trie_inv n T" and k: "length k = n" and few: "few_leaves T"
  shows "\<exists>obj T'. trie_unmark_for_deletion k T = Inr (obj, T') \<and>
    refines n T T' (relabel (unmarking (\<lambda>x. x = k)) (leaf_map (root T))) \<and> (hash_inv E T \<longrightarrow> hash_inv E T') \<and>
    (\<forall>v. obj = Some v \<longleftrightarrow> (\<exists>m. leaf_map (root T) k = Some (v, m) \<and> num_deleted_subnodes m = 1))"
proof -
  have wf: "wf_trie n (root T)" using inv by (simp add: trie_inv_def)
  obtain d obj t' where r: "node_unmark_for_deletion k (root T) = Inr ((d, obj), t')"
    "relabelled (unmarking (\<lambda>x. x = k)) (root T) d t'"
    "\<forall>v. obj = Some v \<longleftrightarrow> (\<exists>m. (k, v, m) \<in> set (leaves (root T)) \<and> num_deleted_subnodes m = 1)"
    and cache: "\<forall>E ign. cache_ok E ign (root T) \<longrightarrow> cache_ok E ign t'"
    using unmark_node [OF wf k] by blast
  have "\<forall>(k', v, m) \<in> set (leaves (root T)). num_deleted_subnodes (unmarking (\<lambda>x. x = k) k' m) = num_deleted_subnodes m"
    if "obj = None" using that r(3) by (auto simp: unmarking_def)
  note flip_refines [OF inv few r(2) _ this cache [rule_format], where E = E and obj = obj]
  then show ?thesis
    using r(3) leaf_map_iff [OF wf] by (auto simp: trie_unmark_for_deletion_def r(1) Let_def)
qed

lemma marked_deletions_refine:
  assumes inv: "trie_inv n T" and few: "few_leaves T"
  shows "\<exists>T'. trie_perform_marked_deletions T = Inr (T', map drop_md (filter marked (leaves (root T)))) \<and>
    refines n T T' (live_part (leaf_map (root T))) \<and> (hash_inv E T \<longrightarrow> hash_inv E T')"
proof -
  have wf: "wf_trie n (root T)" "meta_ok flags_ok (root T)" using inv by (simp_all add: trie_inv_def)
  have len: "length (leaves (root T)) < 2 ^ 32" using few few_leaves_iff [OF inv] by simp
  obtain T' where T': "trie_perform_marked_deletions T = Inr (T', map drop_md (filter marked (leaves (root T))))"
    "wf_trie n (root T')" "leaves (root T') = filter unmarked (leaves (root T))" "meta_ok marks_ok (root T')"
    "\<forall>E ign. cache_ok E ign (root T) \<longrightarrow> cache_ok E ign (root T')"
    using trie_perform_marked_deletions_correct [OF wf(1) flags_marks(1) [OF wf(2)] len] by blast
  have "sums_ok (root T')" using T'(4) by (rule meta_ok_mono) simp
  then have "meta_ok flags_ok (root T')" using wf(2) by (rule meta_ok_filter) (simp add: T'(3))
  then have "refines n T T' (live_part (leaf_map (root T)))"
    using T'(2) live_part_trie [OF wf(1) T'(2,3)] by (simp add: refines_def trie_inv_def)
  moreover have "T' = T \<or> root_hash T' = None"
    using T'(1) by (auto simp: trie_perform_marked_deletions_def Let_def split: if_splits)
  then have "hash_inv E T \<longrightarrow> hash_inv E T'" using T'(5) by (auto simp: hash_inv_def)
  ultimately show ?thesis using T'(1) by blast
qed

lemma relabel_id: "relabel (\<lambda>k m. m) A = A"
  by (rule ext) (auto simp: relabel_def map_option_case split: option.split)

lemma root_hash_digest:
  assumes "meta_ok marks_ok t" "length (leaves t) < 2 ^ 32" "cached t = Some (digest E True t)"
  shows "get_root_hash E True t = trie_digest E t"
proof -
  have "length (leaves t) = length (filter marked (leaves t)) + length (filter unmarked (leaves t))"
    by (simp add: unmarked_iff sum_length_filter_compl)
  moreover have "num_deleted_subnodes (metadata t) = of_nat (length (filter marked (leaves t)))"
    unfolding live_counts(2) [OF assms(1,2), symmetric] by simp
  moreover have "md_size (metadata t) = of_nat (length (leaves t))"
    by (rule md_size_leaves) (rule meta_ok_mono [OF assms(1)], simp)
  then have "ucast (md_size (metadata t)) = (of_nat (length (leaves t)) :: u32)"
    using assms(2) by (simp add: unsigned_of_nat take_bit_nat_eq_self)
  ultimately have "ucast (md_size (metadata t)) - num_deleted_subnodes (metadata t) =
      (of_nat (length (filter unmarked (leaves t))) :: u32)"
    by simp
  then show ?thesis using assms(3) by (simp add: get_root_hash_def trie_digest_def Let_def node_hash_def)
qed

lemma rehash_refines:
  assumes inv: "trie_inv n T" and few: "few_leaves T" and hash: "hash_inv E T"
  shows "\<exists>T'. freeze_and_hash E True T = Inr (trie_digest E (root T), T') \<and>
    refines n T T' (leaf_map (root T)) \<and> hash_inv E T'"
proof (cases "root_hash T")
  case (Some h)
  then show ?thesis using inv hash by (auto simp: freeze_and_hash_def refines_def hash_inv_def)
next
  case None
  have wf: "wf_trie n (root T)" "meta_ok flags_ok (root T)" using inv by (simp_all add: trie_inv_def)
  have len: "length (leaves (root T)) < 2 ^ 32" using few few_leaves_iff [OF inv] by simp
  obtain t' where t': "compute_hash E True (root T) = Inr t'" "cached t' = Some (digest E True (root T))"
    "cache_ok E True t'" "digest E True t' = digest E True (root T)" "same_but_cache (root T) t'"
    using compute_hash_correct [of E True "root T"] hash counts_ok_marks [OF flags_marks(1) [OF wf(2)] len]
    by (auto simp: hash_inv_def)
  have "relabelled (\<lambda>k m. m) (root T) 0 t'" using t'(5) by (auto simp: same_but_cache_def relabelled_def)
  from relabel_refines [OF inv this, of "Some (trie_digest E (root T))"]
  have ref: "refines n T \<lparr>root = t', root_hash = Some (trie_digest E (root T))\<rparr> (leaf_map (root T))"
    by (simp add: relabel_id)
  have "leaves t' = leaves (root T)" using t'(5) by (simp add: same_but_cache_def)
  then have "trie_digest E t' = trie_digest E (root T)" using t'(4) by (simp add: trie_digest_def Let_def)
  moreover have "get_root_hash E True t' = trie_digest E t'"
    using t'(2,4,5) len flags_marks(1) [OF wf(2)] by (intro root_hash_digest) (auto simp: same_but_cache_def)
  ultimately show ?thesis
    using None t'(1,3) ref by (simp add: freeze_and_hash_def Let_def hash_inv_def)
qed

lemma mark_below_node:
  assumes "wf_trie n t" "length k = n"
  shows "\<exists>d t'. node_mark_subtree_lt ul k t = Inr (d, t') \<and> relabelled (marking (\<lambda>x. key_less x k)) t d t'"
  using assms(1)
proof (cases rule: wf_trie_cases)
  case 1
  then obtain h where "t = Inner [] [] 0 h" using empty_node_cases by blast
  then show ?thesis
    using assms branch_bits_root [of n k] by (auto simp: wf_trie_def relabelled_def)
qed (use node_mark_subtree_lt_correct [OF _ assms(2)] in blast)

lemma relabel_root:
  assumes "trie_inv n T" "relabelled g (root T) d t'" "\<And>k v m. flags_ok v m \<Longrightarrow> flags_ok v (g k m)"
  shows "refines n T (T\<lparr>root := t'\<rparr>) (relabel g (leaf_map (root T)))"
  using relabel_refines [OF assms, of "root_hash T"] by (cases T) simp

lemma policy_metadata [simp]:
  "new_metadata (OverwriteInsertFn mk dflt) = mk" "new_metadata (RollbackInsertFn mk dflt) v = set_rollback 1 (mk v)"
  by (simp_all add: OverwriteInsertFn_def RollbackInsertFn_def)

text \<open>The rollback flags are not hashed.\<close>

lemma metadata_clear_rollback:
  "md_size (metadata (node_clear_rollback t)) = md_size (metadata t)"
  "num_deleted_subnodes (metadata (node_clear_rollback t)) = num_deleted_subnodes (metadata t)"
  by (cases t; simp add: node_clear_rollback_def)+

lemma digest_clear_rollback: "digest E ign (node_clear_rollback t) = digest E ign t"
proof (induction t rule: node_induct)
  case (Inner p cs m h)
  have "map (\<lambda>(b, c). (b, digest E ign c))
      (filter (\<lambda>(b, c). ign \<longrightarrow> has_live c) (map (\<lambda>(b, c). (b, node_clear_rollback c)) cs)) =
    map (\<lambda>(b, c). (b, digest E ign c)) (filter (\<lambda>(b, c). ign \<longrightarrow> has_live c) cs)"
    by (rule filter_map_children) (simp_all add: has_live_def metadata_clear_rollback Inner)
  then show ?case by (simp add: node_clear_rollback_def)
qed (simp add: node_clear_rollback_def)

lemma cache_clear_rollback: "cache_ok E ign t \<Longrightarrow> cache_ok E ign (node_clear_rollback t)"
proof (induction t rule: node_induct)
  case (Inner p cs m h)
  show ?case
  proof (cases "num_rollback_subnodes m = 0")
    case False
    then have t: "node_clear_rollback (Inner p cs m h') = Inner p (map (\<lambda>(b, c). (b, node_clear_rollback c)) cs) (set_rollback 0 m) h'" for h'
      by (simp add: node_clear_rollback_def)
    have "\<forall>x \<in> set (map (\<lambda>(b, c). (b, node_clear_rollback c)) cs). cache_ok E ign (snd x)"
      using Inner by fastforce
    then show ?thesis
      using Inner.prems digest_clear_rollback [of E ign "Inner p cs m None", unfolded t]
      unfolding t cache_ok.simps by simp
  qed (use Inner.prems in \<open>simp add: node_clear_rollback_def\<close>)
qed (simp add: node_clear_rollback_def)

text \<open>One step of a program.\<close>

lemma run_op_refines:
  assumes inv: "trie_inv n T" and few: "few_leaves T" and mk: "fresh_metadata mk" and key: "op_key_ok n x"
    and hash: "x = Rehash \<Longrightarrow> hash_inv E T"
  shows "\<exists>T'. run_op E ul mk dflt x T = Inr T' \<and> refines n T T' (spec_op mk x (leaf_map (root T))) \<and>
    (hash_safe x \<and> hash_inv E T \<longrightarrow> hash_inv E T')"
proof (cases x)
  case (Insert k v)
  have "flags_ok v (new_metadata (OverwriteInsertFn mk dflt) v)" for v
    using mk by (simp add: fresh_metadata_def)
  from overwrite_trie.insert_refines [OF inv _ this, of k v E] show ?thesis
    using key Insert by (simp add: Let_def)
next
  case (Insert_new k v)
  have "flags_ok v (new_metadata (RollbackInsertFn mk dflt) v)" for v
    using mk by (simp add: fresh_metadata_def)
  from rollback_trie.insert_refines [OF inv _ this, of k v E] show ?thesis
    using key Insert_new by (simp add: Let_def)
next
  case (Mark k)
  then show ?thesis using mark_refines [OF inv _ few, of k E] key by fastforce
next
  case (Unmark k)
  then show ?thesis using unmark_refines [OF inv _ few, of k E] key by fastforce
next
  case (Delete k)
  then show ?thesis using deletion_refines [OF inv _ few, of k E] key by fastforce
next
  case Apply_deletions
  then show ?thesis using marked_deletions_refine [OF inv few, of E] by fastforce
next
  case (Mark_below k)
  have wf: "wf_trie n (root T)" using inv by (simp add: trie_inv_def)
  obtain d t' where r: "node_mark_subtree_lt ul k (root T) = Inr (d, t')"
    "relabelled (marking (\<lambda>x. key_less x k)) (root T) d t'"
    using mark_below_node [OF wf, of k ul] Mark_below key by auto
  show ?thesis
    using relabel_root [OF inv r(2)] r(1) by (simp add: Mark_below trie_mark_subtree_lt_key_def)
next
  case Mark_all
  show ?thesis
    using relabel_root [OF inv node_mark_subtree_correct] by (simp add: Mark_all trie_mark_entire_tree_def)
next
  case Clear_marks
  have "relabelled (\<lambda>k. set_deleted 0) (root T) (set_deleted 0 (metadata (root T)) - metadata (root T)) (node_clear_marked_deletions (root T))"
    unfolding node_clear_marked_deletions_def
    by (rule deleted_flag.clear_flags_correct [of flags_ok]) (use inv few few_leaves_iff [OF inv] in \<open>auto simp: trie_inv_def\<close>)
  then show ?thesis
    using relabel_root [OF inv] by (simp add: Clear_marks trie_clear_marked_deletions_def)
next
  case Clear_rollback
  have r: "relabelled (\<lambda>k. set_rollback 0) (root T) (set_rollback 0 (metadata (root T)) - metadata (root T)) (node_clear_rollback (root T))"
    unfolding node_clear_rollback_def
    by (rule rollback_flag.clear_flags_correct [of flags_ok]) (use inv few few_leaves_iff [OF inv] in \<open>auto simp: trie_inv_def\<close>)
  have ref: "refines n T (T\<lparr>root := node_clear_rollback (root T)\<rparr>) (relabel (\<lambda>k. set_rollback 0) (leaf_map (root T)))"
    by (rule relabel_root [OF inv r]) simp
  have len: "length (leaves (root T)) < 2 ^ 32" using few few_leaves_iff [OF inv] by simp
  have "hash_inv E T \<longrightarrow> hash_inv E (T\<lparr>root := node_clear_rollback (root T)\<rparr>)"
    using relabel_hash [OF inv len r, of "root_hash T" E] ref cache_clear_rollback by (cases T) (auto simp: refines_def)
  then show ?thesis using ref by (simp add: Clear_rollback trie_clear_rollback_def)
next
  case Rehash
  then show ?thesis using rehash_refines [OF inv few, of E] hash by fastforce
qed

lemma spec_op_dom: "dom (spec_op mk x A) \<subseteq> dom A \<union> (case x of Insert k v \<Rightarrow> {k} | Insert_new k v \<Rightarrow> {k} | _ \<Rightarrow> {})"
  by (cases x) (auto simp: relabel_def live_part_def split: option.splits if_splits)

lemma refines_few:
  assumes inv: "trie_inv n T" and ref: "refines n T T' (spec_op mk x (leaf_map (root T)))"
  shows "card (dom (leaf_map (root T'))) \<le> Suc (card (dom (leaf_map (root T))))"
proof -
  have fin: "finite (dom (leaf_map (root T)))" using inv card_leaf_map(2) by (auto simp: trie_inv_def)
  have "card (dom A \<union> (case x of Insert k v \<Rightarrow> {k} | Insert_new k v \<Rightarrow> {k} | _ \<Rightarrow> {})) \<le> Suc (card (dom A))"
    if "finite (dom A)" for A :: "key \<Rightarrow> ('a \<times> Metadata) option"
    using that by (cases x) (auto simp: card_insert_if)
  from this [OF fin] order_trans [OF card_mono [OF _ spec_op_dom] this [OF fin]] show ?thesis
    using fin ref by (simp add: refines_def split: trie_op.split)
qed

theorem run_ops_refines:
  assumes "trie_inv n T" "card (dom (leaf_map (root T))) + length xs < 2 ^ 32" "fresh_metadata mk"
    and "list_all (op_key_ok n) xs" "Rehash \<in> set xs \<Longrightarrow> hash_inv E T \<and> list_all hash_safe xs"
  shows "\<exists>T'. run_ops E ul mk dflt xs T = Inr T' \<and> trie_inv n T' \<and>
    leaf_map (root T') = fold (spec_op mk) xs (leaf_map (root T)) \<and>
    card (dom (leaf_map (root T'))) \<le> card (dom (leaf_map (root T))) + length xs \<and>
    (list_all hash_safe xs \<and> hash_inv E T \<longrightarrow> hash_inv E T')"
  using assms
proof (induction xs arbitrary: T)
  case (Cons x xs)
  have few: "few_leaves T" using Cons.prems(2) by (simp add: few_leaves_def)
  obtain T1 where T1: "run_op E ul mk dflt x T = Inr T1" "refines n T T1 (spec_op mk x (leaf_map (root T)))"
    "hash_safe x \<and> hash_inv E T \<longrightarrow> hash_inv E T1"
    using run_op_refines [OF Cons.prems(1) few Cons.prems(3), of x E ul dflt] Cons.prems(4,5) by auto
  have inv: "trie_inv n T1" "leaf_map (root T1) = spec_op mk x (leaf_map (root T))" using T1(2) by (simp_all add: refines_def)
  have few1: "card (dom (leaf_map (root T1))) \<le> Suc (card (dom (leaf_map (root T))))"
    by (rule refines_few [OF Cons.prems(1) T1(2)])
  then have "card (dom (leaf_map (root T1))) + length xs < 2 ^ 32" using Cons.prems(2) by simp
  moreover have "list_all (op_key_ok n) xs" "Rehash \<in> set xs \<Longrightarrow> hash_inv E T1 \<and> list_all hash_safe xs"
    using Cons.prems(4,5) T1(3) by simp_all
  ultimately obtain T2 where T2: "run_ops E ul mk dflt xs T1 = Inr T2" "trie_inv n T2"
    "leaf_map (root T2) = fold (spec_op mk) xs (leaf_map (root T1))"
    "card (dom (leaf_map (root T2))) \<le> card (dom (leaf_map (root T1))) + length xs"
    "list_all hash_safe xs \<and> hash_inv E T1 \<longrightarrow> hash_inv E T2"
    using Cons.IH [OF inv(1) _ Cons.prems(3)] by blast
  then show ?case using T1(1,3) inv(2) few1 by auto
qed simp

lemma empty_trie_inv: "0 < n \<Longrightarrow> trie_inv n empty_trie" "hash_inv E empty_trie" "leaf_map (root empty_trie) = Map.empty"
  by (simp_all add: trie_inv_def empty_trie_def hash_inv_def)

text \<open>Tries with the same live contents have the same hash.\<close>

lemma live_leaves_determined:
  assumes t: "wf_trie n t" and u: "wf_trie n u"
    and eq: "\<And>k. map_option fst (live_part (leaf_map t) k) = map_option fst (live_part (leaf_map u) k)"
  shows "map drop_md (filter unmarked (leaves t)) = map drop_md (filter unmarked (leaves u))"
proof -
  have list: "map_of (map drop_md (filter unmarked L)) k = map_option fst (live_part (map_of L) k)"
    if "distinct (map fst L)" for L :: "(key \<times> 'a \<times> Metadata) list" and k
    using that
  proof (induction L)
    case (Cons x L)
    have "map_of L (fst x) = None" using Cons.prems by (simp add: map_of_eq_None_iff)
    then show ?case using Cons by (cases x) (auto simp: live_part_def deleted_count.unflagged_def)
  qed (simp add: live_part_def)
  have asc: "ascending (map fst (leaves y))" if "wf_trie n y" for y :: "'a node"
    using that contents_ascending [of n "annotate y"] by (auto simp: ascending_def elim: wf_trie_cases)
  have "ascending (map fst (map drop_md (filter unmarked (leaves y))))" if "wf_trie n y" for y :: "'a node"
    using asc [OF that] by (simp add: ascending_def sorted_wrt_map sorted_wrt_filter)
  moreover have "map_of (map drop_md (filter unmarked (leaves t))) = map_of (map drop_md (filter unmarked (leaves u)))"
    using list [OF ascending_distinct [OF asc [OF t]]] list [OF ascending_distinct [OF asc [OF u]]] eq
    by (simp add: leaf_map_def fun_eq_iff)
  ultimately show ?thesis using t u by (intro ascending_unique) blast+
qed

text \<open>
  Two programs that leave the same live key-value pairs leave the same root hash, whatever the order
  of their steps, their intermediate hashing and the marks they set.
\<close>

theorem same_live_same_hash:
  assumes "trie_inv n T" "few_leaves T" "hash_inv E T" "trie_inv n U" "few_leaves U" "hash_inv E U"
    and "\<And>k. map_option fst (live_part (leaf_map (root T)) k) = map_option fst (live_part (leaf_map (root U)) k)"
  shows "\<exists>h T' U'. freeze_and_hash E True T = Inr (h, T') \<and> freeze_and_hash E True U = Inr (h, U')"
proof -
  have wf: "wf_trie n (root T)" "wf_trie n (root U)" "meta_ok marks_ok (root T)" "meta_ok marks_ok (root U)"
    using assms(1,4) flags_marks(1) by (auto simp: trie_inv_def)
  have len: "length (leaves (root T)) < 2 ^ 32" "length (leaves (root U)) < 2 ^ 32"
    using few_leaves_iff [OF assms(1)] few_leaves_iff [OF assms(4)] assms(2,5) by simp_all
  have "trie_digest E (root T) = trie_digest E (root U)"
    by (rule trie_digest_live [OF wf(1,3) len(1) wf(2,4) len(2) live_leaves_determined [OF wf(1,2) assms(7)]])
  then show ?thesis using rehash_refines [OF assms(1-3)] rehash_refines [OF assms(4-6)] by metis
qed

section \<open>Tries without marks\<close>

text \<open>Without marks the two ways of hashing agree, also on what they cache.\<close>

lemma compute_hash_metadata: "compute_hash E ign t = Inr t' \<Longrightarrow> metadata t' = metadata t"
  by (cases "(E, ign, t)" rule: compute_hash.cases) (auto simp: Let_def split: if_splits)

lemma compute_hash_unmarked:
  "wf_node n t \<Longrightarrow> meta_ok marks_ok t \<Longrightarrow> length (leaves t) < 2 ^ 32 \<Longrightarrow> filter marked (leaves t) = [] \<Longrightarrow>
   compute_hash E True t = compute_hash E False t"
proof (induction t rule: node_induct)
  case (Leaf p v m h)
  then show ?case by (cases h) simp_all
next
  case (Inner p cs m h)
  show ?case
  proof (cases h)
    case (Some g)
    then show ?thesis by simp
  next
    case None
    have two: "2 \<le> length cs" using Inner.prems(1) by auto
    have c: "wf_node n c" "meta_ok marks_ok c" "length (leaves c) < 2 ^ 32" "filter marked (leaves c) = []"
      if bc: "(b, c) \<in> set cs" for b c
      using Inner.prems child_leaves_length [OF bc, of p m h] bc by (auto simp: filter_concat)
    have live: "has_live c" "\<not> overdeleted c" if bc: "(b, c) \<in> set cs" for b c
    proof -
      have "filter unmarked (leaves c) = leaves c" using c(4) [OF bc] by (simp add: unmarked_iff filter_empty_conv filter_id_conv)
      then show "has_live c" "\<not> overdeleted c" using has_live_iff [OF c(2,3) [OF bc]] leaves_nonempty [OF c(1) [OF bc]] by simp_all
    qed
    let ?F = "\<lambda>ign (b, c). if ign \<and> overdeleted c then Inl (Runtime_error ''invalid num deleted subnodes > size'')
      else if ign \<and> \<not> has_live c then Inr (b, c) else res_bind (compute_hash E ign c) (\<lambda>c'. Inr (b, c'))"
    have "?F True x = ?F False x" if x: "x \<in> set cs" for x
    proof (cases x)
      case (Pair b c')
      then have bc: "(b, c') \<in> set cs" using x by simp
      show ?thesis using live [OF bc] Inner.IH [OF bc c [OF bc]] by (simp add: Pair)
    qed
    then have step: "res_map (?F True) cs = res_map (?F False) cs" by (rule res_map_cong [OF refl])
    have hs: "combine_hashes E True p (map (\<lambda>(b, c). (b, node_hash c)) (filter (\<lambda>(b, c). True \<longrightarrow> has_live c) cs')) =
        combine_hashes E False p (map (\<lambda>(b, c). (b, node_hash c)) (filter (\<lambda>(b, c). False \<longrightarrow> has_live c) cs'))"
      if cs': "res_map (?F False) cs = Inr cs'" for cs'
    proof -
      have "has_live (snd y)" if y: "y \<in> set cs'" for y
      proof -
        obtain b c where bc: "(b, c) \<in> set cs" "?F False (b, c) = Inr y" using res_map_mem [OF cs' y] by force
        then have "metadata (snd y) = metadata c" by (auto dest: compute_hash_metadata)
        then show ?thesis using live(1) [OF bc(1)] by (simp add: has_live_def)
      qed
      then have "filter (\<lambda>(b, c). True \<longrightarrow> has_live c) cs' = cs'" by (auto simp: filter_id_conv)
      moreover have "length cs' = length cs" using cs' by (rule res_map_length)
      ultimately show ?thesis using two by (auto simp: combine_hashes_def split: list.splits)
    qed
    show ?thesis
      using two hs unfolding None compute_hash.simps step
      by (cases "res_map (?F False) cs") auto
  qed
qed

lemma freeze_and_hash_unmarked:
  assumes "trie_inv n T" "few_leaves T" "filter marked (leaves (root T)) = []"
  shows "freeze_and_hash E False T = freeze_and_hash E True T"
proof -
  have len: "length (leaves (root T)) < 2 ^ 32" using assms few_leaves_iff by blast
  have mok: "meta_ok marks_ok (root T)" using assms(1) unfolding trie_inv_def by (blast intro: flags_marks(1))
  have eq: "compute_hash E True (root T) = compute_hash E False (root T)"
  proof -
    have "wf_trie n (root T)" using assms(1) by (simp add: trie_inv_def)
    then show ?thesis
    proof (cases rule: wf_trie_cases)
      case 1
      then obtain h where "root T = Inner [] [] 0 h" using empty_node_cases by blast
      then show ?thesis by (cases h) simp_all
    next
      case 2
      then show ?thesis using compute_hash_unmarked mok len assms(3) by blast
    qed
  qed
  have "num_deleted_subnodes (metadata (root T)) = 0"
    using live_counts(2) [OF mok len] assms(3) by (simp add: unat_eq_0)
  then have "get_root_hash E False t = get_root_hash E True t" if "metadata t = metadata (root T)" for t :: "'a node"
    using that by (simp add: get_root_hash_def)
  then show ?thesis using compute_hash_metadata [of E False "root T"]
    by (cases "compute_hash E False (root T)") (auto simp: freeze_and_hash_def eq Let_def split: option.split)
qed

end
