(* ===== verification/Trie_Laws.thy ===== *)
theory Trie_Laws
  imports Trie_Refinement
begin

text \<open>
  Rolling back, merging and splitting whole tries: what \<^verbatim>\<open>do_rollback\<close>,
  \<^verbatim>\<open>merge_in\<close>, \<^verbatim>\<open>endow_split\<close> and \<^verbatim>\<open>clean_singlechild_nodes\<close> of
  \<^verbatim>\<open>MerkleTrie\<close> do to the contents.
\<close>

section \<open>Rollback\<close>

abbreviation fresh_leaf :: "key \<times> 'v \<times> Metadata \<Rightarrow> bool" where
  "fresh_leaf \<equiv> rollback_count.flagged"

abbreviation old_leaf :: "key \<times> 'v \<times> Metadata \<Rightarrow> bool" where
  "old_leaf \<equiv> rollback_count.unflagged"

lemma do_rollback_correct:
  assumes inv: "trie_inv n T" and few: "few_leaves T" and old: "filter old_leaf (leaves (root T)) \<noteq> []"
  shows "\<exists>T'. trie_do_rollback T = Inr T' \<and> trie_inv n T' \<and> leaves (root T') = filter old_leaf (leaves (root T)) \<and>
    root_hash T' = root_hash T"
proof -
  have wf: "wf_trie n (root T)" "meta_ok flags_ok (root T)" using inv by (simp_all add: trie_inv_def)
  have len: "length (leaves (root T)) < 2 ^ 32" using few few_leaves_iff [OF inv] by simp
  have n: "0 < n" using wf by (simp add: wf_trie_def)
  have wf': "wf_node n (root T)" using wf(1) old by (auto elim: wf_trie_cases)
  obtain e d t out where r: "prune num_rollback_subnodes ''can't have num rollback subnodes > 1 at leaf'' (root T) = Inr ((e, d), t, out)"
    and ok: "rollback_count.prune_ok n flags_ok (root T) ((e, d), t, out)"
    using rollback_count.prune_correct [OF wf' wf(2) len] by fast
  have t: "wf_weak n t" "leaves t = filter old_leaf (leaves (root T))" "meta_ok flags_ok t"
    using ok old by (simp_all add: rollback_count.prune_ok_def)
  have "trie_do_rollback T = Inr (T\<lparr>root := contract t\<rparr>)"
    using r by (simp add: trie_do_rollback_def node_do_rollback_def)
  moreover have "trie_inv n (T\<lparr>root := contract t\<rparr>)"
    using wf_trie_contract [OF n t(1)] wf_contract(4) [OF t(1)] t(3) by (simp add: trie_inv_def)
  ultimately show ?thesis using wf_contract(3) [OF t(1)] t(2) by auto
qed

text \<open>The part of a state without the rollback flag.\<close>

definition old_part :: "(key \<Rightarrow> ('v \<times> Metadata) option) \<Rightarrow> key \<Rightarrow> ('v \<times> Metadata) option" where
  "old_part A k = (case A k of None \<Rightarrow> None | Some (v, m) \<Rightarrow> if num_rollback_subnodes m = 0 then Some (v, m) else None)"

lemma do_rollback_leaf_map:
  assumes inv: "trie_inv n T" and few: "few_leaves T" and old: "old_part (leaf_map (root T)) \<noteq> Map.empty"
  shows "\<exists>T'. trie_do_rollback T = Inr T' \<and> trie_inv n T' \<and> leaf_map (root T') = old_part (leaf_map (root T))"
proof -
  have wf: "wf_trie n (root T)" using inv by (simp add: trie_inv_def)
  obtain k v m where "leaf_map (root T) k = Some (v, m)" "num_rollback_subnodes m = 0"
    using old by (auto simp: old_part_def fun_eq_iff split: option.splits if_splits)
  then have "(k, v, m) \<in> set (filter old_leaf (leaves (root T)))"
    using leaf_map_iff [OF wf] by (simp add: rollback_count.unflagged_def)
  then have "filter old_leaf (leaves (root T)) \<noteq> []" by (metis empty_iff list.set(1))
  from do_rollback_correct [OF inv few this] obtain T' where T': "trie_do_rollback T = Inr T'" "trie_inv n T'"
    "leaves (root T') = filter old_leaf (leaves (root T))" by blast
  have "leaf_map (root T') k = old_part (leaf_map (root T)) k" for k
    using leaf_map_filter [OF wf _ T'(3)] T'(2)
    by (auto simp: old_part_def trie_inv_def rollback_count.unflagged_def split: option.split)
  then show ?thesis using T' by blast
qed

text \<open>Insertions with the rollback flag at new keys are undone.\<close>

lemma old_part_inserts:
  assumes "\<forall>k \<in> fst ` set kvs. A k = None" "\<forall>k v m. A k = Some (v, m) \<longrightarrow> num_rollback_subnodes m = 0"
  shows "old_part (fold (spec_op mk) (map (\<lambda>(k, v). Insert_new k v) kvs) A) = A"
proof -
  define B where "B = fold (spec_op mk) (map (\<lambda>(k, v). Insert_new k v) kvs) A"
  have B: "B k = A k \<or> (A k = None \<and> (\<exists>v m. B k = Some (v, m) \<and> num_rollback_subnodes m = 1))" for k
    unfolding B_def using assms(1)
  proof (induction kvs rule: rev_induct)
    case (snoc x kvs)
    then show ?case by (cases x) auto
  qed simp
  have "old_part B k = A k" for k
    using B [of k] assms(2) by (cases "A k") (auto simp: old_part_def)
  then show ?thesis unfolding B_def by blast
qed

section \<open>Merging\<close>

context merge_policy
begin

lemma trie_merge_correct:
  assumes T: "trie_inv n T" "few_leaves T" and U: "trie_inv n U" "few_leaves U" and L: "compatible flags_ok"
  shows "\<exists>T'. trie_merge_in M U T = Inr T' \<and> trie_inv n T' \<and> root_hash T' = None \<and>
    (\<forall>k. trie_map (root T') k = merge_values (value_merge M) (trie_map (root T) k) (trie_map (root U) k)) \<and>
    (\<forall>P. compatible P \<longrightarrow> meta_ok P (root T) \<longrightarrow> meta_ok P (root U) \<longrightarrow> meta_ok P (root T'))"
proof -
  have size: "trie_size (root V) = Inr (of_nat (length (leaves (root V))))" "of_nat (length (leaves (root V))) = (0 :: i64) \<longleftrightarrow> leaves (root V) = []"
    if "trie_inv n V" "few_leaves V" for V :: "'v MerkleTrie"
    using that few_leaves_iff [OF that(1)] trie_size_leaves [of "root V"] flags_marks(2) by (auto simp: trie_inv_def)
  have none: "trie_map (root V) = Map.empty" if "leaves (root V) = []" for V :: "'v MerkleTrie"
    using that by (simp add: trie_map_def contents_leaves)
  show ?thesis
  proof (cases "leaves (root T) = [] \<or> leaves (root U) = []")
    case True
    then show ?thesis
      using size [OF T] size [OF U] T U none [of T] none [of U]
      by (cases "leaves (root T) = []") (auto simp: trie_merge_in_def trie_inv_def)
  next
    case False
    then have wf: "wf_node n (root T)" "wf_node n (root U)" using T U by (auto simp: trie_inv_def elim: wf_trie_cases)
    obtain t' d where r: "node_merge_in M (root T) (root U) = Inr (t', d)" "merged n (root T) (root U) (t', d)"
      using node_merge_in_correct [OF wf] by auto
    have inv: "trie_inv n \<lparr>root = t', root_hash = None\<rparr>"
      using r(2) T U L by (auto simp: merged_def trie_inv_def wf_trie_def)
    have "trie_map t' k = merge_values (value_merge M) (trie_map (root T) k) (trie_map (root U) k)" for k
    proof (cases "length k = n")
      case True
      then show ?thesis using r(2) by (simp add: merged_def)
    next
      case False
      then have "trie_map x k = None" if "wf_trie n x" for x :: "'v node" by (rule wf_trie_other [OF that])
      then show ?thesis using inv T U by (simp add: trie_inv_def)
    qed
    moreover have "\<forall>P. compatible P \<longrightarrow> meta_ok P (root T) \<longrightarrow> meta_ok P (root U) \<longrightarrow> meta_ok P t'"
      using r(2) by (simp add: merged_def)
    ultimately show ?thesis
      using inv r(1) False size [OF T] size [OF U] by (simp add: trie_merge_in_def)
  qed
qed

end

lemma merge_hash_inv: "trie_merge_in M U T = Inr T' \<Longrightarrow> hash_inv E T \<Longrightarrow> hash_inv E U \<Longrightarrow> hash_inv E T'"
  by (auto simp: trie_merge_in_def hash_inv_def dest: cache_merge split: if_splits)

lemma overwrite_compatible: "overwrite_merge.compatible flags_ok"
  unfolding overwrite_merge.compatible_def by (simp add: OverwriteMergeFn_def)

section \<open>Splitting by endowment\<close>

lemma endow_split_correct:
  assumes wf: "wf_trie n (root T)" and mok: "meta_ok L (root T)" and L: "\<And>v m. L v m \<Longrightarrow> positive_endow v m"
    and thr: "0 \<le> sint threshold" "sint threshold \<le> endow_total (leaves (root T))"
    and fit: "endow_total (leaves (root T)) < 2 ^ 63"
  shows "\<exists>S T' A B. trie_endow_split threshold T = Inr (S, T') \<and> leaves (root T) = A @ B \<and>
    leaves (root S) = A \<and> leaves (root T') = B \<and> wf_trie n (root T') \<and> meta_ok L (root T') \<and> meta_ok L (root S) \<and>
    endow_total A \<le> sint threshold \<and> (B \<noteq> [] \<longrightarrow> sint threshold < endow_total A + leaf_endow (hd B)) \<and>
    (S = empty_trie \<or> wf_node n (root S) \<or> B \<noteq> [] \<and> path_loose n (fst (hd B)) (root S))"
proof -
  have n: "0 < n" using wf by (simp add: wf_trie_def)
  have pos: "\<forall>x \<in> set (leaves (root T)). 0 < leaf_endow x" using leaves_meta [OF mok] L by blast
  have root: "sint (endow (metadata (root T))) = endow_total (leaves (root T))"
    unfolding metadata_leaves [OF mok] by (rule endow_exact [OF pos fit])
  consider "threshold = 0" | "threshold \<noteq> 0" "sint threshold = endow_total (leaves (root T))"
    | "threshold \<noteq> 0" "sint threshold < endow_total (leaves (root T))" using thr by linarith
  then show ?thesis
  proof cases
    case 1
    then show ?thesis
      using wf mok pos by (intro exI [of _ empty_trie] exI [of _ T] exI [of _ "[]"] exI [of _ "leaves (root T)"])
        (auto simp: trie_endow_split_def empty_trie_def)
  next
    case 2
    then have "threshold = endow (metadata (root T))" using root by (metis signed_word_eqI)
    moreover have "sint threshold \<noteq> 0" using 2(1) by (metis signed_0 signed_word_eqI)
    then have "leaves (root T) \<noteq> []" using 2(2) by auto
    then have "wf_node n (root T)" using wf by (auto elim: wf_trie_cases)
    ultimately show ?thesis
      using 2 mok n
      by (intro exI [of _ "trie_of (root T)"] exI [of _ "\<lparr>root = make_empty_node, root_hash = None\<rparr>"]
          exI [of _ "leaves (root T)"] exI [of _ "[]"])
        (auto simp: trie_endow_split_def trie_of_def)
  next
    case 3
    then have wf': "wf_node n (root T)" using wf thr(1) by (auto elim!: wf_trie_cases)
    have "\<exists>r. node_endow_split threshold (root T) = Inr r \<and> split_ok n L (sint threshold) (root T) r"
      by (rule node_endow_split_correct [OF _ wf' mok thr(1) 3(2) fit]) (rule L)
    then obtain s t A B where r: "node_endow_split threshold (root T) = Inr (s, t)" "leaves (root T) = A @ B"
      "splits_at (sint threshold) A B" "wf_weak n t" "leaves t = B" "meta_ok L t"
      "case s of None \<Rightarrow> A = []
       | Some u \<Rightarrow> leaves u = A \<and> A \<noteq> [] \<and> node_prefix u = node_prefix (root T) \<and> meta_ok L u \<and> path_loose n (fst (hd B)) u"
      by (auto simp: split_ok_def)
    define S where "S = (case s of None \<Rightarrow> empty_trie | Some u \<Rightarrow> trie_of u)"
    have eq: "trie_endow_split threshold T = Inr (S, \<lparr>root = contract t, root_hash = None\<rparr>)"
      using 3 root r(1) by (auto simp: trie_endow_split_def Let_def S_def)
    have S: "leaves (root S) = A" "meta_ok L (root S)" "S = empty_trie \<or> path_loose n (fst (hd B)) (root S)"
      using r(7) by (auto simp: S_def empty_trie_def trie_of_def split: option.splits)
    show ?thesis
      using eq S r(2,3) wf_contract(3) [OF r(4)] wf_contract(4) [OF r(4), of L] wf_trie_contract [OF n r(4)] r(5,6)
      by (intro exI [of _ S] exI [of _ "\<lparr>root = contract t, root_hash = None\<rparr>"] exI [of _ A] exI [of _ B])
        (auto simp: splits_at_def)
  qed
qed

lemma contract_multi: "\<not> single_child t \<Longrightarrow> contract t = t"
  by (auto simp: contract_def get_single_child_def single_child_def split: list.split)

text \<open>\<open>clean_singlechild_nodes\<close> makes the split-off part a proper trie again.\<close>

lemma clean_correct:
  assumes "0 < n" "wf_node n t \<or> path_loose n k t" "length k = n"
  shows "\<exists>t'. trie_clean_singlechild_nodes k \<lparr>root = t, root_hash = h\<rparr> = Inr \<lparr>root = t', root_hash = None\<rparr> \<and>
    wf_trie n t' \<and> leaves t' = leaves t \<and> (\<forall>L. meta_ok L t \<longrightarrow> meta_ok L t')"
  using assms(2)
proof
  assume "wf_node n t"
  then show ?thesis using assms clean_wf [of n t k] by (simp add: trie_clean_singlechild_nodes_def wf_trie_def)
next
  assume "path_loose n k t"
  from clean_loose [OF this assms(3)] obtain t' where t': "node_clean_singlechild k t = Inr t'" "wf_weak n t'" "same_leaves t t'"
    by blast
  have "contract_chain t' = contract t'"
    using contract_chain_wf [OF wf_contract(1) [OF t'(2)]] contract_multi [of t'] by (simp add: contract_chain.simps [of t'])
  then show ?thesis
    using t' assms(1) wf_trie_contract [OF assms(1) t'(2)] wf_contract(3,4) [OF t'(2)]
    by (simp add: trie_clean_singlechild_nodes_def same_leaves_def)
qed

section \<open>Splitting at a key\<close>

text \<open>
  \<open>endow_lt_key\<close> followed by \<open>endow_split\<close>: the leaves below the key go, the others stay.
\<close>

lemma split_position:
  assumes pos: "\<forall>x \<in> set (C @ D). 0 < leaf_endow x" and eq: "A @ B = C @ D"
    and A: "endow_total A \<le> endow_total C" and B: "B \<noteq> [] \<longrightarrow> endow_total C < endow_total A + leaf_endow (hd B)"
  shows "A = C" "B = D"
proof -
  obtain us where "A = C @ us \<and> us @ B = D \<or> A @ us = C \<and> B = us @ D"
    using eq unfolding append_eq_append_conv2 by blast
  then have "A = C \<and> B = D"
  proof (elim disjE conjE)
    assume us: "A = C @ us" "us @ B = D"
    show ?thesis
    proof (cases us)
      case (Cons x xs)
      then have "0 < leaf_endow x" "\<forall>y \<in> set xs. 0 < leaf_endow y" using us pos by auto
      then show ?thesis using us A Cons endow_total_nonneg [of xs] by simp
    qed (use us in simp)
  next
    assume us: "A @ us = C" "B = us @ D"
    show ?thesis
    proof (cases us)
      case (Cons x xs)
      then have "\<forall>y \<in> set xs. 0 < leaf_endow y" using us pos by auto
      moreover have "endow_total C = endow_total A + (leaf_endow x + endow_total xs)"
        unfolding us(1) [symmetric] Cons by simp
      ultimately show ?thesis using us B Cons endow_total_nonneg [of xs] by simp
    qed (use us in simp)
  qed
  then show "A = C" "B = D" by simp_all
qed

lemma sorted_partition:
  assumes "ascending (map fst xs)"
  shows "xs = filter (\<lambda>x. key_less (fst x) k) xs @ filter (\<lambda>x. \<not> key_less (fst x) k) xs"
  using assms
proof (induction xs)
  case (Cons x xs)
  show ?case
  proof (cases "key_less (fst x) k")
    case True
    then show ?thesis using Cons by (simp add: ascending_def)
  next
    case False
    then have "\<not> key_less (fst y) k" if "y \<in> set xs" for y
      using Cons.prems that key_less_trans by (auto simp: ascending_def)
    then have "filter (\<lambda>x. key_less (fst x) k) xs = []" "filter (\<lambda>x. \<not> key_less (fst x) k) xs = xs"
      by (auto simp: filter_empty_conv filter_id_conv)
    then show ?thesis using False by simp
  qed
qed simp

lemma endow_lt_key_root:
  assumes "wf_trie n t" "meta_ok L t" "length k = n"
  shows "node_endow_lt_key k t = Inr (\<Sum>x \<leftarrow> lt_leaves k t. endow (leaf_md x))"
  using assms(1)
proof (cases rule: wf_trie_cases)
  case 1
  then obtain h where "t = Inner [] [] 0 h" using empty_node_cases by blast
  then show ?thesis
    using assms branch_bits_root [of n k] by (auto simp: wf_trie_def lt_leaves_def)
qed (use node_endow_lt_key_correct [OF _ assms(2,3)] in blast)

lemma endow_of_sum: "(\<Sum>x \<leftarrow> xs. endow (leaf_md x)) = endow (sum_list (map leaf_md xs))"
  by (induction xs) simp_all

lemma split_at_key:
  assumes wf: "wf_trie n (root T)" and mok: "meta_ok positive_endow (root T)" and k: "length k = n"
    and fit: "endow_total (leaves (root T)) < 2 ^ 63"
  shows "\<exists>threshold S T'. trie_endow_lt_key k T = Inr threshold \<and> trie_endow_split threshold T = Inr (S, T') \<and>
    leaves (root S) = filter (\<lambda>x. key_less (fst x) k) (leaves (root T)) \<and>
    leaves (root T') = filter (\<lambda>x. \<not> key_less (fst x) k) (leaves (root T)) \<and> wf_trie n (root T') \<and>
    sint threshold = endow_total (filter (\<lambda>x. key_less (fst x) k) (leaves (root T)))"
proof -
  let ?C = "filter (\<lambda>x. key_less (fst x) k) (leaves (root T))" and ?D = "filter (\<lambda>x. \<not> key_less (fst x) k) (leaves (root T))"
  define threshold where "threshold = endow (sum_list (map leaf_md ?C))"
  have pos: "\<forall>x \<in> set (leaves (root T)). 0 < leaf_endow x" using leaves_meta [OF mok] by blast
  have "ascending (map fst (leaves (root T)))"
    using wf contents_ascending [of n "annotate (root T)"] by (auto simp: ascending_def elim: wf_trie_cases)
  then have part: "leaves (root T) = ?C @ ?D" by (rule sorted_partition)
  then have total: "endow_total (leaves (root T)) = endow_total ?C + endow_total ?D" by (metis endow_total_simps(3))
  moreover have nonneg: "0 \<le> endow_total ?C" "0 \<le> endow_total ?D" using pos by (auto intro!: endow_total_nonneg)
  ultimately have thr: "sint threshold = endow_total ?C"
    unfolding threshold_def using pos fit by (intro endow_exact) auto
  have lt: "trie_endow_lt_key k T = Inr threshold"
    using endow_lt_key_root [OF wf mok k] by (simp add: trie_endow_lt_key_def threshold_def lt_leaves_def endow_of_sum)
  have thr0: "0 \<le> sint threshold" and thr1: "sint threshold \<le> endow_total (leaves (root T))"
    using thr nonneg total by simp_all
  obtain S T' A B where r: "trie_endow_split threshold T = Inr (S, T')" "leaves (root T) = A @ B"
    "leaves (root S) = A" "leaves (root T') = B" "wf_trie n (root T')" "endow_total A \<le> sint threshold"
    "B \<noteq> [] \<longrightarrow> sint threshold < endow_total A + leaf_endow (hd B)"
    using endow_split_correct [OF wf mok _ thr0 thr1 fit] by blast
  have "A @ B = ?C @ ?D" using r(2) part by simp
  then have "A = ?C" "B = ?D" using split_position [of ?C ?D A B] pos r(6,7) thr by auto
  then have "leaves (root S) = ?C" "leaves (root T') = ?D" using r(3,4) by simp_all
  then show ?thesis using lt r(1,5) thr by blast
qed

section \<open>The root hash binds the contents\<close>

definition root_message :: "'v hash_env \<Rightarrow> 'v node \<Rightarrow> byte list" where
  "root_message E t =
     (let num_live = of_nat (length (filter unmarked (leaves t))) :: u32
      in big_endian_bytes 4 num_live @ (if num_live = 0 then replicate 32 0 else digest E True t))"

lemma trie_digest_message: "trie_digest E t = SHA256 E (root_message E t)"
  by (simp add: trie_digest_def root_message_def Let_def)

lemma root_hash_binds:
  assumes inj: "inj_on (SHA256 E) S" and len: "\<forall>x. length (SHA256 E x) = 32" and ser: "inj (copy_data E)"
    and n: "4 * n < 2 ^ 16"
    and T: "trie_inv n T" "few_leaves T" "filter marked (leaves (root T)) = []"
      "insert (root_message E (root T)) (set (hash_inputs E (root T))) \<subseteq> S"
    and U: "trie_inv n U" "few_leaves U" "filter marked (leaves (root U)) = []"
      "insert (root_message E (root U)) (set (hash_inputs E (root U))) \<subseteq> S"
    and eq: "trie_digest E (root T) = trie_digest E (root U)"
  shows "trie_map (root T) = trie_map (root U)"
proof -
  have msg: "root_message E (root T) = root_message E (root U)"
    using eq inj T(4) U(4) unfolding trie_digest_message by (auto dest: inj_onD)
  have live: "filter unmarked (leaves (root V)) = leaves (root V)" if "filter marked (leaves (root V)) = []" for V :: "'a MerkleTrie"
    using that by (simp add: unmarked_iff filter_empty_conv filter_id_conv)
  have num: "(of_nat (length (leaves (root V))) :: u32) = 0 \<longleftrightarrow> leaves (root V) = []"
    if "trie_inv n V" "few_leaves V" for V :: "'a MerkleTrie"
    using few_leaves_iff [OF that(1)] that(2) by (simp add: word_unat_eq_iff unat_of_nat_small)
  have node: "wf_node n (root V) \<and> digest E True (root V) = digest E False (root V)"
    if "trie_inv n V" "few_leaves V" "filter marked (leaves (root V)) = []" "leaves (root V) \<noteq> []" for V :: "'a MerkleTrie"
  proof -
    have "wf_node n (root V)" using that by (auto simp: trie_inv_def elim: wf_trie_cases)
    then show ?thesis
      using that few_leaves_iff [OF that(1)] digest_unmarked [of n "root V" E] flags_marks(1) by (auto simp: trie_inv_def)
  qed
  have nums: "(of_nat (length (leaves (root T))) :: u32) = of_nat (length (leaves (root U)))"
    "leaves (root T) \<noteq> [] \<Longrightarrow> leaves (root U) \<noteq> [] \<Longrightarrow> digest E True (root T) = digest E True (root U)"
  proof -
    let ?n = "\<lambda>V. of_nat (length (leaves (root V))) :: u32"
    have "big_endian_bytes 4 (?n T) = big_endian_bytes 4 (?n U)"
      "(if ?n T = 0 then replicate 32 0 else digest E True (root T)) = (if ?n U = 0 then replicate 32 0 else digest E True (root U))"
      using msg unfolding root_message_def live [OF T(3)] live [OF U(3)] Let_def by (simp_all add: append_eq_append_conv)
    moreover have "unat (w :: u32) < 256 ^ 4" for w using unsigned_less [of w] by simp
    ultimately show "?n T = ?n U"
      "leaves (root T) \<noteq> [] \<Longrightarrow> leaves (root U) \<noteq> [] \<Longrightarrow> digest E True (root T) = digest E True (root U)"
      using num [OF T(1,2)] num [OF U(1,2)] big_endian_bytes_inject [of "?n T" 4 "?n U"] by simp_all
  qed
  show ?thesis
  proof (cases "leaves (root T) = []")
    case True
    then have "leaves (root U) = []" using nums(1) num [OF U(1,2)] by simp
    then show ?thesis using True by (simp add: trie_map_def contents_leaves)
  next
    case False
    then have ne: "leaves (root U) \<noteq> []" using nums(1) num [OF T(1,2)] num [OF U(1,2)] by auto
    have "digest E False (root T) = digest E False (root U)"
      using nums(2) [OF False ne] node [OF T(1-3) False] node [OF U(1-3) ne] by simp
    then have "skeleton (root T) = skeleton (root U)"
      using digest_inject [OF inj len ser n] node [OF T(1-3) False] node [OF U(1-3) ne] T(4) U(4) by blast
    then show ?thesis using skeleton_wf [of "root T" "root U" n] by (simp add: trie_map_def)
  qed
qed

end
