(* ===== verification/Trie_Keys.thy ===== *)
theory Trie_Keys
  imports Trie_Laws
begin

text \<open>
  The keys of the two state tries: an account identifier (\<^verbatim>\<open>memory_database.h\<close>) and the
  price, owner and identifier of an offer (\<^verbatim>\<open>merkle_work_unit.h\<close>), written big-endian into
  the bytes of a prefix.  The order of the keys is the order of what they encode.
\<close>

section \<open>Bytes as branch units\<close>

text \<open>\<open>get_branch_bits\<close> reads a byte's high half first.\<close>

definition bytes_key :: "byte list \<Rightarrow> key" where
  "bytes_key bs = concat (map (\<lambda>b. [ucast (drop_bit 4 b), ucast b]) bs)"

lemma bytes_key_simps [simp]:
  "bytes_key [] = []" "bytes_key (b # bs) = ucast (drop_bit 4 b) # ucast b # bytes_key bs"
  "bytes_key (bs @ cs) = bytes_key bs @ bytes_key cs" "length (bytes_key bs) = 2 * length bs"
  by (simp_all add: bytes_key_def length_concat sum_list_triv comp_def)

lemma unat_halves:
  "unat (ucast (drop_bit 4 (b :: byte)) :: nib) = unat b div 16" "unat (ucast (b :: byte) :: nib) = unat b mod 16"
proof -
  have "unat b div 16 < 16" using unat_lt2p_u8 [of b] by (subst div_less_iff_less_mult) (simp_all del: unat_lt2p_u8)
  then have "unat b div 16 mod 16 = unat b div 16" by simp
  then show "unat (ucast (drop_bit 4 b) :: nib) = unat b div 16" by (simp add: unsigned_ucast_eq take_bit_eq_mod unat_drop_bit)
  show "unat (ucast b :: nib) = unat b mod 16" by (simp add: unsigned_ucast_eq take_bit_eq_mod)
qed

text \<open>Comparing numbers by their leading digit.\<close>

lemma digit_less:
  fixes q r x y B :: nat
  assumes "x < B" "y < B"
  shows "q * B + x < r * B + y \<longleftrightarrow> q < r \<or> q = r \<and> x < y" "q * B + x = r * B + y \<longleftrightarrow> q = r \<and> x = y"
proof -
  have lt: "q * B + x < r * B + y" if "q < r" "x < B" for q r x y
  proof -
    have "q * B + x < Suc q * B" using that(2) by simp
    also have "\<dots> \<le> r * B" using that(1) by (intro mult_right_mono) simp_all
    finally show ?thesis by simp
  qed
  show "q * B + x < r * B + y \<longleftrightarrow> q < r \<or> q = r \<and> x < y"
    using lt [of q r x y] lt [of r q y x] assms by (cases q r rule: linorder_cases) auto
  show "q * B + x = r * B + y \<longleftrightarrow> q = r \<and> x = y"
    using lt [of q r x y] lt [of r q y x] assms by (cases q r rule: linorder_cases) auto
qed

lemma halves_order:
  fixes a b :: byte
  shows "a < b \<longleftrightarrow> (ucast (drop_bit 4 a) :: nib) < ucast (drop_bit 4 b) \<or>
           (ucast (drop_bit 4 a) :: nib) = ucast (drop_bit 4 b) \<and> (ucast a :: nib) < ucast b"
    and "a = b \<longleftrightarrow> (ucast (drop_bit 4 a) :: nib) = ucast (drop_bit 4 b) \<and> (ucast a :: nib) = ucast b"
proof -
  have m: "unat c mod 16 < 16" for c :: byte by simp
  note order = digit_less [OF m [of a] m [of b], of "unat a div 16" "unat b div 16", unfolded div_mult_mod_eq]
  show "a < b \<longleftrightarrow> (ucast (drop_bit 4 a) :: nib) < ucast (drop_bit 4 b) \<or>
           (ucast (drop_bit 4 a) :: nib) = ucast (drop_bit 4 b) \<and> (ucast a :: nib) < ucast b"
    by (simp only: word_less_nat_alt unat_halves(1) flip: unat_inject) (simp only: unat_halves(2) order(1))
  show "a = b \<longleftrightarrow> (ucast (drop_bit 4 a) :: nib) = ucast (drop_bit 4 b) \<and> (ucast a :: nib) = ucast b"
    by (simp only: unat_halves(1) flip: unat_inject) (simp only: unat_halves(2) order(2))
qed

text \<open>The order of keys is \<open>memcmp\<close>: the byte strings read as numbers.\<close>

lemma bytes_key_less:
  "length bs = length cs \<Longrightarrow> key_less (bytes_key bs) (bytes_key cs) \<longleftrightarrow> be_nat bs < be_nat cs"
proof (induction bs cs rule: list_induct2)
  case (Cons b bs c cs)
  have "be_nat bs < 256 ^ length bs" "be_nat cs < 256 ^ length bs"
    using be_nat_less [of bs] be_nat_less [of cs] Cons.hyps by simp_all
  then have "be_nat (b # bs) < be_nat (c # cs) \<longleftrightarrow> b < c \<or> b = c \<and> be_nat bs < be_nat cs"
    using digit_less(1) [of "be_nat bs" "256 ^ length bs" "be_nat cs" "unat b" "unat c"] Cons.hyps
    by (simp add: word_less_nat_alt)
  then show ?case using Cons.IH by (auto simp: halves_order [of b c])
qed simp

lemma bytes_key_inject: "bytes_key bs = bytes_key cs \<longleftrightarrow> bs = cs"
proof (induction bs arbitrary: cs)
  case (Cons b bs)
  then show ?case by (cases cs) (auto simp: halves_order(2) [of b])
next
  case Nil
  then show ?case by (cases cs) simp_all
qed

section \<open>Account keys\<close>

text \<open>\<open>write_trie_key(buf, account)\<close>; the prefix has \<open>TRIE_KEYLEN = sizeof(AccountID)\<close> bytes.\<close>

definition write_trie_key :: "AccountID \<Rightarrow> key res" where
  "write_trie_key account = res_bind (write_unsigned_big_endian (replicate 8 0) account 0) (\<lambda>buf. Inr (bytes_key buf))"

definition account_key :: "AccountID \<Rightarrow> key" where
  "account_key account = bytes_key (big_endian_bytes 8 account)"

lemma write_trie_key_eq [simp]: "write_trie_key account = Inr (account_key account)"
  by (simp add: write_trie_key_def write_unsigned_big_endian_def write_bytes_at_eq account_key_def)

lemma length_account_key [simp]: "length (account_key a) = 16"
  by (simp add: account_key_def)

lemma be_nat_u64: "be_nat (big_endian_bytes 8 (a :: u64)) = unat a"
  using unat_lt2p_u64 [of a] by (simp add: be_nat_big_endian_bytes)

lemma account_key_less: "key_less (account_key a) (account_key b) \<longleftrightarrow> a < b"
  by (simp add: account_key_def bytes_key_less be_nat_u64 word_less_nat_alt)

lemma account_key_inject [simp]: "account_key a = account_key b \<longleftrightarrow> a = b"
  using account_key_less [of a b] account_key_less [of b a] by (auto simp: not_less_iff_gr_or_eq)

section \<open>Offer keys\<close>

definition WORKUNIT_KEY_LEN :: nat where
  "WORKUNIT_KEY_LEN = PRICE_BYTES + 8 + 8"

definition generate_key :: "price \<Rightarrow> AccountID \<Rightarrow> u64 \<Rightarrow> key res" where
  "generate_key min_price owner offer_id =
     res_bind (write_price_big_endian (replicate WORKUNIT_KEY_LEN 0) min_price) (\<lambda>buf.
     let offset = PRICE_BYTES in
     res_bind (write_unsigned_big_endian buf owner offset) (\<lambda>buf.
     let offset = offset + 8 in
     res_bind (write_unsigned_big_endian buf offer_id offset) (\<lambda>buf.
     Inr (bytes_key buf))))"

definition generate_offer_key :: "Offer \<Rightarrow> key res" where
  "generate_offer_key offer = generate_key (minPrice offer) (offer_owner offer) (offerId offer)"

definition offer_key :: "price \<Rightarrow> AccountID \<Rightarrow> u64 \<Rightarrow> key" where
  "offer_key p owner i = bytes_key (big_endian_bytes 6 p @ big_endian_bytes 8 owner @ big_endian_bytes 8 i)"

lemma generate_key_eq [simp]: "generate_key p owner i = Inr (offer_key p owner i)"
  by (simp add: generate_key_def write_price_big_endian_def write_unsigned_big_endian_def write_bytes_at_eq
      WORKUNIT_KEY_LEN_def PRICE_BYTES_def offer_key_def)

abbreviation key_of :: "Offer \<Rightarrow> key" where
  "key_of offer \<equiv> offer_key (minPrice offer) (offer_owner offer) (offerId offer)"

lemma generate_offer_key_eq [simp]: "generate_offer_key offer = Inr (key_of offer)"
  by (simp add: generate_offer_key_def)

lemma length_offer_key [simp]: "length (offer_key p owner i) = 44"
  by (simp add: offer_key_def)

text \<open>Offers are ordered by price, then owner, then identifier.\<close>

lemma offer_key_less:
  assumes "is_valid_price p" "is_valid_price q"
  shows "key_less (offer_key p a i) (offer_key q b j) \<longleftrightarrow> p < q \<or> p = q \<and> (a < b \<or> a = b \<and> i < j)"
proof -
  have p: "be_nat (big_endian_bytes 6 r) = unat r" if "is_valid_price r" for r
    using unat_valid_price [OF that] by (simp add: be_nat_big_endian_bytes)
  have "be_nat (big_endian_bytes 6 p @ big_endian_bytes 8 a @ big_endian_bytes 8 i) <
        be_nat (big_endian_bytes 6 q @ big_endian_bytes 8 b @ big_endian_bytes 8 j) \<longleftrightarrow>
        unat p * 256 ^ 16 + (unat a * 256 ^ 8 + unat i) < unat q * 256 ^ 16 + (unat b * 256 ^ 8 + unat j)"
    by (simp add: be_nat_append p assms be_nat_u64)
  also have "\<dots> \<longleftrightarrow> unat p < unat q \<or> unat p = unat q \<and> unat a * 256 ^ 8 + unat i < unat b * 256 ^ 8 + unat j"
  proof -
    have b: "unat x * 256 ^ 8 + unat y < 256 ^ 16" for x y :: u64
      using unat_le_u64 [of x] unat_lt2p_u64 [of y] by (simp del: unat_le_u64 unat_lt2p_u64)
    show ?thesis by (rule digit_less(1) [OF b b])
  qed
  also have "unat a * 256 ^ 8 + unat i < unat b * 256 ^ 8 + unat j \<longleftrightarrow> unat a < unat b \<or> unat a = unat b \<and> unat i < unat j"
    by (rule digit_less(1)) (use unat_lt2p_u64 in simp_all)
  finally show ?thesis unfolding offer_key_def by (subst bytes_key_less) (simp_all add: word_less_nat_alt)
qed

lemma offer_key_inject:
  assumes "is_valid_price p" "is_valid_price q"
  shows "offer_key p a i = offer_key q b j \<longleftrightarrow> p = q \<and> a = b \<and> i = j"
  using offer_key_less [OF assms, of a i b j] offer_key_less [OF assms(2,1), of b j a i]
  by (auto simp: not_less_iff_gr_or_eq)

end
