(* ===== verification/Offer_Book.thy ===== *)
theory Offer_Book
  imports Trie_Keys Offer_Clearing
begin

text \<open>
  Tries of offers, as the maps they hold.  Between blocks a book has no marked leaf and
  the metadata of every leaf is that of its offer, so each operation of a work unit on its tries is
  an operation on a finite map from keys to offers.
\<close>

definition empty_offer :: Offer where
  "empty_offer = \<lparr>category = \<lparr>sellAsset = 0, buyAsset = 0, offerType = SELL\<rparr>, offerId = 0, offer_owner = 0,
     offer_amount = 0, minPrice = 0\<rparr>"

abbreviation offer_insert_fn :: "(key, Offer, Offer) insert_fn" where
  "offer_insert_fn \<equiv> OverwriteInsertFn offer_metadata empty_offer"

abbreviation offer_rollback_insert_fn :: "(key, Offer, Offer) insert_fn" where
  "offer_rollback_insert_fn \<equiv> RollbackInsertFn offer_metadata empty_offer"

section \<open>Books\<close>

definition book :: "Offer MerkleTrie \<Rightarrow> bool" where
  "book T \<longleftrightarrow> wf_trie 44 (root T) \<and> meta_ok (\<lambda>v m. m = offer_metadata v) (root T)"

abbreviation offers :: "Offer MerkleTrie \<Rightarrow> key \<Rightarrow> Offer option" where
  "offers T \<equiv> trie_map (root T)"

text \<open>Flags aside: a mark for deletion or a rollback flag may be set.\<close>

definition marked_book :: "Offer MerkleTrie \<Rightarrow> bool" where
  "marked_book T \<longleftrightarrow> wf_trie 44 (root T) \<and>
     meta_ok (\<lambda>v m. m = offer_metadata v \<or> m = set_deleted 1 (offer_metadata v)) (root T)"

definition plain_map :: "(key \<Rightarrow> Offer option) \<Rightarrow> key \<Rightarrow> (Offer \<times> Metadata) option" where
  "plain_map M k = map_option (\<lambda>v. (v, offer_metadata v)) (M k)"

lemma plain_map_simps [simp]:
  "plain_map (M(k \<mapsto> v)) = (plain_map M)(k \<mapsto> (v, offer_metadata v))" "plain_map (M(k := None)) = (plain_map M)(k := None)"
  "plain_map Map.empty = Map.empty" "dom (plain_map M) = dom M"
  by (auto simp: plain_map_def fun_eq_iff dom_def)

lemma fresh_offer_metadata: "fresh_metadata offer_metadata"
  by (simp add: fresh_metadata_def offer_metadata_def)

lemma offer_metadata_sel [simp]:
  "md_size (offer_metadata v) = 1" "num_deleted_subnodes (offer_metadata v) = 0" "num_rollback_subnodes (offer_metadata v) = 0"
  "endow (offer_metadata v) = offer_amount v"
  by (simp_all add: offer_metadata_def)

lemma book_marked: "book T \<Longrightarrow> marked_book T"
  unfolding book_def marked_book_def by (auto elim: meta_ok_mono)

lemma book_inv: "book T \<Longrightarrow> trie_inv 44 T" "marked_book T \<Longrightarrow> trie_inv 44 T"
  unfolding book_def marked_book_def trie_inv_def by (auto elim!: meta_ok_mono)

lemma leaf_of_map: "wf_trie n t \<Longrightarrow> meta_ok L t \<Longrightarrow> leaf_map t k = Some (v, m) \<Longrightarrow> L v m"
  unfolding leaf_map_iff using leaves_meta [of L t] by fastforce

lemma book_leaf_map: "book T \<Longrightarrow> leaf_map (root T) = plain_map (offers T)"
proof
  fix k
  assume "book T"
  then have "m = offer_metadata v" if "leaf_map (root T) k = Some (v, m)" for v m
    using leaf_of_map [OF _ _ that] by (auto simp: book_def)
  then show "leaf_map (root T) k = plain_map (offers T) k"
    by (cases "leaf_map (root T) k") (auto simp: plain_map_def trie_map_leaf_map)
qed

lemma book_of_leaf_map:
  assumes "trie_inv 44 T" "leaf_map (root T) = plain_map M"
  shows "book T" "offers T = M"
proof -
  show map: "offers T = M"
  proof
    fix k
    show "offers T k = M k" using assms(2) by (cases "M k") (auto simp: trie_map_leaf_map plain_map_def fun_eq_iff)
  qed
  have wf: "wf_trie 44 (root T)" and "sums_ok (root T)" using assms(1) by (auto simp: trie_inv_def elim: meta_ok_mono)
  moreover have "m = offer_metadata v" if "(k, v, m) \<in> set (leaves (root T))" for k v m
  proof -
    have "leaf_map (root T) k = Some (v, m)" using that leaf_map_iff [OF wf] by blast
    then show ?thesis unfolding assms(2) by (auto simp: plain_map_def)
  qed
  then have "\<forall>x \<in> set (leaves (root T)). leaf_md x = offer_metadata (fst (snd x))" by auto
  ultimately show "book T" unfolding book_def meta_ok_iff [of "\<lambda>v m. m = offer_metadata v"] by blast
qed

lemma few_offers: "trie_inv 44 T \<Longrightarrow> card (dom (offers T)) < 2 ^ 32 \<longleftrightarrow> few_leaves T"
proof -
  have "dom (offers T) = dom (leaf_map (root T))" by (auto simp: dom_def trie_map_leaf_map)
  then show ?thesis by (simp add: few_leaves_def)
qed

lemma finite_offers: "trie_inv 44 T \<Longrightarrow> finite (dom (offers T))"
  using card_leaf_map(2) [of 44 "root T"] by (simp add: trie_inv_def trie_map_leaf_map dom_def)

text \<open>A bound on a set of keys bounds every book inside it.\<close>

lemma few_within: "trie_inv 44 T \<Longrightarrow> dom (offers T) \<subseteq> K \<Longrightarrow> finite K \<Longrightarrow> card K < 2 ^ 32 \<Longrightarrow> few_leaves T"
  using few_offers [of T] card_mono [of K "dom (offers T)"] by linarith

lemma book_empty [simp]: "book empty_trie" "offers empty_trie = Map.empty" "book (trie_clear T)" "offers (trie_clear T) = Map.empty"
proof -
  have "leaf_map (root (empty_trie :: Offer MerkleTrie)) = plain_map Map.empty" using empty_trie_inv(3) by simp
  from book_of_leaf_map [OF _ this] show e: "book empty_trie" "offers empty_trie = Map.empty" using empty_trie_inv(1) [of 44] by simp_all
  have "trie_clear T = empty_trie" by (simp add: trie_clear_def empty_trie_def)
  then show "book (trie_clear T)" "offers (trie_clear T) = Map.empty" using e by simp_all
qed

lemma flags_of_leaf:
  "marked_book T \<Longrightarrow> leaf_map (root T) k = Some (v, m) \<Longrightarrow> m = offer_metadata v \<or> m = set_deleted 1 (offer_metadata v)"
  unfolding marked_book_def using leaf_of_map [of 44 "root T" "\<lambda>v m. m = offer_metadata v \<or> m = set_deleted 1 (offer_metadata v)" k v m]
  by simp

lemma marked_book_of_leaf_map:
  assumes "trie_inv 44 T"
    "\<And>k v m. leaf_map (root T) k = Some (v, m) \<Longrightarrow> m = offer_metadata v \<or> m = set_deleted 1 (offer_metadata v)"
  shows "marked_book T"
proof -
  have wf: "wf_trie 44 (root T)" and "sums_ok (root T)" using assms(1) by (auto simp: trie_inv_def elim: meta_ok_mono)
  moreover have "\<forall>x \<in> set (leaves (root T)). leaf_md x = offer_metadata (fst (snd x)) \<or> leaf_md x = set_deleted 1 (offer_metadata (fst (snd x)))"
  proof
    fix x assume "x \<in> set (leaves (root T))"
    then have "leaf_map (root T) (fst x) = Some (fst (snd x), leaf_md x)" unfolding leaf_map_iff [OF wf] by simp
    then show "leaf_md x = offer_metadata (fst (snd x)) \<or> leaf_md x = set_deleted 1 (offer_metadata (fst (snd x)))" by (rule assms(2))
  qed
  ultimately show ?thesis
    unfolding marked_book_def meta_ok_iff [of "\<lambda>v m. m = offer_metadata v \<or> m = set_deleted 1 (offer_metadata v)"] by blast
qed

section \<open>Operations\<close>

lemma book_insert:
  assumes "book T" "length k = 44"
  shows "\<exists>T'. trie_insert offer_insert_fn k v T = Inr T' \<and> book T' \<and> offers T' = (offers T)(k \<mapsto> v)"
proof -
  obtain T' where T': "trie_insert offer_insert_fn k v T = Inr T'" "trie_inv 44 T'"
    "leaf_map (root T') = (leaf_map (root T))(k \<mapsto> (v, offer_metadata v))"
    using overwrite_trie.insert_refines [OF book_inv(1) [OF assms(1)] assms(2), of offer_metadata empty_offer v] by (auto simp: refines_def Let_def)
  then have "leaf_map (root T') = plain_map ((offers T)(k \<mapsto> v))" using book_leaf_map [OF assms(1)] by simp
  then show ?thesis using book_of_leaf_map [OF T'(2)] T'(1) by blast
qed

lemma book_delete:
  assumes "book T" "length k = 44" "few_leaves T"
  shows "\<exists>T'. trie_perform_deletion k T = Inr (offers T k, T') \<and> book T' \<and> offers T' = (offers T)(k := None)"
proof -
  obtain T' where T': "trie_perform_deletion k T = Inr (offers T k, T')" "trie_inv 44 T'"
    "leaf_map (root T') = (leaf_map (root T))(k := None)"
    using deletion_refines [OF book_inv(1) [OF assms(1)] assms(2,3)] by (auto simp: refines_def)
  then have "leaf_map (root T') = plain_map ((offers T)(k := None))" using book_leaf_map [OF assms(1)] by simp
  then show ?thesis using book_of_leaf_map [OF T'(2)] T'(1) by blast
qed

lemma book_merge:
  assumes "book T" "few_leaves T" "book U" "few_leaves U"
  shows "\<exists>T'. trie_merge_in OverwriteMergeFn U T = Inr T' \<and> book T' \<and> offers T' = offers T ++ offers U"
proof -
  have "overwrite_merge.compatible (\<lambda>v m. m = offer_metadata v)"
    unfolding overwrite_merge.compatible_def by (simp add: OverwriteMergeFn_def)
  then obtain T' where T': "trie_merge_in OverwriteMergeFn U T = Inr T'" "trie_inv 44 T'"
    "\<forall>k. offers T' k = merge_values (value_merge OverwriteMergeFn) (offers T k) (offers U k)" "book T'"
    using overwrite_merge.trie_merge_correct [OF book_inv(1) [OF assms(1)] assms(2) book_inv(1) [OF assms(3)] assms(4) overwrite_compatible]
      assms by (auto simp: book_def trie_inv_def)
  have "merge_values (value_merge OverwriteMergeFn) x y = (case y of None \<Rightarrow> x | Some w \<Rightarrow> Some w)" for x y :: "Offer option"
    by (cases x; cases y) (simp_all add: OverwriteMergeFn_def)
  then have "offers T' = offers T ++ offers U" using T'(3) by (simp add: map_add_def fun_eq_iff)
  then show ?thesis using T' by blast
qed

lemma book_values:
  assumes "book T" "card (dom (offers T)) \<le> 1000000000"
  shows "\<exists>vs. node_accumulate_values (root T) = Inr vs \<and> set vs = ran (offers T)"
proof -
  have "length (leaves (root T)) \<le> 1000000000"
    using assms card_leaf_map(1) [of 44 "root T"] by (simp add: book_def trie_map_leaf_map dom_def)
  moreover have "meta_ok unit_size (root T)" using assms(1) by (auto simp: book_def elim: meta_ok_mono)
  moreover have "ran (offers T) = (fst \<circ> snd) ` set (leaves (root T))"
    using assms(1) trie_map_leaf [of 44 "root T"] by (force simp: book_def ran_def)
  ultimately show ?thesis by (simp add: node_accumulate_values_correct contents_leaves image_image comp_def split_beta)
qed

text \<open>Deleting what is marked.\<close>

definition marked_keys :: "Offer MerkleTrie \<Rightarrow> key set" where
  "marked_keys T = {k. \<exists>v m. leaf_map (root T) k = Some (v, m) \<and> num_deleted_subnodes m = 1}"

lemma marked_keys_iff:
  "k \<in> marked_keys T \<longleftrightarrow> (case leaf_map (root T) k of None \<Rightarrow> False | Some (v, m) \<Rightarrow> num_deleted_subnodes m = 1)"
  by (auto simp: marked_keys_def split: option.split)

lemma book_apply_deletions:
  assumes "marked_book T" "few_leaves T"
  shows "\<exists>T' out. trie_perform_marked_deletions T = Inr (T', out) \<and> book T' \<and>
    offers T' = (\<lambda>k. if k \<in> marked_keys T then None else offers T k) \<and>
    map_of out = (\<lambda>k. if k \<in> marked_keys T then offers T k else None) \<and> distinct (map fst out)"
proof -
  have inv: "trie_inv 44 T" using book_inv(2) assms(1) by blast
  have wf: "wf_trie 44 (root T)" using assms(1) by (simp add: marked_book_def)
  have L: "m = offer_metadata v \<or> m = set_deleted 1 (offer_metadata v)" if "leaf_map (root T) k = Some (v, m)" for k v m
    using leaf_of_map [OF wf _ that] assms(1) unfolding marked_book_def by blast
  obtain T' where T': "trie_perform_marked_deletions T = Inr (T', map drop_md (filter marked (leaves (root T))))"
    "trie_inv 44 T'" "leaf_map (root T') = live_part (leaf_map (root T))"
    using marked_deletions_refine [OF inv assms(2)] by (auto simp: refines_def)
  have "live_part (leaf_map (root T)) k = plain_map (\<lambda>k. if k \<in> marked_keys T then None else offers T k) k" for k
    using L [of k] by (cases "leaf_map (root T) k")
      (auto simp: live_part_def plain_map_def marked_keys_def trie_map_leaf_map split: option.splits)
  then have "leaf_map (root T') = plain_map (\<lambda>k. if k \<in> marked_keys T then None else offers T k)" unfolding T'(3) by blast
  note T'' = book_of_leaf_map [OF T'(2) this]
  let ?out = "map drop_md (filter marked (leaves (root T)))"
  have dist: "distinct (map fst (leaves (root T)))"
    using wf ascending_distinct [OF contents_ascending, of 44 "annotate (root T)"] by (auto elim: wf_trie_cases)
  have "map fst ?out = map fst (filter marked (leaves (root T)))" by (simp add: comp_def split_beta)
  then have d: "distinct (map fst ?out)" using dist distinct_map_filter by metis
  have "map_of ?out k = (if k \<in> marked_keys T then offers T k else None)" for k
  proof (rule option_ext)
    fix v
    have "map_of ?out k = Some v \<longleftrightarrow> (k, v) \<in> set ?out" using d by (rule map_of_eq_Some_iff)
    also have "\<dots> \<longleftrightarrow> (\<exists>m. (k, v, m) \<in> set (leaves (root T)) \<and> num_deleted_subnodes m \<noteq> 0)" by (auto simp: deleted_count.flagged_def image_iff)
    also have "\<dots> \<longleftrightarrow> (\<exists>m. leaf_map (root T) k = Some (v, m) \<and> num_deleted_subnodes m \<noteq> 0)" using leaf_map_iff [OF wf] by simp
    also have "\<dots> \<longleftrightarrow> (if k \<in> marked_keys T then offers T k else None) = Some v"
      using L [of k] by (cases "leaf_map (root T) k") (auto simp: marked_keys_def trie_map_leaf_map)
    finally show "map_of ?out k = Some v \<longleftrightarrow> (if k \<in> marked_keys T then offers T k else None) = Some v" .
  qed
  then have "map_of ?out = (\<lambda>k. if k \<in> marked_keys T then offers T k else None)" by blast
  then show ?thesis using T'(1) T'' d by blast
qed

text \<open>Marking and unmarking one key.\<close>

lemma book_mark:
  assumes "marked_book T" "few_leaves T" "length k = 44"
  shows "\<exists>T'. trie_mark_for_deletion k T = Inr (if k \<in> marked_keys T then None else offers T k, T') \<and> marked_book T' \<and>
    offers T' = offers T \<and> marked_keys T' = marked_keys T \<union> {k} \<inter> dom (offers T)"
proof -
  obtain obj T' where T': "trie_mark_for_deletion k T = Inr (obj, T')" "trie_inv 44 T'"
    "leaf_map (root T') = relabel (marking (\<lambda>x. x = k)) (leaf_map (root T))"
    "\<forall>v. obj = Some v \<longleftrightarrow> (\<exists>m. leaf_map (root T) k = Some (v, m) \<and> num_deleted_subnodes m = 0)"
    using mark_refines [OF book_inv(2) [OF assms(1)] assms(3,2)] unfolding refines_def by blast
  note flags = flags_of_leaf [OF assms(1)]
  have "obj = (if k \<in> marked_keys T then None else offers T k)"
    using T'(4) flags [of k] by (intro option_ext) (auto simp: marked_keys_def trie_map_leaf_map)
  moreover have "marked_keys T' = marked_keys T \<union> {k} \<inter> dom (offers T)"
  proof (rule set_eqI)
    fix j
    show "j \<in> marked_keys T' \<longleftrightarrow> j \<in> marked_keys T \<union> {k} \<inter> dom (offers T)"
      using flags [of j] by (cases "leaf_map (root T) j") (auto simp: marked_keys_iff T'(3) relabel_def marking_def trie_map_leaf_map split: if_split_asm)
  qed
  moreover have "offers T' = offers T" by (auto simp: trie_map_leaf_map T'(3) relabel_def fun_eq_iff option.map_comp comp_def split_beta)
  moreover have "marked_book T'"
  proof (rule marked_book_of_leaf_map [OF T'(2)])
    fix j v m
    assume "leaf_map (root T') j = Some (v, m)"
    then obtain m0 where m0: "leaf_map (root T) j = Some (v, m0)" "m = marking (\<lambda>x. x = k) j m0" by (auto simp: T'(3) relabel_def)
    then show "m = offer_metadata v \<or> m = set_deleted 1 (offer_metadata v)" using flags [OF m0(1)] by (auto simp: marking_def)
  qed
  ultimately show ?thesis using T'(1) by blast
qed

lemma book_unmark:
  assumes "marked_book T" "few_leaves T" "length k = 44"
  shows "\<exists>T'. trie_unmark_for_deletion k T = Inr (if k \<in> marked_keys T then offers T k else None, T') \<and> marked_book T' \<and>
    offers T' = offers T \<and> marked_keys T' = marked_keys T - {k}"
proof -
  obtain obj T' where T': "trie_unmark_for_deletion k T = Inr (obj, T')" "trie_inv 44 T'"
    "leaf_map (root T') = relabel (unmarking (\<lambda>x. x = k)) (leaf_map (root T))"
    "\<forall>v. obj = Some v \<longleftrightarrow> (\<exists>m. leaf_map (root T) k = Some (v, m) \<and> num_deleted_subnodes m = 1)"
    using unmark_refines [OF book_inv(2) [OF assms(1)] assms(3,2)] unfolding refines_def by blast
  note flags = flags_of_leaf [OF assms(1)]
  have "obj = (if k \<in> marked_keys T then offers T k else None)"
    using T'(4) flags [of k] by (intro option_ext) (auto simp: marked_keys_def trie_map_leaf_map)
  moreover have "marked_keys T' = marked_keys T - {k}"
  proof (rule set_eqI)
    fix j
    show "j \<in> marked_keys T' \<longleftrightarrow> j \<in> marked_keys T - {k}"
      using flags [of j] by (cases "leaf_map (root T) j") (auto simp: marked_keys_iff T'(3) relabel_def unmarking_def split: if_split_asm)
  qed
  moreover have "offers T' = offers T" by (auto simp: trie_map_leaf_map T'(3) relabel_def fun_eq_iff option.map_comp comp_def split_beta)
  moreover have "marked_book T'"
  proof (rule marked_book_of_leaf_map [OF T'(2)])
    fix j v m
    assume "leaf_map (root T') j = Some (v, m)"
    then obtain m0 where m0: "leaf_map (root T) j = Some (v, m0)" "m = unmarking (\<lambda>x. x = k) j m0" by (auto simp: T'(3) relabel_def)
    then show "m = offer_metadata v \<or> m = set_deleted 1 (offer_metadata v)" using flags [OF m0(1)]
      by (auto simp: unmarking_def set_deleted_def offer_metadata_def)
  qed
  ultimately show ?thesis using T'(1) by blast
qed

section \<open>The offers in order\<close>

definition offer_list :: "Offer MerkleTrie \<Rightarrow> (key \<times> Offer) list" where
  "offer_list T = contents (root T)"

definition amounts :: "(key \<times> Offer) list \<Rightarrow> int" where
  "amounts xs = (\<Sum>(k, v) \<leftarrow> xs. sint (offer_amount v :: i64))"

text \<open>What every offer of a book satisfies, and that its total fits.\<close>

definition sound_book :: "Offer MerkleTrie \<Rightarrow> bool" where
  "sound_book T \<longleftrightarrow> book T \<and> few_leaves T \<and> amounts (offer_list T) < 2 ^ 63 \<and>
     (\<forall>k v. offers T k = Some v \<longrightarrow> k = key_of v \<and> is_valid_price (minPrice v) \<and> 0 < sint (offer_amount v :: i64))"

lemma offers_offer_list: "offers T = map_of (offer_list T)"
  by (simp add: offer_list_def trie_map_def)

lemma offer_list_sorted: "book T \<Longrightarrow> sorted_wrt key_less (map fst (offer_list T))"
  unfolding book_def offer_list_def
  by (auto simp: contents_leaves ascending_def dest!: contents_ascending [unfolded ascending_def] elim!: wf_trie_cases)

lemma offer_list_distinct: "book T \<Longrightarrow> distinct (map fst (offer_list T))"
  using offer_list_sorted [of T] ascending_distinct by (auto simp: ascending_def)

end
