(* ===== verification/Modification_Log.thy ===== *)
theory Modification_Log
  imports Xdr_Types "HOL-Library.Multiset" "HOL-Library.Product_Lexorder"
begin

text \<open>
  The log of the accounts a block modifies, \<^verbatim>\<open>account_modification_log.h\<close> and
  \<^verbatim>\<open>account_modification_log.cc\<close>, and the counters of \<^verbatim>\<open>block_update_stats.h\<close>.
  The log is a trie keyed by account (\<^verbatim>\<open>account_merkle_trie.h\<close>), here the map it holds; its
  hash and the files it is written to are left out.
\<close>

type_synonym account_log = "AccountID \<rightharpoonup> AccountModificationTxList"

section \<open>Entries\<close>

definition log_new_value :: "AccountID \<Rightarrow> AccountModificationTxList" where
  "log_new_value account = \<lparr>log_owner = account, new_transactions_self = [], identifiers_self = [], identifiers_others = []\<rparr>"

text \<open>The three overloads of \<open>LogInsertFn::value_insert\<close>.\<close>

definition value_insert_self :: "u64 \<Rightarrow> AccountModificationTxList \<Rightarrow> AccountModificationTxList res" where
  "value_insert_self self_sequence_number v = Inr (v\<lparr>identifiers_self := identifiers_self v @ [self_sequence_number]\<rparr>)"

definition value_insert_other :: "TxIdentifier \<Rightarrow> AccountModificationTxList \<Rightarrow> AccountModificationTxList res" where
  "value_insert_other other_identifier v = Inr (v\<lparr>identifiers_others := identifiers_others v @ [other_identifier]\<rparr>)"

definition value_insert_tx :: "SignedTransaction \<Rightarrow> AccountModificationTxList \<Rightarrow> AccountModificationTxList res" where
  "value_insert_tx self_transaction v =
     (let v = v\<lparr>new_transactions_self := new_transactions_self v @ [self_transaction]\<rparr>
      in if 500000 < length (new_transactions_self v) then Inl (Runtime_error ''invalid main_value!!!'') else Inr v)"

definition log_insert ::
    "(AccountModificationTxList \<Rightarrow> AccountModificationTxList res) \<Rightarrow> AccountID \<Rightarrow> account_log \<Rightarrow> account_log res" where
  "log_insert value_insert account L =
     res_bind (value_insert (case L account of None \<Rightarrow> log_new_value account | Some v \<Rightarrow> v)) (\<lambda>v. Inr (L(account \<mapsto> v)))"

definition log_self_modification :: "AccountID \<Rightarrow> u64 \<Rightarrow> account_log \<Rightarrow> account_log res" where
  "log_self_modification owner sequence_number = log_insert (value_insert_self sequence_number) owner"

definition log_other_modification :: "AccountID \<Rightarrow> u64 \<Rightarrow> AccountID \<Rightarrow> account_log \<Rightarrow> account_log res" where
  "log_other_modification tx_owner sequence_number modified_account =
     log_insert (value_insert_other \<lparr>txid_owner = tx_owner, txid_sequence_number = sequence_number\<rparr>) modified_account"

definition log_new_self_transaction :: "SignedTransaction \<Rightarrow> account_log \<Rightarrow> account_log res" where
  "log_new_self_transaction tx = log_insert (value_insert_tx tx) (sourceAccount (metadata (transaction tx)))"

section \<open>Merging the logs of two threads\<close>

definition log_value_merge :: "AccountModificationTxList \<Rightarrow> AccountModificationTxList \<Rightarrow> AccountModificationTxList res" where
  "log_value_merge original_value merge_in_value =
     (let v = original_value
        \<lparr>new_transactions_self := new_transactions_self original_value @ new_transactions_self merge_in_value,
         identifiers_self := identifiers_self original_value @ identifiers_self merge_in_value,
         identifiers_others := identifiers_others original_value @ identifiers_others merge_in_value\<rparr>
      in if log_owner original_value \<noteq> log_owner merge_in_value
         then Inl (Runtime_error ''owner mismatch when merging logs!!!'') else Inr v)"

section \<open>Normalisation before hashing\<close>

text \<open>The loop of \<open>dedup\<close>: the index advances in the loop header and again when nothing is erased.\<close>

function dedup :: "('a \<Rightarrow> 'a \<Rightarrow> bool) \<Rightarrow> nat \<Rightarrow> 'a list \<Rightarrow> 'a list" where
  "dedup comparator i values =
     (if i < length values
      then if comparator (values ! i) (values ! (i - 1)) then dedup comparator (i + 1) (take i values @ drop (i + 1) values)
           else dedup comparator (i + 2) values
      else values)"
  by pat_completeness auto

termination
  by (relation "measure (\<lambda>(_, i, values). length values - i)") auto

declare dedup.simps [simp del]

text \<open>
  \<open>std::sort\<close> leaves the order of elements that compare equal open; only transactions of one account
  with the same sequence number do, and an account has no two of these in a block.
\<close>

definition normalize_log :: "AccountModificationTxList \<Rightarrow> AccountModificationTxList" where
  "normalize_log l = l
     \<lparr>identifiers_self := dedup (=) 1 (sort (identifiers_self l)),
      identifiers_others := dedup (\<lambda>a b. txid_owner a = txid_owner b \<and> txid_sequence_number a = txid_sequence_number b) 1
        (sort_key (\<lambda>x. (txid_owner x, txid_sequence_number x)) (identifiers_others l)),
      new_transactions_self := dedup (\<lambda>a b. sequenceNumber (metadata (transaction a)) = sequenceNumber (metadata (transaction b))) 1
        (sort_key (\<lambda>x. sequenceNumber (metadata (transaction x))) (new_transactions_self l))\<rparr>"

section \<open>Counters\<close>

definition no_stats :: BlockStateUpdateStats where
  "no_stats = \<lparr>new_offer_count = 0, cancel_offer_count = 0, fully_clear_offer_count = 0, partial_clear_offer_count = 0,
     payment_count = 0, new_account_count = 0\<rparr>"

definition stats_plus :: "BlockStateUpdateStats \<Rightarrow> BlockStateUpdateStats \<Rightarrow> BlockStateUpdateStats" where
  "stats_plus s other =
     \<lparr>new_offer_count = new_offer_count s + new_offer_count other,
      cancel_offer_count = cancel_offer_count s + cancel_offer_count other,
      fully_clear_offer_count = fully_clear_offer_count s + fully_clear_offer_count other,
      partial_clear_offer_count = partial_clear_offer_count s + partial_clear_offer_count other,
      payment_count = payment_count s + payment_count other,
      new_account_count = new_account_count s + new_account_count other\<rparr>"

section \<open>Properties\<close>

definition log_ok :: "account_log \<Rightarrow> bool" where
  "log_ok L \<longleftrightarrow> (\<forall>a l. L a = Some l \<longrightarrow> log_owner l = a)"

lemma log_insert_ok:
  assumes "log_ok L" "\<And>v v'. f v = Inr v' \<Longrightarrow> log_owner v' = log_owner v" "log_insert f a L = Inr L'"
  shows "log_ok L'" "dom L' = insert a (dom L)" "b \<noteq> a \<Longrightarrow> L' b = L b"
  using assms by (auto simp: log_ok_def log_insert_def log_new_value_def split: option.splits if_splits)

lemma log_ops_ok:
  "log_ok L \<Longrightarrow> log_self_modification a s L = Inr L' \<Longrightarrow> log_ok L' \<and> dom L' = insert a (dom L)"
  "log_ok L \<Longrightarrow> log_other_modification a s b L = Inr L' \<Longrightarrow> log_ok L' \<and> dom L' = insert b (dom L)"
  "log_ok L \<Longrightarrow> log_new_self_transaction tx L = Inr L' \<Longrightarrow> log_ok L' \<and> dom L' = insert (sourceAccount (metadata (transaction tx))) (dom L)"
proof -
  have owner: "value_insert_self s v = Inr v' \<Longrightarrow> log_owner v' = log_owner v" "value_insert_other t v = Inr v' \<Longrightarrow> log_owner v' = log_owner v"
    "value_insert_tx tx v = Inr v' \<Longrightarrow> log_owner v' = log_owner v" for s t tx v v'
    by (auto simp: value_insert_self_def value_insert_other_def value_insert_tx_def Let_def split: if_splits)
  show "log_ok L \<Longrightarrow> log_self_modification a s L = Inr L' \<Longrightarrow> log_ok L' \<and> dom L' = insert a (dom L)"
    unfolding log_self_modification_def using log_insert_ok(1,2) [of L "value_insert_self s" a L'] owner(1) by blast
  show "log_ok L \<Longrightarrow> log_other_modification a s b L = Inr L' \<Longrightarrow> log_ok L' \<and> dom L' = insert b (dom L)"
    unfolding log_other_modification_def using log_insert_ok(1,2) [of L "value_insert_other \<lparr>txid_owner = a, txid_sequence_number = s\<rparr>" b L'] owner(2) by blast
  show "log_ok L \<Longrightarrow> log_new_self_transaction tx L = Inr L' \<Longrightarrow> log_ok L' \<and> dom L' = insert (sourceAccount (metadata (transaction tx))) (dom L)"
    unfolding log_new_self_transaction_def using log_insert_ok(1,2) [of L "value_insert_tx tx" "sourceAccount (metadata (transaction tx))" L'] owner(3) by blast
qed

lemma log_self_modification_returns: "\<exists>L'. log_self_modification a s L = Inr L'" "\<exists>L'. log_other_modification a s b L = Inr L'"
  by (simp_all add: log_self_modification_def log_other_modification_def log_insert_def value_insert_self_def value_insert_other_def)

lemma dedup_Nil [simp]: "dedup c i [] = []"
  by (simp add: dedup.simps)

text \<open>No entry is lost: an erased element equals its left neighbour.\<close>

lemma set_dedup:
  assumes "0 < i" "\<And>x y. c x y \<Longrightarrow> x = y"
  shows "set (dedup c i xs) = set xs"
  using assms
proof (induction c i xs rule: dedup.induct)
  case (1 c i xs)
  show ?case
  proof (cases "i < length xs \<and> c (xs ! i) (xs ! (i - 1))")
    case True
    then have "xs ! i = xs ! (i - 1)" using "1.prems"(2) by blast
    moreover have "xs ! (i - 1) \<in> set (take i xs)" using True "1.prems"(1) by (auto simp: in_set_conv_nth intro!: exI [of _ "i - 1"])
    moreover have "set xs = set (take i xs) \<union> {xs ! i} \<union> set (drop (i + 1) xs)"
      using True id_take_nth_drop [of i xs] by (metis Suc_eq_plus1 Un_insert_right list.simps(15) set_append sup_bot_right Un_insert_left)
    ultimately have "set (take i xs @ drop (i + 1) xs) = set xs" by auto
    moreover have "set (dedup c (i + 1) (take i xs @ drop (i + 1) xs)) = set (take i xs @ drop (i + 1) xs)"
      using "1.IH"(1) True "1.prems" by simp
    ultimately show ?thesis using True by (subst dedup.simps) simp
  next
    case False
    then show ?thesis using "1.IH"(2) "1.prems" by (subst dedup.simps) auto
  qed
qed

text \<open>Sorting forgets the order in which threads logged and logs were merged.\<close>

definition same_entries :: "AccountModificationTxList \<Rightarrow> AccountModificationTxList \<Rightarrow> bool" where
  "same_entries l l' \<longleftrightarrow> log_owner l = log_owner l' \<and> mset (identifiers_self l) = mset (identifiers_self l') \<and>
     mset (identifiers_others l) = mset (identifiers_others l') \<and> mset (new_transactions_self l) = mset (new_transactions_self l')"

lemma sort_key_mset:
  assumes "mset xs = mset ys" "inj_on f (set xs)"
  shows "sort_key f xs = sort_key f ys"
proof (rule sort_key_inj_key_eq)
  show "mset xs = mset (sort_key f ys)" by (simp add: assms(1))
qed (use assms(2) in simp_all)

lemma normalize_log_order:
  assumes "same_entries l l'"
  shows "log_owner (normalize_log l) = log_owner (normalize_log l')"
    and "identifiers_self (normalize_log l) = identifiers_self (normalize_log l')"
    and "identifiers_others (normalize_log l) = identifiers_others (normalize_log l')"
    and "inj_on (\<lambda>x. sequenceNumber (metadata (transaction x))) (set (new_transactions_self l)) \<Longrightarrow> normalize_log l = normalize_log l'"
proof -
  have 1: "sort (identifiers_self l) = sort (identifiers_self l')" using assms(1) by (intro sort_key_mset) (simp_all add: same_entries_def)
  have 2: "sort_key (\<lambda>x. (txid_owner x, txid_sequence_number x)) (identifiers_others l) =
      sort_key (\<lambda>x. (txid_owner x, txid_sequence_number x)) (identifiers_others l')"
    using assms(1) by (intro sort_key_mset) (auto simp: same_entries_def inj_on_def)
  show "log_owner (normalize_log l) = log_owner (normalize_log l')" using assms by (simp add: normalize_log_def same_entries_def)
  show "identifiers_self (normalize_log l) = identifiers_self (normalize_log l')" using 1 by (simp add: normalize_log_def)
  show "identifiers_others (normalize_log l) = identifiers_others (normalize_log l')" using 2 by (simp add: normalize_log_def)
  assume "inj_on (\<lambda>x. sequenceNumber (metadata (transaction x))) (set (new_transactions_self l))"
  then have "sort_key (\<lambda>x. sequenceNumber (metadata (transaction x))) (new_transactions_self l) =
      sort_key (\<lambda>x. sequenceNumber (metadata (transaction x))) (new_transactions_self l')"
    using assms by (intro sort_key_mset) (simp_all add: same_entries_def)
  then show "normalize_log l = normalize_log l'" using assms 1 2 by (simp add: normalize_log_def same_entries_def)
qed

lemma log_value_merge_commute:
  assumes "log_owner l = log_owner l'"
  shows "\<exists>m m'. log_value_merge l l' = Inr m \<and> log_value_merge l' l = Inr m' \<and> same_entries m m'"
  using assms by (auto simp: log_value_merge_def same_entries_def Let_def)

lemma normalize_keeps_entries:
  "set (identifiers_self (normalize_log l)) = set (identifiers_self l)"
  "set (identifiers_others (normalize_log l)) = set (identifiers_others l)"
proof -
  show "set (identifiers_self (normalize_log l)) = set (identifiers_self l)" by (simp add: normalize_log_def set_dedup)
  have "set (dedup (\<lambda>a b. txid_owner a = txid_owner b \<and> txid_sequence_number a = txid_sequence_number b) 1 xs) = set xs"
    for xs :: "TxIdentifier list" by (rule set_dedup) simp_all
  then show "set (identifiers_others (normalize_log l)) = set (identifiers_others l)" by (simp add: normalize_log_def del: One_nat_def)
qed

text \<open>The doubled increment: the second of two neighbouring pairs is never compared.\<close>

lemma dedup_skips: "a \<noteq> b \<Longrightarrow> dedup (=) 1 [a, b, b] = [a, b, b]"
  by (simp add: dedup.simps)

end
