(* ===== verification/Revertable_Asset.thy ===== *)
theory Revertable_Asset
  imports Xdr_Types
begin

text \<open>
  One balance, \<^verbatim>\<open>revertable_asset.h\<close>: the atomic \<open>available\<close> amount, the amount at the last
  commit, and the two dirty flags.  Besides the sequential operations, the compare-and-swap loop of
  \<^verbatim>\<open>conditional_transfer_available\<close> is given as a step relation over interleaved threads.
  The theory also states the interface every balance-keeping component of the program offers.
\<close>

section \<open>The balance and its operations\<close>

record RevertableAsset =
  available :: i64
  committed_available :: i64
  commit_modified :: bool
  checkpoint_modified :: bool

definition revertable_asset :: "i64 \<Rightarrow> RevertableAsset" where
  "revertable_asset amount =
     \<lparr>available = amount, committed_available = amount, commit_modified = True, checkpoint_modified = True\<rparr>"

text \<open>The default constructor.\<close>

definition empty_asset :: RevertableAsset where
  "empty_asset =
     \<lparr>available = 0, committed_available = 0, commit_modified = True, checkpoint_modified = True\<rparr>"

text \<open>The move constructor copies the amounts; the flags take their default initialisers.\<close>

definition move_asset :: "RevertableAsset \<Rightarrow> RevertableAsset" where
  "move_asset r =
     \<lparr>available = available r, committed_available = committed_available r,
      commit_modified = True, checkpoint_modified = True\<rparr>"

definition asset_transfer_available :: "RevertableAsset \<Rightarrow> i64 \<Rightarrow> RevertableAsset" where
  "asset_transfer_available r amount = r\<lparr>available := available r + amount\<rparr>"

definition asset_escrow :: "RevertableAsset \<Rightarrow> i64 \<Rightarrow> RevertableAsset" where
  "asset_escrow r amount = r\<lparr>available := available r + (- amount)\<rparr>"

definition asset_transfer_escrow :: "RevertableAsset \<Rightarrow> i64 \<Rightarrow> RevertableAsset" where
  "asset_transfer_escrow r amount = r"

definition asset_conditional_transfer_available ::
    "RevertableAsset \<Rightarrow> i64 \<Rightarrow> RevertableAsset \<times> bool" where
  "asset_conditional_transfer_available r amount =
     (let tentative_available = available r + amount
      in if is_negative tentative_available then (r, False)
         else (r\<lparr>available := tentative_available\<rparr>, True))"

definition asset_conditional_escrow :: "RevertableAsset \<Rightarrow> i64 \<Rightarrow> RevertableAsset \<times> bool" where
  "asset_conditional_escrow r amount =
     (if 0 < sint amount then asset_conditional_transfer_available r (- amount)
      else (asset_transfer_available r (- amount), True))"

definition asset_lookup_available_balance :: "RevertableAsset \<Rightarrow> i64" where
  "asset_lookup_available_balance r = available r"

definition asset_produce_commitment :: "RevertableAsset \<Rightarrow> AssetID \<Rightarrow> AssetCommitment" where
  "asset_produce_commitment r asset =
     \<lparr>commit_asset = asset, amount_available = committed_available r\<rparr>"

definition asset_tentative_commitment :: "RevertableAsset \<Rightarrow> AssetID \<Rightarrow> AssetCommitment" where
  "asset_tentative_commitment r asset = \<lparr>commit_asset = asset, amount_available = available r\<rparr>"

definition asset_commit :: "RevertableAsset \<Rightarrow> RevertableAsset \<times> i64" where
  "asset_commit r =
     (let r' = (if available r \<noteq> committed_available r
                then r\<lparr>committed_available := available r, commit_modified := True,
                       checkpoint_modified := True\<rparr>
                else r)
      in (r', committed_available r'))"

definition asset_rollback :: "RevertableAsset \<Rightarrow> RevertableAsset" where
  "asset_rollback r = r\<lparr>available := committed_available r\<rparr>"

definition asset_in_valid_state :: "RevertableAsset \<Rightarrow> bool" where
  "asset_in_valid_state r \<longleftrightarrow> \<not> is_negative (available r)"

definition clear_commit_modified_flag :: "RevertableAsset \<Rightarrow> RevertableAsset" where
  "clear_commit_modified_flag r = r\<lparr>commit_modified := False\<rparr>"

definition clear_checkpoint_modified_flag :: "RevertableAsset \<Rightarrow> RevertableAsset" where
  "clear_checkpoint_modified_flag r = r\<lparr>checkpoint_modified := False\<rparr>"

section \<open>Sequential behaviour\<close>

lemma asset_commit_simps [simp]:
  "available (fst (asset_commit r)) = available r"
  "committed_available (fst (asset_commit r)) = available r"
  "snd (asset_commit r) = available r"
  by (simp_all add: asset_commit_def Let_def)

text \<open>A changed balance is always marked for the next commitment and the next checkpoint.\<close>

lemma asset_commit_marks:
  "available r \<noteq> committed_available r \<Longrightarrow>
   commit_modified (fst (asset_commit r)) \<and> checkpoint_modified (fst (asset_commit r))"
  by (simp add: asset_commit_def Let_def)

lemma asset_rollback_simps [simp]:
  "available (asset_rollback r) = committed_available r"
  "committed_available (asset_rollback r) = committed_available r"
  by (simp_all add: asset_rollback_def)

lemma conditional_transfer_cases:
  assumes "asset_conditional_transfer_available r amount = (r', b)"
  obtains (refused) "b = False" "r' = r" "is_negative (available r + amount)"
    | (accepted) "b = True" "r' = asset_transfer_available r amount" "\<not> is_negative (available r')"
  using assms
  by (auto simp: asset_conditional_transfer_available_def asset_transfer_available_def Let_def
      split: if_splits)

section \<open>The interface of a balance keeper\<close>

text \<open>
  Accounts, the database and the per-transaction views all keep balances by a key: an asset, or an
  account index and an asset.  \<open>valid\<close> says which keys a state has.
\<close>

locale balance_keeper =
  fixes valid :: "'s \<Rightarrow> 'k \<Rightarrow> bool"
    and balance :: "'s \<Rightarrow> 'k \<Rightarrow> i64"
    and transfer :: "'s \<Rightarrow> 'k \<Rightarrow> i64 \<Rightarrow> 's"
    and cond_transfer :: "'s \<Rightarrow> 'k \<Rightarrow> i64 \<Rightarrow> 's \<times> bool"
  assumes transfer_valid: "valid s k \<Longrightarrow> valid (transfer s k a) k' = valid s k'"
    and balance_transfer:
      "valid s k \<Longrightarrow> valid s k' \<Longrightarrow>
       balance (transfer s k a) k' = (if k' = k then balance s k + a else balance s k')"
    and cond_transfer_valid: "valid s k \<Longrightarrow> valid (fst (cond_transfer s k a)) k' = valid s k'"
    and cond_transfer_result:
      "valid s k \<Longrightarrow> snd (cond_transfer s k a) = (\<not> is_negative (balance s k + a))"
    and balance_cond_transfer:
      "valid s k \<Longrightarrow> valid s k' \<Longrightarrow>
       balance (fst (cond_transfer s k a)) k' =
         (if k' = k \<and> snd (cond_transfer s k a) then balance s k + a else balance s k')"
begin

definition cond_escrow :: "'s \<Rightarrow> 'k \<Rightarrow> i64 \<Rightarrow> 's \<times> bool" where
  "cond_escrow s k a =
     (if 0 < sint a then cond_transfer s k (- a) else (transfer s k (- a), True))"

text \<open>A conditional transfer that went through is undone by the opposite transfer.\<close>

lemma undo_cond_transfer:
  assumes "valid s k" "valid s k'" "snd (cond_transfer s k a)"
  shows "balance (transfer (fst (cond_transfer s k a)) k (- a)) k' = balance s k'"
  using assms by (simp add: balance_transfer balance_cond_transfer cond_transfer_valid)

text \<open>A conditional transfer never makes a balance negative, and a refused one changes nothing.\<close>

lemma cond_transfer_keeps_nonneg:
  assumes "valid s k" "valid s k'" "\<not> is_negative (balance s k')"
  shows "\<not> is_negative (balance (fst (cond_transfer s k a)) k')"
  using assms by (simp add: balance_cond_transfer cond_transfer_result)

lemma cond_transfer_refused:
  assumes "valid s k" "valid s k'" "\<not> snd (cond_transfer s k a)"
  shows "balance (fst (cond_transfer s k a)) k' = balance s k'"
  using assms by (simp add: balance_cond_transfer)

text \<open>Taking from one key and giving to another keeps the sum over any finite set with both.\<close>

lemma move_conserves:
  assumes "finite K" "k1 \<in> K" "k2 \<in> K" "\<forall>k \<in> K. valid s k" "snd (cond_transfer s k1 (- a))"
  shows "(\<Sum>k \<in> K. balance (transfer (fst (cond_transfer s k1 (- a))) k2 a) k) = (\<Sum>k \<in> K. balance s k)"
proof -
  let ?s = "fst (cond_transfer s k1 (- a))"
  have v: "\<forall>k \<in> K. valid ?s k" using assms by (simp add: cond_transfer_valid)
  have one: "(\<Sum>k \<in> K. balance s' k + (if k = k0 then c else 0)) = (\<Sum>k \<in> K. balance s' k) + c"
    if "k0 \<in> K" for k0 c s'
    using that assms(1) by (simp add: sum.distrib)
  have "(\<Sum>k \<in> K. balance (transfer ?s k2 a) k) = (\<Sum>k \<in> K. balance ?s k + (if k = k2 then a else 0))"
    using v assms(3) by (intro sum.cong) (simp_all add: balance_transfer)
  also have "\<dots> = (\<Sum>k \<in> K. balance ?s k) + a" by (rule one [OF assms(3)])
  also have "(\<Sum>k \<in> K. balance ?s k) = (\<Sum>k \<in> K. balance s k + (if k = k1 then - a else 0))"
    using assms by (intro sum.cong) (simp_all add: balance_cond_transfer)
  also have "\<dots> = (\<Sum>k \<in> K. balance s k) - a" by (simp add: one [OF assms(2)])
  finally show ?thesis by simp
qed

end

interpretation single_asset: balance_keeper "\<lambda>r (k :: unit). True" "\<lambda>r k. available r"
    "\<lambda>r k. asset_transfer_available r" "\<lambda>r k. asset_conditional_transfer_available r"
  by unfold_locales
    (auto simp: asset_transfer_available_def asset_conditional_transfer_available_def Let_def)

section \<open>Threads racing on one balance\<close>

text \<open>
  Each thread calls \<open>conditional_transfer_available(amount)\<close> once, or makes one unconditional
  \<open>fetch_add\<close>.  The steps of the loop: the relaxed load, the early return when the tentative amount
  is negative, the successful exchange (only when the cell still holds the loaded value), and the
  failed exchange, which \<open>compare_exchange_weak\<close> may also report spuriously.
\<close>

datatype thread =
    Loop_head i64
  | Loaded i64 i64
  | Add i64
  | Returned i64 bool

record race =
  cell :: i64
  threads :: "thread list"

inductive race_step :: "race \<Rightarrow> race \<Rightarrow> bool" where
  load: "i < length (threads s) \<Longrightarrow> threads s ! i = Loop_head a \<Longrightarrow>
    race_step s (s\<lparr>threads := (threads s)[i := Loaded a (cell s)]\<rparr>)"
| refuse: "i < length (threads s) \<Longrightarrow> threads s ! i = Loaded a cur \<Longrightarrow> is_negative (cur + a) \<Longrightarrow>
    race_step s (s\<lparr>threads := (threads s)[i := Returned a False]\<rparr>)"
| exchange: "i < length (threads s) \<Longrightarrow> threads s ! i = Loaded a cur \<Longrightarrow> \<not> is_negative (cur + a) \<Longrightarrow>
    cell s = cur \<Longrightarrow>
    race_step s (s\<lparr>cell := cur + a, threads := (threads s)[i := Returned a True]\<rparr>)"
| retry: "i < length (threads s) \<Longrightarrow> threads s ! i = Loaded a cur \<Longrightarrow> \<not> is_negative (cur + a) \<Longrightarrow>
    race_step s (s\<lparr>threads := (threads s)[i := Loop_head a]\<rparr>)"
| fetch_add: "i < length (threads s) \<Longrightarrow> threads s ! i = Add a \<Longrightarrow>
    race_step s (s\<lparr>cell := cell s + a, threads := (threads s)[i := Returned a True]\<rparr>)"

inductive_cases race_stepE: "race_step s s'"

definition applied :: "thread \<Rightarrow> i64" where
  "applied t = (case t of Returned a True \<Rightarrow> a | _ \<Rightarrow> 0)"

definition total_applied :: "race \<Rightarrow> i64" where
  "total_applied s = sum_list (map applied (threads s))"

definition only_conditional :: "race \<Rightarrow> bool" where
  "only_conditional s \<longleftrightarrow> list_all (\<lambda>t. case t of Add _ \<Rightarrow> False | _ \<Rightarrow> True) (threads s)"

lemma sum_list_applied_update:
  fixes ts :: "thread list"
  assumes "i < length ts"
  shows "sum_list (map applied (ts[i := t])) = sum_list (map applied ts) - applied (ts ! i) + applied t"
proof -
  have "sum_list (map applied (ts[i := t])) + applied (ts ! i) = sum_list (map applied ts) + applied t"
    using assms by (induction ts arbitrary: i) (auto simp: nth_Cons' less_Suc_eq_0_disj algebra_simps split: nat.splits)
  then show ?thesis by (simp only: diff_add_eq eq_diff_eq)
qed

lemma race_step_accounts:
  "race_step s s' \<Longrightarrow> cell s' - total_applied s' = cell s - total_applied s"
  by (erule race_stepE) (simp_all add: total_applied_def sum_list_applied_update, simp_all add: applied_def)

lemma race_accounts:
  "race_step\<^sup>*\<^sup>* s s' \<Longrightarrow> cell s' = cell s + (total_applied s' - total_applied s)"
proof (induction rule: rtranclp_induct)
  case (step y z)
  have "cell z = cell y - total_applied y + total_applied z"
    using race_step_accounts [OF step.hyps(2)] by (simp add: diff_eq_eq)
  then show ?case using step.IH by simp
qed simp

lemma race_step_nonneg:
  "race_step s s' \<Longrightarrow> only_conditional s \<Longrightarrow> \<not> is_negative (cell s) \<Longrightarrow>
   only_conditional s' \<and> \<not> is_negative (cell s')"
  by (erule race_stepE) (auto simp: only_conditional_def list_all_length nth_list_update)

lemma race_nonneg:
  "race_step\<^sup>*\<^sup>* s s' \<Longrightarrow> only_conditional s \<Longrightarrow> \<not> is_negative (cell s) \<Longrightarrow>
   only_conditional s' \<and> \<not> is_negative (cell s')"
  by (induction rule: rtranclp_induct) (auto dest: race_step_nonneg)

definition unfinished :: "thread \<Rightarrow> bool" where
  "unfinished t = (case t of Returned _ _ \<Rightarrow> False | _ \<Rightarrow> True)"

text \<open>
  Progress: a failed exchange is genuine when another thread has changed the cell since the load.  Without spurious
  failures every schedule is finite: each success makes every other thread retry at most once.
\<close>

definition genuine_step :: "race \<Rightarrow> race \<Rightarrow> bool" where
  "genuine_step s s' \<longleftrightarrow> race_step s s' \<and>
     (\<forall>i a cur. i < length (threads s) \<and> threads s ! i = Loaded a cur \<and> threads s' ! i = Loop_head a \<longrightarrow> cell s \<noteq> cur)"

fun steps_left :: "i64 \<Rightarrow> thread \<Rightarrow> nat" where
  "steps_left c (Loop_head a) = 2"
| "steps_left c (Loaded a cur) = (if cur = c then 1 else 3)"
| "steps_left c (Add a) = 1"
| "steps_left c (Returned a b) = 0"

definition thread_work :: "nat \<Rightarrow> i64 \<Rightarrow> thread \<Rightarrow> nat" where
  "thread_work n c t = steps_left c t + (if unfinished t then 2 * n else 0)"

definition race_work :: "race \<Rightarrow> nat" where
  "race_work s = sum_list (map (thread_work (length (threads s)) (cell s)) (threads s))"

lemma thread_work_simps [simp]:
  "thread_work n c (Loop_head a) = 2 + 2 * n" "thread_work n c (Loaded a cur) = (if cur = c then 1 else 3) + 2 * n"
  "thread_work n c (Add a) = 1 + 2 * n" "thread_work n c (Returned a b) = 0"
  by (simp_all add: thread_work_def unfinished_def)

lemma sum_thread_work_update:
  "i < length ts \<Longrightarrow> sum_list (map (thread_work n c) (ts[i := t])) + thread_work n c (ts ! i) = sum_list (map (thread_work n c) ts) + thread_work n c t"
  by (induction ts arbitrary: i) (auto simp: nth_Cons' less_Suc_eq_0_disj split: nat.splits)

lemma sum_thread_work_cell: "sum_list (map (thread_work n c') ts) \<le> sum_list (map (thread_work n c) ts) + 2 * length ts"
proof (induction ts)
  case (Cons t ts)
  have "thread_work n c' t \<le> thread_work n c t + 2" by (cases t) simp_all
  then show ?case using Cons by simp
qed simp

lemma race_step_length: "race_step s s' \<Longrightarrow> length (threads s') = length (threads s)"
  by (erule race_stepE) simp_all

text \<open>A step within a thread, and a success, which may make the loads of the others stale.\<close>

lemma work_of_update:
  assumes "i < length (threads s)" "thread_work (length (threads s)) (cell s) t < thread_work (length (threads s)) (cell s) (threads s ! i)"
  shows "race_work (s\<lparr>threads := (threads s)[i := t]\<rparr>) < race_work s"
  using sum_thread_work_update [OF assms(1), of "length (threads s)" "cell s" t] assms(2) by (simp add: race_work_def)

lemma work_of_success:
  assumes "i < length (threads s)" "2 * length (threads s) < thread_work (length (threads s)) (cell s) (threads s ! i)"
  shows "race_work (s\<lparr>cell := c, threads := (threads s)[i := Returned a b]\<rparr>) < race_work s"
  using sum_thread_work_update [OF assms(1), of "length (threads s)" "cell s" "Returned a b"] assms(2)
    sum_thread_work_cell [of "length (threads s)" c "(threads s)[i := Returned a b]" "cell s"] by (simp add: race_work_def)

lemma genuine_step_work: "genuine_step s s' \<Longrightarrow> race_work s' < race_work s"
proof -
  assume g: "genuine_step s s'"
  then have "race_step s s'" by (simp add: genuine_step_def)
  then show ?thesis
  proof (cases rule: race_step.cases)
    case (load i a)
    then show ?thesis by (simp add: work_of_update)
  next
    case (refuse i a cur)
    then show ?thesis by (simp add: work_of_update)
  next
    case (exchange i a cur)
    then show ?thesis by (simp add: work_of_success)
  next
    case (retry i a cur)
    have "threads s' ! i = Loop_head a" using retry(1,2) by simp
    then have "cell s \<noteq> cur" using g retry(2,3) unfolding genuine_step_def by blast
    then show ?thesis using retry by (simp add: work_of_update)
  next
    case (fetch_add i a)
    then show ?thesis by (simp add: work_of_success)
  qed
qed

lemma genuine_steps_work: "(genuine_step ^^ k) s s' \<Longrightarrow> race_work s' + k \<le> race_work s"
proof (induction k arbitrary: s')
  case (Suc k)
  then obtain s1 where "(genuine_step ^^ k) s s1" "genuine_step s1 s'" by auto
  then show ?case using Suc.IH [of s1] genuine_step_work [of s1 s'] by simp
qed simp

lemma race_work_bound: "race_work s \<le> length (threads s) * (2 * length (threads s) + 3)"
proof -
  have "sum_list (map (thread_work n c) ts) \<le> length ts * (2 * n + 3)" for n c ts
  proof (induction ts)
    case (Cons t ts)
    have "thread_work n c t \<le> 2 * n + 3" by (cases t) simp_all
    then show ?case using Cons by simp
  qed simp
  then show ?thesis by (simp add: race_work_def)
qed

text \<open>No thread is ever stuck.\<close>

lemma unfinished_can_step:
  assumes "i < length (threads s)" "unfinished (threads s ! i)"
  shows "\<exists>s'. genuine_step s s'"
proof (cases "threads s ! i")
  case (Loop_head a)
  let ?s = "s\<lparr>threads := (threads s)[i := Loaded a (cell s)]\<rparr>"
  have "genuine_step s ?s" using assms(1) race_step.load [OF assms(1) Loop_head] Loop_head by (auto simp: genuine_step_def nth_list_update split: if_splits)
  then show ?thesis ..
next
  case (Loaded a cur)
  show ?thesis
  proof (cases "is_negative (cur + a)")
    case True
    have "genuine_step s (s\<lparr>threads := (threads s)[i := Returned a False]\<rparr>)"
      using assms(1) race_step.refuse [OF assms(1) Loaded True] by (auto simp: genuine_step_def nth_list_update split: if_splits)
    then show ?thesis ..
  next
    case False
    show ?thesis
    proof (cases "cell s = cur")
      case True
      have "genuine_step s (s\<lparr>cell := cur + a, threads := (threads s)[i := Returned a True]\<rparr>)"
        using assms(1) race_step.exchange [OF assms(1) Loaded False True] by (auto simp: genuine_step_def nth_list_update split: if_splits)
      then show ?thesis ..
    next
      case stale: False
      have "genuine_step s (s\<lparr>threads := (threads s)[i := Loop_head a]\<rparr>)"
        using assms(1) race_step.retry [OF assms(1) Loaded False] stale Loaded by (auto simp: genuine_step_def nth_list_update split: if_splits)
      then show ?thesis ..
    qed
  qed
next
  case (Add a)
  have "genuine_step s (s\<lparr>cell := cell s + a, threads := (threads s)[i := Returned a True]\<rparr>)"
    using assms(1) race_step.fetch_add [OF assms(1) Add] by (auto simp: genuine_step_def nth_list_update split: if_splits)
  then show ?thesis ..
qed (use assms(2) in \<open>simp add: unfinished_def\<close>)

lemma genuine_steps_run: "(genuine_step ^^ k) s s' \<Longrightarrow> race_step\<^sup>*\<^sup>* s s' \<and> length (threads s') = length (threads s)"
proof (induction k arbitrary: s')
  case (Suc k)
  then obtain s1 where s1: "(genuine_step ^^ k) s s1" "genuine_step s1 s'" by auto
  then have "race_step s1 s'" by (simp add: genuine_step_def)
  then show ?case using Suc.IH [OF s1(1)] race_step_length [of s1 s'] by auto
qed simp

end
