(* ===== verification/User_Account.thy ===== *)
theory User_Account
  imports Revertable_Asset
begin

text \<open>
  An account, \<^verbatim>\<open>user_account.h\<close> and \<^verbatim>\<open>user_account.cc\<close>: balances by asset,
  split into those known at the last commit and those touched since, and the 64-entry window of
  reserved sequence numbers above the last committed one.
\<close>

record UserAccount =
  owned_assets :: "RevertableAsset list"
  uncommitted_assets :: "RevertableAsset list"
  sequence_number_vec :: u64
  last_committed_id :: u64
  acct_owner :: AccountID
  acct_pk :: PublicKey

definition new_user_account :: "AccountID \<Rightarrow> PublicKey \<Rightarrow> UserAccount" where
  "new_user_account owner pk =
     \<lparr>owned_assets = [], uncommitted_assets = [], sequence_number_vec = 0,
      last_committed_id = 0, acct_owner = owner, acct_pk = pk\<rparr>"

section \<open>Operations on one asset\<close>

text \<open>\<open>while (asset >= owned + uncommitted.size()) uncommitted.emplace_back()\<close>.\<close>

definition grow_uncommitted :: "RevertableAsset list \<Rightarrow> nat \<Rightarrow> RevertableAsset list" where
  "grow_uncommitted xs n = xs @ replicate (Suc n - length xs) empty_asset"

definition operate_on_asset ::
    "UserAccount \<Rightarrow> AssetID \<Rightarrow> i64 \<Rightarrow> (RevertableAsset \<Rightarrow> i64 \<Rightarrow> RevertableAsset \<times> 'r) \<Rightarrow> UserAccount \<times> 'r"
where
  "operate_on_asset u asset amount func =
     (let n = length (owned_assets u); a = unat asset
      in if n \<le> a
         then let us = grow_uncommitted (uncommitted_assets u) (a - n);
                  (r, out) = func (us ! (a - n)) amount
              in (u\<lparr>uncommitted_assets := us[a - n := r]\<rparr>, out)
         else let (r, out) = func (owned_assets u ! a) amount
              in (u\<lparr>owned_assets := (owned_assets u)[a := r]\<rparr>, out))"

definition acct_transfer_available :: "UserAccount \<Rightarrow> AssetID \<Rightarrow> i64 \<Rightarrow> UserAccount" where
  "acct_transfer_available u asset amount =
     fst (operate_on_asset u asset amount (\<lambda>r a. (asset_transfer_available r a, ())))"

definition acct_transfer_escrow :: "UserAccount \<Rightarrow> AssetID \<Rightarrow> i64 \<Rightarrow> UserAccount" where
  "acct_transfer_escrow u asset amount =
     fst (operate_on_asset u asset amount (\<lambda>r a. (asset_transfer_escrow r a, ())))"

definition acct_escrow :: "UserAccount \<Rightarrow> AssetID \<Rightarrow> i64 \<Rightarrow> UserAccount" where
  "acct_escrow u asset amount =
     fst (operate_on_asset u asset amount (\<lambda>r a. (asset_escrow r a, ())))"

definition acct_conditional_transfer_available ::
    "UserAccount \<Rightarrow> AssetID \<Rightarrow> i64 \<Rightarrow> UserAccount \<times> bool" where
  "acct_conditional_transfer_available u asset amount =
     operate_on_asset u asset amount asset_conditional_transfer_available"

definition acct_conditional_escrow :: "UserAccount \<Rightarrow> AssetID \<Rightarrow> i64 \<Rightarrow> UserAccount \<times> bool" where
  "acct_conditional_escrow u asset amount =
     operate_on_asset u asset amount asset_conditional_escrow"

text \<open>Looking a balance up also grows the uncommitted assets.\<close>

definition acct_lookup_available_balance :: "UserAccount \<Rightarrow> AssetID \<Rightarrow> UserAccount \<times> i64" where
  "acct_lookup_available_balance u asset =
     operate_on_asset u asset 0 (\<lambda>r a. (r, asset_lookup_available_balance r))"

section \<open>Sequence numbers\<close>

text \<open>The quotient is narrowed to \<open>uint8_t\<close> by the return type.\<close>

definition get_seq_num_offset :: "u64 \<Rightarrow> u64 \<Rightarrow> u8" where
  "get_seq_num_offset sequence_number last_id =
     ucast ((sequence_number - last_id) div of_nat MAX_OPS_PER_TX - 1)"

fun bit_len :: "nat \<Rightarrow> nat" where
  "bit_len n = (if n = 0 then 0 else Suc (bit_len (n div 2)))"

declare bit_len.simps [simp del]

definition clzll :: "u64 \<Rightarrow> nat" where
  "clzll x = 64 - bit_len (unat x)"

definition get_seq_num_increment :: "u64 \<Rightarrow> u64" where
  "get_seq_num_increment bv = (if bv = 0 then 0 else of_nat (64 - clzll bv) * of_nat MAX_OPS_PER_TX)"

definition reserve_sequence_number :: "UserAccount \<Rightarrow> u64 \<Rightarrow> UserAccount \<times> TransactionProcessingStatus" where
  "reserve_sequence_number u sequence_number =
     (if sequence_number \<le> last_committed_id u then (u, SEQ_NUM_TOO_LOW)
      else let offset = get_seq_num_offset sequence_number (last_committed_id u)
           in if 64 \<le> offset then (u, SEQ_NUM_TOO_HIGH)
              else let bit_mask = push_bit (unat offset) 1;
                       prev = sequence_number_vec u;
                       u' = u\<lparr>sequence_number_vec := prev OR bit_mask\<rparr>
                   in if prev AND bit_mask \<noteq> 0 then (u', SEQ_NUM_TEMP_IN_USE)
                      else (u', SUCCESS))"

definition release_sequence_number :: "UserAccount \<Rightarrow> u64 \<Rightarrow> UserAccount res" where
  "release_sequence_number u sequence_number =
     (if sequence_number \<le> last_committed_id u
      then Inl (Runtime_error ''cannot release invalid seq num!'')
      else let offset = get_seq_num_offset sequence_number (last_committed_id u)
           in if 64 \<le> offset then Inl (Runtime_error ''cannot release too far forward seq num!'')
              else Inr (u\<lparr>sequence_number_vec :=
                            sequence_number_vec u AND NOT (push_bit (unat offset) 1)\<rparr>))"

definition commit_sequence_number :: "UserAccount \<Rightarrow> u64 \<Rightarrow> UserAccount" where
  "commit_sequence_number u sequence_number = u"

section \<open>Commit, rollback, validity\<close>

text \<open>
  Growing the vector may move the elements it already has, which re-initialises their dirty flags;
  no code of the program reads the flags, and they are kept here.
\<close>

definition acct_commit :: "UserAccount \<Rightarrow> UserAccount" where
  "acct_commit u =
     u\<lparr>owned_assets := map (\<lambda>r. fst (asset_commit r)) (owned_assets u)
          @ map (\<lambda>r. revertable_asset (snd (asset_commit r))) (uncommitted_assets u),
       uncommitted_assets := [],
       last_committed_id := last_committed_id u + get_seq_num_increment (sequence_number_vec u),
       sequence_number_vec := 0\<rparr>"

definition acct_rollback :: "UserAccount \<Rightarrow> UserAccount" where
  "acct_rollback u =
     u\<lparr>owned_assets := map asset_rollback (owned_assets u),
       uncommitted_assets := [],
       sequence_number_vec := 0\<rparr>"

definition acct_in_valid_state :: "UserAccount \<Rightarrow> bool" where
  "acct_in_valid_state u \<longleftrightarrow>
     list_all asset_in_valid_state (owned_assets u) \<and> list_all asset_in_valid_state (uncommitted_assets u)"

section \<open>Commitments\<close>

text \<open>
  \<open>for (uint8_t i = 0; i < assets.size(); i++) output.push_back(f(assets[i], i))\<close>.  The counter
  wraps at 256, so the loop need not end: not returning is \<open>None\<close>.
\<close>

partial_function (option) push_commitments ::
    "(RevertableAsset \<Rightarrow> u8 \<Rightarrow> AssetCommitment) \<Rightarrow> RevertableAsset list \<Rightarrow> u8 \<Rightarrow> AssetCommitment list
      \<Rightarrow> AssetCommitment list option" where
  "push_commitments f xs i acc =
     (if unat i < length xs then push_commitments f xs (i + 1) (acc @ [f (xs ! unat i) i])
      else Some acc)"

definition produce_commitment :: "UserAccount \<Rightarrow> AccountCommitment option" where
  "produce_commitment u =
     (case push_commitments (\<lambda>r i. asset_produce_commitment r (ucast i)) (owned_assets u) 0 [] of
        None \<Rightarrow> None
      | Some cs \<Rightarrow>
          Some \<lparr>commit_owner = acct_owner u, commit_assets = cs,
                commit_last_committed_id = last_committed_id u, commit_pk = acct_pk u\<rparr>)"

definition tentative_commitment :: "UserAccount \<Rightarrow> AccountCommitment option" where
  "tentative_commitment u =
     (case push_commitments (\<lambda>r i. asset_tentative_commitment r (ucast i)) (owned_assets u) 0 [] of
        None \<Rightarrow> None
      | Some cs \<Rightarrow>
          (case push_commitments
             (\<lambda>r i. asset_tentative_commitment r (ucast i + of_nat (length (owned_assets u))))
             (uncommitted_assets u) 0 cs of
             None \<Rightarrow> None
           | Some cs' \<Rightarrow>
               Some \<lparr>commit_owner = acct_owner u, commit_assets = cs',
                     commit_last_committed_id =
                       last_committed_id u + get_seq_num_increment (sequence_number_vec u),
                     commit_pk = acct_pk u\<rparr>))"

text \<open>The constructor from a commitment; the entries must have increasing assets.\<close>

fun load_assets :: "AssetCommitment list \<Rightarrow> RevertableAsset list \<Rightarrow> RevertableAsset list res" where
  "load_assets [] owned = Inr owned"
| "load_assets (c # cs) owned =
     (if unat (commit_asset c) < length owned
      then Inl (Runtime_error ''assets in commitment should be sorted'')
      else load_assets cs
             (owned @ replicate (unat (commit_asset c) - length owned) (revertable_asset 0)
                    @ [revertable_asset (amount_available c)]))"

definition account_of_commitment :: "AccountCommitment \<Rightarrow> UserAccount res" where
  "account_of_commitment c =
     res_bind (load_assets (commit_assets c) []) (\<lambda>owned.
       Inr \<lparr>owned_assets = owned, uncommitted_assets = [], sequence_number_vec = 0,
            last_committed_id = commit_last_committed_id c,
            acct_owner = commit_owner c, acct_pk = commit_pk c\<rparr>)"

section \<open>Balances\<close>

definition all_assets :: "UserAccount \<Rightarrow> RevertableAsset list" where
  "all_assets u = owned_assets u @ uncommitted_assets u"

definition asset_at :: "UserAccount \<Rightarrow> AssetID \<Rightarrow> RevertableAsset" where
  "asset_at u asset =
     (if unat asset < length (all_assets u) then all_assets u ! unat asset else empty_asset)"

definition acct_balance :: "UserAccount \<Rightarrow> AssetID \<Rightarrow> i64" where
  "acct_balance u asset = available (asset_at u asset)"

definition acct_committed_balance :: "UserAccount \<Rightarrow> AssetID \<Rightarrow> i64" where
  "acct_committed_balance u asset =
     (if unat asset < length (owned_assets u)
      then committed_available (owned_assets u ! unat asset) else 0)"

lemma nth_grow: "grow_uncommitted xs n ! j = (if j < length xs then xs ! j else empty_asset)"
  if "j \<le> n"
  using that by (auto simp: grow_uncommitted_def nth_append)

lemma length_grow: "length (grow_uncommitted xs n) = max (length xs) (Suc n)"
  by (simp add: grow_uncommitted_def)

text \<open>Every operation goes through one characterisation: it applies \<open>func\<close> at its own asset only.\<close>

lemma operate_on_asset_spec:
  fixes func :: "RevertableAsset \<Rightarrow> i64 \<Rightarrow> RevertableAsset \<times> 'r"
  shows "snd (operate_on_asset u asset amount func) = snd (func (asset_at u asset) amount)"
    and "asset_at (fst (operate_on_asset u asset amount func)) b =
           (if b = asset then fst (func (asset_at u asset) amount) else asset_at u b)"
proof -
  define n where "n = length (owned_assets u)"
  define k where "k = unat asset - n"
  define us where "us = grow_uncommitted (uncommitted_assets u) k"
  have us: "us ! j = (if j < length (uncommitted_assets u) then uncommitted_assets u ! j else empty_asset)"
    if "j \<le> k" for j
    using nth_grow [OF that] by (simp add: us_def)
  have old: "asset_at u asset = (if n \<le> unat asset then us ! k else owned_assets u ! unat asset)"
    using us [of k] by (auto simp: asset_at_def all_assets_def nth_append n_def k_def)
  show "snd (operate_on_asset u asset amount func) = snd (func (asset_at u asset) amount)"
    by (simp add: operate_on_asset_def Let_def old split_beta flip: n_def k_def us_def)
  show "asset_at (fst (operate_on_asset u asset amount func)) b =
          (if b = asset then fst (func (asset_at u asset) amount) else asset_at u b)"
  proof (cases "n \<le> unat asset")
    case True
    then have op: "fst (operate_on_asset u asset amount func) =
        u\<lparr>uncommitted_assets := us[k := fst (func (us ! k) amount)]\<rparr>"
      by (simp add: operate_on_asset_def Let_def split_beta flip: n_def k_def us_def)
    have len: "length us = max (length (uncommitted_assets u)) (Suc k)"
      by (simp add: us_def length_grow)
    have "b = asset \<longleftrightarrow> unat b = n + k" using True by (auto simp: k_def simp flip: unat_inject)
    then show ?thesis
      using True old us len nth_grow
      by (auto simp: op asset_at_def all_assets_def nth_append nth_list_update simp flip: n_def)
        (auto simp: us_def grow_uncommitted_def nth_append)
  next
    case False
    then have op: "fst (operate_on_asset u asset amount func) =
        u\<lparr>owned_assets := (owned_assets u)[unat asset := fst (func (owned_assets u ! unat asset) amount)]\<rparr>"
      by (simp add: operate_on_asset_def Let_def split_beta flip: n_def)
    then show ?thesis
      using False old
      by (auto simp: op asset_at_def all_assets_def nth_append nth_list_update simp flip: n_def)
  qed
qed

lemma operate_on_asset_keeps [simp]:
  "sequence_number_vec (fst (operate_on_asset u asset amount func)) = sequence_number_vec u"
  "last_committed_id (fst (operate_on_asset u asset amount func)) = last_committed_id u"
  "acct_owner (fst (operate_on_asset u asset amount func)) = acct_owner u"
  "acct_pk (fst (operate_on_asset u asset amount func)) = acct_pk u"
  "length (owned_assets (fst (operate_on_asset u asset amount func))) = length (owned_assets u)"
  by (simp_all add: operate_on_asset_def Let_def split_beta)

lemmas acct_op_defs = acct_transfer_available_def acct_transfer_escrow_def acct_escrow_def
  acct_conditional_transfer_available_def acct_conditional_escrow_def
  acct_lookup_available_balance_def

interpretation account: balance_keeper "\<lambda>u (asset :: AssetID). True" acct_balance
    acct_transfer_available acct_conditional_transfer_available
  by unfold_locales
    (auto simp: acct_op_defs acct_balance_def operate_on_asset_spec asset_transfer_available_def
      asset_conditional_transfer_available_def Let_def)

lemma acct_conditional_escrow_eq:
  "acct_balance (fst (acct_conditional_escrow u asset amount)) b =
     acct_balance (fst (account.cond_escrow u asset amount)) b"
  "snd (acct_conditional_escrow u asset amount) = snd (account.cond_escrow u asset amount)"
  by (auto simp: account.cond_escrow_def acct_op_defs acct_balance_def operate_on_asset_spec
      asset_conditional_escrow_def asset_transfer_available_def)

lemma acct_lookup_returns_balance:
  "snd (acct_lookup_available_balance u asset) = acct_balance u asset"
  "acct_balance (fst (acct_lookup_available_balance u asset)) b = acct_balance u b"
  by (auto simp: acct_op_defs acct_balance_def operate_on_asset_spec asset_lookup_available_balance_def)

section \<open>Commit and rollback\<close>

lemma asset_at_commit: "available (asset_at (acct_commit u) a) = available (asset_at u a)"
  by (simp add: asset_at_def acct_commit_def all_assets_def nth_append revertable_asset_def)

text \<open>A commit keeps every balance and makes it the committed one.\<close>

lemma acct_commit_balances:
  "acct_balance (acct_commit u) a = acct_balance u a"
  "acct_committed_balance (acct_commit u) a = acct_balance u a"
  by (simp_all add: acct_balance_def asset_at_commit)
    (simp add: acct_committed_balance_def acct_balance_def asset_at_def acct_commit_def all_assets_def
      nth_append revertable_asset_def empty_asset_def)

text \<open>A rollback forgets everything since the last commit.\<close>

lemma acct_rollback_balances:
  "acct_balance (acct_rollback u) a = acct_committed_balance u a"
  "acct_committed_balance (acct_rollback u) a = acct_committed_balance u a"
  by (simp_all add: acct_balance_def acct_committed_balance_def asset_at_def acct_rollback_def
      all_assets_def empty_asset_def)

text \<open>The operations between commits leave the committed balances alone.\<close>

lemma operate_on_asset_committed:
  assumes "\<And>r. committed_available (fst (func r amount)) = committed_available r"
  shows "acct_committed_balance (fst (operate_on_asset u asset amount func)) b = acct_committed_balance u b"
  using assms
  by (auto simp: acct_committed_balance_def operate_on_asset_def Let_def split_beta nth_list_update)

lemma acct_ops_committed [simp]:
  "acct_committed_balance (acct_transfer_available u asset amount) b = acct_committed_balance u b"
  "acct_committed_balance (acct_escrow u asset amount) b = acct_committed_balance u b"
  "acct_committed_balance (fst (acct_conditional_transfer_available u asset amount)) b =
     acct_committed_balance u b"
  "acct_committed_balance (fst (acct_conditional_escrow u asset amount)) b = acct_committed_balance u b"
  by (simp_all add: acct_op_defs operate_on_asset_committed asset_transfer_available_def
      asset_escrow_def asset_conditional_transfer_available_def asset_conditional_escrow_def Let_def)

lemma acct_in_valid_state_iff:
  assumes "length (all_assets u) \<le> 2 ^ 32"
  shows "acct_in_valid_state u \<longleftrightarrow> (\<forall>a. \<not> is_negative (acct_balance u a))"
proof
  assume "acct_in_valid_state u"
  then have "list_all asset_in_valid_state (all_assets u)"
    by (simp add: acct_in_valid_state_def all_assets_def)
  then show "\<forall>a. \<not> is_negative (acct_balance u a)"
    by (auto simp: acct_balance_def asset_at_def list_all_length asset_in_valid_state_def
        empty_asset_def is_negative_def)
next
  assume nn: "\<forall>a. \<not> is_negative (acct_balance u a)"
  have "asset_in_valid_state (all_assets u ! i)" if i: "i < length (all_assets u)" for i
  proof -
    have "unat (of_nat i :: AssetID) = i" using i assms by (intro unat_of_nat_small) simp
    with nn i show ?thesis
      by (metis acct_balance_def asset_at_def asset_in_valid_state_def)
  qed
  then have "list_all asset_in_valid_state (all_assets u)" by (simp add: list_all_length)
  then show "acct_in_valid_state u" by (simp add: acct_in_valid_state_def all_assets_def)
qed

section \<open>Sequences of operations between two commits\<close>

datatype acct_op =
    Transfer_available AssetID i64
  | Transfer_escrow AssetID i64
  | Escrow AssetID i64
  | Conditional_transfer_available AssetID i64
  | Conditional_escrow AssetID i64
  | Lookup_available AssetID
  | Reserve u64

fun run_acct_op :: "acct_op \<Rightarrow> UserAccount \<Rightarrow> UserAccount" where
  "run_acct_op (Transfer_available a x) u = acct_transfer_available u a x"
| "run_acct_op (Transfer_escrow a x) u = acct_transfer_escrow u a x"
| "run_acct_op (Escrow a x) u = acct_escrow u a x"
| "run_acct_op (Conditional_transfer_available a x) u = fst (acct_conditional_transfer_available u a x)"
| "run_acct_op (Conditional_escrow a x) u = fst (acct_conditional_escrow u a x)"
| "run_acct_op (Lookup_available a) u = fst (acct_lookup_available_balance u a)"
| "run_acct_op (Reserve s) u = fst (reserve_sequence_number u s)"

lemma operate_keeps [simp]:
  "last_committed_id (fst (operate_on_asset u a x f)) = last_committed_id u"
  "acct_owner (fst (operate_on_asset u a x f)) = acct_owner u" "acct_pk (fst (operate_on_asset u a x f)) = acct_pk u"
  by (simp_all add: operate_on_asset_def Let_def split: prod.split)

lemma reserve_keeps [simp]:
  "acct_committed_balance (fst (reserve_sequence_number u s)) b = acct_committed_balance u b"
  "last_committed_id (fst (reserve_sequence_number u s)) = last_committed_id u"
  "acct_owner (fst (reserve_sequence_number u s)) = acct_owner u" "acct_pk (fst (reserve_sequence_number u s)) = acct_pk u"
  by (simp_all add: reserve_sequence_number_def Let_def acct_committed_balance_def)

lemma other_ops_committed [simp]:
  "acct_committed_balance (acct_transfer_escrow u asset amount) b = acct_committed_balance u b"
  "acct_committed_balance (fst (acct_lookup_available_balance u asset)) b = acct_committed_balance u b"
  by (simp_all add: acct_transfer_escrow_def acct_lookup_available_balance_def operate_on_asset_committed
      asset_transfer_escrow_def)

lemma run_acct_op_committed:
  "acct_committed_balance (run_acct_op x u) b = acct_committed_balance u b"
  "last_committed_id (run_acct_op x u) = last_committed_id u"
  "acct_owner (run_acct_op x u) = acct_owner u" "acct_pk (run_acct_op x u) = acct_pk u"
  by (cases x; simp; simp add: acct_op_defs)+

lemma run_acct_ops_committed:
  "acct_committed_balance (fold run_acct_op xs u) b = acct_committed_balance u b"
  "last_committed_id (fold run_acct_op xs u) = last_committed_id u"
  "acct_owner (fold run_acct_op xs u) = acct_owner u" "acct_pk (fold run_acct_op xs u) = acct_pk u"
  by (induction xs arbitrary: u) (simp_all add: run_acct_op_committed)

section \<open>The sequence-number window\<close>

definition reserved :: "UserAccount \<Rightarrow> nat set" where
  "reserved u = {i. bit (sequence_number_vec u) i}"

definition in_window :: "UserAccount \<Rightarrow> u64 \<Rightarrow> nat \<Rightarrow> bool" where
  "in_window u s j \<longleftrightarrow> j < 64 \<and> unat s = unat (last_committed_id u) + 256 * Suc j"

lemma reserved_less: "i \<in> reserved u \<Longrightarrow> i < 64"
  using bit_imp_le_length [of "sequence_number_vec u" i] by (simp add: reserved_def)

text \<open>
  The offset is narrowed to eight bits, so a number \<open>256 * i\<close> slots beyond the window falls on a slot
  of the window.
\<close>

lemma far_offset:
  assumes j: "j < 64" and s: "unat s = unat (last_committed_id u) + 256 * (Suc j + 256 * i)"
  shows "last_committed_id u < s" "unat (get_seq_num_offset s (last_committed_id u)) = j"
proof -
  show "last_committed_id u < s" using s by (simp add: word_less_nat_alt)
  have "unat (s - last_committed_id u) = 256 * (Suc j + 256 * i)" using s by (subst unat_sub_exact) simp_all
  then have "unat ((s - last_committed_id u) div of_nat MAX_OPS_PER_TX) = Suc j + 256 * i"
    by (simp add: MAX_OPS_PER_TX_def unat_div)
  then have "unat ((s - last_committed_id u) div of_nat MAX_OPS_PER_TX - 1) = j + 256 * i"
    by (subst unat_sub_exact) simp_all
  then show "unat (get_seq_num_offset s (last_committed_id u)) = j"
    using j by (simp add: get_seq_num_offset_def unsigned_ucast_eq take_bit_eq_mod)
qed

lemma in_window_offset:
  assumes "in_window u s j"
  shows "last_committed_id u < s" "unat (get_seq_num_offset s (last_committed_id u)) = j"
  using far_offset [of j s u 0] assms by (simp_all add: in_window_def)

lemma bit_mask_facts:
  assumes "j < 64"
  shows "(v AND push_bit j 1 \<noteq> (0 :: u64)) \<longleftrightarrow> bit v j"
    and "bit (v OR push_bit j 1) i \<longleftrightarrow> bit v i \<or> i = j"
    and "bit (v AND NOT (push_bit j 1)) i \<longleftrightarrow> bit v i \<and> i \<noteq> j"
proof -
  have m: "bit (2 ^ j :: u64) i \<longleftrightarrow> i = j" for i
    using assms by (auto simp: bit_exp_iff possible_bit_word)
  show "bit (v OR push_bit j 1) i \<longleftrightarrow> bit v i \<or> i = j" by (simp add: bit_or_iff m)
  show "bit (v AND NOT (push_bit j 1)) i \<longleftrightarrow> bit v i \<and> i \<noteq> j"
    using bit_imp_le_length [of v i] by (auto simp: bit_and_iff bit_not_iff m possible_bit_word)
  have "v AND push_bit j 1 = 0 \<longleftrightarrow> \<not> bit v j"
    by (auto simp: word_zero_iff bit_and_iff m)
  then show "(v AND push_bit j 1 \<noteq> 0) \<longleftrightarrow> bit v j" by simp
qed

lemma reserve_far:
  assumes j: "j < 64" and s: "unat s = unat (last_committed_id u) + 256 * (Suc j + 256 * i)"
  shows "snd (reserve_sequence_number u s) = (if j \<in> reserved u then SEQ_NUM_TEMP_IN_USE else SUCCESS)"
    and "reserved (fst (reserve_sequence_number u s)) = insert j (reserved u)"
proof -
  note off = far_offset [OF j s]
  have o: "\<not> 64 \<le> get_seq_num_offset s (last_committed_id u)"
    using off(2) j by (simp add: word_le_nat_alt)
  show "snd (reserve_sequence_number u s) = (if j \<in> reserved u then SEQ_NUM_TEMP_IN_USE else SUCCESS)"
    using off o bit_mask_facts(1) [OF j] by (simp add: reserve_sequence_number_def Let_def reserved_def)
  show "reserved (fst (reserve_sequence_number u s)) = insert j (reserved u)"
    using off o bit_mask_facts(2) [OF j]
    by (auto simp: reserve_sequence_number_def Let_def reserved_def not_le)
qed

lemma reserve_in_window:
  assumes "in_window u s j"
  shows "snd (reserve_sequence_number u s) = (if j \<in> reserved u then SEQ_NUM_TEMP_IN_USE else SUCCESS)"
    and "reserved (fst (reserve_sequence_number u s)) = insert j (reserved u)"
    and "last_committed_id (fst (reserve_sequence_number u s)) = last_committed_id u"
  using reserve_far [of j s u 0] assms by (simp_all add: in_window_def)

lemma release_in_window:
  assumes w: "in_window u s j"
  shows "\<exists>u'. release_sequence_number u s = Inr u' \<and> reserved u' = reserved u - {j} \<and>
              last_committed_id u' = last_committed_id u"
proof -
  note off = in_window_offset [OF w]
  have j: "j < 64" using w by (simp add: in_window_def)
  have "\<not> 64 \<le> get_seq_num_offset s (last_committed_id u)"
    using off(2) j by (simp add: word_le_nat_alt)
  with off bit_mask_facts(3) [OF j] show ?thesis
    by (auto simp: release_sequence_number_def Let_def reserved_def not_le)
qed

lemma bit_len_le_iff: "bit_len n \<le> k \<longleftrightarrow> n < 2 ^ k"
proof (induction n arbitrary: k rule: bit_len.induct)
  case (1 n)
  show ?case
  proof (cases "n = 0")
    case True
    then show ?thesis by (simp add: bit_len.simps)
  next
    case False
    then show ?thesis
    proof (cases k)
      case (Suc k')
      have "bit_len n \<le> k \<longleftrightarrow> bit_len (n div 2) \<le> k'"
        using False Suc by (simp add: bit_len.simps [of n])
      also have "\<dots> \<longleftrightarrow> n < 2 ^ k" using 1 [OF False] Suc by (simp add: div_less_iff_less_mult mult.commute)
      finally show ?thesis .
    qed (simp add: bit_len.simps [of n])
  qed
qed

lemma bit_nat_less_bit_len: "bit n j \<Longrightarrow> j < bit_len n"
proof (rule ccontr)
  assume b: "bit n j" and "\<not> j < bit_len n"
  then have "n < 2 ^ j" by (simp only: not_less bit_len_le_iff)
  then have "n div 2 ^ j = 0" by simp
  with b show False by (simp add: bit_iff_odd)
qed

lemma bit_len_top:
  assumes "n \<noteq> 0"
  shows "bit n (bit_len n - 1)"
proof -
  obtain k where k: "bit_len n = Suc k" using assms by (simp add: bit_len.simps [of n])
  have "n < 2 ^ Suc k" "\<not> n < 2 ^ k"
    using bit_len_le_iff [of n "Suc k"] bit_len_le_iff [of n k] by (simp_all add: k)
  then have "n div 2 ^ k = 1" by (intro div_nat_eqI) simp_all
  then show ?thesis by (simp add: k bit_iff_odd)
qed

lemma finite_reserved [simp]: "finite (reserved u)"
  using reserved_less [of _ u] by (auto intro: finite_subset [of _ "{..<64}"])

lemma bit_len_Max_reserved:
  assumes "reserved u \<noteq> {}"
  shows "bit_len (unat (sequence_number_vec u)) = Suc (Max (reserved u))"
proof -
  let ?v = "unat (sequence_number_vec u)"
  have bits: "bit ?v i \<longleftrightarrow> i \<in> reserved u" for i
    by (auto simp: reserved_def bit_unsigned_iff possible_bit_def)
  have v: "?v \<noteq> 0" using assms bits by auto
  then obtain k where k: "bit_len ?v = Suc k" by (simp add: bit_len.simps [of ?v])
  have "k \<in> reserved u" using bit_len_top [OF v] bits by (simp add: k)
  moreover have "\<forall>i \<in> reserved u. i \<le> k" using bits bit_nat_less_bit_len [of ?v] k by (metis less_Suc_eq_le)
  ultimately have "Max (reserved u) = k" by (intro Max_eqI) simp_all
  then show ?thesis by (simp add: k)
qed

text \<open>A commit moves the window past the highest reserved number, and empties it.\<close>

lemma get_seq_num_increment_eq:
  "unat (get_seq_num_increment (sequence_number_vec u)) =
     (if reserved u = {} then 0 else 256 * Suc (Max (reserved u)))"
proof (cases "reserved u = {}")
  case True
  then have "sequence_number_vec u = 0" by (auto simp: reserved_def word_zero_iff)
  then show ?thesis using True by (simp add: get_seq_num_increment_def)
next
  case False
  let ?k = "Max (reserved u)"
  have k: "?k < 64" using Max_in [OF finite_reserved False] reserved_less by blast
  have nz: "sequence_number_vec u \<noteq> 0" using False by (auto simp: reserved_def)
  have inc: "get_seq_num_increment (sequence_number_vec u) = of_nat (Suc ?k * 256)"
    using nz k by (simp add: get_seq_num_increment_def clzll_def bit_len_Max_reserved [OF False]
        MAX_OPS_PER_TX_def)
  have "unat (of_nat (Suc ?k * 256) :: u64) = Suc ?k * 256"
    using k by (intro unat_of_nat_small) simp
  then show ?thesis unfolding inc using False by simp
qed

lemma acct_commit_window:
  assumes "unat (last_committed_id u) + 256 * 64 < 2 ^ 64"
  shows "reserved (acct_commit u) = {}"
    and "unat (last_committed_id (acct_commit u)) = unat (last_committed_id u) +
           (if reserved u = {} then 0 else 256 * Suc (Max (reserved u)))"
proof -
  show "reserved (acct_commit u) = {}" by (simp add: reserved_def acct_commit_def)
  have "(if reserved u = {} then 0 else 256 * Suc (Max (reserved u))) \<le> 256 * 64"
    using reserved_less [of _ u] by force
  then have "unat (last_committed_id u) + unat (get_seq_num_increment (sequence_number_vec u)) < 2 ^ 64"
    using assms by (simp only: get_seq_num_increment_eq)
  then have "unat (last_committed_id u + get_seq_num_increment (sequence_number_vec u)) =
      unat (last_committed_id u) + unat (get_seq_num_increment (sequence_number_vec u))"
    by (intro unat_add_exact) simp
  then show "unat (last_committed_id (acct_commit u)) = unat (last_committed_id u) +
           (if reserved u = {} then 0 else 256 * Suc (Max (reserved u)))"
    by (simp only: get_seq_num_increment_eq) (simp add: acct_commit_def)
qed

text \<open>No replay inside the window: what was reserved at a commit is too low ever after.\<close>

lemma committed_number_too_low:
  assumes w: "in_window u s j" and r: "j \<in> reserved u"
    and fit: "unat (last_committed_id u) + 256 * 64 < 2 ^ 64"
  shows "snd (reserve_sequence_number (acct_commit u) s) = SEQ_NUM_TOO_LOW"
proof -
  have "j \<le> Max (reserved u)" using r by (intro Max_ge) simp_all
  then have "unat s \<le> unat (last_committed_id (acct_commit u))"
    using w r acct_commit_window(2) [OF fit] by (auto simp: in_window_def)
  then show ?thesis by (simp add: reserve_sequence_number_def word_le_nat_alt)
qed

section \<open>Commitments\<close>

lemma push_commitments_complete:
  assumes "length xs \<le> 255" "unat i \<le> length xs"
  shows "push_commitments f xs i acc =
           Some (acc @ map (\<lambda>j. f (xs ! j) (of_nat j)) [unat i..<length xs])"
  using assms
proof (induction "length xs - unat i" arbitrary: i acc)
  case 0
  then show ?case by (simp add: push_commitments.simps)
next
  case (Suc n)
  then have lt: "unat i < length xs" by simp
  then have i1: "unat (i + 1) = Suc (unat i)"
    using Suc.prems(1) by (subst unat_add_exact) simp_all
  have "push_commitments f xs (i + 1) (acc @ [f (xs ! unat i) i]) =
      Some ((acc @ [f (xs ! unat i) i]) @ map (\<lambda>j. f (xs ! j) (of_nat j)) [unat (i + 1)..<length xs])"
    using Suc.hyps(2) Suc.prems lt by (intro Suc.hyps(1)) (simp_all add: i1)
  then show ?case
    using lt by (simp add: push_commitments.simps [of f xs i] i1 upt_conv_Cons)
qed

text \<open>With 256 assets or more the \<open>uint8_t\<close> counter never passes the bound.\<close>

lemma push_commitments_diverges:
  assumes "256 \<le> length xs"
  shows "push_commitments f xs i acc = None"
proof -
  have bound: "\<not> unat (i :: u8) < length xs \<Longrightarrow> length xs < 256" for i xs
    using unat_lt2p_u8 [of i] by linarith
  have "length xs < 256" if "push_commitments f xs i acc = Some ys" for ys
    by (rule push_commitments.raw_induct [where P = "\<lambda>f xs i acc y. length xs < 256", OF _ that])
      (auto split: if_splits intro: bound)
  with assms show ?thesis by (cases "push_commitments f xs i acc") auto
qed

lemma produce_commitment_diverges:
  "256 \<le> length (owned_assets u) \<Longrightarrow> produce_commitment u = None"
  by (simp add: produce_commitment_def push_commitments_diverges)

lemma produce_commitment_eq:
  assumes "length (owned_assets u) \<le> 255"
  shows "produce_commitment u = Some
    \<lparr>commit_owner = acct_owner u,
     commit_assets = map (\<lambda>j. asset_produce_commitment (owned_assets u ! j) (of_nat j)) [0..<length (owned_assets u)],
     commit_last_committed_id = last_committed_id u, commit_pk = acct_pk u\<rparr>"
proof -
  have "ucast (of_nat j :: u8) = (of_nat j :: AssetID)" if "j < length (owned_assets u)" for j
    using that assms by (simp add: unsigned_of_nat take_bit_nat_eq_self)
  then show ?thesis
    unfolding produce_commitment_def
    by (subst push_commitments_complete [OF assms]) (simp_all cong: map_cong)
qed

lemma load_assets_in_order:
  assumes "length cs + n \<le> 2 ^ 32" "length owned = n"
    and "\<And>j. j < length cs \<Longrightarrow> commit_asset (cs ! j) = of_nat (n + j)"
  shows "load_assets cs owned = Inr (owned @ map (\<lambda>c. revertable_asset (amount_available c)) cs)"
  using assms
proof (induction cs arbitrary: owned n)
  case (Cons c cs)
  have "unat (commit_asset c) = n"
    using Cons.prems(1) Cons.prems(3) [of 0] by (simp add: unat_of_nat_small)
  moreover have "load_assets cs (owned @ [revertable_asset (amount_available c)]) =
      Inr ((owned @ [revertable_asset (amount_available c)]) @ map (\<lambda>c. revertable_asset (amount_available c)) cs)"
    using Cons.prems(1,2) Cons.prems(3) [of "Suc _"]
    by (intro Cons.IH [where n = "Suc n"]) simp_all
  ultimately show ?case using Cons.prems(2) by simp
qed simp

text \<open>Writing an account out and reading it back gives its last committed state.\<close>

lemma account_commitment_round_trip:
  assumes "length (owned_assets u) \<le> 255" "produce_commitment u = Some c"
  shows "\<exists>u'. account_of_commitment c = Inr u' \<and>
     (\<forall>a. acct_balance u' a = acct_committed_balance u a \<and>
          acct_committed_balance u' a = acct_committed_balance u a) \<and>
     last_committed_id u' = last_committed_id u \<and> acct_owner u' = acct_owner u \<and>
     acct_pk u' = acct_pk u \<and> reserved u' = {}"
proof -
  let ?owned = "map (\<lambda>r. revertable_asset (committed_available r)) (owned_assets u)"
  let ?cs = "map (\<lambda>j. asset_produce_commitment (owned_assets u ! j) (of_nat j)) [0..<length (owned_assets u)]"
  have c: "c = \<lparr>commit_owner = acct_owner u, commit_assets = ?cs,
      commit_last_committed_id = last_committed_id u, commit_pk = acct_pk u\<rparr>"
    using assms produce_commitment_eq by simp
  have "load_assets ?cs [] = Inr ([] @ map (\<lambda>c. revertable_asset (amount_available c)) ?cs)"
    using assms(1) by (intro load_assets_in_order [where n = 0]) (simp_all add: asset_produce_commitment_def)
  also have "[] @ map (\<lambda>c. revertable_asset (amount_available c)) ?cs = ?owned"
    by (rule nth_equalityI) (simp_all add: asset_produce_commitment_def)
  finally show ?thesis
    by (simp add: account_of_commitment_def c acct_balance_def acct_committed_balance_def asset_at_def
        all_assets_def revertable_asset_def empty_asset_def reserved_def)
qed

end
