(* ===== verification/Memory_Database.thy ===== *)
theory Memory_Database
  imports Trie_Keys User_Account
begin

text \<open>
  The accounts of a replica, \<^verbatim>\<open>memory_database.h\<close> and \<^verbatim>\<open>memory_database.cc\<close>: committed
  accounts in a vector that only grows at its end, the index of every account by identifier, the
  accounts created since the last commit, and the trie of account commitments.  An
  \<open>account_db_idx\<close> is a position in the vector.
\<close>

type_synonym account_db_idx = nat

record AccountCreationThunk =
  creation_block :: u64
  num_accounts_created :: nat

record MemoryDatabase =
  user_id_to_idx_map :: "AccountID \<rightharpoonup> account_db_idx"
  uncommitted_idx_map :: "AccountID \<rightharpoonup> account_db_idx"
  reserved_account_ids :: "AccountID set"
  database :: "UserAccount list"
  uncommitted_db :: "UserAccount list"
  commitment_trie :: "AccountCommitment MerkleTrie"
  account_creation_thunks :: "AccountCreationThunk list"
  persisted_round_number :: u64

definition empty_database :: MemoryDatabase where
  "empty_database =
     \<lparr>user_id_to_idx_map = Map.empty, uncommitted_idx_map = Map.empty, reserved_account_ids = {},
      database = [], uncommitted_db = [], commitment_trie = empty_trie, account_creation_thunks = [],
      persisted_round_number = 0\<rparr>"

section \<open>Operations on one account\<close>

definition find_account :: "MemoryDatabase \<Rightarrow> account_db_idx \<Rightarrow> UserAccount res" where
  "find_account db i =
     (if length (database db) \<le> i then Inl (Runtime_error ''invalid db idx access'') else Inr (database db ! i))"

definition put_account :: "account_db_idx \<Rightarrow> UserAccount \<Rightarrow> MemoryDatabase \<Rightarrow> MemoryDatabase" where
  "put_account i u db = db\<lparr>database := (database db)[i := u]\<rparr>"

definition db_transfer_available :: "MemoryDatabase \<Rightarrow> account_db_idx \<Rightarrow> AssetID \<Rightarrow> i64 \<Rightarrow> MemoryDatabase res" where
  "db_transfer_available db i asset change =
     res_bind (find_account db i) (\<lambda>u. Inr (put_account i (acct_transfer_available u asset change) db))"

definition db_transfer_escrow :: "MemoryDatabase \<Rightarrow> account_db_idx \<Rightarrow> AssetID \<Rightarrow> i64 \<Rightarrow> MemoryDatabase res" where
  "db_transfer_escrow db i asset change =
     res_bind (find_account db i) (\<lambda>u. Inr (put_account i (acct_transfer_escrow u asset change) db))"

definition db_escrow :: "MemoryDatabase \<Rightarrow> account_db_idx \<Rightarrow> AssetID \<Rightarrow> i64 \<Rightarrow> MemoryDatabase res" where
  "db_escrow db i asset change =
     res_bind (find_account db i) (\<lambda>u. Inr (put_account i (acct_escrow u asset change) db))"

definition db_conditional_transfer_available ::
    "MemoryDatabase \<Rightarrow> account_db_idx \<Rightarrow> AssetID \<Rightarrow> i64 \<Rightarrow> (MemoryDatabase \<times> bool) res" where
  "db_conditional_transfer_available db i asset change =
     res_bind (find_account db i) (\<lambda>u.
       let (u', ok) = acct_conditional_transfer_available u asset change in Inr (put_account i u' db, ok))"

definition db_conditional_escrow ::
    "MemoryDatabase \<Rightarrow> account_db_idx \<Rightarrow> AssetID \<Rightarrow> i64 \<Rightarrow> (MemoryDatabase \<times> bool) res" where
  "db_conditional_escrow db i asset change =
     res_bind (find_account db i) (\<lambda>u.
       let (u', ok) = acct_conditional_escrow u asset change in Inr (put_account i u' db, ok))"

definition db_lookup_available_balance :: "MemoryDatabase \<Rightarrow> account_db_idx \<Rightarrow> AssetID \<Rightarrow> (MemoryDatabase \<times> i64) res" where
  "db_lookup_available_balance db i asset =
     res_bind (find_account db i) (\<lambda>u.
       let (u', balance) = acct_lookup_available_balance u asset in Inr (put_account i u' db, balance))"

definition db_reserve_sequence_number ::
    "MemoryDatabase \<Rightarrow> account_db_idx \<Rightarrow> u64 \<Rightarrow> (MemoryDatabase \<times> TransactionProcessingStatus) res" where
  "db_reserve_sequence_number db i seq =
     res_bind (find_account db i) (\<lambda>u.
       let (u', status) = reserve_sequence_number u seq in Inr (put_account i u' db, status))"

definition db_release_sequence_number :: "MemoryDatabase \<Rightarrow> account_db_idx \<Rightarrow> u64 \<Rightarrow> MemoryDatabase res" where
  "db_release_sequence_number db i seq =
     res_bind (find_account db i) (\<lambda>u.
     res_bind (release_sequence_number u seq) (\<lambda>u'. Inr (put_account i u' db)))"

definition db_commit_sequence_number :: "MemoryDatabase \<Rightarrow> account_db_idx \<Rightarrow> u64 \<Rightarrow> MemoryDatabase res" where
  "db_commit_sequence_number db i seq =
     res_bind (find_account db i) (\<lambda>u. Inr (put_account i (commit_sequence_number u seq) db))"

section \<open>The index\<close>

definition lookup_user_id :: "MemoryDatabase \<Rightarrow> AccountID \<Rightarrow> account_db_idx option" where
  "lookup_user_id db account = user_id_to_idx_map db account"

definition account_exists :: "MemoryDatabase \<Rightarrow> AccountID \<Rightarrow> bool" where
  "account_exists db account \<longleftrightarrow> user_id_to_idx_map db account \<noteq> None"

definition get_pk :: "MemoryDatabase \<Rightarrow> AccountID \<Rightarrow> PublicKey option res" where
  "get_pk db account =
     (case user_id_to_idx_map db account of
        None \<Rightarrow> Inr None
      | Some i \<Rightarrow> if i < length (database db) then Inr (Some (acct_pk (database db ! i))) else Inl Undefined)"

definition add_account_to_db :: "MemoryDatabase \<Rightarrow> AccountID \<Rightarrow> PublicKey \<Rightarrow> MemoryDatabase \<times> account_db_idx" where
  "add_account_to_db db user_id pk =
     (case user_id_to_idx_map db user_id of
        Some i \<Rightarrow> (db, i)
      | None \<Rightarrow>
          (case uncommitted_idx_map db user_id of
             Some i \<Rightarrow> (db, i)
           | None \<Rightarrow>
               let idx = length (database db) + length (uncommitted_db db)
               in (db\<lparr>uncommitted_idx_map := (uncommitted_idx_map db)(user_id \<mapsto> idx),
                      uncommitted_db := uncommitted_db db @ [new_user_account user_id pk]\<rparr>, idx)))"

definition reserve_account_creation :: "MemoryDatabase \<Rightarrow> AccountID \<Rightarrow> MemoryDatabase \<times> TransactionProcessingStatus" where
  "reserve_account_creation db account =
     (if user_id_to_idx_map db account \<noteq> None then (db, NEW_ACCOUNT_ALREADY_EXISTS)
      else if account \<in> reserved_account_ids db then (db, NEW_ACCOUNT_TEMP_RESERVED)
      else (db\<lparr>reserved_account_ids := insert account (reserved_account_ids db)\<rparr>, SUCCESS))"

definition release_account_creation :: "AccountID \<Rightarrow> MemoryDatabase \<Rightarrow> MemoryDatabase" where
  "release_account_creation account db = db\<lparr>reserved_account_ids := reserved_account_ids db - {account}\<rparr>"

text \<open>\<open>emplace\<close> keeps an entry that is already there; the account is pushed in any case.\<close>

definition commit_account_creation :: "AccountID \<Rightarrow> UserAccount \<Rightarrow> MemoryDatabase \<Rightarrow> MemoryDatabase" where
  "commit_account_creation account_id account_data db =
     (let new_idx = length (uncommitted_db db) + length (database db)
      in db\<lparr>uncommitted_idx_map := [account_id \<mapsto> new_idx] ++ uncommitted_idx_map db,
            uncommitted_db := uncommitted_db db @ [account_data]\<rparr>)"

definition clear_internal_data_structures :: "MemoryDatabase \<Rightarrow> MemoryDatabase" where
  "clear_internal_data_structures db =
     db\<lparr>uncommitted_db := [], uncommitted_idx_map := Map.empty, reserved_account_ids := {}\<rparr>"

section \<open>Commit and rollback\<close>

definition commit_values :: "MemoryDatabase \<Rightarrow> MemoryDatabase" where
  "commit_values db = db\<lparr>database := map acct_commit (database db)\<rparr>"

definition rollback_values :: "MemoryDatabase \<Rightarrow> MemoryDatabase" where
  "rollback_values db = db\<lparr>database := map acct_rollback (database db)\<rparr>"

definition commit_value :: "account_db_idx \<Rightarrow> MemoryDatabase \<Rightarrow> MemoryDatabase res" where
  "commit_value i db =
     (if i < length (database db) then Inr (put_account i (acct_commit (database db ! i)) db) else Inl Undefined)"

text \<open>\<open>commit_values(dirty_accounts)\<close>; the log gives the owners of its entries, each once.\<close>

fun commit_values_log :: "AccountID list \<Rightarrow> MemoryDatabase \<Rightarrow> MemoryDatabase res" where
  "commit_values_log [] db = Inr db"
| "commit_values_log (owner # owners) db =
     (case lookup_user_id db owner of
        Some idx \<Rightarrow> res_bind (commit_value idx db) (commit_values_log owners)
      | None \<Rightarrow> commit_values_log owners db)"

abbreviation account_insert_fn :: "(key, AccountCommitment, AccountCommitment) insert_fn" where
  "account_insert_fn \<equiv> OverwriteInsertFn size_metadata
     \<lparr>commit_owner = 0, commit_assets = [], commit_last_committed_id = 0, commit_pk = replicate 32 0\<rparr>"

text \<open>The loop of \<open>commit_new_accounts\<close>.\<close>

fun push_new_accounts ::
    "UserAccount list \<Rightarrow> UserAccount list \<times> AccountCommitment MerkleTrie \<Rightarrow>
     (UserAccount list \<times> AccountCommitment MerkleTrie) res" where
  "push_new_accounts [] s = Inr s"
| "push_new_accounts (u # us) (db, trie) =
     (let u' = acct_commit u
      in res_bind (write_trie_key (acct_owner u')) (\<lambda>key_buf.
         res_bind (res_of_option Diverges (produce_commitment u')) (\<lambda>commitment.
         res_bind (trie_insert account_insert_fn key_buf commitment trie) (\<lambda>trie'.
         push_new_accounts us (db @ [u'], trie')))))"

definition block_number_mismatch :: "MemoryDatabase \<Rightarrow> u64 \<Rightarrow> bool" where
  "block_number_mismatch db current_block_number \<longleftrightarrow>
     (account_creation_thunks db = [] \<and> persisted_round_number db + 1 \<noteq> current_block_number \<or>
      account_creation_thunks db \<noteq> [] \<and> creation_block (last (account_creation_thunks db)) + 1 \<noteq> current_block_number) \<and>
     \<not> (current_block_number = 0 \<and> persisted_round_number db = 0)"

text \<open>\<open>map::insert(first, last)\<close> keeps the entries that are already there.\<close>

definition commit_new_accounts :: "u64 \<Rightarrow> MemoryDatabase \<Rightarrow> MemoryDatabase res" where
  "commit_new_accounts current_block_number db =
     (if block_number_mismatch db current_block_number
      then Inl (Runtime_error ''account creation thunks block number error'')
      else res_bind (push_new_accounts (uncommitted_db db) (database db, commitment_trie db)) (\<lambda>(accounts, trie).
        Inr (clear_internal_data_structures
          (db\<lparr>database := accounts, commitment_trie := trie,
              user_id_to_idx_map := uncommitted_idx_map db ++ user_id_to_idx_map db,
              account_creation_thunks := account_creation_thunks db @
                [\<lparr>creation_block = current_block_number, num_accounts_created = length (uncommitted_db db)\<rparr>]\<rparr>))))"

definition db_commit :: "u64 \<Rightarrow> MemoryDatabase \<Rightarrow> MemoryDatabase res" where
  "db_commit current_block_number db =
     res_bind (commit_new_accounts current_block_number db) (\<lambda>db'. Inr (commit_values db'))"

text \<open>
  \<open>rollback_new_accounts_\<close>: the accounts of a thunk are the last ones of the vector.  With fewer
  accounts than the thunk claims, \<open>database.erase\<close> is called with an iterator out of the vector.
\<close>

fun erase_accounts ::
    "UserAccount list \<Rightarrow> (AccountID \<rightharpoonup> account_db_idx) \<times> AccountCommitment MerkleTrie \<Rightarrow>
     ((AccountID \<rightharpoonup> account_db_idx) \<times> AccountCommitment MerkleTrie) res" where
  "erase_accounts [] s = Inr s"
| "erase_accounts (u # us) (idx, trie) =
     res_bind (write_trie_key (acct_owner u)) (\<lambda>key_buf.
     res_bind (trie_perform_deletion key_buf trie) (\<lambda>(v, trie').
     erase_accounts us (idx(acct_owner u := None), trie')))"

definition undo_creation :: "AccountCreationThunk \<Rightarrow> MemoryDatabase \<Rightarrow> MemoryDatabase res" where
  "undo_creation thunk db =
     (let db_size = length (database db); n = num_accounts_created thunk
      in if db_size < n then Inl Undefined
         else res_bind (erase_accounts (drop (db_size - n) (database db)) (user_id_to_idx_map db, commitment_trie db))
           (\<lambda>(idx, trie). Inr (db\<lparr>user_id_to_idx_map := idx, commitment_trie := trie,
                                  database := take (db_size - n) (database db)\<rparr>)))"

fun undo_creations :: "u64 \<Rightarrow> AccountCreationThunk list \<Rightarrow> MemoryDatabase \<Rightarrow> (AccountCreationThunk list \<times> MemoryDatabase) res" where
  "undo_creations current_block_number [] db = Inr ([], db)"
| "undo_creations current_block_number (thunk # thunks) db =
     (if current_block_number < creation_block thunk
      then res_bind (undo_creation thunk db) (undo_creations current_block_number thunks)
      else res_bind (undo_creations current_block_number thunks db) (\<lambda>(kept, db'). Inr (thunk # kept, db')))"

definition rollback_new_accounts :: "u64 \<Rightarrow> MemoryDatabase \<Rightarrow> MemoryDatabase res" where
  "rollback_new_accounts current_block_number db =
     res_bind (undo_creations current_block_number (account_creation_thunks db) db) (\<lambda>(kept, db').
       Inr (clear_internal_data_structures (db'\<lparr>account_creation_thunks := kept\<rparr>)))"

section \<open>Validity\<close>

text \<open>
  \<open>ValidateStateReduce\<close> run by \<open>tbb::parallel_reduce\<close>: a body processes one range after another, or
  is split into two bodies that are joined.  The schedule is a parameter.
\<close>

datatype reduction = Range nat nat | Sequence reduction reduction | Fork reduction reduction

fun validate_state_reduce :: "UserAccount list \<Rightarrow> reduction \<Rightarrow> bool \<Rightarrow> bool" where
  "validate_state_reduce accounts (Range b e) valid =
     (if list_all (\<lambda>i. acct_in_valid_state (accounts ! i)) [b..<e] then True \<and> valid else valid)"
| "validate_state_reduce accounts (Sequence r s) valid =
     validate_state_reduce accounts s (validate_state_reduce accounts r valid)"
| "validate_state_reduce accounts (Fork r s) valid =
     (validate_state_reduce accounts r valid \<and> validate_state_reduce accounts s valid)"

definition check_valid_state :: "reduction \<Rightarrow> MemoryDatabase \<Rightarrow> bool" where
  "check_valid_state schedule db \<longleftrightarrow>
     validate_state_reduce (database db) schedule True \<and> list_all acct_in_valid_state (uncommitted_db db)"

definition check_valid :: "MemoryDatabase \<Rightarrow> account_db_idx \<Rightarrow> bool" where
  "check_valid db i \<longleftrightarrow> length (database db) \<le> i \<or> acct_in_valid_state (database db ! i)"

text \<open>\<open>check_valid_state(dirty_accounts)\<close>; a failed lookup leaves the index uninitialised.\<close>

fun check_dirty :: "MemoryDatabase \<Rightarrow> AccountID list \<Rightarrow> bool res" where
  "check_dirty db [] = Inr True"
| "check_dirty db (owner # owners) =
     (case lookup_user_id db owner of
        None \<Rightarrow> Inl Undefined
      | Some idx \<Rightarrow> res_bind (check_dirty db owners) (\<lambda>ok. Inr (check_valid db idx \<and> ok)))"

definition check_valid_state_log :: "AccountID list \<Rightarrow> MemoryDatabase \<Rightarrow> bool res" where
  "check_valid_state_log dirty db =
     res_bind (check_dirty db dirty) (\<lambda>ok. Inr (ok \<and> list_all acct_in_valid_state (uncommitted_db db)))"

section \<open>Balances of the database\<close>

definition db_balance :: "MemoryDatabase \<Rightarrow> account_db_idx \<times> AssetID \<Rightarrow> i64" where
  "db_balance db = (\<lambda>(i, asset). acct_balance (database db ! i) asset)"

definition db_valid :: "MemoryDatabase \<Rightarrow> account_db_idx \<times> AssetID \<Rightarrow> bool" where
  "db_valid db = (\<lambda>(i, asset). i < length (database db))"

lemma put_account_simps [simp]:
  "length (database (put_account i u db)) = length (database db)"
  "i < length (database db) \<Longrightarrow> database (put_account i u db) ! j = (if j = i then u else database db ! j)"
  "user_id_to_idx_map (put_account i u db) = user_id_to_idx_map db" "uncommitted_db (put_account i u db) = uncommitted_db db"
  "uncommitted_idx_map (put_account i u db) = uncommitted_idx_map db" "reserved_account_ids (put_account i u db) = reserved_account_ids db"
  by (simp_all add: put_account_def)

text \<open>The unconditional and conditional transfers, where the index is valid.\<close>

abbreviation db_move :: "MemoryDatabase \<Rightarrow> account_db_idx \<times> AssetID \<Rightarrow> i64 \<Rightarrow> MemoryDatabase" where
  "db_move db \<equiv> (\<lambda>(i, asset) x. put_account i (acct_transfer_available (database db ! i) asset x) db)"

abbreviation db_try_move :: "MemoryDatabase \<Rightarrow> account_db_idx \<times> AssetID \<Rightarrow> i64 \<Rightarrow> MemoryDatabase \<times> bool" where
  "db_try_move db \<equiv> (\<lambda>(i, asset) x. let (u, ok) = acct_conditional_transfer_available (database db ! i) asset x
     in (put_account i u db, ok))"

lemma db_transfer_available_valid:
  "db_valid db (i, asset) \<Longrightarrow> db_transfer_available db i asset x = Inr (db_move db (i, asset) x)"
  "db_valid db (i, asset) \<Longrightarrow> db_conditional_transfer_available db i asset x = Inr (db_try_move db (i, asset) x)"
  by (simp_all add: db_valid_def db_transfer_available_def db_conditional_transfer_available_def find_account_def
      Let_def split_beta)

interpretation store: balance_keeper db_valid db_balance db_move db_try_move
proof
  fix s :: MemoryDatabase and k k' :: "account_db_idx \<times> AssetID" and a :: i64
  assume v: "db_valid s k"
  obtain i asset where k: "k = (i, asset)" by (cases k)
  obtain j b where k': "k' = (j, b)" by (cases k')
  have i: "i < length (database s)" using v by (simp add: k db_valid_def)
  show "db_valid (db_move s k a) k' = db_valid s k'" "db_valid (fst (db_try_move s k a)) k' = db_valid s k'"
    by (simp_all add: k k' db_valid_def split_beta)
  show "snd (db_try_move s k a) = (\<not> is_negative (db_balance s k + a))"
    by (simp add: k db_balance_def split_beta account.cond_transfer_result)
  assume "db_valid s k'"
  show "db_balance (db_move s k a) k' = (if k' = k then db_balance s k + a else db_balance s k')"
    using i by (auto simp: k k' db_balance_def account.balance_transfer)
  show "db_balance (fst (db_try_move s k a)) k' = (if k' = k \<and> snd (db_try_move s k a) then db_balance s k + a else db_balance s k')"
    using i by (auto simp: k k' db_balance_def split_beta account.balance_cond_transfer)
qed

section \<open>The index invariant\<close>

text \<open>The two maps are exactly the positions of the owners in the two vectors.\<close>

definition indexes :: "(AccountID \<rightharpoonup> account_db_idx) \<Rightarrow> nat \<Rightarrow> UserAccount list \<Rightarrow> bool" where
  "indexes idx start accounts \<longleftrightarrow>
     (\<forall>a i. idx a = Some i \<longleftrightarrow> start \<le> i \<and> i < start + length accounts \<and> acct_owner (accounts ! (i - start)) = a)"

definition db_inv :: "MemoryDatabase \<Rightarrow> bool" where
  "db_inv db \<longleftrightarrow> indexes (user_id_to_idx_map db) 0 (database db) \<and>
     indexes (uncommitted_idx_map db) (length (database db)) (uncommitted_db db) \<and>
     dom (user_id_to_idx_map db) \<inter> dom (uncommitted_idx_map db) = {}"

lemma indexes_empty [simp]: "indexes Map.empty n []"
  by (simp add: indexes_def)

lemma indexes_dom: "indexes idx start accounts \<Longrightarrow> dom idx = acct_owner ` set accounts"
proof
  assume i: "indexes idx start accounts"
  show "dom idx \<subseteq> acct_owner ` set accounts" using i by (auto simp: indexes_def)
  have "idx (acct_owner (accounts ! j)) = Some (start + j)" if "j < length accounts" for j
    using i that by (simp add: indexes_def)
  then show "acct_owner ` set accounts \<subseteq> dom idx" by (auto simp: in_set_conv_nth)
qed

lemma indexes_distinct:
  assumes "indexes idx start accounts"
  shows "distinct (map acct_owner accounts)"
proof -
  have "idx (acct_owner (accounts ! j)) = Some (start + j)" if "j < length accounts" for j
    using assms that by (simp add: indexes_def)
  then show ?thesis by (auto simp: distinct_conv_nth) (metis add_left_cancel option.inject)
qed

lemma indexes_append:
  assumes l: "indexes f start xs" and r: "indexes g (start + length xs) ys" and disj: "dom f \<inter> dom g = {}"
  shows "indexes (g ++ f) start (xs @ ys)"
proof -
  have "(g ++ f) a = Some i \<longleftrightarrow> f a = Some i \<or> g a = Some i" for a i
    using disj by (auto simp: map_add_def split: option.split)
  then show ?thesis using l r by (auto simp: indexes_def nth_append)
qed

lemma indexes_owners:
  assumes "indexes f start xs" "map acct_owner xs = map acct_owner ys"
  shows "indexes f start ys"
proof -
  have "length xs = length ys" using assms(2) by (rule map_eq_imp_length_eq)
  moreover have "acct_owner (xs ! j) = acct_owner (ys ! j)" if "j < length ys" for j
    using assms(2) that calculation by (metis nth_map)
  ultimately show ?thesis using assms(1) by (auto simp: indexes_def)
qed

lemma acct_commit_keeps [simp]: "acct_owner (acct_commit u) = acct_owner u" "acct_pk (acct_commit u) = acct_pk u"
  "acct_owner (acct_rollback u) = acct_owner u" "acct_pk (acct_rollback u) = acct_pk u"
  by (simp_all add: acct_commit_def acct_rollback_def)

lemma db_inv_empty: "db_inv empty_database"
  by (simp add: db_inv_def empty_database_def)

lemma db_inv_put:
  assumes "db_inv db" "i < length (database db) \<Longrightarrow> acct_owner u = acct_owner (database db ! i)"
  shows "db_inv (put_account i u db)"
proof -
  have "map acct_owner (database db) = map acct_owner ((database db)[i := u])"
    using assms(2) list_update_id [of "map acct_owner (database db)" i]
    by (cases "i < length (database db)") (simp_all add: map_update list_update_beyond)
  then show ?thesis using assms(1) by (auto simp: db_inv_def put_account_def intro: indexes_owners)
qed

lemma indexes_single [simp]: "indexes [acct_owner u \<mapsto> n] n [u]"
  by (auto simp: indexes_def)

lemma db_inv_push:
  assumes inv: "db_inv db" and new: "acct_owner u \<notin> dom (user_id_to_idx_map db) \<union> dom (uncommitted_idx_map db)"
  shows "db_inv (db\<lparr>uncommitted_idx_map := (uncommitted_idx_map db)(acct_owner u \<mapsto> length (database db) + length (uncommitted_db db)),
                    uncommitted_db := uncommitted_db db @ [u]\<rparr>)"
proof -
  let ?n = "length (database db) + length (uncommitted_db db)"
  have "indexes ([acct_owner u \<mapsto> ?n] ++ uncommitted_idx_map db) (length (database db)) (uncommitted_db db @ [u])"
    using inv new by (intro indexes_append) (auto simp: db_inv_def)
  moreover have "[acct_owner u \<mapsto> ?n] ++ uncommitted_idx_map db = (uncommitted_idx_map db)(acct_owner u \<mapsto> ?n)"
    using new by (auto simp: map_add_def fun_eq_iff split: option.split)
  ultimately show ?thesis using inv new by (auto simp: db_inv_def)
qed

lemma db_inv_add:
  assumes "db_inv db"
  shows "db_inv (fst (add_account_to_db db a pk))"
proof (cases "a \<in> dom (user_id_to_idx_map db) \<union> dom (uncommitted_idx_map db)")
  case True
  then show ?thesis using assms by (auto simp: add_account_to_db_def split: option.split)
next
  case False
  then show ?thesis
    using db_inv_push [OF assms, of "new_user_account a pk"] by (auto simp: add_account_to_db_def Let_def new_user_account_def split: option.split)
qed

lemma db_inv_create:
  assumes "db_inv db" "acct_owner u \<notin> dom (user_id_to_idx_map db) \<union> dom (uncommitted_idx_map db)"
  shows "db_inv (commit_account_creation (acct_owner u) u db)"
proof -
  have "[acct_owner u \<mapsto> n] ++ uncommitted_idx_map db = (uncommitted_idx_map db)(acct_owner u \<mapsto> n)" for n
    using assms(2) by (auto simp: map_add_def fun_eq_iff split: option.split)
  then show ?thesis using db_inv_push [OF assms] by (simp add: commit_account_creation_def Let_def add.commute)
qed

lemma db_inv_values: "db_inv db \<Longrightarrow> db_inv (commit_values db)" "db_inv db \<Longrightarrow> db_inv (rollback_values db)"
  unfolding db_inv_def commit_values_def rollback_values_def
  by (auto intro!: indexes_owners [of _ _ "database db"])

section \<open>Creating accounts and taking them back\<close>

definition commitment_of :: "UserAccount \<Rightarrow> AccountCommitment" where
  "commitment_of u = the (produce_commitment u)"

definition representable :: "UserAccount \<Rightarrow> bool" where
  "representable u \<longleftrightarrow> length (all_assets u) \<le> 255"

lemma commitment_of_commit: "representable u \<Longrightarrow> produce_commitment (acct_commit u) = Some (commitment_of (acct_commit u))"
  using produce_commitment_eq [of "acct_commit u"]
  by (simp add: representable_def all_assets_def commitment_of_def acct_commit_def)

definition account_leaf :: "UserAccount \<Rightarrow> AccountCommitment \<times> Metadata" where
  "account_leaf u = (commitment_of (acct_commit u), size_metadata (commitment_of (acct_commit u)))"

fun account_leaves :: "(key \<Rightarrow> (AccountCommitment \<times> Metadata) option) \<Rightarrow> UserAccount list \<Rightarrow> key \<Rightarrow> (AccountCommitment \<times> Metadata) option" where
  "account_leaves A [] = A"
| "account_leaves A (u # us) = account_leaves (A(account_key (acct_owner u) \<mapsto> account_leaf u)) us"

lemma account_leaves_other: "k \<notin> account_key ` acct_owner ` set us \<Longrightarrow> account_leaves A us k = A k"
  by (induction us arbitrary: A) auto

lemma account_leaves_key: "a \<notin> acct_owner ` set us \<Longrightarrow> account_leaves A us (account_key a) = A (account_key a)"
  by (rule account_leaves_other) auto

lemma account_leaves_nth:
  "distinct (map acct_owner us) \<Longrightarrow> u \<in> set us \<Longrightarrow> account_leaves A us (account_key (acct_owner u)) = Some (account_leaf u)"
  by (induction us arbitrary: A) (auto simp: account_leaves_other image_iff)

lemma fresh_size_metadata: "fresh_metadata size_metadata"
  by (simp add: fresh_metadata_def size_metadata_def)

lemma push_new_accounts_correct:
  assumes "trie_inv 16 T" "card (dom (leaf_map (root T))) + length us < 2 ^ 32" "\<forall>u \<in> set us. representable u"
  shows "\<exists>T'. push_new_accounts us (db, T) = Inr (db @ map acct_commit us, T') \<and> trie_inv 16 T' \<and>
    leaf_map (root T') = account_leaves (leaf_map (root T)) us \<and>
    card (dom (leaf_map (root T'))) \<le> card (dom (leaf_map (root T))) + length us \<and> (hash_inv E T \<longrightarrow> hash_inv E T')"
  using assms
proof (induction us arbitrary: db T)
  case (Cons u us)
  let ?c = "commitment_of (acct_commit u)" and ?k = "account_key (acct_owner u)"
  let ?T = "leaf_map (root T)"
  obtain T1 where T1: "trie_insert account_insert_fn ?k ?c T = Inr T1" "refines 16 T T1 (?T(?k \<mapsto> account_leaf u))"
    "hash_inv E T \<longrightarrow> hash_inv E T1"
    using overwrite_trie.insert_refines [OF Cons.prems(1), of ?k size_metadata _ ?c E]
    by (auto simp: Let_def size_metadata_def account_leaf_def)
  have inv1: "trie_inv 16 T1" "leaf_map (root T1) = ?T(?k \<mapsto> account_leaf u)" using T1(2) by (simp_all add: refines_def)
  have fin: "finite (dom ?T)" using Cons.prems(1) card_leaf_map(2) by (auto simp: trie_inv_def)
  then have card1: "card (dom (leaf_map (root T1))) \<le> Suc (card (dom ?T))" by (simp add: inv1(2) card_insert_if)
  then have "card (dom (leaf_map (root T1))) + length us < 2 ^ 32" using Cons.prems(2) by simp
  then obtain T' where T': "push_new_accounts us (db @ [acct_commit u], T1) = Inr ((db @ [acct_commit u]) @ map acct_commit us, T')"
    "trie_inv 16 T'" "leaf_map (root T') = account_leaves (leaf_map (root T1)) us"
    "card (dom (leaf_map (root T'))) \<le> card (dom (leaf_map (root T1))) + length us" "hash_inv E T1 \<longrightarrow> hash_inv E T'"
    using Cons.IH [OF inv1(1), of "db @ [acct_commit u]"] Cons.prems(3) by fastforce
  have c: "produce_commitment (acct_commit u) = Some ?c" using commitment_of_commit [of u] Cons.prems(3) by simp
  have "push_new_accounts (u # us) (db, T) = Inr (db @ map acct_commit (u # us), T')"
    using T1(1) T'(1) by (simp add: Let_def c)
  moreover have "leaf_map (root T') = account_leaves ?T (u # us)" using T'(3) by (simp add: inv1(2))
  ultimately show ?case using T'(2,4,5) T1(3) card1 by auto
qed auto

lemma erase_accounts_correct:
  assumes "trie_inv 16 T" "few_leaves T"
  shows "\<exists>T'. erase_accounts us (idx, T) = Inr (\<lambda>a. if a \<in> acct_owner ` set us then None else idx a, T') \<and> trie_inv 16 T' \<and>
    leaf_map (root T') = (\<lambda>k. if k \<in> account_key ` acct_owner ` set us then None else leaf_map (root T) k) \<and>
    (hash_inv E T \<longrightarrow> hash_inv E T')"
  using assms
proof (induction us arbitrary: idx T)
  case (Cons u us)
  let ?k = "account_key (acct_owner u)"
  obtain T1 where T1: "trie_perform_deletion ?k T = Inr (trie_map (root T) ?k, T1)"
    "refines 16 T T1 ((leaf_map (root T))(?k := None))" "hash_inv E T \<longrightarrow> hash_inv E T1"
    using deletion_refines [OF Cons.prems(1) _ Cons.prems(2), of ?k E] by auto
  have inv1: "trie_inv 16 T1" "leaf_map (root T1) = (leaf_map (root T))(?k := None)" using T1(2) by (simp_all add: refines_def)
  have "card (dom (leaf_map (root T1))) \<le> card (dom (leaf_map (root T)))"
    using Cons.prems(1) card_leaf_map(2) by (auto simp: inv1(2) trie_inv_def intro!: card_mono)
  then have few: "few_leaves T1" using Cons.prems(2) by (simp add: few_leaves_def)
  obtain T' where T': "erase_accounts us (idx(acct_owner u := None), T1) =
      Inr (\<lambda>a. if a \<in> acct_owner ` set us then None else (idx(acct_owner u := None)) a, T')" "trie_inv 16 T'"
    "leaf_map (root T') = (\<lambda>k. if k \<in> account_key ` acct_owner ` set us then None else leaf_map (root T1) k)"
    "hash_inv E T1 \<longrightarrow> hash_inv E T'"
    using Cons.IH [OF inv1(1) few] by blast
  then show ?case using T1(1,3) by (auto simp: inv1(2) fun_eq_iff)
qed simp

text \<open>Keys of the commitment trie belong to committed accounts.\<close>

definition trie_keys_ok :: "MemoryDatabase \<Rightarrow> bool" where
  "trie_keys_ok db \<longleftrightarrow>
     trie_inv 16 (commitment_trie db) \<and> (\<forall>a. user_id_to_idx_map db a = None \<longrightarrow> leaf_map (root (commitment_trie db)) (account_key a) = None)"

definition creation_ready :: "u64 \<Rightarrow> MemoryDatabase \<Rightarrow> bool" where
  "creation_ready block db \<longleftrightarrow> \<not> block_number_mismatch db block \<and> list_all representable (uncommitted_db db) \<and>
     card (dom (leaf_map (root (commitment_trie db)))) + length (uncommitted_db db) < 2 ^ 32"

lemma commit_new_accounts_correct:
  assumes inv: "db_inv db" "trie_keys_ok db" and ready: "creation_ready block db"
  shows "\<exists>T'. commit_new_accounts block db = Inr (clear_internal_data_structures
      (db\<lparr>database := database db @ map acct_commit (uncommitted_db db), commitment_trie := T',
          user_id_to_idx_map := uncommitted_idx_map db ++ user_id_to_idx_map db,
          account_creation_thunks := account_creation_thunks db @
            [\<lparr>creation_block = block, num_accounts_created = length (uncommitted_db db)\<rparr>]\<rparr>)) \<and>
    trie_inv 16 T' \<and> leaf_map (root T') = account_leaves (leaf_map (root (commitment_trie db))) (uncommitted_db db) \<and>
    few_leaves T' \<and> (hash_inv E (commitment_trie db) \<longrightarrow> hash_inv E T')"
proof -
  have "trie_inv 16 (commitment_trie db)" using inv(2) by (simp add: trie_keys_ok_def)
  moreover have "card (dom (leaf_map (root (commitment_trie db)))) + length (uncommitted_db db) < 2 ^ 32"
    "\<forall>u \<in> set (uncommitted_db db). representable u" using ready by (simp_all add: creation_ready_def list_all_iff)
  ultimately obtain T' where T': "push_new_accounts (uncommitted_db db) (database db, commitment_trie db) =
      Inr (database db @ map acct_commit (uncommitted_db db), T')" "trie_inv 16 T'"
    "leaf_map (root T') = account_leaves (leaf_map (root (commitment_trie db))) (uncommitted_db db)"
    "card (dom (leaf_map (root T'))) \<le> card (dom (leaf_map (root (commitment_trie db)))) + length (uncommitted_db db)"
    "hash_inv E (commitment_trie db) \<longrightarrow> hash_inv E T'"
    using push_new_accounts_correct by blast
  have "few_leaves T'" using T'(4) ready by (simp add: creation_ready_def few_leaves_def)
  moreover have "\<not> block_number_mismatch db block" using ready by (simp add: creation_ready_def)
  ultimately show ?thesis using T'(1,2,3,5) by (intro exI [of _ T']) (simp add: commit_new_accounts_def)
qed

text \<open>Committing new accounts keeps the invariants, and every index already given out.\<close>

lemma commit_new_accounts_inv:
  assumes inv: "db_inv db" "trie_keys_ok db" and c: "commit_new_accounts block db = Inr db'" and ready: "creation_ready block db"
  shows "db_inv db'" "trie_keys_ok db'"
    and "lookup_user_id db a = Some i \<Longrightarrow> lookup_user_id db' a = Some i \<and> database db' ! i = database db ! i"
    and "uncommitted_idx_map db a = Some i \<Longrightarrow>
      lookup_user_id db' a = Some i \<and> database db' ! i = acct_commit (uncommitted_db db ! (i - length (database db)))"
proof -
  obtain T' where T': "db' = clear_internal_data_structures
      (db\<lparr>database := database db @ map acct_commit (uncommitted_db db), commitment_trie := T',
          user_id_to_idx_map := uncommitted_idx_map db ++ user_id_to_idx_map db,
          account_creation_thunks := account_creation_thunks db @
            [\<lparr>creation_block = block, num_accounts_created = length (uncommitted_db db)\<rparr>]\<rparr>)"
    "trie_inv 16 T'" "leaf_map (root T') = account_leaves (leaf_map (root (commitment_trie db))) (uncommitted_db db)"
    using commit_new_accounts_correct [OF inv ready] c by auto
  note idx = inv(1) [unfolded db_inv_def]
  have "indexes (uncommitted_idx_map db) (0 + length (database db)) (map acct_commit (uncommitted_db db))"
    using idx by (auto intro: indexes_owners)
  then have all: "indexes (uncommitted_idx_map db ++ user_id_to_idx_map db) 0 (database db @ map acct_commit (uncommitted_db db))"
    using idx by (intro indexes_append) auto
  then show "db_inv db'" by (simp add: T'(1) db_inv_def clear_internal_data_structures_def)
  have un: "dom (uncommitted_idx_map db) = acct_owner ` set (uncommitted_db db)" using idx indexes_dom by blast
  have "leaf_map (root T') (account_key a) = None" if "(uncommitted_idx_map db ++ user_id_to_idx_map db) a = None" for a
  proof -
    have "a \<notin> acct_owner ` set (uncommitted_db db)" using that un by (auto simp: map_add_None)
    then show ?thesis using that inv(2) by (simp add: T'(3) account_leaves_key trie_keys_ok_def map_add_None)
  qed
  then show "trie_keys_ok db'" using T'(2) by (simp add: T'(1) trie_keys_ok_def clear_internal_data_structures_def)
  show "lookup_user_id db' a = Some i \<and> database db' ! i = database db ! i" if "lookup_user_id db a = Some i"
    using that idx by (auto simp: T'(1) lookup_user_id_def clear_internal_data_structures_def indexes_def nth_append)
  show "lookup_user_id db' a = Some i \<and> database db' ! i = acct_commit (uncommitted_db db ! (i - length (database db)))"
    if i: "uncommitted_idx_map db a = Some i"
  proof -
    have "user_id_to_idx_map db a = None" using i idx by blast
    moreover have "length (database db) \<le> i" "i < length (database db) + length (uncommitted_db db)"
      using i idx by (auto simp: indexes_def)
    ultimately show ?thesis
      using i by (auto simp: T'(1) lookup_user_id_def clear_internal_data_structures_def nth_append map_add_def)
  qed
qed

text \<open>Rolling back to an earlier block takes the new accounts back out.\<close>

lemma undo_creations_kept:
  "list_all (\<lambda>th. creation_block th \<le> block) thunks \<Longrightarrow>
   undo_creations block (thunks @ rest) db =
     res_bind (undo_creations block rest db) (\<lambda>(kept, db'). Inr (thunks @ kept, db'))"
  by (induction thunks; cases "undo_creations block rest db") (auto simp: not_less)

lemma commit_then_rollback:
  assumes inv: "db_inv db" "trie_keys_ok db" and ready: "creation_ready block db"
    and old: "list_all (\<lambda>th. creation_block th \<le> target) (account_creation_thunks db)" and target: "target < block"
  shows "\<exists>db1 T2. commit_new_accounts block db = Inr db1 \<and>
    rollback_new_accounts target db1 = Inr (clear_internal_data_structures (db\<lparr>commitment_trie := T2\<rparr>)) \<and>
    trie_inv 16 T2 \<and> leaf_map (root T2) = leaf_map (root (commitment_trie db)) \<and>
    (hash_inv E (commitment_trie db) \<longrightarrow> hash_inv E T2)"
proof -
  let ?new = "uncommitted_db db" let ?thunk = "\<lparr>creation_block = block, num_accounts_created = length ?new\<rparr>"
  obtain T1 where T1: "commit_new_accounts block db = Inr (clear_internal_data_structures
      (db\<lparr>database := database db @ map acct_commit ?new, commitment_trie := T1,
          user_id_to_idx_map := uncommitted_idx_map db ++ user_id_to_idx_map db,
          account_creation_thunks := account_creation_thunks db @ [?thunk]\<rparr>))" (is "_ = Inr ?db1")
    "trie_inv 16 T1" "leaf_map (root T1) = account_leaves (leaf_map (root (commitment_trie db))) ?new"
    "few_leaves T1" "hash_inv E (commitment_trie db) \<longrightarrow> hash_inv E T1"
    using commit_new_accounts_correct [OF inv ready] by blast
  have owners: "acct_owner ` set (map acct_commit ?new) = dom (uncommitted_idx_map db)"
    using indexes_dom [of "uncommitted_idx_map db" "length (database db)" ?new] inv(1) by (simp add: db_inv_def image_image)
  obtain T2 where T2: "erase_accounts (map acct_commit ?new) (uncommitted_idx_map db ++ user_id_to_idx_map db, T1) =
      Inr (\<lambda>a. if a \<in> dom (uncommitted_idx_map db) then None else (uncommitted_idx_map db ++ user_id_to_idx_map db) a, T2)"
    "trie_inv 16 T2" "hash_inv E T1 \<longrightarrow> hash_inv E T2"
    "leaf_map (root T2) = (\<lambda>k. if k \<in> account_key ` dom (uncommitted_idx_map db) then None else leaf_map (root T1) k)"
    using erase_accounts_correct [OF T1(2,4), of "map acct_commit ?new"] unfolding owners by blast
  have idx: "(\<lambda>a. if a \<in> dom (uncommitted_idx_map db) then None else (uncommitted_idx_map db ++ user_id_to_idx_map db) a) =
      user_id_to_idx_map db"
  proof
    fix a
    show "(if a \<in> dom (uncommitted_idx_map db) then None else (uncommitted_idx_map db ++ user_id_to_idx_map db) a) = user_id_to_idx_map db a"
      using inv(1) by (cases "user_id_to_idx_map db a") (auto simp: db_inv_def map_add_def)
  qed
  have un: "dom (uncommitted_idx_map db) = acct_owner ` set ?new" using owners by (simp add: image_image)
  have "leaf_map (root T2) k = leaf_map (root (commitment_trie db)) k" for k
  proof (cases "k \<in> account_key ` dom (uncommitted_idx_map db)")
    case True
    then obtain a where a: "k = account_key a" "a \<in> dom (uncommitted_idx_map db)" by blast
    then have "user_id_to_idx_map db a = None" using inv(1) by (auto simp: db_inv_def)
    then show ?thesis using True a inv(2) by (simp add: T2(4) trie_keys_ok_def)
  next
    case False
    then show ?thesis by (simp add: T2(4) T1(3) un account_leaves_other)
  qed
  moreover have "undo_creation ?thunk ?db1 = Inr (?db1\<lparr>user_id_to_idx_map := user_id_to_idx_map db, commitment_trie := T2, database := database db\<rparr>)"
    using T2(1) by (simp add: undo_creation_def clear_internal_data_structures_def Let_def idx)
  then have "rollback_new_accounts target ?db1 = Inr (clear_internal_data_structures (db\<lparr>commitment_trie := T2\<rparr>))"
    using undo_creations_kept [OF old, of "[?thunk]" ?db1] target
    by (simp add: rollback_new_accounts_def clear_internal_data_structures_def)
  ultimately show ?thesis using T1(1,5) T2(2,3) by blast
qed

section \<open>What the validity checks see\<close>

lemma validate_state_reduce_True: "validate_state_reduce accounts schedule True"
  by (induction schedule) simp_all

text \<open>The check of the committed accounts never fails.\<close>

lemma check_valid_state_eq: "check_valid_state schedule db \<longleftrightarrow> list_all acct_in_valid_state (uncommitted_db db)"
  by (simp add: check_valid_state_def validate_state_reduce_True)

lemma check_valid_state_log_eq:
  assumes "set dirty \<subseteq> dom (user_id_to_idx_map db)" "db_inv db"
  shows "check_valid_state_log dirty db = Inr
    ((\<forall>a \<in> set dirty. \<forall>i. lookup_user_id db a = Some i \<longrightarrow> acct_in_valid_state (database db ! i)) \<and>
     list_all acct_in_valid_state (uncommitted_db db))"
proof -
  have "check_dirty db dirty = Inr (\<forall>a \<in> set dirty. \<forall>i. lookup_user_id db a = Some i \<longrightarrow> acct_in_valid_state (database db ! i))"
    using assms(1)
  proof (induction dirty)
    case (Cons a dirty)
    then obtain i where i: "lookup_user_id db a = Some i" by (auto simp: lookup_user_id_def)
    then have "i < length (database db)" using assms(2) by (auto simp: db_inv_def indexes_def lookup_user_id_def)
    then have "check_valid db i \<longleftrightarrow> acct_in_valid_state (database db ! i)" by (simp add: check_valid_def)
    then show ?case using Cons i by simp
  qed simp
  then show ?thesis by (simp add: check_valid_state_log_def)
qed

end
