(* ===== verification/Work_Unit.thy ===== *)
theory Work_Unit
  imports Offer_Book Modification_Log Memory_Database
begin

text \<open>
  The book of open offers of one market, \<^verbatim>\<open>merkle_work_unit.h\<close>, \<^verbatim>\<open>merkle_work_unit.cc\<close>
  and \<^verbatim>\<open>merkle_work_unit_thunk.h\<close>: the committed offers, the offers of the current block, and
  one thunk per block that is not yet persisted, with what is needed to undo the block.  Writing
  the thunks to LMDB is left out; the persisted round number is a field.
\<close>

section \<open>State\<close>

text \<open>The constructor leaves \<open>exists_partial_exec\<close> uninitialised, here \<open>None\<close>.\<close>

record WorkUnitLMDBCommitmentThunk =
  partial_exec_key :: key
  partial_exec_amount :: i64
  preexecute_partial_exec_offer :: Offer
  uncommitted_offers_vec :: "Offer list"
  cleared_offers :: "Offer MerkleTrie"
  deleted_keys :: "(key \<times> Offer) list"
  exists_partial_exec :: "bool option"
  thunk_block_number :: u64

definition new_thunk :: "u64 \<Rightarrow> WorkUnitLMDBCommitmentThunk" where
  "new_thunk current_block_number =
     \<lparr>partial_exec_key = replicate (2 * WORKUNIT_KEY_LEN) 0, partial_exec_amount = - 1,
      preexecute_partial_exec_offer = empty_offer, uncommitted_offers_vec = [], cleared_offers = empty_trie,
      deleted_keys = [], exists_partial_exec = None, thunk_block_number = current_block_number\<rparr>"

definition set_no_partial_exec :: "WorkUnitLMDBCommitmentThunk \<Rightarrow> WorkUnitLMDBCommitmentThunk" where
  "set_no_partial_exec thunk =
     thunk\<lparr>exists_partial_exec := Some False, partial_exec_key := replicate (2 * WORKUNIT_KEY_LEN) 15\<rparr>"

definition set_partial_exec :: "key \<Rightarrow> i64 \<Rightarrow> Offer \<Rightarrow> WorkUnitLMDBCommitmentThunk \<Rightarrow> WorkUnitLMDBCommitmentThunk" where
  "set_partial_exec buf amount offer thunk =
     thunk\<lparr>partial_exec_key := buf, partial_exec_amount := amount, preexecute_partial_exec_offer := offer,
           exists_partial_exec := Some True\<rparr>"

record MerkleWorkUnit =
  wu_category :: OfferCategory
  committed_offers :: "Offer MerkleTrie"
  uncommitted_offers :: "Offer MerkleTrie"
  thunks :: "WorkUnitLMDBCommitmentThunk list"
  wu_persisted_round_number :: u64

definition new_work_unit :: "OfferCategory \<Rightarrow> MerkleWorkUnit" where
  "new_work_unit c = \<lparr>wu_category = c, committed_offers = empty_trie, uncommitted_offers = empty_trie, thunks = [],
     wu_persisted_round_number = 0\<rparr>"

section \<open>Offers of the current block\<close>

definition wu_add_offers :: "Offer MerkleTrie \<Rightarrow> MerkleWorkUnit \<Rightarrow> MerkleWorkUnit res" where
  "wu_add_offers new_offers w =
     res_bind (trie_merge_in OverwriteMergeFn new_offers (uncommitted_offers w)) (\<lambda>T. Inr (w\<lparr>uncommitted_offers := T\<rparr>))"

definition wu_mark_for_deletion :: "key \<Rightarrow> MerkleWorkUnit \<Rightarrow> (Offer option \<times> MerkleWorkUnit) res" where
  "wu_mark_for_deletion k w =
     res_bind (trie_mark_for_deletion k (committed_offers w)) (\<lambda>(found, T). Inr (found, w\<lparr>committed_offers := T\<rparr>))"

definition wu_unmark_for_deletion :: "key \<Rightarrow> MerkleWorkUnit \<Rightarrow> (Offer option \<times> MerkleWorkUnit) res" where
  "wu_unmark_for_deletion k w =
     res_bind (trie_unmark_for_deletion k (committed_offers w)) (\<lambda>(found, T). Inr (found, w\<lparr>committed_offers := T\<rparr>))"

definition wu_clear :: "MerkleWorkUnit \<Rightarrow> MerkleWorkUnit" where
  "wu_clear w = w\<lparr>uncommitted_offers := trie_clear (uncommitted_offers w),
     committed_offers := trie_clear (committed_offers w), thunks := []\<rparr>"

definition num_open_offers :: "MerkleWorkUnit \<Rightarrow> i64 res" where
  "num_open_offers w = trie_size (root (committed_offers w))"

section \<open>Committing a block\<close>

definition add_new_thunk ::
    "u64 \<Rightarrow> WorkUnitLMDBCommitmentThunk list \<Rightarrow> WorkUnitLMDBCommitmentThunk res" where
  "add_new_thunk current_block_number ths =
     (if ths \<noteq> [] \<and> thunk_block_number (last ths) + 1 \<noteq> current_block_number
      then Inl (Runtime_error ''thunks in the wrong order!'')
      else Inr (new_thunk current_block_number))"

definition get_top_thunk :: "MerkleWorkUnit \<Rightarrow> WorkUnitLMDBCommitmentThunk res" where
  "get_top_thunk w =
     (if thunks w = [] then Inl (Runtime_error ''can't get top thunk when thunks.size() == 0'') else Inr (last (thunks w)))"

definition set_top_thunk :: "WorkUnitLMDBCommitmentThunk \<Rightarrow> MerkleWorkUnit \<Rightarrow> MerkleWorkUnit" where
  "set_top_thunk th w = w\<lparr>thunks := butlast (thunks w) @ [th]\<rparr>"

definition pop_top_thunk :: "MerkleWorkUnit \<Rightarrow> MerkleWorkUnit res" where
  "pop_top_thunk w =
     (if thunks w = [] then Inl (Runtime_error ''can't pop_back from empty thunks list'')
      else Inr (w\<lparr>thunks := butlast (thunks w)\<rparr>))"

definition tentative_commit_for_validation :: "u64 \<Rightarrow> MerkleWorkUnit \<Rightarrow> MerkleWorkUnit res" where
  "tentative_commit_for_validation current_block_number w =
     res_bind (add_new_thunk current_block_number (thunks w)) (\<lambda>thunk.
     res_bind (node_accumulate_values (root (uncommitted_offers w))) (\<lambda>vec.
     res_bind (trie_perform_marked_deletions (committed_offers w)) (\<lambda>(remaining, deleted).
     let thunk = thunk\<lparr>uncommitted_offers_vec := vec, deleted_keys := deleted\<rparr> in
     res_bind (trie_merge_in OverwriteMergeFn (uncommitted_offers w) remaining) (\<lambda>merged.
     Inr (w\<lparr>committed_offers := merged, uncommitted_offers := trie_clear (uncommitted_offers w),
            thunks := thunks w @ [thunk]\<rparr>)))))"

definition finalize_validation :: "MerkleWorkUnit \<Rightarrow> MerkleWorkUnit res" where
  "finalize_validation w =
     (let w = w\<lparr>committed_offers := trie_clear_rollback (committed_offers w)\<rparr> in
      res_bind (trie_size (root (uncommitted_offers w))) (\<lambda>sz.
        if sz \<noteq> 0 then Inl (Runtime_error ''shouldn't have uncommitted_offers nonempty when calling finalize'') else Inr w))"

section \<open>Undoing a block\<close>

fun insert_all :: "(key \<times> Offer) list \<Rightarrow> Offer MerkleTrie \<Rightarrow> Offer MerkleTrie res" where
  "insert_all [] T = Inr T"
| "insert_all ((k, offer) # kvs) T = res_bind (trie_insert offer_insert_fn k offer T) (insert_all kvs)"

fun mark_all :: "Offer list \<Rightarrow> Offer MerkleTrie \<Rightarrow> Offer MerkleTrie res" where
  "mark_all [] T = Inr T"
| "mark_all (offer # os) T =
     res_bind (generate_offer_key offer) (\<lambda>k.
     res_bind (trie_mark_for_deletion k T) (\<lambda>(_, T'). mark_all os T'))"

definition undo_thunk :: "WorkUnitLMDBCommitmentThunk \<Rightarrow> MerkleWorkUnit \<Rightarrow> MerkleWorkUnit res" where
  "undo_thunk thunk w =
     res_bind (insert_all (deleted_keys thunk) (committed_offers w)) (\<lambda>T1.
     res_bind (trie_clean_singlechild_nodes (partial_exec_key thunk) (cleared_offers thunk)) (\<lambda>cleared.
     res_bind (trie_merge_in OverwriteMergeFn cleared T1) (\<lambda>T2.
     res_bind (mark_all (uncommitted_offers_vec thunk) T2) (\<lambda>T3.
     res_bind (trie_perform_marked_deletions T3) (\<lambda>(T4, _).
     case exists_partial_exec thunk of
       None \<Rightarrow> Inl Undefined
     | Some b \<Rightarrow>
         if b then res_bind (trie_insert offer_insert_fn (partial_exec_key thunk) (preexecute_partial_exec_offer thunk) T4)
                     (\<lambda>T5. Inr (w\<lparr>committed_offers := T5\<rparr>))
         else Inr (w\<lparr>committed_offers := T4\<rparr>))))))"

definition rollback_validation :: "MerkleWorkUnit \<Rightarrow> MerkleWorkUnit res" where
  "rollback_validation w =
     res_bind (trie_do_rollback (committed_offers w)) (\<lambda>T.
     let w = w\<lparr>uncommitted_offers := trie_clear (uncommitted_offers w), committed_offers := T\<rparr> in
     res_bind (get_top_thunk w) (\<lambda>thunk.
     let thunk = thunk\<lparr>uncommitted_offers_vec := []\<rparr> in
     res_bind (undo_thunk thunk (set_top_thunk thunk w)) pop_top_thunk))"

text \<open>\<open>rollback_thunks\<close>: the thunks above the target, from the oldest on.\<close>

fun undo_thunks ::
    "u64 \<Rightarrow> WorkUnitLMDBCommitmentThunk list \<Rightarrow> MerkleWorkUnit \<Rightarrow> (WorkUnitLMDBCommitmentThunk list \<times> MerkleWorkUnit) res" where
  "undo_thunks current_block_number [] w = Inr ([], w)"
| "undo_thunks current_block_number (thunk # ths) w =
     (if current_block_number < thunk_block_number thunk
      then res_bind (undo_thunk thunk w) (undo_thunks current_block_number ths)
      else res_bind (undo_thunks current_block_number ths w) (\<lambda>(kept, w'). Inr (thunk # kept, w')))"

definition rollback_thunks :: "u64 \<Rightarrow> MerkleWorkUnit \<Rightarrow> MerkleWorkUnit res" where
  "rollback_thunks current_block_number w =
     (if current_block_number \<le> wu_persisted_round_number w then Inl (Runtime_error ''can't rollback persisted objects'')
      else res_bind (undo_thunks current_block_number (thunks w) w) (\<lambda>(kept, w'). Inr (w'\<lparr>thunks := kept\<rparr>)))"

section \<open>Clearing: producing a block\<close>

text \<open>The bytes of a key; \<open>prices[i]\<close> does not check its index.\<close>

fun get_bytes_array :: "key \<Rightarrow> byte list" where
  "get_bytes_array (x # y # k) = (push_bit 4 (ucast x) OR ucast y) # get_bytes_array k"
| "get_bytes_array _ = []"

definition price_of :: "price list \<Rightarrow> AssetID \<Rightarrow> price res" where
  "price_of prices asset = (if unat asset < length prices then Inr (prices ! unat asset) else Inl Undefined)"

text \<open>\<open>CompleteClearingFunc\<close>, and \<open>apply\<close> of it to the offers of a trie in order.\<close>

definition complete_clearing_func ::
    "price \<Rightarrow> price \<Rightarrow> u8 \<Rightarrow> Offer \<Rightarrow> MemoryDatabase \<times> account_log \<Rightarrow> (MemoryDatabase \<times> account_log) res" where
  "complete_clearing_func sellPrice buyPrice tax offer = (\<lambda>(db, log).
     if a_over_b_lt_c sellPrice buyPrice (minPrice offer)
     then Inl (Runtime_error ''Trying to clear an offer with bad price'')
     else if offer_amount offer = 0 then Inl (Runtime_error ''offer amount was 0!'')
     else case lookup_user_id db (offer_owner offer) of
            None \<Rightarrow> Inl (Runtime_error ''Offer in manager from nonexistent account'')
          | Some idx \<Rightarrow>
              res_bind (clear_offer_full db_transfer_available offer sellPrice buyPrice tax db idx) (\<lambda>db'.
              res_bind (log_self_modification (offer_owner offer) (offerId offer) log) (\<lambda>log'. Inr (db', log'))))"

fun clear_all ::
    "price \<Rightarrow> price \<Rightarrow> u8 \<Rightarrow> Offer list \<Rightarrow> MemoryDatabase \<times> account_log \<Rightarrow> (MemoryDatabase \<times> account_log) res" where
  "clear_all sellPrice buyPrice tax [] s = Inr s"
| "clear_all sellPrice buyPrice tax (offer # os) s =
     res_bind (complete_clearing_func sellPrice buyPrice tax offer s) (clear_all sellPrice buyPrice tax os)"

definition count_full :: "i64 \<Rightarrow> BlockStateUpdateStats \<Rightarrow> BlockStateUpdateStats" where
  "count_full n stats = stats\<lparr>fully_clear_offer_count := fully_clear_offer_count stats + ucast n\<rparr>"

definition count_partial :: "BlockStateUpdateStats \<Rightarrow> BlockStateUpdateStats" where
  "count_partial stats = stats\<lparr>partial_clear_offer_count := partial_clear_offer_count stats + 1\<rparr>"

type_synonym clearing_state = "MemoryDatabase \<times> account_log \<times> BlockStateUpdateStats"

text \<open>The part of \<open>process_clear_offers\<close> after the lowest remaining offer is known to exist.\<close>

definition clear_partial_offer ::
    "key \<Rightarrow> FractionalAsset \<Rightarrow> price \<Rightarrow> price \<Rightarrow> u8 \<Rightarrow> MerkleWorkUnit \<Rightarrow> clearing_state \<Rightarrow> SingleWorkUnitStateCommitment \<Rightarrow>
     (MerkleWorkUnit \<times> clearing_state \<times> SingleWorkUnitStateCommitment) res" where
  "clear_partial_offer k remaining_to_clear sellPrice buyPrice tax w = (\<lambda>(db, log, stats) c.
     let c = c\<lparr>thresholdKeyIsNull := 0\<rparr> in
     res_bind (trie_perform_deletion k (committed_offers w)) (\<lambda>(try_delete, T).
     case try_delete of
       None \<Rightarrow> Inl (Runtime_error ''couldn't find partial exec offer!!!'')
     | Some offer \<Rightarrow>
         res_bind (log_self_modification (offer_owner offer) (offerId offer) log) (\<lambda>log.
         case lookup_user_id db (offer_owner offer) of
           None \<Rightarrow> Inl (Runtime_error ''(partialexec) Offer in manager from nonexistent account'')
         | Some idx \<Rightarrow>
             res_bind (clear_offer_partial db_transfer_available offer sellPrice buyPrice tax remaining_to_clear db idx)
               (\<lambda>(db, sell_amount, buy_amount).
             if offer_amount offer < sell_amount then Inl (Runtime_error ''should not have been partially clearing this offer'')
             else res_bind (get_top_thunk w) (\<lambda>thunk.
               let w = set_top_thunk (set_partial_exec k sell_amount offer thunk) w in
               if length (get_bytes_array k) \<noteq> WORKUNIT_KEY_LEN \<or> length (partialExecThresholdKey c) \<noteq> WORKUNIT_KEY_LEN
               then Inl (Runtime_error ''invalid partial_exec_key size!?!!'')
               else let c = c\<lparr>partialExecThresholdKey := get_bytes_array k\<rparr>;
                        offer' = offer\<lparr>offer_amount := offer_amount offer - sell_amount\<rparr>
                    in if 0 < offer_amount offer'
                       then res_bind (trie_insert offer_insert_fn k offer' T) (\<lambda>T'.
                              Inr (w\<lparr>committed_offers := T'\<rparr>, (db, log, count_partial stats), c))
                       else Inr (w\<lparr>committed_offers := T\<rparr>, (db, log, stats), c))))))"

definition process_clear_offers ::
    "FractionalAsset \<Rightarrow> price list \<Rightarrow> u8 \<Rightarrow> MerkleWorkUnit \<Rightarrow> clearing_state \<Rightarrow> SingleWorkUnitStateCommitment \<Rightarrow>
     (MerkleWorkUnit \<times> clearing_state \<times> SingleWorkUnitStateCommitment) res" where
  "process_clear_offers supply_activated prices tax w = (\<lambda>(db, log, stats) c.
     let clear_amount = fa_floor supply_activated in
     if 2 ^ 63 - 1 < clear_amount then Inl (Runtime_error ''trying to clear more than there should exist'')
     else
       res_bind (write_unsigned_big_endian (fractionalSupplyActivated_bytes c) (fa_value supply_activated) 0) (\<lambda>bytes.
       let c = c\<lparr>fractionalSupplyActivated_bytes := bytes\<rparr> in
       res_bind (trie_endow_split (ucast clear_amount) (committed_offers w)) (\<lambda>(fully_cleared_trie, T).
       res_bind (price_of prices (sellAsset (wu_category w))) (\<lambda>sellPrice.
       res_bind (price_of prices (buyAsset (wu_category w))) (\<lambda>buyPrice.
       res_bind (clear_all sellPrice buyPrice tax (node_apply (root fully_cleared_trie)) (db, log)) (\<lambda>(db, log).
       res_bind (trie_size (root fully_cleared_trie)) (\<lambda>sz.
       let stats = count_full sz stats;
           remaining_to_clear = fa_minus supply_activated (from_integral (scast (endow (metadata (root fully_cleared_trie)))))
       in
       res_bind (get_top_thunk w) (\<lambda>thunk.
       let w = set_top_thunk (thunk\<lparr>cleared_offers := fully_cleared_trie\<rparr>) (w\<lparr>committed_offers := T\<rparr>) in
       res_bind (write_unsigned_big_endian (partialExecOfferActivationAmount_bytes c) (fa_value remaining_to_clear) 0) (\<lambda>bytes.
       let c = c\<lparr>partialExecOfferActivationAmount_bytes := bytes\<rparr> in
       case node_get_lowest_key (root T) of
         None \<Rightarrow>
           if remaining_to_clear \<noteq> from_integral 0
           then Inl (Runtime_error ''null partial_exec_key (lowest offer key) but remaining to clear is nonzero'')
           else res_bind (get_top_thunk w) (\<lambda>thunk.
             Inr (set_top_thunk (set_no_partial_exec thunk) w, (db, log, stats),
                  c\<lparr>partialExecThresholdKey := replicate (length (partialExecThresholdKey c)) 0, thresholdKeyIsNull := 1\<rparr>))
       | Some k \<Rightarrow> clear_partial_offer k remaining_to_clear sellPrice buyPrice tax w (db, log, stats) c)))))))))"

section \<open>Clearing: validating a block\<close>

text \<open>
  \<open>tentative_clear_offers_for_validation\<close> returns the new state, the supply it saw activated, and
  whether the commitment is consistent; on false the caller rolls the block back.
\<close>

definition validate_no_partial ::
    "SingleWorkUnitStateCommitment \<Rightarrow> price \<Rightarrow> price \<Rightarrow> u8 \<Rightarrow> FractionalAsset \<Rightarrow> MerkleWorkUnit \<Rightarrow> clearing_state \<Rightarrow>
     (bool \<times> MerkleWorkUnit \<times> clearing_state \<times> FractionalAsset) res" where
  "validate_no_partial c sellPrice buyPrice tax activated w = (\<lambda>(db, log, stats).
     if partialExecThresholdKey c \<noteq> replicate WORKUNIT_KEY_LEN 0 then Inr (False, w, (db, log, stats), activated)
     else if partialExecOfferActivationAmount c \<noteq> from_integral 0 then Inr (False, w, (db, log, stats), activated)
     else
       let activated = fa_plus activated (from_integral (scast (endow (metadata (root (committed_offers w)))))) in
       res_bind (clear_all sellPrice buyPrice tax (node_apply (root (committed_offers w))) (db, log)) (\<lambda>(db, log).
       res_bind (trie_size (root (committed_offers w))) (\<lambda>sz.
       res_bind (get_top_thunk w) (\<lambda>thunk.
       let thunk = (set_no_partial_exec thunk)\<lparr>cleared_offers := committed_offers w\<rparr>
       in Inr (True, set_top_thunk thunk (w\<lparr>committed_offers := trie_clear (committed_offers w)\<rparr>),
               (db, log, count_full sz stats), activated)))))"

definition validate_partial ::
    "SingleWorkUnitStateCommitment \<Rightarrow> price list \<Rightarrow> price \<Rightarrow> price \<Rightarrow> u8 \<Rightarrow> i64 \<Rightarrow> Offer \<Rightarrow> FractionalAsset \<Rightarrow> MerkleWorkUnit \<Rightarrow>
     clearing_state \<Rightarrow> (bool \<times> MerkleWorkUnit \<times> clearing_state \<times> FractionalAsset) res" where
  "validate_partial c prices sellPrice buyPrice tax endow_below offer activated w = (\<lambda>(db, log, stats).
     let k = bytes_key (partialExecThresholdKey c) in
     res_bind (log_self_modification (offer_owner offer) (offerId offer) log) (\<lambda>log.
     case lookup_user_id db (offer_owner offer) of
       None \<Rightarrow> res_bind (trie_insert offer_insert_fn k offer (committed_offers w)) (\<lambda>T.
                 Inr (False, w\<lparr>committed_offers := T\<rparr>, (db, log, stats), activated))
     | Some db_idx \<Rightarrow>
         res_bind (price_of prices (sellAsset (category offer))) (\<lambda>sp.
         res_bind (price_of prices (buyAsset (category offer))) (\<lambda>bp.
         res_bind (clear_offer_partial db_transfer_available offer sp bp tax (partialExecOfferActivationAmount c) db db_idx)
           (\<lambda>(db, sell_amount, buy_amount).
         if offer_amount offer < sell_amount
         then res_bind (trie_insert offer_insert_fn k offer (committed_offers w)) (\<lambda>T.
                Inr (False, w\<lparr>committed_offers := T\<rparr>, (db, log, stats), activated))
         else
           res_bind (get_top_thunk w) (\<lambda>thunk.
           let thunk = set_partial_exec k sell_amount offer thunk in
           res_bind (trie_endow_split endow_below (committed_offers w)) (\<lambda>(cleared, T).
           let thunk = thunk\<lparr>cleared_offers := cleared\<rparr>; w = set_top_thunk thunk (w\<lparr>committed_offers := T\<rparr>) in
           res_bind (clear_all sellPrice buyPrice tax (node_apply (root cleared)) (db, log)) (\<lambda>(db, log).
           res_bind (trie_size (root cleared)) (\<lambda>sz.
           let stats = count_full sz stats; offer' = offer\<lparr>offer_amount := offer_amount offer - sell_amount\<rparr>
           in if offer_amount offer' \<noteq> 0
              then res_bind (trie_insert offer_insert_fn k offer' T) (\<lambda>T'.
                     Inr (True, w\<lparr>committed_offers := T'\<rparr>, (db, log, count_partial stats), activated))
              else Inr (True, w, (db, log, stats), activated))))))))))"

definition tentative_clear_offers_for_validation ::
    "SingleWorkUnitStateCommitment \<Rightarrow> price list \<Rightarrow> u8 \<Rightarrow> MerkleWorkUnit \<Rightarrow> clearing_state \<Rightarrow> FractionalAsset \<Rightarrow>
     (bool \<times> MerkleWorkUnit \<times> clearing_state \<times> FractionalAsset) res" where
  "tentative_clear_offers_for_validation c prices tax w s activated_supply =
     (let k = bytes_key (partialExecThresholdKey c) in
      res_bind (trie_endow_lt_key k (committed_offers w)) (\<lambda>endow_below.
      let activated = fa_plus activated_supply (from_integral (scast endow_below)) in
      res_bind (price_of prices (sellAsset (wu_category w))) (\<lambda>sellPrice.
      res_bind (price_of prices (buyAsset (wu_category w))) (\<lambda>buyPrice.
      res_bind (trie_perform_deletion k (committed_offers w)) (\<lambda>(partial_exec_offer_opt, T).
      let w = w\<lparr>committed_offers := T\<rparr> in
      case partial_exec_offer_opt of
        None \<Rightarrow> validate_no_partial c sellPrice buyPrice tax activated w s
      | Some offer \<Rightarrow> validate_partial c prices sellPrice buyPrice tax endow_below offer activated w s)))))"

end
