(* ===== verification/Book_Split.thy ===== *)
theory Book_Split
  imports Offer_Book
begin

text \<open>
  Books as sorted lists of offers: the amount below a key, the split of a book at an amount, and the
  fact the two sides of a block agree on, that a split at the amount below a key cuts the list at the key.
\<close>

lemma endow_total_amounts:
  assumes "meta_ok (\<lambda>v m. m = offer_metadata v) t"
  shows "endow_total (leaves t) = amounts (contents t)"
proof -
  have "leaf_endow x = sint (offer_amount (fst (snd x)) :: i64)" if "x \<in> set (leaves t)" for x
    using leaves_meta [OF assms that] by simp
  then show ?thesis by (simp add: endow_total_def amounts_def contents_leaves comp_def split_beta cong: map_cong)
qed

lemma amounts_simps [simp]:
  "amounts [] = 0" "amounts ((k, v) # xs) = sint (offer_amount v :: i64) + amounts xs" "amounts (xs @ ys) = amounts xs + amounts ys"
  by (simp_all add: amounts_def)

lemma amounts_nonneg: "\<forall>(k, v) \<in> set xs. 0 < sint (offer_amount v :: i64) \<Longrightarrow> 0 \<le> amounts xs"
  by (induction xs) fastforce+

lemma amounts_filter: "\<forall>(k, v) \<in> set xs. 0 < sint (offer_amount v :: i64) \<Longrightarrow> amounts (filter P xs) \<le> amounts xs"
  by (induction xs) fastforce+

lemma sound_bookD:
  assumes "sound_book T"
  shows "book T" "few_leaves T" "amounts (offer_list T) < 2 ^ 63"
    and "(k, v) \<in> set (offer_list T) \<Longrightarrow> k = key_of v \<and> is_valid_price (minPrice v) \<and> 0 < sint (offer_amount v :: i64)"
    and "(k, v) \<in> set (offer_list T) \<Longrightarrow> offers T k = Some v"
proof -
  show b: "book T" "few_leaves T" "amounts (offer_list T) < 2 ^ 63" using assms by (simp_all add: sound_book_def)
  show some: "(k, v) \<in> set (offer_list T) \<Longrightarrow> offers T k = Some v"
    unfolding offers_offer_list using map_of_eq_Some_iff [OF offer_list_distinct [OF b(1)]] by blast
  show "(k, v) \<in> set (offer_list T) \<Longrightarrow> k = key_of v \<and> is_valid_price (minPrice v) \<and> 0 < sint (offer_amount v :: i64)"
    using some assms unfolding sound_book_def by blast
qed

text \<open>
  Where \<open>endow_split\<close> cuts the list.  The trie split off may have nodes with a single child on the path
  to the first offer that stays, which is the partially executed one; cleaning along its key makes it a book.
\<close>

lemma book_split:
  assumes T: "sound_book T" and thr: "0 \<le> sint threshold" "sint threshold \<le> amounts (offer_list T)"
  shows "\<exists>S T' A B. trie_endow_split threshold T = Inr (S, T') \<and> offer_list T = A @ B \<and> offer_list S = A \<and> offer_list T' = B \<and>
    book T' \<and> amounts A \<le> sint threshold \<and> (B \<noteq> [] \<longrightarrow> sint threshold < amounts A + sint (offer_amount (snd (hd B)) :: i64)) \<and>
    sint (endow (metadata (root S))) = amounts A \<and> trie_size (root S) = Inr (of_nat (length A)) \<and>
    (\<forall>k. length k = 44 \<and> (B \<noteq> [] \<longrightarrow> k = fst (hd B)) \<longrightarrow>
      (\<exists>S'. trie_clean_singlechild_nodes k S = Inr S' \<and> book S' \<and> offer_list S' = A))"
proof -
  let ?L = "\<lambda>v m. m = offer_metadata v \<and> 0 < sint (offer_amount v :: i64)"
  have wf: "wf_trie 44 (root T)" and plain: "meta_ok (\<lambda>v m. m = offer_metadata v) (root T)"
    using sound_bookD(1) [OF T] by (simp_all add: book_def)
  have pos: "0 < sint (offer_amount v :: i64)" if "(k, v) \<in> set (offer_list T)" for k v using sound_bookD(4) [OF T that] by blast
  have mok: "meta_ok ?L (root T)"
  proof -
    have "0 < sint (offer_amount (fst (snd x)) :: i64)" if "x \<in> set (leaves (root T))" for x
      using pos [of "fst x" "fst (snd x)"] that by (force simp: offer_list_def contents_leaves)
    then show ?thesis using plain unfolding meta_ok_iff [of ?L] meta_ok_iff [of "\<lambda>v m. m = offer_metadata v"] by blast
  qed
  have total: "endow_total (leaves (root T)) = amounts (offer_list T)"
    using endow_total_amounts [OF plain] by (simp add: offer_list_def)
  obtain S T' A B where r: "trie_endow_split threshold T = Inr (S, T')" "leaves (root T) = A @ B" "leaves (root S) = A"
    "leaves (root T') = B" "wf_trie 44 (root T')" "meta_ok ?L (root T')" "meta_ok ?L (root S)" "endow_total A \<le> sint threshold"
    "B \<noteq> [] \<longrightarrow> sint threshold < endow_total A + leaf_endow (hd B)"
    "S = empty_trie \<or> wf_node 44 (root S) \<or> B \<noteq> [] \<and> path_loose 44 (fst (hd B)) (root S)"
    using endow_split_correct [OF wf mok _ thr(1), unfolded total, OF _ thr(2)] sound_bookD(3) [OF T] by fastforce
  let ?A = "map drop_md A" and ?B = "map drop_md B"
  have S: "meta_ok (\<lambda>v m. m = offer_metadata v) (root S)" using r(7) by (rule meta_ok_mono) simp
  have amt: "endow_total A = amounts ?A" using endow_total_amounts [OF S] by (simp add: r(3) contents_leaves)
  have lists: "offer_list T = ?A @ ?B" "offer_list S = ?A" "offer_list T' = ?B"
    by (simp_all add: offer_list_def contents_leaves r(2,3,4))
  have posA: "\<forall>x \<in> set A. 0 < leaf_endow x" using leaves_meta [OF r(7)] by (fastforce simp: r(3))
  have amtA: "0 \<le> amounts ?A" "amounts ?A < 2 ^ 63"
    using endow_total_nonneg [OF posA] amt r(8) thr(2) sound_bookD(3) [OF T] by linarith+
  have "metadata (root S) = sum_list (map leaf_md A)" using metadata_leaves [OF S] by (simp add: r(3))
  then have endow: "sint (endow (metadata (root S))) = amounts ?A"
    using endow_exact [OF posA] amtA(2) amt by simp
  have "length (leaves (root T)) < 2 ^ 32"
    using sound_bookD(2) [OF T] few_leaves_iff [OF book_inv(1) [OF sound_bookD(1) [OF T]]] by simp
  then have "length A < 2 ^ 32" by (simp add: r(2))
  then have size: "trie_size (root S) = Inr (of_nat (length ?A))"
    using trie_size_leaves [of "root S"] r(7) meta_ok_mono [OF r(7), of unit_size] by (simp add: r(3))
  have bookT': "book T'" using r(5,6) unfolding book_def by (auto elim: meta_ok_mono)
  have hd: "B \<noteq> [] \<Longrightarrow> hd ?B = drop_md (hd B) \<and> leaf_endow (hd B) = sint (offer_amount (fst (snd (hd B))) :: i64)"
    using leaves_meta [OF r(6), of "hd B"] by (simp add: r(4) hd_map)
  have clean: "\<exists>S'. trie_clean_singlechild_nodes k S = Inr S' \<and> book S' \<and> offer_list S' = ?A"
    if k: "length k = 44" "B \<noteq> [] \<longrightarrow> k = fst (hd B)" for k
    using r(10)
  proof (elim disjE)
    assume S: "S = empty_trie"
    obtain bb where "branch_bits k 0 = Inr bb" using branch_bits_root [of 44 k] k(1) by auto
    then have "trie_clean_singlechild_nodes k S = Inr empty_trie"
      by (simp add: S empty_trie_def make_empty_node_def trie_clean_singlechild_nodes_def child_find_def single_child_def contract_chain.simps)
    moreover have "?A = []" using r(3) by (simp add: S empty_trie_def)
    moreover have "offer_list empty_trie = []" by (simp add: offer_list_def empty_trie_def contents_leaves)
    ultimately show ?thesis by (intro exI [of _ empty_trie]) (simp add: book_empty(1))
  next
    assume w: "wf_node 44 (root S)"
    have "trie_clean_singlechild_nodes k S = Inr \<lparr>root = root S, root_hash = None\<rparr>"
      using clean_wf [OF w k(1)] w by (simp add: trie_clean_singlechild_nodes_def)
    moreover have "book \<lparr>root = root S, root_hash = None\<rparr>" using S w by (simp add: book_def wf_trie_def)
    ultimately show ?thesis using lists(2) by (intro exI [of _ "\<lparr>root = root S, root_hash = None\<rparr>"]) (simp add: offer_list_def)
  next
    assume l: "B \<noteq> [] \<and> path_loose 44 (fst (hd B)) (root S)"
    then have "path_loose 44 k (root S)" using k(2) by simp
    then obtain t' where t': "trie_clean_singlechild_nodes k \<lparr>root = root S, root_hash = root_hash S\<rparr> = Inr \<lparr>root = t', root_hash = None\<rparr>"
      "wf_trie 44 t'" "leaves t' = leaves (root S)" "meta_ok (\<lambda>v m. m = offer_metadata v) t'"
      using S clean_correct [of 44 "root S" k "root_hash S"] k(1) by auto
    moreover have "\<lparr>root = root S, root_hash = root_hash S\<rparr> = S" by simp
    ultimately show ?thesis
      using lists(2) by (intro exI [of _ "\<lparr>root = t', root_hash = None\<rparr>"]) (simp add: book_def offer_list_def contents_leaves)
  qed
  show ?thesis
    using r(1,8,9) lists bookT' amt endow size clean hd
    by (intro exI [of _ S] exI [of _ T'] exI [of _ ?A] exI [of _ ?B]) (auto simp: contents_leaves)
qed

section \<open>Lists and maps\<close>

lemma offer_list_unique:
  assumes "book T" "sorted_wrt key_less (map fst xs)" "map_of xs = offers T"
  shows "offer_list T = xs"
  using ascending_unique [of "offer_list T" xs] offer_list_sorted [OF assms(1)] assms by (simp add: ascending_def offers_offer_list)

lemma sorted_middle:
  assumes "sorted_wrt key_less (map fst (A @ (k, v) # B))"
  shows "filter (\<lambda>x. key_less (fst x) k) (A @ (k, v) # B) = A" "sorted_wrt key_less (map fst (A @ B))"
    "map_of (A @ B) = (map_of (A @ (k, v) # B))(k := None)" "sorted_wrt key_less (map fst (A @ (k, w) # B))"
proof -
  have A: "\<forall>x \<in> set A. key_less (fst x) k" and B: "\<forall>x \<in> set B. key_less k (fst x)"
    using assms by (auto simp: sorted_wrt_append)
  have notB: "\<forall>x \<in> set B. \<not> key_less (fst x) k" using B key_less_asym by blast
  show "filter (\<lambda>x. key_less (fst x) k) (A @ (k, v) # B) = A" using A notB by (simp add: filter_empty_conv filter_id_conv)
  show "sorted_wrt key_less (map fst (A @ B))" "sorted_wrt key_less (map fst (A @ (k, w) # B))"
    using assms by (auto simp: sorted_wrt_append)
  have "k \<notin> fst ` set A" "k \<notin> fst ` set B" using A B by auto
  then have "map_of A k = None" "map_of B k = None" by (simp_all add: map_of_eq_None_iff)
  then show "map_of (A @ B) = (map_of (A @ (k, v) # B))(k := None)"
    by (auto simp: fun_eq_iff map_add_def split: option.split)
qed

text \<open>Two cuts of one list at the same amount are the same.\<close>

lemma cut_unique:
  assumes pos: "\<forall>(k, v) \<in> set (C @ D). 0 < sint (offer_amount v :: i64)" and eq: "A @ B = C @ D"
    and A: "amounts A \<le> amounts C" and B: "B \<noteq> [] \<longrightarrow> amounts C < amounts A + sint (offer_amount (snd (hd B)) :: i64)"
  shows "A = C \<and> B = D"
proof -
  obtain us where "A = C @ us \<and> us @ B = D \<or> A @ us = C \<and> B = us @ D"
    using eq unfolding append_eq_append_conv2 by blast
  then show ?thesis
  proof (elim disjE conjE)
    assume us: "A = C @ us" "us @ B = D"
    show ?thesis
    proof (cases us)
      case (Cons x xs)
      then have "0 < sint (offer_amount (snd x) :: i64)" "\<forall>(k, v) \<in> set xs. 0 < sint (offer_amount v :: i64)" using us pos by auto
      then show ?thesis using us A Cons amounts_nonneg [of xs] by (cases x) simp
    qed (use us in simp)
  next
    assume us: "A @ us = C" "B = us @ D"
    show ?thesis
    proof (cases us)
      case (Cons x xs)
      then have "\<forall>(k, v) \<in> set xs. 0 < sint (offer_amount v :: i64)" using us pos by auto
      then have "0 \<le> amounts xs" by (rule amounts_nonneg)
      moreover have "amounts C = amounts A + sint (offer_amount (snd x) :: i64) + amounts xs"
        unfolding us(1) [symmetric] Cons by (cases x) simp
      ultimately show ?thesis using us B Cons by simp
    qed (use us in simp)
  qed
qed

lemma sound_sub_book:
  assumes "sound_book T" "book T'" "offers T' = (offers T)(k := None)"
  shows "sound_book T'" "offer_list T = A @ (k, v) # B \<Longrightarrow> offer_list T' = A @ B"
    "offers T k = None \<Longrightarrow> offer_list T' = offer_list T"
proof -
  note T = sound_bookD [OF assms(1)]
  show lst: "offer_list T' = A @ B" if eq: "offer_list T = A @ (k, v) # B" for A v B
  proof (rule offer_list_unique [OF assms(2)])
    note s = sorted_middle [of A k v B, folded eq, OF offer_list_sorted [OF T(1)]]
    show "sorted_wrt key_less (map fst (A @ B))" by (rule s(2))
    show "map_of (A @ B) = offers T'" unfolding s(3) assms(3) offers_offer_list [of T] ..
  qed
  show same: "offer_list T' = offer_list T" if "offers T k = None"
    by (rule offer_list_unique [OF assms(2) offer_list_sorted [OF T(1)]])
      (use that in \<open>simp add: assms(3) fun_upd_idem flip: offers_offer_list\<close>)
  have "amounts (offer_list T') \<le> amounts (offer_list T)"
  proof (cases "offers T k")
    case (Some v)
    then have "(k, v) \<in> set (offer_list T)" unfolding offers_offer_list by (rule map_of_SomeD)
    then obtain A B where eq: "offer_list T = A @ (k, v) # B" by (meson split_list)
    then have "0 < sint (offer_amount v :: i64)" using T(4) [of k v] by simp
    then show ?thesis using lst [OF eq] by (simp add: eq)
  qed (simp add: same)
  moreover have "few_leaves T'"
    by (rule few_within [OF book_inv(1) [OF assms(2)], of "dom (offers T)"])
      (use T(1,2) few_offers [OF book_inv(1) [OF T(1)]] finite_offers [OF book_inv(1) [OF T(1)]] in \<open>auto simp: assms(3)\<close>)
  ultimately show "sound_book T'"
    using T(3) assms(1,2) by (auto simp: sound_book_def assms(3) split: if_split_asm)
qed

section \<open>The amount below a key\<close>

lemma book_endow_below:
  assumes T: "sound_book T" and k: "length k = 44"
  shows "\<exists>e. trie_endow_lt_key k T = Inr e \<and> sint e = amounts (filter (\<lambda>x. key_less (fst x) k) (offer_list T))"
proof -
  let ?C = "lt_leaves k (root T)"
  have wf: "wf_trie 44 (root T)" and plain: "meta_ok (\<lambda>v m. m = offer_metadata v) (root T)"
    using sound_bookD(1) [OF T] by (simp_all add: book_def)
  have md: "leaf_md x = offer_metadata (fst (snd x))" if "x \<in> set (leaves (root T))" for x using leaves_meta [OF plain that] .
  have list: "offer_list T = map drop_md (leaves (root T))" by (simp add: offer_list_def contents_leaves)
  have filter: "filter (\<lambda>x. key_less (fst x) k) (offer_list T) = map drop_md ?C"
    by (simp add: list lt_leaves_def filter_map comp_def)
  have leaf: "leaf_endow x = sint (offer_amount (fst (snd x)) :: i64) \<and> 0 < leaf_endow x" if "x \<in> set (leaves (root T))" for x
  proof -
    have "(fst x, fst (snd x)) \<in> set (offer_list T)" using that by (force simp: list)
    then show ?thesis using sound_bookD(4) [OF T] md [OF that] by simp
  qed
  have C: "set ?C \<subseteq> set (leaves (root T))" by (auto simp: lt_leaves_def)
  have amt: "endow_total ?C = amounts (map drop_md ?C)"
  proof -
    have "map leaf_endow ?C = map (\<lambda>x. sint (offer_amount (fst (snd x)) :: i64)) ?C" using leaf C by (intro map_cong refl) blast
    then show ?thesis unfolding endow_total_def by (simp add: amounts_def comp_def split_beta del: map_eq_conv)
  qed
  have "amounts (filter P (offer_list T)) \<le> amounts (offer_list T)" for P
  proof -
    have "\<forall>(k, v) \<in> set (offer_list T). 0 < sint (offer_amount v :: i64)" using sound_bookD(4) [OF T] by blast
    then show ?thesis by (rule amounts_filter)
  qed
  then have "endow_total ?C < 2 ^ 63" using sound_bookD(3) [OF T] amt filter by (metis le_less_trans)
  then have "sint (endow (sum_list (map leaf_md ?C))) = amounts (map drop_md ?C)"
  proof -
    have "\<forall>x \<in> set ?C. 0 < leaf_endow x" using leaf C by blast
    then show ?thesis using endow_exact [of ?C] \<open>endow_total ?C < 2 ^ 63\<close> amt by simp
  qed
  then show ?thesis
    using endow_lt_key_root [OF wf plain k] by (simp add: trie_endow_lt_key_def endow_of_sum filter)
qed

lemma book_lowest_key:
  assumes "book T"
  shows "node_get_lowest_key (root T) = (case offer_list T of [] \<Rightarrow> None | x # xs \<Rightarrow> Some (fst x))"
  using assms unfolding book_def offer_list_def
proof (elim conjE wf_trie_cases)
  assume "is_empty_node (root T)"
  then obtain h where "root T = Inner [] [] 0 h" using empty_node_cases by blast
  then show "node_get_lowest_key (root T) = (case contents (root T) of [] \<Rightarrow> None | x # xs \<Rightarrow> Some (fst x))" by simp
next
  assume wf: "wf_node 44 (root T)"
  then have "contents (root T) \<noteq> []" by (rule wf_node_contents_nonempty)
  then show "node_get_lowest_key (root T) = (case contents (root T) of [] \<Rightarrow> None | x # xs \<Rightarrow> Some (fst x))"
    using node_get_lowest_key_correct [OF wf] by (cases "contents (root T)") simp_all
qed

lemma sound_book_same:
  assumes "sound_book T" "book T'" "offer_list T' = offer_list T"
  shows "sound_book T'"
proof -
  have "few_leaves T'"
    using few_offers [OF book_inv(1) [OF assms(2)]] few_offers [OF book_inv(1) [OF sound_bookD(1) [OF assms(1)]]] sound_bookD(2) [OF assms(1)]
    by (simp add: offers_offer_list assms(3))
  then show ?thesis using assms unfolding sound_book_def offers_offer_list assms(3) by blast
qed

end
