(* ===== verification/Database_View.thy ===== *)
theory Database_View
  imports Memory_Database "HOL-Library.AList"
begin

text \<open>
  Views of the database, \<^verbatim>\<open>memory_database_view.h\<close> and \<^verbatim>\<open>memory_database_view.cc\<close>: the
  effects of one transaction before it is known to succeed.  Money that leaves an account is taken from the
  database at once and remembered as a side effect; money that enters it is buffered until the view
  is committed.  A view holds a reference to the database, so every operation takes and returns both.
  The unordered maps are association lists with distinct keys; their iteration order is the order
  of insertion, on which no result depends.
\<close>

section \<open>One account\<close>

record UserAccountView =
  available_buffer :: "(AssetID \<times> i64) list"
  available_side_effects :: "(AssetID \<times> i64) list"

definition new_account_view :: UserAccountView where
  "new_account_view = \<lparr>available_buffer = [], available_side_effects = []\<rparr>"

definition entry :: "('k \<times> i64) list \<Rightarrow> 'k \<Rightarrow> i64" where
  "entry xs k = (case map_of xs k of None \<Rightarrow> 0 | Some v \<Rightarrow> v)"

text \<open>\<open>m[k]\<close> inserts a zero when there is no entry; \<open>m[k] = v\<close> then overwrites it.\<close>

abbreviation assign :: "'k \<Rightarrow> i64 \<Rightarrow> ('k \<times> i64) list \<Rightarrow> ('k \<times> i64) list" where
  "assign \<equiv> AList.update"

definition view_conditional_escrow ::
    "AssetID \<Rightarrow> i64 \<Rightarrow> UserAccount \<times> UserAccountView \<Rightarrow> TransactionProcessingStatus \<times> UserAccount \<times> UserAccountView" where
  "view_conditional_escrow asset amount = (\<lambda>(main, v).
     if is_negative amount
     then (SUCCESS, main,
           v\<lparr>available_buffer := assign asset (entry (available_buffer v) asset - amount) (available_buffer v)\<rparr>)
     else
       let current_available_buffer = entry (available_buffer v) asset;
           v = v\<lparr>available_buffer := assign asset current_available_buffer (available_buffer v)\<rparr>;
           new_buffer = current_available_buffer - amount
       in if is_negative new_buffer
          then let (main', result) = acct_conditional_escrow main asset (- new_buffer)
               in if \<not> result then (INSUFFICIENT_BALANCE, main', v)
                  else (SUCCESS, main',
                        v\<lparr>available_side_effects := assign asset (entry (available_side_effects v) asset + new_buffer)
                             (available_side_effects v),
                          available_buffer := assign asset 0 (available_buffer v)\<rparr>)
          else (SUCCESS, main, v\<lparr>available_buffer := assign asset new_buffer (available_buffer v)\<rparr>))"

definition view_transfer_available ::
    "AssetID \<Rightarrow> i64 \<Rightarrow> UserAccount \<times> UserAccountView \<Rightarrow> TransactionProcessingStatus \<times> UserAccount \<times> UserAccountView" where
  "view_transfer_available asset amount = (\<lambda>(main, v).
     let current_buffer = entry (available_buffer v) asset;
         v = v\<lparr>available_buffer := assign asset current_buffer (available_buffer v)\<rparr>;
         new_buffer = current_buffer + amount
     in if is_negative new_buffer
        then let (main', result) = acct_conditional_transfer_available main asset new_buffer
             in if \<not> result then (INSUFFICIENT_BALANCE, main', v)
                else (SUCCESS, main',
                      v\<lparr>available_side_effects := assign asset (entry (available_side_effects v) asset + new_buffer)
                           (available_side_effects v),
                        available_buffer := assign asset 0 (available_buffer v)\<rparr>)
        else (SUCCESS, main, v\<lparr>available_buffer := assign asset new_buffer (available_buffer v)\<rparr>))"

definition view_lookup_available_balance ::
    "AssetID \<Rightarrow> UserAccount \<times> UserAccountView \<Rightarrow> i64 \<times> UserAccount \<times> UserAccountView" where
  "view_lookup_available_balance asset = (\<lambda>(main, v).
     let (main', balance) = acct_lookup_available_balance main asset; b = entry (available_buffer v) asset
     in (balance + b, main', v\<lparr>available_buffer := assign asset b (available_buffer v)\<rparr>))"

definition view_commit :: "UserAccount \<times> UserAccountView \<Rightarrow> UserAccount" where
  "view_commit = (\<lambda>(main, v).
     fold (\<lambda>(asset, amount) u. acct_transfer_available u asset amount) (available_buffer v) main)"

definition view_unwind :: "UserAccount \<times> UserAccountView \<Rightarrow> UserAccount" where
  "view_unwind = (\<lambda>(main, v).
     fold (\<lambda>(asset, amount) u. acct_transfer_available u asset (- amount)) (available_side_effects v) main)"

section \<open>Views of the database\<close>

record AccountCreationView =
  db_size :: nat
  new_accounts :: "(account_db_idx \<times> AccountID \<times> UserAccount) list"
  temporary_idxs :: "(AccountID \<times> account_db_idx) list"

record BufferedMemoryDatabaseView = AccountCreationView +
  accounts :: "(account_db_idx \<times> UserAccountView) list"

definition new_creation_view :: "MemoryDatabase \<Rightarrow> AccountCreationView" where
  "new_creation_view db = \<lparr>db_size = length (database db), new_accounts = [], temporary_idxs = []\<rparr>"

definition new_buffered_view :: "MemoryDatabase \<Rightarrow> BufferedMemoryDatabaseView" where
  "new_buffered_view db = \<lparr>db_size = length (database db), new_accounts = [], temporary_idxs = [], accounts = []\<rparr>"

text \<open>An operation on a new account; dereferencing a failed \<open>find\<close> is undefined.\<close>

definition on_new_account ::
    "account_db_idx \<Rightarrow> (UserAccount \<Rightarrow> UserAccount \<times> 'r) \<Rightarrow> 'x AccountCreationView_scheme \<Rightarrow> ('r \<times> 'x AccountCreationView_scheme) res" where
  "on_new_account account f v =
     (case map_of (new_accounts v) account of
        None \<Rightarrow> Inl Undefined
      | Some (owner, u) \<Rightarrow>
          let (u', r) = f u in Inr (r, v\<lparr>new_accounts := AList.update account (owner, u') (new_accounts v)\<rparr>))"

definition get_existing_account ::
    "MemoryDatabase \<Rightarrow> account_db_idx \<Rightarrow> BufferedMemoryDatabaseView \<Rightarrow> (UserAccountView \<times> BufferedMemoryDatabaseView) res" where
  "get_existing_account db account v =
     (case map_of (accounts v) account of
        Some uv \<Rightarrow> Inr (uv, v)
      | None \<Rightarrow> res_bind (find_account db account) (\<lambda>u.
          Inr (new_account_view, v\<lparr>accounts := AList.update account new_account_view (accounts v)\<rparr>)))"

definition on_existing_account ::
    "account_db_idx \<Rightarrow> (UserAccount \<times> UserAccountView \<Rightarrow> TransactionProcessingStatus \<times> UserAccount \<times> UserAccountView) \<Rightarrow>
     MemoryDatabase \<times> BufferedMemoryDatabaseView \<Rightarrow> (TransactionProcessingStatus \<times> MemoryDatabase \<times> BufferedMemoryDatabaseView) res" where
  "on_existing_account account f = (\<lambda>(db, v).
     res_bind (get_existing_account db account v) (\<lambda>(uv, v').
     res_bind (find_account db account) (\<lambda>u.
       let (status, u', uv') = f (u, uv)
       in Inr (status, put_account account u' db, v'\<lparr>accounts := AList.update account uv' (accounts v')\<rparr>))))"

definition buffered_escrow ::
    "account_db_idx \<Rightarrow> AssetID \<Rightarrow> i64 \<Rightarrow> MemoryDatabase \<times> BufferedMemoryDatabaseView \<Rightarrow>
     (TransactionProcessingStatus \<times> MemoryDatabase \<times> BufferedMemoryDatabaseView) res" where
  "buffered_escrow account asset amount = (\<lambda>(db, v).
     if db_size v \<le> account
     then res_bind (on_new_account account (\<lambda>u. acct_conditional_escrow u asset amount) v) (\<lambda>(status, v').
            Inr (if status then SUCCESS else INSUFFICIENT_BALANCE, db, v'))
     else on_existing_account account (view_conditional_escrow asset amount) (db, v))"

definition buffered_transfer_available ::
    "account_db_idx \<Rightarrow> AssetID \<Rightarrow> i64 \<Rightarrow> MemoryDatabase \<times> BufferedMemoryDatabaseView \<Rightarrow>
     (TransactionProcessingStatus \<times> MemoryDatabase \<times> BufferedMemoryDatabaseView) res" where
  "buffered_transfer_available account asset amount = (\<lambda>(db, v).
     if db_size v \<le> account
     then res_bind (on_new_account account (\<lambda>u. acct_conditional_transfer_available u asset amount) v) (\<lambda>(status, v').
            if status then Inr (SUCCESS, db, v')
            else Inl (Runtime_error ''we passed an index out of db view that doesn't actually exist! error in memory_database_view.cc''))
     else on_existing_account account (view_transfer_available asset amount) (db, v))"

definition creation_commit :: "MemoryDatabase \<Rightarrow> 'x AccountCreationView_scheme \<Rightarrow> MemoryDatabase" where
  "creation_commit db v = fold (\<lambda>(i, owner, u) db. commit_account_creation owner u db) (new_accounts v) db"

text \<open>Each account view holds a reference to its account, which \<open>commit\<close> and \<open>unwind\<close> update.\<close>

definition finish_accounts ::
    "(UserAccount \<times> UserAccountView \<Rightarrow> UserAccount) \<Rightarrow> (account_db_idx \<times> UserAccountView) list \<Rightarrow> MemoryDatabase \<Rightarrow> MemoryDatabase" where
  "finish_accounts finish = fold (\<lambda>(i, uv) db. put_account i (finish (database db ! i, uv)) db)"

definition buffered_commit :: "MemoryDatabase \<times> BufferedMemoryDatabaseView \<Rightarrow> MemoryDatabase" where
  "buffered_commit = (\<lambda>(db, v). creation_commit (finish_accounts view_commit (accounts v) db) v)"

text \<open>\<open>unwind\<close> releases the database index of each new account where its identifier was reserved.\<close>

definition buffered_unwind :: "MemoryDatabase \<times> BufferedMemoryDatabaseView \<Rightarrow> MemoryDatabase" where
  "buffered_unwind = (\<lambda>(db, v).
     fold (\<lambda>(i, owner, u). release_account_creation (of_nat i)) (new_accounts v)
       (finish_accounts view_unwind (accounts v) db))"

definition unbuffered_escrow ::
    "account_db_idx \<Rightarrow> AssetID \<Rightarrow> i64 \<Rightarrow> MemoryDatabase \<times> AccountCreationView \<Rightarrow>
     (TransactionProcessingStatus \<times> MemoryDatabase \<times> AccountCreationView) res" where
  "unbuffered_escrow account asset amount = (\<lambda>(db, v).
     if account < db_size v
     then res_bind (db_escrow db account asset amount) (\<lambda>db'. Inr (SUCCESS, db', v))
     else res_bind (on_new_account account (\<lambda>u. (acct_escrow u asset amount, ())) v) (\<lambda>(_, v'). Inr (SUCCESS, db, v')))"

definition unbuffered_transfer_available ::
    "account_db_idx \<Rightarrow> AssetID \<Rightarrow> i64 \<Rightarrow> MemoryDatabase \<times> AccountCreationView \<Rightarrow>
     (TransactionProcessingStatus \<times> MemoryDatabase \<times> AccountCreationView) res" where
  "unbuffered_transfer_available account asset amount = (\<lambda>(db, v).
     if account < db_size v
     then res_bind (db_transfer_available db account asset amount) (\<lambda>db'. Inr (SUCCESS, db', v))
     else res_bind (on_new_account account (\<lambda>u. (acct_transfer_available u asset amount, ())) v) (\<lambda>(_, v'). Inr (SUCCESS, db, v')))"

definition view_lookup_user_id :: "MemoryDatabase \<times> 'x AccountCreationView_scheme \<Rightarrow> AccountID \<Rightarrow> account_db_idx option" where
  "view_lookup_user_id = (\<lambda>(db, v) account.
     case lookup_user_id db account of Some i \<Rightarrow> Some i | None \<Rightarrow> map_of (temporary_idxs v) account)"

text \<open>\<open>emplace\<close> on the two maps keeps an entry that is already there.\<close>

definition emplace :: "'k \<Rightarrow> 'a \<Rightarrow> ('k \<times> 'a) list \<Rightarrow> ('k \<times> 'a) list" where
  "emplace k x xs = (case map_of xs k of None \<Rightarrow> AList.update k x xs | Some y \<Rightarrow> xs)"

definition create_new_account ::
    "AccountID \<Rightarrow> PublicKey \<Rightarrow> MemoryDatabase \<times> 'x AccountCreationView_scheme \<Rightarrow>
     (TransactionProcessingStatus \<times> account_db_idx) \<times> MemoryDatabase \<times> 'x AccountCreationView_scheme" where
  "create_new_account account pk = (\<lambda>(db, v).
     let (db', status) = reserve_account_creation db account
     in if status \<noteq> SUCCESS then ((status, 0), db', v)
        else let new_idx = length (temporary_idxs v) + db_size v
             in ((SUCCESS, new_idx), db',
                 v\<lparr>temporary_idxs := emplace account new_idx (temporary_idxs v),
                   new_accounts := emplace new_idx (account, new_user_account account pk) (new_accounts v)\<rparr>))"

text \<open>The view with unlimited money, used by the experiments, first credits what is about to be taken.\<close>

definition credit_account ::
    "account_db_idx \<Rightarrow> AssetID \<Rightarrow> i64 \<Rightarrow> MemoryDatabase \<times> BufferedMemoryDatabaseView \<Rightarrow>
     (TransactionProcessingStatus \<times> MemoryDatabase \<times> BufferedMemoryDatabaseView) res" where
  "credit_account account asset amount = (\<lambda>(db, v).
     if db_size v \<le> account
     then res_bind (on_new_account account (\<lambda>u. (acct_transfer_available u asset amount, ())) v) (\<lambda>(_, v'). Inr (SUCCESS, db, v'))
     else on_existing_account account (view_transfer_available asset amount) (db, v))"

definition unlimited_escrow ::
    "account_db_idx \<Rightarrow> AssetID \<Rightarrow> i64 \<Rightarrow> MemoryDatabase \<times> BufferedMemoryDatabaseView \<Rightarrow>
     (TransactionProcessingStatus \<times> MemoryDatabase \<times> BufferedMemoryDatabaseView) res" where
  "unlimited_escrow account asset amount s =
     res_bind (if 0 < sint amount then credit_account account asset amount s else Inr (SUCCESS, s)) (\<lambda>(_, s').
       buffered_escrow account asset amount s')"

definition unlimited_transfer_available ::
    "account_db_idx \<Rightarrow> AssetID \<Rightarrow> i64 \<Rightarrow> MemoryDatabase \<times> BufferedMemoryDatabaseView \<Rightarrow>
     (TransactionProcessingStatus \<times> MemoryDatabase \<times> BufferedMemoryDatabaseView) res" where
  "unlimited_transfer_available account asset amount s =
     res_bind (if is_negative amount then credit_account account asset (- amount) s else Inr (SUCCESS, s)) (\<lambda>(_, s').
       buffered_transfer_available account asset amount s')"

section \<open>The contract of a view\<close>

text \<open>
  A speculative store has two balances for each key: \<open>total\<close>, what the view sees, and \<open>base\<close>, what
  there was when it was opened.  A move that succeeds changes the total of its key by the
  amount and no other; one that fails changes none; \<open>base\<close> never changes.  Committing makes the
  totals the balances, unwinding restores the base.
\<close>

locale speculative_store =
  fixes inv :: "'s \<Rightarrow> bool" and has :: "'s \<Rightarrow> 'k \<Rightarrow> bool" and total :: "'s \<Rightarrow> 'k \<Rightarrow> i64" and base :: "'s \<Rightarrow> 'k \<Rightarrow> i64"
    and move :: "'k \<Rightarrow> i64 \<Rightarrow> 's \<Rightarrow> (TransactionProcessingStatus \<times> 's) res"
    and commit :: "'s \<Rightarrow> 'm" and unwind :: "'s \<Rightarrow> 'm" and balance :: "'m \<Rightarrow> 'k \<Rightarrow> i64"
  assumes move_inv: "inv s \<Longrightarrow> has s k \<Longrightarrow> move k x s = Inr (st, s') \<Longrightarrow> inv s' \<and> has s' = has s"
    and move_total: "inv s \<Longrightarrow> has s k \<Longrightarrow> move k x s = Inr (st, s') \<Longrightarrow>
      total s' j = (if j = k \<and> st = SUCCESS then total s k + x else total s j)"
    and move_base: "inv s \<Longrightarrow> has s k \<Longrightarrow> move k x s = Inr (st, s') \<Longrightarrow> base s' j = base s j"
    and commit_balance: "inv s \<Longrightarrow> has s k \<Longrightarrow> balance (commit s) k = total s k"
    and unwind_balance: "inv s \<Longrightarrow> has s k \<Longrightarrow> balance (unwind s) k = base s k"
begin

text \<open>Moves one after the other, up to the first that fails.\<close>

fun run_moves :: "('k \<times> i64) list \<Rightarrow> 's \<Rightarrow> (TransactionProcessingStatus \<times> 's) res" where
  "run_moves [] s = Inr (SUCCESS, s)"
| "run_moves ((k, x) # xs) s =
     res_bind (move k x s) (\<lambda>(st, s'). if st = SUCCESS then run_moves xs s' else Inr (st, s'))"

lemma run_moves_spec:
  assumes "inv s" "\<forall>(k, x) \<in> set xs. has s k" "run_moves xs s = Inr (st, s')"
  shows "inv s'" "has s' = has s" "base s' j = base s j"
    and "st = SUCCESS \<Longrightarrow> total s' j = total s j + (\<Sum>(k, x) \<leftarrow> xs. if k = j then x else 0)"
proof -
  have "inv s' \<and> has s' = has s \<and> base s' j = base s j \<and>
    (st = SUCCESS \<longrightarrow> total s' j = total s j + (\<Sum>(k, x) \<leftarrow> xs. if k = j then x else 0))"
    using assms
  proof (induction xs arbitrary: s)
    case (Cons y ys)
    obtain k x where y: "y = (k, x)" by (cases y)
    obtain st1 s1 where s1: "move k x s = Inr (st1, s1)" using Cons.prems(3) by (auto simp: y)
    have k: "has s k" using Cons.prems(2) by (simp add: y)
    note inv1 = move_inv [OF Cons.prems(1) k s1] and laws = move_total [OF Cons.prems(1) k s1, of j] move_base [OF Cons.prems(1) k s1, of j]
    show ?case
    proof (cases "st1 = SUCCESS")
      case True
      then have "run_moves ys s1 = Inr (st, s')" using Cons.prems(3) s1 by (simp add: y)
      moreover have "\<forall>(k, x) \<in> set ys. has s1 k" using Cons.prems(2) inv1 by simp
      ultimately show ?thesis using Cons.IH [of s1] inv1 laws True by (auto simp: y)
    next
      case False
      then show ?thesis using Cons.prems(3) s1 inv1 laws by (auto simp: y)
    qed
  qed simp
  then show "inv s'" "has s' = has s" "base s' j = base s j"
    "st = SUCCESS \<Longrightarrow> total s' j = total s j + (\<Sum>(k, x) \<leftarrow> xs. if k = j then x else 0)" by blast+
qed

text \<open>Whatever happened in between, unwinding restores the balances the view started from.\<close>

lemma moves_unwind:
  assumes "inv s" "\<forall>(k, x) \<in> set xs. has s k" "run_moves xs s = Inr (st, s')" "has s j"
  shows "balance (unwind s') j = base s j"
  using run_moves_spec(1,2) [OF assms(1-3)] run_moves_spec(3) [OF assms(1-3), of j] assms(4) unwind_balance by simp

lemma moves_commit:
  assumes "inv s" "\<forall>(k, x) \<in> set xs. has s k" "run_moves xs s = Inr (SUCCESS, s')" "has s j"
  shows "balance (commit s') j = total s j + (\<Sum>(k, x) \<leftarrow> xs. if k = j then x else 0)"
  using run_moves_spec(1,2) [OF assms(1-3)] run_moves_spec(4) [OF assms(1-3), of j] assms(4) commit_balance by simp

end

section \<open>One account: the contract\<close>

lemma entry_assign [simp]: "entry (assign k v xs) j = (if j = k then v else entry xs j)"
  by (simp add: entry_def update_conv')

lemma entry_Nil [simp]: "entry [] k = 0"
  by (simp add: entry_def)

lemma fold_transfer_balance:
  assumes "distinct (map fst xs)"
  shows "acct_balance (fold (\<lambda>(a, x) u. acct_transfer_available u a (f x)) xs u) b =
    acct_balance u b + (case map_of xs b of None \<Rightarrow> 0 | Some x \<Rightarrow> f x)"
  using assms
proof (induction xs arbitrary: u)
  case (Cons y ys)
  obtain a x where y: "y = (a, x)" by (cases y)
  have "a = b \<Longrightarrow> map_of ys b = None" using Cons.prems by (auto simp: y map_of_eq_None_iff)
  then show ?case using Cons by (auto simp: y account.balance_transfer)
qed simp

definition view_ok :: "UserAccountView \<Rightarrow> bool" where
  "view_ok v \<longleftrightarrow> distinct (map fst (available_buffer v)) \<and> distinct (map fst (available_side_effects v))"

definition view_total :: "UserAccount \<times> UserAccountView \<Rightarrow> AssetID \<Rightarrow> i64" where
  "view_total s a = acct_balance (fst s) a + entry (available_buffer (snd s)) a"

definition view_base :: "UserAccount \<times> UserAccountView \<Rightarrow> AssetID \<Rightarrow> i64" where
  "view_base s a = acct_balance (fst s) a - entry (available_side_effects (snd s)) a"

lemma view_commit_balance: "view_ok (snd s) \<Longrightarrow> acct_balance (view_commit s) a = view_total s a"
  using fold_transfer_balance [of "available_buffer (snd s)" "\<lambda>x. x" "fst s" a]
  by (cases s) (simp add: view_commit_def view_ok_def view_total_def entry_def split: option.split)

lemma view_unwind_balance: "view_ok (snd s) \<Longrightarrow> acct_balance (view_unwind s) a = view_base s a"
  using fold_transfer_balance [of "available_side_effects (snd s)" uminus "fst s" a]
  by (cases s) (simp add: view_unwind_def view_ok_def view_base_def entry_def split: option.split)

lemma cond_transfer_pair:
  "acct_conditional_transfer_available u asset x = (u', ok) \<Longrightarrow>
   acct_balance u' b = (if b = asset \<and> ok then acct_balance u asset + x else acct_balance u b)"
  using account.balance_cond_transfer [of u asset x b] by simp

lemma cond_escrow_pair:
  assumes "acct_conditional_escrow u asset x = (u', ok)"
  shows "acct_balance u' b = (if b = asset \<and> ok then acct_balance u asset - x else acct_balance u b)"
proof -
  have "acct_balance (fst (acct_conditional_escrow u asset x)) b =
     (if b = asset \<and> snd (acct_conditional_escrow u asset x) then acct_balance u asset - x else acct_balance u b)"
    unfolding acct_conditional_escrow_eq account.cond_escrow_def
    by (auto simp: account.balance_transfer account.balance_cond_transfer)
  then show ?thesis by (simp add: assms)
qed

text \<open>The two operations that move money, as moves of the contract.\<close>

lemma view_transfer_laws:
  assumes "view_transfer_available asset x s = (st, s')" "view_ok (snd s)"
  shows "view_ok (snd s') \<and> view_base s' b = view_base s b \<and>
    view_total s' b = (if b = asset \<and> st = SUCCESS then view_total s asset + x else view_total s b)"
proof -
  obtain u v where s: "s = (u, v)" by (cases s)
  obtain u' ok where c: "acct_conditional_transfer_available u asset (entry (available_buffer v) asset + x) = (u', ok)" by force
  show ?thesis
    using assms cond_transfer_pair [OF c, of b] c
    by (auto simp: s view_transfer_available_def Let_def view_ok_def view_total_def view_base_def distinct_update split: if_splits)
qed

lemma view_escrow_laws:
  assumes "view_conditional_escrow asset x s = (st, s')" "view_ok (snd s)"
  shows "view_ok (snd s') \<and> view_base s' b = view_base s b \<and>
    view_total s' b = (if b = asset \<and> st = SUCCESS then view_total s asset - x else view_total s b)"
proof -
  obtain u v where s: "s = (u, v)" by (cases s)
  obtain u' ok where c: "acct_conditional_escrow u asset (- (entry (available_buffer v) asset - x)) = (u', ok)" by force
  show ?thesis
    using assms cond_escrow_pair [OF c, of b] c
    by (auto simp: s view_conditional_escrow_def Let_def view_ok_def view_total_def view_base_def distinct_update split: if_splits)
qed

interpretation account_view: speculative_store "\<lambda>s. view_ok (snd s)" "\<lambda>s a. True" view_total view_base
    "\<lambda>a x s. Inr (view_transfer_available a x s)" view_commit view_unwind acct_balance
proof unfold_locales
  fix s s' a x st j
  assume "view_ok (snd s)" "Inr (view_transfer_available a x s) = Inr (st, s')"
  then show "view_total s' j = (if j = a \<and> st = SUCCESS then view_total s a + x else view_total s j)"
    "view_base s' j = view_base s j" "view_ok (snd s') \<and> (\<lambda>a. True) = (\<lambda>a. True)"
    using view_transfer_laws [of a x s st s' j] by simp_all
qed (simp_all add: view_commit_balance view_unwind_balance)

interpretation escrow_view: speculative_store "\<lambda>s. view_ok (snd s)" "\<lambda>s a. True" view_total view_base
    "\<lambda>a x s. Inr (view_conditional_escrow a (- x) s)" view_commit view_unwind acct_balance
proof unfold_locales
  fix s s' a x st j
  assume "view_ok (snd s)" "Inr (view_conditional_escrow a (- x) s) = Inr (st, s')"
  then show "view_total s' j = (if j = a \<and> st = SUCCESS then view_total s a + x else view_total s j)"
    "view_base s' j = view_base s j" "view_ok (snd s') \<and> (\<lambda>a. True) = (\<lambda>a. True)"
    using view_escrow_laws [of a "- x" s st s' j] by simp_all
qed (simp_all add: view_commit_balance view_unwind_balance)

section \<open>The buffered view of the database: the contract\<close>

definition view_of :: "BufferedMemoryDatabaseView \<Rightarrow> account_db_idx \<Rightarrow> UserAccountView" where
  "view_of v i = (case map_of (accounts v) i of None \<Rightarrow> new_account_view | Some uv \<Rightarrow> uv)"

definition new_account :: "'x AccountCreationView_scheme \<Rightarrow> account_db_idx \<Rightarrow> UserAccount option" where
  "new_account v i = map_option snd (map_of (new_accounts v) i)"

text \<open>
  New accounts are numbered from the size of the database; their identifiers are reserved and free.
\<close>

definition creation_inv :: "MemoryDatabase \<Rightarrow> 'x AccountCreationView_scheme \<Rightarrow> bool" where
  "creation_inv db v \<longleftrightarrow> db_size v = length (database db) \<and>
     map fst (new_accounts v) = [db_size v..<db_size v + length (temporary_idxs v)] \<and>
     distinct (map fst (temporary_idxs v)) \<and>
     (\<forall>(a, i) \<in> set (temporary_idxs v). a \<in> reserved_account_ids db \<and> user_id_to_idx_map db a = None \<and>
        (\<exists>u. map_of (new_accounts v) i = Some (a, u) \<and> acct_owner u = a))"

definition buffered_inv :: "MemoryDatabase \<times> BufferedMemoryDatabaseView \<Rightarrow> bool" where
  "buffered_inv = (\<lambda>(db, v). creation_inv db v \<and> distinct (map fst (accounts v)) \<and>
     (\<forall>(i, uv) \<in> set (accounts v). i < db_size v \<and> view_ok uv))"

definition buffered_has :: "MemoryDatabase \<times> BufferedMemoryDatabaseView \<Rightarrow> account_db_idx \<times> AssetID \<Rightarrow> bool" where
  "buffered_has = (\<lambda>(db, v) (i, a). i < db_size v + length (temporary_idxs v))"

definition buffered_total :: "MemoryDatabase \<times> BufferedMemoryDatabaseView \<Rightarrow> account_db_idx \<times> AssetID \<Rightarrow> i64" where
  "buffered_total = (\<lambda>(db, v) (i, a).
     if i < db_size v then view_total (database db ! i, view_of v i) a
     else case new_account v i of None \<Rightarrow> 0 | Some u \<Rightarrow> acct_balance u a)"

definition buffered_base :: "MemoryDatabase \<times> BufferedMemoryDatabaseView \<Rightarrow> account_db_idx \<times> AssetID \<Rightarrow> i64" where
  "buffered_base = (\<lambda>(db, v) (i, a). if i < db_size v then view_base (database db ! i, view_of v i) a else 0)"

lemma view_of_update [simp]:
  "view_of (v\<lparr>accounts := AList.update i uv (accounts v)\<rparr>) j = (if j = i then uv else view_of v j)"
  by (simp add: view_of_def update_conv')

lemma view_ok_view_of: "buffered_inv (db, v) \<Longrightarrow> view_ok (view_of v i)"
  by (auto simp: view_of_def buffered_inv_def view_ok_def new_account_view_def split: option.split dest!: map_of_SomeD)

lemma on_existing_account_eq:
  assumes "i < length (database db)"
  shows "on_existing_account i f (db, v) =
    (let (status, u', uv') = f (database db ! i, view_of v i)
     in Inr (status, put_account i u' db, v\<lparr>accounts := AList.update i uv' (accounts v)\<rparr>))"
  using assms by (auto simp: on_existing_account_def get_existing_account_def find_account_def view_of_def Let_def split: option.split prod.split)

section \<open>What a view never touches\<close>

text \<open>
  Between commits only the current balances of an account change: not its identity, its sequence
  numbers or its committed balances.
\<close>

definition acct_frame :: "UserAccount \<Rightarrow> UserAccount \<Rightarrow> bool" where
  "acct_frame u u' \<longleftrightarrow> acct_owner u' = acct_owner u \<and> acct_pk u' = acct_pk u \<and>
     last_committed_id u' = last_committed_id u \<and> sequence_number_vec u' = sequence_number_vec u \<and>
     (\<forall>a. acct_committed_balance u' a = acct_committed_balance u a)"

definition db_frame :: "MemoryDatabase \<Rightarrow> MemoryDatabase \<Rightarrow> bool" where
  "db_frame db db' \<longleftrightarrow> db' = db\<lparr>database := database db'\<rparr> \<and> list_all2 acct_frame (database db) (database db')"

lemma acct_frame_refl [simp]: "acct_frame u u"
  by (simp add: acct_frame_def)

lemma acct_frame_trans: "acct_frame u v \<Longrightarrow> acct_frame v w \<Longrightarrow> acct_frame u w"
  by (simp add: acct_frame_def)

lemma acct_frame_ops [simp]:
  "acct_frame u (acct_transfer_available u asset x)" "acct_frame u (acct_escrow u asset x)"
  "acct_frame u (fst (acct_conditional_transfer_available u asset x))"
  "acct_frame u (fst (acct_conditional_escrow u asset x))"
  by (simp_all add: acct_frame_def) (simp_all add: acct_op_defs)

lemma db_frame_refl [simp]: "db_frame db db"
  by (simp add: db_frame_def list_all2_same)

lemma db_frame_trans: "db_frame a b \<Longrightarrow> db_frame b c \<Longrightarrow> db_frame a c"
proof -
  assume ab: "db_frame a b" and bc: "db_frame b c"
  obtain bs where b: "b = a\<lparr>database := bs\<rparr>" using ab unfolding db_frame_def by blast
  obtain cs where c: "c = b\<lparr>database := cs\<rparr>" using bc unfolding db_frame_def by blast
  have "list_all2 acct_frame (database a) bs" "list_all2 acct_frame bs cs" using ab bc by (simp_all add: db_frame_def b c)
  then have "list_all2 acct_frame (database a) cs" by (auto simp: list_all2_conv_all_nth) (blast intro: acct_frame_trans)
  then show ?thesis by (simp add: db_frame_def b c)
qed

lemma db_frame_put: "i < length (database db) \<Longrightarrow> acct_frame (database db ! i) u \<Longrightarrow> db_frame db (put_account i u db)"
  by (simp add: db_frame_def put_account_def list_all2_conv_all_nth nth_list_update)

lemma db_frame_sel:
  assumes "db_frame db db'"
  shows "length (database db') = length (database db)" "user_id_to_idx_map db' = user_id_to_idx_map db"
    "reserved_account_ids db' = reserved_account_ids db" "uncommitted_db db' = uncommitted_db db"
    "uncommitted_idx_map db' = uncommitted_idx_map db" "commitment_trie db' = commitment_trie db"
    "account_creation_thunks db' = account_creation_thunks db"
    "i < length (database db) \<Longrightarrow> acct_frame (database db ! i) (database db' ! i)"
proof -
  show "i < length (database db) \<Longrightarrow> acct_frame (database db ! i) (database db' ! i)"
    using assms by (auto simp: db_frame_def intro: list_all2_nthD)
qed (use assms in \<open>(cases db; cases db'; auto simp: db_frame_def list_all2_lengthD)+\<close>)

lemma view_ops_frame:
  "acct_frame (fst s) (fst (snd (view_transfer_available asset x s)))"
  "acct_frame (fst s) (fst (snd (view_conditional_escrow asset x s)))"
  by (cases s; simp add: view_transfer_available_def view_conditional_escrow_def Let_def split_beta)+

lemma fold_transfer_frame: "acct_frame u (fold (\<lambda>(a, x) u. acct_transfer_available u a (f x)) xs u)"
proof (induction xs arbitrary: u)
  case (Cons y ys)
  then show ?case by (cases y) (auto intro: acct_frame_trans [OF acct_frame_ops(1)])
qed simp

lemma view_finish_frame: "acct_frame (fst s) (view_commit s)" "acct_frame (fst s) (view_unwind s)"
  using fold_transfer_frame [of "fst s" "\<lambda>x. x"] fold_transfer_frame [of "fst s" uminus]
  by (cases s; simp add: view_commit_def view_unwind_def)+

section \<open>Laws of the buffered view\<close>

text \<open>What one move of \<open>x\<close> on \<open>(i, asset)\<close> does.\<close>

definition moved ::
    "account_db_idx \<Rightarrow> AssetID \<Rightarrow> i64 \<Rightarrow> MemoryDatabase \<times> BufferedMemoryDatabaseView \<Rightarrow> TransactionProcessingStatus \<Rightarrow>
     MemoryDatabase \<times> BufferedMemoryDatabaseView \<Rightarrow> bool" where
  "moved i asset x s st s' \<longleftrightarrow>
     buffered_inv s' \<and> db_frame (fst s) (fst s') \<and> temporary_idxs (snd s') = temporary_idxs (snd s) \<and> db_size (snd s') = db_size (snd s) \<and>
     buffered_base s' = buffered_base s \<and>
     buffered_total s' = (if st = SUCCESS then (buffered_total s)((i, asset) := buffered_total s (i, asset) + x) else buffered_total s)"

lemma set_update: "set (AList.update k x xs) \<subseteq> insert (k, x) (set xs)"
  by (induction xs) auto

lemma on_existing_moved:
  assumes inv: "buffered_inv (db, v)" and i: "i < db_size v" and r: "on_existing_account i f (db, v) = Inr (st, s')"
    and laws: "\<And>s st s' b. f s = (st, s') \<Longrightarrow> view_ok (snd s) \<Longrightarrow> view_ok (snd s') \<and> view_base s' b = view_base s b \<and>
      view_total s' b = (if b = asset \<and> st = SUCCESS then view_total s asset + x else view_total s b)"
    and frame: "\<And>s. acct_frame (fst s) (fst (snd (f s)))"
  shows "moved i asset x (db, v) st s'"
proof -
  have len: "i < length (database db)" using inv i by (simp add: buffered_inv_def creation_inv_def)
  obtain u' uv' where f: "f (database db ! i, view_of v i) = (st, u', uv')"
    and s': "s' = (put_account i u' db, v\<lparr>accounts := AList.update i uv' (accounts v)\<rparr>)"
    using r unfolding on_existing_account_eq [OF len] by (auto simp: Let_def split: prod.splits)
  note l = laws [OF f] and ok = view_ok_view_of [OF inv, of i]
  have fr: "db_frame db (put_account i u' db)"
    using frame [of "(database db ! i, view_of v i)"] f by (intro db_frame_put [OF len]) simp
  have "view_ok uv'" using l ok by simp
  then have "\<forall>(j, uv) \<in> set (AList.update i uv' (accounts v)). j < db_size v \<and> view_ok uv"
    using inv i by (auto simp: buffered_inv_def dest!: set_mp [OF set_update])
  then have "buffered_inv s'"
    using inv by (auto simp: s' buffered_inv_def creation_inv_def distinct_update put_account_def)
  moreover have "buffered_base s' = buffered_base (db, v)" "buffered_total s' =
      (if st = SUCCESS then (buffered_total (db, v))((i, asset) := buffered_total (db, v) (i, asset) + x) else buffered_total (db, v))"
    using l ok i len by (auto simp: s' buffered_base_def buffered_total_def new_account_def fun_eq_iff)
  ultimately show ?thesis using fr by (simp add: s' moved_def)
qed

lemma new_account_update:
  assumes "map_of (new_accounts v) i = Some (owner, u)"
  shows "new_account (v\<lparr>new_accounts := AList.update i (owner, u') (new_accounts v)\<rparr>) j = (if j = i then Some u' else new_account v j)"
    and "creation_inv db v \<Longrightarrow> acct_frame u u' \<Longrightarrow> creation_inv db (v\<lparr>new_accounts := AList.update i (owner, u') (new_accounts v)\<rparr>)"
proof -
  show "new_account (v\<lparr>new_accounts := AList.update i (owner, u') (new_accounts v)\<rparr>) j = (if j = i then Some u' else new_account v j)"
    by (simp add: new_account_def update_conv')
  have "i \<in> set (map fst (new_accounts v))" using assms by (simp add: image_iff) (metis fst_conv map_of_SomeD)
  then have keys: "map fst (AList.update i (owner, u') (new_accounts v)) = map fst (new_accounts v)" by (simp add: update_keys)
  assume inv: "creation_inv db v" and fr: "acct_frame u u'"
  have "\<exists>w. map_of (AList.update i (owner, u') (new_accounts v)) j = Some (a, w) \<and> acct_owner w = a"
    if "map_of (new_accounts v) j = Some (a, w)" "acct_owner w = a" for j a w
    using that fr assms by (auto simp: update_conv' acct_frame_def)
  then show "creation_inv db (v\<lparr>new_accounts := AList.update i (owner, u') (new_accounts v)\<rparr>)"
    using inv keys by (fastforce simp: creation_inv_def)
qed

lemma on_new_moved:
  assumes inv: "buffered_inv (db, v)" and i: "\<not> i < db_size v" and r: "on_new_account i f v = Inr (ok, v')"
    and laws: "\<And>u u' ok b. f u = (u', ok) \<Longrightarrow> acct_frame u u' \<and> acct_balance u' b = (if b = asset \<and> ok then acct_balance u asset + x else acct_balance u b)"
  shows "moved i asset x (db, v) (if ok then SUCCESS else INSUFFICIENT_BALANCE) (db, v')"
proof -
  obtain owner u u' where u: "map_of (new_accounts v) i = Some (owner, u)" "f u = (u', ok)"
    "v' = v\<lparr>new_accounts := AList.update i (owner, u') (new_accounts v)\<rparr>"
    using r by (auto simp: on_new_account_def Let_def split: option.splits prod.splits)
  note l = laws [OF u(2)]
  have na: "new_account v i = Some u" by (simp add: new_account_def u(1))
  have "buffered_inv (db, v')"
    using new_account_update(2) [OF u(1), of db u'] l inv by (simp add: buffered_inv_def u(3))
  moreover have "view_of v' j = view_of v j" for j by (simp add: u(3) view_of_def)
  moreover have "new_account v' j = (if j = i then Some u' else new_account v j)" for j
    unfolding u(3) by (rule new_account_update(1) [OF u(1)])
  ultimately show ?thesis
    using l na i by (auto simp: moved_def buffered_base_def buffered_total_def fun_eq_iff u(3))
qed

lemma buffered_transfer_moved:
  assumes inv: "buffered_inv s" and r: "buffered_transfer_available i asset x s = Inr (st, s')"
  shows "moved i asset x s st s'"
proof -
  obtain db v where s: "s = (db, v)" by (cases s)
  show ?thesis
  proof (cases "i < db_size v")
    case True
    then have "on_existing_account i (view_transfer_available asset x) (db, v) = Inr (st, s')"
      using r by (simp add: s buffered_transfer_available_def)
    then show ?thesis unfolding s
      by (rule on_existing_moved [OF inv [unfolded s] True]) (use view_transfer_laws view_ops_frame in blast)+
  next
    case False
    then obtain v' where v': "on_new_account i (\<lambda>u. acct_conditional_transfer_available u asset x) v = Inr (True, v')"
      "st = SUCCESS" "s' = (db, v')"
      using r by (auto simp: s buffered_transfer_available_def split: if_splits)
    have "moved i asset x (db, v) (if True then SUCCESS else INSUFFICIENT_BALANCE) (db, v')"
    proof (rule on_new_moved [OF inv [unfolded s] False v'(1)])
      fix u u' ok b
      assume c: "acct_conditional_transfer_available u asset x = (u', ok)"
      then show "acct_frame u u' \<and> acct_balance u' b = (if b = asset \<and> ok then acct_balance u asset + x else acct_balance u b)"
        using cond_transfer_pair [OF c, of b] acct_frame_ops(3) [of u asset x] by simp
    qed
    then show ?thesis by (simp add: v' s)
  qed
qed

lemma buffered_escrow_moved:
  assumes inv: "buffered_inv s" and r: "buffered_escrow i asset x s = Inr (st, s')"
  shows "moved i asset (- x) s st s'"
proof -
  obtain db v where s: "s = (db, v)" by (cases s)
  show ?thesis
  proof (cases "i < db_size v")
    case True
    then have "on_existing_account i (view_conditional_escrow asset x) (db, v) = Inr (st, s')"
      using r by (simp add: s buffered_escrow_def)
    then show ?thesis unfolding s
    proof (rule on_existing_moved [OF inv [unfolded s] True])
      fix s st s' b
      assume "view_conditional_escrow asset x s = (st, s')" "view_ok (snd s)"
      from view_escrow_laws [OF this, of b] show "view_ok (snd s') \<and> view_base s' b = view_base s b \<and>
        view_total s' b = (if b = asset \<and> st = SUCCESS then view_total s asset + - x else view_total s b)" by simp
    qed (rule view_ops_frame)
  next
    case False
    then obtain ok v' where v': "on_new_account i (\<lambda>u. acct_conditional_escrow u asset x) v = Inr (ok, v')"
      "st = (if ok then SUCCESS else INSUFFICIENT_BALANCE)" "s' = (db, v')"
      using r by (auto simp: s buffered_escrow_def)
    have "moved i asset (- x) (db, v) (if ok then SUCCESS else INSUFFICIENT_BALANCE) (db, v')"
    proof (rule on_new_moved [OF inv [unfolded s] False v'(1)])
      fix u u' ok b
      assume c: "acct_conditional_escrow u asset x = (u', ok)"
      then show "acct_frame u u' \<and> acct_balance u' b = (if b = asset \<and> ok then acct_balance u asset + - x else acct_balance u b)"
        using cond_escrow_pair [OF c, of b] acct_frame_ops(4) [of u asset x] by simp
    qed
    then show ?thesis by (simp add: v' s)
  qed
qed

text \<open>On an account of the database the two operations always return.\<close>

lemma buffered_returns:
  assumes "buffered_inv s" "i < db_size (snd s)"
  shows "\<exists>st s'. buffered_transfer_available i asset x s = Inr (st, s')" "\<exists>st s'. buffered_escrow i asset x s = Inr (st, s')"
  using assms
  by (cases s; auto simp: buffered_transfer_available_def buffered_escrow_def buffered_inv_def creation_inv_def
      on_existing_account_eq Let_def split: prod.split)+

section \<open>Committing and unwinding\<close>

lemma finish_accounts_spec:
  assumes "distinct (map fst xs)" "\<forall>(i, uv) \<in> set xs. i < length (database db)" "\<And>s. acct_frame (fst s) (finish s)"
  shows "db_frame db (finish_accounts finish xs db)"
    and "i < length (database db) \<Longrightarrow> database (finish_accounts finish xs db) ! i =
      (case map_of xs i of None \<Rightarrow> database db ! i | Some uv \<Rightarrow> finish (database db ! i, uv))"
proof -
  have "db_frame db (finish_accounts finish xs db) \<and> (i < length (database db) \<longrightarrow> database (finish_accounts finish xs db) ! i =
      (case map_of xs i of None \<Rightarrow> database db ! i | Some uv \<Rightarrow> finish (database db ! i, uv)))"
    using assms(1,2)
  proof (induction xs arbitrary: db)
    case (Cons y ys)
    obtain j uv where y: "y = (j, uv)" by (cases y)
    define db1 where "db1 = put_account j (finish (database db ! j, uv)) db"
    have j: "j < length (database db)" using Cons.prems(2) by (simp add: y)
    have fr: "db_frame db db1" unfolding db1_def using assms(3) [of "(database db ! j, uv)"] by (intro db_frame_put [OF j]) simp
    have none: "map_of ys j = None" using Cons.prems(1) by (auto simp: y map_of_eq_None_iff)
    have len: "length (database db1) = length (database db)" by (simp add: db1_def)
    have "\<forall>(i, uv) \<in> set ys. i < length (database db1)" using Cons.prems(2) len by auto
    with Cons.IH [of db1] Cons.prems(1) have IH: "db_frame db1 (finish_accounts finish ys db1)"
      "i < length (database db) \<longrightarrow> database (finish_accounts finish ys db1) ! i =
        (case map_of ys i of None \<Rightarrow> database db1 ! i | Some uv \<Rightarrow> finish (database db1 ! i, uv))"
      by (simp_all add: len y)
    have "finish_accounts finish (y # ys) db = finish_accounts finish ys db1" by (simp add: finish_accounts_def y db1_def)
    then show ?case using db_frame_trans [OF fr IH(1)] IH(2) none j by (auto simp: y db1_def split: option.split)
  qed (simp add: finish_accounts_def)
  then show "db_frame db (finish_accounts finish xs db)"
    "i < length (database db) \<Longrightarrow> database (finish_accounts finish xs db) ! i =
      (case map_of xs i of None \<Rightarrow> database db ! i | Some uv \<Rightarrow> finish (database db ! i, uv))" by blast+
qed

lemma creation_commit_spec:
  "database (creation_commit db v) = database db" "user_id_to_idx_map (creation_commit db v) = user_id_to_idx_map db"
  "uncommitted_db (creation_commit db v) = uncommitted_db db @ map (snd \<circ> snd) (new_accounts v)"
proof -
  have "database (fold (\<lambda>(i, owner, u) db. commit_account_creation owner u db) xs db) = database db \<and>
     user_id_to_idx_map (fold (\<lambda>(i, owner, u) db. commit_account_creation owner u db) xs db) = user_id_to_idx_map db \<and>
     uncommitted_db (fold (\<lambda>(i, owner, u) db. commit_account_creation owner u db) xs db) = uncommitted_db db @ map (snd \<circ> snd) xs"
    for xs :: "(nat \<times> AccountID \<times> UserAccount) list"
    by (induction xs arbitrary: db) (auto simp: commit_account_creation_def Let_def)
  then show "database (creation_commit db v) = database db" "user_id_to_idx_map (creation_commit db v) = user_id_to_idx_map db"
    "uncommitted_db (creation_commit db v) = uncommitted_db db @ map (snd \<circ> snd) (new_accounts v)"
    by (simp_all add: creation_commit_def)
qed

lemma release_fold:
  "fold (\<lambda>(i, owner, u). release_account_creation (of_nat i)) xs db =
     db\<lparr>reserved_account_ids := reserved_account_ids db - (of_nat \<circ> fst) ` set xs\<rparr>"
proof (induction xs arbitrary: db)
  case (Cons x xs)
  have "reserved_account_ids db - {of_nat (fst x)} - (of_nat \<circ> fst) ` set xs = reserved_account_ids db - (of_nat \<circ> fst) ` set (x # xs)"
    by auto
  then show ?case using Cons by (simp add: release_account_creation_def split_beta)
qed simp

lemma buffered_commit_spec:
  assumes inv: "buffered_inv (db, v)"
  shows "db_frame db (finish_accounts view_commit (accounts v) db)"
    and "i < db_size v \<Longrightarrow> db_balance (buffered_commit (db, v)) (i, a) = buffered_total (db, v) (i, a)"
proof -
  have pre: "distinct (map fst (accounts v))" "\<forall>(i, uv) \<in> set (accounts v). i < length (database db)"
    using inv by (auto simp: buffered_inv_def creation_inv_def)
  note spec = finish_accounts_spec [OF pre, of view_commit, OF view_finish_frame(1)]
  show "db_frame db (finish_accounts view_commit (accounts v) db)" by (rule spec(1))
  assume i: "i < db_size v"
  then have len: "i < length (database db)" using inv by (simp add: buffered_inv_def creation_inv_def)
  show "db_balance (buffered_commit (db, v)) (i, a) = buffered_total (db, v) (i, a)"
  proof (cases "map_of (accounts v) i")
    case None
    then show ?thesis
      using spec(2) [OF len] i
      by (simp add: buffered_commit_def db_balance_def creation_commit_spec buffered_total_def view_total_def view_of_def new_account_view_def)
  next
    case (Some uv)
    then have "view_ok uv" using view_ok_view_of [OF inv, of i] by (simp add: view_of_def)
    then show ?thesis
      using spec(2) [OF len] i Some view_commit_balance [of "(database db ! i, uv)" a]
      by (simp add: buffered_commit_def db_balance_def creation_commit_spec buffered_total_def view_of_def)
  qed
qed

lemma buffered_unwind_spec:
  assumes inv: "buffered_inv (db, v)"
  shows "db_frame db ((buffered_unwind (db, v))\<lparr>reserved_account_ids := reserved_account_ids db\<rparr>)"
    and "reserved_account_ids (buffered_unwind (db, v)) = reserved_account_ids db - of_nat ` fst ` set (new_accounts v)"
    and "i < db_size v \<Longrightarrow> db_balance (buffered_unwind (db, v)) (i, a) = buffered_base (db, v) (i, a)"
proof -
  have pre: "distinct (map fst (accounts v))" "\<forall>(i, uv) \<in> set (accounts v). i < length (database db)"
    using inv by (auto simp: buffered_inv_def creation_inv_def)
  note spec = finish_accounts_spec [OF pre, of view_unwind, OF view_finish_frame(2)]
  define db1 where "db1 = finish_accounts view_unwind (accounts v) db"
  have fr: "db_frame db db1" unfolding db1_def by (rule spec(1))
  have uw: "buffered_unwind (db, v) = db1\<lparr>reserved_account_ids := reserved_account_ids db - of_nat ` fst ` set (new_accounts v)\<rparr>"
    using db_frame_sel(3) [OF fr] by (simp add: buffered_unwind_def release_fold db1_def image_comp)
  then show "reserved_account_ids (buffered_unwind (db, v)) = reserved_account_ids db - of_nat ` fst ` set (new_accounts v)" by simp
  have "(buffered_unwind (db, v))\<lparr>reserved_account_ids := reserved_account_ids db\<rparr> = db1"
    using db_frame_sel(3) [OF fr] by (simp add: uw)
  then show "db_frame db ((buffered_unwind (db, v))\<lparr>reserved_account_ids := reserved_account_ids db\<rparr>)" using fr by simp
  assume i: "i < db_size v"
  then have len: "i < length (database db)" using inv by (simp add: buffered_inv_def creation_inv_def)
  show "db_balance (buffered_unwind (db, v)) (i, a) = buffered_base (db, v) (i, a)"
  proof (cases "map_of (accounts v) i")
    case None
    then show ?thesis
      using spec(2) [OF len] i by (simp add: uw db1_def db_balance_def buffered_base_def view_base_def view_of_def new_account_view_def)
  next
    case (Some uv)
    then have "view_ok uv" using view_ok_view_of [OF inv, of i] by (simp add: view_of_def)
    then show ?thesis
      using spec(2) [OF len] i Some view_unwind_balance [of "(database db ! i, uv)" a]
      by (simp add: uw db1_def db_balance_def buffered_base_def view_of_def)
  qed
qed

interpretation buffered: speculative_store buffered_inv "\<lambda>s k. fst k < db_size (snd s)" buffered_total buffered_base
    "\<lambda>k. buffered_transfer_available (fst k) (snd k)" buffered_commit buffered_unwind db_balance
proof unfold_locales
  fix s s' :: "MemoryDatabase \<times> BufferedMemoryDatabaseView" and k j :: "account_db_idx \<times> AssetID" and x st
  assume inv: "buffered_inv s"
  show "fst k < db_size (snd s) \<Longrightarrow> db_balance (buffered_commit s) k = buffered_total s k"
    "fst k < db_size (snd s) \<Longrightarrow> db_balance (buffered_unwind s) k = buffered_base s k"
    using buffered_commit_spec(2) buffered_unwind_spec(3) inv by (cases s; cases k; simp)+
  assume "buffered_transfer_available (fst k) (snd k) x s = Inr (st, s')"
  note m = buffered_transfer_moved [OF inv this, unfolded moved_def]
  show "buffered_inv s' \<and> (\<lambda>k. fst k < db_size (snd s')) = (\<lambda>k. fst k < db_size (snd s))" "buffered_base s' j = buffered_base s j"
    "buffered_total s' j = (if j = k \<and> st = SUCCESS then buffered_total s k + x else buffered_total s j)"
    using m by (cases j; cases k; auto)+
qed

section \<open>Creating accounts in a view\<close>

lemma emplace_fresh: "k \<notin> fst ` set xs \<Longrightarrow> emplace k x xs = xs @ [(k, x)]"
proof -
  assume k: "k \<notin> fst ` set xs"
  then have "AList.update k x xs = xs @ [(k, x)]" by (induction xs) auto
  moreover have "map_of xs k = None" using k by (simp add: map_of_eq_None_iff)
  ultimately show ?thesis by (simp add: emplace_def)
qed

lemma new_user_account_balance [simp]: "acct_balance (new_user_account a pk) asset = 0" "acct_owner (new_user_account a pk) = a"
  by (simp_all add: acct_balance_def asset_at_def all_assets_def new_user_account_def empty_asset_def)

lemma create_new_account_cases:
  "create_new_account a pk (db, v) =
     (if user_id_to_idx_map db a \<noteq> None then ((NEW_ACCOUNT_ALREADY_EXISTS, 0), db, v)
      else if a \<in> reserved_account_ids db then ((NEW_ACCOUNT_TEMP_RESERVED, 0), db, v)
      else ((SUCCESS, db_size v + length (temporary_idxs v)), db\<lparr>reserved_account_ids := insert a (reserved_account_ids db)\<rparr>,
        v\<lparr>temporary_idxs := emplace a (db_size v + length (temporary_idxs v)) (temporary_idxs v),
          new_accounts := emplace (db_size v + length (temporary_idxs v)) (a, new_user_account a pk) (new_accounts v)\<rparr>))"
  by (simp add: create_new_account_def reserve_account_creation_def Let_def add.commute)

lemma create_new_account_laws:
  assumes inv: "buffered_inv (db, v)" and r: "create_new_account a pk (db, v) = ((st, idx), db', v')"
  shows "buffered_inv (db', v')" "db_size v' = db_size v" "buffered_base (db', v') = buffered_base (db, v)"
    "buffered_total (db', v') = buffered_total (db, v)"
    and "st \<noteq> SUCCESS \<Longrightarrow> db' = db \<and> v' = v"
    and "st = SUCCESS \<Longrightarrow> db' = db\<lparr>reserved_account_ids := insert a (reserved_account_ids db)\<rparr> \<and> a \<notin> reserved_account_ids db \<and>
      user_id_to_idx_map db a = None \<and> idx = db_size v + length (temporary_idxs v) \<and> temporary_idxs v' = temporary_idxs v @ [(a, idx)] \<and>
      new_account v' idx = Some (new_user_account a pk)"
proof -
  show fail: "st \<noteq> SUCCESS \<Longrightarrow> db' = db \<and> v' = v"
    using r by (simp add: create_new_account_cases split: if_split_asm)
  let ?n = "db_size v + length (temporary_idxs v)"
  have main: "(buffered_inv (db', v') \<and> db_size v' = db_size v \<and> buffered_base (db', v') = buffered_base (db, v) \<and>
    buffered_total (db', v') = buffered_total (db, v)) \<and>
    (st = SUCCESS \<longrightarrow> db' = db\<lparr>reserved_account_ids := insert a (reserved_account_ids db)\<rparr> \<and> a \<notin> reserved_account_ids db \<and>
      user_id_to_idx_map db a = None \<and> idx = ?n \<and> temporary_idxs v' = temporary_idxs v @ [(a, idx)] \<and>
      new_account v' idx = Some (new_user_account a pk))"
  proof (cases "st = SUCCESS")
    case False
    then show ?thesis using fail inv by simp
  next
    case True
    have a: "a \<notin> reserved_account_ids db" "user_id_to_idx_map db a = None"
      using r True by (simp_all add: create_new_account_cases split: if_split_asm)
    have ci: "creation_inv db v" using inv by (simp add: buffered_inv_def)
    have keys: "a \<notin> fst ` set (temporary_idxs v)" "?n \<notin> fst ` set (new_accounts v)"
    proof -
      show "a \<notin> fst ` set (temporary_idxs v)" using ci a by (auto simp: creation_inv_def)
      have "map fst (new_accounts v) = [db_size v..<?n]" using ci by (simp add: creation_inv_def)
      then have "fst ` set (new_accounts v) = {db_size v..<?n}" unfolding set_map [symmetric] by simp
      then show "?n \<notin> fst ` set (new_accounts v)" by simp
    qed
    have eq: "db' = db\<lparr>reserved_account_ids := insert a (reserved_account_ids db)\<rparr>" "idx = ?n"
      "v' = v\<lparr>temporary_idxs := temporary_idxs v @ [(a, ?n)], new_accounts := new_accounts v @ [(?n, a, new_user_account a pk)]\<rparr>"
      using r a keys by (auto simp: create_new_account_cases emplace_fresh)
    have none: "map_of (new_accounts v) ?n = None" using keys(2) by (simp add: map_of_eq_None_iff)
    have map: "map_of (new_accounts v @ [(?n, a, new_user_account a pk)]) i =
        (if i = ?n then Some (a, new_user_account a pk) else map_of (new_accounts v) i)" for i
      using none by (cases "map_of (new_accounts v) i") (auto simp: map_add_def)
    have "creation_inv db' v'"
      unfolding creation_inv_def
    proof (intro conjI ballI)
      show "db_size v' = length (database db')" "distinct (map fst (temporary_idxs v'))"
        using ci keys by (simp_all add: eq creation_inv_def)
      show "map fst (new_accounts v') = [db_size v'..<db_size v' + length (temporary_idxs v')]" using ci by (simp add: eq creation_inv_def)
      fix x assume x: "x \<in> set (temporary_idxs v')"
      obtain b i where bi: "x = (b, i)" by (cases x)
      show "case x of (b, i) \<Rightarrow> b \<in> reserved_account_ids db' \<and> user_id_to_idx_map db' b = None \<and>
          (\<exists>u. map_of (new_accounts v') i = Some (b, u) \<and> acct_owner u = b)"
      proof (cases "x \<in> set (temporary_idxs v)")
        case True
        then have old: "b \<in> reserved_account_ids db" "user_id_to_idx_map db b = None" "\<exists>u. map_of (new_accounts v) i = Some (b, u) \<and> acct_owner u = b"
          using ci by (auto simp: creation_inv_def bi)
        then have "i \<noteq> ?n" using none by auto
        then show ?thesis using old map by (simp add: eq bi)
      next
        case False
        then show ?thesis using x a map by (auto simp: eq bi)
      qed
    qed
    then have "buffered_inv (db', v')" using inv by (simp add: buffered_inv_def eq(3))
    moreover have na: "new_account v' i = (if i = ?n then Some (new_user_account a pk) else new_account v i)" for i
      using map [of i] by (simp add: new_account_def eq(3))
    have none': "new_account v ?n = None" using none by (simp add: new_account_def)
    have same: "view_of v' i = view_of v i" "db_size v' = db_size v" "database db' = database db" for i
      by (simp_all add: eq(1,3) view_of_def)
    have "buffered_base (db', v') = buffered_base (db, v)" by (simp add: buffered_base_def same cong: if_cong)
    moreover have "buffered_total (db', v') k = buffered_total (db, v) k" for k
      by (cases k) (simp add: buffered_total_def same na none')
    then have "buffered_total (db', v') = buffered_total (db, v)" by blast
    moreover have "temporary_idxs v' = temporary_idxs v @ [(a, ?n)]" by (simp add: eq(3))
    ultimately show ?thesis using a eq(1,2) na [of ?n] same(2) by simp
  qed
  note basic = main [THEN conjunct1]
  show "buffered_inv (db', v')" "db_size v' = db_size v" "buffered_base (db', v') = buffered_base (db, v)"
    "buffered_total (db', v') = buffered_total (db, v)"
    by (rule basic [THEN conjunct1] basic [THEN conjunct2, THEN conjunct1] basic [THEN conjunct2, THEN conjunct2, THEN conjunct1]
        basic [THEN conjunct2, THEN conjunct2, THEN conjunct2])+
  show "st = SUCCESS \<Longrightarrow> db' = db\<lparr>reserved_account_ids := insert a (reserved_account_ids db)\<rparr> \<and> a \<notin> reserved_account_ids db \<and>
      user_id_to_idx_map db a = None \<and> idx = ?n \<and> temporary_idxs v' = temporary_idxs v @ [(a, idx)] \<and>
      new_account v' idx = Some (new_user_account a pk)"
    by (rule main [THEN conjunct2, rule_format])
qed

lemma new_buffered_view_inv:
  "buffered_inv (db, new_buffered_view db)" "buffered_base (db, new_buffered_view db) (i, a) = (if i < length (database db) then db_balance db (i, a) else 0)"
  "buffered_total (db, new_buffered_view db) (i, a) = (if i < length (database db) then db_balance db (i, a) else 0)"
  by (simp_all add: buffered_inv_def creation_inv_def new_buffered_view_def buffered_base_def buffered_total_def view_base_def
      view_total_def view_of_def new_account_view_def db_balance_def new_account_def)

end
