(* ===== verification/Work_Unit_Laws.thy ===== *)
theory Work_Unit_Laws
  imports Work_Unit Book_Split Database_View
begin

text \<open>
  The clearing of one market: what it pays, that a validator reaches the producer's result from the
  commitment alone, and that the thunk of a block undoes it.
\<close>

section \<open>Payments\<close>

text \<open>The accounts move by \<open>f\<close>, and nothing else of the database changes.\<close>

definition pays :: "MemoryDatabase \<Rightarrow> (account_db_idx \<times> AssetID \<Rightarrow> i64) \<Rightarrow> MemoryDatabase \<Rightarrow> bool" where
  "pays db f db' \<longleftrightarrow> db_frame db db' \<and> (\<forall>k. db_valid db k \<longrightarrow> db_balance db' k = db_balance db k + f k)"

lemma pays_refl [simp]: "pays db (\<lambda>k. 0) db"
  by (simp add: pays_def)

lemma pays_trans: "pays a f b \<Longrightarrow> pays b g c \<Longrightarrow> pays a (\<lambda>k. f k + g k) c"
  by (auto simp: pays_def db_valid_def db_frame_sel(1) intro: db_frame_trans)

lemma pays_index: "pays db f db' \<Longrightarrow> lookup_user_id db' = lookup_user_id db \<and> length (database db') = length (database db)"
  using db_frame_sel(1,2) [of db db'] by (simp add: pays_def lookup_user_id_def fun_eq_iff)

lemma transfer_pays:
  assumes "db_transfer_available db i asset x = Inr db'"
  shows "pays db (\<lambda>k. if k = (i, asset) then x else 0) db'"
proof -
  have i: "i < length (database db)"
    using assms by (auto simp: db_transfer_available_def find_account_def split: if_splits)
  then have db': "db' = db_move db (i, asset) x" using assms by (simp add: db_transfer_available_valid(1) db_valid_def)
  have "db_frame db db'" unfolding db' using i by (simp add: db_frame_put)
  moreover have "db_balance db' k = db_balance db k + (if k = (i, asset) then x else 0)" if "db_valid db k" for k
    using store.balance_transfer [of db "(i, asset)" k x] that i unfolding db' by (simp add: db_valid_def)
  ultimately show ?thesis by (simp add: pays_def)
qed

lemma transfer_returns: "i < length (database db) \<longleftrightarrow> (\<exists>db'. db_transfer_available db i asset x = Inr db')"
  by (auto simp: db_transfer_available_def find_account_def)

text \<open>The payout of an offer that is executed in full, and the account it goes to.\<close>

definition payout :: "price \<Rightarrow> price \<Rightarrow> u8 \<Rightarrow> FractionalAsset \<Rightarrow> i64" where
  "payout sellPrice buyPrice tax sold = ucast (offer_buy_amount sold sellPrice buyPrice tax)"

abbreviation sold_in_full :: "Offer \<Rightarrow> FractionalAsset" where
  "sold_in_full offer \<equiv> from_integral (ucast (offer_amount offer))"

definition credit :: "MemoryDatabase \<Rightarrow> Offer \<Rightarrow> i64 \<Rightarrow> account_db_idx \<times> AssetID \<Rightarrow> i64" where
  "credit db offer x = (\<lambda>(i, asset).
     if lookup_user_id db (offer_owner offer) = Some i \<and> asset = buyAsset (category offer) then x else 0)"

definition has_account :: "MemoryDatabase \<Rightarrow> Offer \<Rightarrow> bool" where
  "has_account db offer \<longleftrightarrow> (\<exists>i. lookup_user_id db (offer_owner offer) = Some i \<and> i < length (database db))"

definition clearable :: "price \<Rightarrow> price \<Rightarrow> MemoryDatabase \<Rightarrow> Offer \<Rightarrow> bool" where
  "clearable sellPrice buyPrice db offer \<longleftrightarrow>
     \<not> a_over_b_lt_c sellPrice buyPrice (minPrice offer) \<and> offer_amount offer \<noteq> 0 \<and> has_account db offer"

lemma pays_credit: "pays db f db' \<Longrightarrow> credit db' = credit db \<and> has_account db' = has_account db \<and> clearable p q db' = clearable p q db"
  using pays_index [of db f db'] by (auto simp: credit_def has_account_def clearable_def fun_eq_iff)

lemma credit_at: "lookup_user_id db (offer_owner offer) = Some i \<Longrightarrow>
    (\<lambda>k. if k = (i, buyAsset (category offer)) then x else 0) = credit db offer x"
  by (auto simp: credit_def fun_eq_iff)

lemma complete_clearing_func_spec:
  "(\<exists>r. complete_clearing_func p q tax offer (db, log) = Inr r) \<longleftrightarrow> clearable p q db offer"
  "complete_clearing_func p q tax offer (db, log) = Inr (db', log') \<Longrightarrow> pays db (credit db offer (payout p q tax (sold_in_full offer))) db'"
proof -
  obtain log1 where log1: "log_self_modification (offer_owner offer) (offerId offer) log = Inr log1"
    using log_self_modification_returns(1) by blast
  show "(\<exists>r. complete_clearing_func p q tax offer (db, log) = Inr r) \<longleftrightarrow> clearable p q db offer"
  proof (cases "lookup_user_id db (offer_owner offer)")
    case (Some i)
    then show ?thesis
      using log1
      by (simp add: complete_clearing_func_def clearable_def has_account_def clear_offer_full_def db_transfer_available_def
          find_account_def Let_def)
  qed (simp add: complete_clearing_func_def clearable_def has_account_def)
  assume r: "complete_clearing_func p q tax offer (db, log) = Inr (db', log')"
  then obtain i where i: "lookup_user_id db (offer_owner offer) = Some i"
    "clear_offer_full db_transfer_available offer p q tax db i = Inr db'"
    by (auto simp: complete_clearing_func_def split: if_splits option.splits)
  then have "db_transfer_available db i (buyAsset (category offer)) (payout p q tax (sold_in_full offer)) = Inr db'"
    by (simp add: clear_offer_full_def Let_def payout_def)
  then show "pays db (credit db offer (payout p q tax (sold_in_full offer))) db'" using transfer_pays credit_at [OF i(1)] by metis
qed

lemma clear_all_spec:
  "(\<exists>r. clear_all p q tax os (db, log) = Inr r) \<longleftrightarrow> (\<forall>offer \<in> set os. clearable p q db offer)"
  "clear_all p q tax os (db, log) = Inr (db', log') \<Longrightarrow>
     pays db (\<lambda>k. \<Sum>offer \<leftarrow> os. credit db offer (payout p q tax (sold_in_full offer)) k) db'"
proof -
  have "((\<exists>r. clear_all p q tax os (db, log) = Inr r) \<longleftrightarrow> (\<forall>offer \<in> set os. clearable p q db offer)) \<and>
    (clear_all p q tax os (db, log) = Inr (db', log') \<longrightarrow>
     pays db (\<lambda>k. \<Sum>offer \<leftarrow> os. credit db offer (payout p q tax (sold_in_full offer)) k) db')"
  proof (induction os arbitrary: db log)
    case (Cons offer os)
    show ?case
    proof (cases "complete_clearing_func p q tax offer (db, log)")
      case (Inl e)
      then show ?thesis using complete_clearing_func_spec(1) [of p q tax offer db log] by simp
    next
      case (Inr r)
      obtain db1 log1 where r: "r = (db1, log1)" by force
      have p: "pays db (credit db offer (payout p q tax (sold_in_full offer))) db1"
        using complete_clearing_func_spec(2) Inr r by blast
      have c: "clearable p q db offer" using complete_clearing_func_spec(1) Inr by blast
      show ?thesis
        using Cons.IH [of db1 log1] pays_credit [OF p, of p q] pays_trans [OF p] Inr c by (auto simp: r)
    qed
  qed simp
  then show "(\<exists>r. clear_all p q tax os (db, log) = Inr r) \<longleftrightarrow> (\<forall>offer \<in> set os. clearable p q db offer)"
    "clear_all p q tax os (db, log) = Inr (db', log') \<Longrightarrow>
     pays db (\<lambda>k. \<Sum>offer \<leftarrow> os. credit db offer (payout p q tax (sold_in_full offer)) k) db'" by blast+
qed

lemma clear_offer_partial_spec:
  assumes i: "lookup_user_id db (offer_owner offer) = Some i"
  shows "(\<exists>r. clear_offer_partial db_transfer_available offer p q tax x db i = Inr r) \<longleftrightarrow> has_account db offer"
    and "clear_offer_partial db_transfer_available offer p q tax x db i = Inr (db', sell, buy) \<Longrightarrow>
      pays db (credit db offer (payout p q tax x)) db' \<and> sell = ucast (fa_ceil x)"
proof -
  show "(\<exists>r. clear_offer_partial db_transfer_available offer p q tax x db i = Inr r) \<longleftrightarrow> has_account db offer"
    using transfer_returns [of i db "buyAsset (category offer)" "ucast (offer_buy_amount x p q tax)"] i
    by (auto simp: clear_offer_partial_def has_account_def Let_def)
  assume "clear_offer_partial db_transfer_available offer p q tax x db i = Inr (db', sell, buy)"
  then have "db_transfer_available db i (buyAsset (category offer)) (payout p q tax x) = Inr db'" "sell = ucast (fa_ceil x)"
    by (auto simp: clear_offer_partial_def Let_def payout_def)
  then show "pays db (credit db offer (payout p q tax x)) db' \<and> sell = ucast (fa_ceil x)"
    using transfer_pays credit_at [OF i] by metis
qed

section \<open>Keys and amounts as bytes\<close>

lemma nib_of_byte:
  fixes x y :: nib
  defines "b \<equiv> (push_bit 4 (ucast x) OR ucast y :: byte)"
  shows "ucast (drop_bit 4 b) = x" "ucast b = y"
proof -
  show "ucast (drop_bit 4 b) = x" unfolding b_def by (rule bit_word_eqI) (auto simp: bit_simps dest: bit_imp_le_length)
  show "ucast b = y" unfolding b_def by (rule bit_word_eqI) (auto simp: bit_simps)
qed

lemma bytes_key_get_bytes: "even (length k) \<Longrightarrow> bytes_key (get_bytes_array k) = k"
  by (induction k rule: get_bytes_array.induct) (auto simp: nib_of_byte simp del: drop_bit_or)

lemma get_bytes_key: "get_bytes_array (bytes_key bs) = bs"
  using bytes_key_inject [of "get_bytes_array (bytes_key bs)" bs] by (simp add: bytes_key_get_bytes)

lemma length_get_bytes: "length (get_bytes_array k) = length k div 2"
  by (induction k rule: get_bytes_array.induct) auto

lemma bytes_key_zero: "bytes_key (replicate n 0) = replicate (2 * n) 0"
  by (induction n) simp_all

lemma not_less_zero_key: "\<not> key_less k (replicate n 0)"
proof (induction k arbitrary: n)
  case (Cons x k)
  then show ?case by (cases n) auto
qed (cases n; simp)

lemma zero_key_unused: "is_valid_price p \<Longrightarrow> offer_key p owner i \<noteq> replicate 44 0"
proof
  assume p: "is_valid_price p" and eq: "offer_key p owner i = replicate 44 0"
  have zero: "offer_key 0 0 0 = replicate 44 0"
    by (simp add: offer_key_def big_endian_bytes_def be_byte_def bytes_key_def numeral_eq_Suc)
  have "bytes_key (big_endian_bytes 6 p @ big_endian_bytes 8 owner @ big_endian_bytes 8 i) =
      bytes_key (big_endian_bytes 6 (0 :: u64) @ big_endian_bytes 8 (0 :: u64) @ big_endian_bytes 8 (0 :: u64))"
    by (rule trans [OF eq [unfolded offer_key_def] zero [unfolded offer_key_def, symmetric]])
  then have "big_endian_bytes 6 p = big_endian_bytes 6 (0 :: u64)" unfolding bytes_key_inject by simp
  then have "p = 0" using big_endian_bytes_inject [of p 6 0] unat_valid_price [OF p] by simp
  then show False using p by (simp add: is_valid_price_def)
qed

definition commitment_sized :: "SingleWorkUnitStateCommitment \<Rightarrow> bool" where
  "commitment_sized c \<longleftrightarrow> length (fractionalSupplyActivated_bytes c) = 16 \<and>
     length (partialExecOfferActivationAmount_bytes c) = 16 \<and> length (partialExecThresholdKey c) = WORKUNIT_KEY_LEN"

lemma write_u128: "length buf = 16 \<Longrightarrow> write_unsigned_big_endian buf (v :: u128) 0 = Inr (big_endian_bytes 16 v)"
  by (simp add: write_unsigned_big_endian_def write_bytes_at_eq)

lemma read_u128: "read_unsigned_big_endian (big_endian_bytes 16 (v :: u128)) = v"
  using big_endian_bytes_read [of 16 v "[]"] by (simp add: read_unsigned_big_endian_def)

lemma WORKUNIT_KEY_LEN_eq [simp]: "WORKUNIT_KEY_LEN = 22"
  by (simp add: WORKUNIT_KEY_LEN_def PRICE_BYTES_def)

section \<open>The split of a producer\<close>

lemma book_endow: "sound_book T \<Longrightarrow> sint (endow (metadata (root T))) = amounts (offer_list T)"
proof -
  assume T: "sound_book T"
  then have plain: "meta_ok (\<lambda>v m. m = offer_metadata v) (root T)" by (simp add: sound_book_def book_def)
  have "0 < leaf_endow x" if "x \<in> set (leaves (root T))" for x
  proof -
    have "(fst x, fst (snd x)) \<in> set (offer_list T)" using that by (force simp: offer_list_def contents_leaves)
    then show ?thesis using sound_bookD(4) [OF T] leaves_meta [OF plain that] by simp
  qed
  moreover have "endow_total (leaves (root T)) = amounts (offer_list T)" using endow_total_amounts [OF plain] by (simp add: offer_list_def)
  ultimately show ?thesis
    using endow_exact [of "leaves (root T)"] sound_bookD(3) [OF T] metadata_leaves [OF plain] by simp
qed

lemma split_in_range:
  assumes "sound_book T" "trie_endow_split threshold T = Inr r" "0 \<le> sint threshold"
  shows "sint threshold \<le> amounts (offer_list T)"
proof (cases "threshold = 0")
  case True
  have "\<forall>(k, v) \<in> set (offer_list T). 0 < sint (offer_amount v :: i64)" using sound_bookD(4) [OF assms(1)] by blast
  then show ?thesis using amounts_nonneg True by simp
next
  case False
  then show ?thesis using assms book_endow [OF assms(1)] by (auto simp: trie_endow_split_def Let_def split: if_splits)
qed

lemma book_size: "sound_book T \<Longrightarrow> trie_size (root T) = Inr (of_nat (length (offer_list T)))"
proof -
  assume T: "sound_book T"
  have "length (leaves (root T)) < 2 ^ 32"
    using sound_bookD(2) [OF T] few_leaves_iff [OF book_inv(1) [OF sound_bookD(1) [OF T]]] by simp
  moreover have "meta_ok unit_size (root T)" using sound_bookD(1) [OF T] by (auto simp: book_def elim: meta_ok_mono)
  ultimately show ?thesis using trie_size_leaves [of "root T"] by (simp add: offer_list_def contents_leaves)
qed

lemma apply_list: "node_apply (root T) = map snd (offer_list T)"
  by (simp add: node_apply_correct offer_list_def)

section \<open>What a producer does\<close>

text \<open>
  The cut of the book: \<open>A\<close> is executed in full, the amounts of \<open>A\<close> being \<open>e\<close>, and \<open>S\<close> can be cleaned.
\<close>

definition cut_of :: "MerkleWorkUnit \<Rightarrow> (key \<times> Offer) list \<Rightarrow> (key \<times> Offer) list \<Rightarrow> i64 \<Rightarrow> Offer MerkleTrie \<Rightarrow> bool" where
  "cut_of w A B e S \<longleftrightarrow> offer_list (committed_offers w) = A @ B \<and> offer_list S = A \<and> sint e = amounts A \<and>
     (\<forall>k. length k = 44 \<and> (B \<noteq> [] \<longrightarrow> k = fst (hd B)) \<longrightarrow>
        (\<exists>S'. trie_clean_singlechild_nodes k S = Inr S' \<and> book S' \<and> offer_list S' = A))"

definition producer_commitment ::
    "FractionalAsset \<Rightarrow> FractionalAsset \<Rightarrow> byte list \<Rightarrow> u32 \<Rightarrow> SingleWorkUnitStateCommitment \<Rightarrow> SingleWorkUnitStateCommitment" where
  "producer_commitment supply remaining bytes null c = c\<lparr>fractionalSupplyActivated_bytes := big_endian_bytes 16 (fa_value supply),
     partialExecOfferActivationAmount_bytes := big_endian_bytes 16 (fa_value remaining), partialExecThresholdKey := bytes,
     thresholdKeyIsNull := null\<rparr>"

abbreviation remaining_of :: "FractionalAsset \<Rightarrow> i64 \<Rightarrow> FractionalAsset" where
  "remaining_of supply e \<equiv> fa_minus supply (from_integral (scast e))"

lemma narrow_nonneg:
  fixes v :: u128
  assumes "\<not> 2 ^ 63 - 1 < v"
  shows "0 \<le> sint (ucast v :: i64)" "sint (ucast v :: i64) = int (unat v)"
proof -
  have "unat v \<le> unat (2 ^ 63 - 1 :: u128)" using assms by (simp only: not_less word_le_nat_alt)
  then have v: "unat v < 2 ^ 63" by simp
  then have "take_bit 64 (unat v) = unat v" by (intro take_bit_nat_eq_self) simp
  then have "unat (ucast v :: i64) = unat v" by (simp add: unsigned_ucast_eq)
  then have "uint (ucast v :: i64) = int (unat v)" using uint_nat [of "ucast v :: i64"] by (simp only:)
  moreover have "int (unat v) < int (2 ^ 63)" using v by (simp only: of_nat_less_iff)
  then have "int (unat v) < 2 ^ 63" by (simp only: of_nat_power of_nat_numeral)
  moreover have "- (2 ^ 63) \<le> int (unat v)" by (rule order_trans [OF _ of_nat_0_le_iff]) simp
  ultimately have "signed_take_bit 63 (int (unat v)) = int (unat v)" "uint (ucast v :: i64) = int (unat v)"
    using signed_take_bit_int_eq_self [of 63 "int (unat v)"] by blast+
  then show s: "sint (ucast v :: i64) = int (unat v)" by (simp add: sint_uint)
  show "0 \<le> sint (ucast v :: i64)" by (simp add: s)
qed

lemma process_clear_split:
  assumes c: "commitment_sized c" and small: "\<not> 2 ^ 63 - 1 < fa_floor supply"
    and split: "trie_endow_split (ucast (fa_floor supply)) (committed_offers w) = Inr (S, T1)"
    and S: "offer_list S = A" "trie_size (root S) = Inr (of_nat (length A))" "endow (metadata (root S)) = e"
    and pq: "price_of prices (sellAsset (wu_category w)) = Inr p" "price_of prices (buyAsset (wu_category w)) = Inr q"
      "clear_all p q tax (map snd A) (db, log) = Inr (dbA, logA)" "thunks w \<noteq> []"
  shows "process_clear_offers supply prices tax w (db, log, stats) c =
    (let th = (last (thunks w))\<lparr>cleared_offers := S\<rparr>; stats = count_full (of_nat (length A)) stats;
         c = producer_commitment supply (remaining_of supply e) (partialExecThresholdKey c) (thresholdKeyIsNull c) c
     in case node_get_lowest_key (root T1) of
          None \<Rightarrow>
            if remaining_of supply e \<noteq> from_integral 0
            then Inl (Runtime_error ''null partial_exec_key (lowest offer key) but remaining to clear is nonzero'')
            else Inr (w\<lparr>committed_offers := T1, thunks := butlast (thunks w) @ [set_no_partial_exec th]\<rparr>, (dbA, logA, stats),
              c\<lparr>partialExecThresholdKey := replicate 22 0, thresholdKeyIsNull := 1\<rparr>)
        | Some k \<Rightarrow> clear_partial_offer k (remaining_of supply e) p q tax
            (w\<lparr>committed_offers := T1, thunks := butlast (thunks w) @ [th]\<rparr>) (dbA, logA, stats) c)"
proof -
  have wr: "write_unsigned_big_endian (fractionalSupplyActivated_bytes c) (fa_value supply) 0 = Inr (big_endian_bytes 16 (fa_value supply))"
    "write_unsigned_big_endian (partialExecOfferActivationAmount_bytes c) v 0 = Inr (big_endian_bytes 16 v)" for v :: u128
    using c by (simp_all add: commitment_sized_def write_u128)
  have key: "length (partialExecThresholdKey c) = 22" using c by (simp add: commitment_sized_def)
  have small': "\<not> 9223372036854775807 < fa_floor supply" using small by simp
  have top: "get_top_thunk w = Inr (last (thunks w))" using pq(4) by (simp add: get_top_thunk_def)
  have top': "get_top_thunk (w'\<lparr>thunks := xs @ [th]\<rparr>) = Inr th" for w' xs th by (simp add: get_top_thunk_def)
  show ?thesis
    unfolding process_clear_offers_def split_conv
    by (simp add: small' split S pq wr top top' key apply_list set_top_thunk_def Let_def producer_commitment_def
        get_top_thunk_def del: not_less cong: option.case_cong if_cong)
qed

lemma clear_partial_spec:
  assumes run: "clear_partial_offer k x p q tax w (db, log, stats) c = Inr (w1, (db1, log1, stats1), c1)"
    and T: "book (committed_offers w)" "few_leaves (committed_offers w)" "offer_list (committed_offers w) = (k, v) # B"
    and key: "length k = 44" "length (partialExecThresholdKey c) = 22" and th: "thunks w = xs @ [th]"
  obtains idx sell buy where "lookup_user_id db (offer_owner v) = Some idx"
    "clear_offer_partial db_transfer_available v p q tax x db idx = Inr (db1, sell, buy)" "\<not> offer_amount v < sell"
    "stats1 = (if 0 < offer_amount v - sell then count_partial else id) stats" "book (committed_offers w1)"
    "offers (committed_offers w1) = (if 0 < offer_amount v - sell
       then (map_of B)(k \<mapsto> v\<lparr>offer_amount := offer_amount v - sell\<rparr>) else map_of B)"
    "w1 = w\<lparr>committed_offers := committed_offers w1, thunks := xs @ [set_partial_exec k sell v th]\<rparr>"
    "c1 = c\<lparr>thresholdKeyIsNull := 0, partialExecThresholdKey := get_bytes_array k\<rparr>"
proof -
  have T1: "offers (committed_offers w) = map_of ((k, v) # B)" using T(3) by (simp add: offers_offer_list)
  obtain T2 where T2: "trie_perform_deletion k (committed_offers w) = Inr (Some v, T2)" "book T2"
    "offers T2 = (offers (committed_offers w))(k := None)"
    using book_delete [OF T(1) key(1) T(2)] T1 by auto
  have "k \<notin> fst ` set B" using offer_list_distinct [OF T(1)] by (simp add: T(3))
  then have "map_of B k = None" by (simp add: map_of_eq_None_iff)
  then have T2': "offers T2 = map_of B" unfolding T2(3) T1 by (auto simp: fun_eq_iff)
  obtain log2 where log2: "log_self_modification (offer_owner v) (offerId v) log = Inr log2"
    using log_self_modification_returns(1) by blast
  let ?cp = "clear_offer_partial db_transfer_available v p q tax x db"
  obtain idx where idx: "lookup_user_id db (offer_owner v) = Some idx"
    using run by (cases "lookup_user_id db (offer_owner v)") (simp_all add: clear_partial_offer_def T2(1) log2 Let_def)
  obtain db2 sell buy where cp: "?cp idx = Inr (db2, sell, buy)"
    using run by (cases "?cp idx") (simp_all add: clear_partial_offer_def T2(1) log2 idx Let_def, force)
  have sell: "\<not> offer_amount v < sell"
    using run by (cases "offer_amount v < sell") (simp_all add: clear_partial_offer_def T2(1) log2 idx cp Let_def)
  define offer' where "offer' = v\<lparr>offer_amount := offer_amount v - sell\<rparr>"
  obtain T3 where T3: "trie_insert offer_insert_fn k offer' T2 = Inr T3" "book T3" "offers T3 = (offers T2)(k \<mapsto> offer')"
    using book_insert [OF T2(2) key(1)] by blast
  have out: "(w1, (db1, log1, stats1), c1) =
      (let w' = \<lambda>T. w\<lparr>committed_offers := T, thunks := xs @ [set_partial_exec k sell v th]\<rparr>;
           c' = c\<lparr>thresholdKeyIsNull := 0, partialExecThresholdKey := get_bytes_array k\<rparr>
       in if 0 < offer_amount offer' then (w' T3, (db2, log2, count_partial stats), c') else (w' T2, (db2, log2, stats), c'))"
    using run sell T3(1) by (simp add: clear_partial_offer_def T2(1) log2 idx cp Let_def get_top_thunk_def th key
        length_get_bytes set_top_thunk_def offer'_def del: not_less split: if_splits) auto
  have "db1 = db2" using out by (simp add: Let_def split: if_splits)
  note spec = that [OF idx cp [folded this] sell]
  show thesis
  proof (cases "0 < offer_amount v - sell")
    case True
    then show ?thesis using spec out T2(2) T3(2,3) T2' by (simp add: Let_def offer'_def)
  next
    case False
    then show ?thesis using spec out T2(2) T3(2,3) T2' by (simp add: Let_def offer'_def)
  qed
qed

lemma process_clear_cases:
  assumes T: "sound_book (committed_offers w)" and c: "commitment_sized c"
    and r: "process_clear_offers supply prices tax w (db, log, stats) c = Inr (w1, (db1, log1, stats1), c1)"
  obtains (full) p q A e S log2 where
      "price_of prices (sellAsset (wu_category w)) = Inr p" "price_of prices (buyAsset (wu_category w)) = Inr q"
      "cut_of w A [] e S" "clear_all p q tax (map snd A) (db, log) = Inr (db1, log2)" "thunks w \<noteq> []"
      "remaining_of supply e = from_integral 0" "stats1 = count_full (of_nat (length A)) stats"
      "book (committed_offers w1)" "offers (committed_offers w1) = Map.empty"
      "w1 = w\<lparr>committed_offers := committed_offers w1,
         thunks := butlast (thunks w) @ [set_no_partial_exec ((last (thunks w))\<lparr>cleared_offers := S\<rparr>)]\<rparr>"
      "c1 = producer_commitment supply (remaining_of supply e) (replicate 22 0) 1 c"
  | (partial) p q A k v B e S dbA logA idx sell buy offer' where
      "price_of prices (sellAsset (wu_category w)) = Inr p" "price_of prices (buyAsset (wu_category w)) = Inr q"
      "cut_of w A ((k, v) # B) e S" "clear_all p q tax (map snd A) (db, log) = Inr (dbA, logA)" "thunks w \<noteq> []"
      "lookup_user_id dbA (offer_owner v) = Some idx"
      "clear_offer_partial db_transfer_available v p q tax (remaining_of supply e) dbA idx = Inr (db1, sell, buy)"
      "\<not> offer_amount v < sell" "offer' = v\<lparr>offer_amount := offer_amount v - sell\<rparr>"
      "stats1 = (if 0 < offer_amount offer' then count_partial else id) (count_full (of_nat (length A)) stats)"
      "book (committed_offers w1)"
      "offers (committed_offers w1) = (if 0 < offer_amount offer' then (map_of B)(k \<mapsto> offer') else map_of B)"
      "w1 = w\<lparr>committed_offers := committed_offers w1,
         thunks := butlast (thunks w) @ [set_partial_exec k sell v ((last (thunks w))\<lparr>cleared_offers := S\<rparr>)]\<rparr>"
      "c1 = producer_commitment supply (remaining_of supply e) (get_bytes_array k) 0 c"
proof -
  let ?T = "committed_offers w" and ?thr = "ucast (fa_floor supply) :: i64"
  have small: "\<not> 2 ^ 63 - 1 < fa_floor supply" using r by (auto simp: process_clear_offers_def Let_def split: if_splits)
  have thr: "0 \<le> sint ?thr" by (rule narrow_nonneg(1) [OF small])
  obtain S T1 where split: "trie_endow_split ?thr ?T = Inr (S, T1)"
    using r small by (auto simp: process_clear_offers_def Let_def)
  obtain A B where ab: "offer_list ?T = A @ B" "offer_list S = A" "offer_list T1 = B" "book T1"
    "sint (endow (metadata (root S))) = amounts A" "trie_size (root S) = Inr (of_nat (length A))"
    "\<forall>k. length k = 44 \<and> (B \<noteq> [] \<longrightarrow> k = fst (hd B)) \<longrightarrow>
      (\<exists>S'. trie_clean_singlechild_nodes k S = Inr S' \<and> book S' \<and> offer_list S' = A)"
    using book_split [OF T thr split_in_range [OF T split thr]] unfolding split by auto
  define e where "e = endow (metadata (root S))"
  have cut: "cut_of w A B e S" using ab by (simp add: cut_of_def e_def)
  have wr: "write_unsigned_big_endian (fractionalSupplyActivated_bytes c) (fa_value supply) 0 = Inr (big_endian_bytes 16 (fa_value supply))"
    using c by (simp add: commitment_sized_def write_u128)
  have small': "\<not> 9223372036854775807 < fa_floor supply" using small by simp
  note cut0 = split
  note run0 = r [unfolded process_clear_offers_def split_conv Let_def]
  obtain p where p: "price_of prices (sellAsset (wu_category w)) = Inr p"
    using run0 by (cases "price_of prices (sellAsset (wu_category w))") (simp_all add: small' wr cut0 del: res_bind_eq_Inr)
  obtain q where q: "price_of prices (buyAsset (wu_category w)) = Inr q"
    using run0 by (cases "price_of prices (buyAsset (wu_category w))") (simp_all add: small' wr cut0 p del: res_bind_eq_Inr)
  obtain dbA logA where cl: "clear_all p q tax (map snd A) (db, log) = Inr (dbA, logA)"
    using run0 by (cases "clear_all p q tax (map snd A) (db, log)") (simp_all add: small' wr cut0 p q apply_list ab(2) del: res_bind_eq_Inr, force)
  have "thunks w \<noteq> []"
    using run0 by (cases "thunks w = []") (simp_all add: small' wr cut0 p q cl apply_list ab(2,6) get_top_thunk_def del: res_bind_eq_Inr)
  note pq = p q cl this
  note eq = process_clear_split [OF c small split ab(2,6) e_def [symmetric] pq]
  show thesis
  proof (cases B)
    case Nil
    then have low: "node_get_lowest_key (root T1) = None" using book_lowest_key [OF ab(4)] ab(3) by simp
    have rem: "remaining_of supply e = from_integral 0"
      using r unfolding eq low by (simp add: Let_def split: if_splits)
    have out: "w1 = w\<lparr>committed_offers := T1,
         thunks := butlast (thunks w) @ [set_no_partial_exec ((last (thunks w))\<lparr>cleared_offers := S\<rparr>)]\<rparr>"
      "c1 = producer_commitment supply (remaining_of supply e) (replicate 22 0) 1 c" "db1 = dbA"
      "stats1 = count_full (of_nat (length A)) stats"
      using r rem unfolding eq low by (simp_all add: Let_def producer_commitment_def)
    have "offers (committed_offers w1) = Map.empty" using ab(3) Nil by (simp add: out(1) offers_offer_list)
    moreover have "book (committed_offers w1)" using ab(4) by (simp add: out(1))
    ultimately show ?thesis
      using full [OF pq(1,2) cut [unfolded Nil] pq(3) [folded out(3)] pq(4) rem out(4)] out(1,2) by simp
  next
    case (Cons x B')
    obtain k v where x: "x = (k, v)" by (cases x)
    have low: "node_get_lowest_key (root T1) = Some k" using book_lowest_key [OF ab(4)] ab(3) Cons x by simp
    have run: "clear_partial_offer k (remaining_of supply e) p q tax
        (w\<lparr>committed_offers := T1, thunks := butlast (thunks w) @ [(last (thunks w))\<lparr>cleared_offers := S\<rparr>]\<rparr>)
        (dbA, logA, count_full (of_nat (length A)) stats)
        (producer_commitment supply (remaining_of supply e) (partialExecThresholdKey c) (thresholdKeyIsNull c) c) =
      Inr (w1, (db1, log1, stats1), c1)"
      using r unfolding eq low by (simp add: Let_def)
    have list: "offer_list T1 = (k, v) # B'" using ab(3) Cons x by simp
    have kin: "(k, v) \<in> set (offer_list ?T)" by (simp add: ab(1) Cons x)
    then have key: "length k = 44" using sound_bookD(4) [OF T kin] length_offer_key by simp
    have T1: "offers T1 = map_of ((k, v) # B')" using list by (simp add: offers_offer_list)
    have "few_leaves T1"
    proof (rule few_within [OF book_inv(1) [OF ab(4)], of "dom (offers ?T)"])
      show "dom (offers T1) \<subseteq> dom (offers ?T)" unfolding offers_offer_list ab(1,3) dom_map_of_conv_image_fst by auto
    qed (use few_offers [OF book_inv(1) [OF sound_bookD(1) [OF T]]] sound_bookD(2) [OF T] finite_offers [OF book_inv(1) [OF sound_bookD(1) [OF T]]] in simp_all)
    then have few: "few_leaves T1" .
    let ?w = "w\<lparr>committed_offers := T1, thunks := butlast (thunks w) @ [(last (thunks w))\<lparr>cleared_offers := S\<rparr>]\<rparr>"
    show ?thesis
    proof (rule clear_partial_spec [OF run, of v B' "butlast (thunks w)" "(last (thunks w))\<lparr>cleared_offers := S\<rparr>"])
      show "book (committed_offers ?w)" "few_leaves (committed_offers ?w)" "offer_list (committed_offers ?w) = (k, v) # B'"
        using ab(4) few list by simp_all
    next
      fix idx sell buy
      assume idx: "lookup_user_id dbA (offer_owner v) = Some idx"
        and cp: "clear_offer_partial db_transfer_available v p q tax (remaining_of supply e) dbA idx = Inr (db1, sell, buy)"
          "\<not> offer_amount v < sell"
          "stats1 = (if 0 < offer_amount v - sell then count_partial else id) (count_full (of_nat (length A)) stats)"
          "book (committed_offers w1)"
          "offers (committed_offers w1) = (if 0 < offer_amount v - sell
            then (map_of B')(k \<mapsto> v\<lparr>offer_amount := offer_amount v - sell\<rparr>) else map_of B')"
          "w1 = ?w\<lparr>committed_offers := committed_offers w1,
            thunks := butlast (thunks w) @ [set_partial_exec k sell v ((last (thunks w))\<lparr>cleared_offers := S\<rparr>)]\<rparr>"
          "c1 = (producer_commitment supply (remaining_of supply e) (partialExecThresholdKey c) (thresholdKeyIsNull c) c)
            \<lparr>thresholdKeyIsNull := 0, partialExecThresholdKey := get_bytes_array k\<rparr>"
      show thesis
        by (rule partial [OF pq(1,2) cut [unfolded Cons x] pq(3,4) idx cp(1,2) refl])
          (use cp(3-7) in \<open>simp_all add: producer_commitment_def\<close>)
    qed (use key c in \<open>simp_all add: producer_commitment_def commitment_sized_def\<close>)
  qed
qed

section \<open>A validator agrees\<close>

lemma fa_ext: "fa_value x = fa_value y \<Longrightarrow> (x :: FractionalAsset) = y"
  by (cases x; cases y) simp

lemma commitment_read:
  "partialExecOfferActivationAmount (producer_commitment supply remaining bytes null c) = remaining"
  "fractionalSupplyActivated (producer_commitment supply remaining bytes null c) = supply"
  "partialExecThresholdKey (producer_commitment supply remaining bytes null c) = bytes"
  "check_sanity (producer_commitment supply remaining bytes null c) \<longleftrightarrow> (if bytes \<noteq> replicate 22 0 then null = 0 else null = 1)"
  by (simp_all add: producer_commitment_def partialExecOfferActivationAmount_def fractionalSupplyActivated_def read_u128
      check_sanity_def OFFER_KEY_LEN_BYTES_def)

lemma fa_remaining: "fa_plus (fa_plus acc (from_integral (scast e))) (remaining_of supply e) = fa_plus acc supply"
  by (rule fa_ext) (simp add: fa_plus_def fa_minus_def)

text \<open>The validator's agreement with the producer's result.\<close>

definition agrees ::
    "MemoryDatabase \<Rightarrow> MerkleWorkUnit \<Rightarrow> MemoryDatabase \<Rightarrow> BlockStateUpdateStats \<Rightarrow> FractionalAsset \<Rightarrow> SingleWorkUnitStateCommitment \<Rightarrow>
     (bool \<times> MerkleWorkUnit \<times> clearing_state \<times> FractionalAsset) \<Rightarrow> bool" where
  "agrees db w1 db1 stats1 supply_seen c1 = (\<lambda>(ok, w2, (db2, log2, stats2), activated).
     ok \<and> book (committed_offers w2) \<and> offers (committed_offers w2) = offers (committed_offers w1) \<and>
     (\<forall>k. db_valid db k \<longrightarrow> db_balance db2 k = db_balance db1 k) \<and> stats2 = stats1 \<and>
     fa_plus activated (partialExecOfferActivationAmount c1) = supply_seen)"

lemma validator_agrees_full:
  assumes T: "sound_book (committed_offers w)" and th: "thunks w \<noteq> []"
    and pq: "price_of prices (sellAsset (wu_category w)) = Inr p" "price_of prices (buyAsset (wu_category w)) = Inr q"
    and cut: "cut_of w A [] e S" and cl: "clear_all p q tax (map snd A) (db, log) = Inr (db1, log1)"
    and rem: "remaining_of supply e = from_integral 0"
    and w1: "offers (committed_offers w1) = Map.empty" "stats1 = count_full (of_nat (length A)) stats"
    and c1: "c1 = producer_commitment supply (remaining_of supply e) (replicate 22 0) 1 c"
  shows "\<exists>r. tentative_clear_offers_for_validation c1 prices tax w (db, log, stats) acc = Inr r \<and>
    agrees db w1 db1 stats1 (fa_plus acc supply) c1 r"
proof -
  let ?T = "committed_offers w" and ?k = "replicate 44 0 :: key"
  have list: "offer_list ?T = A" using cut by (simp add: cut_of_def)
  obtain e0 where e0: "trie_endow_lt_key ?k ?T = Inr e0" "sint e0 = amounts (filter (\<lambda>x. key_less (fst x) ?k) (offer_list ?T))"
    using book_endow_below [OF T, of ?k] by auto
  have "filter (\<lambda>x. key_less (fst x) ?k) (offer_list ?T) = []" by (simp only: not_less_zero_key filter_False) simp
  then have "sint e0 = 0" using e0(2) by simp
  then have e00: "e0 = 0" by (metis signed_0 signed_word_eqI)
  have none: "offers ?T ?k = None"
  proof (rule ccontr)
    assume "offers ?T ?k \<noteq> None"
    then obtain v where "offers ?T ?k = Some v" by blast
    then have "?k = key_of v" "is_valid_price (minPrice v)" using T by (auto simp: sound_book_def)
    then show False using zero_key_unused by metis
  qed
  obtain T' where T': "trie_perform_deletion ?k ?T = Inr (None, T')" "book T'" "offers T' = (offers ?T)(?k := None)"
    using book_delete [OF sound_bookD(1) [OF T], of ?k] sound_bookD(2) [OF T] none by auto
  note s = sound_sub_book(1,3) [OF T T'(2,3)]
  have listT': "offer_list T' = A" using s(2) [OF none] list by simp
  have "sint (endow (metadata (root T'))) = sint e" using book_endow [OF s(1)] listT' cut by (simp add: cut_of_def)
  then have endow: "endow (metadata (root T')) = e" by (rule signed_word_eqI)
  have "fa_plus (fa_plus acc (from_integral (scast e))) (from_integral 0) = fa_plus acc supply"
    using fa_remaining [of acc e "supply"] unfolding rem .
  moreover have "from_integral 0 = \<lparr>fa_value = 0\<rparr>" by (simp add: from_integral_def)
  moreover have "fa_plus acc (from_integral (scast e0)) = acc" by (rule fa_ext) (simp add: e00 fa_plus_def from_integral_def)
  ultimately show ?thesis
    using th e0(1) T' book_size [OF s(1)] pq cl w1 rem
    by (simp add: tentative_clear_offers_for_validation_def commitment_read c1 bytes_key_zero validate_no_partial_def apply_list
        listT' endow get_top_thunk_def set_top_thunk_def agrees_def Let_def)
qed

lemma validator_agrees_partial:
  assumes T: "sound_book (committed_offers w)" and th: "thunks w \<noteq> []" and cat: "category v = wu_category w"
    and pq: "price_of prices (sellAsset (wu_category w)) = Inr p" "price_of prices (buyAsset (wu_category w)) = Inr q"
    and cut: "cut_of w A ((k, v) # B) e S" and cl: "clear_all p q tax (map snd A) (db, log) = Inr (dbA, logA)"
    and idx: "lookup_user_id dbA (offer_owner v) = Some idx"
    and cp: "clear_offer_partial db_transfer_available v p q tax (remaining_of supply e) dbA idx = Inr (db1, sell, buy)"
    and sell: "\<not> offer_amount v < sell" "offer' = v\<lparr>offer_amount := offer_amount v - sell\<rparr>"
    and w1: "offers (committed_offers w1) = (if 0 < offer_amount offer' then (map_of B)(k \<mapsto> offer') else map_of B)"
      "stats1 = (if 0 < offer_amount offer' then count_partial else id) (count_full (of_nat (length A)) stats)"
    and c1: "c1 = producer_commitment supply (remaining_of supply e) (get_bytes_array k) 0 c"
  shows "\<exists>r. tentative_clear_offers_for_validation c1 prices tax w (db, log, stats) acc = Inr r \<and>
    agrees db w1 db1 stats1 (fa_plus acc supply) c1 r"
proof -
  let ?T = "committed_offers w"
  have list: "offer_list ?T = A @ (k, v) # B" "sint e = amounts A" using cut by (simp_all add: cut_of_def)
  have kv: "(k, v) \<in> set (offer_list ?T)" by (simp add: list)
  have k: "length k = 44" using sound_bookD(4) [OF T kv] length_offer_key by simp
  have key: "bytes_key (get_bytes_array k) = k" using k by (simp add: bytes_key_get_bytes)
  note mid = sorted_middle [of A k v B, folded list, OF offer_list_sorted [OF sound_bookD(1) [OF T]]]
  obtain e0 where e0: "trie_endow_lt_key k ?T = Inr e0" "sint e0 = sint e"
    using book_endow_below [OF T k] by (auto simp: mid(1) list(2))
  then have e00: "e0 = e" by (blast intro: signed_word_eqI)
  obtain T0 where T0: "trie_perform_deletion k ?T = Inr (Some v, T0)" "book T0" "offers T0 = (offers ?T)(k := None)"
    using book_delete [OF sound_bookD(1) [OF T] k] sound_bookD(2,5) [OF T] kv by auto
  note s = sound_sub_book(1) [OF T T0(2,3)] and listT0 = sound_sub_book(2) [OF T T0(2,3) list(1)]
  have pos: "\<forall>(k, v) \<in> set (A @ B). 0 < sint (offer_amount v :: i64)" using sound_bookD(4) [OF s] by (auto simp: listT0)
  have nonneg: "0 \<le> amounts A" "0 \<le> amounts B" using pos by (auto intro!: amounts_nonneg)
  have range: "0 \<le> sint e" "sint e \<le> amounts (offer_list T0)" using nonneg by (simp_all add: listT0 list(2))
  obtain S' T' A' B' where sp: "trie_endow_split e T0 = Inr (S', T')" "offer_list T0 = A' @ B'" "offer_list S' = A'" "offer_list T' = B'"
    "book T'" "amounts A' \<le> sint e" "B' \<noteq> [] \<longrightarrow> sint e < amounts A' + sint (offer_amount (snd (hd B')) :: i64)"
    "trie_size (root S') = Inr (of_nat (length A'))"
    using book_split [OF s range] by blast
  have "A' = A \<and> B' = B"
    using cut_unique [OF pos, of A' B'] sp(2,6,7) by (simp add: listT0 list(2))
  then have lists: "offer_list S' = A" "offer_list T' = B" "length A' = length A" using sp(3,4) by simp_all
  have pA: "pays db (\<lambda>k. \<Sum>offer \<leftarrow> map snd A. credit db offer (payout p q tax (sold_in_full offer)) k) dbA"
    by (rule clear_all_spec(2) [OF cl])
  obtain log2 where log2: "log_self_modification (offer_owner v) (offerId v) log = Inr log2" using log_self_modification_returns(1) by blast
  have idx0: "lookup_user_id db (offer_owner v) = Some idx" using pays_index [OF pA] idx by simp
  have "has_account dbA v" using clear_offer_partial_spec(1) [OF idx] cp by blast
  then have "has_account db v" using pays_credit [OF pA] by simp
  then obtain dbp sell' buy' where cp0: "clear_offer_partial db_transfer_available v p q tax (remaining_of supply e) db idx = Inr (dbp, sell', buy')"
    using clear_offer_partial_spec(1) [OF idx0, of p q tax "remaining_of supply e"] by (metis prod_cases3)
  note part = clear_offer_partial_spec(2) [OF idx cp] clear_offer_partial_spec(2) [OF idx0 cp0]
  then have sell': "sell' = sell" by simp
  note pP = part(2) [THEN conjunct1]
  have "\<forall>offer \<in> set (map snd A). clearable p q db offer" using clear_all_spec(1) cl by blast
  then have "\<forall>offer \<in> set (map snd A). clearable p q dbp offer" using pays_credit [OF pP] by simp
  then obtain db2 log3 where cl2: "clear_all p q tax (map snd A) (dbp, log2) = Inr (db2, log3)"
    using clear_all_spec(1) [of p q tax "map snd A" dbp log2] by force
  note moves = pays_trans [OF pA part(1) [THEN conjunct1]] pays_trans [OF pP clear_all_spec(2) [OF cl2]]
  have same: "credit dbA = credit db" "credit dbp = credit db" using pays_credit [OF pA] pays_credit [OF pP] by blast+
  let ?f = "\<lambda>k. \<Sum>offer \<leftarrow> map snd A. credit db offer (payout p q tax (sold_in_full offer)) k" and
    ?g = "credit db v (payout p q tax (remaining_of supply e))"
  have bal: "db_balance db2 j = db_balance db1 j" if "db_valid db j" for j
  proof -
    have "pays db (\<lambda>k. ?f k + ?g k) db1" "pays db (\<lambda>k. ?g k + ?f k) db2" using moves unfolding same by blast+
    then have "db_balance db1 j = db_balance db j + (?f j + ?g j)" "db_balance db2 j = db_balance db j + (?g j + ?f j)"
      using that unfolding pays_def by blast+
    then show ?thesis by (simp only: add.commute [of "?g j"])
  qed
  have T': "offers T' = map_of B" using lists(2) by (simp add: offers_offer_list)
  obtain T3 where T3: "trie_insert offer_insert_fn k offer' T' = Inr T3" "book T3" "offers T3 = (offers T')(k \<mapsto> offer')"
    using book_insert [OF sp(5) k] by blast
  have zero: "0 < offer_amount offer' \<longleftrightarrow> offer_amount offer' \<noteq> 0" by (simp add: word_neq_0_conv)
  let ?act = "fa_plus acc (from_integral (scast e))"
  let ?w2 = "\<lambda>X. w\<lparr>committed_offers := X, thunks := butlast (thunks w) @ [(set_partial_exec k sell v (last (thunks w)))\<lparr>cleared_offers := S'\<rparr>]\<rparr>"
  let ?n = "count_full (of_nat (length A)) stats"
  have "tentative_clear_offers_for_validation c1 prices tax w (db, log, stats) acc =
    Inr (if offer_amount offer' \<noteq> 0 then (True, ?w2 T3, (db2, log3, count_partial ?n), ?act) else (True, ?w2 T', (db2, log3, ?n), ?act))"
    using th T3(1) sell
    by (simp add: tentative_clear_offers_for_validation_def c1 commitment_read key e0(1) e00 pq T0(1) validate_partial_def log2 idx0 cat
        cp0 sell' get_top_thunk_def sp(1,8) apply_list lists cl2 set_top_thunk_def Let_def del: not_less)
  moreover have "agrees db w1 db1 stats1 (fa_plus acc supply) c1
      (if offer_amount offer' \<noteq> 0 then (True, ?w2 T3, (db2, log3, count_partial ?n), ?act) else (True, ?w2 T', (db2, log3, ?n), ?act))"
    using bal sp(5) T3(2,3) T' w1 fa_remaining [of acc e "supply"] by (simp add: agrees_def c1 commitment_read zero)
  ultimately show ?thesis by blast
qed

lemma validator_agrees:
  assumes T: "sound_book (committed_offers w)" and c: "commitment_sized c"
    and cat: "\<forall>(k, v) \<in> set (offer_list (committed_offers w)). category v = wu_category w"
    and r: "process_clear_offers supply prices tax w (db, log, stats) c = Inr (w1, (db1, log1, stats1), c1)"
  shows "\<exists>r. tentative_clear_offers_for_validation c1 prices tax w (db, log, stats) acc = Inr r \<and>
    agrees db w1 db1 stats1 (fa_plus acc supply) c1 r \<and> fractionalSupplyActivated c1 = supply \<and> check_sanity c1"
  using T c r
proof (cases rule: process_clear_cases)
  case (full p q A e S log2)
  show ?thesis
    using validator_agrees_full [OF T full(5,1-4,6,9,7,11)] full(11) by (simp add: commitment_read)
next
  case (partial p q A k v B e S dbA logA idx sell buy offer')
  have kv: "(k, v) \<in> set (offer_list (committed_offers w))" using partial(3) by (simp add: cut_of_def)
  have "get_bytes_array k \<noteq> replicate 22 0"
  proof
    assume "get_bytes_array k = replicate 22 0"
    then have "bytes_key (get_bytes_array k) = replicate 44 0" by (simp add: bytes_key_zero)
    moreover have k: "k = key_of v" "is_valid_price (minPrice v)" using sound_bookD(4) [OF T kv] by blast+
    moreover have "bytes_key (get_bytes_array k) = k" by (rule bytes_key_get_bytes) (simp add: k)
    ultimately show False using zero_key_unused by metis
  qed
  then have "fractionalSupplyActivated c1 = supply \<and> check_sanity c1" using partial(14) by (simp add: commitment_read)
  moreover have "category v = wu_category w" using cat kv by blast
  ultimately show ?thesis using validator_agrees_partial [OF T partial(5) _ partial(1-4,6-9,12,10,14)] by blast
qed

end
