(* ===== verification/Work_Unit_Undo.thy ===== *)
theory Work_Unit_Undo
  imports Work_Unit_Laws
begin

text \<open>
  Undoing a block: what the thunk of a block restores.
\<close>

section \<open>The loops of an undo\<close>

lemma book_insert_all:
  assumes "book T" "\<forall>(k, v) \<in> set kvs. length k = 44"
  shows "\<exists>T'. insert_all kvs T = Inr T' \<and> book T' \<and> offers T' = offers T ++ map_of (rev kvs)"
  using assms
proof (induction kvs arbitrary: T)
  case (Cons kv kvs)
  obtain k v where kv: "kv = (k, v)" by (cases kv)
  obtain T1 where T1: "trie_insert offer_insert_fn k v T = Inr T1" "book T1" "offers T1 = (offers T)(k \<mapsto> v)"
    using book_insert [OF Cons.prems(1)] Cons.prems(2) kv by fastforce
  obtain T2 where "insert_all kvs T1 = Inr T2" "book T2" "offers T2 = offers T1 ++ map_of (rev kvs)"
    using Cons.IH [OF T1(2)] Cons.prems(2) by auto
  then show ?case using T1 kv by (auto simp: map_add_def fun_eq_iff split: option.split)
qed simp

lemma map_of_rev_distinct: "distinct (map fst kvs) \<Longrightarrow> map_of (rev kvs) = map_of kvs"
  by (rule map_of_inject_set [THEN iffD2]) (simp_all flip: rev_map)

lemma book_mark_all:
  assumes "marked_book T" "few_leaves T"
  shows "\<exists>T'. mark_all os T = Inr T' \<and> marked_book T' \<and> offers T' = offers T \<and>
    marked_keys T' = marked_keys T \<union> key_of ` set os \<inter> dom (offers T)"
  using assms
proof (induction os arbitrary: T)
  case (Cons offer os)
  obtain found T1 where T1: "trie_mark_for_deletion (key_of offer) T = Inr (found, T1)" "marked_book T1" "offers T1 = offers T"
    "marked_keys T1 = marked_keys T \<union> {key_of offer} \<inter> dom (offers T)"
    using book_mark [OF Cons.prems, of "key_of offer"] length_offer_key by fastforce
  have "few_leaves T1"
    using few_offers [OF book_inv(2) [OF T1(2)]] few_offers [OF book_inv(2) [OF Cons.prems(1)]] Cons.prems(2) by (simp add: T1(3))
  then show ?case using Cons.IH [OF T1(2)] T1 by auto
qed simp

lemma book_unmarked: "book T \<Longrightarrow> marked_keys T = {}"
  using book_leaf_map [of T] by (auto simp: marked_keys_def plain_map_def)

lemma undo_thunk_spec:
  assumes w: "book (committed_offers w)" and del: "\<forall>(k, v) \<in> set (deleted_keys th). length k = 44" "distinct (map fst (deleted_keys th))"
    and C: "trie_clean_singlechild_nodes (partial_exec_key th) (cleared_offers th) = Inr C" "book C"
    and K: "finite K" "card K < 2 ^ 32" "dom (offers (committed_offers w)) \<union> fst ` set (deleted_keys th) \<union> dom (offers C) \<subseteq> K"
    and p: "exists_partial_exec th = Some b" "length (partial_exec_key th) = 44"
  shows "\<exists>T. undo_thunk th w = Inr (w\<lparr>committed_offers := T\<rparr>) \<and> book T \<and>
    offers T = (let M = (offers (committed_offers w) ++ map_of (deleted_keys th) ++ offers C) |` (- key_of ` set (uncommitted_offers_vec th))
                in if b then M(partial_exec_key th \<mapsto> preexecute_partial_exec_offer th) else M)"
proof -
  let ?k = "partial_exec_key th" and ?v = "preexecute_partial_exec_offer th"
  obtain T1 where T1: "insert_all (deleted_keys th) (committed_offers w) = Inr T1" "book T1"
    "offers T1 = offers (committed_offers w) ++ map_of (deleted_keys th)"
    using book_insert_all [OF w del(1)] map_of_rev_distinct [OF del(2)] by auto
  have "few_leaves T1" "few_leaves C"
    using K T1(3) few_within [OF book_inv(1) [OF T1(2)] _ K(1,2)] few_within [OF book_inv(1) [OF C(2)] _ K(1,2)]
    by (auto simp: dom_map_of_conv_image_fst)
  then obtain T2 where T2: "trie_merge_in OverwriteMergeFn C T1 = Inr T2" "book T2" "offers T2 = offers T1 ++ offers C"
    using book_merge [OF T1(2) _ C(2)] by blast
  have "few_leaves T2"
    using K T2(3) T1(3) few_within [OF book_inv(1) [OF T2(2)] _ K(1,2)] by (auto simp: dom_map_of_conv_image_fst)
  then obtain T3 where T3: "mark_all (uncommitted_offers_vec th) T2 = Inr T3" "marked_book T3" "offers T3 = offers T2"
    "marked_keys T3 = key_of ` set (uncommitted_offers_vec th) \<inter> dom (offers T2)"
    using book_mark_all [OF book_marked [OF T2(2)]] book_unmarked [OF T2(2)] by fastforce
  have "few_leaves T3"
    using few_offers [OF book_inv(2) [OF T3(2)]] few_offers [OF book_inv(1) [OF T2(2)]] \<open>few_leaves T2\<close> by (simp add: T3(3))
  then obtain T4 out where T4: "trie_perform_marked_deletions T3 = Inr (T4, out)" "book T4"
    "offers T4 = (\<lambda>k. if k \<in> marked_keys T3 then None else offers T3 k)"
    using book_apply_deletions [OF T3(2)] by blast
  have map: "offers T4 = (offers T1 ++ offers C) |` (- key_of ` set (uncommitted_offers_vec th))"
    unfolding T4(3) T3(3,4) T2(3) by (auto simp: fun_eq_iff restrict_map_def split: option.split)
  obtain T5 where T5: "trie_insert offer_insert_fn ?k ?v T4 = Inr T5" "book T5" "offers T5 = (offers T4)(?k \<mapsto> ?v)"
    using book_insert [OF T4(2) p(2)] by blast
  show ?thesis
  proof (cases b)
    case True
    then show ?thesis
      using T1(1,3) T2(1) T3(1) T4(1) T5 map by (intro exI [of _ T5]) (simp add: undo_thunk_def C(1) p(1) Let_def)
  next
    case False
    then show ?thesis
      using T1(1,3) T2(1) T3(1) T4(1,2) map by (intro exI [of _ T4]) (simp add: undo_thunk_def C(1) p(1) Let_def)
  qed
qed

section \<open>Committing the offers of a block\<close>

lemma tentative_commit_spec:
  assumes T: "marked_book (committed_offers w)" and U: "book (uncommitted_offers w)"
    and few: "card (dom (offers (committed_offers w)) \<union> dom (offers (uncommitted_offers w))) < 2 ^ 32" "card (dom (offers (uncommitted_offers w))) \<le> 1000000000"
    and ths: "thunks w = [] \<or> thunk_block_number (last (thunks w)) + 1 = n"
  shows "\<exists>T' vec del. tentative_commit_for_validation n w = Inr (w\<lparr>committed_offers := T', uncommitted_offers := empty_trie,
      thunks := thunks w @ [(new_thunk n)\<lparr>uncommitted_offers_vec := vec, deleted_keys := del\<rparr>]\<rparr>) \<and>
    book T' \<and> offers T' = (\<lambda>k. if k \<in> marked_keys (committed_offers w) then None else offers (committed_offers w) k) ++ offers (uncommitted_offers w) \<and>
    set vec = ran (offers (uncommitted_offers w)) \<and> distinct (map fst del) \<and>
    map_of del = (\<lambda>k. if k \<in> marked_keys (committed_offers w) then offers (committed_offers w) k else None)"
proof -
  let ?T = "committed_offers w" and ?U = "uncommitted_offers w"
  have fin: "finite (dom (offers ?T) \<union> dom (offers ?U))" using finite_offers book_inv T U by blast
  note within = few_within [OF _ _ fin few(1)]
  obtain vec where vec: "node_accumulate_values (root ?U) = Inr vec" "set vec = ran (offers ?U)" using book_values [OF U few(2)] by blast
  have "few_leaves ?T" using within [OF book_inv(2) [OF T]] by blast
  then obtain T1 del where T1: "trie_perform_marked_deletions ?T = Inr (T1, del)" "book T1"
    "offers T1 = (\<lambda>k. if k \<in> marked_keys ?T then None else offers ?T k)"
    "map_of del = (\<lambda>k. if k \<in> marked_keys ?T then offers ?T k else None)" "distinct (map fst del)"
    using book_apply_deletions [OF T] by blast
  have "dom (offers T1) \<subseteq> dom (offers ?T)" unfolding T1(3) by (auto split: if_split_asm)
  then have "few_leaves T1" "few_leaves ?U" using within [OF book_inv(1) [OF T1(2)]] within [OF book_inv(1) [OF U]] by blast+
  then obtain T2 where T2: "trie_merge_in OverwriteMergeFn ?U T1 = Inr T2" "book T2" "offers T2 = offers T1 ++ offers ?U"
    using book_merge [OF T1(2) _ U] by blast
  have "trie_clear ?U = empty_trie" by (simp add: trie_clear_def empty_trie_def)
  then show ?thesis
    using ths T1 T2 vec by (auto simp: tentative_commit_for_validation_def add_new_thunk_def Let_def)
qed

section \<open>A block and its undo\<close>

lemma undo_thunks_last:
  assumes "\<forall>th' \<in> set ths. thunk_block_number th' \<le> m" "m < thunk_block_number th"
  shows "undo_thunks m (ths @ [th]) w = res_bind (undo_thunk th w) (\<lambda>w'. Inr (ths, w'))"
  using assms(1)
proof (induction ths)
  case Nil
  show ?case using assms(2) by (cases "undo_thunk th w") simp_all
next
  case (Cons th' ths)
  then show ?case by (cases "undo_thunk th w") (auto simp: not_less)
qed

text \<open>The books a block starts from: new offers have new keys.\<close>

definition block_ready :: "MerkleWorkUnit \<Rightarrow> bool" where
  "block_ready w \<longleftrightarrow> marked_book (committed_offers w) \<and> book (uncommitted_offers w) \<and>
     card (dom (offers (committed_offers w)) \<union> dom (offers (uncommitted_offers w))) < 2 ^ 32 \<and>
     card (dom (offers (uncommitted_offers w))) \<le> 1000000000 \<and>
     dom (offers (committed_offers w)) \<inter> dom (offers (uncommitted_offers w)) = {} \<and>
     (\<forall>k v. offers (uncommitted_offers w) k = Some v \<longrightarrow> k = key_of v)"

text \<open>
  The state after \<open>tentative_commit_for_validation\<close>: \<open>M\<close> were the committed offers, \<open>U\<close> the new ones,
  \<open>del\<close> those that were marked.
\<close>

definition after_commit ::
    "u64 \<Rightarrow> (key \<Rightarrow> Offer option) \<Rightarrow> (key \<Rightarrow> Offer option) \<Rightarrow> Offer list \<Rightarrow> (key \<times> Offer) list \<Rightarrow> MerkleWorkUnit \<Rightarrow> MerkleWorkUnit \<Rightarrow> bool" where
  "after_commit n M U vec del w w1 \<longleftrightarrow>
     w1 = w\<lparr>committed_offers := committed_offers w1, uncommitted_offers := empty_trie,
       thunks := thunks w @ [(new_thunk n)\<lparr>uncommitted_offers_vec := vec, deleted_keys := del\<rparr>]\<rparr> \<and>
     book (committed_offers w1) \<and> offers (committed_offers w1) = (\<lambda>k. if map_of del k \<noteq> None then None else M k) ++ U \<and>
     map_of del \<subseteq>\<^sub>m M \<and> dom M \<inter> dom U = {} \<and> key_of ` set vec = dom U \<and>
     distinct (map fst del) \<and> (\<forall>(k, v) \<in> set del. length k = 44) \<and> finite (dom M \<union> dom U) \<and> card (dom M \<union> dom U) < 2 ^ 32"

lemma block_after_commit:
  assumes "block_ready w" "tentative_commit_for_validation n w = Inr w1"
  obtains vec del where "after_commit n (offers (committed_offers w)) (offers (uncommitted_offers w)) vec del w w1"
proof -
  define M U where "M = offers (committed_offers w)" and "U = offers (uncommitted_offers w)"
  have M0: "marked_book (committed_offers w)" "book (uncommitted_offers w)" and few: "card (dom M \<union> dom U) < 2 ^ 32" "card (dom U) \<le> 1000000000"
    and disj: "dom M \<inter> dom U = {}" and keys: "\<And>k v. U k = Some v \<Longrightarrow> k = key_of v"
    using assms(1) by (simp_all add: block_ready_def M_def U_def)
  have ths: "thunks w = [] \<or> thunk_block_number (last (thunks w)) + 1 = n"
    using assms(2) by (auto simp: tentative_commit_for_validation_def add_new_thunk_def split: if_splits)
  obtain T vec del where w1: "w1 = w\<lparr>committed_offers := T, uncommitted_offers := empty_trie,
      thunks := thunks w @ [(new_thunk n)\<lparr>uncommitted_offers_vec := vec, deleted_keys := del\<rparr>]\<rparr>"
    and T: "book T" "offers T = (\<lambda>k. if k \<in> marked_keys (committed_offers w) then None else M k) ++ U"
    and vec: "set vec = ran U" and del: "distinct (map fst del)" "map_of del = (\<lambda>k. if k \<in> marked_keys (committed_offers w) then M k else None)"
    using tentative_commit_spec [OF M0 few [unfolded M_def U_def] ths] assms(2) unfolding M_def U_def by auto
  have "key_of ` set vec = dom U" using keys unfolding vec by (force simp: ran_def)
  moreover have "finite (dom M \<union> dom U)" using finite_offers book_inv M0 unfolding M_def U_def by blast
  moreover have "offers T = (\<lambda>k. if map_of del k \<noteq> None then None else M k) ++ U"
    unfolding T(2) del(2) by (auto simp: fun_eq_iff map_add_def split: option.split)
  moreover have "map_of del \<subseteq>\<^sub>m M" unfolding del(2) by (auto simp: map_le_def split: if_split_asm)
  moreover have "\<forall>(k, v) \<in> set del. length k = 44"
  proof clarify
    fix k v assume "(k, v) \<in> set del"
    then have "map_of del k = Some v" using del(1) by simp
    then have "M k \<noteq> None" unfolding del(2) by (simp split: if_split_asm)
    then show "length k = 44" using wf_trie_keys [of 44 "root (committed_offers w)" k] M0(1) unfolding M_def marked_book_def by simp
  qed
  ultimately show thesis
    using that [of vec del] w1 T(1) disj few(1) del(1) unfolding after_commit_def M_def [symmetric] U_def [symmetric] by simp
qed

lemma map_le_at: "f \<subseteq>\<^sub>m g \<Longrightarrow> f k = Some v \<Longrightarrow> g k = Some v"
  by (force simp: map_le_def)

text \<open>Undoing a clearing that left no offer, and one that executed an offer in part.\<close>

lemma undo_full:
  assumes ac: "after_commit n M U vec del w w1" and cut: "cut_of w1 A [] e S"
    and w2: "thunks w1 \<noteq> []" "book (committed_offers w2)" "offers (committed_offers w2) = Map.empty"
    and th: "th = set_no_partial_exec ((last (thunks w1))\<lparr>cleared_offers := S\<rparr>)"
  shows "\<exists>T. undo_thunk th w2 = Inr (w2\<lparr>committed_offers := T\<rparr>) \<and> book T \<and> offers T = M"
proof -
  note ac = ac [unfolded after_commit_def]
  have domdel: "fst ` set del \<subseteq> dom M" using ac map_le_implies_dom_le [of "map_of del" M] by (simp add: dom_map_of_conv_image_fst)
  have domT: "dom (offers (committed_offers w1)) \<subseteq> dom M \<union> dom U" using ac by (auto split: if_split_asm)
  have last: "last (thunks w1) = (new_thunk n)\<lparr>uncommitted_offers_vec := vec, deleted_keys := del\<rparr>" by (subst ac [THEN conjunct1]) simp
  have sel: "partial_exec_key th = replicate 44 15" "cleared_offers th = S" "deleted_keys th = del" "uncommitted_offers_vec th = vec"
    "exists_partial_exec th = Some False"
    by (simp_all add: th last set_no_partial_exec_def new_thunk_def)
  obtain C where C: "trie_clean_singlechild_nodes (partial_exec_key th) S = Inr C" "book C" "offer_list C = A"
    using cut unfolding sel(1) cut_of_def by (metis length_replicate)
  have offC: "offers C = offers (committed_offers w1)" using cut C(3) by (simp add: offers_offer_list cut_of_def)
  have K: "dom (offers (committed_offers w2)) \<union> fst ` set (deleted_keys th) \<union> dom (offers C) \<subseteq> dom M \<union> dom U"
    unfolding w2(3) sel offC using domdel domT by blast
  obtain T where T: "undo_thunk th w2 = Inr (w2\<lparr>committed_offers := T\<rparr>)" "book T"
    "offers T = (Map.empty ++ map_of del ++ offers (committed_offers w1)) |` (- dom U)"
    using undo_thunk_spec [of w2 th C "dom M \<union> dom U" False] w2(2) C(1,2) ac K by (auto simp: sel w2(3) offC Let_def)
  have "offers T j = M j" for j
    using ac map_le_at [of "map_of del" M j] unfolding T(3)
    by (cases "map_of del j"; cases "U j"; cases "M j") (auto simp: restrict_map_def map_add_def)
  then show ?thesis using T(1,2) by blast
qed

lemma undo_partial:
  assumes ac: "after_commit n M U vec del w w1" and cut: "cut_of w1 A ((k, v) # B) e S" and T1: "sound_book (committed_offers w1)"
    and w2: "book (committed_offers w2)"
      "offers (committed_offers w2) = (if 0 < offer_amount offer' then (map_of B)(k \<mapsto> offer') else map_of B)"
    and th: "th = set_partial_exec k sell v ((last (thunks w1))\<lparr>cleared_offers := S\<rparr>)"
  shows "\<exists>T. undo_thunk th w2 = Inr (w2\<lparr>committed_offers := T\<rparr>) \<and> book T \<and> offers T = (if U k = None then M else M(k \<mapsto> v))"
proof -
  note ac = ac [unfolded after_commit_def]
  have domdel: "fst ` set del \<subseteq> dom M" using ac map_le_implies_dom_le [of "map_of del" M] by (simp add: dom_map_of_conv_image_fst)
  have domT: "dom (offers (committed_offers w1)) \<subseteq> dom M \<union> dom U" using ac by (auto split: if_split_asm)
  have last: "last (thunks w1) = (new_thunk n)\<lparr>uncommitted_offers_vec := vec, deleted_keys := del\<rparr>" by (subst ac [THEN conjunct1]) simp
  have sel: "partial_exec_key th = k" "cleared_offers th = S" "deleted_keys th = del" "uncommitted_offers_vec th = vec"
    "exists_partial_exec th = Some True" "preexecute_partial_exec_offer th = v"
    by (simp_all add: th last set_partial_exec_def new_thunk_def)
  let ?T = "committed_offers w1"
  have list: "offer_list ?T = A @ (k, v) # B" using cut by (simp add: cut_of_def)
  have k: "length k = 44" "offers ?T k = Some v" using sound_bookD(4,5) [OF T1, of k v] length_offer_key by (simp_all add: list)
  obtain C where C: "trie_clean_singlechild_nodes (partial_exec_key th) S = Inr C" "book C" "offer_list C = A"
    using cut k(1) unfolding sel(1) cut_of_def by auto
  have around: "offers (committed_offers w2) j = None \<and> offers C j = offers ?T j \<or> offers (committed_offers w2) j = offers ?T j \<and> offers C j = None"
    if "j \<noteq> k" for j
  proof -
    have "distinct (map fst (A @ (k, v) # B))" using offer_list_distinct [OF sound_bookD(1) [OF T1]] by (simp add: list)
    then have "map_of A j = None \<or> map_of B j = None" by (auto simp: map_of_eq_None_iff)
    then show ?thesis
      using that w2(2) C(3) by (auto simp: offers_offer_list [of C] offers_offer_list [of ?T] list map_add_def split: option.splits if_splits)
  qed
  have "j \<in> dom (offers ?T)" if "j \<in> dom (offers (committed_offers w2)) \<union> dom (offers C)" for j
    using that around [of j] k(2) by (cases "j = k") auto
  then have K: "dom (offers (committed_offers w2)) \<union> fst ` set (deleted_keys th) \<union> dom (offers C) \<subseteq> dom M \<union> dom U"
    unfolding sel using domdel domT by blast
  obtain T where T: "undo_thunk th w2 = Inr (w2\<lparr>committed_offers := T\<rparr>)" "book T"
    "offers T = ((offers (committed_offers w2) ++ map_of del ++ offers C) |` (- dom U))(k \<mapsto> v)"
    using undo_thunk_spec [of w2 th C "dom M \<union> dom U" True] w2(1) C(1,2) ac K k(1) by (auto simp: sel Let_def)
  have "offers T j = (if U k = None then M else M(k \<mapsto> v)) j" for j
  proof (cases "j = k")
    case True
    then show ?thesis using T(3) k(2) ac by (auto simp: map_add_def split: if_splits option.splits)
  next
    case False
    then show ?thesis
      using around [OF False] ac map_le_at [of "map_of del" M j] unfolding T(3)
      by (cases "map_of del j"; cases "U j"; cases "M j") (auto simp: restrict_map_def map_add_def)
  qed
  then have "offers T = (if U k = None then M else M(k \<mapsto> v))" by blast
  then show ?thesis using T(1,2) by blast
qed

text \<open>Rolling the block back restores the book, except for a new offer that was executed in part.\<close>

lemma block_undone:
  assumes ready: "block_ready w"
    and commit: "tentative_commit_for_validation n w = Inr w1"
    and T1: "sound_book (committed_offers w1)" and c: "commitment_sized c"
    and run: "process_clear_offers supply prices tax w1 (db, log, stats) c = Inr (w2, (db2, log2, stats2), c2)"
    and old: "\<forall>th \<in> set (thunks w). thunk_block_number th \<le> m" "m < n" "wu_persisted_round_number w < m"
  shows "\<exists>w3. rollback_thunks m w2 = Inr w3 \<and> thunks w3 = thunks w \<and> book (committed_offers w3) \<and>
    offers (committed_offers w3) = (let th = last (thunks w2); k = partial_exec_key th in
      if exists_partial_exec th = Some True \<and> offers (uncommitted_offers w) k \<noteq> None
      then (offers (committed_offers w))(k \<mapsto> preexecute_partial_exec_offer th) else offers (committed_offers w))"
proof -
  obtain vec del where ac: "after_commit n (offers (committed_offers w)) (offers (uncommitted_offers w)) vec del w w1"
    using block_after_commit [OF ready commit] .
  note w1 = ac [unfolded after_commit_def, THEN conjunct1]
  have th1: "thunk_block_number (last (thunks w1)) = n" "butlast (thunks w1) = thunks w" "wu_persisted_round_number w1 = wu_persisted_round_number w"
    by (subst w1, simp add: new_thunk_def)+
  \<comment> \<open>the thunk of the block is the only one undone\<close>
  have roll: "rollback_thunks m w2 = res_bind (undo_thunk th w2) (\<lambda>w'. Inr (w'\<lparr>thunks := thunks w\<rparr>))"
    if "w2 = w1\<lparr>committed_offers := X, thunks := thunks w @ [th]\<rparr>" "thunk_block_number th = n" for X th
  proof -
    have "\<not> m \<le> wu_persisted_round_number w2" "undo_thunks m (thunks w2) w2 = res_bind (undo_thunk th w2) (\<lambda>w'. Inr (thunks w, w'))"
      using that old undo_thunks_last [of "thunks w" m th w2] by (simp_all add: th1)
    then show ?thesis by (cases "undo_thunk th w2") (simp_all add: rollback_thunks_def)
  qed
  show ?thesis
    using T1 c run
  proof (cases rule: process_clear_cases)
    case (full p q A e S log2)
    define th where "th = set_no_partial_exec ((last (thunks w1))\<lparr>cleared_offers := S\<rparr>)"
    have w2: "w2 = w1\<lparr>committed_offers := committed_offers w2, thunks := thunks w @ [th]\<rparr>" "thunk_block_number th = n"
      "exists_partial_exec th = Some False"
      using full(10) by (simp_all add: th1 th_def set_no_partial_exec_def)
    moreover have "last (thunks w2) = th" by (subst w2(1)) simp
    ultimately show ?thesis
      using roll [OF w2(1,2)] undo_full [OF ac full(3,5,8,9) th_def] by (auto simp: Let_def)
  next
    case (partial p q A k v B e S dbA logA idx sell buy offer')
    define th where "th = set_partial_exec k sell v ((last (thunks w1))\<lparr>cleared_offers := S\<rparr>)"
    have w2: "w2 = w1\<lparr>committed_offers := committed_offers w2, thunks := thunks w @ [th]\<rparr>" "thunk_block_number th = n"
      "exists_partial_exec th = Some True" "partial_exec_key th = k" "preexecute_partial_exec_offer th = v"
      using partial(13) by (simp_all add: th1 th_def set_partial_exec_def)
    moreover have "last (thunks w2) = th" by (subst w2(1)) simp
    ultimately show ?thesis
      using roll [OF w2(1,2)] undo_partial [OF ac partial(3) T1 partial(11,12) th_def] by (auto simp: Let_def)
  qed
qed

end
