(* ===== verification/Work_Unit_Manager.thy ===== *)
theory Work_Unit_Manager
  imports Work_Unit_Undo
begin

text \<open>
  All markets of a replica, \<^verbatim>\<open>merkle_work_unit_manager.h\<close> and
  \<^verbatim>\<open>merkle_work_unit_manager.cc\<close>, and the serial managers through which one thread posts and
  cancels offers while it processes or validates transactions.  The parallel loops over the work units touch
  each one once and are run here in the order of their indices; locks, the metadata index and LMDB are left out.
\<close>

section \<open>State\<close>

record MerkleWorkUnitManager =
  work_units :: "MerkleWorkUnit list"
  wum_num_assets :: u16

text \<open>\<open>work_units[idx]\<close> with an \<open>int\<close> index is not checked.\<close>

definition work_unit_at :: "int \<Rightarrow> MerkleWorkUnitManager \<Rightarrow> MerkleWorkUnit res" where
  "work_unit_at idx M = (if 0 \<le> idx \<and> nat idx < length (work_units M) then Inr (work_units M ! nat idx) else Inl Undefined)"

definition put_work_unit :: "int \<Rightarrow> MerkleWorkUnit \<Rightarrow> MerkleWorkUnitManager \<Rightarrow> MerkleWorkUnitManager" where
  "put_work_unit idx w M = M\<lparr>work_units := (work_units M)[nat idx := w]\<rparr>"

section \<open>Adding assets\<close>

definition place_work_unit :: "u16 \<Rightarrow> MerkleWorkUnitManager \<Rightarrow> int \<Rightarrow> MerkleWorkUnit res" where
  "place_work_unit new_asset_count M i =
     (let category = category_from_idx i (int (unat new_asset_count)); n = ucast (wum_num_assets M) in
      if buyAsset category < n \<and> sellAsset category < n
      then res_bind (category_to_idx category n) (\<lambda>old_idx. work_unit_at old_idx M)
      else Inr (new_work_unit category))"

definition increase_num_traded_assets :: "u16 \<Rightarrow> MerkleWorkUnitManager \<Rightarrow> MerkleWorkUnitManager res" where
  "increase_num_traded_assets new_asset_count M =
     (if new_asset_count < wum_num_assets M then Inl (Runtime_error ''Cannot decrease number of assets'')
      else
        let new_work_unit_count = sint (get_num_work_units_by_asset_count (ucast new_asset_count)) in
        res_bind (res_map (place_work_unit new_asset_count M) (map int [0..<nat new_work_unit_count])) (\<lambda>ws.
        Inr (M\<lparr>work_units := ws, wum_num_assets := new_asset_count\<rparr>)))"

definition new_work_unit_manager :: "u16 \<Rightarrow> MerkleWorkUnitManager res" where
  "new_work_unit_manager num_new_assets = increase_num_traded_assets num_new_assets \<lparr>work_units = [], wum_num_assets = 0\<rparr>"

section \<open>Operations on one market\<close>

definition wum_add_offers :: "int \<Rightarrow> Offer MerkleTrie \<Rightarrow> MerkleWorkUnitManager \<Rightarrow> MerkleWorkUnitManager res" where
  "wum_add_offers idx trie M = res_bind (work_unit_at idx M) (\<lambda>w. res_bind (wu_add_offers trie w) (\<lambda>w. Inr (put_work_unit idx w M)))"

definition wum_mark_for_deletion :: "int \<Rightarrow> key \<Rightarrow> MerkleWorkUnitManager \<Rightarrow> (Offer option \<times> MerkleWorkUnitManager) res" where
  "wum_mark_for_deletion idx k M = res_bind (work_unit_at idx M) (\<lambda>w.
     res_bind (wu_mark_for_deletion k w) (\<lambda>(found, w). Inr (found, put_work_unit idx w M)))"

definition wum_unmark_for_deletion :: "int \<Rightarrow> key \<Rightarrow> MerkleWorkUnitManager \<Rightarrow> MerkleWorkUnitManager res" where
  "wum_unmark_for_deletion idx k M = res_bind (work_unit_at idx M) (\<lambda>w.
     res_bind (wu_unmark_for_deletion k w) (\<lambda>(_, w). Inr (put_work_unit idx w M)))"

definition wum_persisted_round_number :: "int \<Rightarrow> MerkleWorkUnitManager \<Rightarrow> u64 res" where
  "wum_persisted_round_number idx M = res_bind (work_unit_at idx M) (\<lambda>w. Inr (wu_persisted_round_number w))"

definition get_min_persisted_round_number :: "MerkleWorkUnitManager \<Rightarrow> u64" where
  "get_min_persisted_round_number M = fold (\<lambda>w m. min m (wu_persisted_round_number w)) (work_units M) (- 1)"

definition get_max_persisted_round_number :: "MerkleWorkUnitManager \<Rightarrow> u64" where
  "get_max_persisted_round_number M = fold (\<lambda>w m. max m (wu_persisted_round_number w)) (work_units M) 0"

definition get_num_work_units :: "MerkleWorkUnitManager \<Rightarrow> u32" where
  "get_num_work_units M = get_num_work_units_by_asset_count (ucast (wum_num_assets M))"

definition look_up_idx :: "OfferCategory \<Rightarrow> MerkleWorkUnitManager \<Rightarrow> int res" where
  "look_up_idx c M = category_to_idx c (ucast (wum_num_assets M))"

section \<open>Operations on all markets\<close>

definition generic_map :: "(MerkleWorkUnit \<Rightarrow> MerkleWorkUnit res) \<Rightarrow> MerkleWorkUnitManager \<Rightarrow> MerkleWorkUnitManager res" where
  "generic_map func M = res_bind (res_map func (work_units M)) (\<lambda>ws. Inr (M\<lparr>work_units := ws\<rparr>))"

definition wum_clear :: "MerkleWorkUnitManager \<Rightarrow> MerkleWorkUnitManager res" where
  "wum_clear = generic_map (\<lambda>w. Inr (wu_clear w))"

definition wum_tentative_commit :: "u64 \<Rightarrow> MerkleWorkUnitManager \<Rightarrow> MerkleWorkUnitManager res" where
  "wum_tentative_commit current_block_number = generic_map (tentative_commit_for_validation current_block_number)"

definition wum_rollback_thunks :: "u64 \<Rightarrow> MerkleWorkUnitManager \<Rightarrow> MerkleWorkUnitManager res" where
  "wum_rollback_thunks current_block_number = generic_map (rollback_thunks current_block_number)"

definition wum_finalize_validation :: "MerkleWorkUnitManager \<Rightarrow> MerkleWorkUnitManager res" where
  "wum_finalize_validation = generic_map finalize_validation"

definition wum_rollback_validation :: "MerkleWorkUnitManager \<Rightarrow> MerkleWorkUnitManager res" where
  "wum_rollback_validation = generic_map rollback_validation"

definition commit_for_loading :: "u64 \<Rightarrow> MerkleWorkUnitManager \<Rightarrow> MerkleWorkUnitManager res" where
  "commit_for_loading current_block_number = generic_map (\<lambda>w.
     if wu_persisted_round_number w < current_block_number then tentative_commit_for_validation current_block_number w else Inr w)"

definition finalize_for_loading :: "u64 \<Rightarrow> MerkleWorkUnitManager \<Rightarrow> MerkleWorkUnitManager res" where
  "finalize_for_loading current_block_number = generic_map (\<lambda>w.
     if wu_persisted_round_number w < current_block_number then finalize_validation w else Inr w)"

definition wum_num_open_offers :: "MerkleWorkUnitManager \<Rightarrow> u64 res" where
  "wum_num_open_offers M = res_bind (res_map num_open_offers (work_units M)) (\<lambda>ns. Inr (sum_list ns))"

text \<open>
  Clearing all markets.  Each market has its own commitment; the database, the log and the counters are shared.
\<close>

fun clear_markets ::
    "price list \<Rightarrow> u8 \<Rightarrow> (FractionalAsset \<times> MerkleWorkUnit \<times> SingleWorkUnitStateCommitment) list \<Rightarrow> clearing_state \<Rightarrow>
     ((MerkleWorkUnit \<times> SingleWorkUnitStateCommitment) list \<times> clearing_state) res" where
  "clear_markets prices tax [] s = Inr ([], s)"
| "clear_markets prices tax ((supply_activated, w, c) # ms) s =
     res_bind (process_clear_offers supply_activated prices tax w s c) (\<lambda>(w, s, c).
     res_bind (clear_markets prices tax ms s) (\<lambda>(wcs, s). Inr ((w, c) # wcs, s)))"

definition empty_commitment :: SingleWorkUnitStateCommitment where
  "empty_commitment = \<lparr>rootHash = replicate 32 0, fractionalSupplyActivated_bytes = replicate 16 0,
     partialExecThresholdKey = replicate OFFER_KEY_LEN_BYTES 0, thresholdKeyIsNull = 0,
     partialExecOfferActivationAmount_bytes = replicate 16 0\<rparr>"

text \<open>\<open>at\<close> throws when there are fewer supplies or work units than markets.\<close>

definition clear_offers_for_production ::
    "ClearingParams \<Rightarrow> price list \<Rightarrow> SingleWorkUnitStateCommitment list \<Rightarrow> MerkleWorkUnitManager \<Rightarrow> clearing_state \<Rightarrow>
     (MerkleWorkUnitManager \<times> SingleWorkUnitStateCommitment list \<times> clearing_state) res" where
  "clear_offers_for_production params prices out M = (\<lambda>(db, log, stats).
     let n = unat (get_num_work_units M);
         out = take n out @ replicate (n - length out) empty_commitment
     in if length (work_units M) < n \<or> length (work_unit_params params) < n then Inl Out_of_range
        else res_bind (clear_markets prices (ClearingParams.tax_rate params)
               (zip (take n (work_unit_params params)) (zip (take n (work_units M)) out)) (db, log, no_stats)) (\<lambda>(wcs, (db, log, stats')).
             Inr (M\<lparr>work_units := map fst wcs @ drop n (work_units M)\<rparr>, map snd wcs, (db, log, stats_plus stats stats'))))"

text \<open>
  A parallel loop over the markets.  How it divides their indices into ranges is a parameter, the widths of all
  ranges but the last; the ranges run one after the other, and each ends on its own.
\<close>

fun divide_ranges :: "nat list \<Rightarrow> 'a list \<Rightarrow> 'a list list" where
  "divide_ranges [] xs = [xs]"
| "divide_ranges (k # ks) xs = take k xs # divide_ranges ks (drop k xs)"

fun run_ranges :: "('a list \<Rightarrow> 's \<Rightarrow> (bool \<times> 'b list \<times> 's) res) \<Rightarrow> 'a list list \<Rightarrow> 's \<Rightarrow> (bool list \<times> 'b list \<times> 's) res" where
  "run_ranges body [] s = Inr ([], [], s)"
| "run_ranges body (r # rs) s =
     res_bind (body r s) (\<lambda>(b, ys, s). res_bind (run_ranges body rs s) (\<lambda>(bs, zs, s). Inr (b # bs, ys @ zs, s)))"

text \<open>Validating all markets: the loop over a range ends at the first market that fails.\<close>

fun validate_markets ::
    "price list \<Rightarrow> u8 \<Rightarrow> (SingleWorkUnitStateCommitment \<times> MerkleWorkUnit \<times> FractionalAsset) list \<Rightarrow> clearing_state \<Rightarrow>
     (bool \<times> (MerkleWorkUnit \<times> FractionalAsset) list \<times> clearing_state) res" where
  "validate_markets prices tax [] s = Inr (True, [], s)"
| "validate_markets prices tax ((c, w, activated_supply) # ms) s =
     res_bind (tentative_clear_offers_for_validation c prices tax w s activated_supply) (\<lambda>(res, w, s, activated_supply).
     if \<not> res then Inr (False, (w, activated_supply) # map (\<lambda>(c, w, a). (w, a)) ms, s)
     else res_bind (validate_markets prices tax ms s) (\<lambda>(ok, ws, s). Inr (ok, (w, activated_supply) # ws, s)))"

definition wum_tentative_clear ::
    "nat list \<Rightarrow> WorkUnitStateCommitmentChecker \<Rightarrow> FractionalAsset list \<Rightarrow> MerkleWorkUnitManager \<Rightarrow> clearing_state \<Rightarrow>
     (bool \<times> MerkleWorkUnitManager \<times> FractionalAsset list \<times> clearing_state) res" where
  "wum_tentative_clear division clearing_commitment_log validation_statistics M = (\<lambda>(db, log, stats).
     let n = length (work_units M); vs = make_minimum_size validation_statistics n in
     if length (commitments clearing_commitment_log) < n then Inl Undefined
     else res_bind (run_ranges (validate_markets (checker_prices clearing_commitment_log) (checker_tax_rate clearing_commitment_log))
            (divide_ranges division (zip (commitments clearing_commitment_log) (zip (work_units M) (take n vs)))) (db, log, no_stats)) (\<lambda>(oks, ws, (db, log, stats')).
          Inr (list_all id oks, M\<lparr>work_units := map fst ws\<rparr>, map snd ws @ drop n vs, (db, log, stats_plus stats stats'))))"

text \<open>
  Loading blocks from disk.  \<open>if (res) { exists_failure.test_and_set(); return; }\<close>: a range ends at the first
  work unit that was cleared.  The counters of a range are dropped.
\<close>

fun load_markets ::
    "u64 \<Rightarrow> price list \<Rightarrow> u8 \<Rightarrow> (SingleWorkUnitStateCommitment \<times> MerkleWorkUnit \<times> FractionalAsset) list \<Rightarrow> clearing_state \<Rightarrow>
     (bool \<times> (MerkleWorkUnit \<times> FractionalAsset) list \<times> clearing_state) res" where
  "load_markets current_block_number prices tax [] s = Inr (False, [], s)"
| "load_markets current_block_number prices tax ((c, w, a) # ms) s =
     (if wu_persisted_round_number w < current_block_number
      then res_bind (tentative_clear_offers_for_validation c prices tax w s a) (\<lambda>(res, w, s, a).
           if res then Inr (True, (w, a) # map (\<lambda>(c, w, a). (w, a)) ms, s)
           else res_bind (load_markets current_block_number prices tax ms s) (\<lambda>(fail, ws, s). Inr (fail, (w, a) # ws, s)))
      else res_bind (load_markets current_block_number prices tax ms s) (\<lambda>(fail, ws, s). Inr (fail, (w, a) # ws, s)))"

definition load_range ::
    "u64 \<Rightarrow> price list \<Rightarrow> u8 \<Rightarrow> (SingleWorkUnitStateCommitment \<times> MerkleWorkUnit \<times> FractionalAsset) list \<Rightarrow>
     MemoryDatabase \<times> account_log \<Rightarrow> (bool \<times> (MerkleWorkUnit \<times> FractionalAsset) list \<times> MemoryDatabase \<times> account_log) res" where
  "load_range current_block_number prices tax ms = (\<lambda>(db, log).
     res_bind (load_markets current_block_number prices tax ms (db, log, no_stats)) (\<lambda>(fail, ws, (db, log, _)). Inr (fail, ws, db, log)))"

definition clear_offers_for_data_loading ::
    "nat list \<Rightarrow> u64 \<Rightarrow> WorkUnitStateCommitmentChecker \<Rightarrow> FractionalAsset list \<Rightarrow> MerkleWorkUnitManager \<Rightarrow> MemoryDatabase \<times> account_log \<Rightarrow>
     (bool \<times> MerkleWorkUnitManager \<times> FractionalAsset list \<times> MemoryDatabase \<times> account_log) res" where
  "clear_offers_for_data_loading division current_block_number clearing_commitment_log validation_statistics M s =
     (let n = length (work_units M); vs = make_minimum_size validation_statistics n in
     if length (commitments clearing_commitment_log) < n then Inl Undefined
     else res_bind (run_ranges (load_range current_block_number (checker_prices clearing_commitment_log) (checker_tax_rate clearing_commitment_log))
            (divide_ranges division (zip (commitments clearing_commitment_log) (zip (work_units M) (take n vs)))) s) (\<lambda>(fails, ws, s).
          Inr (list_ex id fails, M\<lparr>work_units := map fst ws\<rparr>, map snd ws @ drop n vs, s)))"

text \<open>Ranges run one after the other, and each ends at its first work unit that was cleared.\<close>

lemma load_markets_stops:
  assumes "\<forall>(c, w, a) \<in> set before. \<not> wu_persisted_round_number w < n" "wu_persisted_round_number w < n"
    and "tentative_clear_offers_for_validation c prices tax w s a = Inr (True, w', s', a')"
  shows "load_markets n prices tax (before @ (c, w, a) # after) s = Inr (True, map snd before @ (w', a') # map snd after, s')"
  using assms(1)
proof (induction before)
  case Nil
  have "(\<lambda>(c, w, a). (w, a)) = (snd :: SingleWorkUnitStateCommitment \<times> MerkleWorkUnit \<times> FractionalAsset \<Rightarrow> _)" by auto
  then show ?case using assms(2,3) by simp
qed auto

lemma run_ranges_append:
  "run_ranges body (rs @ rs') s =
     res_bind (run_ranges body rs s) (\<lambda>(bs, ys, s). res_bind (run_ranges body rs' s) (\<lambda>(cs, zs, s). Inr (bs @ cs, ys @ zs, s)))"
proof (induction rs arbitrary: s)
  case Nil
  show ?case by (cases "run_ranges body rs' s") auto
qed (simp add: res_bind_assoc split_beta cong: res_bind_cong)

end
