(* ===== verification/Serial_Manager.thy ===== *)
theory Serial_Manager
  imports Work_Unit_Manager
begin

text \<open>
  The serial managers of \<^verbatim>\<open>merkle_work_unit_manager.h\<close>: what one thread keeps of the offers it
  creates, \<open>ProcessingSerialManager\<close> for a producer and \<open>ValidatingSerialManager\<close> for a validator, which executes
  at once the new offers that lie below the threshold of the block.
\<close>

section \<open>Views of the main manager\<close>

text \<open>The template parameter: the manager itself, or \<open>LoadLMDBManagerView\<close> of a block being loaded.\<close>

datatype manager_view = Main_manager | Load_lmdb u64

definition view_add_offers :: "manager_view \<Rightarrow> int \<Rightarrow> Offer MerkleTrie \<Rightarrow> MerkleWorkUnitManager \<Rightarrow> MerkleWorkUnitManager res" where
  "view_add_offers view idx trie M =
     (case view of Main_manager \<Rightarrow> wum_add_offers idx trie M
      | Load_lmdb current_block_number \<Rightarrow> res_bind (wum_persisted_round_number idx M) (\<lambda>r.
          if r < current_block_number then wum_add_offers idx trie M else Inr M))"

text \<open>A persisted market answers a cancellation with a default offer.\<close>

definition view_mark_for_deletion :: "manager_view \<Rightarrow> int \<Rightarrow> key \<Rightarrow> MerkleWorkUnitManager \<Rightarrow> (Offer option \<times> MerkleWorkUnitManager) res" where
  "view_mark_for_deletion view idx k M =
     (case view of Main_manager \<Rightarrow> wum_mark_for_deletion idx k M
      | Load_lmdb current_block_number \<Rightarrow> res_bind (wum_persisted_round_number idx M) (\<lambda>r.
          if r < current_block_number then wum_mark_for_deletion idx k M else Inr (Some empty_offer, M)))"

definition view_unmark_for_deletion :: "manager_view \<Rightarrow> int \<Rightarrow> key \<Rightarrow> MerkleWorkUnitManager \<Rightarrow> MerkleWorkUnitManager res" where
  "view_unmark_for_deletion view idx k M =
     (case view of Main_manager \<Rightarrow> wum_unmark_for_deletion idx k M
      | Load_lmdb current_block_number \<Rightarrow> res_bind (wum_persisted_round_number idx M) (\<lambda>r.
          if r < current_block_number then wum_unmark_for_deletion idx k M else Inr M))"

section \<open>The base\<close>

record BaseSerialManager =
  new_offers :: "Offer MerkleTrie list"

text \<open>The index arrives as an \<open>unsigned int\<close>.\<close>

definition ensure_suffient_new_offers_sz :: "u32 \<Rightarrow> 'x BaseSerialManager_scheme \<Rightarrow> 'x BaseSerialManager_scheme" where
  "ensure_suffient_new_offers_sz idx s =
     s\<lparr>new_offers := new_offers s @ replicate (Suc (unat idx) - length (new_offers s)) empty_trie\<rparr>"

definition new_offers_at :: "int \<Rightarrow> 'x BaseSerialManager_scheme \<Rightarrow> Offer MerkleTrie res" where
  "new_offers_at idx s = (if 0 \<le> idx \<and> nat idx < length (new_offers s) then Inr (new_offers s ! nat idx) else Inl Out_of_range)"

definition put_new_offers :: "int \<Rightarrow> Offer MerkleTrie \<Rightarrow> 'x BaseSerialManager_scheme \<Rightarrow> 'x BaseSerialManager_scheme" where
  "put_new_offers idx T s = s\<lparr>new_offers := (new_offers s)[nat idx := T]\<rparr>"

fun merge_new_offers :: "manager_view \<Rightarrow> nat list \<Rightarrow> 'x BaseSerialManager_scheme \<Rightarrow> MerkleWorkUnitManager \<Rightarrow> MerkleWorkUnitManager res" where
  "merge_new_offers view [] s M = Inr M"
| "merge_new_offers view (idx # idxs) s M =
     res_bind (view_add_offers view (int idx) (new_offers s ! idx) M) (merge_new_offers view idxs s)"

definition finish_merge ::
    "manager_view \<Rightarrow> nat \<Rightarrow> 'x BaseSerialManager_scheme \<Rightarrow> MerkleWorkUnitManager \<Rightarrow> ('x BaseSerialManager_scheme \<times> MerkleWorkUnitManager) res" where
  "finish_merge view offset s M =
     (let new_offers_sz = min (length (new_offers s)) (unat (get_num_work_units M)) in
      res_bind (merge_new_offers view (map (\<lambda>i. (i + offset) mod new_offers_sz) [0..<new_offers_sz]) s M) (\<lambda>M.
      Inr (s\<lparr>new_offers := []\<rparr>, M)))"

definition delete_offer ::
    "manager_view \<Rightarrow> int \<Rightarrow> price \<Rightarrow> AccountID \<Rightarrow> u64 \<Rightarrow> 'x BaseSerialManager_scheme \<Rightarrow> MerkleWorkUnitManager \<Rightarrow>
     (Offer option \<times> 'x BaseSerialManager_scheme \<times> MerkleWorkUnitManager) res" where
  "delete_offer view idx min_price owner offer_id s M =
     (let s = ensure_suffient_new_offers_sz (word_of_int idx) s in
      res_bind (generate_key min_price owner offer_id) (\<lambda>k.
      res_bind (view_mark_for_deletion view idx k M) (\<lambda>(found, M). Inr (found, s, M))))"

definition serial_clear :: "'x BaseSerialManager_scheme \<Rightarrow> 'x BaseSerialManager_scheme" where
  "serial_clear s = s\<lparr>new_offers := []\<rparr>"

section \<open>Processing\<close>

definition processing_undelete_offer :: "int \<Rightarrow> price \<Rightarrow> AccountID \<Rightarrow> u64 \<Rightarrow> MerkleWorkUnitManager \<Rightarrow> MerkleWorkUnitManager res" where
  "processing_undelete_offer idx min_price owner offer_id M =
     res_bind (generate_key min_price owner offer_id) (\<lambda>k. wum_unmark_for_deletion idx k M)"

definition processing_unwind_add_offer :: "int \<Rightarrow> Offer \<Rightarrow> BaseSerialManager \<Rightarrow> BaseSerialManager res" where
  "processing_unwind_add_offer idx offer s =
     res_bind (generate_offer_key offer) (\<lambda>k.
     res_bind (new_offers_at idx s) (\<lambda>T.
     res_bind (trie_perform_deletion k T) (\<lambda>(_, T). Inr (put_new_offers idx T s))))"

definition processing_add_offer :: "int \<Rightarrow> Offer \<Rightarrow> BaseSerialManager \<Rightarrow> BaseSerialManager res" where
  "processing_add_offer idx offer s =
     (let s = ensure_suffient_new_offers_sz (word_of_int idx) s in
      res_bind (generate_offer_key offer) (\<lambda>k.
      res_bind (new_offers_at idx s) (\<lambda>T.
      res_bind (trie_insert offer_insert_fn k offer T) (\<lambda>T. Inr (put_new_offers idx T s)))))"

section \<open>Validating\<close>

record ValidatingSerialManager = BaseSerialManager +
  activated_supplies :: "FractionalAsset list"

definition validating_ensure_sz :: "u32 \<Rightarrow> ValidatingSerialManager \<Rightarrow> ValidatingSerialManager" where
  "validating_ensure_sz idx s =
     ensure_suffient_new_offers_sz idx (s\<lparr>activated_supplies := make_minimum_size (activated_supplies s) (unat idx)\<rparr>)"

text \<open>\<open>memcmp\<close> of the committed threshold key and the key of the offer.\<close>

definition above_threshold :: "SingleWorkUnitStateCommitment \<Rightarrow> key \<Rightarrow> bool" where
  "above_threshold c k \<longleftrightarrow> \<not> memcmp_less (get_bytes_array k) (partialExecThresholdKey c)"

text \<open>
  Executing a new offer in full, on the database view of the transaction, and what it adds to the supply and
  the log; \<open>transfer\<close> is the \<open>transfer_available\<close> of the view, whose status is not looked at.  Of the two places
  that do this one reads the prices with \<open>at\<close>, the other without a check.
\<close>

definition price_or :: "exn \<Rightarrow> price list \<Rightarrow> AssetID \<Rightarrow> price res" where
  "price_or e prices asset = (if unat asset < length prices then Inr (prices ! unat asset) else Inl e)"

definition preemptive_clear ::
    "exn \<Rightarrow> ('d \<Rightarrow> nat \<Rightarrow> AssetID \<Rightarrow> i64 \<Rightarrow> 'd res) \<Rightarrow> WorkUnitStateCommitmentChecker \<Rightarrow> account_db_idx \<Rightarrow> TransactionMetadata \<Rightarrow> u64 \<Rightarrow>
     int \<Rightarrow> Offer \<Rightarrow> ValidatingSerialManager \<times> 'd \<times> account_log \<Rightarrow> (ValidatingSerialManager \<times> 'd \<times> account_log) res" where
  "preemptive_clear e transfer clearing_commitment source_account_idx tx_metadata operation_id idx offer = (\<lambda>(s, d, log).
     res_bind (price_or e (checker_prices clearing_commitment) (sellAsset (category offer))) (\<lambda>sellPrice.
     res_bind (price_or e (checker_prices clearing_commitment) (buyAsset (category offer))) (\<lambda>buyPrice.
     res_bind (clear_offer_full transfer offer sellPrice buyPrice (checker_tax_rate clearing_commitment) d source_account_idx) (\<lambda>d.
     let s = s\<lparr>activated_supplies := (activated_supplies s)[nat idx :=
           fa_plus (activated_supplies s ! nat idx) (from_integral (ucast (offer_amount offer)))]\<rparr> in
     res_bind (log_self_modification (sourceAccount tx_metadata) operation_id log) (\<lambda>log. Inr (s, d, log))))))"

definition validating_add_offer ::
    "('d \<Rightarrow> nat \<Rightarrow> AssetID \<Rightarrow> i64 \<Rightarrow> 'd res) \<Rightarrow> WorkUnitStateCommitmentChecker \<Rightarrow> account_db_idx \<Rightarrow> TransactionMetadata \<Rightarrow> u64 \<Rightarrow>
     int \<Rightarrow> Offer \<Rightarrow> ValidatingSerialManager \<times> 'd \<times> account_log \<Rightarrow> (ValidatingSerialManager \<times> 'd \<times> account_log) res" where
  "validating_add_offer transfer clearing_commitment source_account_idx tx_metadata operation_id idx offer = (\<lambda>(s, d, log).
     let s = validating_ensure_sz (word_of_int idx) s in
     res_bind (generate_offer_key offer) (\<lambda>k.
     if \<not> (0 \<le> idx \<and> nat idx < length (commitments clearing_commitment)) then Inl Undefined
     else
       let c = commitments clearing_commitment ! nat idx in
       if thresholdKeyIsNull c = 1
       then preemptive_clear Undefined transfer clearing_commitment source_account_idx tx_metadata operation_id idx offer (s, d, log)
       else if above_threshold c k
       then res_bind (new_offers_at idx s) (\<lambda>T.
            res_bind (trie_insert offer_rollback_insert_fn k offer T) (\<lambda>T. Inr (put_new_offers idx T s, d, log)))
       else preemptive_clear Out_of_range transfer clearing_commitment source_account_idx tx_metadata operation_id idx offer (s, d, log)))"

definition validating_finish_merge ::
    "manager_view \<Rightarrow> FractionalAsset list \<Rightarrow> ValidatingSerialManager \<Rightarrow> MerkleWorkUnitManager \<Rightarrow>
     (FractionalAsset list \<times> ValidatingSerialManager \<times> MerkleWorkUnitManager) res" where
  "validating_finish_merge view main_stats s M =
     res_bind (finish_merge view 0 s M) (\<lambda>(s, M). Inr (validation_stats_plus main_stats (activated_supplies s), s, M))"

fun merge_other_offers :: "Offer MerkleTrie list \<Rightarrow> Offer MerkleTrie list \<Rightarrow> Offer MerkleTrie list res" where
  "merge_other_offers (T # Ts) (U # Us) =
     res_bind (trie_merge_in OverwriteMergeFn U T) (\<lambda>T. res_bind (merge_other_offers Ts Us) (\<lambda>Ts. Inr (T # Ts)))"
| "merge_other_offers Ts [] = Inr Ts"
| "merge_other_offers [] Us = Inl Out_of_range"

definition merge_in_other_serial_log ::
    "ValidatingSerialManager \<Rightarrow> ValidatingSerialManager \<Rightarrow> (ValidatingSerialManager \<times> ValidatingSerialManager) res" where
  "merge_in_other_serial_log s other =
     (let s = validating_ensure_sz (of_nat (length (new_offers other))) s in
      res_bind (merge_other_offers (new_offers s) (new_offers other)) (\<lambda>Ts.
      Inr (s\<lparr>new_offers := Ts, activated_supplies := validation_stats_plus (activated_supplies s) (activated_supplies other)\<rparr>,
           other\<lparr>new_offers := []\<rparr>)))"

end
