(* ===== verification/Serial_Laws.thy ===== *)
theory Serial_Laws
  imports Serial_Manager
begin

text \<open>
  What the managers do, as maps: the new offers of a thread are one map from keys to offers per market, and
  posting and cancelling change the committed books only by marks.
\<close>

section \<open>The state as maps\<close>

definition new_book :: "'x BaseSerialManager_scheme \<Rightarrow> nat \<Rightarrow> Offer MerkleTrie" where
  "new_book s i = (if i < length (new_offers s) then new_offers s ! i else empty_trie)"

text \<open>The supply that a validating thread has activated in a market; the vector grows as it needs to.\<close>

definition activated_in :: "nat \<Rightarrow> ValidatingSerialManager \<Rightarrow> FractionalAsset" where
  "activated_in i s = (if i < length (activated_supplies s) then activated_supplies s ! i else from_raw 0)"

definition new_map :: "'x BaseSerialManager_scheme \<Rightarrow> nat \<Rightarrow> key \<Rightarrow> Offer option" where
  "new_map s i = offers (new_book s i)"

text \<open>Every map can take \<open>n\<close> more offers.\<close>

definition serial_ok :: "nat \<Rightarrow> 'x BaseSerialManager_scheme \<Rightarrow> bool" where
  "serial_ok n s \<longleftrightarrow> (\<forall>i. book (new_book s i) \<and> card (dom (new_map s i)) + n < 2 ^ 32)"

definition open_map :: "MerkleWorkUnitManager \<Rightarrow> nat \<Rightarrow> key \<Rightarrow> Offer option" where
  "open_map M i = offers (committed_offers (work_units M ! i))"

definition marks :: "MerkleWorkUnitManager \<Rightarrow> nat \<Rightarrow> key set" where
  "marks M i = marked_keys (committed_offers (work_units M ! i))"

definition markets_ok :: "MerkleWorkUnitManager \<Rightarrow> bool" where
  "markets_ok M \<longleftrightarrow> (\<forall>w \<in> set (work_units M). marked_book (committed_offers w) \<and> few_leaves (committed_offers w))"

text \<open>The same markets up to marks.\<close>

definition same_markets :: "MerkleWorkUnitManager \<Rightarrow> MerkleWorkUnitManager \<Rightarrow> bool" where
  "same_markets M M' \<longleftrightarrow> wum_num_assets M' = wum_num_assets M \<and> length (work_units M') = length (work_units M) \<and>
     (\<forall>i < length (work_units M). \<exists>T. work_units M' ! i = (work_units M ! i)\<lparr>committed_offers := T\<rparr> \<and>
        offers T = open_map M i)"

lemma same_markets_refl [simp]: "same_markets M M"
  by (auto simp: same_markets_def open_map_def intro!: exI [of _ "committed_offers (work_units M ! i)" for i])

lemma same_markets_trans: "same_markets A B \<Longrightarrow> same_markets B C \<Longrightarrow> same_markets A C"
  by (fastforce simp: same_markets_def open_map_def)

lemma same_markets_sel:
  assumes "same_markets M M'"
  shows "wum_num_assets M' = wum_num_assets M" "length (work_units M') = length (work_units M)"
    "i < length (work_units M) \<Longrightarrow> open_map M' i = open_map M i"
    "look_up_idx c M' = look_up_idx c M"
  using assms by (auto simp: same_markets_def open_map_def look_up_idx_def)

section \<open>New offers\<close>

lemma new_book_ensure [simp]: "new_book (ensure_suffient_new_offers_sz idx s) i = new_book s i"
  by (auto simp: new_book_def ensure_suffient_new_offers_sz_def nth_append)

lemma new_map_ensure [simp]: "new_map (ensure_suffient_new_offers_sz idx s) = new_map s" "serial_ok n (ensure_suffient_new_offers_sz idx s) = serial_ok n s"
  by (simp_all add: new_map_def serial_ok_def fun_eq_iff)

lemma new_book_put:
  "new_offers_at idx s = Inr T \<Longrightarrow> new_book s (nat idx) = T \<and> new_book (put_new_offers idx U s) i = (if i = nat idx then U else new_book s i)"
  by (auto simp: new_offers_at_def new_book_def put_new_offers_def split: if_splits)

lemma finite_new_map: "serial_ok n s \<Longrightarrow> finite (dom (new_map s i))"
  unfolding serial_ok_def new_map_def using finite_offers book_inv(1) by blast

lemma processing_add_offer_spec:
  assumes s: "serial_ok (Suc n) s" and r: "processing_add_offer idx offer s = Inr s'"
  shows "serial_ok n s'" "new_map s' = (new_map s)(nat idx := (new_map s (nat idx))(key_of offer \<mapsto> offer))"
proof -
  let ?s = "ensure_suffient_new_offers_sz (word_of_int idx) s"
  obtain T T' where T: "new_offers_at idx ?s = Inr T" "trie_insert offer_insert_fn (key_of offer) offer T = Inr T'" "s' = put_new_offers idx T' ?s"
    using r by (auto simp: processing_add_offer_def Let_def)
  note put = new_book_put [OF T(1), of T']
  have b: "book T" using s put by (auto simp: serial_ok_def)
  have T': "book T'" "offers T' = (offers T)(key_of offer \<mapsto> offer)"
    using book_insert [OF b, of "key_of offer" offer] T(2) length_offer_key by auto
  show map: "new_map s' = (new_map s)(nat idx := (new_map s (nat idx))(key_of offer \<mapsto> offer))"
    using put by (auto simp: T(3) new_map_def T'(2))
  have "card (dom (new_map s' i)) \<le> Suc (card (dom (new_map s i)))" for i
    using finite_new_map [OF s, of i] by (auto simp: map card_insert_if)
  moreover have "book (new_book s' i)" for i using put s T'(1) by (simp add: T(3) serial_ok_def)
  moreover have "card (dom (new_map s i)) + Suc n < 2 ^ 32" for i using s by (simp add: serial_ok_def)
  ultimately show "serial_ok n s'" unfolding serial_ok_def by (metis add_Suc_right add_Suc add_le_mono1 le_less_trans)
qed

lemma processing_unwind_spec:
  assumes s: "serial_ok n s" and r: "processing_unwind_add_offer idx offer s = Inr s'"
  shows "serial_ok n s'" "new_map s' = (new_map s)(nat idx := (new_map s (nat idx))(key_of offer := None))"
proof -
  obtain T T' found where T: "new_offers_at idx s = Inr T" "trie_perform_deletion (key_of offer) T = Inr (found, T')" "s' = put_new_offers idx T' s"
    using r by (auto simp: processing_unwind_add_offer_def)
  note put = new_book_put [OF T(1), of T']
  have b: "book T" using s put by (auto simp: serial_ok_def)
  have "card (dom (offers T)) < 2 ^ 32" using s put unfolding serial_ok_def new_map_def by (metis add_lessD1)
  then have "few_leaves T" using few_offers [OF book_inv(1) [OF b]] by simp
  then have T': "book T'" "offers T' = (offers T)(key_of offer := None)"
    using book_delete [OF b, of "key_of offer"] T(2) length_offer_key by auto
  show map: "new_map s' = (new_map s)(nat idx := (new_map s (nat idx))(key_of offer := None))"
    using put by (auto simp: T(3) new_map_def T'(2))
  have "card (dom (new_map s' i)) \<le> card (dom (new_map s i))" for i
    using finite_new_map [OF s, of i] by (auto simp: map card_Diff1_le intro: card_mono)
  moreover have "book (new_book s' i)" for i using put s T'(1) by (simp add: T(3) serial_ok_def)
  ultimately show "serial_ok n s'" using s unfolding serial_ok_def by (meson add_le_mono1 le_less_trans)
qed

section \<open>Marks\<close>

lemma work_unit_at_Inr: "work_unit_at idx M = Inr w \<Longrightarrow> 0 \<le> idx \<and> nat idx < length (work_units M) \<and> w = work_units M ! nat idx"
  by (auto simp: work_unit_at_def split: if_splits)

lemma put_work_unit_spec:
  assumes M: "markets_ok M" "work_unit_at idx M = Inr w" and T: "marked_book T" "few_leaves T" "offers T = offers (committed_offers w)"
  shows "markets_ok (put_work_unit idx (w\<lparr>committed_offers := T\<rparr>) M)" "same_markets M (put_work_unit idx (w\<lparr>committed_offers := T\<rparr>) M)"
    "marks (put_work_unit idx (w\<lparr>committed_offers := T\<rparr>) M) = (marks M)(nat idx := marked_keys T)"
proof -
  note i = work_unit_at_Inr [OF M(2)]
  let ?ws = "(work_units M)[nat idx := w\<lparr>committed_offers := T\<rparr>]"
  have "set ?ws \<subseteq> insert (w\<lparr>committed_offers := T\<rparr>) (set (work_units M))" by (rule set_update_subset_insert)
  then show "markets_ok (put_work_unit idx (w\<lparr>committed_offers := T\<rparr>) M)"
    using M(1) T(1,2) by (auto simp: markets_ok_def put_work_unit_def)
  show "marks (put_work_unit idx (w\<lparr>committed_offers := T\<rparr>) M) = (marks M)(nat idx := marked_keys T)"
    using i by (auto simp: marks_def put_work_unit_def fun_eq_iff nth_list_update)
  have "\<exists>U. ?ws ! j = (work_units M ! j)\<lparr>committed_offers := U\<rparr> \<and> offers U = open_map M j" if "j < length (work_units M)" for j
  proof (cases "j = nat idx")
    case True
    then show ?thesis using i T(3) by (intro exI [of _ T]) (simp add: open_map_def)
  next
    case False
    then show ?thesis by (intro exI [of _ "committed_offers (work_units M ! j)"]) (simp add: open_map_def)
  qed
  then show "same_markets M (put_work_unit idx (w\<lparr>committed_offers := T\<rparr>) M)" by (simp add: same_markets_def put_work_unit_def)
qed

lemma few_same: "few_leaves T \<Longrightarrow> marked_book T \<Longrightarrow> marked_book T' \<Longrightarrow> offers T' = offers T \<Longrightarrow> few_leaves T'"
  using few_offers [OF book_inv(2)] by metis

lemma delete_offer_spec:
  assumes M: "markets_ok M" and r: "delete_offer Main_manager idx p owner i s M = Inr (found, s', M')"
  shows "markets_ok M'" "same_markets M M'" "new_map s' = new_map s" "serial_ok n s' = serial_ok n s"
    "nat idx < length (work_units M)" "0 \<le> idx"
    "found = (if offer_key p owner i \<in> marks M (nat idx) then None else open_map M (nat idx) (offer_key p owner i))"
    "marks M' = (marks M)(nat idx := marks M (nat idx) \<union> {offer_key p owner i} \<inter> dom (open_map M (nat idx)))"
proof -
  let ?k = "offer_key p owner i"
  obtain w T where w: "work_unit_at idx M = Inr w" "trie_mark_for_deletion ?k (committed_offers w) = Inr (found, T)"
    "M' = put_work_unit idx (w\<lparr>committed_offers := T\<rparr>) M" "s' = ensure_suffient_new_offers_sz (word_of_int idx) s"
    using r by (auto simp: delete_offer_def view_mark_for_deletion_def wum_mark_for_deletion_def wu_mark_for_deletion_def Let_def)
  note i = work_unit_at_Inr [OF w(1)]
  have b: "marked_book (committed_offers w)" "few_leaves (committed_offers w)" using M i by (auto simp: markets_ok_def)
  have T: "marked_book T" "offers T = offers (committed_offers w)" "found = (if ?k \<in> marked_keys (committed_offers w) then None else offers (committed_offers w) ?k)"
    "marked_keys T = marked_keys (committed_offers w) \<union> {?k} \<inter> dom (offers (committed_offers w))"
    using book_mark [OF b, of ?k] w(2) length_offer_key by auto
  note put = put_work_unit_spec [OF M w(1) T(1) few_same [OF b(2,1) T(1,2)] T(2)]
  show "markets_ok M'" "same_markets M M'" "new_map s' = new_map s" "serial_ok n s' = serial_ok n s"
    "nat idx < length (work_units M)" "0 \<le> idx"
    "found = (if ?k \<in> marks M (nat idx) then None else open_map M (nat idx) ?k)"
    "marks M' = (marks M)(nat idx := marks M (nat idx) \<union> {?k} \<inter> dom (open_map M (nat idx)))"
    using put i T(3,4) by (simp_all add: w(3,4) marks_def open_map_def)
qed

lemma undelete_offer_spec:
  assumes M: "markets_ok M" and r: "processing_undelete_offer idx p owner i M = Inr M'"
  shows "markets_ok M'" "same_markets M M'" "marks M' = (marks M)(nat idx := marks M (nat idx) - {offer_key p owner i})"
proof -
  let ?k = "offer_key p owner i"
  obtain w T found where w: "work_unit_at idx M = Inr w" "trie_unmark_for_deletion ?k (committed_offers w) = Inr (found, T)"
    "M' = put_work_unit idx (w\<lparr>committed_offers := T\<rparr>) M"
    using r by (auto simp: processing_undelete_offer_def wum_unmark_for_deletion_def wu_unmark_for_deletion_def)
  note i = work_unit_at_Inr [OF w(1)]
  have b: "marked_book (committed_offers w)" "few_leaves (committed_offers w)" using M i by (auto simp: markets_ok_def)
  have T: "marked_book T" "offers T = offers (committed_offers w)" "marked_keys T = marked_keys (committed_offers w) - {?k}"
    using book_unmark [OF b, of ?k] w(2) length_offer_key by auto
  note put = put_work_unit_spec [OF M w(1) T(1) few_same [OF b(2,1) T(1,2)] T(2)]
  show "markets_ok M'" "same_markets M M'" "marks M' = (marks M)(nat idx := marks M (nat idx) - {?k})"
    using put i T(3) by (simp_all add: w(3) marks_def)
qed

end
