(* ===== verification/Transaction_Processor.thy ===== *)
theory Transaction_Processor
  imports Serial_Manager Database_View
begin

text \<open>
  Processing and validating one transaction, \<^verbatim>\<open>serial_transaction_processor.h\<close>,
  \<^verbatim>\<open>serial_transaction_processor.cc\<close> and \<^verbatim>\<open>operation_metadata.h\<close>.  The code is a
  template over the serial manager and the database view; here the operations on them are the fields of a
  \<open>handler\<close>, and its two instances are the producer's and the validator's.
\<close>

section \<open>State\<close>

record 's tx_state =
  ts_db :: MemoryDatabase
  ts_serial :: 's
  ts_markets :: MerkleWorkUnitManager
  ts_log :: account_log
  ts_stats :: BlockStateUpdateStats

text \<open>While the operations of a transaction run there is a view of the database, and the counters are local.\<close>

record ('s, 'v) op_state =
  os_db :: MemoryDatabase
  os_view :: 'v
  os_serial :: 's
  os_markets :: MerkleWorkUnitManager
  os_log :: account_log
  os_stats :: BlockStateUpdateStats

record OperationMetadata =
  tx_metadata :: TransactionMetadata
  source_account_idx :: account_db_idx
  operation_id :: u64

type_synonym 'a status_res = "(TransactionProcessingStatus \<times> 'a) res"

record ('s, 'v) handler =
  h_lookup_user_id :: "MemoryDatabase \<times> 'v \<Rightarrow> AccountID \<Rightarrow> account_db_idx option"
  h_create_new_account :: "AccountID \<Rightarrow> PublicKey \<Rightarrow> MemoryDatabase \<times> 'v \<Rightarrow> (TransactionProcessingStatus \<times> account_db_idx) \<times> MemoryDatabase \<times> 'v"
  h_transfer_available :: "account_db_idx \<Rightarrow> AssetID \<Rightarrow> i64 \<Rightarrow> MemoryDatabase \<times> 'v \<Rightarrow> (MemoryDatabase \<times> 'v) status_res"
  h_escrow :: "account_db_idx \<Rightarrow> AssetID \<Rightarrow> i64 \<Rightarrow> MemoryDatabase \<times> 'v \<Rightarrow> (MemoryDatabase \<times> 'v) status_res"
  h_add_offer :: "OperationMetadata \<Rightarrow> int \<Rightarrow> Offer \<Rightarrow> ('s, 'v) op_state \<Rightarrow> ('s, 'v) op_state res"
  h_unwind_add_offer :: "int \<Rightarrow> Offer \<Rightarrow> 's \<Rightarrow> 's res"
  h_delete_offer :: "int \<Rightarrow> price \<Rightarrow> AccountID \<Rightarrow> u64 \<Rightarrow> 's \<Rightarrow> MerkleWorkUnitManager \<Rightarrow> (Offer option \<times> 's \<times> MerkleWorkUnitManager) res"
  h_undelete_offer :: "int \<Rightarrow> price \<Rightarrow> AccountID \<Rightarrow> u64 \<Rightarrow> MerkleWorkUnitManager \<Rightarrow> MerkleWorkUnitManager res"

definition on_view ::
    "(MemoryDatabase \<times> 'v \<Rightarrow> (MemoryDatabase \<times> 'v) status_res) \<Rightarrow> ('s, 'v) op_state \<Rightarrow> ('s, 'v) op_state status_res" where
  "on_view f st = res_bind (f (os_db st, os_view st)) (\<lambda>(status, db, v). Inr (status, st\<lparr>os_db := db, os_view := v\<rparr>))"

text \<open>\<open>f\<close> and, if it succeeds, \<open>g\<close>.\<close>

definition and_then :: "'a status_res \<Rightarrow> ('a \<Rightarrow> 'a status_res) \<Rightarrow> 'a status_res" where
  "and_then r g = res_bind r (\<lambda>(status, st). if status \<noteq> SUCCESS then Inr (status, st) else g st)"

section \<open>Operations\<close>

definition process_create_account ::
    "('s, 'v) handler \<Rightarrow> OperationMetadata \<Rightarrow> CreateAccountOp \<Rightarrow> ('s, 'v) op_state \<Rightarrow> ('s, 'v) op_state status_res" where
  "process_create_account H md op st =
     (if sint (startingBalance op) < sint CREATE_ACCOUNT_MIN_STARTING_BALANCE then Inr (STARTING_BALANCE_TOO_LOW, st)
      else
        let ((status, new_account_idx), db, v) = h_create_new_account H (newAccountId op) (newAccountPublicKey op) (os_db st, os_view st);
            st = st\<lparr>os_db := db, os_view := v\<rparr>
        in if status \<noteq> SUCCESS then Inr (status, st)
           else and_then (on_view (h_transfer_available H (source_account_idx md) NATIVE_ASSET (- startingBalance op)) st) (\<lambda>st.
                and_then (on_view (h_transfer_available H new_account_idx NATIVE_ASSET (startingBalance op)) st) (\<lambda>st.
                Inr (SUCCESS, st\<lparr>os_stats := (os_stats st)\<lparr>new_account_count := new_account_count (os_stats st) + 1\<rparr>\<rparr>))))"

definition make_offer :: "CreateSellOfferOp \<Rightarrow> OperationMetadata \<Rightarrow> Offer" where
  "make_offer op md = \<lparr>category = cso_category op, offerId = operation_id md, offer_owner = sourceAccount (tx_metadata md),
     offer_amount = cso_amount op, minPrice = cso_minPrice op\<rparr>"

definition process_create_sell_offer ::
    "('s, 'v) handler \<Rightarrow> OperationMetadata \<Rightarrow> CreateSellOfferOp \<Rightarrow> ('s, 'v) op_state \<Rightarrow> ('s, 'v) op_state status_res" where
  "process_create_sell_offer H md op st =
     (if \<not> validate_category (cso_category op) (ucast (wum_num_assets (os_markets st))) then Inr (INVALID_OFFER_CATEGORY, st)
      else if \<not> is_valid_price (cso_minPrice op) then Inr (INVALID_PRICE, st)
      else if cso_amount op = 0 then Inr (INVALID_AMOUNT, st)
      else res_bind (look_up_idx (cso_category op) (os_markets st)) (\<lambda>market_idx.
        let to_add = make_offer op md in
        res_bind (h_add_offer H md market_idx to_add st) (\<lambda>st.
        res_bind (on_view (h_escrow H (source_account_idx md) (sellAsset (cso_category op)) (cso_amount op)) st) (\<lambda>(status, st).
        if status \<noteq> SUCCESS
        then res_bind (h_unwind_add_offer H market_idx to_add (os_serial st)) (\<lambda>s. Inr (status, st\<lparr>os_serial := s\<rparr>))
        else Inr (SUCCESS, st\<lparr>os_stats := (os_stats st)\<lparr>new_offer_count := new_offer_count (os_stats st) + 1\<rparr>\<rparr>)))))"

definition process_cancel_sell_offer ::
    "('s, 'v) handler \<Rightarrow> OperationMetadata \<Rightarrow> CancelSellOfferOp \<Rightarrow> ('s, 'v) op_state \<Rightarrow> ('s, 'v) op_state status_res" where
  "process_cancel_sell_offer H md op st =
     res_bind (look_up_idx (cancel_category op) (os_markets st)) (\<lambda>market_idx.
     let owner = sourceAccount (tx_metadata md) in
     res_bind (h_delete_offer H market_idx (cancel_minPrice op) owner (cancel_offerId op) (os_serial st) (os_markets st)) (\<lambda>(found_offer, s, M).
     let st = st\<lparr>os_serial := s, os_markets := M\<rparr> in
     case found_offer of
       None \<Rightarrow> Inr (CANCEL_OFFER_TARGET_NEXIST, st)
     | Some offer \<Rightarrow>
         res_bind (on_view (h_escrow H (source_account_idx md) (sellAsset (cancel_category op)) (- offer_amount offer)) st) (\<lambda>(status, st).
         if status \<noteq> SUCCESS
         then res_bind (h_undelete_offer H market_idx (cancel_minPrice op) owner (cancel_offerId op) (os_markets st)) (\<lambda>M.
                Inr (status, st\<lparr>os_markets := M\<rparr>))
         else Inr (SUCCESS, st\<lparr>os_stats := (os_stats st)\<lparr>cancel_offer_count := cancel_offer_count (os_stats st) + 1\<rparr>\<rparr>))))"

definition process_payment ::
    "('s, 'v) handler \<Rightarrow> OperationMetadata \<Rightarrow> PaymentOp \<Rightarrow> ('s, 'v) op_state \<Rightarrow> ('s, 'v) op_state status_res" where
  "process_payment H md op st =
     (case h_lookup_user_id H (os_db st, os_view st) (receiver op) of
        None \<Rightarrow> Inr (RECIPIENT_ACCOUNT_NEXIST, st)
      | Some target_account_idx \<Rightarrow>
          and_then (on_view (h_transfer_available H (source_account_idx md) (payment_asset op) (- payment_amount op)) st) (\<lambda>st.
          and_then (on_view (h_transfer_available H target_account_idx (payment_asset op) (payment_amount op)) st) (\<lambda>st.
          Inr (SUCCESS, st\<lparr>os_stats := (os_stats st)\<lparr>payment_count := payment_count (os_stats st) + 1\<rparr>\<rparr>))))"

definition process_money_printer ::
    "('s, 'v) handler \<Rightarrow> OperationMetadata \<Rightarrow> MoneyPrinterOp \<Rightarrow> ('s, 'v) op_state \<Rightarrow> ('s, 'v) op_state status_res" where
  "process_money_printer H md op st =
     (if is_negative (printer_amount op) then Inr (INVALID_PRINT_MONEY_AMOUNT, st)
      else on_view (h_transfer_available H (source_account_idx md) (printer_asset op) (printer_amount op)) st)"

definition process_operation ::
    "('s, 'v) handler \<Rightarrow> OperationMetadata \<Rightarrow> Operation \<Rightarrow> ('s, 'v) op_state \<Rightarrow> ('s, 'v) op_state status_res" where
  "process_operation H md op =
     (case op of
        CREATE_ACCOUNT op \<Rightarrow> process_create_account H md op
      | CREATE_SELL_OFFER op \<Rightarrow> process_create_sell_offer H md op
      | CANCEL_SELL_OFFER op \<Rightarrow> process_cancel_sell_offer H md op
      | PAYMENT op \<Rightarrow> process_payment H md op
      | MONEY_PRINTER op \<Rightarrow> process_money_printer H md op)"

text \<open>The loop over the operations of a transaction; also returns how many succeeded.\<close>

fun process_operations ::
    "('s, 'v) handler \<Rightarrow> OperationMetadata \<Rightarrow> nat \<Rightarrow> Operation list \<Rightarrow> ('s, 'v) op_state \<Rightarrow>
     (TransactionProcessingStatus \<times> nat \<times> ('s, 'v) op_state) res" where
  "process_operations H md i [] st = Inr (SUCCESS, i, st)"
| "process_operations H md i (op # ops) st =
     res_bind (process_operation H (md\<lparr>operation_id := sequenceNumber (tx_metadata md) + of_nat i\<rparr>) op st) (\<lambda>(status, st).
     if status \<noteq> SUCCESS then Inr (status, i, st) else process_operations H md (Suc i) ops st)"

section \<open>The log of a transaction\<close>

fun log_operations :: "TransactionMetadata \<Rightarrow> nat \<Rightarrow> Operation list \<Rightarrow> account_log \<Rightarrow> account_log res" where
  "log_operations md i [] log = Inr log"
| "log_operations md i (op # ops) log =
     (let op_seq_number = sequenceNumber md + of_nat i in
      res_bind (case op of
          CREATE_ACCOUNT op \<Rightarrow> log_other_modification (sourceAccount md) op_seq_number (newAccountId op) log
        | PAYMENT op \<Rightarrow> log_other_modification (sourceAccount md) op_seq_number (receiver op) log
        | _ \<Rightarrow> Inr log) (log_operations md (Suc i) ops))"

definition log_modified_accounts :: "SignedTransaction \<Rightarrow> account_log \<Rightarrow> account_log res" where
  "log_modified_accounts signed_tx log =
     res_bind (log_new_self_transaction signed_tx log)
       (log_operations (Transaction.metadata (transaction signed_tx)) 0 (operations (transaction signed_tx)))"

definition check_tx_format_parameters :: "Transaction \<Rightarrow> bool" where
  "check_tx_format_parameters tx \<longleftrightarrow> sequenceNumber (Transaction.metadata tx) AND RESERVED_SEQUENCE_NUM_LOWBITS = 0"

section \<open>Processing\<close>

definition processing_handler :: "(BaseSerialManager, BufferedMemoryDatabaseView) handler" where
  "processing_handler =
     \<lparr>h_lookup_user_id = view_lookup_user_id, h_create_new_account = create_new_account,
      h_transfer_available = buffered_transfer_available, h_escrow = buffered_escrow,
      h_add_offer = (\<lambda>md idx offer st. res_bind (processing_add_offer idx offer (os_serial st)) (\<lambda>s. Inr (st\<lparr>os_serial := s\<rparr>))),
      h_unwind_add_offer = processing_unwind_add_offer, h_delete_offer = delete_offer Main_manager,
      h_undelete_offer = processing_undelete_offer\<rparr>"

text \<open>\<open>unwind_transaction\<close> from operation \<open>last_valid_op\<close> down; \<open>ops\<close> are the operations up to it, the last one first.\<close>

fun unwind_operations ::
    "TransactionMetadata \<Rightarrow> Operation list \<Rightarrow> BaseSerialManager \<times> MerkleWorkUnitManager \<Rightarrow> (BaseSerialManager \<times> MerkleWorkUnitManager) res" where
  "unwind_operations md [] sM = Inr sM"
| "unwind_operations md (op # ops) (s, M) =
     (let op_md = \<lparr>tx_metadata = md, source_account_idx = 0, operation_id = sequenceNumber md + of_nat (length ops)\<rparr> in
      case op of
        CREATE_ACCOUNT op \<Rightarrow> unwind_operations md ops (s, M)
      | CREATE_SELL_OFFER op \<Rightarrow>
          res_bind (look_up_idx (cso_category op) M) (\<lambda>market_idx.
          res_bind (processing_unwind_add_offer market_idx (make_offer op op_md) s) (\<lambda>s. unwind_operations md ops (s, M)))
      | CANCEL_SELL_OFFER op \<Rightarrow>
          res_bind (look_up_idx (cancel_category op) M) (\<lambda>market_idx.
          res_bind (processing_undelete_offer market_idx (cancel_minPrice op) (sourceAccount md) (cancel_offerId op) M) (\<lambda>M.
          unwind_operations md ops (s, M)))
      | PAYMENT op \<Rightarrow> unwind_operations md ops (s, M)
      | MONEY_PRINTER op \<Rightarrow> Inl (Runtime_error ''cannot unwind unknown op type''))"

definition unwind_transaction ::
    "MemoryDatabase \<Rightarrow> Transaction \<Rightarrow> nat \<Rightarrow> BaseSerialManager \<times> MerkleWorkUnitManager \<Rightarrow> (BaseSerialManager \<times> MerkleWorkUnitManager) res" where
  "unwind_transaction db tx valid_ops sM =
     (case lookup_user_id db (sourceAccount (Transaction.metadata tx)) of
        None \<Rightarrow> Inl (Runtime_error ''cannot unwind tx from nonexistent acct'')
      | Some _ \<Rightarrow> unwind_operations (Transaction.metadata tx) (rev (take valid_ops (operations tx))) sM)"

definition process_transaction ::
    "SignedTransaction \<Rightarrow> BaseSerialManager tx_state \<Rightarrow> BaseSerialManager tx_state status_res" where
  "process_transaction signed_tx st =
     (let tx = transaction signed_tx; md = Transaction.metadata tx in
      if \<not> check_tx_format_parameters tx then Inr (INVALID_TX_FORMAT, st)
      else case lookup_user_id (ts_db st) (sourceAccount md) of
        None \<Rightarrow> Inr (SOURCE_ACCOUNT_NEXIST, st)
      | Some idx \<Rightarrow>
          res_bind (db_reserve_sequence_number (ts_db st) idx (sequenceNumber md)) (\<lambda>(db, seq_num_status).
          if seq_num_status \<noteq> SUCCESS then Inr (seq_num_status, st\<lparr>ts_db := db\<rparr>)
          else
            res_bind (process_operations processing_handler \<lparr>tx_metadata = md, source_account_idx = idx, operation_id = 0\<rparr> 0 (operations tx)
              \<lparr>os_db = db, os_view = new_buffered_view db, os_serial = ts_serial st, os_markets = ts_markets st, os_log = ts_log st,
               os_stats = no_stats\<rparr>) (\<lambda>(status, i, os).
            if status \<noteq> SUCCESS
            then res_bind (unwind_transaction (os_db os) tx i (os_serial os, os_markets os)) (\<lambda>(s, M).
                 res_bind (db_release_sequence_number (buffered_unwind (os_db os, os_view os)) idx (sequenceNumber md)) (\<lambda>db.
                 Inr (status, st\<lparr>ts_db := db, ts_serial := s, ts_markets := M, ts_log := os_log os\<rparr>)))
            else res_bind (db_commit_sequence_number (buffered_commit (os_db os, os_view os)) idx (sequenceNumber md)) (\<lambda>db.
                 res_bind (log_modified_accounts signed_tx (os_log os)) (\<lambda>log.
                 Inr (SUCCESS, \<lparr>ts_db = db, ts_serial = os_serial os, ts_markets = os_markets os, ts_log = log,
                                ts_stats = stats_plus (ts_stats st) (os_stats os)\<rparr>))))))"

section \<open>Validating\<close>

definition validating_handler ::
    "manager_view \<Rightarrow> WorkUnitStateCommitmentChecker \<Rightarrow> (ValidatingSerialManager, AccountCreationView) handler" where
  "validating_handler view clearing_commitment =
     \<lparr>h_lookup_user_id = view_lookup_user_id, h_create_new_account = create_new_account,
      h_transfer_available = unbuffered_transfer_available, h_escrow = unbuffered_escrow,
      h_add_offer = (\<lambda>md idx offer st.
        res_bind (validating_add_offer (\<lambda>d i asset x. res_bind (unbuffered_transfer_available i asset x d) (\<lambda>(_, d). Inr d))
            clearing_commitment (source_account_idx md) (tx_metadata md) (operation_id md) idx offer
            (os_serial st, (os_db st, os_view st), os_log st))
          (\<lambda>(s, (db, v), log). Inr (st\<lparr>os_serial := s, os_db := db, os_view := v, os_log := log\<rparr>))),
      h_unwind_add_offer = (\<lambda>idx offer s. Inr s), h_delete_offer = delete_offer view,
      h_undelete_offer = (\<lambda>idx min_price owner offer_id M. Inr M)\<rparr>"

text \<open>A transaction that does not validate leaves its effects: the whole block is rolled back.\<close>

definition validate_transaction ::
    "WorkUnitStateCommitmentChecker \<Rightarrow> SignedTransaction \<Rightarrow> ValidatingSerialManager tx_state \<Rightarrow> (bool \<times> ValidatingSerialManager tx_state) res" where
  "validate_transaction clearing_commitment signed_tx st =
     (let tx = transaction signed_tx; md = Transaction.metadata tx in
      if \<not> check_tx_format_parameters tx then Inr (False, st)
      else case lookup_user_id (ts_db st) (sourceAccount md) of
        None \<Rightarrow> Inr (False, st)
      | Some idx \<Rightarrow>
          res_bind (db_reserve_sequence_number (ts_db st) idx (sequenceNumber md)) (\<lambda>(db, id_status).
          if id_status \<noteq> SUCCESS then Inr (False, st\<lparr>ts_db := db\<rparr>)
          else
            res_bind (db_commit_sequence_number db idx (sequenceNumber md)) (\<lambda>db.
            res_bind (process_operations (validating_handler Main_manager clearing_commitment)
              \<lparr>tx_metadata = md, source_account_idx = idx, operation_id = 0\<rparr> 0 (operations tx)
              \<lparr>os_db = db, os_view = new_creation_view db, os_serial = ts_serial st, os_markets = ts_markets st, os_log = ts_log st,
               os_stats = no_stats\<rparr>) (\<lambda>(status, i, os).
            if status \<noteq> SUCCESS
            then Inr (False, st\<lparr>ts_db := os_db os, ts_serial := os_serial os, ts_markets := os_markets os, ts_log := os_log os\<rparr>)
            else res_bind (log_modified_accounts signed_tx (os_log os)) (\<lambda>log.
                 Inr (True, \<lparr>ts_db = creation_commit (os_db os) (os_view os), ts_serial = os_serial os, ts_markets = os_markets os,
                             ts_log = log, ts_stats = stats_plus (ts_stats st) (os_stats os)\<rparr>))))))"

end
