(* ===== verification/Transaction_View.thy ===== *)
theory Transaction_View
  imports Serial_Laws Transaction_Processor
begin

text \<open>
  The database under a transaction: what every operation of a buffered view keeps, and the money the view sees.
\<close>

section \<open>What the operations of a transaction keep\<close>

definition frame_up_to_reserved :: "MemoryDatabase \<Rightarrow> MemoryDatabase \<Rightarrow> bool" where
  "frame_up_to_reserved db db' \<longleftrightarrow> db_frame db (db'\<lparr>reserved_account_ids := reserved_account_ids db\<rparr>)"

lemma frame_up_to_reserved_trans: "frame_up_to_reserved a b \<Longrightarrow> frame_up_to_reserved b c \<Longrightarrow> frame_up_to_reserved a c"
proof -
  assume ab: "frame_up_to_reserved a b" and bc: "frame_up_to_reserved b c"
  have eq: "x\<lparr>reserved_account_ids := r\<rparr> = y\<lparr>database := d, reserved_account_ids := r\<rparr>"
    if "x\<lparr>reserved_account_ids := q\<rparr> = y\<lparr>database := d\<rparr>" for x y :: MemoryDatabase and q r d
  proof -
    have "x\<lparr>reserved_account_ids := q\<rparr>\<lparr>reserved_account_ids := r\<rparr> = y\<lparr>database := d\<rparr>\<lparr>reserved_account_ids := r\<rparr>" by (simp only: that)
    then show ?thesis by simp
  qed
  have b: "b\<lparr>reserved_account_ids := reserved_account_ids a\<rparr> = a\<lparr>database := database b\<rparr>"
    and c: "c\<lparr>reserved_account_ids := reserved_account_ids b\<rparr> = b\<lparr>database := database c\<rparr>"
    using ab bc unfolding frame_up_to_reserved_def db_frame_def by simp_all
  have "c\<lparr>reserved_account_ids := reserved_account_ids a\<rparr> = b\<lparr>database := database c, reserved_account_ids := reserved_account_ids a\<rparr>"
    by (rule eq [OF c])
  also have "\<dots> = (b\<lparr>reserved_account_ids := reserved_account_ids a\<rparr>)\<lparr>database := database c\<rparr>" by simp
  also have "\<dots> = a\<lparr>database := database c\<rparr>" unfolding b by simp
  finally have "c\<lparr>reserved_account_ids := reserved_account_ids a\<rparr> = a\<lparr>database := database c\<rparr>" .
  moreover have "list_all2 acct_frame (database a) (database c)"
  proof -
    have "list_all2 acct_frame (database a) (database b)" "list_all2 acct_frame (database b) (database c)"
      using ab bc unfolding frame_up_to_reserved_def db_frame_def by simp_all
    then show ?thesis by (auto simp: list_all2_conv_all_nth) (blast intro: acct_frame_trans)
  qed
  ultimately show ?thesis unfolding frame_up_to_reserved_def db_frame_def by simp
qed

lemma frame_up_to_reserved_I: "db_frame a b \<Longrightarrow> frame_up_to_reserved a b"
proof -
  assume f: "db_frame a b"
  then have "b\<lparr>reserved_account_ids := reserved_account_ids a\<rparr> = b" using db_frame_sel(3) [OF f] by (metis MemoryDatabase.surjective MemoryDatabase.update_convs(3))
  then show ?thesis using f by (simp add: frame_up_to_reserved_def)
qed

definition view_kept :: "MemoryDatabase \<times> BufferedMemoryDatabaseView \<Rightarrow> MemoryDatabase \<times> BufferedMemoryDatabaseView \<Rightarrow> bool" where
  "view_kept s s' \<longleftrightarrow> buffered_inv s' \<and> db_size (snd s') = db_size (snd s) \<and> buffered_base s' = buffered_base s \<and>
     frame_up_to_reserved (fst s) (fst s')"

lemma view_kept_trans: "view_kept a b \<Longrightarrow> view_kept b c \<Longrightarrow> view_kept a c"
  by (auto simp: view_kept_def intro: frame_up_to_reserved_trans)

lemma view_kept_refl: "buffered_inv s \<Longrightarrow> view_kept s s"
  by (simp add: view_kept_def frame_up_to_reserved_I)

lemma moved_kept: "moved i asset x s st s' \<Longrightarrow> view_kept s s'"
  by (simp add: moved_def view_kept_def frame_up_to_reserved_I)

lemma created_kept:
  assumes "buffered_inv s" "create_new_account a pk s = ((st, idx), s')"
  shows "view_kept s s'"
proof -
  obtain db v db' v' where s: "s = (db, v)" "s' = (db', v')" by (cases s; cases s')
  note laws = create_new_account_laws [OF assms [unfolded s]]
  have "frame_up_to_reserved db db'"
  proof (cases "st = SUCCESS")
    case True
    then have "db' = db\<lparr>reserved_account_ids := insert a (reserved_account_ids db)\<rparr>" using laws(6) by blast
    then show ?thesis by (simp add: frame_up_to_reserved_def)
  next
    case False
    then show ?thesis using laws(5) by (simp add: frame_up_to_reserved_I)
  qed
  then show ?thesis using laws(1-3) by (simp add: s view_kept_def)
qed

section \<open>The money in a view\<close>

definition view_accounts :: "MemoryDatabase \<times> BufferedMemoryDatabaseView \<Rightarrow> nat" where
  "view_accounts s = db_size (snd s) + length (temporary_idxs (snd s))"

definition view_money :: "AssetID \<Rightarrow> MemoryDatabase \<times> BufferedMemoryDatabaseView \<Rightarrow> i64" where
  "view_money a s = (\<Sum>i < view_accounts s. buffered_total s (i, a))"

lemma sum_fun_upd:
  fixes f :: "nat \<times> 'b \<Rightarrow> 'c :: comm_monoid_add"
  assumes "i < n"
  shows "(\<Sum>j < n. (f((i, b) := f (i, b) + x)) (j, a)) = (\<Sum>j < n. f (j, a)) + (if a = b then x else 0)"
proof (cases "a = b")
  case True
  have "(\<Sum>j < n. (f((i, b) := f (i, b) + x)) (j, a)) = (\<Sum>j < n. f (j, a) + (if j = i then x else 0))"
    using True by (intro sum.cong) auto
  also have "\<dots> = (\<Sum>j < n. f (j, a)) + x" using assms by (simp add: sum.distrib)
  finally show ?thesis using True by simp
qed simp

lemma moved_money:
  assumes "moved i asset x s st s'" "i < view_accounts s"
  shows "view_money a s' = view_money a s + (if a = asset \<and> st = SUCCESS then x else 0)" "view_accounts s' = view_accounts s"
proof -
  show n: "view_accounts s' = view_accounts s" using assms(1) by (simp add: moved_def view_accounts_def)
  have t: "buffered_total s' = (if st = SUCCESS then (buffered_total s)((i, asset) := buffered_total s (i, asset) + x) else buffered_total s)"
    using assms(1) by (simp add: moved_def)
  show "view_money a s' = view_money a s + (if a = asset \<and> st = SUCCESS then x else 0)"
    unfolding view_money_def n t using sum_fun_upd [OF assms(2), of "buffered_total s" asset x a] by (cases "st = SUCCESS") (simp_all del: fun_upd_apply)
qed

lemma new_accounts_keys:
  assumes "buffered_inv (db, v)"
  shows "map fst (new_accounts v) = [db_size v..<db_size v + length (temporary_idxs v)]"
  using assms unfolding buffered_inv_def creation_inv_def by blast

lemma new_account_range: "buffered_inv (db, v) \<Longrightarrow> map_of (new_accounts v) i = Some u \<Longrightarrow> i < view_accounts (db, v)"
proof -
  assume inv: "buffered_inv (db, v)" and i: "map_of (new_accounts v) i = Some u"
  have "i \<in> set (map fst (new_accounts v))" using map_of_SomeD [OF i] by force
  then show ?thesis unfolding new_accounts_keys [OF inv] by (simp add: view_accounts_def)
qed

lemma transfer_range:
  assumes "buffered_inv s"
  shows "buffered_transfer_available i asset x s = Inr r \<Longrightarrow> i < view_accounts s" "buffered_escrow i asset x s = Inr r \<Longrightarrow> i < view_accounts s"
proof -
  obtain db v where s: "s = (db, v)" by (cases s)
  have new: "map_of (new_accounts v) i \<noteq> None" if "\<exists>q. on_new_account i f v = Inr q" for f :: "UserAccount \<Rightarrow> UserAccount \<times> bool"
    using that by (auto simp: on_new_account_def split: option.splits)
  have range: "i < view_accounts s" if "db_size v \<le> i \<longrightarrow> map_of (new_accounts v) i \<noteq> None"
    using that new_account_range [OF assms [unfolded s], of i] by (cases "db_size v \<le> i") (auto simp: s view_accounts_def)
  show "i < view_accounts s" if "buffered_transfer_available i asset x s = Inr r"
  proof (rule range, rule impI)
    assume "db_size v \<le> i"
    then have "\<exists>q. on_new_account i (\<lambda>u. acct_conditional_transfer_available u asset x) v = Inr q"
      using that by (cases "on_new_account i (\<lambda>u. acct_conditional_transfer_available u asset x) v") (simp_all add: s buffered_transfer_available_def)
    then show "map_of (new_accounts v) i \<noteq> None" by (rule new)
  qed
  show "i < view_accounts s" if "buffered_escrow i asset x s = Inr r"
  proof (rule range, rule impI)
    assume "db_size v \<le> i"
    then have "\<exists>q. on_new_account i (\<lambda>u. acct_conditional_escrow u asset x) v = Inr q"
      using that by (cases "on_new_account i (\<lambda>u. acct_conditional_escrow u asset x) v") (simp_all add: s buffered_escrow_def)
    then show "map_of (new_accounts v) i \<noteq> None" by (rule new)
  qed
qed

lemma created_money:
  assumes "buffered_inv s" "create_new_account b pk s = ((SUCCESS, idx), s')"
  shows "view_money a s' = view_money a s"
proof -
  obtain db v db' v' where s: "s = (db, v)" "s' = (db', v')" by (cases s; cases s')
  note laws = create_new_account_laws [OF assms [unfolded s]]
  note made = laws(6) [OF refl]
  have n: "view_accounts s' = Suc (view_accounts s)" and idx: "idx = view_accounts s" using laws(2) made by (simp_all add: s view_accounts_def)
  have "new_account v' idx = Some (new_user_account b pk)" using made by blast
  then have "buffered_total s' (idx, a) = 0" using idx laws(2) by (simp add: s buffered_total_def view_accounts_def)
  moreover have "view_money a s' = (\<Sum>i < view_accounts s. buffered_total s' (i, a)) + buffered_total s' (view_accounts s, a)"
    unfolding view_money_def n by simp
  moreover have "buffered_total s' = buffered_total s" using laws(4) by (simp add: s)
  ultimately show ?thesis by (simp add: view_money_def idx)
qed

section \<open>The money of a database\<close>

definition db_money :: "AssetID \<Rightarrow> MemoryDatabase \<Rightarrow> i64" where
  "db_money a db = (\<Sum>u \<leftarrow> database db @ uncommitted_db db. acct_balance u a)"

lemma list_money: "(\<Sum>u \<leftarrow> us. acct_balance u a) = (\<Sum>i < length us. acct_balance (us ! i) a)"
  by (simp add: sum_list_sum_nth atLeast0LessThan)

lemma new_view_money:
  "view_money a (db, new_buffered_view db) + (\<Sum>u \<leftarrow> uncommitted_db db. acct_balance u a) = db_money a db"
proof -
  have "view_money a (db, new_buffered_view db) = (\<Sum>i < length (database db). acct_balance (database db ! i) a)"
    using new_buffered_view_inv(3) [of db _ a]
    by (simp add: view_money_def view_accounts_def new_buffered_view_def db_balance_def)
  then show ?thesis by (simp only: db_money_def map_append sum_list_append list_money [of a "database db"])
qed

lemma commit_money:
  assumes inv: "buffered_inv (db, v)"
  shows "db_money a (buffered_commit (db, v)) = view_money a (db, v) + (\<Sum>u \<leftarrow> uncommitted_db db. acct_balance u a)"
proof -
  define db1 where "db1 = finish_accounts view_commit (accounts v) db"
  have c: "buffered_commit (db, v) = creation_commit db1 v" by (simp add: buffered_commit_def db1_def)
  have fr: "db_frame db db1" unfolding db1_def by (rule buffered_commit_spec(1) [OF inv])
  have size: "db_size v = length (database db)" using inv by (simp add: buffered_inv_def creation_inv_def)
  note ns = new_accounts_keys [OF inv]
  let ?t = "length (temporary_idxs v)"
  have old: "(\<Sum>u \<leftarrow> database (creation_commit db1 v). acct_balance u a) = (\<Sum>i < db_size v. buffered_total (db, v) (i, a))"
  proof -
    have "acct_balance (database (creation_commit db1 v) ! i) a = buffered_total (db, v) (i, a)" if "i < db_size v" for i
      using buffered_commit_spec(2) [OF inv that, of a] by (simp add: db_balance_def c)
    moreover have "length (database (creation_commit db1 v)) = db_size v" using db_frame_sel(1) [OF fr] size by (simp add: creation_commit_spec)
    ultimately show ?thesis unfolding list_money by simp
  qed
  have dist: "distinct (map fst (new_accounts v))" unfolding ns by simp
  have len: "length (new_accounts v) = ?t" using arg_cong [OF ns, of length] by simp
  have at: "buffered_total (db, v) (db_size v + j, a) = acct_balance (snd (snd (new_accounts v ! j))) a" if "j < ?t" for j
  proof -
    have "fst (new_accounts v ! j) = db_size v + j" using arg_cong [OF ns, of "\<lambda>l. l ! j"] that len by simp
    then have "(db_size v + j, snd (new_accounts v ! j)) \<in> set (new_accounts v)" using that len nth_mem [of j "new_accounts v"] by (metis prod.collapse)
    then have "map_of (new_accounts v) (db_size v + j) = Some (snd (new_accounts v ! j))" using dist by simp
    then show ?thesis by (simp add: buffered_total_def new_account_def)
  qed
  have new: "(\<Sum>u \<leftarrow> map (snd \<circ> snd) (new_accounts v). acct_balance u a) = (\<Sum>i \<in> {db_size v..<db_size v + ?t}. buffered_total (db, v) (i, a))"
  proof -
    have "(\<Sum>u \<leftarrow> map (snd \<circ> snd) (new_accounts v). acct_balance u a) = (\<Sum>j < ?t. buffered_total (db, v) (db_size v + j, a))"
      using at by (simp add: sum_list_sum_nth atLeast0LessThan len)
    also have "\<dots> = (\<Sum>i \<in> {0 + db_size v..<?t + db_size v}. buffered_total (db, v) (i, a))"
      unfolding sum.shift_bounds_nat_ivl atLeast0LessThan by (simp add: add.commute)
    finally show ?thesis by (simp add: add.commute)
  qed
  have "(\<Sum>i < db_size v. buffered_total (db, v) (i, a)) + (\<Sum>i \<in> {db_size v..<db_size v + ?t}. buffered_total (db, v) (i, a)) = view_money a (db, v)"
    unfolding view_money_def view_accounts_def fst_conv snd_conv
    using sum.atLeastLessThan_concat [of 0 "db_size v" "db_size v + ?t" "\<lambda>i. buffered_total (db, v) (i, a)"] by (simp add: atLeast0LessThan)
  then show ?thesis
    using old new db_frame_sel(4) [OF fr]
    by (simp add: db_money_def c creation_commit_spec comp_def ac_simps)
qed

end
