(* ===== verification/Transaction_Laws.thy ===== *)
theory Transaction_Laws
  imports Transaction_View
begin

text \<open>
  The operations of a transaction on the producer's side: what each keeps, the money it moves, and that
  unwinding the ones that succeeded takes the books back.
\<close>

section \<open>The state of a transaction\<close>

definition view_st :: "('s, BufferedMemoryDatabaseView) op_state \<Rightarrow> MemoryDatabase \<times> BufferedMemoryDatabaseView" where
  "view_st st = (os_db st, os_view st)"

text \<open>The markets are those of \<open>n\<close> assets, and the offers of each sell its asset.\<close>

definition sells :: "MerkleWorkUnitManager \<Rightarrow> nat \<Rightarrow> AssetID" where
  "sells M i = sellAsset (category_from_idx (int i) (int (unat (wum_num_assets M))))"

definition markets_sized :: "MerkleWorkUnitManager \<Rightarrow> bool" where
  "markets_sized M \<longleftrightarrow> unat (wum_num_assets M) \<le> MAX_INDEXABLE_ASSETS \<and>
     length (work_units M) = unat (wum_num_assets M) * (unat (wum_num_assets M) - 1) \<and>
     (\<forall>i < length (work_units M). \<forall>k v. open_map M i k = Some v \<longrightarrow> sellAsset (category v) = sells M i)"

definition tx_ok :: "nat \<Rightarrow> (BaseSerialManager, BufferedMemoryDatabaseView) op_state \<Rightarrow> bool" where
  "tx_ok n st \<longleftrightarrow> buffered_inv (view_st st) \<and> serial_ok n (os_serial st) \<and> markets_ok (os_markets st) \<and> markets_sized (os_markets st)"

text \<open>What an operation leaves alone.\<close>

definition tx_kept :: "(BaseSerialManager, BufferedMemoryDatabaseView) op_state \<Rightarrow> (BaseSerialManager, BufferedMemoryDatabaseView) op_state \<Rightarrow> bool" where
  "tx_kept st st' \<longleftrightarrow> view_kept (view_st st) (view_st st') \<and> same_markets (os_markets st) (os_markets st') \<and> os_log st' = os_log st"

lemma tx_kept_trans: "tx_kept a b \<Longrightarrow> tx_kept b c \<Longrightarrow> tx_kept a c"
  by (auto simp: tx_kept_def intro: view_kept_trans same_markets_trans)

lemma tx_kept_refl: "tx_ok n st \<Longrightarrow> tx_kept st st"
  by (simp add: tx_kept_def tx_ok_def view_kept_refl)

lemma markets_sized_same: "same_markets M M' \<Longrightarrow> markets_sized M \<Longrightarrow> markets_sized M'"
  using same_markets_sel [of M M'] by (auto simp: markets_sized_def sells_def)

definition maps_of :: "(BaseSerialManager, 'v) op_state \<Rightarrow> (nat \<Rightarrow> key \<Rightarrow> Offer option) \<times> (nat \<Rightarrow> key set)" where
  "maps_of st = (new_map (os_serial st), marks (os_markets st))"

section \<open>Money in offers\<close>

definition offer_money :: "AssetID \<Rightarrow> Offer \<Rightarrow> i64" where
  "offer_money a offer = (if sellAsset (category offer) = a then offer_amount offer else 0)"

definition map_money :: "AssetID \<Rightarrow> (key \<Rightarrow> Offer option) \<Rightarrow> i64" where
  "map_money a m = (\<Sum>k \<in> dom m. offer_money a (the (m k)))"

lemma map_money_upd: "finite (dom m) \<Longrightarrow> m k = None \<Longrightarrow> map_money a (m(k \<mapsto> v)) = map_money a m + offer_money a v"
proof -
  assume m: "finite (dom m)" "m k = None"
  then have "(\<Sum>j \<in> dom m. offer_money a (the ((m(k \<mapsto> v)) j))) = map_money a m"
    unfolding map_money_def by (intro sum.cong) (auto simp: domIff)
  moreover have "k \<notin> dom m" using m by auto
  ultimately show ?thesis using m(1) by (simp add: map_money_def add.commute)
qed

lemma map_money_del: "finite (dom m) \<Longrightarrow> m k = Some v \<Longrightarrow> map_money a (m(k := None)) = map_money a m - offer_money a v"
proof -
  assume m: "finite (dom m)" "m k = Some v"
  have "m = (m(k := None))(k \<mapsto> v)" using m(2) by auto
  then show ?thesis using map_money_upd [of "m(k := None)" k a v] m(1) by simp
qed

text \<open>Offers of the thread and unmarked offers of the books.\<close>

definition live_map :: "MerkleWorkUnitManager \<Rightarrow> nat \<Rightarrow> key \<Rightarrow> Offer option" where
  "live_map M i = open_map M i |` (- marks M i)"

definition locked :: "AssetID \<Rightarrow> BaseSerialManager \<Rightarrow> MerkleWorkUnitManager \<Rightarrow> i64" where
  "locked a s M = (\<Sum>i < length (work_units M). map_money a (new_map s i) + map_money a (live_map M i))"

definition tx_money :: "AssetID \<Rightarrow> (BaseSerialManager, BufferedMemoryDatabaseView) op_state \<Rightarrow> i64" where
  "tx_money a st = view_money a (view_st st) + locked a (os_serial st) (os_markets st)"

lemma sum_upd: "(i :: nat) < n \<Longrightarrow> (\<Sum>j < n. g ((f(i := x)) j)) = (\<Sum>j < n. g (f j)) - g (f i) + (g x :: 'a :: ab_group_add)"
proof -
  assume i: "i < n"
  have "(\<Sum>j < n. g ((f(i := x)) j)) = (\<Sum>j < n. g (f j) + (if j = i then g x - g (f i) else 0))" by (intro sum.cong) auto
  then show ?thesis using i by (simp add: sum.distrib)
qed

lemma locked_new:
  assumes "i < length (work_units M)" "finite (dom (new_map s i))" "new_map s i k = None" "new_map s' = (new_map s)(i := (new_map s i)(k \<mapsto> v))"
  shows "locked a s' M = locked a s M + offer_money a v"
  using sum_upd [OF assms(1), of "map_money a" "new_map s" "(new_map s i)(k \<mapsto> v)"] map_money_upd [OF assms(2,3), of a v]
  by (simp add: locked_def sum.distrib assms(4) del: fun_upd_apply)

lemma live_map_mark:
  assumes "same_markets M M'" "marks M' = (marks M)(i := insert k (marks M i))" "i < length (work_units M)"
  shows "j < length (work_units M) \<Longrightarrow> live_map M' j = ((live_map M)(i := (live_map M i)(k := None))) j"
  using same_markets_sel(3) [OF assms(1), of j] by (auto simp: live_map_def assms(2) restrict_map_def fun_eq_iff)

lemma locked_mark:
  assumes M: "same_markets M M'" "marks M' = (marks M)(i := insert k (marks M i))" and i: "i < length (work_units M)"
    and "finite (dom (open_map M i))" "live_map M i k = Some v"
  shows "locked a s M' = locked a s M - offer_money a v"
proof -
  let ?n = "length (work_units M)"
  have fin: "finite (dom (live_map M i))" using assms(4) by (rule finite_subset [rotated]) (auto simp: live_map_def)
  have "(\<Sum>j < ?n. map_money a (live_map M' j)) = (\<Sum>j < ?n. map_money a (((live_map M)(i := (live_map M i)(k := None))) j))"
    using live_map_mark [OF M i] by (intro sum.cong) (simp_all del: fun_upd_apply)
  also have "\<dots> = (\<Sum>j < ?n. map_money a (live_map M j)) - offer_money a v"
    using sum_upd [OF i, of "map_money a" "live_map M" "(live_map M i)(k := None)"] map_money_del [OF fin assms(5), of a] by (simp del: fun_upd_apply)
  finally show ?thesis using same_markets_sel(2) [OF M(1)] by (simp add: locked_def sum.distrib)
qed

section \<open>Moving money in the view\<close>

definition view_moved ::
    "(AssetID \<Rightarrow> i64) \<Rightarrow> ('s, BufferedMemoryDatabaseView) op_state \<Rightarrow> TransactionProcessingStatus \<Rightarrow> ('s, BufferedMemoryDatabaseView) op_state \<Rightarrow> bool" where
  "view_moved f st status st' \<longleftrightarrow> st' = st\<lparr>os_db := os_db st', os_view := os_view st'\<rparr> \<and> view_kept (view_st st) (view_st st') \<and>
     (status = SUCCESS \<longrightarrow> (\<forall>a. view_money a (view_st st') = view_money a (view_st st) + f a))"

lemma on_view_moved:
  assumes inv: "buffered_inv (view_st st)"
  shows "on_view (buffered_transfer_available i asset x) st = Inr (status, st') \<Longrightarrow> view_moved (\<lambda>a. if a = asset then x else 0) st status st'"
    and "on_view (buffered_escrow i asset x) st = Inr (status, st') \<Longrightarrow> view_moved (\<lambda>a. if a = asset then - x else 0) st status st'"
proof -
  assume "on_view (buffered_transfer_available i asset x) st = Inr (status, st')"
  then obtain db v where r: "buffered_transfer_available i asset x (view_st st) = Inr (status, db, v)" "st' = st\<lparr>os_db := db, os_view := v\<rparr>"
    by (auto simp: on_view_def view_st_def)
  show "view_moved (\<lambda>a. if a = asset then x else 0) st status st'"
    using buffered_transfer_moved [OF inv r(1)] transfer_range(1) [OF inv r(1)] moved_money(1) moved_kept
    by (fastforce simp: view_moved_def view_st_def r(2))
next
  assume "on_view (buffered_escrow i asset x) st = Inr (status, st')"
  then obtain db v where r: "buffered_escrow i asset x (view_st st) = Inr (status, db, v)" "st' = st\<lparr>os_db := db, os_view := v\<rparr>"
    by (auto simp: on_view_def view_st_def)
  show "view_moved (\<lambda>a. if a = asset then - x else 0) st status st'"
    using buffered_escrow_moved [OF inv r(1)] transfer_range(2) [OF inv r(1)] moved_money(1) moved_kept
    by (fastforce simp: view_moved_def view_st_def r(2))
qed

lemma view_moved_inv: "view_moved f st status st' \<Longrightarrow> buffered_inv (view_st st')"
  by (simp add: view_moved_def view_kept_def)

lemma view_moved_sel:
  assumes "view_moved f st status st'"
  shows "os_serial st' = os_serial st" "os_markets st' = os_markets st" "os_log st' = os_log st" "os_stats st' = os_stats st"
    "maps_of st' = maps_of st" "view_kept (view_st st) (view_st st')"
    "status = SUCCESS \<Longrightarrow> view_money a (view_st st') = view_money a (view_st st) + f a"
proof -
  obtain db v where st': "st' = st\<lparr>os_db := db, os_view := v\<rparr>" using assms unfolding view_moved_def by blast
  then show "os_serial st' = os_serial st" "os_markets st' = os_markets st" "os_log st' = os_log st" "os_stats st' = os_stats st"
    "maps_of st' = maps_of st" by (simp_all add: maps_of_def)
qed (use assms in \<open>simp_all add: view_moved_def\<close>)

lemma view_moved_ok: "tx_ok n st \<Longrightarrow> view_moved f st status st' \<Longrightarrow> tx_ok n st' \<and> tx_kept st st'"
  using view_moved_sel [of f st status st'] view_moved_inv [of f st status st'] by (simp add: tx_ok_def tx_kept_def)

section \<open>Markets of a category\<close>

lemma unat_u16_u32: "unat (ucast (n :: u16) :: u32) = unat n"
  by (simp add: unsigned_ucast_eq take_bit_nat_eq_self order_less_trans [OF unsigned_less])

lemma look_up_idx_valid:
  assumes M: "markets_sized M" and v: "validate_category c (ucast (wum_num_assets M))" and r: "look_up_idx c M = Inr idx"
  shows "0 \<le> idx" "nat idx < length (work_units M)" "sells M (nat idx) = sellAsset c"
proof -
  let ?n = "ucast (wum_num_assets M) :: u32"
  have n: "unat ?n \<le> MAX_INDEXABLE_ASSETS" "length (work_units M) = unat ?n * (unat ?n - 1)" using M by (simp_all add: markets_sized_def unat_u16_u32)
  have t: "offerType c = SELL" using r by (cases "offerType c") (auto simp: look_up_idx_def category_to_idx_def map_type_to_int_def Let_def split: if_splits)
  obtain i where i: "i < unat ?n * (unat ?n - 1)" "category_to_idx c ?n = Inr (int i)" "category_from_idx (int i) (int (unat ?n)) = c"
    using category_idx_round_trip [OF v t n(1)] by blast
  then have "idx = int i" using r by (simp add: look_up_idx_def)
  then show "0 \<le> idx" "nat idx < length (work_units M)" "sells M (nat idx) = sellAsset c"
    using i n by (simp_all add: sells_def unat_u16_u32)
qed

text \<open>A cancellation does not validate its category: one that buys what it sells has an index, too.\<close>

lemma look_up_idx_equal:
  assumes n: "unat (wum_num_assets M) \<le> MAX_INDEXABLE_ASSETS" and c: "sellAsset c = buyAsset c" "offerType c = SELL"
    and x: "unat (sellAsset c) < unat (wum_num_assets M)"
  shows "look_up_idx c M = Inr (int (unat (sellAsset c) * unat (wum_num_assets M)))"
proof -
  let ?n = "ucast (wum_num_assets M) :: u32" and ?x = "sellAsset c"
  have n: "unat ?n \<le> MAX_INDEXABLE_ASSETS" and x: "unat ?x < unat ?n" using n x by (simp_all add: unat_u16_u32)
  have n1: "unat (?n - 1) = unat ?n - 1" using x by (subst unat_sub_exact) simp_all
  define i where "i = unat ?x * unat ?n"
  have prod: "unat ?x * (unat ?n - 1) + unat ?x = i" using x by (cases "unat ?n") (simp_all add: i_def)
  have "i \<le> 46339 * 46340" unfolding i_def using x n by (intro mult_le_mono) (simp_all add: MAX_INDEXABLE_ASSETS_def)
  then have small: "i < 2 ^ 31" by simp
  have "unat (?x * (?n - 1)) = unat ?x * (unat ?n - 1)" using small prod by (subst unat_mult_exact) (simp_all add: n1)
  then have "unat (?x * (?n - 1) + ?x) = i" using small prod by (subst unat_add_exact) simp_all
  then have "sint (?x * (?n - 1) + ?x) = int i" using sint_small [of "?x * (?n - 1) + ?x"] small by simp
  then have "look_up_idx c M = Inr (int i)"
    using c x by (simp add: look_up_idx_def category_to_idx_def map_type_to_int_def Let_def not_le word_less_nat_alt)
  then show ?thesis by (simp add: i_def unat_u16_u32)
qed

lemma look_up_idx_sells:
  assumes M: "markets_sized M" and r: "look_up_idx c M = Inr idx" "0 \<le> idx" "nat idx < length (work_units M)"
  shows "sells M (nat idx) = sellAsset c"
proof (cases "sellAsset c = buyAsset c")
  case False
  have "\<not> (ucast (wum_num_assets M) \<le> sellAsset c \<or> ucast (wum_num_assets M) \<le> buyAsset c)"
    using r(1) by (auto simp: look_up_idx_def category_to_idx_def split: if_splits)
  then have "validate_category c (ucast (wum_num_assets M))" using False by (simp add: validate_category_def)
  then show ?thesis using look_up_idx_valid(3) [OF M _ r(1)] by blast
next
  case True
  let ?n = "unat (wum_num_assets M)" and ?x = "unat (sellAsset c)"
  have n: "?n \<le> MAX_INDEXABLE_ASSETS" "length (work_units M) = ?n * (?n - 1)" using M by (simp_all add: markets_sized_def)
  have "\<not> ucast (wum_num_assets M) \<le> sellAsset c" "offerType c = SELL"
    using r(1) by (cases "offerType c"; auto simp: look_up_idx_def category_to_idx_def map_type_to_int_def Let_def split: if_splits)+
  then have x: "?x < ?n" "offerType c = SELL" by (simp_all add: not_le word_less_nat_alt unat_u16_u32)
  have "idx = int (?x * ?n)" using look_up_idx_equal [OF n(1) True x(2,1)] r(1) by simp
  then have idx: "nat idx = ?x * ?n" "idx = int (?x * ?n)" by (simp_all add: nat_mult_distrib)
  then have i: "?x * ?n < ?n * (?n - 1)" using r(3) n(2) by simp
  then have "?x < ?n - 1" by (simp add: mult.commute)
  moreover have "?x * ?n = ?x * (?n - 1) + ?x" using x(1) by (cases ?n) simp_all
  ultimately have "?x * ?n div (?n - 1) = ?x" by simp
  then show ?thesis using category_from_idx_eq [OF i n(1)] by (simp add: sells_def idx(1))
qed

section \<open>What an operation does\<close>

lemma and_then_cases:
  assumes "and_then r g = Inr (status, st')"
  obtains (stop) "r = Inr (status, st')" "status \<noteq> SUCCESS" | (go) st1 where "r = Inr (SUCCESS, st1)" "g st1 = Inr (status, st')"
  using assms by (auto simp: and_then_def split: if_splits)

text \<open>Taking an operation back, on the maps.\<close>

definition undo_maps ::
    "MerkleWorkUnitManager \<Rightarrow> OperationMetadata \<Rightarrow> Operation \<Rightarrow> (nat \<Rightarrow> key \<Rightarrow> Offer option) \<times> (nat \<Rightarrow> key set) \<Rightarrow>
     (nat \<Rightarrow> key \<Rightarrow> Offer option) \<times> (nat \<Rightarrow> key set)" where
  "undo_maps M md op = (\<lambda>(nm, mk).
     case op of
       CREATE_SELL_OFFER o1 \<Rightarrow> (case look_up_idx (cso_category o1) M of
           Inl e \<Rightarrow> (nm, mk) | Inr idx \<Rightarrow> (nm(nat idx := (nm (nat idx))(key_of (make_offer o1 md) := None)), mk))
     | CANCEL_SELL_OFFER o1 \<Rightarrow> (case look_up_idx (cancel_category o1) M of
           Inl e \<Rightarrow> (nm, mk)
         | Inr idx \<Rightarrow> (nm, mk(nat idx := mk (nat idx) - {offer_key (cancel_minPrice o1) (sourceAccount (tx_metadata md)) (cancel_offerId o1)})))
     | _ \<Rightarrow> (nm, mk))"

definition fresh_offer :: "OperationMetadata \<Rightarrow> Operation \<Rightarrow> (BaseSerialManager, 'v) op_state \<Rightarrow> bool" where
  "fresh_offer md op st \<longleftrightarrow> (case op of
     CREATE_SELL_OFFER o1 \<Rightarrow> is_valid_price (cso_minPrice o1) \<longrightarrow> (\<forall>i. new_map (os_serial st) i (key_of (make_offer o1 md)) = None) | _ \<Rightarrow> True)"

definition printed :: "AssetID \<Rightarrow> Operation \<Rightarrow> i64" where
  "printed a op = (case op of MONEY_PRINTER o1 \<Rightarrow> if a = printer_asset o1 then printer_amount o1 else 0 | _ \<Rightarrow> 0)"

definition op_done ::
    "OperationMetadata \<Rightarrow> Operation \<Rightarrow> nat \<Rightarrow> (BaseSerialManager, BufferedMemoryDatabaseView) op_state \<Rightarrow> TransactionProcessingStatus \<Rightarrow>
     (BaseSerialManager, BufferedMemoryDatabaseView) op_state \<Rightarrow> bool" where
  "op_done md op n st status st' \<longleftrightarrow> tx_ok n st' \<and> tx_kept st st' \<and>
     (status \<noteq> SUCCESS \<longrightarrow> maps_of st' = maps_of st) \<and>
     (status = SUCCESS \<longrightarrow> undo_maps (os_markets st) md op (maps_of st') = maps_of st \<and>
        (\<forall>a. tx_money a st' = tx_money a st + printed a op))"

lemma serial_ok_mono: "serial_ok (Suc n) s \<Longrightarrow> serial_ok n s"
  unfolding serial_ok_def add_Suc_right using Suc_lessD by blast

lemma tx_ok_mono: "tx_ok (Suc n) st \<Longrightarrow> tx_ok n st"
  using serial_ok_mono [of n "os_serial st"] by (simp add: tx_ok_def)

lemma tx_money_view_moved:
  "view_moved f st SUCCESS st' \<Longrightarrow> tx_money a st' = tx_money a st + f a"
  using view_moved_sel [of f st SUCCESS st'] by (simp add: tx_money_def)

lemma stats_irrelevant [simp]:
  "tx_ok n (st\<lparr>os_stats := x\<rparr>) = tx_ok n st" "tx_kept st0 (st\<lparr>os_stats := x\<rparr>) = tx_kept st0 st" "maps_of (st\<lparr>os_stats := x\<rparr>) = maps_of st"
  "tx_money a (st\<lparr>os_stats := x\<rparr>) = tx_money a st"
  by (simp_all add: tx_ok_def tx_kept_def maps_of_def tx_money_def view_st_def)

lemmas handler_sel = processing_handler_def handler.simps

lemma two_moves:
  assumes ok: "tx_ok n st"
    and r: "and_then (on_view (buffered_transfer_available i asset x) st) (\<lambda>st.
      and_then (on_view (buffered_transfer_available j asset y) st) (\<lambda>st. Inr (SUCCESS, st\<lparr>os_stats := f (os_stats st)\<rparr>))) = Inr (status, st')"
  shows "tx_ok n st'" "tx_kept st st'" "maps_of st' = maps_of st"
    "status = SUCCESS \<Longrightarrow> tx_money a st' = tx_money a st + (if a = asset then x + y else 0)"
proof -
  have inv: "buffered_inv (view_st st)" using ok by (simp add: tx_ok_def)
  have "tx_ok n st' \<and> tx_kept st st' \<and> maps_of st' = maps_of st \<and>
    (status = SUCCESS \<longrightarrow> tx_money a st' = tx_money a st + (if a = asset then x + y else 0))"
    using r
  proof (cases rule: and_then_cases)
    case stop
    then show ?thesis using on_view_moved(1) [OF inv stop(1)] view_moved_ok [OF ok] view_moved_sel(5) by blast
  next
    case (go st1)
    note m1 = on_view_moved(1) [OF inv go(1)]
    note ok1 = view_moved_ok [OF ok m1]
    from go(2) show ?thesis
    proof (cases rule: and_then_cases)
      case stop
      note m2 = on_view_moved(1) [OF view_moved_inv [OF m1] stop(1)]
      show ?thesis
        using view_moved_ok [OF ok1 [THEN conjunct1] m2] ok1 view_moved_sel(5) [OF m1] view_moved_sel(5) [OF m2] stop(2) tx_kept_trans by metis
    next
      case (go st2)
      note m2 = on_view_moved(1) [OF view_moved_inv [OF m1] go(1)]
      have st': "st' = st2\<lparr>os_stats := f (os_stats st2)\<rparr>" using go(2) by simp
      have "tx_kept st st2" using view_moved_ok [OF ok1 [THEN conjunct1] m2] ok1 tx_kept_trans by blast
      then show ?thesis
        using view_moved_ok [OF ok1 [THEN conjunct1] m2] view_moved_sel(5) [OF m1] view_moved_sel(5) [OF m2]
          tx_money_view_moved [OF m1, of a] tx_money_view_moved [OF m2, of a] by (simp add: st')
    qed
  qed
  then show "tx_ok n st'" "tx_kept st st'" "maps_of st' = maps_of st"
    "status = SUCCESS \<Longrightarrow> tx_money a st' = tx_money a st + (if a = asset then x + y else 0)" by blast+
qed

lemma payment_done:
  assumes ok: "tx_ok (Suc n) st" and r: "process_payment processing_handler md op st = Inr (status, st')"
  shows "op_done md (PAYMENT op) n st status st'"
proof (cases "view_lookup_user_id (os_db st, os_view st) (receiver op)")
  case None
  then have "st' = st" "status \<noteq> SUCCESS" using r by (auto simp: process_payment_def handler_sel)
  then show ?thesis using tx_ok_mono [OF ok] tx_kept_refl by (auto simp: op_done_def)
next
  case (Some j)
  have "and_then (on_view (buffered_transfer_available (source_account_idx md) (payment_asset op) (- payment_amount op)) st) (\<lambda>st.
      and_then (on_view (buffered_transfer_available j (payment_asset op) (payment_amount op)) st) (\<lambda>st.
        Inr (SUCCESS, st\<lparr>os_stats := (\<lambda>s. s\<lparr>payment_count := payment_count s + 1\<rparr>) (os_stats st)\<rparr>))) = Inr (status, st')"
    using r Some by (simp add: process_payment_def handler_sel)
  note m = two_moves [OF tx_ok_mono [OF ok] this]
  show ?thesis using m by (auto simp: op_done_def undo_maps_def printed_def)
qed

lemma create_account_done:
  assumes ok: "tx_ok (Suc n) st" and r: "process_create_account processing_handler md op st = Inr (status, st')"
  shows "op_done md (CREATE_ACCOUNT op) n st status st'"
proof (cases "sint (startingBalance op) < sint CREATE_ACCOUNT_MIN_STARTING_BALANCE")
  case True
  then have "st' = st" "status \<noteq> SUCCESS" using r by (auto simp: process_create_account_def)
  then show ?thesis using tx_ok_mono [OF ok] tx_kept_refl by (auto simp: op_done_def)
next
  case False
  note enough = False
  obtain st0 idx db v where c: "create_new_account (newAccountId op) (newAccountPublicKey op) (view_st st) = ((st0, idx), db, v)" by (metis prod.exhaust)
  have inv: "buffered_inv (view_st st)" using ok by (simp add: tx_ok_def)
  let ?st1 = "st\<lparr>os_db := db, os_view := v\<rparr>"
  have kept: "view_kept (view_st st) (view_st ?st1)" using created_kept [OF inv c] by (simp add: view_st_def)
  have ok1: "tx_ok n ?st1" "tx_kept st ?st1" "maps_of ?st1 = maps_of st"
    using tx_ok_mono [OF ok] kept by (simp_all add: tx_ok_def tx_kept_def maps_of_def view_kept_def)
  show ?thesis
  proof (cases "st0 = SUCCESS")
    case False
    then have "st' = ?st1" "status = st0" using r c enough by (auto simp: process_create_account_def handler_sel view_st_def Let_def)
    then show ?thesis using ok1 False by (simp add: op_done_def)
  next
    case True
    have money: "tx_money a ?st1 = tx_money a st" for a
      using created_money [OF inv c [unfolded True], of a] by (simp add: tx_money_def view_st_def)
    have "and_then (on_view (buffered_transfer_available (source_account_idx md) NATIVE_ASSET (- startingBalance op)) ?st1) (\<lambda>st.
      and_then (on_view (buffered_transfer_available idx NATIVE_ASSET (startingBalance op)) st) (\<lambda>st.
        Inr (SUCCESS, st\<lparr>os_stats := (\<lambda>s. s\<lparr>new_account_count := new_account_count s + 1\<rparr>) (os_stats st)\<rparr>))) = Inr (status, st')"
      using r c True enough by (simp add: process_create_account_def handler_sel view_st_def Let_def)
    note m = two_moves [OF ok1(1) this]
    show ?thesis using m ok1 money tx_kept_trans [OF ok1(2) m(2)] by (auto simp: op_done_def undo_maps_def printed_def)
  qed
qed

lemma money_printer_done:
  assumes ok: "tx_ok (Suc n) st" and r: "process_money_printer processing_handler md op st = Inr (status, st')"
  shows "op_done md (MONEY_PRINTER op) n st status st'"
proof (cases "is_negative (printer_amount op)")
  case True
  then have "st' = st" "status \<noteq> SUCCESS" using r by (auto simp: process_money_printer_def)
  then show ?thesis using tx_ok_mono [OF ok] tx_kept_refl by (auto simp: op_done_def)
next
  case False
  have inv: "buffered_inv (view_st st)" using ok by (simp add: tx_ok_def)
  have "on_view (buffered_transfer_available (source_account_idx md) (printer_asset op) (printer_amount op)) st = Inr (status, st')"
    using r False by (simp add: process_money_printer_def handler_sel)
  note m = on_view_moved(1) [OF inv this]
  show ?thesis
    using view_moved_ok [OF tx_ok_mono [OF ok] m] view_moved_sel(5) [OF m] tx_money_view_moved [of _ st st'] m
    by (auto simp: op_done_def undo_maps_def printed_def)
qed

lemma sell_offer_done:
  assumes ok: "tx_ok (Suc n) st" and fresh: "fresh_offer md (CREATE_SELL_OFFER op) st"
    and r: "process_create_sell_offer processing_handler md op st = Inr (status, st')"
  shows "op_done md (CREATE_SELL_OFFER op) n st status st'"
proof (cases "validate_category (cso_category op) (ucast (wum_num_assets (os_markets st))) \<and> is_valid_price (cso_minPrice op) \<and> cso_amount op \<noteq> 0")
  case False
  then have "st' = st" "status \<noteq> SUCCESS" using r by (auto simp: process_create_sell_offer_def split: if_splits)
  then show ?thesis using tx_ok_mono [OF ok] tx_kept_refl by (auto simp: op_done_def)
next
  case True
  let ?o = "make_offer op md"
  let ?rest = "\<lambda>idx (status1, st2). if status1 \<noteq> SUCCESS
      then res_bind (processing_unwind_add_offer idx ?o (os_serial st2)) (\<lambda>s. Inr (status1, st2\<lparr>os_serial := s\<rparr>))
      else Inr (SUCCESS, st2\<lparr>os_stats := (os_stats st2)\<lparr>new_offer_count := new_offer_count (os_stats st2) + 1\<rparr>\<rparr>)"
  obtain idx s1 q where idx: "look_up_idx (cso_category op) (os_markets st) = Inr idx" and s1: "processing_add_offer idx ?o (os_serial st) = Inr s1"
    and q: "on_view (buffered_escrow (source_account_idx md) (sellAsset (cso_category op)) (cso_amount op)) (st\<lparr>os_serial := s1\<rparr>) = Inr q"
      "?rest idx q = Inr (status, st')"
    using r True unfolding process_create_sell_offer_def handler_sel Let_def
    by (simp del: res_bind_eq_Inr split del: if_split) (elim res_bind_InrE, simp del: res_bind_eq_Inr split del: if_split)
  obtain status1 st2 where q_eq: "q = (status1, st2)" by (cases q)
  note e = q(1) [unfolded q_eq] and rest = q(2) [unfolded q_eq prod.case]
  have parts: "buffered_inv (view_st st)" "serial_ok (Suc n) (os_serial st)" "markets_ok (os_markets st)" "markets_sized (os_markets st)"
    using ok by (simp_all add: tx_ok_def)
  note add = processing_add_offer_spec [OF parts(2) s1]
  have free: "new_map (os_serial st) (nat idx) (key_of ?o) = None" using fresh True by (simp add: fresh_offer_def)
  note market = look_up_idx_valid [OF parts(4) _ idx]
  have st1: "tx_ok n (st\<lparr>os_serial := s1\<rparr>)" "tx_kept st (st\<lparr>os_serial := s1\<rparr>)"
    using parts add(1) by (simp_all add: tx_ok_def tx_kept_def view_st_def view_kept_refl)
  have m: "view_moved (\<lambda>a. if a = sellAsset (cso_category op) then - cso_amount op else 0) (st\<lparr>os_serial := s1\<rparr>) status1 st2"
    by (rule on_view_moved(2) [OF _ e]) (use parts(1) in \<open>simp add: view_st_def\<close>)
  note moved = view_moved_sel [OF m] and ok2 = view_moved_ok [OF st1(1) m]
  have kept: "tx_kept st st2" using ok2 tx_kept_trans st1(2) by blast
  show ?thesis
  proof (cases "status1 = SUCCESS")
    case False
    then obtain s3 where s3: "processing_unwind_add_offer idx ?o (os_serial st2) = Inr s3" "status = status1" "st' = st2\<lparr>os_serial := s3\<rparr>"
      using rest by auto
    note un = processing_unwind_spec [OF _ s3(1), of n]
    have ok2s: "serial_ok n (os_serial st2)" using ok2 by (simp add: tx_ok_def)
    have "new_map s3 = new_map (os_serial st)"
      using un(2) [OF ok2s] free by (simp add: moved(1) add(2) fun_upd_idem)
    then show ?thesis using False ok2 kept un(1) [OF ok2s] moved(5)
      by (simp add: op_done_def s3 tx_ok_def tx_kept_def view_st_def maps_of_def moved(2))
  next
    case suc: True
    have st': "status = SUCCESS" "st' = st2\<lparr>os_stats := (os_stats st2)\<lparr>new_offer_count := new_offer_count (os_stats st2) + 1\<rparr>\<rparr>"
      using rest suc by auto
    have "undo_maps (os_markets st) md (CREATE_SELL_OFFER op) (maps_of st') = maps_of st"
      using free by (simp add: st' maps_of_def undo_maps_def idx moved(1,2) add(2) fun_upd_idem)
    moreover have "tx_money a st' = tx_money a st + printed a (CREATE_SELL_OFFER op)" for a
      using tx_money_view_moved [OF m [unfolded suc], of a] locked_new [OF market(2) finite_new_map [OF parts(2)] free add(2), of a] True
      by (simp add: st' tx_money_def view_st_def printed_def offer_money_def make_offer_def)
    ultimately show ?thesis using ok2 kept by (simp add: op_done_def st')
  qed
qed

text \<open>A cancelled offer is marked, and its amount leaves the locked money of the asset its category sells.\<close>

lemma delete_found:
  assumes M: "markets_ok M" "markets_sized M" and idx: "look_up_idx c M = Inr idx"
    and d: "delete_offer Main_manager idx p owner i s M = Inr (Some offer, s1, M1)"
  shows "offer_key p owner i \<notin> marks M (nat idx)" "marks M1 = (marks M)(nat idx := insert (offer_key p owner i) (marks M (nat idx)))"
    "locked a s1 M1 = locked a s M - (if a = sellAsset c then offer_amount offer else 0)"
proof -
  let ?k = "offer_key p owner i"
  note del = delete_offer_spec [OF M(1) d]
  have there: "?k \<notin> marks M (nat idx)" "open_map M (nat idx) ?k = Some offer" using del(7) by (auto split: if_splits)
  then show "?k \<notin> marks M (nat idx)" by blast
  show marks: "marks M1 = (marks M)(nat idx := insert ?k (marks M (nat idx)))" using del(8) there by (auto simp: fun_eq_iff)
  have live: "live_map M (nat idx) ?k = Some offer" using there by (simp add: live_map_def)
  have fin: "finite (dom (open_map M (nat idx)))"
    using M(1) del(5) finite_offers book_inv(2) by (auto simp: markets_ok_def open_map_def)
  have "sellAsset (category offer) = sellAsset c"
    using M(2) del(5) there(2) look_up_idx_sells [OF M(2) idx del(6,5)] by (auto simp: markets_sized_def)
  then show "locked a s1 M1 = locked a s M - (if a = sellAsset c then offer_amount offer else 0)"
    using locked_mark [OF del(2) marks del(5) fin live, of a s1] del(3) by (simp add: locked_def offer_money_def)
qed

lemma cancel_done:
  assumes ok: "tx_ok (Suc n) st" and r: "process_cancel_sell_offer processing_handler md op st = Inr (status, st')"
  shows "op_done md (CANCEL_SELL_OFFER op) n st status st'"
proof -
  let ?owner = "sourceAccount (tx_metadata md)"
  let ?k = "offer_key (cancel_minPrice op) ?owner (cancel_offerId op)"
  obtain idx found s1 M1 where idx: "look_up_idx (cancel_category op) (os_markets st) = Inr idx"
    and d: "delete_offer Main_manager idx (cancel_minPrice op) ?owner (cancel_offerId op) (os_serial st) (os_markets st) = Inr (found, s1, M1)"
    and rest: "(case found of None \<Rightarrow> Inr (CANCEL_OFFER_TARGET_NEXIST, st\<lparr>os_serial := s1, os_markets := M1\<rparr>)
      | Some offer \<Rightarrow> res_bind (on_view (buffered_escrow (source_account_idx md) (sellAsset (cancel_category op)) (- offer_amount offer)) (st\<lparr>os_serial := s1, os_markets := M1\<rparr>))
         (\<lambda>(status, st). if status \<noteq> SUCCESS
         then res_bind (processing_undelete_offer idx (cancel_minPrice op) ?owner (cancel_offerId op) (os_markets st)) (\<lambda>M. Inr (status, st\<lparr>os_markets := M\<rparr>))
         else Inr (SUCCESS, st\<lparr>os_stats := (os_stats st)\<lparr>cancel_offer_count := cancel_offer_count (os_stats st) + 1\<rparr>\<rparr>))) = Inr (status, st')"
    using r unfolding process_cancel_sell_offer_def handler_sel Let_def
    by (elim res_bind_InrE) (auto simp del: res_bind_eq_Inr split del: if_split)
  have parts: "buffered_inv (view_st st)" "serial_ok n (os_serial st)" "markets_ok (os_markets st)" "markets_sized (os_markets st)"
    using tx_ok_mono [OF ok] by (simp_all add: tx_ok_def)
  note del = delete_offer_spec [OF parts(3) d]
  let ?st1 = "st\<lparr>os_serial := s1, os_markets := M1\<rparr>"
  have st1: "tx_ok n ?st1" "tx_kept st ?st1"
    using parts del(1,2,4) markets_sized_same [OF del(2) parts(4)] by (simp_all add: tx_ok_def tx_kept_def view_st_def view_kept_refl)
  show ?thesis
  proof (cases found)
    case None
    then have st': "st' = ?st1" "status \<noteq> SUCCESS" using rest by auto
    have "marks M1 = marks (os_markets st)" using del(7,8) None by (auto simp: fun_eq_iff split: if_splits)
    then show ?thesis using st1 st' del(3) by (simp add: op_done_def maps_of_def)
  next
    case (Some offer)
    note f = delete_found [OF parts(3,4) idx d [unfolded Some]]
    obtain status1 st2 where e: "on_view (buffered_escrow (source_account_idx md) (sellAsset (cancel_category op)) (- offer_amount offer)) ?st1 = Inr (status1, st2)"
      and rest2: "(if status1 \<noteq> SUCCESS
         then res_bind (processing_undelete_offer idx (cancel_minPrice op) ?owner (cancel_offerId op) (os_markets st2)) (\<lambda>M. Inr (status1, st2\<lparr>os_markets := M\<rparr>))
         else Inr (SUCCESS, st2\<lparr>os_stats := (os_stats st2)\<lparr>cancel_offer_count := cancel_offer_count (os_stats st2) + 1\<rparr>\<rparr>)) = Inr (status, st')"
      using rest unfolding Some by (auto simp del: res_bind_eq_Inr split del: if_split elim!: res_bind_InrE)
    have m: "view_moved (\<lambda>a. if a = sellAsset (cancel_category op) then offer_amount offer else 0) ?st1 status1 st2"
      using on_view_moved(2) [OF _ e] parts(1) by (simp add: view_st_def cong: if_cong)
    note moved = view_moved_sel [OF m] and ok2 = view_moved_ok [OF st1(1) m]
    have kept: "tx_kept st st2" using ok2 tx_kept_trans st1(2) by blast
    show ?thesis
    proof (cases "status1 = SUCCESS")
      case False
      then obtain M3 where M3: "processing_undelete_offer idx (cancel_minPrice op) ?owner (cancel_offerId op) (os_markets st2) = Inr M3"
        "status = status1" "st' = st2\<lparr>os_markets := M3\<rparr>"
        using rest2 by auto
      have ok2m: "markets_ok (os_markets st2)" "markets_sized (os_markets st2)" using ok2 by (simp_all add: tx_ok_def)
      note un = undelete_offer_spec [OF ok2m(1) M3(1)]
      have "marks M3 = marks (os_markets st)" using un(3) f(1) by (simp add: moved(2) f(2) fun_upd_idem)
      then show ?thesis using False ok2 kept un(1,2) moved(5) markets_sized_same [OF un(2) ok2m(2)] del(3) same_markets_trans [of _ "os_markets st2" M3]
        by (simp add: op_done_def M3 tx_ok_def tx_kept_def view_st_def maps_of_def moved(1))
    next
      case suc: True
      have st': "status = SUCCESS" "st' = st2\<lparr>os_stats := (os_stats st2)\<lparr>cancel_offer_count := cancel_offer_count (os_stats st2) + 1\<rparr>\<rparr>"
        using rest2 suc by auto
      have "undo_maps (os_markets st) md (CANCEL_SELL_OFFER op) (maps_of st') = maps_of st"
        using f(1) by (simp add: st' maps_of_def undo_maps_def idx moved(1,2) f(2) del(3) fun_upd_idem)
      moreover have "tx_money a st' = tx_money a st + printed a (CANCEL_SELL_OFFER op)" for a
        using tx_money_view_moved [OF m [unfolded suc], of a] f(3) [of a] by (simp add: st' tx_money_def view_st_def printed_def)
      ultimately show ?thesis using ok2 kept by (simp add: op_done_def st')
    qed
  qed
qed

lemma process_operation_done:
  assumes ok: "tx_ok (Suc n) st" and fresh: "fresh_offer md op st" and r: "process_operation processing_handler md op st = Inr (status, st')"
  shows "op_done md op n st status st'"
  using r payment_done [OF ok] create_account_done [OF ok] money_printer_done [OF ok] cancel_done [OF ok] sell_offer_done [OF ok] fresh
  by (cases op) (simp_all add: process_operation_def)

end
