(* ===== verification/Transaction_Unwind.thy ===== *)
theory Transaction_Unwind
  imports Transaction_Laws
begin

text \<open>
  All operations of a transaction: what the ones that succeed leave, and that unwinding them restores the new
  offers and the marks.
\<close>

section \<open>Identifiers of the offers of a transaction\<close>

lemma offer_key_id: "offer_key p a i = offer_key q b j \<Longrightarrow> i = j"
proof -
  assume "offer_key p a i = offer_key q b j"
  then have "be_nat (big_endian_bytes 8 i) = be_nat (big_endian_bytes 8 j)" by (simp add: offer_key_def bytes_key_inject)
  then show ?thesis unfolding be_nat_u64 by simp
qed

definition unused_ids :: "(nat \<Rightarrow> key \<Rightarrow> Offer option) \<Rightarrow> AccountID \<Rightarrow> u64 \<Rightarrow> nat \<Rightarrow> nat \<Rightarrow> bool" where
  "unused_ids nm owner seq i n \<longleftrightarrow> (\<forall>m p j. i \<le> j \<and> j < n \<longrightarrow> nm m (offer_key p owner (seq + of_nat j)) = None)"

definition op_metadata :: "OperationMetadata \<Rightarrow> nat \<Rightarrow> OperationMetadata" where
  "op_metadata md i = md\<lparr>operation_id := sequenceNumber (tx_metadata md) + of_nat i\<rparr>"

lemma unused_fresh:
  assumes "unused_ids (new_map (os_serial st)) (sourceAccount (tx_metadata md)) (sequenceNumber (tx_metadata md)) i n" "i < n"
  shows "fresh_offer (op_metadata md i) op st"
  using assms by (auto simp: fresh_offer_def unused_ids_def make_offer_def op_metadata_def split: Operation.splits)

lemma same_ids: "(seq :: u64) + of_nat i = seq + of_nat j \<Longrightarrow> i < 2 ^ 64 \<Longrightarrow> j < 2 ^ 64 \<Longrightarrow> i = j"
  by (simp add: word_of_nat_eq_iff take_bit_nat_eq_self)

text \<open>Other identifiers stay free.\<close>

lemma undo_maps_other:
  assumes u: "undo_maps M (op_metadata md i) op (nm', mk') = (nm, mk)"
    and k: "\<And>p. k \<noteq> offer_key p (sourceAccount (tx_metadata md)) (sequenceNumber (tx_metadata md) + of_nat i)"
  shows "nm' m k = nm m k"
  using u k [of "cso_minPrice (case op of CREATE_SELL_OFFER o1 \<Rightarrow> o1)"]
  by (cases op) (auto simp: undo_maps_def make_offer_def op_metadata_def split: sum.splits)

lemma unused_step:
  assumes u: "undo_maps M (op_metadata md i) op (maps_of st') = maps_of st" and n: "n \<le> 2 ^ 64" and i: "i < n"
    and free: "unused_ids (new_map (os_serial st)) (sourceAccount (tx_metadata md)) (sequenceNumber (tx_metadata md)) i n"
  shows "unused_ids (new_map (os_serial st')) (sourceAccount (tx_metadata md)) (sequenceNumber (tx_metadata md)) (Suc i) n"
  unfolding unused_ids_def
proof (intro allI impI)
  fix m p j assume j: "Suc i \<le> j \<and> j < n"
  let ?k = "offer_key p (sourceAccount (tx_metadata md)) (sequenceNumber (tx_metadata md) + of_nat j)"
  have "?k \<noteq> offer_key q (sourceAccount (tx_metadata md)) (sequenceNumber (tx_metadata md) + of_nat i)" for q
    using offer_key_id same_ids [of _ j i] j n by fastforce
  then have "new_map (os_serial st') m ?k = new_map (os_serial st) m ?k"
    using undo_maps_other [of M md i op "new_map (os_serial st')" "marks (os_markets st')"] u by (simp add: maps_of_def)
  then show "new_map (os_serial st') m ?k = None" using free j by (simp add: unused_ids_def)
qed

section \<open>Running the operations\<close>

fun undo_operations ::
    "MerkleWorkUnitManager \<Rightarrow> OperationMetadata \<Rightarrow> nat \<Rightarrow> Operation list \<Rightarrow> (nat \<Rightarrow> key \<Rightarrow> Offer option) \<times> (nat \<Rightarrow> key set) \<Rightarrow>
     (nat \<Rightarrow> key \<Rightarrow> Offer option) \<times> (nat \<Rightarrow> key set)" where
  "undo_operations M md i [] x = x"
| "undo_operations M md i (op # ops) x = undo_maps M (op_metadata md i) op (undo_operations M md (Suc i) ops x)"

lemma undo_maps_same: "same_markets M M' \<Longrightarrow> undo_maps M' = undo_maps M"
  using same_markets_sel(4) [of M M'] by (simp add: undo_maps_def fun_eq_iff cong: Operation.case_cong)

lemma undo_operations_same: "same_markets M M' \<Longrightarrow> undo_operations M' md i ops x = undo_operations M md i ops x"
  by (induction ops arbitrary: i) (simp_all add: undo_maps_same)

lemma undo_operations_snoc: "undo_operations M md i (ops @ [op]) x = undo_operations M md i ops (undo_maps M (op_metadata md (i + length ops)) op x)"
  by (induction ops arbitrary: i) simp_all

definition ops_done ::
    "OperationMetadata \<Rightarrow> nat \<Rightarrow> Operation list \<Rightarrow> nat \<Rightarrow> (BaseSerialManager, BufferedMemoryDatabaseView) op_state \<Rightarrow>
     TransactionProcessingStatus \<Rightarrow> nat \<Rightarrow> (BaseSerialManager, BufferedMemoryDatabaseView) op_state \<Rightarrow> bool" where
  "ops_done md i ops n st status j st' \<longleftrightarrow> tx_ok n st' \<and> tx_kept st st' \<and> i \<le> j \<and> j \<le> i + length ops \<and>
     undo_operations (os_markets st) md i (take (j - i) ops) (maps_of st') = maps_of st \<and>
     (status = SUCCESS \<longrightarrow> j = i + length ops \<and> (\<forall>a. tx_money a st' = tx_money a st + (\<Sum>op \<leftarrow> ops. printed a op)))"

lemma process_operations_done:
  assumes "tx_ok (n + length ops) st" "i + length ops \<le> 2 ^ 64"
    "unused_ids (new_map (os_serial st)) (sourceAccount (tx_metadata md)) (sequenceNumber (tx_metadata md)) i (i + length ops)"
    "process_operations processing_handler md i ops st = Inr (status, j, st')"
  shows "ops_done md i ops n st status j st'"
  using assms
proof (induction ops arbitrary: i st)
  case Nil
  then show ?case using tx_kept_refl [of n st] by (auto simp: ops_done_def)
next
  case (Cons op ops)
  obtain status1 st1 where r: "process_operation processing_handler (op_metadata md i) op st = Inr (status1, st1)"
    and rest: "(if status1 \<noteq> SUCCESS then Inr (status1, i, st1) else process_operations processing_handler md (Suc i) ops st1) = Inr (status, j, st')"
    using Cons.prems(4) by (auto simp: op_metadata_def split del: if_split)
  have "tx_ok (Suc (n + length ops)) st" using Cons.prems(1) by simp
  moreover have "fresh_offer (op_metadata md i) op st" using unused_fresh [OF Cons.prems(3)] by simp
  ultimately have d: "op_done (op_metadata md i) op (n + length ops) st status1 st1" using r by (rule process_operation_done)
  show ?case
  proof (cases "status1 = SUCCESS")
    case False
    then have j: "st' = st1" "j = i" "status = status1" using rest by auto
    have "tx_ok (n + k) st1 \<Longrightarrow> tx_ok n st1" for k by (induction k) (auto dest: tx_ok_mono)
    then show ?thesis using d False j by (auto simp: op_done_def ops_done_def)
  next
    case True
    note d = d [unfolded op_done_def, simplified True, simplified]
    have undo: "undo_maps (os_markets st) (op_metadata md i) op (maps_of st1) = maps_of st" using d by blast
    have "unused_ids (new_map (os_serial st1)) (sourceAccount (tx_metadata md)) (sequenceNumber (tx_metadata md)) (Suc i) (i + length (op # ops))"
      using Cons.prems(2) by (intro unused_step [OF undo _ _ Cons.prems(3)]) simp_all
    then have "ops_done md (Suc i) ops n st1 status j st'" using d rest True Cons.prems(2) by (intro Cons.IH) simp_all
    note e = this [unfolded ops_done_def]
    have same: "same_markets (os_markets st) (os_markets st1)" using d by (simp add: tx_kept_def)
    have "Suc i \<le> j" using e by blast
    then have "j - i = Suc (j - Suc i)" by simp
    then have "undo_operations (os_markets st) md i (take (j - i) (op # ops)) (maps_of st') =
        undo_maps (os_markets st) (op_metadata md i) op (undo_operations (os_markets st1) md (Suc i) (take (j - Suc i) ops) (maps_of st'))"
      by (simp add: undo_operations_same [OF same])
    also have "\<dots> = maps_of st" using e undo by simp
    finally show ?thesis using d e tx_kept_trans [of st st1 st'] by (auto simp: ops_done_def)
  qed
qed

section \<open>Unwinding\<close>

lemma unwind_operations_spec:
  assumes "serial_ok n s" "markets_ok M" "unwind_operations md rops (s, M) = Inr (s', M')"
  shows "serial_ok n s' \<and> markets_ok M' \<and> same_markets M M' \<and>
    (new_map s', marks M') = undo_operations M \<lparr>tx_metadata = md, source_account_idx = idx, operation_id = x\<rparr> 0 (rev rops) (new_map s, marks M)"
  using assms
proof (induction rops arbitrary: s M)
  case (Cons op rops)
  let ?md = "\<lparr>tx_metadata = md, source_account_idx = idx, operation_id = x\<rparr>"
  have done1: ?case if u: "unwind_operations md rops (s1, M1) = Inr (s', M')" and s1: "serial_ok n s1" "markets_ok M1" "same_markets M M1"
    "(new_map s1, marks M1) = undo_maps M (op_metadata ?md (length rops)) op (new_map s, marks M)" for s1 M1
  proof -
    note ih = Cons.IH [OF s1(1,2) u]
    show ?thesis using ih same_markets_trans [OF s1(3), of M']
      by (simp add: undo_operations_snoc undo_operations_same [OF s1(3)] s1(4))
  qed
  show ?case
  proof (cases op)
    case (CREATE_SELL_OFFER o1)
    obtain m s1 where m: "look_up_idx (cso_category o1) M = Inr m"
      "processing_unwind_add_offer m (make_offer o1 \<lparr>tx_metadata = md, source_account_idx = 0, operation_id = sequenceNumber md + of_nat (length rops)\<rparr>) s = Inr s1"
      "unwind_operations md rops (s1, M) = Inr (s', M')"
      using Cons.prems(3) by (auto simp: CREATE_SELL_OFFER)
    show ?thesis using processing_unwind_spec [OF Cons.prems(1) m(2)] Cons.prems(2) m(1)
      by (intro done1 [OF m(3)]) (simp_all add: undo_maps_def CREATE_SELL_OFFER make_offer_def op_metadata_def)
  next
    case (CANCEL_SELL_OFFER o1)
    obtain m M1 where m: "look_up_idx (cancel_category o1) M = Inr m"
      "processing_undelete_offer m (cancel_minPrice o1) (sourceAccount md) (cancel_offerId o1) M = Inr M1" "unwind_operations md rops (s, M1) = Inr (s', M')"
      using Cons.prems(3) by (auto simp: CANCEL_SELL_OFFER)
    show ?thesis using undelete_offer_spec [OF Cons.prems(2) m(2)] Cons.prems(1) m(1)
      by (intro done1 [OF m(3)]) (simp_all add: undo_maps_def CANCEL_SELL_OFFER op_metadata_def)
  next
    case (MONEY_PRINTER o1)
    then show ?thesis using Cons.prems(3) by simp
  next
    case (CREATE_ACCOUNT o1)
    then show ?thesis using Cons.prems by (intro done1 [of s M]) (simp_all add: undo_maps_def)
  next
    case (PAYMENT o1)
    then show ?thesis using Cons.prems by (intro done1 [of s M]) (simp_all add: undo_maps_def)
  qed
qed simp

end
