(* ===== verification/Transaction_Result.thy ===== *)
theory Transaction_Result
  imports Transaction_Unwind
begin

text \<open>
  A whole transaction on the producer's side: one that fails leaves the balances, the sequence numbers, the new
  offers, the marks and the log as they were, and one that succeeds changes the money by what it prints.
\<close>

section \<open>Sequence numbers\<close>

text \<open>A reservation that is refused changes nothing, and releasing one that was granted takes it back.\<close>

lemma reserve_eq: "fst (reserve_sequence_number u seq) = u\<lparr>sequence_number_vec := sequence_number_vec (fst (reserve_sequence_number u seq))\<rparr>"
  by (simp add: reserve_sequence_number_def Let_def)

lemma reserve_refused: "snd (reserve_sequence_number u seq) \<noteq> SUCCESS \<Longrightarrow> fst (reserve_sequence_number u seq) = u"
proof -
  assume r: "snd (reserve_sequence_number u seq) \<noteq> SUCCESS"
  let ?o = "get_seq_num_offset seq (last_committed_id u)"
  have "sequence_number_vec u OR push_bit (unat ?o) 1 = sequence_number_vec u" if o: "\<not> 64 \<le> ?o" "sequence_number_vec u AND push_bit (unat ?o) 1 \<noteq> 0"
  proof -
    have j: "unat ?o < 64" using o(1) by (simp add: word_le_nat_alt)
    show ?thesis using bit_mask_facts(1,2) [OF j] o(2) by (intro bit_eqI) auto
  qed
  then show ?thesis using r by (auto simp: reserve_sequence_number_def Let_def split: if_splits)
qed

lemma reserve_release:
  assumes r: "snd (reserve_sequence_number u seq) = SUCCESS"
    and u': "sequence_number_vec u' = sequence_number_vec (fst (reserve_sequence_number u seq))" "last_committed_id u' = last_committed_id u"
  shows "release_sequence_number u' seq = Inr (u'\<lparr>sequence_number_vec := sequence_number_vec u\<rparr>)"
proof -
  let ?o = "get_seq_num_offset seq (last_committed_id u)" and ?v = "sequence_number_vec u"
  have o: "\<not> seq \<le> last_committed_id u" "\<not> 64 \<le> ?o" "?v AND push_bit (unat ?o) 1 = 0"
    using r by (auto simp: reserve_sequence_number_def Let_def split: if_splits)
  have j: "unat ?o < 64" using o(2) by (simp add: word_le_nat_alt)
  have "(?v OR push_bit (unat ?o) 1) AND NOT (push_bit (unat ?o) 1) = ?v"
    using bit_mask_facts [OF j] o(3) by (intro bit_eqI) auto
  then show ?thesis using o u' by (simp add: release_sequence_number_def Let_def reserve_sequence_number_def)
qed

section \<open>The database\<close>

lemma find_account_Inr: "find_account db i = Inr u \<longleftrightarrow> i < length (database db) \<and> u = database db ! i"
  by (auto simp: find_account_def)

text \<open>The database up to balances, and the balances.\<close>

definition same_database :: "MemoryDatabase \<Rightarrow> MemoryDatabase \<Rightarrow> bool" where
  "same_database db db' \<longleftrightarrow> frame_up_to_reserved db db' \<and> (\<forall>i < length (database db). \<forall>a. db_balance db' (i, a) = db_balance db (i, a))"

definition reserved_db :: "MemoryDatabase \<Rightarrow> account_db_idx \<Rightarrow> u64 \<Rightarrow> MemoryDatabase" where
  "reserved_db db i seq = put_account i (fst (reserve_sequence_number (database db ! i) seq)) db"

lemma db_reserve_Inr:
  assumes "db_reserve_sequence_number db i seq = Inr (db', status)"
  shows "i < length (database db)" "db' = reserved_db db i seq" "status = snd (reserve_sequence_number (database db ! i) seq)"
  using assms by (auto simp: db_reserve_sequence_number_def find_account_Inr reserved_db_def split: prod.splits)

lemma acct_balance_seq [simp]: "acct_balance (u\<lparr>sequence_number_vec := v\<rparr>) a = acct_balance u a"
  by (simp add: acct_balance_def asset_at_def all_assets_def)

lemma reserved_balance [simp]: "acct_balance (fst (reserve_sequence_number u seq)) a = acct_balance u a"
  by (subst reserve_eq) simp

lemma reserved_db_same:
  assumes "i < length (database db)" "snd (reserve_sequence_number (database db ! i) seq) \<noteq> SUCCESS"
  shows "reserved_db db i seq = db"
  using reserve_refused [OF assms(2)] by (simp add: reserved_db_def put_account_def)

lemma reserved_db_balance: "i < length (database db) \<Longrightarrow> db_balance (reserved_db db i seq) (j, a) = db_balance db (j, a)"
  by (simp add: db_balance_def reserved_db_def put_account_def nth_list_update)

lemma reserved_db_money: "i < length (database db) \<Longrightarrow> db_money a (reserved_db db i seq) = db_money a db"
proof -
  assume i: "i < length (database db)"
  have "map (\<lambda>u. acct_balance u a) ((database db)[i := fst (reserve_sequence_number (database db ! i) seq)]) = map (\<lambda>u. acct_balance u a) (database db)"
    using i by (simp add: map_update list_update_same_conv)
  then show ?thesis by (simp add: db_money_def reserved_db_def put_account_def)
qed

lemma released_same:
  assumes i: "i < length (database db)" and ok: "snd (reserve_sequence_number (database db ! i) seq) = SUCCESS"
    and fr: "frame_up_to_reserved (reserved_db db i seq) x" and r: "db_release_sequence_number x i seq = Inr db'"
  shows "frame_up_to_reserved db db'" "\<forall>j < length (database db). \<forall>a. db_balance db' (j, a) = db_balance x (j, a)"
proof -
  let ?u = "database db ! i" and ?db1 = "reserved_db db i seq"
  have len: "length (database x) = length (database db)"
    using fr db_frame_sel(1) [of ?db1 "x\<lparr>reserved_account_ids := reserved_account_ids ?db1\<rparr>"]
    by (simp add: frame_up_to_reserved_def reserved_db_def put_account_def)
  have accts: "acct_frame (database ?db1 ! j) (database x ! j)" if "j < length (database db)" for j
    using fr db_frame_sel(8) [of ?db1 "x\<lparr>reserved_account_ids := reserved_account_ids ?db1\<rparr>" j] that
    by (simp add: frame_up_to_reserved_def reserved_db_def put_account_def)
  have ui: "acct_frame (fst (reserve_sequence_number ?u seq)) (database x ! i)" using accts [OF i] i by (simp add: reserved_db_def put_account_def)
  have rel: "release_sequence_number (database x ! i) seq = Inr ((database x ! i)\<lparr>sequence_number_vec := sequence_number_vec ?u\<rparr>)"
    using ui by (intro reserve_release [OF ok]) (simp_all add: acct_frame_def)
  have db': "db' = put_account i ((database x ! i)\<lparr>sequence_number_vec := sequence_number_vec ?u\<rparr>) x"
    using r len i rel by (auto simp: db_release_sequence_number_def find_account_Inr)
  show "\<forall>j < length (database db). \<forall>a. db_balance db' (j, a) = db_balance x (j, a)"
    using len i by (auto simp: db' db_balance_def put_account_def nth_list_update)
  have x: "x\<lparr>reserved_account_ids := reserved_account_ids db\<rparr> = db\<lparr>database := database x\<rparr>"
    using fr by (simp add: frame_up_to_reserved_def db_frame_def reserved_db_def put_account_def)
  have "db'\<lparr>reserved_account_ids := reserved_account_ids db\<rparr> = (x\<lparr>reserved_account_ids := reserved_account_ids db\<rparr>)\<lparr>database := database db'\<rparr>"
    by (simp add: db' put_account_def)
  also have "\<dots> = db\<lparr>database := database db'\<rparr>" unfolding x by simp
  finally have "db'\<lparr>reserved_account_ids := reserved_account_ids db\<rparr> = db\<lparr>database := database db'\<rparr>" .
  moreover have "acct_frame (database db ! j) (database db' ! j)" if j: "j < length (database db)" for j
  proof (cases "j = i")
    case True
    have c: "acct_committed_balance (u\<lparr>sequence_number_vec := v\<rparr>) a = acct_committed_balance u a" for u :: UserAccount and v a
      by (simp add: acct_committed_balance_def)
    show ?thesis using ui True len i by (simp add: db' put_account_def acct_frame_def c)
  next
    case False
    then show ?thesis using accts [OF j] j by (simp add: db' put_account_def reserved_db_def)
  qed
  ultimately show "frame_up_to_reserved db db'"
    using len by (simp add: frame_up_to_reserved_def db_frame_def list_all2_conv_all_nth db' put_account_def)
qed

lemma same_database_refl: "same_database db db"
  by (simp add: same_database_def frame_up_to_reserved_I)

section \<open>Transactions\<close>

text \<open>A state in which a transaction can run, with room for \<open>n\<close> more offers after it.\<close>

definition tx_ready :: "nat \<Rightarrow> Transaction \<Rightarrow> BaseSerialManager tx_state \<Rightarrow> bool" where
  "tx_ready n tx st \<longleftrightarrow> serial_ok (n + length (operations tx)) (ts_serial st) \<and> markets_ok (ts_markets st) \<and> markets_sized (ts_markets st) \<and>
     length (operations tx) \<le> 2 ^ 64 \<and>
     unused_ids (new_map (ts_serial st)) (sourceAccount (Transaction.metadata tx)) (sequenceNumber (Transaction.metadata tx)) 0 (length (operations tx))"

definition tx_wf :: "nat \<Rightarrow> BaseSerialManager tx_state \<Rightarrow> bool" where
  "tx_wf n st \<longleftrightarrow> serial_ok n (ts_serial st) \<and> markets_ok (ts_markets st) \<and> markets_sized (ts_markets st)"

definition ts_maps :: "BaseSerialManager tx_state \<Rightarrow> (nat \<Rightarrow> key \<Rightarrow> Offer option) \<times> (nat \<Rightarrow> key set)" where
  "ts_maps st = (new_map (ts_serial st), marks (ts_markets st))"

definition ts_money :: "AssetID \<Rightarrow> BaseSerialManager tx_state \<Rightarrow> i64" where
  "ts_money a st = db_money a (ts_db st) + locked a (ts_serial st) (ts_markets st)"

lemma serial_ok_more: "serial_ok (n + m) s \<Longrightarrow> serial_ok n s"
  unfolding serial_ok_def by (metis add.assoc add_lessD1)

lemma tx_ready_wf: "tx_ready n tx st \<Longrightarrow> tx_wf n st"
  using serial_ok_more by (auto simp: tx_ready_def tx_wf_def)

text \<open>The operations, run on the state after the sequence number is reserved.\<close>

definition start_state :: "MemoryDatabase \<Rightarrow> BaseSerialManager tx_state \<Rightarrow> (BaseSerialManager, BufferedMemoryDatabaseView) op_state" where
  "start_state db st = \<lparr>os_db = db, os_view = new_buffered_view db, os_serial = ts_serial st, os_markets = ts_markets st, os_log = ts_log st,
     os_stats = no_stats\<rparr>"

lemma start_done:
  assumes ready: "tx_ready n tx st"
    and r: "process_operations processing_handler \<lparr>tx_metadata = Transaction.metadata tx, source_account_idx = idx, operation_id = 0\<rparr> 0 (operations tx)
      (start_state db st) = Inr (status, j, os)"
  shows "ops_done \<lparr>tx_metadata = Transaction.metadata tx, source_account_idx = idx, operation_id = 0\<rparr> 0 (operations tx) n (start_state db st) status j os"
  using ready new_buffered_view_inv(1) [of db]
  by (intro process_operations_done [OF _ _ _ r]) (simp_all add: tx_ready_def tx_ok_def view_st_def start_state_def)

lemma process_transaction_cases:
  assumes r: "process_transaction signed_tx st = Inr (status, st')"
  obtains (refused) "status \<noteq> SUCCESS" "st' = st"
  | (failed) idx j os s M db where
      "status \<noteq> SUCCESS" "idx < length (database (ts_db st))"
      "snd (reserve_sequence_number (database (ts_db st) ! idx) (sequenceNumber (Transaction.metadata (transaction signed_tx)))) = SUCCESS"
      "process_operations processing_handler \<lparr>tx_metadata = Transaction.metadata (transaction signed_tx), source_account_idx = idx, operation_id = 0\<rparr> 0
         (operations (transaction signed_tx)) (start_state (reserved_db (ts_db st) idx (sequenceNumber (Transaction.metadata (transaction signed_tx)))) st) = Inr (status, j, os)"
      "unwind_operations (Transaction.metadata (transaction signed_tx)) (rev (take j (operations (transaction signed_tx)))) (os_serial os, os_markets os) = Inr (s, M)"
      "db_release_sequence_number (buffered_unwind (os_db os, os_view os)) idx (sequenceNumber (Transaction.metadata (transaction signed_tx))) = Inr db"
      "st' = st\<lparr>ts_db := db, ts_serial := s, ts_markets := M, ts_log := os_log os\<rparr>"
  | (applied) idx j os db log where
      "status = SUCCESS" "idx < length (database (ts_db st))"
      "process_operations processing_handler \<lparr>tx_metadata = Transaction.metadata (transaction signed_tx), source_account_idx = idx, operation_id = 0\<rparr> 0
         (operations (transaction signed_tx)) (start_state (reserved_db (ts_db st) idx (sequenceNumber (Transaction.metadata (transaction signed_tx)))) st) = Inr (SUCCESS, j, os)"
      "db_commit_sequence_number (buffered_commit (os_db os, os_view os)) idx (sequenceNumber (Transaction.metadata (transaction signed_tx))) = Inr db"
      "log_modified_accounts signed_tx (os_log os) = Inr log"
      "st' = \<lparr>ts_db = db, ts_serial = os_serial os, ts_markets = os_markets os, ts_log = log, ts_stats = stats_plus (ts_stats st) (os_stats os)\<rparr>"
proof -
  let ?tx = "transaction signed_tx"
  let ?md = "Transaction.metadata ?tx"
  let ?seq = "sequenceNumber ?md"
  consider (bad) "\<not> check_tx_format_parameters ?tx" | (none) "check_tx_format_parameters ?tx" "lookup_user_id (ts_db st) (sourceAccount ?md) = None"
    | (idx) idx where "check_tx_format_parameters ?tx" "lookup_user_id (ts_db st) (sourceAccount ?md) = Some idx" by fastforce
  then show thesis
  proof cases
    case bad
    then show thesis using r refused by (simp add: process_transaction_def)
  next
    case none
    then show thesis using r refused by (simp add: process_transaction_def)
  next
    case idx
    let ?rest = "\<lambda>(db1, seq_status). if seq_status \<noteq> SUCCESS then Inr (seq_status, st\<lparr>ts_db := db1\<rparr>)
                else res_bind (process_operations processing_handler \<lparr>tx_metadata = ?md, source_account_idx = idx, operation_id = 0\<rparr> 0 (operations ?tx) (start_state db1 st))
                  (\<lambda>(status, i, os). if status \<noteq> SUCCESS
                    then res_bind (unwind_transaction (os_db os) ?tx i (os_serial os, os_markets os)) (\<lambda>(s, M).
                       res_bind (db_release_sequence_number (buffered_unwind (os_db os, os_view os)) idx ?seq) (\<lambda>db.
                       Inr (status, st\<lparr>ts_db := db, ts_serial := s, ts_markets := M, ts_log := os_log os\<rparr>)))
                    else res_bind (db_commit_sequence_number (buffered_commit (os_db os, os_view os)) idx ?seq) (\<lambda>db.
                       res_bind (log_modified_accounts signed_tx (os_log os)) (\<lambda>log.
                       Inr (SUCCESS, \<lparr>ts_db = db, ts_serial = os_serial os, ts_markets = os_markets os, ts_log = log,
                                      ts_stats = stats_plus (ts_stats st) (os_stats os)\<rparr>))))"
    obtain q1 where q1: "db_reserve_sequence_number (ts_db st) idx ?seq = Inr q1" "?rest q1 = Inr (status, st')"
      using r idx unfolding process_transaction_def Let_def start_state_def [symmetric]
      by (simp del: res_bind_eq_Inr split del: if_split) (elim res_bind_InrE, simp del: res_bind_eq_Inr split del: if_split)
    obtain db1 seq_status where q1_eq: "q1 = (db1, seq_status)" by (cases q1)
    note q = q1(1) [unfolded q1_eq] and rest = q1(2) [unfolded q1_eq prod.case]
    note db1 = db_reserve_Inr [OF q]
    show thesis
    proof (cases "seq_status = SUCCESS")
      case False
      then have "st' = st\<lparr>ts_db := db1\<rparr>" "status = seq_status" using rest by auto
      moreover have "db1 = ts_db st" using False db1 reserved_db_same by simp
      ultimately show thesis using False refused by simp
    next
      case True
      obtain status1 j os where p: "process_operations processing_handler \<lparr>tx_metadata = ?md, source_account_idx = idx, operation_id = 0\<rparr> 0 (operations ?tx)
          (start_state (reserved_db (ts_db st) idx ?seq) st) = Inr (status1, j, os)"
        using rest True by (auto simp: db1(2) elim!: res_bind_InrE)
      show thesis
      proof (cases "status1 = SUCCESS")
        case False
        then show thesis using rest p True db1 failed [of idx j os]
          by (auto simp: unwind_transaction_def split: option.splits)
      next
        case suc: True
        then show thesis using rest p True db1 applied [of idx j os] by auto
      qed
    qed
  qed
qed

text \<open>Taking the view back and releasing the sequence number restores the database.\<close>

lemma failed_database:
  assumes i: "idx < length (database db)" "snd (reserve_sequence_number (database db ! idx) seq) = SUCCESS"
    and kept: "view_kept (reserved_db db idx seq, new_buffered_view (reserved_db db idx seq)) (db1, v)"
    and r: "db_release_sequence_number (buffered_unwind (db1, v)) idx seq = Inr db'"
  shows "same_database db db'"
proof -
  let ?db0 = "reserved_db db idx seq"
  have inv: "buffered_inv (db1, v)" using kept by (simp add: view_kept_def)
  note uw = buffered_unwind_spec [OF inv]
  have "frame_up_to_reserved db1 (buffered_unwind (db1, v))" using uw(1) by (simp add: frame_up_to_reserved_def)
  then have fr: "frame_up_to_reserved ?db0 (buffered_unwind (db1, v))" using kept frame_up_to_reserved_trans by (auto simp: view_kept_def)
  note rel = released_same [OF i fr r]
  have size: "db_size v = length (database db)"
    using kept by (simp add: view_kept_def new_buffered_view_def reserved_db_def put_account_def)
  have "db_balance db' (j, a) = db_balance db (j, a)" if j: "j < length (database db)" for j a
  proof -
    have "db_balance db' (j, a) = buffered_base (db1, v) (j, a)" using rel(2) uw(3) j size by simp
    also have "\<dots> = buffered_base (?db0, new_buffered_view ?db0) (j, a)" using kept by (simp add: view_kept_def)
    also have "\<dots> = db_balance db (j, a)"
      using j by (simp add: new_buffered_view_inv(2) reserved_db_balance i(1)) (simp add: reserved_db_def put_account_def)
    finally show ?thesis .
  qed
  then show ?thesis using rel(1) by (simp add: same_database_def)
qed

text \<open>A transaction that does not succeed.\<close>

lemma transaction_failed:
  assumes ready: "tx_ready n (transaction signed_tx) st" and r: "process_transaction signed_tx st = Inr (status, st')" "status \<noteq> SUCCESS"
  shows "tx_wf n st'" "same_database (ts_db st) (ts_db st')" "ts_maps st' = ts_maps st" "same_markets (ts_markets st) (ts_markets st')"
    "ts_log st' = ts_log st" "ts_stats st' = ts_stats st"
proof -
  have "tx_wf n st' \<and> same_database (ts_db st) (ts_db st') \<and> ts_maps st' = ts_maps st \<and> same_markets (ts_markets st) (ts_markets st') \<and>
    ts_log st' = ts_log st \<and> ts_stats st' = ts_stats st"
    using r(1)
  proof (cases rule: process_transaction_cases)
    case refused
    then show ?thesis using tx_ready_wf [OF ready] same_database_refl by simp
  next
    case (failed idx j os s M db)
    let ?seq = "sequenceNumber (Transaction.metadata (transaction signed_tx))"
    let ?db1 = "reserved_db (ts_db st) idx ?seq"
    note d = start_done [OF ready failed(4), unfolded ops_done_def]
    have kept: "view_kept (?db1, new_buffered_view ?db1) (view_st os)" "same_markets (ts_markets st) (os_markets os)" "os_log os = ts_log st"
      using d by (simp_all add: tx_kept_def view_st_def start_state_def)
    have os: "serial_ok n (os_serial os)" "markets_ok (os_markets os)" "markets_sized (os_markets os)" using d by (simp_all add: tx_ok_def)
    note un = unwind_operations_spec [OF os(1,2) failed(5), of idx 0]
    have maps: "ts_maps st' = ts_maps st"
      using un d undo_operations_same [OF kept(2)] by (simp add: ts_maps_def maps_of_def failed(7) start_state_def)
    have "same_database (ts_db st) db" using failed_database [OF failed(2,3) _ failed(6)] kept(1) by (simp add: view_st_def)
    moreover have "tx_wf n st'" using un markets_sized_same [of "os_markets os" M] os(3) by (simp add: tx_wf_def failed(7))
    ultimately show ?thesis using maps kept(2,3) un same_markets_trans by (auto simp: failed(7))
  qed (use r(2) in simp)
  then show "tx_wf n st'" "same_database (ts_db st) (ts_db st')" "ts_maps st' = ts_maps st" "same_markets (ts_markets st) (ts_markets st')"
    "ts_log st' = ts_log st" "ts_stats st' = ts_stats st" by blast+
qed

text \<open>A transaction that succeeds.\<close>

lemma commit_sequence_same: "db_commit_sequence_number db i seq = Inr db' \<Longrightarrow> db' = db"
  by (auto simp: db_commit_sequence_number_def find_account_Inr commit_sequence_number_def put_account_def)

lemma money_sum: "(d :: i64) = v + u \<Longrightarrow> v + l' = v0 + l + p \<Longrightarrow> v0 + u = m \<Longrightarrow> d + l' = m + l + p"
proof -
  assume a: "d = v + u" and b: "v + l' = v0 + l + p" and c: "v0 + u = m"
  have "d + l' = (v + l') + u" by (simp add: a ac_simps)
  also have "\<dots> = (v0 + u) + l + p" unfolding b by (simp only: ac_simps)
  finally show "d + l' = m + l + p" by (simp add: c)
qed

lemma transaction_applied:
  assumes ready: "tx_ready n (transaction signed_tx) st" and r: "process_transaction signed_tx st = Inr (SUCCESS, st')"
  shows "tx_wf n st'" "same_markets (ts_markets st) (ts_markets st')"
    "ts_money a st' = ts_money a st + (\<Sum>op \<leftarrow> operations (transaction signed_tx). printed a op)"
proof -
  have "tx_wf n st' \<and> same_markets (ts_markets st) (ts_markets st') \<and>
    ts_money a st' = ts_money a st + (\<Sum>op \<leftarrow> operations (transaction signed_tx). printed a op)"
    using r
  proof (cases rule: process_transaction_cases)
    case (applied idx j os db log)
    let ?seq = "sequenceNumber (Transaction.metadata (transaction signed_tx))"
    let ?db1 = "reserved_db (ts_db st) idx ?seq"
    note d = start_done [OF ready applied(3), unfolded ops_done_def]
    have kept: "frame_up_to_reserved ?db1 (os_db os)" "same_markets (ts_markets st) (os_markets os)"
      using d by (simp_all add: tx_kept_def view_kept_def view_st_def start_state_def)
    have inv: "buffered_inv (os_db os, os_view os)" using d by (simp add: tx_ok_def view_st_def)
    have unc: "uncommitted_db (os_db os) = uncommitted_db ?db1"
      using kept(1) db_frame_sel(4) [of ?db1 "(os_db os)\<lparr>reserved_account_ids := reserved_account_ids ?db1\<rparr>"] by (simp add: frame_up_to_reserved_def)
    have "db_money a db = view_money a (view_st os) + (\<Sum>u \<leftarrow> uncommitted_db ?db1. acct_balance u a)"
      using commit_money [OF inv, of a] commit_sequence_same [OF applied(4)] by (simp add: unc view_st_def)
    moreover have "view_money a (view_st os) + locked a (os_serial os) (os_markets os) = view_money a (?db1, new_buffered_view ?db1) + locked a (ts_serial st) (ts_markets st)
        + (\<Sum>op \<leftarrow> operations (transaction signed_tx). printed a op)"
      using d by (simp add: tx_money_def start_state_def view_st_def)
    moreover have "view_money a (?db1, new_buffered_view ?db1) + (\<Sum>u \<leftarrow> uncommitted_db ?db1. acct_balance u a) = db_money a (ts_db st)"
      using new_view_money [of a ?db1] reserved_db_money [OF applied(2), of a] by simp
    ultimately have "db_money a db + locked a (os_serial os) (os_markets os) =
        db_money a (ts_db st) + locked a (ts_serial st) (ts_markets st) + (\<Sum>op \<leftarrow> operations (transaction signed_tx). printed a op)"
      by (rule money_sum)
    then have "ts_money a st' = ts_money a st + (\<Sum>op \<leftarrow> operations (transaction signed_tx). printed a op)"
      by (simp add: ts_money_def applied(6))
    then show ?thesis using d kept(2) by (simp add: applied(6) tx_wf_def tx_ok_def)
  qed simp_all
  then show "tx_wf n st'" "same_markets (ts_markets st) (ts_markets st')"
    "ts_money a st' = ts_money a st + (\<Sum>op \<leftarrow> operations (transaction signed_tx). printed a op)" by blast+
qed

end
