(* ===== verification/Manager_Laws.thy ===== *)
theory Manager_Laws
  imports Transaction_Result
begin

text \<open>
  The vector of markets: adding assets moves every market to its new index, and an index that is not checked can
  lie outside.
\<close>

section \<open>Adding assets\<close>

text \<open>Every market stands at the index of its category.\<close>

definition markets_placed :: "MerkleWorkUnitManager \<Rightarrow> bool" where
  "markets_placed M \<longleftrightarrow> unat (wum_num_assets M) \<le> MAX_INDEXABLE_ASSETS \<and>
     length (work_units M) = unat (wum_num_assets M) * (unat (wum_num_assets M) - 1) \<and>
     (\<forall>i < length (work_units M). wu_category (work_units M ! i) = category_from_idx (int i) (int (unat (wum_num_assets M))))"

definition market_of :: "OfferCategory \<Rightarrow> MerkleWorkUnitManager \<Rightarrow> MerkleWorkUnit res" where
  "market_of c M = res_bind (look_up_idx c M) (\<lambda>idx. work_unit_at idx M)"

definition trades :: "OfferCategory \<Rightarrow> u16 \<Rightarrow> bool" where
  "trades c n \<longleftrightarrow> validate_category c (ucast n) \<and> offerType c = SELL"

lemma trades_more: "trades c n \<Longrightarrow> n \<le> m \<Longrightarrow> trades c m"
proof -
  assume c: "trades c n" and n: "n \<le> m"
  have "(ucast n :: u32) \<le> ucast m" using n by (simp add: word_le_nat_alt unat_u16_u32)
  then show "trades c m" using c by (auto simp: trades_def validate_category_def not_le)
qed

lemma unat_units:
  assumes "unat (n :: u16) \<le> MAX_INDEXABLE_ASSETS"
  shows "nat (sint (get_num_work_units_by_asset_count (ucast n))) = unat n * (unat n - 1)"
proof (cases "n = 0")
  case False
  let ?n = "ucast n :: u32"
  have pos: "0 < unat n" using False by (simp add: unat_gt_0)
  have n1: "unat (?n - 1) = unat n - 1" using pos by (subst unat_sub_exact) (simp_all add: unat_u16_u32)
  have small: "unat n * (unat n - 1) < 2 ^ 31" by (rule indexable_product [OF assms])
  have "unat (?n * (?n - 1)) = unat n * (unat n - 1)" using small by (subst unat_mult_exact) (simp_all add: n1 unat_u16_u32)
  then have "sint (?n * (?n - 1)) = int (unat n * (unat n - 1))" using small by (simp add: sint_small)
  then show ?thesis by (simp only: get_num_work_units_by_asset_count_def NUM_OFFER_TYPES_def of_nat_1 mult_1 nat_int)
qed (simp add: get_num_work_units_by_asset_count_def)

lemma market_at:
  assumes M: "markets_placed M" and c: "trades c (wum_num_assets M)"
  obtains i where "i < length (work_units M)" "look_up_idx c M = Inr (int i)" "category_from_idx (int i) (int (unat (wum_num_assets M))) = c"
    "market_of c M = Inr (work_units M ! i)" "wu_category (work_units M ! i) = c"
proof -
  let ?n = "ucast (wum_num_assets M) :: u32"
  have n: "unat ?n \<le> MAX_INDEXABLE_ASSETS" using M by (simp add: markets_placed_def unat_u16_u32)
  obtain i where i: "i < unat ?n * (unat ?n - 1)" "category_to_idx c ?n = Inr (int i)" "category_from_idx (int i) (int (unat ?n)) = c"
    using category_idx_round_trip [OF _ _ n, of c] c unfolding trades_def by blast
  have len: "i < length (work_units M)" using i(1) M by (simp add: markets_placed_def unat_u16_u32)
  show thesis
  proof (rule that)
    show "i < length (work_units M)" by (rule len)
    show idx: "look_up_idx c M = Inr (int i)" using i(2) by (simp add: look_up_idx_def)
    show c: "category_from_idx (int i) (int (unat (wum_num_assets M))) = c" using i(3) by (simp add: unat_u16_u32)
    show "market_of c M = Inr (work_units M ! i)" using len by (simp add: market_of_def idx work_unit_at_def)
    show "wu_category (work_units M ! i) = c" using M len c by (simp add: markets_placed_def)
  qed
qed

definition grown_market :: "u16 \<Rightarrow> MerkleWorkUnitManager \<Rightarrow> OfferCategory \<Rightarrow> MerkleWorkUnit" where
  "grown_market n M c = (if trades c (wum_num_assets M) then projr (market_of c M) else new_work_unit c)"

lemma assets_added:
  assumes M: "markets_placed M" and n: "wum_num_assets M \<le> n" "unat n \<le> MAX_INDEXABLE_ASSETS"
  obtains M' where "increase_num_traded_assets n M = Inr M'" "markets_placed M'" "wum_num_assets M' = n"
    "\<And>c. trades c n \<Longrightarrow> market_of c M' = Inr (grown_market n M c)"
proof -
  let ?cat = "\<lambda>i. category_from_idx (int i) (int (unat n))"
  let ?k = "unat n * (unat n - 1)"
  have cat: "trades (?cat i) n" if "i < ?k" for i
    using idx_category_round_trip [of i "ucast n"] that n(2) category_from_idx_eq [OF that n(2)] by (simp add: trades_def unat_u16_u32)
  have place: "place_work_unit n M (int i) = Inr (grown_market n M (?cat i))" if i: "i < ?k" for i
  proof (cases "trades (?cat i) (wum_num_assets M)")
    case True
    obtain j where j: "market_of (?cat i) M = Inr (work_units M ! j)" by (rule market_at [OF M True])
    have "buyAsset (?cat i) < ucast (wum_num_assets M)" "sellAsset (?cat i) < ucast (wum_num_assets M)"
      using True by (simp_all add: trades_def validate_category_def not_le)
    then have "place_work_unit n M (int i) = market_of (?cat i) M" by (simp add: place_work_unit_def market_of_def look_up_idx_def)
    then show ?thesis unfolding grown_market_def if_P [OF True] j sum.sel .
  next
    case False
    then have "\<not> (buyAsset (?cat i) < ucast (wum_num_assets M) \<and> sellAsset (?cat i) < ucast (wum_num_assets M))"
      using cat [OF i] by (auto simp: trades_def validate_category_def not_le)
    then show ?thesis unfolding place_work_unit_def Let_def grown_market_def if_not_P [OF False] by (rule if_not_P)
  qed
  let ?ws = "map (\<lambda>i. grown_market n M (?cat (nat i))) (map int [0..<?k])"
  let ?M = "M\<lparr>work_units := ?ws, wum_num_assets := n\<rparr>"
  have "res_map (place_work_unit n M) (map int [0..<?k]) = Inr ?ws" by (rule res_map_Inr) (use place in auto)
  then have inc: "increase_num_traded_assets n M = Inr ?M" using n by (simp add: increase_num_traded_assets_def unat_units not_less)
  have "wu_category (grown_market n M c) = c" for c
  proof (cases "trades c (wum_num_assets M)")
    case True
    show ?thesis by (rule market_at [OF M True]) (simp add: grown_market_def True)
  qed (simp add: grown_market_def new_work_unit_def)
  then have placed: "markets_placed ?M" using n(2) cat by (simp add: markets_placed_def)
  show thesis
  proof (rule that [OF inc placed])
    fix c assume c: "trades c n"
    then have tc: "trades c (wum_num_assets ?M)" by simp
    obtain i where i: "i < length (work_units ?M)" "category_from_idx (int i) (int (unat (wum_num_assets ?M))) = c"
      "market_of c ?M = Inr (work_units ?M ! i)" by (rule market_at [OF placed tc])
    have "i < ?k" using i(1) by simp
    then have "work_units ?M ! i = grown_market n M (?cat i)" by simp
    moreover have "?cat i = c" using i(2) by simp
    ultimately show "market_of c ?M = Inr (grown_market n M c)" using i(3) by argo
  qed simp
qed

end
