(* ===== verification/Sample_Market.thy ===== *)
theory Sample_Market
  imports Work_Unit_Undo
begin

text \<open>
  A small market on which the statements about books are evaluated: two offers of account 7 that sell asset 0
  for asset 1 at a price of one or more.
\<close>

definition returns :: "'a res \<Rightarrow> ('a \<Rightarrow> bool) \<Rightarrow> bool" where
  "returns r P = (case r of Inl e \<Rightarrow> False | Inr x \<Rightarrow> P x)"

lemma returns_iff: "returns r P \<longleftrightarrow> (\<exists>x. r = Inr x \<and> P x)"
  by (simp add: returns_def split: sum.split)

definition sample_category :: OfferCategory where
  "sample_category = \<lparr>sellAsset = 0, buyAsset = 1, offerType = SELL\<rparr>"

definition sample_offer :: "u64 \<Rightarrow> u64 \<Rightarrow> Offer" where
  "sample_offer i n = \<lparr>category = sample_category, offerId = i, offer_owner = 7, offer_amount = n, minPrice = 0x1000000\<rparr>"

definition sample_leaf :: "u64 \<Rightarrow> u64 \<Rightarrow> Offer node" where
  "sample_leaf i n = Leaf (key_of (sample_offer i n)) (sample_offer i n) (offer_metadata (sample_offer i n)) None"

definition sample_book :: "Offer MerkleTrie" where
  "sample_book = trie_of (Inner (take 41 (key_of (sample_offer 256 100))) [(1, sample_leaf 256 100), (2, sample_leaf 512 50)]
     (offer_metadata (sample_offer 256 100) + offer_metadata (sample_offer 512 50)) None)"

definition sample_unit :: MerkleWorkUnit where
  "sample_unit = (new_work_unit sample_category)\<lparr>committed_offers := sample_book, thunks := [new_thunk 1]\<rparr>"

definition sample_database :: MemoryDatabase where
  "sample_database = empty_database\<lparr>user_id_to_idx_map := [7 \<mapsto> 0], database := [acct_transfer_available (new_user_account 7 [1]) 0 1000]\<rparr>"

definition sample_commitment :: SingleWorkUnitStateCommitment where
  "sample_commitment = \<lparr>rootHash = replicate 32 0, fractionalSupplyActivated_bytes = replicate 16 0, partialExecThresholdKey = replicate 22 0,
     thresholdKeyIsNull = 1, partialExecOfferActivationAmount_bytes = replicate 16 0\<rparr>"

lemma sample_commitment_sized: "commitment_sized sample_commitment"
  by (simp add: commitment_sized_def sample_commitment_def)

lemma sample_sound: "sound_book sample_book" "offer_list sample_book = [(key_of (sample_offer 256 100), sample_offer 256 100), (key_of (sample_offer 512 50), sample_offer 512 50)]"
proof -
  have b: "book sample_book" unfolding book_def by code_simp
  show list: "offer_list sample_book = [(key_of (sample_offer 256 100), sample_offer 256 100), (key_of (sample_offer 512 50), sample_offer 512 50)]"
    by (simp add: offer_list_def sample_book_def sample_leaf_def trie_of_def)
  have "card (dom (offers sample_book)) \<le> 2" unfolding offers_offer_list list dom_map_of_conv_image_fst by (simp add: card_insert_if)
  then have "few_leaves sample_book" using few_offers [OF book_inv(1) [OF b]] by simp
  then show "sound_book sample_book"
    using b unfolding sound_book_def list offers_offer_list
    by (auto simp: amounts_def sample_offer_def is_valid_price_def PRICE_MAX_eq split: if_split_asm)
qed

text \<open>120 of the 150 offered are sold at a price of two: 100 in full, then 20 of the second offer.\<close>

lemma sample_run:
  obtains w1 db1 log1 stats1 c1 where
    "process_clear_offers (from_integral 120) [0x2000000, 0x1000000] 10 sample_unit (sample_database, Map.empty, no_stats) sample_commitment =
      Inr (w1, (db1, log1, stats1), c1)" "db_balance db1 (0, 1) = 238" "db_valid sample_database (0, 1)"
proof -
  have "returns (process_clear_offers (from_integral 120) [0x2000000, 0x1000000] 10 sample_unit (sample_database, Map.empty, no_stats) sample_commitment)
    (\<lambda>(w1, (db1, log1, stats1), c1). db_balance db1 (0, 1) = 238)" by code_simp
  moreover have "db_valid sample_database (0, 1)" by code_simp
  ultimately show thesis using that unfolding returns_iff by force
qed

text \<open>The first offer is open when a block starts that posts the second one.\<close>

definition sample_block :: MerkleWorkUnit where
  "sample_block = (new_work_unit sample_category)\<lparr>committed_offers := trie_of (sample_leaf 256 100),
     uncommitted_offers := trie_of (sample_leaf 512 50)\<rparr>"

lemma sample_block_sel: "committed_offers sample_block = trie_of (sample_leaf 256 100)" "uncommitted_offers sample_block = trie_of (sample_leaf 512 50)"
  "thunks sample_block = []" "wu_persisted_round_number sample_block = 0"
  by (simp_all add: sample_block_def new_work_unit_def)

lemma sample_leaf_book: "book (trie_of (sample_leaf i n))" "offers (trie_of (sample_leaf i n)) = [key_of (sample_offer i n) \<mapsto> sample_offer i n]"
  by (simp_all add: book_def wf_trie_def trie_of_def sample_leaf_def trie_map_def)

lemma sample_keys_less: "key_less (key_of (sample_offer 256 m)) (key_of (sample_offer 512 n))" "key_of (sample_offer 256 m) \<noteq> key_of (sample_offer 512 n)"
  by (simp_all add: sample_offer_def offer_key_less offer_key_inject is_valid_price_def PRICE_MAX_eq)

lemma sample_block_ready: "block_ready sample_block"
  using sample_leaf_book [of 256 100] sample_leaf_book [of 512 50] sample_keys_less(2) [of 100 50] book_marked
  by (simp add: block_ready_def sample_block_sel)

lemma sample_commit_sound:
  assumes "tentative_commit_for_validation n sample_block = Inr w1"
  shows "sound_book (committed_offers w1)"
proof -
  let ?v1 = "sample_offer 256 100" and ?v2 = "sample_offer 512 50"
  have unmarked: "marked_keys (committed_offers sample_block) = {}"
    using book_unmarked [OF sample_leaf_book(1)] by (simp add: sample_block_sel)
  have "marked_book (committed_offers sample_block)" "book (uncommitted_offers sample_block)"
    "card (dom (offers (committed_offers sample_block)) \<union> dom (offers (uncommitted_offers sample_block))) < 2 ^ 32"
    "card (dom (offers (uncommitted_offers sample_block))) \<le> 1000000000"
    using sample_block_ready unfolding block_ready_def by blast+
  note spec = tentative_commit_spec [OF this, of n, unfolded sample_block_sel(3)]
  have b: "book (committed_offers w1)" and "offers (committed_offers w1) = [key_of ?v1 \<mapsto> ?v1] ++ [key_of ?v2 \<mapsto> ?v2]"
    using spec assms unfolding sample_block_sel sample_leaf_book(2) unmarked [unfolded sample_block_sel] by auto
  then have map: "offers (committed_offers w1) = [key_of ?v1 \<mapsto> ?v1, key_of ?v2 \<mapsto> ?v2]" by simp
  have list: "offer_list (committed_offers w1) = offer_list sample_book"
    using sample_keys_less by (intro offer_list_unique [OF b]) (auto simp: map fun_upd_twist sample_sound(2))
  show ?thesis by (rule sound_book_same [OF sample_sound(1) b list])
qed

lemma sample_block_run:
  obtains w1 w2 db2 log2 stats2 c2 where "tentative_commit_for_validation 3 sample_block = Inr w1" "sound_book (committed_offers w1)"
    "process_clear_offers (from_integral 120) [0x2000000, 0x1000000] 10 w1 (sample_database, Map.empty, no_stats) sample_commitment =
      Inr (w2, (db2, log2, stats2), c2)"
proof -
  have "returns (tentative_commit_for_validation 3 sample_block) (\<lambda>w1.
    returns (process_clear_offers (from_integral 120) [0x2000000, 0x1000000] 10 w1 (sample_database, Map.empty, no_stats) sample_commitment) (\<lambda>r. True))"
    by code_simp
  then show thesis using that sample_commit_sound unfolding returns_iff by force
qed

end
