(* ===== verification/Sample_Transaction.thy ===== *)
theory Sample_Transaction
  imports Manager_Laws Sample_Market
begin

text \<open>
  A small replica on which the statements about transactions are evaluated: two assets, account 7 with the two
  open offers of \<open>Sample_Market\<close> and 1000 of asset 0, and account 8.
\<close>

definition sample_markets :: MerkleWorkUnitManager where
  "sample_markets = \<lparr>work_units = [(new_work_unit sample_category)\<lparr>committed_offers := sample_book\<rparr>,
     new_work_unit \<lparr>sellAsset = 1, buyAsset = 0, offerType = SELL\<rparr>], wum_num_assets = 2\<rparr>"

definition sample_state :: "BaseSerialManager tx_state" where
  "sample_state = \<lparr>ts_db = empty_database\<lparr>user_id_to_idx_map := [7 \<mapsto> 0, 8 \<mapsto> 1],
       database := [acct_transfer_available (new_user_account 7 [1]) 0 1000, new_user_account 8 [2]]\<rparr>,
     ts_serial = \<lparr>new_offers = []\<rparr>, ts_markets = sample_markets, ts_log = Map.empty, ts_stats = no_stats\<rparr>"

text \<open>Post an offer, cancel the first open one, and pay.\<close>

definition sample_tx :: "i64 \<Rightarrow> Operation list \<Rightarrow> SignedTransaction" where
  "sample_tx payment ops = \<lparr>transaction = \<lparr>Transaction.metadata = \<lparr>sourceAccount = 7, sequenceNumber = 1024\<rparr>,
     operations = [CREATE_SELL_OFFER \<lparr>cso_category = sample_category, cso_amount = 100, cso_minPrice = 0x1000000\<rparr>,
       CANCEL_SELL_OFFER \<lparr>cancel_category = sample_category, cancel_offerId = 256, cancel_minPrice = 0x1000000\<rparr>,
       PAYMENT \<lparr>receiver = 8, payment_asset = 0, payment_amount = payment\<rparr>] @ ops, fee = 0\<rparr>, signature = []\<rparr>"

lemma sample_markets_sel: "work_units sample_markets ! 0 = (new_work_unit sample_category)\<lparr>committed_offers := sample_book\<rparr>"
  "work_units sample_markets ! 1 = new_work_unit \<lparr>sellAsset = 1, buyAsset = 0, offerType = SELL\<rparr>"
  "length (work_units sample_markets) = 2" "wum_num_assets sample_markets = 2"
  by (simp_all add: sample_markets_def)

lemma two_markets: "i < length (work_units sample_markets) \<Longrightarrow> i = 0 \<or> i = 1"
  unfolding sample_markets_sel by auto

lemma sample_markets_ok: "markets_ok sample_markets"
proof -
  have "few_leaves (empty_trie :: Offer MerkleTrie)" using few_offers [OF book_inv(1) [OF book_empty(1)]] by simp
  then show ?thesis
    using sound_bookD(1,2) [OF sample_sound(1)] book_marked
    by (simp add: markets_ok_def sample_markets_def new_work_unit_def)
qed

lemma sample_markets_sized: "markets_sized sample_markets"
proof -
  have "sells sample_markets 0 = 0" unfolding sells_def sample_markets_sel by code_simp
  moreover have "open_map sample_markets 0 k = Some v \<Longrightarrow> sellAsset (category v) = 0" for k v
    unfolding open_map_def sample_markets_sel
    by (auto simp: offers_offer_list sample_sound(2) sample_offer_def sample_category_def split: if_splits)
  moreover have "open_map sample_markets 1 = Map.empty"
    unfolding open_map_def sample_markets_sel by (simp add: new_work_unit_def book_empty)
  ultimately have "\<forall>i < length (work_units sample_markets). \<forall>k v. open_map sample_markets i k = Some v \<longrightarrow> sellAsset (category v) = sells sample_markets i"
    using two_markets by fastforce
  then show ?thesis by (simp add: markets_sized_def sample_markets_sel MAX_INDEXABLE_ASSETS_def)
qed

lemma sample_ready: "length ops \<le> 1000 \<Longrightarrow> tx_ready 1000 (transaction (sample_tx x ops)) sample_state"
  using sample_markets_ok sample_markets_sized book_empty
  by (simp add: tx_ready_def sample_state_def sample_tx_def serial_ok_def new_map_def new_book_def unused_ids_def)

text \<open>The bound on a log entry, compared as an integer: evaluating it as a natural number counts up to it.\<close>

lemma numeral_less_int: "(numeral k :: nat) < n \<longleftrightarrow> (numeral k :: int) < int n"
  using of_nat_less_iff [of "numeral k" n, where ?'a = int] by simp

lemma value_insert_tx_code [code]:
  "value_insert_tx self_transaction v =
     (let v = v\<lparr>new_transactions_self := new_transactions_self v @ [self_transaction]\<rparr>
      in if (500000 :: int) < int (length (new_transactions_self v)) then Inl (Runtime_error ''invalid main_value!!!'') else Inr v)"
  unfolding value_insert_tx_def numeral_less_int by (rule refl)

text \<open>The second transaction pays more than the account has.\<close>

lemma sample_applied:
  obtains st where "process_transaction (sample_tx 50 [MONEY_PRINTER \<lparr>printer_asset = 1, printer_amount = 5\<rparr>]) sample_state = Inr (SUCCESS, st)"
proof -
  have "returns (process_transaction (sample_tx 50 [MONEY_PRINTER \<lparr>printer_asset = 1, printer_amount = 5\<rparr>]) sample_state)
    (\<lambda>(status, st). status = SUCCESS)" by code_simp
  then show thesis using that unfolding returns_iff by (auto simp: split_beta)
qed

lemma sample_failed:
  obtains st where "process_transaction (sample_tx 5000 []) sample_state = Inr (INSUFFICIENT_BALANCE, st)"
proof -
  have "returns (process_transaction (sample_tx 5000 []) sample_state) (\<lambda>(status, st). status = INSUFFICIENT_BALANCE)" by code_simp
  then show thesis using that unfolding returns_iff by (auto simp: split_beta)
qed

end
