(* ===== verification/Supply_Index.thy ===== *)
theory Supply_Index
  imports Work_Unit
begin

text \<open>
  The supply of a market by price, \<^verbatim>\<open>merkle_work_unit.cc\<close>, \<^verbatim>\<open>merkle_work_unit_helpers.h\<close> and
  \<open>metadata_traversal\<close> of \<^verbatim>\<open>merkle_trie.h\<close>: the index of the offers of a book by limit price, the
  binary search in it, and the demand and supply at given prices that the price computation asks for.  The index
  is a field of the work unit in the code; here it is the list the queries take.
\<close>

type_synonym i128 = "128 word"

section \<open>The index\<close>

record EndowAccumulator =
  ea_endow :: i64
  endow_times_price :: i128

definition ea_zero :: EndowAccumulator where
  "ea_zero = \<lparr>ea_endow = 0, endow_times_price = 0\<rparr>"

definition ea_of :: "price \<Rightarrow> Metadata \<Rightarrow> EndowAccumulator" where
  "ea_of p m = \<lparr>ea_endow = endow m, endow_times_price = scast (endow m) * ucast p\<rparr>"

definition ea_plus :: "EndowAccumulator \<Rightarrow> EndowAccumulator \<Rightarrow> EndowAccumulator" where
  "ea_plus x y = \<lparr>ea_endow = ea_endow x + ea_endow y, endow_times_price = endow_times_price x + endow_times_price y\<rparr>"

record IndexedMetadata =
  idx_key :: price
  idx_metadata :: EndowAccumulator

text \<open>\<open>FuncWrapper::eval\<close>: the price in the first bytes of a prefix of at least that length.\<close>

definition prefix_price :: "key \<Rightarrow> price" where
  "prefix_price p = read_price_big_endian (get_bytes_array p)"

text \<open>\<open>query_len\<close> is in branch units.  The vector grows and the accumulator runs along.\<close>

fun node_metadata_traversal :: "nat \<Rightarrow> 'v node \<Rightarrow> IndexedMetadata list \<times> EndowAccumulator \<Rightarrow> IndexedMetadata list \<times> EndowAccumulator" where
  "node_metadata_traversal query_len (Leaf p v m h) (vec, acc) =
     (if query_len \<le> length p
      then let acc = ea_plus acc (ea_of (prefix_price p) m) in (vec @ [\<lparr>idx_key = prefix_price p, idx_metadata = acc\<rparr>], acc)
      else (vec, acc))"
| "node_metadata_traversal query_len (Inner p cs m h) (vec, acc) =
     (if query_len \<le> length p
      then let acc = ea_plus acc (ea_of (prefix_price p) m) in (vec @ [\<lparr>idx_key = prefix_price p, idx_metadata = acc\<rparr>], acc)
      else fold (\<lambda>(b, c). node_metadata_traversal query_len c) cs (vec, acc))"

definition trie_metadata_traversal :: "nat \<Rightarrow> 'v MerkleTrie \<Rightarrow> IndexedMetadata list res" where
  "trie_metadata_traversal query_len T =
     (if 2 * WORKUNIT_KEY_LEN < query_len then Inl (Runtime_error ''query too long'')
      else Inr (fst (node_metadata_traversal query_len (root T)
        ([\<lparr>idx_key = prefix_price (replicate (2 * WORKUNIT_KEY_LEN) 0), idx_metadata = ea_zero\<rparr>], ea_zero))))"

definition generate_metadata_index :: "MerkleWorkUnit \<Rightarrow> IndexedMetadata list res" where
  "generate_metadata_index w = trie_metadata_traversal (PRICE_BIT_LEN div 4) (committed_offers w)"

definition get_index_nnz :: "IndexedMetadata list \<Rightarrow> u64" where
  "get_index_nnz index = of_nat (length index) - 1"

section \<open>Queries\<close>

text \<open>
  The loop of \<open>get_metadata\<close>.  It starts with \<open>lo \<le> hi\<close> and keeps that; it ends when they meet.
\<close>

function search_metadata :: "IndexedMetadata list \<Rightarrow> price \<Rightarrow> nat \<Rightarrow> nat \<Rightarrow> EndowAccumulator" where
  "search_metadata index p lo hi =
     (if hi \<le> lo then idx_metadata (index ! (hi - 1))
      else let mp = (hi + lo) div 2 in
        if idx_key (index ! mp) \<le> p then search_metadata index p (mp + 1) hi else search_metadata index p lo mp)"
  by pat_completeness auto
termination
  by (relation "measure (\<lambda>(index, p, lo, hi). hi - lo)") auto

declare search_metadata.simps [simp del]

definition get_metadata :: "IndexedMetadata list \<Rightarrow> price \<Rightarrow> EndowAccumulator" where
  "get_metadata index p =
     (let hi = length index - 1 in
      if hi = 0 then ea_zero
      else if idx_key (index ! hi) < p then idx_metadata (index ! hi)
      else search_metadata index p 1 hi)"

text \<open>Dividing by a price of zero and shifting by the width or more are undefined.\<close>

definition get_execution_prices :: "price \<Rightarrow> price \<Rightarrow> u8 \<Rightarrow> (price \<times> price) res" where
  "get_execution_prices sell_price buy_price smooth =
     (if buy_price = 0 \<or> 64 \<le> smooth then Inl Undefined
      else let upper_bound_price = divide_prices sell_price buy_price
           in Inr (if smooth \<noteq> 0 then upper_bound_price - drop_bit (unat smooth) upper_bound_price else upper_bound_price,
                   upper_bound_price))"

definition get_supply_bounds :: "IndexedMetadata list \<Rightarrow> price \<Rightarrow> price \<Rightarrow> u8 \<Rightarrow> (u64 \<times> u64) res" where
  "get_supply_bounds index sell_price buy_price smooth =
     res_bind (get_execution_prices sell_price buy_price smooth) (\<lambda>(lower_bound_price, upper_bound_price).
     Inr (ea_endow (get_metadata index lower_bound_price), ea_endow (get_metadata index upper_bound_price)))"

text \<open>
  The largest power of two by which a price below the market rate can be smoothed without executing more than
  \<open>amount\<close>; the search is by amount instead of price, and 255 stands for no bound.
\<close>

function search_amount :: "IndexedMetadata list \<Rightarrow> i64 \<Rightarrow> nat \<Rightarrow> nat \<Rightarrow> nat" where
  "search_amount index amount lo hi =
     (if hi \<le> lo then hi
      else let mp = (hi + lo) div 2 in
        if sint (ea_endow (idx_metadata (index ! mp))) \<le> sint amount then search_amount index amount (mp + 1) hi
        else search_amount index amount lo mp)"
  by pat_completeness auto
termination
  by (relation "measure (\<lambda>(index, amount, lo, hi). hi - lo)") auto

declare search_amount.simps [simp del]

definition max_activated_price :: "IndexedMetadata list \<Rightarrow> i64 \<Rightarrow> price option" where
  "max_activated_price index amount =
     (let i = search_amount index amount 1 (length index - 1) in
      if sint amount < sint (ea_endow (idx_metadata (index ! i))) then Some (idx_key (index ! i))
      else if i + 1 = length index then None else Some (idx_key (index ! (i + 1))))"

function smooth_steps :: "price \<Rightarrow> price \<Rightarrow> nat \<Rightarrow> nat res" where
  "smooth_steps raw_difference exact_exchange_rate out =
     (if 64 \<le> out then Inl Undefined
      else if raw_difference \<le> drop_bit out exact_exchange_rate then smooth_steps raw_difference exact_exchange_rate (out + 1)
      else Inr out)"
  by pat_completeness auto
termination
  by (relation "measure (\<lambda>(raw_difference, exact_exchange_rate, out). 64 - out)") auto

declare smooth_steps.simps [simp del]

definition max_feasible_smooth_mult :: "IndexedMetadata list \<Rightarrow> i64 \<Rightarrow> price \<Rightarrow> price \<Rightarrow> u8 res" where
  "max_feasible_smooth_mult index amount sell_price buy_price =
     (if buy_price = 0 \<or> index = [] then Inl Undefined
      else
        let exact_exchange_rate = divide_prices sell_price buy_price; hi = length index - 1 in
        if hi = 0 then Inr (- 1)
        else if sint (ea_endow (idx_metadata (index ! hi))) < sint amount then Inr (- 1)
        else case max_activated_price index amount of
          None \<Rightarrow> Inr (- 1)
        | Some p \<Rightarrow>
            if exact_exchange_rate \<le> p then Inr (- 1)
            else res_bind (smooth_steps (exact_exchange_rate - p) exact_exchange_rate 0) (\<lambda>out. Inr (of_nat (out - 1))))"

section \<open>Demand and supply\<close>

text \<open>
  The volumes one market adds to demand and supply.  \<open>partial_exec_endow\<close> is shifted as a 64-bit number before
  it is widened.
\<close>

definition partial_volumes :: "price \<Rightarrow> price \<Rightarrow> u8 \<Rightarrow> u64 \<Rightarrow> u128 \<Rightarrow> (u128 \<times> u128) res" where
  "partial_volumes sell_price buy_price smooth partial_exec_endow partial_exec_endow_times_price =
     (if smooth = 0 then Inr (0, 0)
      else
        let endow_over_epsilon = ucast (push_bit (unat smooth) partial_exec_endow) :: u128;
            endow_times_price_over_epsilon = push_bit (unat smooth) partial_exec_endow_times_price;
            sell_wide_multiply_result = wide_multiply_val_by_a_over_b endow_times_price_over_epsilon buy_price sell_price;
            partial_sell_volume = push_bit PRICE_RADIX endow_over_epsilon - sell_wide_multiply_result;
            buy_wide_multiply_result = wide_multiply_val_by_a_over_b (push_bit PRICE_RADIX endow_over_epsilon) sell_price buy_price;
            partial_buy_volume = buy_wide_multiply_result - endow_times_price_over_epsilon
        in if push_bit PRICE_RADIX endow_over_epsilon < sell_wide_multiply_result
           then Inl (Runtime_error ''this should not happen unless something has begun to overflow'')
           else if buy_wide_multiply_result < endow_times_price_over_epsilon
           then Inl (Runtime_error ''this should not happen unless something has begun to overflow'')
           else Inr (partial_sell_volume, partial_buy_volume))"

text \<open>\<open>demands_workspace\<close> and \<open>supplies_workspace\<close> are arrays the caller sized.\<close>

definition add_at :: "AssetID \<Rightarrow> u128 \<Rightarrow> u128 list \<Rightarrow> u128 list res" where
  "add_at asset x ws = (if unat asset < length ws then Inr (ws[unat asset := ws ! unat asset + x]) else Inl Undefined)"

definition calculate_demands_and_supplies_from_metadata ::
    "OfferCategory \<Rightarrow> price list \<Rightarrow> u8 \<Rightarrow> EndowAccumulator \<Rightarrow> EndowAccumulator \<Rightarrow> u128 list \<times> u128 list \<Rightarrow> (u128 list \<times> u128 list) res" where
  "calculate_demands_and_supplies_from_metadata c prices smooth metadata_partial metadata_full = (\<lambda>(demands, supplies).
     res_bind (price_of prices (sellAsset c)) (\<lambda>sell_price.
     res_bind (price_of prices (buyAsset c)) (\<lambda>buy_price.
     if sint (endow_times_price metadata_partial) < sint (endow_times_price metadata_full)
     then Inl (Runtime_error ''This should absolutely never happen'')
     else if buy_price = 0 \<or> smooth \<noteq> 0 \<and> sell_price = 0 \<or> 64 \<le> smooth then Inl Undefined
     else
       let full_exec_endow = ea_endow metadata_full;
           partial_exec_endow = ea_endow metadata_partial - full_exec_endow;
           partial_exec_endow_times_price = endow_times_price metadata_partial - endow_times_price metadata_full
       in res_bind (partial_volumes sell_price buy_price smooth partial_exec_endow partial_exec_endow_times_price)
            (\<lambda>(partial_sell_volume, partial_buy_volume).
          let full = push_bit PRICE_RADIX (ucast full_exec_endow :: u128);
              full_sell_volume = partial_sell_volume + full;
              full_buy_volume = partial_buy_volume + wide_multiply_val_by_a_over_b full sell_price buy_price
          in res_bind (add_at (buyAsset c) full_buy_volume demands) (\<lambda>demands.
             res_bind (add_at (sellAsset c) full_sell_volume supplies) (\<lambda>supplies. Inr (demands, supplies)))))))"

text \<open>The code repeats the body of the definition above after looking the metadata up.\<close>

definition calculate_demands_and_supplies ::
    "IndexedMetadata list \<Rightarrow> OfferCategory \<Rightarrow> price list \<Rightarrow> u8 \<Rightarrow> u128 list \<times> u128 list \<Rightarrow> (u128 list \<times> u128 list) res" where
  "calculate_demands_and_supplies index c prices smooth workspaces =
     res_bind (price_of prices (sellAsset c)) (\<lambda>sell_price.
     res_bind (price_of prices (buyAsset c)) (\<lambda>buy_price.
     res_bind (get_execution_prices sell_price buy_price smooth) (\<lambda>(full_exec_p, partial_exec_p).
     let metadata_partial = get_metadata index partial_exec_p;
         metadata_full = (if smooth \<noteq> 0 then get_metadata index full_exec_p else metadata_partial)
     in calculate_demands_and_supplies_from_metadata c prices smooth metadata_partial metadata_full workspaces)))"

end
