(* ===== verification/Supply_Laws.thy ===== *)
theory Supply_Laws
  imports Supply_Index Book_Split Work_Unit_Laws
begin

text \<open>
  The index of a sound book: its entries are the prices of the offers in increasing order with the running sums
  of what is offered, and a query is a sum over the offers of the book.
\<close>

section \<open>The nodes of the traversal\<close>

fun cut_nodes :: "nat \<Rightarrow> 'v node \<Rightarrow> 'v node list" where
  "cut_nodes q (Leaf p v m h) = (if q \<le> length p then [Leaf p v m h] else [])"
| "cut_nodes q (Inner p cs m h) = (if q \<le> length p then [Inner p cs m h] else concat (map (\<lambda>(b, c). cut_nodes q c) cs))"

definition push_entry :: "'v node \<Rightarrow> IndexedMetadata list \<times> EndowAccumulator \<Rightarrow> IndexedMetadata list \<times> EndowAccumulator" where
  "push_entry t = (\<lambda>(vec, acc).
     let acc = ea_plus acc (ea_of (prefix_price (node_prefix t)) (metadata t))
     in (vec @ [\<lparr>idx_key = prefix_price (node_prefix t), idx_metadata = acc\<rparr>], acc))"

lemma traversal_cut: "node_metadata_traversal q t s = fold push_entry (cut_nodes q t) s"
proof (induction t arbitrary: s rule: node_induct)
  case (Leaf p v m h)
  then show ?case by (cases s) (simp add: push_entry_def Let_def)
next
  case (Inner p cs m h)
  have "fold (\<lambda>(b, c). node_metadata_traversal q c) ds s = fold push_entry (concat (map (\<lambda>(b, c). cut_nodes q c) ds)) s"
    if "set ds \<subseteq> set cs" for ds s
    using that Inner.IH by (induction ds arbitrary: s) auto
  then show ?case by (cases s; cases "q \<le> length p") (simp add: push_entry_def Let_def, simp)
qed

lemma cut_contents: "wf_node n t \<Longrightarrow> q \<le> n \<Longrightarrow> contents t = concat (map contents (cut_nodes q t))"
proof (induction t rule: node_induct)
  case (Inner p cs m h)
  then have "map (\<lambda>(b, c). contents c) cs = map (\<lambda>(b, c). concat (map contents (cut_nodes q c))) cs" by auto
  then have "concat (map (\<lambda>(b, c). contents c) cs) = concat (map (\<lambda>(b, c). concat (map contents (cut_nodes q c))) cs)" by (simp only:)
  also have "\<dots> = concat (map contents (concat (map (\<lambda>(b, c). cut_nodes q c) cs)))" by (induction cs) auto
  finally show ?case by simp
qed simp

lemma cut_in:
  "wf_node n t \<Longrightarrow> c \<in> set (cut_nodes q t) \<Longrightarrow> wf_node n c \<and> q \<le> length (node_prefix c) \<and> prefix (node_prefix t) (node_prefix c)"
proof (induction t rule: node_induct)
  case (Inner p cs m h)
  show ?case
  proof (cases "q \<le> length p")
    case False
    then obtain b d where d: "(b, d) \<in> set cs" "c \<in> set (cut_nodes q d)" using Inner.prems by auto
    then have w: "wf_node n d" "prefix (p @ [b]) (node_prefix d)" using Inner.prems by auto
    note ih = Inner.IH [OF d(1) w(1) d(2)]
    have "prefix p (node_prefix d)" using w(2) by (metis append_prefixD)
    then show ?thesis using ih prefix_order.trans by auto
  qed (use Inner.prems in auto)
qed (auto split: if_splits)

lemma cut_meta: "meta_ok L t \<Longrightarrow> c \<in> set (cut_nodes q t) \<Longrightarrow> meta_ok L c"
  by (induction t rule: node_induct) (auto split: if_splits)

lemma key_less_take_branch:
  "prefix (p @ [a]) x \<Longrightarrow> prefix (p @ [b]) y \<Longrightarrow> a < b \<Longrightarrow> length p < q \<Longrightarrow> key_less (take q x) (take q y)"
proof -
  assume x: "prefix (p @ [a]) x" and y: "prefix (p @ [b]) y" and ab: "a < b" and q: "length p < q"
  have "prefix (p @ [a]) (take q x)" if "prefix (p @ [a]) x" for a x
    using that q by (intro prefix_length_prefix [OF that take_is_prefix]) (simp, drule prefix_length_le, simp)
  then have "prefix (p @ [a]) (take q x)" "prefix (p @ [b]) (take q y)" using x y by blast+
  then show ?thesis using ab by (rule key_less_branch)
qed

lemma cut_sorted: "wf_node n t \<Longrightarrow> sorted_wrt key_less (map (\<lambda>c. take q (node_prefix c)) (cut_nodes q t))"
proof (induction t rule: node_induct)
  case (Inner p cs m h)
  note wf = Inner.prems
  have "sorted_wrt key_less (map (\<lambda>c. take q (node_prefix c)) (concat (map (\<lambda>(b, c). cut_nodes q c) ds)))"
    if "set ds \<subseteq> set cs" "ordered ds" "\<not> q \<le> length p" for ds
    using that
  proof (induction ds)
    case (Cons d ds)
    obtain b c where d: "d = (b, c)" by force
    have bc: "(b, c) \<in> set cs" using Cons.prems d by auto
    have "sorted_wrt key_less (map (\<lambda>c. take q (node_prefix c)) (cut_nodes q c))" using Inner.IH [OF bc] wf bc by auto
    moreover have "key_less (take q (node_prefix x)) (take q (node_prefix y))"
      if x: "x \<in> set (cut_nodes q c)" and y: "(b', c') \<in> set ds" "y \<in> set (cut_nodes q c')" for x y b' c'
    proof (rule key_less_take_branch)
      have c': "(b', c') \<in> set cs" using y(1) Cons.prems(1) by auto
      have "wf_node n c" "prefix (p @ [b]) (node_prefix c)" "wf_node n c'" "prefix (p @ [b']) (node_prefix c')" using wf bc c' by auto
      then show "prefix (p @ [b]) (node_prefix x)" "prefix (p @ [b']) (node_prefix y)"
        using cut_in x y(2) prefix_order.trans by blast+
      show "b < b'" using y(1) Cons.prems(2) d by force
      show "length p < q" using Cons.prems(3) by simp
    qed
    ultimately show ?case using Cons by (auto simp: d sorted_wrt_append)
  qed simp
  then show ?case using wf by auto
qed simp

section \<open>Prices of prefixes\<close>

lemma get_bytes_take: "get_bytes_array (take (2 * n) p) = take n (get_bytes_array p)"
proof (induction p arbitrary: n rule: get_bytes_array.induct)
  case (1 x y k)
  then show ?case by (cases n) simp_all
qed (auto simp: take_Cons')

lemma unat_prefix_price: "12 \<le> length p \<Longrightarrow> unat (prefix_price p) = be_nat (take 6 (get_bytes_array p))"
  unfolding prefix_price_def read_price_big_endian_def by (subst read_bytes_big_endian_unat) (simp_all add: PRICE_BYTES_def PRICE_BIT_LEN_def PRICE_RADIX_def length_get_bytes)

lemma prefix_price_take: "prefix_price (take 12 p) = prefix_price p"
  using get_bytes_take [of 6 p] by (simp add: prefix_price_def read_price_big_endian_def read_bytes_big_endian_def PRICE_BYTES_def PRICE_BIT_LEN_def PRICE_RADIX_def)

lemma prefix_price_less:
  assumes "12 \<le> length p" "12 \<le> length q"
  shows "key_less (take 12 p) (take 12 q) \<longleftrightarrow> prefix_price p < prefix_price q"
proof -
  have b: "bytes_key (take 6 (get_bytes_array p)) = take 12 p" if "12 \<le> length p" for p
    using bytes_key_get_bytes [of "take 12 p"] get_bytes_take [of 6 p] that by simp
  have l: "length (take 6 (get_bytes_array p)) = 6" if "12 \<le> length p" for p
    using arg_cong [OF b [OF that], of length] that by simp
  show ?thesis
    using bytes_key_less [of "take 6 (get_bytes_array p)" "take 6 (get_bytes_array q)"] l b assms
    by (simp add: word_less_nat_alt unat_prefix_price)
qed

lemma prefix_price_key: "is_valid_price p \<Longrightarrow> prefix_price (offer_key p a i) = p"
proof -
  assume p: "is_valid_price p"
  have "get_bytes_array (offer_key p a i) = big_endian_bytes 6 p @ big_endian_bytes 8 a @ big_endian_bytes 8 i"
    unfolding offer_key_def by (rule get_bytes_key)
  then have "unat (prefix_price (offer_key p a i)) = unat p"
    using unat_valid_price [OF p] by (simp add: unat_prefix_price be_nat_big_endian_bytes)
  then show ?thesis by simp
qed

section \<open>The offers of a node\<close>

definition worth :: "(key \<times> Offer) list \<Rightarrow> int" where
  "worth xs = (\<Sum>(k, v) \<leftarrow> xs. sint (offer_amount v :: i64) * uint (minPrice v))"

definition ea_val :: "(key \<times> Offer) list \<Rightarrow> EndowAccumulator" where
  "ea_val xs = \<lparr>ea_endow = word_of_int (amounts xs), endow_times_price = word_of_int (worth xs)\<rparr>"

lemma worth_simps [simp]:
  "worth [] = 0" "worth ((k, v) # xs) = sint (offer_amount v :: i64) * uint (minPrice v) + worth xs" "worth (xs @ ys) = worth xs + worth ys"
  by (simp_all add: worth_def)

lemma ea_val_append: "ea_val (xs @ ys) = ea_plus (ea_val xs) (ea_val ys)"
  by (simp add: ea_val_def ea_plus_def)

lemma ea_val_Nil: "ea_val [] = ea_zero"
  by (simp add: ea_val_def ea_zero_def)

lemma worth_same_price: "\<forall>(k, v) \<in> set xs. minPrice v = p \<Longrightarrow> worth xs = amounts xs * uint p"
  by (induction xs) (auto simp: algebra_simps)

definition groups :: "Offer MerkleTrie \<Rightarrow> (price \<times> (key \<times> Offer) list) list" where
  "groups T = map (\<lambda>c. (prefix_price (node_prefix c), contents c)) (cut_nodes 12 (root T))"

lemma node_value:
  assumes c: "wf_node 44 c" "12 \<le> length (node_prefix c)" "meta_ok (\<lambda>v m. m = offer_metadata v) c"
    and keys: "\<forall>(k, v) \<in> set (contents c). k = key_of v \<and> is_valid_price (minPrice v) \<and> 0 < sint (offer_amount v :: i64)"
    and fits: "amounts (contents c) < 2 ^ 63"
  shows "\<forall>(k, v) \<in> set (contents c). minPrice v = prefix_price (node_prefix c)"
    "ea_of (prefix_price (node_prefix c)) (metadata c) = ea_val (contents c)"
proof -
  show price: "\<forall>(k, v) \<in> set (contents c). minPrice v = prefix_price (node_prefix c)"
  proof (clarify)
    fix k v assume kv: "(k, v) \<in> set (contents c)"
    then have "prefix (node_prefix c) k" using contents_prefix [OF c(1)] by fastforce
    then have "take 12 k = take 12 (node_prefix c)" using c(2) by (auto simp: prefix_def)
    then have "prefix_price k = prefix_price (node_prefix c)" using prefix_price_take by metis
    then show "minPrice v = prefix_price (node_prefix c)" using keys kv prefix_price_key by fastforce
  qed
  have total: "endow_total (leaves c) = amounts (contents c)" by (rule endow_total_amounts [OF c(3)])
  have pos: "\<forall>x \<in> set (leaves c). 0 < leaf_endow x"
  proof
    fix x assume x: "x \<in> set (leaves c)"
    then have "(fst x, fst (snd x)) \<in> set (contents c)" by (force simp: contents_leaves)
    then show "0 < leaf_endow x" using keys leaves_meta [OF c(3) x] by auto
  qed
  have s: "sint (endow (metadata c)) = amounts (contents c)"
    unfolding metadata_leaves [OF c(3)] using endow_exact [OF pos] fits by (simp add: total)
  have e: "endow (metadata c) = word_of_int (amounts (contents c))" unfolding s [symmetric] by simp
  have w: "(scast (endow (metadata c)) :: i128) = word_of_int (amounts (contents c))" unfolding scast_eq s ..
  show "ea_of (prefix_price (node_prefix c)) (metadata c) = ea_val (contents c)"
    unfolding ea_of_def w ucast_eq ea_val_def worth_same_price [OF price] of_int_mult using e by simp
qed

lemma amounts_member:
  "\<forall>(k, v) \<in> set (concat xss). 0 < sint (offer_amount v :: i64) \<Longrightarrow> xs \<in> set xss \<Longrightarrow> amounts xs \<le> amounts (concat xss)"
proof -
  assume pos: "\<forall>(k, v) \<in> set (concat xss). 0 < sint (offer_amount v :: i64)" and "xs \<in> set xss"
  then obtain A B where xss: "xss = A @ xs # B" by (meson split_list)
  have "0 \<le> amounts (concat A)" "0 \<le> amounts (concat B)" using pos unfolding xss by (auto 0 4 intro!: amounts_nonneg)
  then show ?thesis by (simp add: xss)
qed

lemma groups_spec:
  assumes T: "sound_book T"
  shows "offer_list T = concat (map snd (groups T))" "sorted_wrt (<) (map fst (groups T))"
    "(q, xs) \<in> set (groups T) \<Longrightarrow> xs \<noteq> [] \<and> (\<forall>(k, v) \<in> set xs. minPrice v = q)"
    "\<forall>c \<in> set (cut_nodes 12 (root T)). ea_of (prefix_price (node_prefix c)) (metadata c) = ea_val (contents c)"
proof -
  have b: "wf_trie 44 (root T)" "meta_ok (\<lambda>v m. m = offer_metadata v) (root T)" using sound_bookD(1) [OF T] by (simp_all add: book_def)
  have keys: "\<forall>(k, v) \<in> set (offer_list T). k = key_of v \<and> is_valid_price (minPrice v) \<and> 0 < sint (offer_amount v :: i64)"
    using sound_bookD(4) [OF T] by blast
  have in_cut: "wf_node 44 c \<and> 12 \<le> length (node_prefix c)" if "c \<in> set (cut_nodes 12 (root T))" for c
  proof (cases rule: wf_trie_cases [OF b(1)])
    case 1
    then show ?thesis using that by (cases "root T") (auto simp: is_empty_node_def)
  next
    case 2
    then show ?thesis using cut_in [OF _ that] by blast
  qed
  show list: "offer_list T = concat (map snd (groups T))"
    unfolding groups_def map_map comp_def snd_conv offer_list_def
  proof (cases rule: wf_trie_cases [OF b(1)])
    case 1
    then show "contents (root T) = concat (map contents (cut_nodes 12 (root T)))" by (cases "root T") (auto simp: is_empty_node_def)
  next
    case 2
    then show "contents (root T) = concat (map contents (cut_nodes 12 (root T)))" using cut_contents [of 44 "root T" 12] by simp
  qed
  have "sorted_wrt key_less (map (\<lambda>c. take 12 (node_prefix c)) (cut_nodes 12 (root T)))"
  proof (cases rule: wf_trie_cases [OF b(1)])
    case 1
    then show ?thesis by (cases "root T") (auto simp: is_empty_node_def)
  next
    case 2
    then show ?thesis using cut_sorted by blast
  qed
  then show "sorted_wrt (<) (map fst (groups T))"
    unfolding groups_def map_map comp_def fst_conv sorted_wrt_map
    by (rule sorted_wrt_mono_rel [rotated]) (use prefix_price_less in_cut in blast)
  have nodes: "(\<forall>(k, v) \<in> set (contents c). minPrice v = prefix_price (node_prefix c)) \<and>
    ea_of (prefix_price (node_prefix c)) (metadata c) = ea_val (contents c)" if c: "c \<in> set (cut_nodes 12 (root T))" for c
  proof -
    have mem: "contents c \<in> set (map snd (groups T))" using c by (auto simp: groups_def)
    then have sub: "set (contents c) \<subseteq> set (offer_list T)" unfolding list by auto
    have "amounts (contents c) \<le> amounts (offer_list T)" unfolding list using keys [unfolded list] by (intro amounts_member [OF _ mem]) auto
    then have "amounts (contents c) < 2 ^ 63" using sound_bookD(3) [OF T] by simp
    then show ?thesis using node_value [of c] in_cut [OF c] cut_meta [OF b(2) c] keys sub by blast
  qed
  then show "\<forall>c \<in> set (cut_nodes 12 (root T)). ea_of (prefix_price (node_prefix c)) (metadata c) = ea_val (contents c)" by blast
  show "(q, xs) \<in> set (groups T) \<Longrightarrow> xs \<noteq> [] \<and> (\<forall>(k, v) \<in> set xs. minPrice v = q)"
    using nodes in_cut wf_node_contents_nonempty by (fastforce simp: groups_def)
qed

end
