(* ===== verification/Supply_Spec.thy ===== *)
theory Supply_Spec
  imports Supply_Laws
begin

text \<open>
  What the index of a sound book answers: its entries are the prices with running sums, and a query is the sum
  over the offers it covers.
\<close>

section \<open>The index\<close>

fun index_from :: "price \<Rightarrow> (key \<times> Offer) list \<Rightarrow> (price \<times> (key \<times> Offer) list) list \<Rightarrow> IndexedMetadata list" where
  "index_from q xs [] = [\<lparr>idx_key = q, idx_metadata = ea_val xs\<rparr>]"
| "index_from q xs ((p, ys) # gs) = \<lparr>idx_key = q, idx_metadata = ea_val xs\<rparr> # index_from p (xs @ ys) gs"

lemma fold_push_entry:
  assumes "\<forall>c \<in> set cs. ea_of (prefix_price (node_prefix c)) (metadata c) = ea_val (contents c)"
  shows "fst (fold push_entry cs (vec @ [\<lparr>idx_key = q, idx_metadata = ea_val xs\<rparr>], ea_val xs)) =
    vec @ index_from q xs (map (\<lambda>c. (prefix_price (node_prefix c), contents c)) cs)"
  using assms
proof (induction cs arbitrary: vec q xs)
  case (Cons c cs)
  have ea: "ea_of (prefix_price (node_prefix c)) (metadata c) = ea_val (contents c)" using Cons.prems by simp
  have "push_entry c (vec @ [\<lparr>idx_key = q, idx_metadata = ea_val xs\<rparr>], ea_val xs) =
    ((vec @ [\<lparr>idx_key = q, idx_metadata = ea_val xs\<rparr>]) @
       [\<lparr>idx_key = prefix_price (node_prefix c), idx_metadata = ea_val (xs @ contents c)\<rparr>], ea_val (xs @ contents c))"
    by (simp add: push_entry_def Let_def ea ea_val_append)
  then show ?case using Cons.IH [of "vec @ [\<lparr>idx_key = q, idx_metadata = ea_val xs\<rparr>]" "prefix_price (node_prefix c)" "xs @ contents c"] Cons.prems
    by simp
qed simp

lemma prefix_price_zero: "prefix_price (replicate 44 0) = 0"
  by code_simp

lemma traversal_index:
  assumes "sound_book T"
  shows "trie_metadata_traversal 12 T = Inr (index_from 0 [] (groups T))"
  using fold_push_entry [OF groups_spec(4) [OF assms], of "[]" 0 "[]"]
  by (simp add: trie_metadata_traversal_def prefix_price_zero traversal_cut ea_val_Nil [symmetric] groups_def WORKUNIT_KEY_LEN_def)

lemma length_index_from [simp]: "length (index_from q xs gs) = Suc (length gs)"
  by (induction q xs gs rule: index_from.induct) simp_all

lemma index_from_metadata:
  "i \<le> length gs \<Longrightarrow> idx_metadata (index_from q xs gs ! i) = ea_val (xs @ concat (map snd (take i gs)))"
proof (induction q xs gs arbitrary: i rule: index_from.induct)
  case (2 q xs p ys gs)
  then show ?case by (cases i) simp_all
qed simp

lemma index_from_key: "i < length gs \<Longrightarrow> idx_key (index_from q xs gs ! Suc i) = fst (gs ! i)"
proof (induction q xs gs arbitrary: i rule: index_from.induct)
  case (2 q xs p ys gs)
  have "idx_key (index_from p (xs @ ys) gs ! 0) = p" by (cases gs) auto
  then show ?case using 2 by (cases i) simp_all
qed simp

section \<open>The search\<close>

text \<open>
  The search stops at the first entry above the price, or at the last entry; it answers the entry before.
\<close>

lemma search_metadata_spec:
  assumes "lo \<le> hi" "\<forall>i j. 1 \<le> i \<longrightarrow> i \<le> j \<longrightarrow> j \<le> hi \<longrightarrow> idx_key (index ! i) \<le> idx_key (index ! j)"
    "\<forall>i. 1 \<le> i \<longrightarrow> i < lo \<longrightarrow> idx_key (index ! i) \<le> p"
  shows "\<exists>j. lo \<le> j \<and> j \<le> hi \<and> search_metadata index p lo hi = idx_metadata (index ! (j - 1)) \<and>
    (\<forall>i. 1 \<le> i \<longrightarrow> i < j \<longrightarrow> idx_key (index ! i) \<le> p) \<and> (j = hi \<or> p < idx_key (index ! j))"
  using assms
proof (induction index p lo hi rule: search_metadata.induct)
  case (1 index p lo hi)
  let ?mp = "(hi + lo) div 2"
  show ?case
  proof (cases "hi \<le> lo")
    case True
    then have "lo = hi" using "1.prems" by simp
    then show ?thesis using "1.prems" by (auto simp: search_metadata.simps)
  next
    case False
    then have mp: "lo \<le> ?mp" "?mp < hi" by auto
    show ?thesis
    proof (cases "idx_key (index ! ?mp) \<le> p")
      case True
      have below: "\<forall>i. 1 \<le> i \<longrightarrow> i < ?mp + 1 \<longrightarrow> idx_key (index ! i) \<le> p"
      proof (intro allI impI)
        fix i assume i: "1 \<le> i" "i < ?mp + 1"
        have "idx_key (index ! i) \<le> idx_key (index ! ?mp)"
          using "1.prems"(2) [rule_format, of i ?mp] i mp by linarith
        then show "idx_key (index ! i) \<le> p" using True by (rule order_trans)
      qed
      have le: "?mp + 1 \<le> hi" using mp by simp
      obtain j where j: "?mp + 1 \<le> j" "j \<le> hi" "search_metadata index p (?mp + 1) hi = idx_metadata (index ! (j - 1))"
        "\<forall>i. 1 \<le> i \<longrightarrow> i < j \<longrightarrow> idx_key (index ! i) \<le> p" "j = hi \<or> p < idx_key (index ! j)"
        using "1.IH"(1) [OF False refl True le "1.prems"(2) below] by blast
      have "search_metadata index p lo hi = search_metadata index p (?mp + 1) hi"
        using False True by (subst search_metadata.simps) (simp add: Let_def)
      moreover have "lo \<le> j" using mp j(1) by linarith
      ultimately show ?thesis using j(2-) by (intro exI [of _ j]) simp
    next
      case f: False
      have le: "lo \<le> ?mp" "?mp \<le> hi" using mp by simp_all
      have mono: "\<forall>i j. 1 \<le> i \<longrightarrow> i \<le> j \<longrightarrow> j \<le> ?mp \<longrightarrow> idx_key (index ! i) \<le> idx_key (index ! j)"
        using "1.prems"(2) le(2) by simp
      obtain j where j: "lo \<le> j" "j \<le> ?mp" "search_metadata index p lo ?mp = idx_metadata (index ! (j - 1))"
        "\<forall>i. 1 \<le> i \<longrightarrow> i < j \<longrightarrow> idx_key (index ! i) \<le> p" "j = ?mp \<or> p < idx_key (index ! j)"
        using "1.IH"(2) [OF False refl f le(1) mono "1.prems"(3)] by blast
      have "search_metadata index p lo hi = search_metadata index p lo ?mp"
        using False f by (subst search_metadata.simps) (simp add: Let_def)
      moreover have "j \<le> hi" using mp(2) j(2) by linarith
      moreover have "p < idx_key (index ! j)" using j(5) f by auto
      ultimately show ?thesis using j(1,3,4) by (intro exI [of _ j]) simp
    qed
  qed
qed

section \<open>A query\<close>

lemma filter_groups:
  assumes "\<forall>(q, xs) \<in> set gs. \<forall>(k, v) \<in> set xs. minPrice v = q"
  shows "filter (\<lambda>(k, v). P (minPrice v)) (concat (map snd gs)) = concat (map snd (filter (\<lambda>(q, xs). P q) gs))"
  using assms
proof (induction gs)
  case (Cons g gs)
  obtain q xs where g: "g = (q, xs)" by force
  have "filter (\<lambda>(k, v). P (minPrice v)) xs = (if P q then xs else [])"
    using Cons.prems by (auto simp: g filter_id_conv filter_empty_conv)
  then show ?case using Cons by (simp add: g)
qed simp

lemma filter_sorted_take:
  assumes "\<forall>i < j. P (gs ! i)" "\<forall>i. j \<le> i \<longrightarrow> i < length gs \<longrightarrow> \<not> P (gs ! i)"
  shows "filter P gs = take j gs"
proof -
  have "filter P (take j gs) = take j gs" using assms(1) by (auto simp: filter_id_conv in_set_conv_nth)
  moreover have "filter P (drop j gs) = []" using assms(2) by (auto simp: filter_empty_conv in_set_conv_nth)
  ultimately show ?thesis by (metis append_Nil2 append_take_drop_id filter_append)
qed

text \<open>
  The offers a query at a price covers.  At the highest limit price of the book the search leaves the offers at
  that price out.
\<close>

definition highest_price :: "Offer MerkleTrie \<Rightarrow> price \<Rightarrow> bool" where
  "highest_price T p \<longleftrightarrow> (\<exists>(k, v) \<in> set (offer_list T). minPrice v = p) \<and> (\<forall>(k, v) \<in> set (offer_list T). minPrice v \<le> p)"

definition covered_price :: "Offer MerkleTrie \<Rightarrow> price \<Rightarrow> price \<Rightarrow> bool" where
  "covered_price T p q \<longleftrightarrow> q \<le> p \<and> (q = p \<longrightarrow> \<not> highest_price T p)"

definition covered :: "Offer MerkleTrie \<Rightarrow> price \<Rightarrow> (key \<times> Offer) list" where
  "covered T p = filter (\<lambda>(k, v). covered_price T p (minPrice v)) (offer_list T)"

lemma get_metadata_covered:
  assumes T: "sound_book T" and i: "trie_metadata_traversal 12 T = Inr index"
  shows "get_metadata index p = ea_val (covered T p)"
proof -
  let ?gs = "groups T" and ?n = "length (groups T)"
  let ?key = "\<lambda>i. fst (groups T ! i)"
  note spec = groups_spec [OF T]
  have idx: "index = index_from 0 [] ?gs" using i traversal_index [OF T] by simp
  have key: "idx_key (index ! i) = ?key (i - 1)" if "1 \<le> i" "i \<le> ?n" for i
    using index_from_key [of "i - 1" ?gs 0 "[]"] that by (simp add: idx)
  have inc: "?key i < ?key j" if "i < j" "j < ?n" for i j
    using spec(2) that by (simp add: sorted_wrt_iff_nth_less)
  have mono: "?key i \<le> ?key j" if "i \<le> j" "j < ?n" for i j using inc [of i j] that by (cases "i = j") auto
  have same: "\<forall>(q, xs) \<in> set ?gs. \<forall>(k, v) \<in> set xs. minPrice v = q" using spec(3) by blast
  have prices: "(\<exists>(k, v) \<in> set (offer_list T). minPrice v = q) \<longleftrightarrow> q \<in> set (map fst ?gs)" for q
  proof
    assume "\<exists>(k, v) \<in> set (offer_list T). minPrice v = q"
    then obtain k v where "(k, v) \<in> set (offer_list T)" "minPrice v = q" by blast
    then obtain q' xs where "(q', xs) \<in> set ?gs" "(k, v) \<in> set xs" unfolding spec(1) by auto
    then show "q \<in> set (map fst ?gs)" using same \<open>minPrice v = q\<close> by force
  next
    assume "q \<in> set (map fst ?gs)"
    then obtain xs where xs: "(q, xs) \<in> set ?gs" by auto
    then obtain k v where "(k, v) \<in> set xs" using spec(3) [OF xs] by (cases xs) auto
    then show "\<exists>(k, v) \<in> set (offer_list T). minPrice v = q" unfolding spec(1) using xs same by force
  qed
  have highest: "highest_price T p \<longleftrightarrow> ?n \<noteq> 0 \<and> ?key (?n - 1) = p"
  proof
    assume h: "highest_price T p"
    then obtain i where i: "i < ?n" "?key i = p" using prices [of p] by (auto simp: highest_price_def in_set_conv_nth)
    have "?key (?n - 1) \<in> set (map fst ?gs)" using i(1) by auto
    then obtain k v where "(k, v) \<in> set (offer_list T)" "minPrice v = ?key (?n - 1)" unfolding prices [symmetric] by blast
    then have "?key (?n - 1) \<le> p" using h unfolding highest_price_def by fastforce
    moreover have "p \<le> ?key (?n - 1)" using mono [of i "?n - 1"] i by auto
    ultimately show "?n \<noteq> 0 \<and> ?key (?n - 1) = p" using i(1) by auto
  next
    assume n: "?n \<noteq> 0 \<and> ?key (?n - 1) = p"
    have "minPrice v \<le> p" if "(k, v) \<in> set (offer_list T)" for k v
    proof -
      have "minPrice v \<in> set (map fst ?gs)" using that unfolding prices [symmetric] by blast
      then obtain i where "i < ?n" "?key i = minPrice v" by (auto simp: in_set_conv_nth)
      then show ?thesis using mono [of i "?n - 1"] n by auto
    qed
    moreover have "p \<in> set (map fst ?gs)" using n by auto
    ultimately show "highest_price T p" unfolding highest_price_def prices by blast
  qed
  have cov: "covered T p = concat (map snd (take j ?gs))"
    if "\<forall>i < j. covered_price T p (?key i)" "\<forall>i. j \<le> i \<longrightarrow> i < ?n \<longrightarrow> \<not> covered_price T p (?key i)" for j
  proof -
    have "filter (\<lambda>(q, xs). covered_price T p q) ?gs = take j ?gs"
      by (rule filter_sorted_take) (use that in \<open>auto simp: case_prod_unfold\<close>)
    then show ?thesis unfolding covered_def spec(1) filter_groups [OF same] by simp
  qed
  have meta: "idx_metadata (index ! j) = ea_val (concat (map snd (take j ?gs)))" if "j \<le> ?n" for j
    using index_from_metadata [OF that] by (simp add: idx)
  have len: "length index = Suc ?n" by (simp add: idx)
  have goal: "\<exists>j \<le> ?n. get_metadata index p = idx_metadata (index ! j) \<and> (\<forall>i < j. covered_price T p (?key i)) \<and>
    (\<forall>i. j \<le> i \<longrightarrow> i < ?n \<longrightarrow> \<not> covered_price T p (?key i))"
  proof (cases "?n = 0 \<or> idx_key (index ! ?n) < p")
    case True
    have "get_metadata index p = idx_metadata (index ! ?n)"
    proof (cases "?n = 0")
      case True
      then show ?thesis using meta [of 0] by (simp add: get_metadata_def ea_val_Nil len)
    next
      case False
      then show ?thesis using True by (simp add: get_metadata_def Let_def len)
    qed
    moreover have "covered_price T p (?key i)" if i: "i < ?n" for i
      using True key [of ?n] mono [of i "?n - 1"] i highest unfolding covered_price_def by fastforce
    ultimately show ?thesis by (intro exI [of _ ?n]) simp
  next
    case False
    then have n: "1 \<le> ?n" by (simp add: Suc_le_eq)
    then have last: "p \<le> ?key (?n - 1)" using False key [of ?n] by (simp add: not_less)
    have "\<forall>i j. 1 \<le> i \<longrightarrow> i \<le> j \<longrightarrow> j \<le> ?n \<longrightarrow> idx_key (index ! i) \<le> idx_key (index ! j)"
      by (auto simp: key intro!: mono)
    then obtain j where j: "1 \<le> j" "j \<le> ?n" "search_metadata index p 1 ?n = idx_metadata (index ! (j - 1))"
      "\<forall>i. 1 \<le> i \<longrightarrow> i < j \<longrightarrow> idx_key (index ! i) \<le> p" "j = ?n \<or> p < idx_key (index ! j)"
      using search_metadata_spec [OF n, of index p] by auto
    have "get_metadata index p = idx_metadata (index ! (j - 1))" using False j(3) by (simp add: get_metadata_def Let_def len)
    moreover have "covered_price T p (?key i)" if i: "i < j - 1" for i
    proof -
      have "?key i \<le> p" using j(4) [rule_format, of "Suc i"] key [of "Suc i"] i j(2) by simp
      moreover have "?key i < ?key (?n - 1)" using inc [of i "?n - 1"] i j(2) by simp
      ultimately show ?thesis using highest unfolding covered_price_def by auto
    qed
    moreover have "\<not> covered_price T p (?key i)" if i: "j - 1 \<le> i" "i < ?n" for i
    proof (cases "j = ?n")
      case True
      then have "i = ?n - 1" using i by simp
      then show ?thesis using last highest n unfolding covered_price_def by auto
    next
      case False
      then have "p < ?key (j - 1)" using j(1,2,5) key [of j] by simp
      then show ?thesis using mono [OF i] unfolding covered_price_def by auto
    qed
    ultimately show ?thesis using j(2) by (intro exI [of _ "j - 1"]) auto
  qed
  show ?thesis using goal meta cov by metis
qed

end
