(* ===== verification/Supply_Demand.thy ===== *)
theory Supply_Demand
  imports Supply_Spec
begin

text \<open>
  The demand query: on a sound book it does not run into its overflow checks, and the demand it adds is worth no
  more than the supply it adds at the prices asked for.
\<close>

section \<open>Prices\<close>

lemma unat_divide_prices:
  assumes b: "b \<noteq> 0" and ratio: "unat a < unat b * 2 ^ 40"
  shows "unat (divide_prices a b) = unat a * 2 ^ 24 div unat b"
proof -
  have "unat a < 2 ^ 64" by simp
  then have "unat a * 2 ^ 64 < 2 ^ 128" by simp
  then have shift: "unat (push_bit 64 (ucast a :: u128)) = unat a * 2 ^ 64" by (simp add: unat_push_bit)
  have eq: "unat a * 2 ^ 64 div unat b div 2 ^ 40 = unat a * 2 ^ 24 div unat b"
  proof -
    have "unat a * 2 ^ 64 div unat b div 2 ^ 40 = (unat a * 2 ^ 24) * 2 ^ 40 div (unat b * 2 ^ 40)"
      by (simp only: div_mult2_eq [symmetric] mult.assoc power_add [symmetric]) simp
    also have "\<dots> = unat a * 2 ^ 24 div unat b" by (rule div_mult_mult2) simp
    finally show ?thesis .
  qed
  have "unat a * 2 ^ 24 < unat b * 2 ^ 64" using ratio by simp
  then have fits: "unat a * 2 ^ 24 div unat b < 2 ^ 64" by (simp add: less_mult_imp_div_less mult.commute)
  have mask: "(x :: u128) AND UINT64_MAX = take_bit 64 x" for x
    by (simp add: UINT64_MAX_def take_bit_eq_mask mask_eq_exp_minus_1)
  let ?r = "drop_bit (64 - PRICE_RADIX) (push_bit 64 (ucast a) div ucast b) :: u128"
  have r: "unat ?r = unat a * 2 ^ 24 div unat b"
    unfolding unat_drop_bit unat_div shift unat_u64_to_u128 eq [symmetric] by (simp add: PRICE_RADIX_def)
  have "unat (ucast (take_bit 64 x) :: u64) = unat x" if "unat x < 2 ^ 64" for x :: u128
    using that by (simp add: unsigned_ucast_eq unsigned_take_bit_eq take_bit_nat_eq_self)
  from this [of ?r] show ?thesis using fits unfolding divide_prices_def Let_def mask r .
qed

section \<open>Volumes\<close>

lemma partial_volumes_ok:
  fixes a b :: price and E :: u64 and W :: u128
  assumes ab: "a \<noteq> 0" "b \<noteq> 0" and s: "unat s < 64" "s \<noteq> 0"
    and fits: "unat E * 2 ^ unat s < 2 ^ 63" "unat a < unat b * 2 ^ 40"
    and W: "unat W \<le> unat E * U" "U * unat b \<le> unat a * 2 ^ 24"
  obtains sv bv where "partial_volumes a b s E W = Inr (sv, bv)"
    "unat sv + unat W * 2 ^ unat s * unat b div unat a = unat E * 2 ^ unat s * 2 ^ 24"
    "unat bv + unat W * 2 ^ unat s = unat E * 2 ^ unat s * 2 ^ 24 * unat a div unat b"
proof -
  let ?s = "unat s" and ?a = "unat a" and ?b = "unat b"
  let ?e = "unat E * 2 ^ ?s" and ?w = "unat W * 2 ^ ?s"
  have pos: "0 < ?a" "0 < ?b" using ab by (simp_all add: unat_gt_0)
  have w: "?w * ?b \<le> ?e * 2 ^ 24 * ?a"
  proof -
    have "unat W * ?b \<le> unat E * (U * ?b)" using mult_right_mono [OF W(1), of ?b] by (simp add: mult.assoc)
    also have "\<dots> \<le> unat E * (?a * 2 ^ 24)" using mult_left_mono [OF W(2), of "unat E"] by simp
    finally have "unat W * ?b * 2 ^ ?s \<le> unat E * (?a * 2 ^ 24) * 2 ^ ?s" by (rule mult_right_mono) simp
    then show ?thesis by (simp only: ac_simps)
  qed
  have ea: "?e * 2 ^ 24 * ?a div ?b < 2 ^ 127"
  proof -
    have "?e * 2 ^ 24 * ?a < 2 ^ 63 * 2 ^ 24 * (?b * 2 ^ 40)"
      by (intro mult_strict_mono mult_strict_right_mono fits) (simp_all add: pos)
    then show ?thesis using pos by (simp add: less_mult_imp_div_less mult.commute)
  qed
  have wle: "?w \<le> ?e * 2 ^ 24 * ?a div ?b" using w pos by (simp add: less_eq_div_iff_mult_less_eq)
  have we: "?w * ?b div ?a \<le> ?e * 2 ^ 24" using div_le_mono [OF w, of ?a] pos by simp
  have E: "unat (push_bit ?s E) = ?e" using fits(1) by (simp add: unat_push_bit)
  have W': "unat (push_bit ?s W) = ?w" using wle ea by (simp add: unat_push_bit)
  have E24: "unat (push_bit PRICE_RADIX (ucast (push_bit ?s E) :: u128)) = ?e * 2 ^ 24" unfolding unat_u64_shift E ..
  have sell: "unat (wide_multiply_val_by_a_over_b (push_bit ?s W) b a) = ?w * ?b div ?a"
    using we fits(1) by (subst wide_multiply_exact [OF ab(1)]) (simp_all add: W')
  have buy: "unat (wide_multiply_val_by_a_over_b (push_bit PRICE_RADIX (ucast (push_bit ?s E) :: u128)) a b) = ?e * 2 ^ 24 * ?a div ?b"
    using ea by (subst wide_multiply_exact [OF ab(2)]) (simp_all add: E24)
  show ?thesis
  proof (rule that)
    let ?sv = "push_bit PRICE_RADIX (ucast (push_bit ?s E) :: u128) - wide_multiply_val_by_a_over_b (push_bit ?s W) b a"
    let ?bv = "wide_multiply_val_by_a_over_b (push_bit PRICE_RADIX (ucast (push_bit ?s E) :: u128)) a b - push_bit ?s W"
    show "partial_volumes a b s E W = Inr (?sv, ?bv)"
      using we wle s(2) unfolding partial_volumes_def Let_def word_less_nat_alt E24 sell buy W' by simp
    show "unat ?sv + ?w * ?b div ?a = ?e * 2 ^ 24" using we by (subst unat_sub_exact) (simp_all only: E24 sell)
    show "unat ?bv + ?w = ?e * 2 ^ 24 * ?a div ?b" using wle by (subst unat_sub_exact) (simp_all only: W' buy)
  qed
qed

lemma partial_volumes_none: "E = 0 \<Longrightarrow> W = 0 \<Longrightarrow> a \<noteq> 0 \<Longrightarrow> partial_volumes a b s E W = Inr (0, 0)"
  by (simp add: partial_volumes_def Let_def wide_multiply_val_by_a_over_b_def)

text \<open>What one market adds, from the sums of what trades fully and of what trades partly.\<close>

lemma demand_of_sums:
  fixes prices :: "price list"
  assumes price: "price_of prices (sellAsset c) = Inr a" "price_of prices (buyAsset c) = Inr b" "a \<noteq> 0" "b \<noteq> 0"
    and s: "unat s < 64" and ratio: "unat a < unat b * 2 ^ 40"
    and sums: "0 \<le> F" "0 \<le> E" "(F + E) * 2 ^ unat s < 2 ^ 63" "0 \<le> V" "0 \<le> W" "V + W < 2 ^ 127"
    and bound: "W \<le> E * int U" "U * unat b \<le> unat a * 2 ^ 24" and none: "s = 0 \<longrightarrow> E = 0"
    and ws: "unat (buyAsset c) < length dem" "unat (sellAsset c) < length sups"
  shows "\<exists>d u. calculate_demands_and_supplies_from_metadata c prices s
      \<lparr>ea_endow = word_of_int (F + E), endow_times_price = word_of_int (V + W)\<rparr>
      \<lparr>ea_endow = word_of_int F, endow_times_price = word_of_int V\<rparr> (dem, sups) =
        Inr (dem[unat (buyAsset c) := dem ! unat (buyAsset c) + d], sups[unat (sellAsset c) := sups ! unat (sellAsset c) + u]) \<and>
      unat d * unat b \<le> unat u * unat a \<and> (s = 0 \<longrightarrow> unat u = nat F * 2 ^ 24)"
proof -
  let ?fe = "word_of_int F :: u64" and ?pe = "word_of_int E :: u64" and ?w = "word_of_int W :: u128"
  let ?full = "push_bit PRICE_RADIX (ucast ?fe :: u128)" and ?s = "unat s"
  have pos: "0 < unat a" "0 < unat b" using price by (simp_all add: unat_gt_0)
  have le: "X \<le> X * 2 ^ ?s" if "0 \<le> X" for X :: int using mult_left_mono [of 1 "2 ^ ?s" X] that by simp
  have FE: "F + E < 2 ^ 63" "E * 2 ^ ?s < 2 ^ 63"
    using le [of "F + E"] le [of F] sums(1-3) by (simp_all add: distrib_right)
  have u: "unat ?fe = nat F" "unat ?pe = nat E" "unat ?w = nat W"
    using sums FE by (simp_all add: unsigned_of_int take_bit_int_eq_self)
  have E: "unat ?pe * 2 ^ ?s < 2 ^ 63"
  proof -
    have "int (nat E * 2 ^ ?s) < int (2 ^ 63)" using FE(2) sums(2) by simp
    then show ?thesis unfolding u of_nat_less_iff .
  qed
  obtain sv bv where v: "partial_volumes a b s ?pe ?w = Inr (sv, bv)"
    "unat sv + nat W * 2 ^ ?s * unat b div unat a = nat E * 2 ^ ?s * 2 ^ 24"
    "unat bv + nat W * 2 ^ ?s = nat E * 2 ^ ?s * 2 ^ 24 * unat a div unat b"
  proof (cases "s = 0")
    case True
    then have "E = 0" "W = 0" using none bound(1) sums by simp_all
    then show ?thesis using that [of 0 0] price(3) by (simp add: partial_volumes_none)
  next
    case False
    have "unat ?w \<le> unat ?pe * U" unfolding u using bound(1) sums by (simp add: nat_le_iff)
    then show ?thesis by (rule partial_volumes_ok [OF price(3,4) s False E ratio _ bound(2)]) (rule that, simp_all only: u)
  qed
  have f24: "unat ?full = nat F * 2 ^ 24" unfolding unat_u64_shift u ..
  let ?fb = "wide_multiply_val_by_a_over_b ?full a b"
  have fb: "unat ?fb = nat F * 2 ^ 24 * unat a div unat b"
  proof (subst wide_multiply_exact [OF price(4)])
    have "nat F < 2 ^ 63" using FE sums by simp
    then have "nat F * 2 ^ 24 * unat a < 2 ^ 63 * 2 ^ 24 * (unat b * 2 ^ 40)"
      by (intro mult_strict_mono mult_strict_right_mono ratio) (simp_all add: pos)
    then have "nat F * 2 ^ 24 * unat a div unat b < 2 ^ 127" using pos by (simp add: less_mult_imp_div_less mult.commute)
    then show "unat ?full * unat a div unat b < 2 ^ 128" unfolding f24 by simp
  qed (simp only: f24)
  have "unat (bv + ?fb) * unat b \<le> unat (sv + ?full) * unat a \<and> (s = 0 \<longrightarrow> unat (sv + ?full) = nat F * 2 ^ 24)"
  proof -
    let ?X = "nat E * 2 ^ ?s * 2 ^ 24" and ?w = "nat W * 2 ^ ?s"
    have "nat F < 2 ^ 63" "nat E * 2 ^ ?s < 2 ^ 63" using FE sums E u by simp_all
    then have "unat sv + unat ?full < 2 ^ 128" unfolding f24 using v(2) by simp
    then have sum: "unat (sv + ?full) = unat sv + nat F * 2 ^ 24" by (simp add: unat_add_exact f24)
    have "unat bv * unat b + ?w * unat b = (?X * unat a div unat b) * unat b" unfolding v(3) [symmetric] by (simp add: distrib_right)
    then have "unat bv * unat b + ?w * unat b \<le> ?X * unat a" by simp
    also have "\<dots> = unat sv * unat a + (?w * unat b div unat a) * unat a" unfolding v(2) [symmetric] by (simp add: distrib_right)
    also have "\<dots> \<le> unat sv * unat a + ?w * unat b" by simp
    finally have "unat bv * unat b \<le> unat sv * unat a" by simp
    moreover have "unat ?fb * unat b \<le> nat F * 2 ^ 24 * unat a" unfolding fb by simp
    moreover have "unat (bv + ?fb) \<le> unat bv + unat ?fb" unfolding unat_word_ariths(1) by (rule mod_less_eq_dividend)
    then have "unat (bv + ?fb) * unat b \<le> unat bv * unat b + unat ?fb * unat b" by (metis add_mult_distrib mult_le_mono1)
    ultimately have "unat (bv + ?fb) * unat b \<le> unat (sv + ?full) * unat a" unfolding sum distrib_right by linarith
    moreover have "s = 0 \<longrightarrow> unat sv = 0" using none v(2) by auto
    ultimately show ?thesis unfolding sum by simp
  qed
  moreover have "calculate_demands_and_supplies_from_metadata c prices s
      \<lparr>ea_endow = word_of_int (F + E), endow_times_price = word_of_int (V + W)\<rparr>
      \<lparr>ea_endow = word_of_int F, endow_times_price = word_of_int V\<rparr> (dem, sups) =
        Inr (dem[unat (buyAsset c) := dem ! unat (buyAsset c) + (bv + ?fb)],
             sups[unat (sellAsset c) := sups ! unat (sellAsset c) + (sv + ?full)])"
  proof -
    have sint: "sint (word_of_int X :: i128) = X" if "0 \<le> X" "X < 2 ^ 127" for X
      using that by (simp add: signed_of_int signed_take_bit_int_eq_self)
    have "\<not> sint (word_of_int (V + W) :: i128) < sint (word_of_int V :: i128)"
      using sums sint [of "V + W"] sint [of V] by (simp del: of_int_add)
    then show ?thesis
      using price s v(1) ws
      by (simp add: calculate_demands_and_supplies_from_metadata_def add_at_def Let_def word_less_nat_alt word_le_nat_alt)
  qed
  ultimately show ?thesis by blast
qed

section \<open>A demand query\<close>

lemma sum_filter_split:
  assumes "\<And>x. Q x \<Longrightarrow> P x"
  shows "amounts (filter P xs) = amounts (filter Q xs) + amounts (filter (\<lambda>x. P x \<and> \<not> Q x) xs)"
    "worth (filter P xs) = worth (filter Q xs) + worth (filter (\<lambda>x. P x \<and> \<not> Q x) xs)"
  by (induction xs) (use assms in auto)

lemma worth_bound:
  assumes "\<forall>(k, v) \<in> set xs. 0 < sint (offer_amount v :: i64) \<and> minPrice v \<le> p"
  shows "0 \<le> worth xs" "worth xs \<le> amounts xs * uint p"
proof -
  have "0 \<le> worth xs \<and> worth xs \<le> amounts xs * uint p"
    using assms
  proof (induction xs)
    case (Cons x xs)
    obtain k v where x: "x = (k, v)" by force
    have "0 < sint (offer_amount v)" "uint (minPrice v) \<le> uint p" using Cons.prems by (simp_all add: x word_le_def)
    then have head: "0 \<le> sint (offer_amount v) * uint (minPrice v)" "sint (offer_amount v) * uint (minPrice v) \<le> sint (offer_amount v) * uint p"
      by (simp_all add: mult_left_mono)
    have "0 \<le> worth xs \<and> worth xs \<le> amounts xs * uint p" using Cons by simp
    then show ?case unfolding x worth_simps amounts_simps distrib_right using head by linarith
  qed simp
  then show "0 \<le> worth xs" "worth xs \<le> amounts xs * uint p" by simp_all
qed

lemma covered_price_mono: "covered_price T p x \<Longrightarrow> p \<le> q \<Longrightarrow> covered_price T q x"
  unfolding covered_price_def by (metis antisym order_trans)

lemma demand_query_ok:
  fixes prices :: "price list"
  assumes T: "sound_book T" and i: "trie_metadata_traversal 12 T = Inr index"
    and price: "price_of prices (sellAsset c) = Inr a" "price_of prices (buyAsset c) = Inr b" "a \<noteq> 0" "b \<noteq> 0"
    and s: "unat s < 64" and ratio: "unat a < unat b * 2 ^ 40" and fits: "amounts (offer_list T) * 2 ^ unat s < 2 ^ 63"
    and ws: "unat (buyAsset c) < length dem" "unat (sellAsset c) < length sups"
  shows "\<exists>d u. calculate_demands_and_supplies index c prices s (dem, sups) =
        Inr (dem[unat (buyAsset c) := dem ! unat (buyAsset c) + d], sups[unat (sellAsset c) := sups ! unat (sellAsset c) + u]) \<and>
      unat d * unat b \<le> unat u * unat a \<and> (s = 0 \<longrightarrow> unat u = nat (amounts (covered T (divide_prices a b))) * 2 ^ 24)"
proof -
  let ?hi = "divide_prices a b" and ?L = "offer_list T"
  define lo where "lo = (if s \<noteq> 0 then ?hi - drop_bit (unat s) ?hi else ?hi)"
  have lohi: "lo \<le> ?hi"
  proof -
    have "unat (drop_bit (unat s) ?hi) \<le> unat ?hi" by (simp add: unat_drop_bit)
    then show ?thesis by (simp add: lo_def word_le_nat_alt unat_sub_exact)
  qed
  let ?P = "\<lambda>(k :: key, v). covered_price T ?hi (minPrice v)" and ?Q = "\<lambda>(k :: key, v). covered_price T lo (minPrice v)"
  let ?R = "filter (\<lambda>x. ?P x \<and> \<not> ?Q x) ?L"
  have keys: "\<forall>(k, v) \<in> set ?L. 0 < sint (offer_amount v :: i64)" using sound_bookD(4) [OF T] by blast
  have pos: "\<forall>(k, v) \<in> set (filter P ?L). 0 < sint (offer_amount v :: i64)" for P using keys by auto
  have le: "\<forall>(k, v) \<in> set (filter (\<lambda>x. ?P x \<and> B x) ?L). 0 < sint (offer_amount v :: i64) \<and> minPrice v \<le> ?hi" for B
    using keys by (auto simp: covered_price_def)
  have split: "amounts (covered T ?hi) = amounts (covered T lo) + amounts ?R" "worth (covered T ?hi) = worth (covered T lo) + worth ?R"
    unfolding covered_def by (rule sum_filter_split, use covered_price_mono lohi in blast)+
  have nonneg: "0 \<le> amounts (covered T lo)" "0 \<le> amounts ?R" unfolding covered_def by (rule amounts_nonneg [OF pos])+
  have worth: "0 \<le> worth (covered T lo)" "0 \<le> worth ?R" "worth ?R \<le> amounts ?R * uint ?hi" "worth (covered T ?hi) \<le> amounts (covered T ?hi) * uint ?hi"
  proof -
    have lo: "\<forall>(k, v) \<in> set (covered T lo). 0 < sint (offer_amount v :: i64) \<and> minPrice v \<le> lo"
      and hi: "\<forall>(k, v) \<in> set (covered T ?hi). 0 < sint (offer_amount v :: i64) \<and> minPrice v \<le> ?hi"
      using keys by (auto simp: covered_def covered_price_def)
    show "0 \<le> worth (covered T lo)" by (rule worth_bound [OF lo])
    show "0 \<le> worth ?R" "worth ?R \<le> amounts ?R * uint ?hi" by (rule worth_bound [OF le])+
    show "worth (covered T ?hi) \<le> amounts (covered T ?hi) * uint ?hi" by (rule worth_bound [OF hi])
  qed
  have all: "amounts (covered T ?hi) \<le> amounts ?L" unfolding covered_def by (rule amounts_filter [OF keys])
  have total: "worth (covered T ?hi) < 2 ^ 127"
  proof -
    have "amounts (covered T ?hi) * uint ?hi \<le> (2 ^ 63 - 1) * (2 ^ 64 - 1)"
    proof (rule mult_mono)
      show "amounts (covered T ?hi) \<le> 2 ^ 63 - 1" using all sound_bookD(3) [OF T] by simp
      show "uint ?hi \<le> 2 ^ 64 - 1" using unsigned_less [where 'a = int, of ?hi] by simp
    qed simp_all
    then show ?thesis using worth(4) by simp
  qed
  have sums: "(amounts (covered T lo) + amounts ?R) * 2 ^ unat s < 2 ^ 63"
    using fits all mult_right_mono [OF all, of "2 ^ unat s"] unfolding split(1) by (meson le_less_trans zero_le_numeral zero_le_power)
  have bound: "unat ?hi * unat b \<le> unat a * 2 ^ 24" unfolding unat_divide_prices [OF price(4) ratio] by simp
  have none: "s = 0 \<longrightarrow> amounts ?R = 0" using split(1) by (auto simp: lo_def)
  have "calculate_demands_and_supplies index c prices s (dem, sups) =
    calculate_demands_and_supplies_from_metadata c prices s (ea_val (covered T ?hi)) (ea_val (covered T lo)) (dem, sups)"
    using price s by (simp add: calculate_demands_and_supplies_def get_execution_prices_def get_metadata_covered [OF T i] Let_def lo_def word_le_nat_alt)
  then show ?thesis
    using demand_of_sums [OF price s ratio nonneg sums worth(1,2) _ _ bound none ws] worth(3) total
    unfolding ea_val_def split by (auto simp: lo_def)
qed

end
