(* ===== verification/Mempool.thy ===== *)
theory Mempool
  imports Xdr_Types "HOL-Library.Multiset"
begin

text \<open>
  The pool of transactions waiting for a block, \<^verbatim>\<open>mempool.h\<close> and \<^verbatim>\<open>mempool.cc\<close>: chunks of
  transactions, each with a bitmap of those to delete, a buffer of new chunks, and the cleaning that a background
  thread runs after a block.  The locks make every operation atomic; the ranges that TBB runs in parallel touch
  different chunks and are taken in order.
\<close>

section \<open>Chunks\<close>

record MempoolChunk =
  txs :: "SignedTransaction list"
  confirmed_txs_to_remove :: "bool list"

definition new_chunk :: "SignedTransaction list \<Rightarrow> MempoolChunk" where
  "new_chunk txs_input = \<lparr>txs = txs_input, confirmed_txs_to_remove = []\<rparr>"

definition clear_confirmed_txs_bitmap :: "MempoolChunk \<Rightarrow> MempoolChunk" where
  "clear_confirmed_txs_bitmap c = c\<lparr>confirmed_txs_to_remove := []\<rparr>"

definition set_confirmed_txs :: "bool list \<Rightarrow> MempoolChunk \<Rightarrow> MempoolChunk res" where
  "set_confirmed_txs bitmap c =
     (if length bitmap \<noteq> length (txs c) then Inl (Runtime_error ''size mismatch: bitmap vs txs'')
      else Inr (c\<lparr>confirmed_txs_to_remove := bitmap\<rparr>))"

definition chunk_size :: "MempoolChunk \<Rightarrow> nat" where
  "chunk_size c = length (txs c)"

definition chunk_at :: "MempoolChunk \<Rightarrow> nat \<Rightarrow> SignedTransaction res" where
  "chunk_at c idx = (if idx < length (txs c) then Inr (txs c ! idx) else Inl Out_of_range)"

definition chunk_join :: "MempoolChunk \<Rightarrow> MempoolChunk \<Rightarrow> MempoolChunk" where
  "chunk_join c other = c\<lparr>txs := txs c @ txs other,
     confirmed_txs_to_remove := confirmed_txs_to_remove c @ confirmed_txs_to_remove other\<rparr>"

text \<open>
  The loop of \<open>remove_confirmed_txs\<close>: a removed entry is overwritten by the last one, in the bitmap and among the
  transactions.  Indexing the transactions beyond their end is undefined.
\<close>

function remove_confirmed_loop ::
    "nat \<Rightarrow> SignedTransaction list \<Rightarrow> bool list \<Rightarrow> nat \<Rightarrow> (SignedTransaction list \<times> bool list \<times> nat) res" where
  "remove_confirmed_loop i ts conf num_removed =
     (if length conf \<le> i then Inr (ts, conf, num_removed)
      else if conf ! i
      then if length ts \<le> i then Inl Undefined
           else remove_confirmed_loop i (butlast (ts[i := last ts])) (butlast (conf[i := last conf])) (num_removed + 1)
      else remove_confirmed_loop (i + 1) ts conf num_removed)"
  by pat_completeness auto
termination
  by (relation "measure (\<lambda>(i, ts, conf, num_removed). length conf - i)") auto

declare remove_confirmed_loop.simps [simp del]

definition chunk_remove_confirmed_txs :: "MempoolChunk \<Rightarrow> (nat \<times> MempoolChunk) res" where
  "chunk_remove_confirmed_txs c =
     res_bind (remove_confirmed_loop 0 (txs c) (confirmed_txs_to_remove c) 0) (\<lambda>(ts, conf, num_removed).
     Inr (num_removed, c\<lparr>txs := ts, confirmed_txs_to_remove := conf\<rparr>))"

section \<open>The pool\<close>

record Mempool =
  mempool :: "MempoolChunk list"
  buffered_mempool :: "MempoolChunk list"
  mempool_size :: u64
  TARGET_CHUNK_SIZE :: nat

definition new_mempool :: "nat \<Rightarrow> Mempool" where
  "new_mempool target_chunk_size =
     \<lparr>mempool = [], buffered_mempool = [], mempool_size = 0, TARGET_CHUNK_SIZE = target_chunk_size\<rparr>"

definition add_to_mempool_buffer :: "SignedTransaction list \<Rightarrow> Mempool \<Rightarrow> Mempool" where
  "add_to_mempool_buffer chunk m = m\<lparr>buffered_mempool := buffered_mempool m @ [new_chunk chunk]\<rparr>"

definition push_mempool_buffer_to_mempool :: "Mempool \<Rightarrow> Mempool" where
  "push_mempool_buffer_to_mempool m =
     m\<lparr>mempool := mempool m @ buffered_mempool m,
       mempool_size := foldl (\<lambda>sz c. sz + of_nat (chunk_size c)) (mempool_size m) (buffered_mempool m),
       buffered_mempool := []\<rparr>"

text \<open>
  \<open>mempool.size() - 1\<close> wraps around for an empty pool, and the loop reads its first chunk.  The chunk that was
  joined is replaced by the last one.
\<close>

function join_small_loop :: "nat \<Rightarrow> nat \<Rightarrow> MempoolChunk list \<Rightarrow> MempoolChunk list" where
  "join_small_loop target i ms =
     (if length ms \<le> i + 1 then ms
      else if chunk_size (ms ! i) + chunk_size (ms ! (i + 1)) < target
      then let ms = ms[i := chunk_join (ms ! i) (ms ! (i + 1))]; ms = ms[i + 1 := last ms]
           in join_small_loop target i (butlast ms)
      else join_small_loop target (i + 1) ms)"
  by pat_completeness auto
termination
  by (relation "measure (\<lambda>(target, i, ms). length ms - i)") auto

declare join_small_loop.simps [simp del]

definition join_small_chunks :: "Mempool \<Rightarrow> Mempool res" where
  "join_small_chunks m =
     (if mempool m = [] then Inl Undefined
      else Inr (m\<lparr>mempool := join_small_loop (TARGET_CHUNK_SIZE m) 0 (mempool m)\<rparr>))"

definition mempool_remove_confirmed_txs :: "Mempool \<Rightarrow> Mempool res" where
  "mempool_remove_confirmed_txs m =
     res_bind (res_map chunk_remove_confirmed_txs (mempool m)) (\<lambda>rs.
     Inr (m\<lparr>mempool := map snd rs, mempool_size := mempool_size m - of_nat (sum_list (map fst rs))\<rparr>))"

definition clear_confirmed_txs_bitmaps :: "Mempool \<Rightarrow> Mempool" where
  "clear_confirmed_txs_bitmaps m = m\<lparr>mempool := map clear_confirmed_txs_bitmap (mempool m)\<rparr>"

definition num_chunks :: "Mempool \<Rightarrow> nat" where
  "num_chunks m = length (mempool m)"

text \<open>What \<open>MempoolWorker::run\<close> does when it is asked to clean.\<close>

definition mempool_cleaning :: "Mempool \<Rightarrow> Mempool res" where
  "mempool_cleaning m = res_bind (mempool_remove_confirmed_txs m) join_small_chunks"

section \<open>Removing\<close>

definition unconfirmed :: "SignedTransaction list \<Rightarrow> bool list \<Rightarrow> SignedTransaction list" where
  "unconfirmed ts conf = map fst (filter (\<lambda>(t, b). \<not> b) (zip ts conf))"

definition aligned :: "MempoolChunk \<Rightarrow> bool" where
  "aligned c \<longleftrightarrow> length (confirmed_txs_to_remove c) = length (txs c) \<or>
     length (confirmed_txs_to_remove c) < length (txs c) \<and> True \<notin> set (confirmed_txs_to_remove c)"

definition kept :: "MempoolChunk \<Rightarrow> SignedTransaction multiset" where
  "kept c = (if length (confirmed_txs_to_remove c) = length (txs c) then mset (unconfirmed (txs c) (confirmed_txs_to_remove c)) else mset (txs c))"

lemma remove_none: "\<forall>j. i \<le> j \<longrightarrow> j < length conf \<longrightarrow> \<not> conf ! j \<Longrightarrow> remove_confirmed_loop i ts conf n = Inr (ts, conf, n)"
proof (induction i ts conf n rule: remove_confirmed_loop.induct)
  case (1 i ts conf n)
  then show ?case by (subst remove_confirmed_loop.simps) auto
qed

lemma mset_swap_last:
  assumes "i < length xs"
  shows "mset (butlast (xs[i := last xs])) = mset xs - {#xs ! i#}" "length (butlast (xs[i := last xs])) = length xs - 1"
proof -
  obtain ys y where xs: "xs = ys @ [y]" using assms by (metis list.size(3) not_less_zero rev_exhaust)
  show "mset (butlast (xs[i := last xs])) = mset xs - {#xs ! i#}"
    using assms by (cases "i < length ys") (simp_all add: xs list_update_append nth_append mset_update)
qed simp

lemma remove_confirmed_spec:
  assumes "length ts = length conf" "\<forall>j < i. j < length conf \<longrightarrow> \<not> conf ! j"
  shows "\<exists>ts'. remove_confirmed_loop i ts conf n = Inr (ts', replicate (length ts') False, n + (length ts - length ts')) \<and>
    mset ts' = mset (unconfirmed ts conf)"
  using assms
proof (induction i ts conf n rule: remove_confirmed_loop.induct)
  case (1 i ts conf n)
  show ?case
  proof (cases "length conf \<le> i")
    case True
    then have none: "\<forall>b \<in> set conf. \<not> b" using "1.prems" by (auto simp: in_set_conv_nth)
    then have "conf = replicate (length ts) False" using "1.prems" by (metis (full_types) replicate_eqI)
    moreover have "filter (\<lambda>(t, b). \<not> b) (zip ts conf) = zip ts conf" using none by (auto simp: filter_id_conv dest: set_zip_rightD)
    then have "unconfirmed ts conf = ts" using "1.prems"(1) by (simp add: unconfirmed_def)
    ultimately show ?thesis using True by (subst remove_confirmed_loop.simps) auto
  next
    case in_range: False
    show ?thesis
    proof (cases "conf ! i")
      case True
      let ?ts = "butlast (ts[i := last ts])" and ?conf = "butlast (conf[i := last conf])"
      have i: "i < length ts" "i < length conf" using in_range "1.prems" by simp_all
      have zip: "zip ?ts ?conf = butlast ((zip ts conf)[i := last (zip ts conf)])"
      proof -
        have "last (zip ts conf) = (last ts, last conf)" using i "1.prems"(1) by (cases "ts = []"; cases "conf = []") (simp_all add: last_conv_nth)
        then show ?thesis using "1.prems"(1) by (simp add: update_zip butlast_conv_take take_zip)
      qed
      have "zip ts conf ! i = (ts ! i, True)" using i True by simp
      then have "mset (unconfirmed ?ts ?conf) = mset (unconfirmed ts conf)"
        using mset_swap_last(1) [of i "zip ts conf"] i by (simp add: unconfirmed_def zip)
      moreover have "\<forall>j < i. j < length ?conf \<longrightarrow> \<not> ?conf ! j" using "1.prems"(2) by (simp add: nth_butlast)
      then obtain ts' where "remove_confirmed_loop i ?ts ?conf (n + 1) = Inr (ts', replicate (length ts') False, n + 1 + (length ?ts - length ts'))"
        "mset ts' = mset (unconfirmed ?ts ?conf)"
        using "1.IH"(1) [OF in_range True _ _ ] i "1.prems"(1) by auto
      moreover have "length ts' \<le> length ?ts"
        using calculation(3) unfolding unconfirmed_def by (metis length_filter_le length_map length_zip min.cobounded1 order_trans size_mset)
      ultimately show ?thesis using in_range True i by (subst remove_confirmed_loop.simps) auto
    next
      case False
      then show ?thesis using 1 in_range by (subst remove_confirmed_loop.simps) (auto simp: less_Suc_eq)
    qed
  qed
qed

lemma chunk_remove_aligned:
  assumes "aligned c"
  shows "\<exists>c'. chunk_remove_confirmed_txs c = Inr (chunk_size c - chunk_size c', c') \<and> chunk_size c' \<le> chunk_size c \<and>
    mset (txs c') = kept c \<and> length (confirmed_txs_to_remove c') \<le> length (txs c') \<and> True \<notin> set (confirmed_txs_to_remove c')"
proof (cases "length (confirmed_txs_to_remove c) = length (txs c)")
  case True
  obtain ts' where r: "remove_confirmed_loop 0 (txs c) (confirmed_txs_to_remove c) 0 =
      Inr (ts', replicate (length ts') False, 0 + (length (txs c) - length ts'))" "mset ts' = mset (unconfirmed (txs c) (confirmed_txs_to_remove c))"
    using remove_confirmed_spec [of "txs c" "confirmed_txs_to_remove c" 0 0] True by auto
  moreover have "length ts' \<le> length (txs c)"
    using r(2) unfolding unconfirmed_def by (metis length_filter_le length_map length_zip min.cobounded1 order_trans size_mset)
  ultimately show ?thesis using True by (simp add: chunk_remove_confirmed_txs_def chunk_size_def kept_def)
next
  case False
  then have none: "length (confirmed_txs_to_remove c) < length (txs c)" "True \<notin> set (confirmed_txs_to_remove c)"
    using assms by (simp_all add: aligned_def)
  then have "remove_confirmed_loop 0 (txs c) (confirmed_txs_to_remove c) 0 = Inr (txs c, confirmed_txs_to_remove c, 0)"
    by (intro remove_none) (metis nth_mem)
  then show ?thesis using none False by (simp add: chunk_remove_confirmed_txs_def chunk_size_def kept_def)
qed

section \<open>Joining\<close>

abbreviation all_txs :: "MempoolChunk list \<Rightarrow> SignedTransaction multiset" where
  "all_txs ms \<equiv> \<Sum>c \<leftarrow> ms. mset (txs c)"

definition quiet :: "MempoolChunk \<Rightarrow> bool" where
  "quiet c \<longleftrightarrow> length (confirmed_txs_to_remove c) \<le> length (txs c) \<and> True \<notin> set (confirmed_txs_to_remove c)"

lemma quiet_aligned: "quiet c \<Longrightarrow> aligned c"
  by (auto simp: quiet_def aligned_def)

definition joined :: "nat \<Rightarrow> MempoolChunk list \<Rightarrow> MempoolChunk list" where
  "joined i ms = (let ms = ms[i := chunk_join (ms ! i) (ms ! (i + 1))] in butlast (ms[i + 1 := last ms]))"

lemma join_small_unfold:
  "join_small_loop target i ms =
     (if length ms \<le> i + 1 then ms
      else if chunk_size (ms ! i) + chunk_size (ms ! (i + 1)) < target then join_small_loop target i (joined i ms)
      else join_small_loop target (i + 1) ms)"
  by (subst join_small_loop.simps) (simp add: joined_def Let_def)

lemma joined_shape:
  assumes "i + 1 < length ms"
  obtains A x y B where "ms = A @ x # y # B" "length A = i"
    "joined i ms = A @ chunk_join x y # (if B = [] then [] else last B # butlast B)"
proof -
  define A B where "A = take i ms" and "B = drop (i + 2) ms"
  have ms: "ms = A @ ms ! i # ms ! (i + 1) # B"
    using assms unfolding A_def B_def by (simp add: Cons_nth_drop_Suc)
  have A: "length A = i" using assms by (simp add: A_def)
  have "joined i (A @ x # y # B) = A @ chunk_join x y # (if B = [] then [] else last B # butlast B)" for x y
    by (simp add: joined_def A [symmetric] nth_append list_update_append butlast_append)
  then show ?thesis using that ms A by metis
qed

lemma joined_laws:
  assumes "i + 1 < length ms"
  shows "all_txs (joined i ms) = all_txs ms" "\<forall>c \<in> set ms. quiet c \<Longrightarrow> \<forall>c \<in> set (joined i ms). quiet c"
    "j < i \<Longrightarrow> joined i ms ! j = ms ! j" "joined i ms ! i = chunk_join (ms ! i) (ms ! (i + 1))"
proof -
  obtain A x y B where ms: "ms = A @ x # y # B" "length A = i"
    and j: "joined i ms = A @ chunk_join x y # (if B = [] then [] else last B # butlast B)" by (rule joined_shape [OF assms])
  have conv: "all_txs xs = sum_mset (image_mset (\<lambda>c. mset (txs c)) (mset xs))" for xs
    by (simp add: sum_mset_sum_list flip: mset_map)
  have B: "B \<noteq> [] \<Longrightarrow> mset (last B # butlast B) = mset B"
  proof -
    assume "B \<noteq> []"
    then have "mset (butlast B @ [last B]) = mset B" by simp
    then show "mset (last B # butlast B) = mset B" by simp
  qed
  have "B \<noteq> [] \<Longrightarrow> all_txs (last B # butlast B) = all_txs B" using conv B by metis
  then show "all_txs (joined i ms) = all_txs ms" unfolding j unfolding ms(1) by (auto simp: chunk_join_def)
  show "\<forall>c \<in> set ms. quiet c \<Longrightarrow> \<forall>c \<in> set (joined i ms). quiet c"
    unfolding j unfolding ms(1) by (auto simp: quiet_def chunk_join_def dest: in_set_butlastD)
  show "j < i \<Longrightarrow> joined i ms ! j = ms ! j" "joined i ms ! i = chunk_join (ms ! i) (ms ! (i + 1))"
    unfolding j by (simp_all add: ms(1) ms(2) [symmetric] nth_append)
qed

lemma join_small_spec:
  assumes "\<forall>j < i. target \<le> chunk_size (ms ! j) + chunk_size (ms ! (j + 1))"
  shows "all_txs (join_small_loop target i ms) = all_txs ms \<and>
    ((\<forall>c \<in> set ms. quiet c) \<longrightarrow> (\<forall>c \<in> set (join_small_loop target i ms). quiet c)) \<and>
    (\<forall>j. j + 1 < length (join_small_loop target i ms) \<longrightarrow>
      target \<le> chunk_size (join_small_loop target i ms ! j) + chunk_size (join_small_loop target i ms ! (j + 1)))"
  using assms
proof (induction target i ms rule: join_small_loop.induct)
  case (1 target i ms)
  show ?case
  proof (cases "length ms \<le> i + 1")
    case True
    then have "join_small_loop target i ms = ms" by (subst join_small_unfold) simp
    then show ?thesis using "1.prems" True by auto
  next
    case in_range: False
    then have i: "i + 1 < length ms" by simp
    show ?thesis
    proof (cases "chunk_size (ms ! i) + chunk_size (ms ! (i + 1)) < target")
      case True
      have grow: "chunk_size (ms ! i) \<le> chunk_size (joined i ms ! i)"
        by (simp add: joined_laws(4) [OF i] chunk_size_def chunk_join_def)
      have pre: "\<forall>j < i. target \<le> chunk_size (joined i ms ! j) + chunk_size (joined i ms ! (j + 1))"
      proof (intro allI impI)
        fix j assume j: "j < i"
        then have "target \<le> chunk_size (ms ! j) + chunk_size (ms ! (j + 1))" using "1.prems" by blast
        then show "target \<le> chunk_size (joined i ms ! j) + chunk_size (joined i ms ! (j + 1))"
          using grow joined_laws(3) [OF i, of j] joined_laws(3) [OF i, of "j + 1"] j by (cases "j + 1 = i") auto
      qed
      have J: "butlast (ms[i := chunk_join (ms ! i) (ms ! (i + 1)), i + 1 := last (ms[i := chunk_join (ms ! i) (ms ! (i + 1))])]) = joined i ms"
        by (simp add: joined_def Let_def)
      have step: "join_small_loop target i ms = join_small_loop target i (joined i ms)"
        using True in_range by (subst join_small_unfold) simp
      note ih = "1.IH"(1) [OF in_range True refl refl, unfolded J, OF pre]
      show ?thesis unfolding step using ih joined_laws(1,2) [OF i] by simp
    next
      case False
      then have "\<forall>j < i + 1. target \<le> chunk_size (ms ! j) + chunk_size (ms ! (j + 1))" using "1.prems" by (simp add: less_Suc_eq)
      note ih = "1.IH"(2) [OF in_range False this]
      have step: "join_small_loop target i ms = join_small_loop target (i + 1) ms"
        using False in_range by (subst join_small_unfold) simp
      show ?thesis unfolding step by (rule ih)
    qed
  qed
qed

section \<open>Cleaning\<close>

definition mempool_ok :: "Mempool \<Rightarrow> bool" where
  "mempool_ok m \<longleftrightarrow> (\<forall>c \<in> set (mempool m). aligned c) \<and> mempool_size m = of_nat (size (all_txs (mempool m)))"

lemma mempool_cleaning_ok:
  assumes m: "mempool_ok m" "mempool m \<noteq> []"
  shows "\<exists>m'. mempool_cleaning m = Inr m' \<and> mempool_ok m' \<and> all_txs (mempool m') = (\<Sum>c \<leftarrow> mempool m. kept c) \<and>
    (\<forall>j. j + 1 < length (mempool m') \<longrightarrow>
      TARGET_CHUNK_SIZE m \<le> chunk_size (mempool m' ! j) + chunk_size (mempool m' ! (j + 1)))"
proof -
  let ?r = "\<lambda>c. case chunk_remove_confirmed_txs c of Inr r \<Rightarrow> r"
  have r: "chunk_remove_confirmed_txs c = Inr (?r c)" "fst (?r c) = chunk_size c - chunk_size (snd (?r c))"
    "chunk_size (snd (?r c)) \<le> chunk_size c" "mset (txs (snd (?r c))) = kept c" "quiet (snd (?r c))"
    if "c \<in> set (mempool m)" for c
    using chunk_remove_aligned [of c] m(1) that by (auto simp: mempool_ok_def quiet_def)
  define cs where "cs = map (\<lambda>c. snd (?r c)) (mempool m)"
  define n where "n = sum_list (map (\<lambda>c. fst (?r c)) (mempool m))"
  have rem: "mempool_remove_confirmed_txs m = Inr (m\<lparr>mempool := cs, mempool_size := mempool_size m - of_nat n\<rparr>)"
  proof -
    have "res_map chunk_remove_confirmed_txs (mempool m) = Inr (map ?r (mempool m))" by (rule res_map_Inr) (rule r(1))
    then show ?thesis unfolding mempool_remove_confirmed_txs_def by (simp only: res_bind_simps cs_def n_def map_map comp_def)
  qed
  have q: "\<forall>c \<in> set cs. quiet c" using r(5) by (auto simp: cs_def)
  have all: "all_txs cs = (\<Sum>c \<leftarrow> mempool m. kept c)" using r(4) by (simp add: cs_def comp_def cong: map_cong)
  have sizes: "n + size (all_txs cs) = size (all_txs (mempool m))"
  proof -
    have "sum_list (map (\<lambda>c. fst (?r c)) xs) + size (all_txs (map (\<lambda>c. snd (?r c)) xs)) = size (all_txs xs)"
      if "set xs \<subseteq> set (mempool m)" for xs
      using that
    proof (induction xs)
      case (Cons c xs)
      then show ?case using r(2,3) [of c] by (simp add: chunk_size_def)
    qed simp
    then show ?thesis unfolding n_def cs_def by blast
  qed
  have "cs \<noteq> []" using m(2) by (simp add: cs_def)
  then have run: "mempool_cleaning m = Inr (m\<lparr>mempool := join_small_loop (TARGET_CHUNK_SIZE m) 0 cs, mempool_size := mempool_size m - of_nat n\<rparr>)"
    by (simp add: mempool_cleaning_def rem join_small_chunks_def)
  have "mempool_size m - of_nat n = of_nat (size (all_txs cs))" using m(1) sizes [symmetric] by (simp add: mempool_ok_def)
  then show ?thesis using join_small_spec [of 0 "TARGET_CHUNK_SIZE m" cs] q all by (auto simp: run mempool_ok_def quiet_aligned)
qed

lemma push_mempool_ok: "mempool_ok m \<Longrightarrow> \<forall>c \<in> set (buffered_mempool m). aligned c \<Longrightarrow>
    mempool_ok (push_mempool_buffer_to_mempool (add_to_mempool_buffer ts m))"
proof -
  have "foldl (\<lambda>sz c. sz + of_nat (chunk_size c)) (n :: u64) cs = n + of_nat (size (all_txs cs))" for n cs
    by (induction cs arbitrary: n) (simp_all add: chunk_size_def algebra_simps)
  then show "mempool_ok m \<Longrightarrow> \<forall>c \<in> set (buffered_mempool m). aligned c \<Longrightarrow>
    mempool_ok (push_mempool_buffer_to_mempool (add_to_mempool_buffer ts m))"
    by (auto simp: mempool_ok_def push_mempool_buffer_to_mempool_def add_to_mempool_buffer_def new_chunk_def aligned_def)
qed

lemma set_confirmed_aligned: "set_confirmed_txs bitmap c = Inr c' \<Longrightarrow> aligned c' \<and> txs c' = txs c"
  by (auto simp: set_confirmed_txs_def aligned_def split: if_splits)

lemma clear_bitmaps_ok: "mempool_ok m \<Longrightarrow> mempool_ok (clear_confirmed_txs_bitmaps m)"
  by (auto simp: mempool_ok_def clear_confirmed_txs_bitmaps_def clear_confirmed_txs_bitmap_def aligned_def comp_def)

end
