(* ===== verification/Lmdb_Wrapper.thy ===== *)
theory Lmdb_Wrapper
  imports Trie_Keys
begin

text \<open>
  The wrapper of the embedded database, \<^verbatim>\<open>lmdb_wrapper.h\<close> and \<^verbatim>\<open>lmdb_wrapper.cc\<close>.  LMDB itself
  is not part of the repository: its operations on one table are the fields of a record that the definitions take
  as a parameter, and \<open>lmdb_laws\<close> states what its documentation says of them.  A table is a sorted map from
  byte strings to values, here already decoded.
\<close>

section \<open>The operations of LMDB\<close>

text \<open>
  \<open>mdb_set_range\<close> is the least key that is not below the given one, \<open>mdb_last\<close> the greatest, \<open>mdb_prev\<close> the
  greatest below the given one, which need not be there any more.
\<close>

record ('v, 'd) lmdb =
  mdb_get :: "byte list \<Rightarrow> 'd \<Rightarrow> 'v option"
  mdb_put :: "byte list \<Rightarrow> 'v \<Rightarrow> 'd \<Rightarrow> 'd"
  mdb_del :: "byte list \<Rightarrow> 'd \<Rightarrow> 'd"
  mdb_set_range :: "byte list \<Rightarrow> 'd \<Rightarrow> byte list option"
  mdb_last :: "'d \<Rightarrow> byte list option"
  mdb_prev :: "byte list \<Rightarrow> 'd \<Rightarrow> byte list option"
  mdb_entries :: "'d \<Rightarrow> (byte list \<times> 'v) list"

definition disk_map :: "('v, 'd) lmdb \<Rightarrow> 'd \<Rightarrow> byte list \<Rightarrow> 'v option" where
  "disk_map L d = (\<lambda>k. mdb_get L k d)"

definition greatest_where :: "(byte list \<Rightarrow> bool) \<Rightarrow> byte list set \<Rightarrow> byte list option \<Rightarrow> bool" where
  "greatest_where P S r = (case r of None \<Rightarrow> \<forall>x \<in> S. \<not> P x | Some y \<Rightarrow> y \<in> S \<and> P y \<and> (\<forall>x \<in> S. P x \<longrightarrow> \<not> memcmp_less y x))"

definition least_where :: "(byte list \<Rightarrow> bool) \<Rightarrow> byte list set \<Rightarrow> byte list option \<Rightarrow> bool" where
  "least_where P S r = (case r of None \<Rightarrow> \<forall>x \<in> S. \<not> P x | Some y \<Rightarrow> y \<in> S \<and> P y \<and> (\<forall>x \<in> S. P x \<longrightarrow> \<not> memcmp_less x y))"

definition lmdb_laws :: "nat \<Rightarrow> ('v, 'd) lmdb \<Rightarrow> bool" where
  "lmdb_laws n L \<longleftrightarrow>
     (\<forall>k v d. disk_map L (mdb_put L k v d) = (disk_map L d)(k \<mapsto> v)) \<and>
     (\<forall>k d. disk_map L (mdb_del L k d) = (disk_map L d)(k := None)) \<and>
     (\<forall>d. map_of (mdb_entries L d) = disk_map L d \<and> distinct (map fst (mdb_entries L d))) \<and>
     (\<forall>k d. length k = n \<and> (\<forall>x \<in> dom (disk_map L d). length x = n) \<longrightarrow>
        least_where (\<lambda>x. \<not> memcmp_less x k) (dom (disk_map L d)) (mdb_set_range L k d) \<and>
        greatest_where (\<lambda>x. memcmp_less x k) (dom (disk_map L d)) (mdb_prev L k d) \<and>
        greatest_where (\<lambda>x. True) (dom (disk_map L d)) (mdb_last L d))"

section \<open>The instance\<close>

text \<open>\<open>meta_round\<close> is what the table of metadata holds under \<^verbatim>\<open>persisted block\<close>.\<close>

record 'd LMDBInstance =
  table :: 'd
  meta_round :: "u64 option"
  env_open :: bool
  lmdb_round :: u64

definition new_instance :: "'d \<Rightarrow> 'd LMDBInstance" where
  "new_instance d = \<lparr>table = d, meta_round = None, env_open = False, lmdb_round = 0\<rparr>"

definition open_env :: "'d LMDBInstance \<Rightarrow> 'd LMDBInstance" where
  "open_env I = I\<lparr>env_open := True\<rparr>"

definition create_db :: "'d LMDBInstance \<Rightarrow> 'd LMDBInstance res" where
  "create_db I = (if \<not> env_open I then Inl (Runtime_error ''env not open'') else Inr (I\<lparr>lmdb_round := 0\<rparr>))"

definition open_db :: "'d LMDBInstance \<Rightarrow> 'd LMDBInstance res" where
  "open_db I =
     (if \<not> env_open I then Inl (Runtime_error ''env not open'')
      else case meta_round I of
        None \<Rightarrow> Inl (Runtime_error ''missing metadata contents'')
      | Some r \<Rightarrow> Inr (I\<lparr>lmdb_round := r\<rparr>))"

text \<open>The transaction \<open>d\<close> becomes the table.\<close>

definition commit_wtxn :: "'d \<Rightarrow> u64 \<Rightarrow> 'd LMDBInstance \<Rightarrow> 'd LMDBInstance res" where
  "commit_wtxn d persisted_round I =
     (if persisted_round < lmdb_round I then Inl (Runtime_error ''can't overwrite later round with earlier round'')
      else let I = I\<lparr>lmdb_round := persisted_round\<rparr>
           in Inr (if env_open I then I\<lparr>meta_round := Some persisted_round, table := d\<rparr> else I))"

section \<open>A table as a sorted list\<close>

text \<open>An instance of the parameter, for concrete runs.\<close>

fun list_entries :: "(byte list \<times> 'v) list \<Rightarrow> (byte list \<times> 'v) list" where
  "list_entries [] = []"
| "list_entries ((k, v) # d) = (k, v) # filter (\<lambda>(k', v'). k' \<noteq> k) (list_entries d)"

fun list_best :: "(byte list \<Rightarrow> byte list \<Rightarrow> bool) \<Rightarrow> byte list list \<Rightarrow> byte list option" where
  "list_best lt [] = None"
| "list_best lt (k # ks) = (case list_best lt ks of None \<Rightarrow> Some k | Some y \<Rightarrow> if lt k y then Some k else Some y)"

definition list_lmdb :: "('v, (byte list \<times> 'v) list) lmdb" where
  "list_lmdb =
     \<lparr>mdb_get = (\<lambda>k d. map_of d k), mdb_put = (\<lambda>k v d. (k, v) # filter (\<lambda>(k', v'). k' \<noteq> k) d),
      mdb_del = (\<lambda>k. filter (\<lambda>(k', v'). k' \<noteq> k)),
      mdb_set_range = (\<lambda>k d. list_best memcmp_less (filter (\<lambda>x. \<not> memcmp_less x k) (map fst d))),
      mdb_last = (\<lambda>d. list_best (\<lambda>x y. memcmp_less y x) (map fst d)),
      mdb_prev = (\<lambda>k d. list_best (\<lambda>x y. memcmp_less y x) (filter (\<lambda>x. memcmp_less x k) (map fst d))),
      mdb_entries = list_entries\<rparr>"

lemma map_of_filter_key: "map_of (filter (\<lambda>(k', v'). k' \<noteq> k) d) = (map_of d)(k := None)"
  by (rule ext, induction d) auto

lemma list_entries_laws: "map_of (list_entries d) = map_of d" "distinct (map fst (list_entries d))"
proof -
  show "map_of (list_entries d) = map_of d"
    by (induction d) (auto simp: map_of_filter_key fun_upd_upd)
  show "distinct (map fst (list_entries d))"
  proof (induction d)
    case (Cons x d)
    have "distinct (map fst (filter P (list_entries d)))" for P using Cons by (simp add: distinct_map_filter)
    then show ?case by (cases x) auto
  qed simp
qed

lemma list_best_spec:
  assumes "\<forall>k \<in> set ks. length k = n"
  shows "case list_best memcmp_less ks of None \<Rightarrow> ks = [] | Some y \<Rightarrow> y \<in> set ks \<and> (\<forall>x \<in> set ks. \<not> memcmp_less x y)"
    "case list_best (\<lambda>x y. memcmp_less y x) ks of None \<Rightarrow> ks = [] | Some y \<Rightarrow> y \<in> set ks \<and> (\<forall>x \<in> set ks. \<not> memcmp_less y x)"
  using assms by (induction ks) (auto simp: memcmp_less_be_nat split: option.splits if_splits)

lemma list_lmdb_laws: "lmdb_laws n list_lmdb"
proof -
  have fst: "dom (map_of d) = set (map fst d)" for d :: "(byte list \<times> 'v) list" by (simp add: dom_map_of_conv_image_fst)
  have best: "least_where P (set ks) (list_best memcmp_less (filter P ks))"
    "greatest_where P (set ks) (list_best (\<lambda>x y. memcmp_less y x) (filter P ks))" if "\<forall>k \<in> set ks. length k = n" for P ks
    using list_best_spec [of "filter P ks" n] that
    by (auto simp: least_where_def greatest_where_def filter_empty_conv split: option.splits)
  have map: "disk_map list_lmdb d = map_of d" for d :: "(byte list \<times> 'v) list"
    by (rule ext) (simp add: disk_map_def list_lmdb_def)
  show ?thesis
    unfolding lmdb_laws_def map fst
  proof (intro conjI allI impI)
    fix k :: "byte list" and d :: "(byte list \<times> 'a) list" assume "length k = n \<and> (\<forall>x \<in> set (map fst d). length x = n)"
    then have keys: "\<forall>x \<in> set (map fst d). length x = n" by blast
    show "least_where (\<lambda>x. \<not> memcmp_less x k) (set (map fst d)) (mdb_set_range list_lmdb k d)"
      "greatest_where (\<lambda>x. memcmp_less x k) (set (map fst d)) (mdb_prev list_lmdb k d)"
      using best [OF keys] by (simp_all add: list_lmdb_def)
    show "greatest_where (\<lambda>x. True) (set (map fst d)) (mdb_last list_lmdb d)"
      using best(2) [OF keys, of "\<lambda>x. True"] by (simp add: list_lmdb_def)
  qed (simp_all add: list_lmdb_def map_of_filter_key list_entries_laws)
qed

end
