(* ===== verification/Header_Map.thy ===== *)
theory Header_Map
  imports Lmdb_Wrapper Memory_Database
begin

text \<open>
  The hashes of the blocks by number, \<^verbatim>\<open>block_header_hash_map.h\<close> and \<^verbatim>\<open>block_header_hash_map.cc\<close>: a
  trie whose hash is part of every block, written to disk up to the block before the one persisted.
\<close>

section \<open>Operations\<close>

record 'd BlockHeaderHashMap =
  block_map :: "Hash MerkleTrie"
  header_lmdb :: "'d LMDBInstance"
  last_committed_block_number :: u64

definition new_header_map :: "'d LMDBInstance \<Rightarrow> 'd BlockHeaderHashMap" where
  "new_header_map I = \<lparr>block_map = empty_trie, header_lmdb = I, last_committed_block_number = 0\<rparr>"

abbreviation header_insert_fn :: "(key, Hash, Hash) insert_fn" where
  "header_insert_fn \<equiv> OverwriteInsertFn size_metadata (replicate 32 0)"

definition header_key :: "u64 \<Rightarrow> key res" where
  "header_key block_number = res_bind (write_unsigned_big_endian (replicate 8 0) block_number 0) (\<lambda>buf. Inr (bytes_key buf))"

text \<open>What both insertions do for block 0.\<close>

definition insert_genesis :: "Hash \<Rightarrow> 'd BlockHeaderHashMap \<Rightarrow> unit res" where
  "insert_genesis block_hash m =
     res_bind (if last_committed_block_number m \<noteq> 0 then Inr 1 else trie_size (root (block_map m))) (\<lambda>sz.
     if sz \<noteq> 0 then Inl (Runtime_error ''can't insert prev block 0 if we already have elements in block hash map'')
     else if block_hash \<noteq> replicate 32 0 then Inl (Runtime_error ''can't have genesis block with nonzero hash'')
     else Inr ())"

definition insert_for_production :: "u64 \<Rightarrow> Hash \<Rightarrow> 'd BlockHeaderHashMap \<Rightarrow> 'd BlockHeaderHashMap res" where
  "insert_for_production block_number block_hash m =
     (if block_number = 0 then res_bind (insert_genesis block_hash m) (\<lambda>_. Inr m)
      else if block_number \<noteq> last_committed_block_number m + 1 then Inl (Runtime_error ''inserting wrong block number'')
      else res_bind (header_key block_number) (\<lambda>key_buf.
           res_bind (trie_insert header_insert_fn key_buf block_hash (block_map m)) (\<lambda>T.
           Inr (m\<lparr>block_map := T, last_committed_block_number := block_number\<rparr>))))"

definition tentative_insert_for_validation :: "u64 \<Rightarrow> Hash \<Rightarrow> 'd BlockHeaderHashMap \<Rightarrow> (bool \<times> 'd BlockHeaderHashMap) res" where
  "tentative_insert_for_validation block_number block_hash m =
     (if block_number = 0 then res_bind (insert_genesis block_hash m) (\<lambda>_. Inr (True, m))
      else if block_number \<noteq> last_committed_block_number m then Inr (False, m)
      else res_bind (header_key block_number) (\<lambda>key_buf.
           res_bind (trie_insert header_insert_fn key_buf block_hash (block_map m)) (\<lambda>T.
           Inr (True, m\<lparr>block_map := T\<rparr>))))"

definition header_rollback_validation :: "'d BlockHeaderHashMap \<Rightarrow> 'd BlockHeaderHashMap res" where
  "header_rollback_validation m =
     res_bind (header_key (last_committed_block_number m + 1)) (\<lambda>key_buf.
     res_bind (trie_perform_deletion key_buf (block_map m)) (\<lambda>(_, T). Inr (m\<lparr>block_map := T\<rparr>)))"

definition header_finalize_validation :: "u64 \<Rightarrow> 'd BlockHeaderHashMap \<Rightarrow> 'd BlockHeaderHashMap res" where
  "header_finalize_validation finalized_block_number m =
     (if finalized_block_number < last_committed_block_number m then Inl (Runtime_error ''can't finalize prior block'')
      else Inr (m\<lparr>last_committed_block_number := finalized_block_number\<rparr>))"

section \<open>Persistence\<close>

text \<open>The hashes of the blocks from the persisted one up to the one before the current one; there is no block 0.\<close>

fun put_headers :: "(Hash, 'd) lmdb \<Rightarrow> Hash MerkleTrie \<Rightarrow> nat list \<Rightarrow> 'd \<Rightarrow> 'd res" where
  "put_headers L T [] d = Inr d"
| "put_headers L T (i # is) d =
     (if i = 0 then put_headers L T is d
      else res_bind (write_unsigned_big_endian (replicate 8 0) (of_nat i :: u64) 0) (\<lambda>round_buf.
           res_bind (node_get_value (bytes_key round_buf) (root T)) (\<lambda>hash_opt.
           case hash_opt of
             None \<Rightarrow> Inl (Runtime_error ''did not find hash in hash_map!'')
           | Some h \<Rightarrow> put_headers L T is (mdb_put L round_buf h d))))"

definition header_persist_lmdb :: "(Hash, 'd) lmdb \<Rightarrow> u64 \<Rightarrow> 'd BlockHeaderHashMap \<Rightarrow> 'd BlockHeaderHashMap res" where
  "header_persist_lmdb L current_block_number m =
     (if \<not> env_open (header_lmdb m) then Inr m
      else res_bind (put_headers L (block_map m) [unat (lmdb_round (header_lmdb m)) ..< unat current_block_number] (table (header_lmdb m))) (\<lambda>d.
           res_bind (commit_wtxn d current_block_number (header_lmdb m)) (\<lambda>I. Inr (m\<lparr>header_lmdb := I\<rparr>))))"

fun load_headers :: "u64 \<Rightarrow> (byte list \<times> Hash) list \<Rightarrow> Hash MerkleTrie \<Rightarrow> Hash MerkleTrie res" where
  "load_headers persisted_round [] T = Inr T"
| "load_headers persisted_round ((bytes, h) # kvs) T =
     (let round_number = read_unsigned_big_endian bytes :: u64 in
      if persisted_round < round_number then Inl (Runtime_error ''lmdb contains round idx beyond committed max'')
      else res_bind (header_key round_number) (\<lambda>round_buf.
        if length h \<noteq> 32 then Inl (Runtime_error ''invalid value size'')
        else res_bind (trie_insert header_insert_fn round_buf h T) (load_headers persisted_round kvs)))"

definition header_load_lmdb_contents_to_memory :: "(Hash, 'd) lmdb \<Rightarrow> 'd BlockHeaderHashMap \<Rightarrow> 'd BlockHeaderHashMap res" where
  "header_load_lmdb_contents_to_memory L m =
     res_bind (load_headers (lmdb_round (header_lmdb m)) (mdb_entries L (table (header_lmdb m))) (block_map m)) (\<lambda>T.
     Inr (m\<lparr>block_map := T, last_committed_block_number := lmdb_round (header_lmdb m)\<rparr>))"

text \<open>\<open>LoadLMDBHeaderMap\<close> inserts only blocks that are not persisted yet.\<close>

definition insert_for_loading :: "u64 \<Rightarrow> u64 \<Rightarrow> Hash \<Rightarrow> 'd BlockHeaderHashMap \<Rightarrow> 'd BlockHeaderHashMap res" where
  "insert_for_loading current_block_number block_number block_hash m =
     (if lmdb_round (header_lmdb m) < current_block_number then insert_for_production block_number block_hash m else Inr m)"

section \<open>The map of a chain\<close>

lemma header_key_eq [simp]: "header_key n = Inr (account_key n)"
  by (simp add: header_key_def write_unsigned_big_endian_def write_bytes_at_eq account_key_def)

definition header_leaf :: "Hash \<Rightarrow> Hash \<times> Metadata" where
  "header_leaf h = (h, size_metadata h)"

text \<open>The hashes of the blocks 1 to \<open>n\<close>.\<close>

primrec chain_map :: "(nat \<Rightarrow> Hash) \<Rightarrow> nat \<Rightarrow> key \<Rightarrow> (Hash \<times> Metadata) option" where
  "chain_map h 0 = Map.empty"
| "chain_map h (Suc n) = (chain_map h n)(account_key (of_nat (Suc n)) \<mapsto> header_leaf (h (Suc n)))"

definition header_inv :: "Hash hash_env \<Rightarrow> (nat \<Rightarrow> Hash) \<Rightarrow> nat \<Rightarrow> Hash MerkleTrie \<Rightarrow> bool" where
  "header_inv E h n T \<longleftrightarrow> trie_inv 16 T \<and> hash_inv E T \<and> leaf_map (root T) = chain_map h n"

lemma chain_map_iff:
  "n < 2 ^ 64 \<Longrightarrow> chain_map h n (account_key a) = (if 1 \<le> unat a \<and> unat a \<le> n then Some (header_leaf (h (unat a))) else None)"
proof (induction n)
  case (Suc n)
  have "a = of_nat (Suc n) \<longleftrightarrow> unat a = Suc n"
    using Suc.prems unat_of_nat_small [of "Suc n", where 'a = 64] unat_inject [of a "of_nat (Suc n)"] by simp
  then show ?case using Suc by (auto simp: le_Suc_eq)
qed (simp add: le_Suc_eq)

lemma insert_header:
  assumes "header_inv E h n T"
  shows "\<exists>T'. trie_insert header_insert_fn (account_key (of_nat (Suc n))) (h (Suc n)) T = Inr T' \<and> header_inv E h (Suc n) T'"
  using assms overwrite_trie.insert_refines [of 16 T "account_key (of_nat (Suc n))" size_metadata "replicate 32 0" "h (Suc n)" E]
  by (auto simp: header_inv_def refines_def Let_def size_metadata_def header_leaf_def)

lemma header_inv_empty: "header_inv E h 0 empty_trie"
  by (simp add: header_inv_def empty_trie_inv)

text \<open>
  A producer that has inserted the hashes of the blocks before block \<open>n + 1\<close>, and a validator that has finalised
  block \<open>n + 1\<close>.
\<close>

fun produce_headers :: "(nat \<Rightarrow> Hash) \<Rightarrow> nat \<Rightarrow> 'd BlockHeaderHashMap \<Rightarrow> 'd BlockHeaderHashMap res" where
  "produce_headers h 0 m = insert_for_production 0 (h 0) m"
| "produce_headers h (Suc n) m = res_bind (produce_headers h n m) (insert_for_production (of_nat (Suc n)) (h (Suc n)))"

definition validate_header :: "nat \<Rightarrow> Hash \<Rightarrow> 'd BlockHeaderHashMap \<Rightarrow> 'd BlockHeaderHashMap res" where
  "validate_header n block_hash m =
     res_bind (tentative_insert_for_validation (of_nat n) block_hash m) (\<lambda>(ok, m).
     if ok then header_finalize_validation (of_nat (n + 1)) m else Inl (Runtime_error ''couldn't insert block hash''))"

fun validate_headers :: "(nat \<Rightarrow> Hash) \<Rightarrow> nat \<Rightarrow> 'd BlockHeaderHashMap \<Rightarrow> 'd BlockHeaderHashMap res" where
  "validate_headers h 0 m = validate_header 0 (h 0) m"
| "validate_headers h (Suc n) m = res_bind (validate_headers h n m) (validate_header (Suc n) (h (Suc n)))"

lemma genesis_new: "h = replicate 32 0 \<Longrightarrow> insert_genesis h (new_header_map I) = Inr ()"
proof -
  have "trie_size (root (empty_trie :: Hash MerkleTrie)) = Inr 0" by code_simp
  then show "h = replicate 32 0 \<Longrightarrow> insert_genesis h (new_header_map I) = Inr ()"
    by (simp add: insert_genesis_def new_header_map_def)
qed

lemma of_nat_neq: "0 < n \<Longrightarrow> n < 2 ^ 64 \<Longrightarrow> (of_nat n :: u64) \<noteq> 0" "m < n \<Longrightarrow> n < 2 ^ 64 \<Longrightarrow> (of_nat m :: u64) \<noteq> of_nat n"
  using unat_of_nat_small [of n, where 'a = 64] unat_of_nat_small [of m, where 'a = 64] by force+

lemma header_maps_of_chain:
  assumes "h 0 = replicate 32 0" "n + 1 < 2 ^ 64"
  shows "\<exists>T. produce_headers h n (new_header_map I) = Inr ((new_header_map I)\<lparr>block_map := T, last_committed_block_number := of_nat n\<rparr>) \<and>
    validate_headers h n (new_header_map I) = Inr ((new_header_map I)\<lparr>block_map := T, last_committed_block_number := of_nat (n + 1)\<rparr>) \<and>
    header_inv E h n T"
  using assms
proof (induction n)
  case 0
  then show ?case using header_inv_empty [of E h]
    by (intro exI [of _ empty_trie])
      (simp add: insert_for_production_def validate_header_def tentative_insert_for_validation_def genesis_new header_finalize_validation_def, simp add: new_header_map_def)
next
  case (Suc n)
  then obtain T where T: "produce_headers h n (new_header_map I) = Inr ((new_header_map I)\<lparr>block_map := T, last_committed_block_number := of_nat n\<rparr>)"
    "validate_headers h n (new_header_map I) = Inr ((new_header_map I)\<lparr>block_map := T, last_committed_block_number := of_nat (n + 1)\<rparr>)"
    "header_inv E h n T" by auto
  obtain T' where T': "trie_insert header_insert_fn (account_key (of_nat (Suc n))) (h (Suc n)) T = Inr T'" "header_inv E h (Suc n) T'"
    using insert_header [OF T(3)] by blast
  have n: "(of_nat (Suc n) :: u64) \<noteq> 0" using Suc.prems by (intro of_nat_neq) simp_all
  have le: "\<not> (of_nat (Suc n + 1) :: u64) < of_nat (Suc n)"
  proof -
    have u: "unat (of_nat (Suc n + 1) :: u64) = Suc n + 1" "unat (of_nat (Suc n) :: u64) = Suc n"
      by (rule unat_of_nat_small, use Suc.prems in simp)+
    show ?thesis unfolding word_less_nat_alt u by simp
  qed
  have p: "insert_for_production (of_nat (Suc n)) (h (Suc n)) ((new_header_map I)\<lparr>block_map := T, last_committed_block_number := of_nat n\<rparr>) =
      Inr ((new_header_map I)\<lparr>block_map := T', last_committed_block_number := of_nat (Suc n)\<rparr>)"
    using n T'(1) by (simp add: insert_for_production_def add.commute)
  have v: "validate_header (Suc n) (h (Suc n)) ((new_header_map I)\<lparr>block_map := T, last_committed_block_number := of_nat (n + 1)\<rparr>) =
      Inr ((new_header_map I)\<lparr>block_map := T', last_committed_block_number := of_nat (Suc n + 1)\<rparr>)"
    using n T'(1) le by (simp add: validate_header_def tentative_insert_for_validation_def header_finalize_validation_def add.commute)
  show ?case using T(1,2) p v T'(2) by auto
qed

section \<open>Failed validation and restart\<close>

text \<open>
  The hash that a failed validation inserted stays in the map: the roll back deletes the next number.
\<close>

lemma chain_map_card: "card (dom (chain_map h n)) \<le> n \<and> finite (dom (chain_map h n))"
proof (induction n)
  case (Suc n)
  then have "card (insert (account_key (of_nat (Suc n))) (dom (chain_map h n))) \<le> Suc n" by (simp only: card_insert_if split: if_split) simp
  then show ?case using Suc by (simp only: chain_map.simps dom_fun_upd option.distinct if_False finite_insert simp_thms)
qed simp

lemma header_inv_few: "header_inv E h n T \<Longrightarrow> n < 2 ^ 32 \<Longrightarrow> few_leaves T"
  using chain_map_card [of h n] by (simp add: header_inv_def few_leaves_def)

lemma delete_absent_header:
  assumes T: "header_inv E h n T" and n: "n + 1 < 2 ^ 32"
  shows "\<exists>T'. trie_perform_deletion (account_key (of_nat (n + 1))) T = Inr (None, T') \<and> header_inv E h n T'"
proof -
  let ?k = "account_key (of_nat (n + 1))"
  have u: "unat (of_nat (n + 1) :: u64) = n + 1" by (rule unat_of_nat_small) (use n in simp)
  have none: "chain_map h n ?k = None" using chain_map_iff [of n h "of_nat (n + 1)"] n unfolding u by simp
  then have "trie_map (root T) ?k = None" using T by (simp add: trie_map_leaf_map header_inv_def)
  then obtain T' where T': "trie_perform_deletion ?k T = Inr (None, T')" "refines 16 T T' ((leaf_map (root T))(?k := None))" "hash_inv E T \<longrightarrow> hash_inv E T'"
    using deletion_refines [of 16 T ?k E] header_inv_few [OF T] n T by (auto simp: header_inv_def)
  have "(chain_map h n)(?k := None) = chain_map h n" using none by (auto simp: fun_eq_iff)
  then have "header_inv E h n T'" using T'(2,3) T by (simp add: refines_def header_inv_def)
  then show ?thesis using T'(1) by blast
qed

lemma rollback_keeps_header:
  assumes T: "header_inv E h n (block_map m)" and n: "n + 2 < 2 ^ 32" and m: "last_committed_block_number m = of_nat (n + 1)"
  shows "\<exists>m1 m2. tentative_insert_for_validation (of_nat (n + 1)) (h (n + 1)) m = Inr (True, m1) \<and>
    header_rollback_validation m1 = Inr m2 \<and> header_inv E h (n + 1) (block_map m2) \<and> last_committed_block_number m2 = of_nat (n + 1)"
proof -
  obtain T1 where T1: "trie_insert header_insert_fn (account_key (of_nat (Suc n))) (h (Suc n)) (block_map m) = Inr T1" "header_inv E h (n + 1) T1"
    using insert_header [OF T] by auto
  obtain T2 where T2: "trie_perform_deletion (account_key (of_nat (n + 1 + 1))) T1 = Inr (None, T2)" "header_inv E h (n + 1) T2"
    using delete_absent_header [OF T1(2)] n by auto
  have nz: "(of_nat (Suc n) :: u64) \<noteq> 0" using n by (intro of_nat_neq) simp_all
  have "tentative_insert_for_validation (of_nat (n + 1)) (h (n + 1)) m = Inr (True, m\<lparr>block_map := T1\<rparr>)"
    using T1(1) nz m by (simp add: tentative_insert_for_validation_def)
  moreover have "header_rollback_validation (m\<lparr>block_map := T1\<rparr>) = Inr (m\<lparr>block_map := T2\<rparr>)"
  proof -
    have "last_committed_block_number m + 1 = of_nat (n + 1 + 1)" unfolding m by simp
    then show ?thesis using T2(1) by (simp add: header_rollback_validation_def)
  qed
  ultimately show ?thesis using T2(2) m by auto
qed

text \<open>What the disk holds after a persisted chain.\<close>

primrec disk_chain :: "(nat \<Rightarrow> Hash) \<Rightarrow> nat \<Rightarrow> byte list \<Rightarrow> Hash option" where
  "disk_chain h 0 = Map.empty"
| "disk_chain h (Suc n) = (disk_chain h n)(big_endian_bytes 8 (of_nat (Suc n) :: u64) \<mapsto> h (Suc n))"

lemma chain_map_disk: "chain_map h n (bytes_key b) = map_option header_leaf (disk_chain h n b)"
  by (induction n) (auto simp: account_key_def bytes_key_inject)

lemma chain_map_range: "chain_map h n k = Some v \<Longrightarrow> \<exists>b. k = bytes_key b"
  by (induction n) (auto simp: account_key_def split: if_splits)

lemma disk_chain_entry: "n < 2 ^ 64 \<Longrightarrow> disk_chain h n b = Some v \<Longrightarrow> \<exists>i. i \<le> n \<and> b = big_endian_bytes 8 (of_nat i :: u64) \<and> v = h i"
proof (induction n)
  case (Suc n)
  then show ?case by (cases "b = big_endian_bytes 8 (of_nat (Suc n) :: u64)") (auto intro: le_SucI)
qed simp

lemma put_headers_append: "put_headers L T (xs @ ys) d = res_bind (put_headers L T xs d) (put_headers L T ys)"
proof -
  have "res_bind (case x of None \<Rightarrow> Inl e | Some v \<Rightarrow> f v) g = (case x of None \<Rightarrow> Inl e | Some v \<Rightarrow> res_bind (f v) g)"
    for x :: "Hash option" and e and f :: "Hash \<Rightarrow> 'a res" and g :: "'a \<Rightarrow> 'a res"
    by (cases x) simp_all
  then show ?thesis by (induction xs arbitrary: d) simp_all
qed

lemma write_round [simp]: "write_unsigned_big_endian (replicate 8 0) (x :: u64) 0 = Inr (big_endian_bytes 8 x)"
  by (simp add: write_unsigned_big_endian_def write_bytes_at_eq)

lemma header_present:
  assumes T: "header_inv E h n T" and i: "0 < i" "i \<le> n" and n: "n < 2 ^ 64"
  shows "node_get_value (account_key (of_nat i)) (root T) = Inr (Some (h i))"
proof -
  have u: "unat (of_nat i :: u64) = i" by (rule unat_of_nat_small) (use i n in simp)
  have "leaf_map (root T) (account_key (of_nat i)) = Some (header_leaf (h i))"
    using T i n by (simp add: header_inv_def chain_map_iff u)
  then have v: "trie_map (root T) (account_key (of_nat i)) = Some (h i)" by (simp add: trie_map_leaf_map header_leaf_def)
  have "wf_trie 16 (root T)" using T by (simp add: header_inv_def trie_inv_def)
  then show ?thesis
  proof (cases rule: wf_trie_cases)
    case 1
    then have "trie_map (root T) = Map.empty" by (cases "root T") (auto simp: is_empty_node_def trie_map_def)
    then show ?thesis using v by simp
  next
    case 2
    then show ?thesis using v by (intro node_get_value_present) simp_all
  qed
qed

lemma put_headers_chain:
  assumes T: "header_inv E h n T" and n: "n < 2 ^ 64" and L: "lmdb_laws 8 L" "disk_map L d = Map.empty"
  shows "m \<le> n \<Longrightarrow> \<exists>d'. put_headers L T [0 ..< Suc m] d = Inr d' \<and> disk_map L d' = disk_chain h m"
proof (induction m)
  case (Suc m)
  then obtain d' where d': "put_headers L T [0 ..< Suc m] d = Inr d'" "disk_map L d' = disk_chain h m" by auto
  have "node_get_value (account_key (of_nat (Suc m))) (root T) = Inr (Some (h (Suc m)))"
    by (rule header_present [OF T _ Suc.prems n]) simp
  then have "put_headers L T [Suc m] d' = Inr (mdb_put L (big_endian_bytes 8 (of_nat (Suc m) :: u64)) (h (Suc m)) d')"
    by (simp add: account_key_def)
  moreover have "disk_map L (mdb_put L k v d') = (disk_map L d')(k \<mapsto> v)" for k v using L(1) by (simp add: lmdb_laws_def)
  moreover have "[0 ..< Suc (Suc m)] = [0 ..< Suc m] @ [Suc m]" by simp
  ultimately show ?case using d' by (simp only: put_headers_append res_bind_simps disk_chain.simps) blast
qed (simp add: L(2))

lemma load_headers_entries:
  assumes "trie_inv 16 T" "hash_inv E T" "\<forall>(b, v) \<in> set kvs. \<exists>i :: u64. b = big_endian_bytes 8 i \<and> i \<le> r \<and> length v = 32" "distinct (map fst kvs)"
  shows "\<exists>T'. load_headers r kvs T = Inr T' \<and> trie_inv 16 T' \<and> hash_inv E T' \<and>
    leaf_map (root T') = leaf_map (root T) ++ map_of (map (\<lambda>(b, v). (bytes_key b, header_leaf v)) kvs)"
  using assms
proof (induction kvs arbitrary: T)
  case (Cons kv kvs)
  obtain i v where kv: "kv = (big_endian_bytes 8 (i :: u64), v)" "i \<le> r" "length v = 32" using Cons.prems(3) by (cases kv) auto
  obtain T1 where T1: "trie_insert header_insert_fn (account_key i) v T = Inr T1" "trie_inv 16 T1" "hash_inv E T1"
    "leaf_map (root T1) = (leaf_map (root T))(account_key i \<mapsto> header_leaf v)"
    using overwrite_trie.insert_refines [of 16 T "account_key i" size_metadata "replicate 32 0" v E] Cons.prems(1,2)
    by (auto simp: refines_def Let_def size_metadata_def header_leaf_def)
  obtain T' where T': "load_headers r kvs T1 = Inr T'" "trie_inv 16 T'" "hash_inv E T'"
    "leaf_map (root T') = leaf_map (root T1) ++ map_of (map (\<lambda>(b, v). (bytes_key b, header_leaf v)) kvs)"
    using Cons.IH [OF T1(2,3)] Cons.prems(3,4) by auto
  have "read_unsigned_big_endian (big_endian_bytes 8 i) = i" using read_unsigned_of_bytes [of i "[]"] by simp
  then have "load_headers r (kv # kvs) T = Inr T'" using kv T1(1) T'(1) by (simp add: Let_def)
  moreover have "account_key i \<notin> dom (map_of (map (\<lambda>(b, v). (bytes_key b, header_leaf v)) kvs))"
  proof
    assume "account_key i \<in> dom (map_of (map (\<lambda>(b, v). (bytes_key b, header_leaf v)) kvs))"
    then obtain b v' where b: "(b, v') \<in> set kvs" "bytes_key b = account_key i" unfolding dom_map_of_conv_image_fst by force
    then have "b = big_endian_bytes 8 i" by (simp add: account_key_def bytes_key_inject)
    then show False using b(1) Cons.prems(4) kv(1) by force
  qed
  then have "leaf_map (root T') = leaf_map (root T) ++ map_of (map (\<lambda>(b, v). (bytes_key b, header_leaf v)) (kv # kvs))"
    unfolding T'(4) T1(4) using kv(1) by (simp add: map_add_upd_left account_key_def)
  ultimately show ?case using T'(2,3) by blast
qed simp

lemma restart_headers:
  assumes L: "lmdb_laws 8 L" "disk_map L d = Map.empty" and h: "\<forall>i. length (h i) = 32" and n: "n + 1 < 2 ^ 64"
    and m: "header_inv E h n (block_map m)" "header_lmdb m = (new_instance d)\<lparr>env_open := True\<rparr>"
  shows "\<exists>I m'. header_persist_lmdb L (of_nat (n + 1)) m = Inr (m\<lparr>header_lmdb := I\<rparr>) \<and>
    header_load_lmdb_contents_to_memory L (new_header_map I) = Inr m' \<and> header_inv E h n (block_map m') \<and>
    last_committed_block_number m' = of_nat (n + 1)"
proof -
  have u: "unat (of_nat (n + 1) :: u64) = n + 1" by (rule unat_of_nat_small) (use n in simp)
  obtain d' where d': "put_headers L (block_map m) [0 ..< Suc n] d = Inr d'" "disk_map L d' = disk_chain h n"
    using put_headers_chain [OF m(1) _ L, of n] n by auto
  define I where "I = (new_instance d)\<lparr>env_open := True, lmdb_round := of_nat (n + 1), meta_round := Some (of_nat (n + 1)), table := d'\<rparr>"
  have persist: "header_persist_lmdb L (of_nat (n + 1)) m = Inr (m\<lparr>header_lmdb := I\<rparr>)"
  proof -
    have "put_headers L (block_map m) [unat (0 :: u64) ..< unat (of_nat (n + 1) :: u64)] d = Inr d'" unfolding u using d'(1) by simp
    then show ?thesis by (simp add: header_persist_lmdb_def m(2) commit_wtxn_def Let_def new_instance_def I_def)
  qed
  let ?kvs = "mdb_entries L d'"
  have kvs: "map_of ?kvs = disk_chain h n" "distinct (map fst ?kvs)" using L(1) d'(2) by (simp_all add: lmdb_laws_def)
  have entries: "\<exists>i :: u64. b = big_endian_bytes 8 i \<and> i \<le> of_nat (n + 1) \<and> length v = 32" if bv: "(b, v) \<in> set ?kvs" for b v
  proof -
    have "disk_chain h n b = Some v" using bv kvs by (metis map_of_is_SomeI)
    then obtain i where i: "i \<le> n" "b = big_endian_bytes 8 (of_nat i :: u64)" "v = h i" using disk_chain_entry [of n h b v] n by auto
    have "unat (of_nat i :: u64) = i" by (rule unat_of_nat_small) (use i n in simp)
    then have "(of_nat i :: u64) \<le> of_nat (n + 1)" using i(1) unfolding word_le_nat_alt u by simp
    then show ?thesis using i h by blast
  qed
  obtain T' where T': "load_headers (of_nat (n + 1)) ?kvs empty_trie = Inr T'" "trie_inv 16 T'" "hash_inv E T'"
    "leaf_map (root T') = leaf_map (root empty_trie) ++ map_of (map (\<lambda>(b, v). (bytes_key b, header_leaf v)) ?kvs)"
    using load_headers_entries [of empty_trie E ?kvs "of_nat (n + 1)"] entries kvs(2) by (auto simp: empty_trie_inv)
  have "map_of (map (\<lambda>(b, v). (bytes_key b, header_leaf v)) xs) k = chain_map h n k"
    if eq: "map_of xs = disk_chain h n" for xs k
  proof (cases "\<exists>b. k = bytes_key b")
    case True
    then obtain b where b: "k = bytes_key b" by blast
    have "map_of (map (\<lambda>(b, v). (bytes_key b, header_leaf v)) xs) (bytes_key b) = map_option header_leaf (map_of xs b)" for xs
      by (induction xs) (auto simp: bytes_key_inject)
    from this [of xs] show ?thesis unfolding b chain_map_disk eq .
  next
    case False
    then have "chain_map h n k = None" using chain_map_range by (cases "chain_map h n k") blast+
    moreover have "map_of (map (\<lambda>(b, v). (bytes_key b, header_leaf v)) xs) k = None" using False by (auto simp: map_of_eq_None_iff)
    ultimately show ?thesis by simp
  qed
  then have "header_inv E h n T'" using T' kvs(1) by (simp add: header_inv_def empty_trie_inv fun_eq_iff)
  moreover have "header_load_lmdb_contents_to_memory L (new_header_map I) =
      Inr ((new_header_map I)\<lparr>block_map := T', last_committed_block_number := of_nat (n + 1)\<rparr>)"
    using T'(1) by (simp add: header_load_lmdb_contents_to_memory_def new_header_map_def I_def)
  ultimately show ?thesis using persist by auto
qed

text \<open>The two roles count differently: a number that has the next block in it, or the last one.\<close>

lemma header_roles:
  assumes n: "n + 2 < 2 ^ 64"
  shows "last_committed_block_number m = of_nat n \<Longrightarrow> tentative_insert_for_validation (of_nat (n + 1)) hash m = Inr (False, m)"
    "last_committed_block_number m = of_nat (n + 1) \<Longrightarrow>
      insert_for_production (of_nat (n + 1)) hash m = Inl (Runtime_error ''inserting wrong block number'')"
proof -
  have ne: "(of_nat (n + 1) :: u64) \<noteq> 0" "(of_nat n :: u64) \<noteq> of_nat (n + 1)" "(of_nat (n + 1) :: u64) \<noteq> of_nat (n + 2)"
    by (rule of_nat_neq, use n in simp, use n in simp)+
  show "last_committed_block_number m = of_nat n \<Longrightarrow> tentative_insert_for_validation (of_nat (n + 1)) hash m = Inr (False, m)"
    using ne by (simp add: tentative_insert_for_validation_def)
  assume m: "last_committed_block_number m = of_nat (n + 1)"
  have "last_committed_block_number m + 1 = of_nat (n + 2)" unfolding m by simp
  then show "insert_for_production (of_nat (n + 1)) hash m = Inl (Runtime_error ''inserting wrong block number'')"
    using ne(1,3) by (simp only: insert_for_production_def) simp
qed

end
