(* ===== verification/Work_Unit_Disk.thy ===== *)
theory Work_Unit_Disk
  imports Lmdb_Wrapper Work_Unit_Undo
begin

text \<open>
  Writing a market to disk, \<open>write_thunks\<close>, \<open>persist_lmdb\<close> and \<open>load_lmdb_contents_to_memory\<close> of
  \<^verbatim>\<open>merkle_work_unit.cc\<close>.  The table holds the open offers by key; the thunks of several blocks are written
  together, in phases.
\<close>

section \<open>The phases\<close>

text \<open>
  Phase 1 deletes what the blocks cancelled and finds the highest key at which one of them executed an offer in
  part; \<open>None\<close> while no block has.
\<close>

fun delete_keys :: "(Offer, 'd) lmdb \<Rightarrow> (key \<times> Offer) list \<Rightarrow> 'd \<Rightarrow> 'd" where
  "delete_keys L [] d = d"
| "delete_keys L ((k, offer) # kvs) d = delete_keys L kvs (mdb_del L (get_bytes_array k) d)"

fun write_cancellations ::
    "(Offer, 'd) lmdb \<Rightarrow> WorkUnitLMDBCommitmentThunk list \<Rightarrow> bool \<Rightarrow> key \<Rightarrow> 'd \<Rightarrow> (bool \<times> key \<times> 'd) res" where
  "write_cancellations L [] key_set key_buf d = Inr (key_set, key_buf, d)"
| "write_cancellations L (th # ths) key_set key_buf d =
     (let d = delete_keys L (deleted_keys th) d in
      case exists_partial_exec th of
        None \<Rightarrow> Inl Undefined
      | Some False \<Rightarrow> write_cancellations L ths key_set key_buf d
      | Some True \<Rightarrow>
          write_cancellations L ths True (if key_less key_buf (partial_exec_key th) then partial_exec_key th else key_buf) d)"

text \<open>Phase 2 deletes from a cursor downwards: everything, or the keys below the one that phase 1 found.\<close>

partial_function (option) delete_downwards :: "(Offer, 'd) lmdb \<Rightarrow> byte list option \<Rightarrow> 'd \<Rightarrow> 'd option" where
  "delete_downwards L cursor d =
     (case cursor of
        None \<Rightarrow> Some d
      | Some k \<Rightarrow> let d = mdb_del L k d in delete_downwards L (mdb_prev L k d) d)"

definition write_executions :: "(Offer, 'd) lmdb \<Rightarrow> bool \<Rightarrow> key \<Rightarrow> 'd \<Rightarrow> 'd res" where
  "write_executions L key_set key_buf d =
     (let cursor = (case mdb_set_range L (get_bytes_array key_buf) d of
                      None \<Rightarrow> mdb_last L d
                    | Some k \<Rightarrow> if key_set then mdb_prev L k d else mdb_last L d)
      in res_of_option Diverges (delete_downwards L cursor d))"

text \<open>
  Phase 3 goes from the newest block to the oldest and inserts the new offers that no later block executed, from
  the highest key of a block down to the first one that was executed.
\<close>

fun put_offers :: "(Offer, 'd) lmdb \<Rightarrow> key \<Rightarrow> price \<Rightarrow> Offer list \<Rightarrow> 'd \<Rightarrow> 'd res" where
  "put_offers L key_buf min_exec_price [] d = Inr d"
| "put_offers L key_buf min_exec_price (offer # os) d =
     (if offer_amount offer = 0 then Inl (Runtime_error ''tried to persist an amount 0 offer!'')
      else if min_exec_price \<le> minPrice offer
      then res_bind (generate_offer_key offer) (\<lambda>offer_key_buf.
           if min_exec_price < minPrice offer \<or> \<not> key_less offer_key_buf key_buf
           then put_offers L key_buf min_exec_price os (mdb_put L (get_bytes_array offer_key_buf) offer d)
           else Inr d)
      else Inr d)"

fun write_new_offers :: "(Offer, 'd) lmdb \<Rightarrow> WorkUnitLMDBCommitmentThunk list \<Rightarrow> key \<Rightarrow> 'd \<Rightarrow> 'd res" where
  "write_new_offers L [] key_buf d = Inr d"
| "write_new_offers L (th # newest_first) key_buf d =
     (let key_buf = (if key_less key_buf (partial_exec_key th) then partial_exec_key th else key_buf);
          min_exec_price = read_price_big_endian (get_bytes_array key_buf)
      in res_bind (put_offers L key_buf min_exec_price (rev (uncommitted_offers_vec th)) d)
           (write_new_offers L newest_first key_buf))"

text \<open>Phase 4 subtracts what was executed in part from the offers that are on disk.  \<open>amount\<close> is unsigned.\<close>

fun write_partial_executions :: "(Offer, 'd) lmdb \<Rightarrow> WorkUnitLMDBCommitmentThunk list \<Rightarrow> 'd \<Rightarrow> 'd res" where
  "write_partial_executions L [] d = Inr d"
| "write_partial_executions L (th # ths) d =
     (let k = get_bytes_array (partial_exec_key th) in
      case exists_partial_exec th of
        None \<Rightarrow> Inl Undefined
      | Some False \<Rightarrow> write_partial_executions L ths d
      | Some True \<Rightarrow>
          (case mdb_get L k d of
             None \<Rightarrow> write_partial_executions L ths d
           | Some offer \<Rightarrow>
               if offer_amount offer < partial_exec_amount th
               then Inl (Runtime_error ''can't have partial exec offer.amount < thunk[i].partial_exec_amount'')
               else let offer = offer\<lparr>offer_amount := offer_amount offer - partial_exec_amount th\<rparr> in
                 if sint (partial_exec_amount th) < 0 then Inl (Runtime_error ''invalid thunks[i].partial_exec_amount'')
                 else if 0 < offer_amount offer then write_partial_executions L ths (mdb_put L k offer d)
                 else write_partial_executions L ths (mdb_del L k d)))"

text \<open>Phase 5 deletes an offer that was executed in part if a later block went beyond its key.\<close>

fun delete_cleared :: "(Offer, 'd) lmdb \<Rightarrow> key \<Rightarrow> WorkUnitLMDBCommitmentThunk list \<Rightarrow> 'd \<Rightarrow> 'd" where
  "delete_cleared L k [] d = d"
| "delete_cleared L k (future # ths) d =
     delete_cleared L k ths (if key_less k (partial_exec_key future) then mdb_del L (get_bytes_array k) d else d)"

fun write_cleared_later :: "(Offer, 'd) lmdb \<Rightarrow> WorkUnitLMDBCommitmentThunk list \<Rightarrow> 'd \<Rightarrow> 'd res" where
  "write_cleared_later L [] d = Inr d"
| "write_cleared_later L (th # ths) d =
     (case exists_partial_exec th of
        None \<Rightarrow> Inl Undefined
      | Some False \<Rightarrow> write_cleared_later L ths d
      | Some True \<Rightarrow> write_cleared_later L ths (delete_cleared L (partial_exec_key th) ths d))"

section \<open>Writing\<close>

definition write_phases :: "(Offer, 'd) lmdb \<Rightarrow> WorkUnitLMDBCommitmentThunk list \<Rightarrow> 'd \<Rightarrow> 'd res" where
  "write_phases L relevant d =
     res_bind (write_cancellations L relevant False (replicate (2 * WORKUNIT_KEY_LEN) 0) d) (\<lambda>(key_set, key_buf, d).
     res_bind (write_executions L key_set key_buf d) (\<lambda>d.
     res_bind (write_new_offers L (rev relevant) (replicate (2 * WORKUNIT_KEY_LEN) 0) d) (\<lambda>d.
     res_bind (write_partial_executions L relevant d) (\<lambda>d.
     write_cleared_later L relevant d))))"

definition write_thunks :: "(Offer, 'd) lmdb \<Rightarrow> u64 \<Rightarrow> MerkleWorkUnit \<Rightarrow> 'd \<Rightarrow> (MerkleWorkUnit \<times> 'd) res" where
  "write_thunks L current_block_number w d =
     (let relevant = filter (\<lambda>th. thunk_block_number th \<le> current_block_number) (thunks w);
          w = w\<lparr>thunks := filter (\<lambda>th. \<not> thunk_block_number th \<le> current_block_number) (thunks w)\<rparr>
      in if relevant = []
         then if wu_persisted_round_number w \<noteq> current_block_number then Inl (Runtime_error ''can't persist without thunks'')
              else Inr (w, d)
         else if thunk_block_number (hd relevant) \<noteq> wu_persisted_round_number w + 1
         then Inl (Runtime_error ''invalid current_block_number'')
         else res_bind (write_phases L relevant d) (\<lambda>d. Inr (w, d)))"

text \<open>
  The round number of the instance is the one of the work unit.
\<close>

definition wu_persist_lmdb :: "(Offer, 'd) lmdb \<Rightarrow> u64 \<Rightarrow> MerkleWorkUnit \<times> 'd LMDBInstance \<Rightarrow> (MerkleWorkUnit \<times> 'd LMDBInstance) res" where
  "wu_persist_lmdb L current_block_number = (\<lambda>(w, I).
     if \<not> env_open I then Inr (w, I)
     else res_bind (write_thunks L current_block_number w (table I)) (\<lambda>(w, d).
          res_bind (commit_wtxn d current_block_number I) (\<lambda>I.
          Inr (w\<lparr>wu_persisted_round_number := lmdb_round I\<rparr>, I))))"

fun load_offers :: "(byte list \<times> Offer) list \<Rightarrow> Offer MerkleTrie \<Rightarrow> Offer MerkleTrie res" where
  "load_offers [] T = Inr T"
| "load_offers ((bytes, offer) # kvs) T =
     res_bind (generate_offer_key offer) (\<lambda>key_buf.
     if offer_amount offer = 0 then Inl (Runtime_error ''invalid offer amount present in database!'')
     else res_bind (trie_insert offer_insert_fn key_buf offer T) (load_offers kvs))"

definition wu_load_lmdb_contents_to_memory :: "(Offer, 'd) lmdb \<Rightarrow> 'd LMDBInstance \<Rightarrow> MerkleWorkUnit \<Rightarrow> MerkleWorkUnit res" where
  "wu_load_lmdb_contents_to_memory L I w =
     res_bind (load_offers (mdb_entries L (table I)) (committed_offers w)) (\<lambda>T. Inr (w\<lparr>committed_offers := T\<rparr>))"

end
