(* ===== verification/Disk_Laws.thy ===== *)
theory Disk_Laws
  imports Work_Unit_Disk Supply_Laws
begin

text \<open>
  What the phases of writing a market do to the map that the disk holds, and that together they do, block by block,
  what the blocks did to the book.
\<close>

section \<open>The disk as a map\<close>

definition stored :: "(Offer, 'd) lmdb \<Rightarrow> 'd \<Rightarrow> (key \<Rightarrow> Offer option) \<Rightarrow> bool" where
  "stored L d M \<longleftrightarrow> disk_map L d = (\<lambda>b. M (bytes_key b)) \<and> (\<forall>k \<in> dom M. length k = 44)"

lemma bytes_of_key: "length k = 44 \<Longrightarrow> bytes_key b = k \<longleftrightarrow> b = get_bytes_array k"
  using bytes_key_get_bytes [of k] get_bytes_key [of b] by auto

lemma stored_get: "stored L d M \<Longrightarrow> length k = 44 \<Longrightarrow> mdb_get L (get_bytes_array k) d = M k"
  by (simp add: stored_def disk_map_def fun_eq_iff bytes_key_get_bytes)

lemma stored_length: "stored L d M \<Longrightarrow> x \<in> dom (disk_map L d) \<Longrightarrow> length x = 22"
proof -
  assume "stored L d M" "x \<in> dom (disk_map L d)"
  then have "length (bytes_key x) = 44" unfolding stored_def by (metis domD domI)
  then show "length x = 22" by simp
qed

lemma stored_put:
  assumes "lmdb_laws 22 L" "stored L d M" "length k = 44"
  shows "stored L (mdb_put L (get_bytes_array k) v d) (M(k \<mapsto> v))"
  using assms bytes_of_key [of k] by (auto simp: stored_def lmdb_laws_def fun_eq_iff)

lemma stored_del:
  assumes "lmdb_laws 22 L" "stored L d M" "length k = 44"
  shows "stored L (mdb_del L (get_bytes_array k) d) (M(k := None))"
  using assms bytes_of_key [of k] by (auto simp: stored_def lmdb_laws_def fun_eq_iff)

lemma stored_finite: "lmdb_laws n L \<Longrightarrow> finite (dom (disk_map L d))"
  unfolding lmdb_laws_def by (metis finite_dom_map_of)

text \<open>The order of keys of one length.\<close>

lemma memcmp_key: "length a = length b \<Longrightarrow> memcmp_less a b \<longleftrightarrow> key_less (bytes_key a) (bytes_key b)"
  by (simp add: memcmp_less_be_nat bytes_key_less)

lemma memcmp_linear: "length a = length b \<Longrightarrow> a \<noteq> b \<Longrightarrow> memcmp_less a b \<or> memcmp_less b a"
  using key_less_linear [of "bytes_key a" "bytes_key b"] by (simp add: memcmp_key bytes_key_inject)

lemma memcmp_trans: "length a = length b \<Longrightarrow> length b = length c \<Longrightarrow> memcmp_less a b \<Longrightarrow> memcmp_less b c \<Longrightarrow> memcmp_less a c"
  using key_less_trans by (simp add: memcmp_key)

definition key_max :: "key \<Rightarrow> key \<Rightarrow> key" where
  "key_max a b = (if key_less a b then b else a)"

lemma key_less_max: "length a = length b \<Longrightarrow> key_less k (key_max a b) \<longleftrightarrow> key_less k a \<or> key_less k b"
proof (cases "key_less a b")
  case True
  then show ?thesis using key_less_trans [of k a b] by (auto simp: key_max_def)
next
  case False
  moreover assume "length a = length b"
  ultimately have "a = b \<or> key_less b a" using key_less_linear by blast
  then show ?thesis using False key_less_trans [of k b a] by (auto simp: key_max_def)
qed

lemma length_key_max [simp]: "length a = n \<Longrightarrow> length b = n \<Longrightarrow> length (key_max a b) = n"
  by (simp add: key_max_def)

section \<open>Deleting\<close>

lemma delete_downwards_below:
  assumes L: "lmdb_laws 22 L"
    and P: "\<And>x y. length x = 22 \<Longrightarrow> length y = 22 \<Longrightarrow> memcmp_less x y \<Longrightarrow> P y \<Longrightarrow> P x"
  shows "\<forall>x \<in> dom (disk_map L d). length x = 22 \<Longrightarrow> greatest_where P (dom (disk_map L d)) cursor \<Longrightarrow>
    \<exists>d'. delete_downwards L cursor d = Some d' \<and> disk_map L d' = disk_map L d |` {x. \<not> P x}"
proof (induction "card {x \<in> dom (disk_map L d). P x}" arbitrary: d cursor rule: less_induct)
  case less
  note len = less.prems(1) and g = less.prems(2)
  show ?case
  proof (cases cursor)
    case None
    then have "\<forall>x \<in> dom (disk_map L d). \<not> P x" using g by (simp add: greatest_where_def)
    then have "(disk_map L d |` {x. \<not> P x}) x = disk_map L d x" for x by (cases "disk_map L d x") (auto simp: restrict_map_def)
    then have "disk_map L d |` {x. \<not> P x} = disk_map L d" by blast
    then show ?thesis using None by (subst delete_downwards.simps) simp
  next
    case (Some k)
    let ?d = "mdb_del L k d"
    have k: "k \<in> dom (disk_map L d)" "P k" "\<And>x. x \<in> dom (disk_map L d) \<Longrightarrow> P x \<Longrightarrow> \<not> memcmp_less k x"
      using g Some by (auto simp: greatest_where_def)
    have del: "disk_map L ?d = (disk_map L d)(k := None)" using L by (simp add: lmdb_laws_def)
    have len': "\<forall>x \<in> dom (disk_map L ?d). length x = 22" using len by (simp add: del)
    have "greatest_where (\<lambda>x. memcmp_less x k) (dom (disk_map L ?d)) (mdb_prev L k ?d)"
      using L [unfolded lmdb_laws_def] len' len k(1) by blast
    moreover have "memcmp_less x k \<longleftrightarrow> P x" if "x \<in> dom (disk_map L ?d)" for x
    proof
      have x: "x \<in> dom (disk_map L d)" "x \<noteq> k" using that by (auto simp: del)
      show "memcmp_less x k \<Longrightarrow> P x" using P [of x k] x len k by blast
      show "P x \<Longrightarrow> memcmp_less x k" using k(3) x memcmp_linear [of x k] len k(1) by auto
    qed
    ultimately have g': "greatest_where P (dom (disk_map L ?d)) (mdb_prev L k ?d)"
      unfolding greatest_where_def by (auto split: option.splits)
    have "{x \<in> dom (disk_map L ?d). P x} \<subset> {x \<in> dom (disk_map L d). P x}" using k(1,2) by (auto simp: del)
    then have "card {x \<in> dom (disk_map L ?d). P x} < card {x \<in> dom (disk_map L d). P x}"
      using stored_finite [OF L, of d] by (intro psubset_card_mono) auto
    from less.hyps [OF this len' g'] obtain d' where
      d': "delete_downwards L (mdb_prev L k ?d) ?d = Some d'" "disk_map L d' = disk_map L ?d |` {x. \<not> P x}" by blast
    have "disk_map L d' = disk_map L d |` {x. \<not> P x}" using d'(2) k(2) by (auto simp: del restrict_map_def fun_eq_iff)
    then show ?thesis using d'(1) Some by (subst delete_downwards.simps) (simp add: Let_def)
  qed
qed

lemma stored_restrict:
  assumes d: "stored L d M" "disk_map L d' = disk_map L d |` {x. \<not> P x}" and P: "\<And>x. length x = 22 \<Longrightarrow> P x \<longleftrightarrow> Q (bytes_key x)"
  shows "stored L d' (M |` {k. \<not> Q k})"
proof -
  have "disk_map L d' b = (M |` {k. \<not> Q k}) (bytes_key b)" for b
  proof (cases "M (bytes_key b)")
    case None
    then show ?thesis using d by (simp add: stored_def restrict_map_def)
  next
    case (Some v)
    then have "length (bytes_key b) = 44" using d(1) unfolding stored_def by blast
    then have "P b \<longleftrightarrow> Q (bytes_key b)" using P by simp
    then show ?thesis using d by (simp add: stored_def restrict_map_def)
  qed
  then show ?thesis using d(1) by (auto simp: stored_def restrict_map_def split: if_splits)
qed

lemma write_executions_below:
  assumes L: "lmdb_laws 22 L" and d: "stored L d M" and k: "length k = 44"
  shows "\<exists>d'. write_executions L True k d = Inr d' \<and> stored L d' (M |` {j. \<not> key_less j k})"
    "\<exists>d'. write_executions L False k d = Inr d' \<and> stored L d' Map.empty"
proof -
  let ?b = "get_bytes_array k" and ?D = "dom (disk_map L d)"
  have b: "length ?b = 22" "bytes_key ?b = k" using k by (simp_all add: length_get_bytes bytes_key_get_bytes)
  have len: "\<forall>x \<in> ?D. length x = 22" using stored_length [OF d] by blast
  have ops: "least_where (\<lambda>x. \<not> memcmp_less x ?b) ?D (mdb_set_range L ?b d)"
    "greatest_where (\<lambda>x. True) ?D (mdb_last L d)" "length c = 22 \<Longrightarrow> greatest_where (\<lambda>x. memcmp_less x c) ?D (mdb_prev L c d)" for c
    using L len b(1) by (simp_all add: lmdb_laws_def)
  define cursor where "cursor = (\<lambda>key_set. case mdb_set_range L ?b d of None \<Rightarrow> mdb_last L d | Some j \<Rightarrow> if key_set then mdb_prev L j d else mdb_last L d)"
  have run: "write_executions L key_set k d = res_of_option Diverges (delete_downwards L (cursor key_set) d)" for key_set
    by (simp add: write_executions_def cursor_def Let_def)
  \<comment> \<open>the cursor is at the greatest key below\<close>
  have "greatest_where (\<lambda>x. memcmp_less x ?b) ?D (cursor True)"
  proof (cases "mdb_set_range L ?b d")
    case None
    then have "\<forall>x \<in> ?D. memcmp_less x ?b" using ops(1) by (simp add: least_where_def)
    then show ?thesis using ops(2) None by (auto simp: cursor_def greatest_where_def split: option.splits)
  next
    case (Some j)
    then have j: "j \<in> ?D" "\<not> memcmp_less j ?b" "\<forall>x \<in> ?D. \<not> memcmp_less x ?b \<longrightarrow> \<not> memcmp_less x j" using ops(1) by (auto simp: least_where_def)
    have "memcmp_less x j \<longleftrightarrow> memcmp_less x ?b" if "x \<in> ?D" for x
    proof
      show "memcmp_less x j \<Longrightarrow> memcmp_less x ?b" using j(3) that by blast
      assume x: "memcmp_less x ?b"
      have "?b = j \<or> memcmp_less ?b j" using j(1,2) len b(1) memcmp_linear [of ?b j] by metis
      then show "memcmp_less x j" using x memcmp_trans [of x ?b j] len that j(1) b(1) by auto
    qed
    then show ?thesis using ops(3) [of j] len j(1) Some unfolding greatest_where_def by (auto simp: cursor_def split: option.splits)
  qed
  from delete_downwards_below [OF L _ len this] obtain d' where d': "delete_downwards L (cursor True) d = Some d'"
    "disk_map L d' = disk_map L d |` {x. \<not> memcmp_less x ?b}" using memcmp_trans b(1) by metis
  have "stored L d' (M |` {j. \<not> key_less j k})"
    by (rule stored_restrict [OF d d'(2)]) (simp add: memcmp_key b)
  then show "\<exists>d'. write_executions L True k d = Inr d' \<and> stored L d' (M |` {j. \<not> key_less j k})" using d'(1) by (simp add: run)
  have "greatest_where (\<lambda>x. True) ?D (cursor False)" using ops(2) by (simp add: cursor_def split: option.split)
  from delete_downwards_below [OF L _ len this] obtain d' where d': "delete_downwards L (cursor False) d = Some d'"
    "disk_map L d' = disk_map L d |` {x. \<not> True}" by auto
  have "stored L d' (M |` {k. \<not> True})" by (rule stored_restrict [OF d d'(2)]) simp
  then show "\<exists>d'. write_executions L False k d = Inr d' \<and> stored L d' Map.empty" using d'(1) by (simp add: run)
qed

section \<open>The phases on maps\<close>

definition cancelled :: "WorkUnitLMDBCommitmentThunk \<Rightarrow> key set" where
  "cancelled th = fst ` set (deleted_keys th)"

definition posted :: "WorkUnitLMDBCommitmentThunk \<Rightarrow> key \<Rightarrow> Offer option" where
  "posted th = map_of (map (\<lambda>v. (key_of v, v)) (uncommitted_offers_vec th))"

text \<open>What a thunk looks like in which an offer was executed in part, or the lowest one not at all.\<close>

definition thunk_ok :: "WorkUnitLMDBCommitmentThunk \<Rightarrow> bool" where
  "thunk_ok th \<longleftrightarrow> length (partial_exec_key th) = 44 \<and> (\<forall>k \<in> cancelled th. length k = 44) \<and>
     sorted_wrt key_less (map key_of (uncommitted_offers_vec th)) \<and>
     (\<forall>v \<in> set (uncommitted_offers_vec th). is_valid_price (minPrice v) \<and> offer_amount v \<noteq> 0)"

abbreviation partial_thunk :: "WorkUnitLMDBCommitmentThunk \<Rightarrow> bool" where
  "partial_thunk th \<equiv> thunk_ok th \<and> exists_partial_exec th = Some True"

definition beyond :: "WorkUnitLMDBCommitmentThunk list \<Rightarrow> key set" where
  "beyond ths = {k. \<forall>th \<in> set ths. \<not> key_less k (partial_exec_key th)}"

lemma beyond_simps [simp]: "beyond [] = UNIV" "beyond (th # ths) = {k. \<not> key_less k (partial_exec_key th)} \<inter> beyond ths"
  by (auto simp: beyond_def)

lemma delete_keys_stored:
  assumes L: "lmdb_laws 22 L"
  shows "stored L d M \<Longrightarrow> \<forall>k \<in> fst ` set kvs. length k = 44 \<Longrightarrow> stored L (delete_keys L kvs d) (M |` (- fst ` set kvs))"
proof (induction kvs arbitrary: d M)
  case (Cons kv kvs)
  obtain k v where kv: "kv = (k, v)" by force
  have "stored L (delete_keys L kvs (mdb_del L (get_bytes_array k) d)) ((M(k := None)) |` (- fst ` set kvs))"
    using Cons.prems kv by (intro Cons.IH stored_del [OF L]) auto
  moreover have "(M(k := None)) |` (- fst ` set kvs) = M |` (- fst ` set (kv # kvs))" by (auto simp: kv restrict_map_def fun_eq_iff)
  ultimately show ?case by (simp add: kv)
qed (simp add: restrict_map_def)

lemma write_cancellations_stored:
  assumes L: "lmdb_laws 22 L"
  shows "stored L d M \<Longrightarrow> \<forall>th \<in> set ths. partial_thunk th \<Longrightarrow> length key_buf = 44 \<Longrightarrow>
    \<exists>key_buf' d'. write_cancellations L ths key_set key_buf d = Inr (key_set \<or> ths \<noteq> [], key_buf', d') \<and> length key_buf' = 44 \<and>
      {k. \<not> key_less k key_buf'} = {k. \<not> key_less k key_buf} \<inter> beyond ths \<and> stored L d' (M |` (- \<Union> (cancelled ` set ths)))"
proof (induction ths arbitrary: key_set key_buf d M)
  case (Cons th ths)
  let ?kb = "key_max key_buf (partial_exec_key th)"
  have th: "partial_thunk th" "length (partial_exec_key th) = 44" "\<forall>k \<in> fst ` set (deleted_keys th). length k = 44"
    using Cons.prems(2) by (auto simp: thunk_ok_def cancelled_def)
  have len: "length ?kb = 44" using th(2) Cons.prems(3) by simp
  have "\<forall>th \<in> set ths. partial_thunk th" using Cons.prems(2) by simp
  from Cons.IH [OF delete_keys_stored [OF L Cons.prems(1) th(3)] this len, of True] obtain key_buf' d' where
    r: "write_cancellations L ths True ?kb (delete_keys L (deleted_keys th) d) = Inr (True, key_buf', d')" "length key_buf' = 44"
      "{k. \<not> key_less k key_buf'} = {k. \<not> key_less k ?kb} \<inter> beyond ths"
      "stored L d' ((M |` (- fst ` set (deleted_keys th))) |` (- \<Union> (cancelled ` set ths)))" by auto
  have "write_cancellations L (th # ths) key_set key_buf d = Inr (key_set \<or> th # ths \<noteq> [], key_buf', d')"
    using r(1) th(1) by (simp add: Let_def key_max_def)
  moreover have "{k. \<not> key_less k key_buf'} = {k. \<not> key_less k key_buf} \<inter> beyond (th # ths)"
    using th(2) Cons.prems(3) unfolding r(3) by (auto simp: key_less_max)
  moreover have "(M |` (- fst ` set (deleted_keys th))) |` (- \<Union> (cancelled ` set ths)) = M |` (- \<Union> (cancelled ` set (th # ths)))"
    by (auto simp: cancelled_def restrict_map_def fun_eq_iff)
  ultimately show ?case using r(2,4) by auto
qed (auto simp: restrict_map_def)

text \<open>New offers: the loop stops at the first offer below, which in key order is the same as skipping those below.\<close>

lemma put_offers_test:
  assumes "is_valid_price (minPrice v)" "length kb = 44"
  shows "read_price_big_endian (get_bytes_array kb) \<le> minPrice v \<and>
      (read_price_big_endian (get_bytes_array kb) < minPrice v \<or> \<not> key_less (key_of v) kb) \<longleftrightarrow> \<not> key_less (key_of v) kb"
proof -
  have p: "prefix_price (key_of v) = minPrice v" using prefix_price_key [OF assms(1)] .
  have q: "read_price_big_endian (get_bytes_array kb) = prefix_price kb" by (simp add: prefix_price_def)
  have split: "key_less x y \<Longrightarrow> key_less (x @ a) (y @ b)" if "length x = length y" for x y a b
    using that by (induction x y rule: list_induct2) auto
  have lt: "prefix_price a < prefix_price b \<Longrightarrow> key_less a b" if "length a = 44" "length b = 44" for a b
    using prefix_price_less [of a b] split [of "take 12 a" "take 12 b" "drop 12 a" "drop 12 b"] that by simp
  have "minPrice v < prefix_price kb \<Longrightarrow> key_less (key_of v) kb" "prefix_price kb < minPrice v \<Longrightarrow> key_less kb (key_of v)"
    using lt [of "key_of v" kb] lt [of kb "key_of v"] assms(2) unfolding p by simp_all
  then show ?thesis unfolding q using key_less_asym by (meson not_le)
qed

lemma put_offers_stored:
  assumes L: "lmdb_laws 22 L" and kb: "length kb = 44"
  shows "stored L d M \<Longrightarrow> sorted_wrt (\<lambda>a b. key_less (key_of b) (key_of a)) os \<Longrightarrow>
    \<forall>v \<in> set os. is_valid_price (minPrice v) \<and> offer_amount v \<noteq> 0 \<Longrightarrow>
    \<exists>d'. put_offers L kb (read_price_big_endian (get_bytes_array kb)) os d = Inr d' \<and>
      stored L d' (M ++ map_of (map (\<lambda>v. (key_of v, v)) os) |` {k. \<not> key_less k kb})"
proof (induction os arbitrary: d M)
  case (Cons v os)
  let ?p = "read_price_big_endian (get_bytes_array kb)" and ?m = "map_of (map (\<lambda>v. (key_of v, v)) os)"
  have v: "is_valid_price (minPrice v)" "offer_amount v \<noteq> 0" using Cons.prems(3) by simp_all
  note test = put_offers_test [OF v(1) kb]
  have fresh: "?m (key_of v) = None" using Cons.prems(2) key_less_irrefl by (fastforce simp: map_of_eq_None_iff)
  show ?case
  proof (cases "key_less (key_of v) kb")
    case True
    have "key_less k kb" if "k \<in> dom ?m" for k
    proof -
      obtain u where "u \<in> set os" "k = key_of u" using \<open>k \<in> dom ?m\<close> by (auto simp: dom_map_of_conv_image_fst)
      then have "key_less k (key_of v)" using Cons.prems(2) by simp
      then show ?thesis using True key_less_trans by blast
    qed
    then have "map_of (map (\<lambda>v. (key_of v, v)) (v # os)) |` {k. \<not> key_less k kb} = Map.empty"
      using True by (auto simp: restrict_map_def fun_eq_iff)
    moreover have "put_offers L kb ?p (v # os) d = Inr d" using v(2) test True by auto
    ultimately show ?thesis using Cons.prems(1) by (simp only: map_add_empty) blast
  next
    case False
    have run: "put_offers L kb ?p (v # os) d = put_offers L kb ?p os (mdb_put L (get_bytes_array (key_of v)) v d)"
      using v(2) test False by auto
    have "stored L (mdb_put L (get_bytes_array (key_of v)) v d) (M(key_of v \<mapsto> v))"
      using Cons.prems(1) by (intro stored_put [OF L]) simp_all
    then obtain d' where d': "put_offers L kb ?p os (mdb_put L (get_bytes_array (key_of v)) v d) = Inr d'"
      "stored L d' (M(key_of v \<mapsto> v) ++ ?m |` {k. \<not> key_less k kb})" using Cons.IH Cons.prems(2,3) by fastforce
    have eq: "M(key_of v \<mapsto> v) ++ ?m |` {k. \<not> key_less k kb} = M ++ map_of (map (\<lambda>v. (key_of v, v)) (v # os)) |` {k. \<not> key_less k kb}"
    proof
      fix x
      show "(M(key_of v \<mapsto> v) ++ ?m |` {k. \<not> key_less k kb}) x = (M ++ map_of (map (\<lambda>v. (key_of v, v)) (v # os)) |` {k. \<not> key_less k kb}) x"
        using fresh False by (cases "x = key_of v"; cases "?m x") (auto simp: map_add_def restrict_map_def)
    qed
    show ?thesis unfolding run eq [symmetric] using d' by blast
  qed
qed simp

fun kept_offers :: "WorkUnitLMDBCommitmentThunk list \<Rightarrow> key \<Rightarrow> Offer option" where
  "kept_offers [] = Map.empty"
| "kept_offers (th # ths) = kept_offers ths ++ posted th |` beyond (th # ths)"

lemma write_new_offers_append:
  "write_new_offers L (xs @ ys) kb d =
     res_bind (write_new_offers L xs kb d) (write_new_offers L ys (foldl key_max kb (map partial_exec_key xs)))"
  by (induction xs arbitrary: kb d) (simp_all add: Let_def cong: res_bind_cong flip: key_max_def)

lemma foldl_key_max:
  "length kb = 44 \<Longrightarrow> \<forall>th \<in> set ths. length (partial_exec_key th) = 44 \<Longrightarrow>
    length (foldl key_max kb (map partial_exec_key ths)) = 44 \<and>
    {k. \<not> key_less k (foldl key_max kb (map partial_exec_key ths))} = {k. \<not> key_less k kb} \<inter> beyond ths"
proof (induction ths arbitrary: kb)
  case (Cons th ths)
  then have "length (foldl key_max (key_max kb (partial_exec_key th)) (map partial_exec_key ths)) = 44 \<and>
    {k. \<not> key_less k (foldl key_max (key_max kb (partial_exec_key th)) (map partial_exec_key ths))} =
      {k. \<not> key_less k (key_max kb (partial_exec_key th))} \<inter> beyond ths" by simp
  then show ?case using Cons.prems by (auto simp: key_less_max)
qed simp

lemma beyond_rev [simp]: "beyond (rev ths) = beyond ths"
  by (simp add: beyond_def)

lemma rev_posted:
  assumes "sorted_wrt key_less (map key_of os)"
  shows "map_of (map (\<lambda>v. (key_of v, v)) (rev os)) = map_of (map (\<lambda>v. (key_of v, v)) os)"
proof -
  have "distinct (map key_of os)" using assms
    by (induction os) (auto simp: key_less_irrefl)
  then have "distinct (map fst (map (\<lambda>v. (key_of v, v)) os))" by (simp add: comp_def)
  then show ?thesis unfolding rev_map [symmetric] by (rule map_of_rev_distinct)
qed

lemma write_new_offers_stored:
  assumes L: "lmdb_laws 22 L" and d: "stored L d M"
  shows "\<forall>th \<in> set ths. thunk_ok th \<Longrightarrow> \<exists>d'. write_new_offers L (rev ths) (replicate 44 0) d = Inr d' \<and> stored L d' (M ++ kept_offers ths)"
proof (induction ths)
  case (Cons th ths)
  let ?kb = "foldl key_max (replicate 44 0) (map partial_exec_key (rev ths))"
  let ?k = "key_max ?kb (partial_exec_key th)"
  obtain d1 where d1: "write_new_offers L (rev ths) (replicate 44 0) d = Inr d1" "stored L d1 (M ++ kept_offers ths)" using Cons by auto
  have kb: "length ?kb = 44" "{k. \<not> key_less k ?kb} = beyond ths"
    using foldl_key_max [of "replicate 44 0" "rev ths"] Cons.prems by (auto simp: thunk_ok_def not_less_zero_key)
  have k: "length ?k = 44" "{k. \<not> key_less k ?k} = beyond (th # ths)"
    using kb Cons.prems by (auto simp: thunk_ok_def key_less_max)
  have th: "sorted_wrt key_less (map key_of (uncommitted_offers_vec th))" using Cons.prems by (simp add: thunk_ok_def)
  then have "sorted_wrt (\<lambda>a b. key_less (key_of b) (key_of a)) (rev (uncommitted_offers_vec th))"
    by (simp add: sorted_wrt_rev sorted_wrt_map)
  then obtain d2 where d2: "put_offers L ?k (read_price_big_endian (get_bytes_array ?k)) (rev (uncommitted_offers_vec th)) d1 = Inr d2"
    "stored L d2 (M ++ kept_offers ths ++ posted th |` beyond (th # ths))"
    using put_offers_stored [OF L k(1) d1(2), of "rev (uncommitted_offers_vec th)"] Cons.prems
    unfolding k(2) rev_posted [OF th] posted_def by (auto simp: thunk_ok_def)
  have "write_new_offers L (rev (th # ths)) (replicate 44 0) d = Inr d2"
    using d1(1) d2(1) by (simp add: write_new_offers_append Let_def key_max_def)
  then show ?case using d2(2) by (simp only: kept_offers.simps map_add_assoc) blast
qed (simp add: d)

definition reduced :: "i64 \<Rightarrow> Offer \<Rightarrow> Offer option" where
  "reduced x v = (if offer_amount v - x = 0 then None else Some (v\<lparr>offer_amount := offer_amount v - x\<rparr>))"

definition take_partial :: "WorkUnitLMDBCommitmentThunk \<Rightarrow> (key \<Rightarrow> Offer option) \<Rightarrow> key \<Rightarrow> Offer option" where
  "take_partial th M = (case M (partial_exec_key th) of None \<Rightarrow> M | Some v \<Rightarrow> M(partial_exec_key th := reduced (partial_exec_amount th) v))"

fun partials_fit :: "WorkUnitLMDBCommitmentThunk list \<Rightarrow> (key \<Rightarrow> Offer option) \<Rightarrow> bool" where
  "partials_fit [] M = True"
| "partials_fit (th # ths) M = (0 \<le> sint (partial_exec_amount th) \<and>
     (\<forall>v. M (partial_exec_key th) = Some v \<longrightarrow> partial_exec_amount th \<le> offer_amount v) \<and> partials_fit ths (take_partial th M))"

lemma write_partial_executions_stored:
  assumes L: "lmdb_laws 22 L"
  shows "stored L d M \<Longrightarrow> \<forall>th \<in> set ths. partial_thunk th \<Longrightarrow> partials_fit ths M \<Longrightarrow>
    \<exists>d'. write_partial_executions L ths d = Inr d' \<and> stored L d' (fold take_partial ths M)"
proof (induction ths arbitrary: d M)
  case (Cons th ths)
  have k: "length (partial_exec_key th) = 44" "exists_partial_exec th = Some True" using Cons.prems(2) by (auto simp: thunk_ok_def)
  have th: "0 \<le> sint (partial_exec_amount th)" "\<And>v. M (partial_exec_key th) = Some v \<Longrightarrow> partial_exec_amount th \<le> offer_amount v"
    "partials_fit ths (take_partial th M)" "\<forall>th \<in> set ths. partial_thunk th" using Cons.prems(2,3) by auto
  note get = stored_get [OF Cons.prems(1) k(1)]
  show ?case
  proof (cases "M (partial_exec_key th)")
    case None
    then show ?thesis using Cons.IH [OF Cons.prems(1) th(4)] th(3) k(2) get by (simp add: Let_def take_partial_def)
  next
    case (Some v)
    have "\<not> offer_amount v < partial_exec_amount th" using th(2) [OF Some] by (simp add: not_less)
    moreover have pos: "0 < x \<longleftrightarrow> x \<noteq> (0 :: u64)" for x by (simp add: word_neq_0_conv)
    ultimately have step: "write_partial_executions L (th # ths) d = write_partial_executions L ths
        (if offer_amount v - partial_exec_amount th = 0 then mdb_del L (get_bytes_array (partial_exec_key th)) d
         else mdb_put L (get_bytes_array (partial_exec_key th)) (v\<lparr>offer_amount := offer_amount v - partial_exec_amount th\<rparr>) d)"
      using th(1) k(2) get Some by (simp add: Let_def pos)
    have "stored L (if offer_amount v - partial_exec_amount th = 0 then mdb_del L (get_bytes_array (partial_exec_key th)) d
        else mdb_put L (get_bytes_array (partial_exec_key th)) (v\<lparr>offer_amount := offer_amount v - partial_exec_amount th\<rparr>) d) (take_partial th M)"
      using stored_put [OF L Cons.prems(1) k(1)] stored_del [OF L Cons.prems(1) k(1)] Some by (simp add: take_partial_def reduced_def)
    from Cons.IH [OF this th(4,3)] show ?thesis unfolding step by simp
  qed
qed simp

fun none_left :: "WorkUnitLMDBCommitmentThunk list \<Rightarrow> (key \<Rightarrow> Offer option) \<Rightarrow> bool" where
  "none_left [] M = True"
| "none_left (th # ths) M = ((partial_exec_key th \<in> beyond ths \<or> M (partial_exec_key th) = None) \<and> none_left ths M)"

lemma delete_cleared_stored:
  assumes L: "lmdb_laws 22 L" and k: "length k = 44"
  shows "stored L d M \<Longrightarrow> k \<in> beyond ths \<or> M k = None \<Longrightarrow> stored L (delete_cleared L k ths d) M"
proof (induction ths arbitrary: d)
  case (Cons th ths)
  show ?case
  proof (cases "key_less k (partial_exec_key th)")
    case True
    then have "M k = None" using Cons.prems(2) by simp
    then have "M(k := None) = M" by auto
    then have "stored L (mdb_del L (get_bytes_array k) d) M" using stored_del [OF L Cons.prems(1) k] by simp
    then show ?thesis using Cons.IH \<open>M k = None\<close> True by simp
  next
    case False
    then show ?thesis using Cons by simp
  qed
qed simp

lemma write_cleared_later_stored:
  assumes L: "lmdb_laws 22 L"
  shows "stored L d M \<Longrightarrow> \<forall>th \<in> set ths. partial_thunk th \<Longrightarrow> none_left ths M \<Longrightarrow> \<exists>d'. write_cleared_later L ths d = Inr d' \<and> stored L d' M"
proof (induction ths arbitrary: d)
  case (Cons th ths)
  have k: "length (partial_exec_key th) = 44" "exists_partial_exec th = Some True" using Cons.prems(2) by (auto simp: thunk_ok_def)
  have "stored L (delete_cleared L (partial_exec_key th) ths d) M"
    using delete_cleared_stored [OF L k(1) Cons.prems(1)] Cons.prems(3) by simp
  then show ?case using Cons.IH Cons.prems(2,3) k(2) by simp
qed simp

section \<open>Blocks on maps\<close>

text \<open>What a block that left an offer does to the book, by its thunk.\<close>

definition thunk_step :: "WorkUnitLMDBCommitmentThunk \<Rightarrow> (key \<Rightarrow> Offer option) \<Rightarrow> key \<Rightarrow> Offer option" where
  "thunk_step th M = take_partial th (((M |` (- cancelled th)) ++ posted th) |` beyond [th])"

text \<open>
  A batch of blocks that can be written together: every block leaves an offer at which it stopped, no offer is
  posted twice, and no offer is cancelled in the batch in which it was posted.
\<close>

fun batch_ok :: "(key \<Rightarrow> Offer option) \<Rightarrow> WorkUnitLMDBCommitmentThunk list \<Rightarrow> bool" where
  "batch_ok M [] = True"
| "batch_ok M (th # ths) =
     (partial_thunk th \<and> dom (posted th) \<inter> dom M = {} \<and>
      (\<exists>v. ((M |` (- cancelled th)) ++ posted th) (partial_exec_key th) = Some v \<and>
         0 \<le> sint (partial_exec_amount th) \<and> partial_exec_amount th \<le> offer_amount v) \<and>
      (\<forall>later \<in> set ths. dom (posted later) \<inter> (dom M \<union> dom (posted th)) = {} \<and> cancelled later \<inter> dom (posted th) = {}) \<and>
      batch_ok (thunk_step th M) ths)"

lemma batch_thunks: "batch_ok M ths \<Longrightarrow> \<forall>th \<in> set ths. partial_thunk th"
  by (induction ths arbitrary: M) auto

lemma dom_kept_offers: "k \<in> dom (kept_offers ths) \<Longrightarrow> \<exists>th \<in> set ths. k \<in> dom (posted th)"
  by (induction ths) (auto simp: restrict_map_def split: if_splits)

lemma dom_thunk_step: "k \<in> dom (thunk_step th M) \<Longrightarrow> k \<in> dom M \<union> dom (posted th) \<and> \<not> key_less k (partial_exec_key th)"
  by (auto simp: thunk_step_def take_partial_def restrict_map_def split: option.splits if_splits)

text \<open>The state after the insertions, before the executions in part.\<close>

definition inserted :: "WorkUnitLMDBCommitmentThunk list \<Rightarrow> (key \<Rightarrow> Offer option) \<Rightarrow> key \<Rightarrow> Offer option" where
  "inserted ths M = ((M |` (- \<Union> (cancelled ` set ths))) |` beyond ths) ++ kept_offers ths"

lemma inserted_step:
  assumes "batch_ok M (th # ths)"
  shows "take_partial th (inserted (th # ths) M) = inserted ths (thunk_step th M)"
    "inserted (th # ths) M (partial_exec_key th) = Some v \<Longrightarrow> ((M |` (- cancelled th)) ++ posted th) (partial_exec_key th) = Some v"
proof -
  let ?K = "partial_exec_key th" and ?X = "(M |` (- cancelled th)) ++ posted th" and ?C = "\<Union> (cancelled ` set ths)"
  have new: "dom (kept_offers ths) \<inter> (dom M \<union> dom (posted th)) = {}" using assms dom_kept_offers by fastforce
  have post: "dom (posted th) \<inter> (dom M \<union> ?C) = {}"
  proof -
    have "dom (posted th) \<inter> dom M = {}" "\<forall>later \<in> set ths. cancelled later \<inter> dom (posted th) = {}" using assms by simp_all
    then show ?thesis by blast
  qed
  have K: "?K \<in> dom M \<union> dom (posted th)" using assms by (auto simp: restrict_map_def split: if_splits)
  then have newK: "kept_offers ths ?K = None" using new by blast
  have lhs: "inserted (th # ths) M k = (if kept_offers ths k \<noteq> None then kept_offers ths k else if k \<in> beyond (th # ths) - ?C then ?X k else None)" for k
  proof (cases "kept_offers ths k")
    case (Some v)
    then have "posted th k = None" using new by blast
    then show ?thesis using Some by (simp add: inserted_def map_add_def restrict_map_def)
  next
    case None
    show ?thesis
    proof (cases "posted th k")
      case (Some v)
      then have "M k = None" "k \<notin> ?C" using post by blast+
      then show ?thesis using None Some by (simp add: inserted_def map_add_def restrict_map_def)
    next
      case nop: None
      then show ?thesis using None by (simp add: inserted_def map_add_def restrict_map_def)
    qed
  qed
  have rhs: "inserted ths N k = (if kept_offers ths k \<noteq> None then kept_offers ths k else if k \<in> beyond ths - ?C then N k else None)" for N k
    by (cases "kept_offers ths k") (simp_all add: inserted_def map_add_def restrict_map_def)
  have part: "take_partial th F k = (if k = ?K then (case F ?K of None \<Rightarrow> None | Some v \<Rightarrow> reduced (partial_exec_amount th) v) else F k)" for F k
    by (cases "F ?K") (simp_all add: take_partial_def)
  have "take_partial th (inserted (th # ths) M) k = inserted ths (thunk_step th M) k" for k
  proof (cases "k = ?K")
    case True
    then show ?thesis using newK by (cases "?X ?K") (auto simp: part lhs rhs thunk_step_def restrict_map_def)
  next
    case False
    then show ?thesis by (simp add: part lhs rhs thunk_step_def restrict_map_def)
  qed
  then show "take_partial th (inserted (th # ths) M) = inserted ths (thunk_step th M)" by blast
  show "inserted (th # ths) M ?K = Some v \<Longrightarrow> ?X ?K = Some v" unfolding lhs using newK by (simp split: if_splits)
qed

lemma batch_partials:
  "batch_ok M ths \<Longrightarrow> partials_fit ths (inserted ths M) \<and> fold take_partial ths (inserted ths M) = fold thunk_step ths M"
proof (induction ths arbitrary: M)
  case (Cons th ths)
  note step = inserted_step [OF Cons.prems]
  have "partials_fit ths (inserted ths (thunk_step th M))" "fold take_partial ths (inserted ths (thunk_step th M)) = fold thunk_step ths (thunk_step th M)"
    using Cons.IH Cons.prems by simp_all
  then show ?case using step Cons.prems by auto
qed (simp add: inserted_def restrict_map_def)

lemma gone:
  "f \<in> set ths \<Longrightarrow> key_less k (partial_exec_key f) \<Longrightarrow> \<forall>th \<in> set ths. k \<notin> dom (posted th) \<Longrightarrow> k \<notin> dom (fold thunk_step ths M)"
proof (induction ths arbitrary: M)
  case (Cons th ths)
  have stay: "k \<notin> dom M \<Longrightarrow> k \<notin> dom (fold thunk_step ths M)" for M
    using Cons.prems(3) by (induction ths arbitrary: M) (auto dest!: dom_thunk_step)
  show ?case
  proof (cases "f = th")
    case True
    then have "k \<notin> dom (thunk_step th M)" using Cons.prems(2) dom_thunk_step by blast
    then show ?thesis using stay by simp
  next
    case False
    then show ?thesis using Cons by auto
  qed
qed simp

lemma batch_none_left: "batch_ok M ths \<Longrightarrow> none_left ths (fold thunk_step ths M)"
proof (induction ths arbitrary: M)
  case (Cons th ths)
  have "partial_exec_key th \<in> dom M \<union> dom (posted th)" using Cons.prems by (auto simp: restrict_map_def split: if_splits)
  moreover have "\<forall>later \<in> set ths. dom (posted later) \<inter> (dom M \<union> dom (posted th)) = {}" using Cons.prems by simp
  ultimately have "\<forall>later \<in> set ths. partial_exec_key th \<notin> dom (posted later)" by blast
  then have "partial_exec_key th \<in> beyond ths \<or> fold thunk_step ths (thunk_step th M) (partial_exec_key th) = None"
    using gone [of _ ths "partial_exec_key th" "thunk_step th M"] by (auto simp: beyond_def)
  then show ?case using Cons by simp
qed simp

theorem write_phases_stored:
  assumes L: "lmdb_laws 22 L" and d: "stored L d M" and ok: "batch_ok M ths" "ths \<noteq> []"
  shows "\<exists>d'. write_phases L ths d = Inr d' \<and> stored L d' (fold thunk_step ths M)"
proof -
  note ths = batch_thunks [OF ok(1)]
  have key0: "replicate (2 * WORKUNIT_KEY_LEN) 0 = replicate 44 0" by (simp add: WORKUNIT_KEY_LEN_def)
  obtain kb d1 where d1: "write_cancellations L ths False (replicate 44 0) d = Inr (True, kb, d1)" "length kb = 44"
    "{k. \<not> key_less k kb} = beyond ths" "stored L d1 (M |` (- \<Union> (cancelled ` set ths)))"
    using write_cancellations_stored [OF L d ths, of "replicate 44 0" False] ok(2) by (auto simp: not_less_zero_key)
  obtain d2 where d2: "write_executions L True kb d1 = Inr d2" "stored L d2 ((M |` (- \<Union> (cancelled ` set ths))) |` beyond ths)"
    using write_executions_below(1) [OF L d1(4,2)] unfolding d1(3) by blast
  obtain d3 where d3: "write_new_offers L (rev ths) (replicate 44 0) d2 = Inr d3" "stored L d3 (inserted ths M)"
    using write_new_offers_stored [OF L d2(2), of ths] ths unfolding inserted_def by auto
  obtain d4 where d4: "write_partial_executions L ths d3 = Inr d4" "stored L d4 (fold thunk_step ths M)"
    using write_partial_executions_stored [OF L d3(2) ths] batch_partials [OF ok(1)] by auto
  obtain d5 where d5: "write_cleared_later L ths d4 = Inr d5" "stored L d5 (fold thunk_step ths M)"
    using write_cleared_later_stored [OF L d4(2) ths batch_none_left [OF ok(1)]] by blast
  show ?thesis using d1(1) d2(1) d3(1) d4(1) d5 by (simp add: write_phases_def key0)
qed

end
