(* ===== verification/Disk_Blocks.thy ===== *)
theory Disk_Blocks
  imports Disk_Laws Sample_Market
begin

text \<open>
  Blocks and the disk together: the thunk that a block leaves describes what the block did to the book, so writing
  the thunks of several blocks leaves on disk the book that is in memory.
\<close>

section \<open>The thunk of a block\<close>

text \<open>One block of one market: the new offers are committed, then the market is cleared.\<close>

definition block_step :: "u64 \<Rightarrow> MerkleWorkUnit \<Rightarrow> MerkleWorkUnit \<Rightarrow> bool" where
  "block_step n w w2 \<longleftrightarrow> block_ready w \<and>
     (\<exists>w1 supply prices tax s c s2 c2. tentative_commit_for_validation n w = Inr w1 \<and> sound_book (committed_offers w1) \<and>
        commitment_sized c \<and> process_clear_offers supply prices tax w1 s c = Inr (w2, s2, c2))"

lemma commit_thunk:
  assumes "block_ready w" "tentative_commit_for_validation n w = Inr w1" "sound_book (committed_offers w1)"
  obtains th where "thunks w1 = thunks w @ [th]" "wu_persisted_round_number w1 = wu_persisted_round_number w" "thunk_block_number th = n"
    "offers (committed_offers w1) = (offers (committed_offers w) |` (- cancelled th)) ++ posted th"
    "dom (posted th) \<inter> dom (offers (committed_offers w)) = {}" "\<forall>k \<in> cancelled th. length k = 44"
    "sorted_wrt key_less (map key_of (uncommitted_offers_vec th))"
    "\<forall>v \<in> set (uncommitted_offers_vec th). is_valid_price (minPrice v) \<and> offer_amount v \<noteq> 0"
proof -
  let ?M = "offers (committed_offers w)" and ?U = "uncommitted_offers w"
  obtain vec del where ac: "after_commit n ?M (offers ?U) vec del w w1" using block_after_commit [OF assms(1,2)] .
  note ac = ac [unfolded after_commit_def]
  define th where "th = (new_thunk n)\<lparr>uncommitted_offers_vec := vec, deleted_keys := del\<rparr>"
  have w1: "thunks w1 = thunks w @ [th]" "wu_persisted_round_number w1 = wu_persisted_round_number w"
    unfolding th_def by (subst ac [THEN conjunct1], simp)+
  have U: "book ?U" "card (dom (offers ?U)) \<le> 1000000000" "\<And>k v. offers ?U k = Some v \<Longrightarrow> k = key_of v"
    using assms(1) by (simp_all add: block_ready_def)
  have "length (leaves (root ?U)) \<le> 1000000000"
    using U(1,2) card_leaf_map(1) [of 44 "root ?U"] by (simp add: book_def trie_map_leaf_map dom_def)
  moreover have "meta_ok unit_size (root ?U)" using U(1) by (auto simp: book_def elim: meta_ok_mono)
  ultimately have "node_accumulate_values (root ?U) = Inr (map snd (offer_list ?U))"
    by (simp add: node_accumulate_values_correct offer_list_def)
  moreover have "node_accumulate_values (root ?U) = Inr vec"
    using assms(2) w1(1) by (auto simp: tentative_commit_for_validation_def th_def Let_def add_new_thunk_def new_thunk_def split: if_splits)
  ultimately have vec: "vec = map snd (offer_list ?U)" by simp
  have key: "k = key_of v" if "(k, v) \<in> set (offer_list ?U)" for k v
    using that U(3) map_of_is_SomeI [OF offer_list_distinct [OF U(1)]] unfolding offers_offer_list by blast
  then have pairs: "map (\<lambda>v. (key_of v, v)) vec = offer_list ?U" "map key_of vec = map fst (offer_list ?U)"
    unfolding vec by (auto intro!: map_idI simp: comp_def)
  have posted: "posted th = offers ?U" using pairs(1) by (simp add: posted_def th_def offers_offer_list)
  have "fst ` set del = dom (map_of del)" by (simp add: dom_map_of_conv_image_fst)
  then have can: "cancelled th = dom (map_of del)" by (simp add: cancelled_def th_def)
  have T1: "offers (committed_offers w1) = (?M |` (- cancelled th)) ++ posted th"
  proof -
    have "(\<lambda>k. if map_of del k \<noteq> None then None else ?M k) = ?M |` (- cancelled th)"
      unfolding can by (auto simp: restrict_map_def fun_eq_iff)
    then show ?thesis using ac unfolding posted by simp
  qed
  have "is_valid_price (minPrice v) \<and> offer_amount v \<noteq> 0" if "v \<in> set vec" for v
  proof -
    have "(key_of v, v) \<in> set (offer_list ?U)" using that unfolding pairs(1) [symmetric] by simp
    then have "offers ?U (key_of v) = Some v" using offer_list_distinct [OF U(1)] unfolding offers_offer_list by simp
    then have "offers (committed_offers w1) (key_of v) = Some v" unfolding T1 posted by simp
    then have "is_valid_price (minPrice v)" "0 < sint (offer_amount v :: i64)" using assms(3) unfolding sound_book_def by blast+
    then show ?thesis by auto
  qed
  then show thesis
    using that [OF w1 _ T1] ac posted pairs(2) offer_list_sorted [OF U(1)] by (force simp: th_def new_thunk_def can [unfolded th_def] cancelled_def)
qed

lemma above_middle:
  assumes "sorted_wrt key_less (map fst (A @ (k, v) # B))"
  shows "map_of (A @ (k, v) # B) |` {j. \<not> key_less j k} = (map_of B)(k \<mapsto> v)" "map_of A k = None" "map_of B k = None"
proof -
  have A: "key_less j k" if "j \<in> fst ` set A" for j using assms that by (auto simp: sorted_wrt_append)
  have B: "key_less k j" if "j \<in> fst ` set B" for j using assms that by (auto simp: sorted_wrt_append)
  show none: "map_of A k = None" "map_of B k = None" using A [of k] B [of k] key_less_irrefl by (auto simp: map_of_eq_None_iff)
  have "(map_of (A @ (k, v) # B) |` {j. \<not> key_less j k}) j = ((map_of B)(k \<mapsto> v)) j" for j
  proof (cases "key_less j k")
    case True
    then have "j \<noteq> k" "j \<notin> fst ` set B" using B [of j] key_less_irrefl key_less_asym by blast+
    then have "map_of B j = None" by (simp add: map_of_eq_None_iff)
    then show ?thesis using True \<open>j \<noteq> k\<close> by simp
  next
    case False
    then have "map_of A j = None" using A [of j] by (auto simp: map_of_eq_None_iff)
    then show ?thesis using False by (auto simp: map_add_def split: option.split)
  qed
  then show "map_of (A @ (k, v) # B) |` {j. \<not> key_less j k} = (map_of B)(k \<mapsto> v)" by blast
qed

lemma sint_nonneg_iff_small: "0 \<le> sint (x :: 64 word) \<longleftrightarrow> uint x < 2 ^ 63"
proof (cases "uint x < 2 ^ 63")
  case True
  then show ?thesis by (simp add: sint_uint signed_take_bit_nonnegative_iff bit_iff_odd)
next
  case False
  have u: "uint x < 2 ^ 64" using uint_lt2p [of x] by simp
  then have "uint x div 2 ^ 63 = 1" using False by simp
  then have "bit (uint x) 63" by (simp add: bit_iff_odd)
  then have "sint x = uint x - 2 ^ 64" using u by (simp add: sint_uint signed_take_bit_eq_take_bit_minus take_bit_int_eq_self)
  then show ?thesis using False u by simp
qed

text \<open>A block that left an offer: its thunk, as a step on maps, is what it did to the book.\<close>

lemma block_thunk:
  assumes "block_step n w w2"
  obtains th where "thunks w2 = thunks w @ [th]" "thunk_block_number th = n" "wu_persisted_round_number w2 = wu_persisted_round_number w"
    "thunk_ok th" "dom (posted th) \<inter> dom (offers (committed_offers w)) = {}"
    "exists_partial_exec th = Some True \<and> offers (committed_offers w2) = thunk_step th (offers (committed_offers w)) \<and>
       (\<exists>v. ((offers (committed_offers w) |` (- cancelled th)) ++ posted th) (partial_exec_key th) = Some v \<and>
         0 \<le> sint (partial_exec_amount th) \<and> partial_exec_amount th \<le> offer_amount v) \<or>
     exists_partial_exec th = Some False \<and> offers (committed_offers w2) = Map.empty \<and> partial_exec_key th = replicate 44 15"
proof -
  obtain w1 amount prices tax s c s2 c2 where w1: "block_ready w" "tentative_commit_for_validation n w = Inr w1"
    "sound_book (committed_offers w1)" and c: "commitment_sized c" and run0: "process_clear_offers amount prices tax w1 s c = Inr (w2, s2, c2)"
    using assms unfolding block_step_def by blast
  obtain db log stats db2 log2 stats2 where "s = (db, log, stats)" "s2 = (db2, log2, stats2)" by (cases s, cases s2)
  note run = c run0 [unfolded this]
  obtain t where t: "thunks w1 = thunks w @ [t]" "wu_persisted_round_number w1 = wu_persisted_round_number w" "thunk_block_number t = n"
    and off: "offers (committed_offers w1) = (offers (committed_offers w) |` (- cancelled t)) ++ posted t"
    and disj: "dom (posted t) \<inter> dom (offers (committed_offers w)) = {}"
    and ok: "\<forall>k \<in> cancelled t. length k = 44" "sorted_wrt key_less (map key_of (uncommitted_offers_vec t))"
      "\<forall>v \<in> set (uncommitted_offers_vec t). is_valid_price (minPrice v) \<and> offer_amount v \<noteq> 0"
    using commit_thunk [OF w1] by blast
  show thesis
    using w1(3) run
  proof (cases rule: process_clear_cases)
    case (full p q A e S log2)
    define th where "th = set_no_partial_exec (t\<lparr>cleared_offers := S\<rparr>)"
    have th: "cancelled th = cancelled t" "posted th = posted t" "uncommitted_offers_vec th = uncommitted_offers_vec t"
      "exists_partial_exec th = Some False" "partial_exec_key th = replicate 44 15" "thunk_block_number th = n"
      using t(3) by (simp_all add: th_def set_no_partial_exec_def cancelled_def posted_def)
    have "thunks w2 = thunks w @ [th]" "wu_persisted_round_number w2 = wu_persisted_round_number w"
      by (subst full(10), simp add: t(1) th_def, subst full(10), simp add: t(2))
    then show thesis using that [of th] th disj ok full(9) by (simp add: thunk_ok_def)
  next
    case (partial p q A k v B e S dbA logA idx sell buy offer')
    define th where "th = set_partial_exec k sell v (t\<lparr>cleared_offers := S\<rparr>)"
    have th: "cancelled th = cancelled t" "posted th = posted t" "uncommitted_offers_vec th = uncommitted_offers_vec t"
      "exists_partial_exec th = Some True" "partial_exec_key th = k" "partial_exec_amount th = sell" "thunk_block_number th = n"
      using t(3) by (simp_all add: th_def set_partial_exec_def cancelled_def posted_def)
    have list: "offer_list (committed_offers w1) = A @ (k, v) # B" using partial(3) by (simp add: cut_of_def)
    have v: "k = key_of v" "offers (committed_offers w1) k = Some v" "0 < sint (offer_amount v :: i64)"
      using sound_bookD(4,5) [OF w1(3), of k v] by (simp_all add: list)
    have sell: "sell \<le> offer_amount v" "0 \<le> sint sell"
    proof -
      show "sell \<le> offer_amount v" using partial(8) by simp
      then have "uint sell \<le> uint (offer_amount v)" by (simp add: word_le_def)
      moreover have "uint (offer_amount v) < 2 ^ 63" using v(3) sint_nonneg_iff_small [of "offer_amount v"] by simp
      ultimately show "0 \<le> sint sell" unfolding sint_nonneg_iff_small by simp
    qed
    note mid = above_middle [OF offer_list_sorted [OF sound_bookD(1) [OF w1(3)], unfolded list]]
    let ?X = "((offers (committed_offers w) |` (- cancelled th)) ++ posted th) |` beyond [th]"
    have X: "?X = (map_of B)(k \<mapsto> v)" using mid(1) off by (simp add: th offers_offer_list list)
    have "thunk_step th (offers (committed_offers w)) = (map_of B)(k := reduced sell v)"
      using mid(3) unfolding thunk_step_def take_partial_def X th(5,6) by simp
    also have "\<dots> = offers (committed_offers w2)"
    proof -
      have "0 < x \<longleftrightarrow> x \<noteq> 0" for x :: u64 by (simp add: word_neq_0_conv)
      then show ?thesis using partial(9,12) mid(3) by (auto simp: reduced_def fun_eq_iff)
    qed
    finally have step: "offers (committed_offers w2) = thunk_step th (offers (committed_offers w))" by simp
    have "thunks w2 = thunks w @ [th]" "wu_persisted_round_number w2 = wu_persisted_round_number w"
      by (subst partial(13), simp add: t(1) th_def, subst partial(13), simp add: t(2))
    then show thesis using that [of th] th disj ok step sell v off by (simp add: thunk_ok_def)
  qed
qed

section \<open>Blocks written together\<close>

text \<open>
  A run of blocks: between two of them offers are posted and marked, which leaves the committed offers and the
  thunks as they are.
\<close>

inductive blocks :: "MerkleWorkUnit \<Rightarrow> WorkUnitLMDBCommitmentThunk list \<Rightarrow> MerkleWorkUnit \<Rightarrow> bool" where
  no_block: "blocks w [] w"
| next_block: "blocks w ths w1 \<Longrightarrow> offers (committed_offers w2) = offers (committed_offers w1) \<Longrightarrow> thunks w2 = thunks w1 \<Longrightarrow>
    wu_persisted_round_number w2 = wu_persisted_round_number w1 \<Longrightarrow> block_step n w2 w3 \<Longrightarrow> blocks w (ths @ [last (thunks w3)]) w3"

text \<open>No offer comes twice, and none is cancelled in the batch in which it came.\<close>

definition fresh_batch :: "(key \<Rightarrow> Offer option) \<Rightarrow> WorkUnitLMDBCommitmentThunk list \<Rightarrow> bool" where
  "fresh_batch M ths \<longleftrightarrow> (\<forall>th \<in> set ths. dom (posted th) \<inter> dom M = {}) \<and>
     sorted_wrt (\<lambda>th later. dom (posted later) \<inter> dom (posted th) = {} \<and> cancelled later \<inter> dom (posted th) = {}) ths"

lemma fresh_batch_append:
  "fresh_batch M (ths @ [th]) \<longleftrightarrow> fresh_batch M ths \<and> dom (posted th) \<inter> dom M = {} \<and>
     (\<forall>t \<in> set ths. dom (posted th) \<inter> dom (posted t) = {} \<and> cancelled th \<inter> dom (posted t) = {})"
  by (auto simp: fresh_batch_def sorted_wrt_append)

lemma batch_ok_snoc:
  assumes "batch_ok M ths" "batch_ok (fold thunk_step ths M) [th]" "fresh_batch M (ths @ [th])"
  shows "batch_ok M (ths @ [th])"
  using assms
proof (induction ths arbitrary: M)
  case (Cons t ths)
  have "fresh_batch (thunk_step t M) (ths @ [th])"
    using Cons.prems(3) dom_thunk_step [of _ t M] by (fastforce simp: fresh_batch_def)
  then have "batch_ok (thunk_step t M) (ths @ [th])" using Cons by simp
  then show ?case using Cons.prems by (auto simp: fresh_batch_def)
qed simp

lemma blocks_batch:
  assumes "blocks w ths w'"
  shows "thunks w' = thunks w @ ths \<and> wu_persisted_round_number w' = wu_persisted_round_number w \<and>
    (fresh_batch (offers (committed_offers w)) ths \<and> (\<forall>th \<in> set ths. exists_partial_exec th = Some True) \<longrightarrow>
      batch_ok (offers (committed_offers w)) ths \<and> offers (committed_offers w') = fold thunk_step ths (offers (committed_offers w)))"
  using assms
proof induction
  case (next_block w ths w1 w2 n w3)
  obtain th where th: "thunks w3 = thunks w2 @ [th]" "wu_persisted_round_number w3 = wu_persisted_round_number w2" "thunk_ok th"
    "dom (posted th) \<inter> dom (offers (committed_offers w2)) = {}"
    "exists_partial_exec th = Some True \<and> offers (committed_offers w3) = thunk_step th (offers (committed_offers w2)) \<and>
       (\<exists>v. ((offers (committed_offers w2) |` (- cancelled th)) ++ posted th) (partial_exec_key th) = Some v \<and>
         0 \<le> sint (partial_exec_amount th) \<and> partial_exec_amount th \<le> offer_amount v) \<or>
     exists_partial_exec th = Some False \<and> offers (committed_offers w3) = Map.empty \<and> partial_exec_key th = replicate 44 15"
    by (rule block_thunk [OF next_block.hyps(5)])
  have last: "last (thunks w3) = th" using th(1) by simp
  let ?M = "offers (committed_offers w)"
  have "batch_ok ?M (ths @ [th]) \<and> offers (committed_offers w3) = fold thunk_step (ths @ [th]) ?M"
    if fresh: "fresh_batch ?M (ths @ [th])" and left: "\<forall>t \<in> set (ths @ [th]). exists_partial_exec t = Some True"
  proof -
    have ih: "batch_ok ?M ths" "offers (committed_offers w2) = fold thunk_step ths ?M"
      using next_block.IH next_block.hyps(2) fresh left by (auto simp: fresh_batch_append)
    have e: "exists_partial_exec th = Some True" using left by simp
    then have one: "offers (committed_offers w3) = thunk_step th (offers (committed_offers w2))"
      "\<exists>v. ((offers (committed_offers w2) |` (- cancelled th)) ++ posted th) (partial_exec_key th) = Some v \<and>
         0 \<le> sint (partial_exec_amount th) \<and> partial_exec_amount th \<le> offer_amount v"
      using th(5) by simp_all
    have "batch_ok (offers (committed_offers w2)) [th]" using th(3,4) e one(2) by simp
    then show ?thesis using batch_ok_snoc [OF ih(1) _ fresh] ih(2) one(1) by simp
  qed
  moreover have "thunks w3 = thunks w @ ths @ [th]" "wu_persisted_round_number w3 = wu_persisted_round_number w"
    using next_block.IH next_block.hyps(3,4) th(1,2) by simp_all
  ultimately show ?case unfolding last by blast
qed simp

theorem persist_blocks:
  assumes L: "lmdb_laws 22 L" and I: "env_open I" "lmdb_round I \<le> n" "stored L (table I) (offers (committed_offers w))"
    and run: "blocks w ths w'" "thunks w = []" "ths \<noteq> []" "fresh_batch (offers (committed_offers w)) ths"
      "\<forall>th \<in> set ths. exists_partial_exec th = Some True"
    and numbers: "thunk_block_number (hd ths) = wu_persisted_round_number w + 1" "\<forall>th \<in> set ths. thunk_block_number th \<le> n"
  shows "\<exists>I'. wu_persist_lmdb L n (w', I) = Inr (w'\<lparr>thunks := [], wu_persisted_round_number := n\<rparr>, I') \<and>
    stored L (table I') (offers (committed_offers w')) \<and> meta_round I' = Some n \<and> lmdb_round I' = n"
proof -
  have w': "thunks w' = ths" "wu_persisted_round_number w' = wu_persisted_round_number w" "batch_ok (offers (committed_offers w)) ths"
    "offers (committed_offers w') = fold thunk_step ths (offers (committed_offers w))"
    using blocks_batch [OF run(1)] run by simp_all
  obtain d' where d': "write_phases L ths (table I) = Inr d'" "stored L d' (offers (committed_offers w'))"
    using write_phases_stored [OF L I(3) w'(3) run(3)] unfolding w'(4) by blast
  have "filter (\<lambda>th. thunk_block_number th \<le> n) ths = ths" "filter (\<lambda>th. \<not> thunk_block_number th \<le> n) ths = []"
    using numbers(2) by (simp_all add: filter_id_conv filter_empty_conv)
  then have "write_thunks L n w' (table I) = Inr (w'\<lparr>thunks := []\<rparr>, d')"
    using numbers(1) run(3) d'(1) by (simp add: write_thunks_def w'(1,2) Let_def)
  then show ?thesis using I(1,2) d'(2) by (simp add: wu_persist_lmdb_def commit_wtxn_def Let_def)
qed

text \<open>A block that emptied the market, written alone.\<close>

lemma not_less_max_key: "\<not> key_less (replicate n 15) k"
proof (induction n arbitrary: k)
  case (Suc n)
  have "x \<le> 15" for x :: nib using uint_lt2p [of x] by (simp add: word_le_def)
  then have "\<not> 15 < x" for x :: nib by (simp add: not_less)
  then show ?case using Suc by (cases k) simp_all
qed (cases k; simp)

lemma less_max_key: "length k = n \<Longrightarrow> k \<noteq> replicate n 15 \<Longrightarrow> key_less k (replicate n 15)"
  using key_less_linear [of k "replicate n 15"] not_less_max_key by auto

lemma write_phases_empty:
  assumes L: "lmdb_laws 22 L" and d: "stored L d M"
    and th: "thunk_ok th" "exists_partial_exec th = Some False" "partial_exec_key th = replicate 44 15" "replicate 44 15 \<notin> dom (posted th)"
  shows "\<exists>d'. write_phases L [th] d = Inr d' \<and> stored L d' Map.empty"
proof -
  have key0: "replicate (2 * WORKUNIT_KEY_LEN) 0 = replicate 44 0" by (simp add: WORKUNIT_KEY_LEN_def)
  have "stored L (delete_keys L (deleted_keys th) d) (M |` (- fst ` set (deleted_keys th)))"
    using delete_keys_stored [OF L d, of "deleted_keys th"] th(1) by (simp add: thunk_ok_def cancelled_def)
  from write_executions_below(2) [OF L this, of "replicate 44 0"] obtain d2 where
    d2: "write_executions L False (replicate 44 0) (delete_keys L (deleted_keys th) d) = Inr d2" "stored L d2 Map.empty" by auto
  obtain d3 where d3: "write_new_offers L [th] (replicate 44 0) d2 = Inr d3" "stored L d3 (Map.empty ++ kept_offers [th])"
    using write_new_offers_stored [OF L d2(2), of "[th]"] th(1) by auto
  have "k \<notin> beyond [th]" if "k \<in> dom (posted th)" for k
  proof -
    have "length k = 44" using that by (auto simp: posted_def dom_map_of_conv_image_fst)
    moreover have "k \<noteq> replicate 44 15" using that th(4) by blast
    ultimately show ?thesis using less_max_key [of k 44] th(3) by simp
  qed
  then have "posted th |` beyond [th] = Map.empty" by (auto simp: restrict_map_def fun_eq_iff)
  then have "Map.empty ++ kept_offers [th] = Map.empty" by simp
  then show ?thesis using d2(1) d3 th(2) by (simp add: write_phases_def key0)
qed

theorem persist_empty:
  assumes L: "lmdb_laws 22 L" and I: "env_open I" "lmdb_round I \<le> n" "stored L (table I) M"
    and run: "block_step n w w'" "thunks w = []" "exists_partial_exec (last (thunks w')) = Some False"
      "replicate 44 15 \<notin> dom (posted (last (thunks w')))" "n = wu_persisted_round_number w + 1"
  shows "\<exists>I'. wu_persist_lmdb L n (w', I) = Inr (w'\<lparr>thunks := [], wu_persisted_round_number := n\<rparr>, I') \<and>
    offers (committed_offers w') = Map.empty \<and> stored L (table I') Map.empty"
proof (rule block_thunk [OF run(1)])
  fix th
  assume th: "thunks w' = thunks w @ [th]" "thunk_block_number th = n" "wu_persisted_round_number w' = wu_persisted_round_number w" "thunk_ok th"
    and left: "exists_partial_exec th = Some True \<and> offers (committed_offers w') = thunk_step th (offers (committed_offers w)) \<and>
       (\<exists>v. ((offers (committed_offers w) |` (- cancelled th)) ++ posted th) (partial_exec_key th) = Some v \<and>
         0 \<le> sint (partial_exec_amount th) \<and> partial_exec_amount th \<le> offer_amount v) \<or>
     exists_partial_exec th = Some False \<and> offers (committed_offers w') = Map.empty \<and> partial_exec_key th = replicate 44 15"
  have e: "exists_partial_exec th = Some False" "replicate 44 15 \<notin> dom (posted th)" using run(3,4) th(1) by simp_all
  then have "offers (committed_offers w') = Map.empty" "partial_exec_key th = replicate 44 15" using left by simp_all
  moreover obtain d' where "write_phases L [th] (table I) = Inr d'" "stored L d' Map.empty"
    using write_phases_empty [OF L I(3) th(4) e(1) _ e(2)] calculation(2) by blast
  moreover have "thunks w' = [th]" using th(1) run(2) by simp
  ultimately show ?thesis using th(2,3) run(5) I(1,2) by (simp add: wu_persist_lmdb_def write_thunks_def commit_wtxn_def Let_def)
qed

section \<open>Reading a market back\<close>

lemma block_offers:
  assumes "block_step n w w2"
  shows "book (committed_offers w2)" "offers (committed_offers w2) k = Some v \<Longrightarrow> k = key_of v \<and> offer_amount v \<noteq> 0"
proof -
  obtain w1 amount prices tax s c s2 c2 where w1: "sound_book (committed_offers w1)"
    and c: "commitment_sized c" and run0: "process_clear_offers amount prices tax w1 s c = Inr (w2, s2, c2)"
    using assms unfolding block_step_def by blast
  obtain db log stats db2 log2 stats2 where "s = (db, log, stats)" "s2 = (db2, log2, stats2)" by (cases s, cases s2)
  note run = c run0 [unfolded this]
  have "book (committed_offers w2) \<and> (offers (committed_offers w2) k = Some v \<longrightarrow> k = key_of v \<and> offer_amount v \<noteq> 0)"
    using w1 run
  proof (cases rule: process_clear_cases)
    case (partial p q A j u B e S dbA logA idx sell buy offer')
    have good: "k = key_of v \<and> offer_amount v \<noteq> 0" if "(k, v) \<in> set (offer_list (committed_offers w1))" for k v
      using sound_bookD(4) [OF w1 that] by auto
    have list: "offer_list (committed_offers w1) = A @ (j, u) # B" using partial(3) by (simp add: cut_of_def)
    have j: "j = key_of offer'" using good [of j u] partial(9) by (simp add: list)
    have B: "map_of B k = Some v \<Longrightarrow> k = key_of v \<and> offer_amount v \<noteq> 0" using good [of k v] map_of_SomeD [of B k v] by (simp add: list)
    show ?thesis
    proof (cases "0 < offer_amount offer' \<and> k = j")
      case True
      then show ?thesis using partial(11,12) j by auto
    next
      case False
      then show ?thesis using partial(11,12) B by (auto split: if_splits)
    qed
  qed simp
  then show "book (committed_offers w2)" "offers (committed_offers w2) k = Some v \<Longrightarrow> k = key_of v \<and> offer_amount v \<noteq> 0" by simp_all
qed

lemma load_offers_spec:
  assumes "book T" "\<forall>(b, v) \<in> set kvs. offer_amount v \<noteq> 0"
  shows "\<exists>T'. load_offers kvs T = Inr T' \<and> book T' \<and> offers T' = offers T ++ map_of (rev (map (\<lambda>(b, v). (key_of v, v)) kvs))"
  using assms
proof (induction kvs arbitrary: T)
  case (Cons kv kvs)
  obtain b v where kv: "kv = (b, v)" by (cases kv)
  obtain T1 where T1: "trie_insert offer_insert_fn (key_of v) v T = Inr T1" "book T1" "offers T1 = (offers T)(key_of v \<mapsto> v)"
    using book_insert [OF Cons.prems(1) length_offer_key] by blast
  obtain T2 where T2: "load_offers kvs T1 = Inr T2" "book T2" "offers T2 = offers T1 ++ map_of (rev (map (\<lambda>(b, v). (key_of v, v)) kvs))"
    using Cons.IH [OF T1(2)] Cons.prems(2) by auto
  have "offers T2 = offers T ++ map_of (rev (map (\<lambda>(b, v). (key_of v, v)) (kv # kvs)))"
    by (simp add: T2(3) T1(3) kv map_add_def fun_eq_iff split: option.split)
  then show ?case using T1(1) T2(1,2) Cons.prems(2) kv by auto
qed simp

lemma stored_entries:
  assumes L: "lmdb_laws n L" and d: "stored L d M" and M: "\<And>k v. M k = Some v \<Longrightarrow> k = key_of v"
  shows "map_of (rev (map (\<lambda>(b, v). (key_of v, v)) (mdb_entries L d))) = M"
proof
  fix k
  let ?xs = "mdb_entries L d"
  have xs: "map_of ?xs = disk_map L d" "distinct (map fst ?xs)" using L by (simp_all add: lmdb_laws_def)
  have entry: "M (bytes_key b) = Some v" "bytes_key b = key_of v" if "(b, v) \<in> set ?xs" for b v
  proof -
    have "disk_map L d b = Some v" using that xs by (metis map_of_is_SomeI)
    then show "M (bytes_key b) = Some v" using d by (simp add: stored_def)
    then show "bytes_key b = key_of v" using M by blast
  qed
  show "map_of (rev (map (\<lambda>(b, v). (key_of v, v)) ?xs)) k = M k"
  proof (cases "M k")
    case None
    have "k \<noteq> key_of v" if "(b, v) \<in> set ?xs" for b v using entry [OF that] None by auto
    then show ?thesis unfolding None by (simp only: map_of_eq_None_iff) fastforce
  next
    case (Some v)
    have "length k = 44" using d Some by (auto simp: stored_def)
    then have "disk_map L d (get_bytes_array k) = Some v" using d Some by (simp add: stored_def bytes_key_get_bytes)
    then have "(get_bytes_array k, v) \<in> set ?xs" unfolding xs(1) [symmetric] by (rule map_of_SomeD)
    then have "(k, v) \<in> set (rev (map (\<lambda>(b, v). (key_of v, v)) ?xs))" using M [OF Some] by force
    moreover have "u = v" if "(k, u) \<in> set (rev (map (\<lambda>(b, v). (key_of v, v)) ?xs))" for u
      using that entry Some by fastforce
    ultimately show ?thesis unfolding Some
      by (metis (no_types, lifting) map_of_SomeD weak_map_of_SomeI)
  qed
qed

theorem load_stored:
  assumes L: "lmdb_laws 22 L" and d: "stored L (table I) (offers T)" and T: "book T" "\<And>k v. offers T k = Some v \<Longrightarrow> k = key_of v \<and> offer_amount v \<noteq> 0"
    and w: "committed_offers w = empty_trie"
  shows "\<exists>w'. wu_load_lmdb_contents_to_memory L I w = Inr w' \<and> book (committed_offers w') \<and> offers (committed_offers w') = offers T"
proof -
  have "\<forall>(b, v) \<in> set (mdb_entries L (table I)). offer_amount v \<noteq> 0"
  proof clarify
    fix b v assume "(b, v) \<in> set (mdb_entries L (table I))" "offer_amount v = 0"
    moreover have "map_of (mdb_entries L (table I)) = disk_map L (table I)" "distinct (map fst (mdb_entries L (table I)))"
      using L by (simp_all add: lmdb_laws_def)
    ultimately have "offers T (bytes_key b) = Some v" using d by (metis map_of_is_SomeI stored_def)
    then show False using T(2) \<open>offer_amount v = 0\<close> by blast
  qed
  from load_offers_spec [OF book_empty(1) this] stored_entries [OF L d] T(2)
  obtain T' where "load_offers (mdb_entries L (table I)) empty_trie = Inr T'" "book T'" "offers T' = offers T" by auto
  then show ?thesis by (simp add: wu_load_lmdb_contents_to_memory_def w)
qed

end
