(* ===== verification/Rollback_Order.thy ===== *)
theory Rollback_Order
  imports Disk_Blocks
begin

text \<open>
  Rolling back two blocks, \<open>rollback_thunks\<close> of \<^verbatim>\<open>merkle_work_unit.cc\<close>: the thunks are undone from the
  oldest to the newest, so that what the newer one restores is not taken back.
\<close>

section \<open>What a thunk records\<close>

text \<open>\<open>M\<close> were the committed offers, \<open>U\<close> the new ones, \<open>N\<close> what the block left; \<open>C\<close> are the offers it executed in full.\<close>

definition block_record ::
    "(key \<Rightarrow> Offer option) \<Rightarrow> (key \<Rightarrow> Offer option) \<Rightarrow> (key \<Rightarrow> Offer option) \<Rightarrow> WorkUnitLMDBCommitmentThunk \<Rightarrow> Offer MerkleTrie \<Rightarrow> bool \<Rightarrow> bool" where
  "block_record M U N th C b \<longleftrightarrow>
     distinct (map fst (deleted_keys th)) \<and> (\<forall>(k, v) \<in> set (deleted_keys th). length k = 44) \<and> cancelled th \<subseteq> dom M \<and>
     key_of ` set (uncommitted_offers_vec th) = dom U \<and> dom M \<inter> dom U = {} \<and>
     trie_clean_singlechild_nodes (partial_exec_key th) (cleared_offers th) = Inr C \<and> book C \<and> dom (offers C) \<subseteq> dom M \<union> dom U \<and>
     exists_partial_exec th = Some b \<and> length (partial_exec_key th) = 44 \<and> (b \<longrightarrow> partial_exec_key th \<in> dom M \<union> dom U) \<and>
     dom N \<subseteq> dom M \<union> dom U \<and>
     (\<forall>k v. ((M |` (- cancelled th)) ++ U) k = Some v \<and> N k = None \<longrightarrow>
        (if b \<and> k = partial_exec_key th then preexecute_partial_exec_offer th = v else offers C k = Some v))"

lemma block_records:
  assumes "block_step n w w2"
  obtains th C b where "thunks w2 = thunks w @ [th]" "thunk_block_number th = n" "wu_persisted_round_number w2 = wu_persisted_round_number w"
    "book (committed_offers w2)"
    "block_record (offers (committed_offers w)) (offers (uncommitted_offers w)) (offers (committed_offers w2)) th C b"
proof -
  let ?M = "offers (committed_offers w)" and ?U = "offers (uncommitted_offers w)" and ?N = "offers (committed_offers w2)"
  obtain w1 amount prices tax s c s2 c2 where w1: "block_ready w" "tentative_commit_for_validation n w = Inr w1"
    "sound_book (committed_offers w1)" and c: "commitment_sized c" and run0: "process_clear_offers amount prices tax w1 s c = Inr (w2, s2, c2)"
    using assms unfolding block_step_def by blast
  obtain db log stats db2 log2 stats2 where "s = (db, log, stats)" "s2 = (db2, log2, stats2)" by (cases s, cases s2)
  note run = c run0 [unfolded this]
  obtain vec del where ac: "after_commit n ?M ?U vec del w w1" using block_after_commit [OF w1(1,2)] .
  note ac = ac [unfolded after_commit_def]
  let ?W = "offers (committed_offers w1)"
  have t1: "thunks w1 = thunks w @ [(new_thunk n)\<lparr>uncommitted_offers_vec := vec, deleted_keys := del\<rparr>]"
    "wu_persisted_round_number w1 = wu_persisted_round_number w"
    by (subst ac [THEN conjunct1], simp)+
  have dom: "fst ` set del = dom (map_of del)" by (simp add: dom_map_of_conv_image_fst)
  have can: "fst ` set del \<subseteq> dom ?M" using ac map_le_implies_dom_le [of "map_of del" ?M] by (simp add: dom)
  have W: "?W = (?M |` (- fst ` set del)) ++ ?U"
  proof -
    have "(\<lambda>k. if map_of del k \<noteq> None then None else ?M k) = ?M |` (- fst ` set del)" by (auto simp: dom restrict_map_def fun_eq_iff)
    then show ?thesis using ac by simp
  qed
  have domW: "dom ?W \<subseteq> dom ?M \<union> dom ?U" unfolding W by auto
  note thunk = ac can
  show thesis
    using w1(3) run
  proof (cases rule: process_clear_cases)
    case (full p q A e S log2)
    define th where "th = set_no_partial_exec ((new_thunk n)\<lparr>uncommitted_offers_vec := vec, deleted_keys := del, cleared_offers := S\<rparr>)"
    have th: "cancelled th = fst ` set del" "deleted_keys th = del" "uncommitted_offers_vec th = vec" "cleared_offers th = S"
      "exists_partial_exec th = Some False" "partial_exec_key th = replicate 44 15" "thunk_block_number th = n"
      by (simp_all add: th_def set_no_partial_exec_def cancelled_def new_thunk_def)
    have w2: "thunks w2 = thunks w @ [th]" "wu_persisted_round_number w2 = wu_persisted_round_number w"
      by (subst full(10), simp add: t1 th_def, subst full(10), simp add: t1(2))
    obtain C where C: "trie_clean_singlechild_nodes (partial_exec_key th) S = Inr C" "book C" "offer_list C = A"
      using full(3) unfolding th(6) cut_of_def by (metis length_replicate)
    have "offers C = ?W" using full(3) C(3) by (simp add: offers_offer_list cut_of_def)
    then have "block_record ?M ?U ?N th C False"
      using thunk C(1,2) domW full(9) by (auto simp: block_record_def th W)
    then show thesis using that [OF w2(1) th(7) w2(2) full(8)] by blast
  next
    case (partial p q A k v B e S dbA logA idx sell buy offer')
    define th where "th = set_partial_exec k sell v ((new_thunk n)\<lparr>uncommitted_offers_vec := vec, deleted_keys := del, cleared_offers := S\<rparr>)"
    have th: "cancelled th = fst ` set del" "deleted_keys th = del" "uncommitted_offers_vec th = vec" "cleared_offers th = S"
      "exists_partial_exec th = Some True" "partial_exec_key th = k" "preexecute_partial_exec_offer th = v" "thunk_block_number th = n"
      by (simp_all add: th_def set_partial_exec_def cancelled_def new_thunk_def)
    have w2: "thunks w2 = thunks w @ [th]" "wu_persisted_round_number w2 = wu_persisted_round_number w"
      by (subst partial(13), simp add: t1 th_def, subst partial(13), simp add: t1(2))
    have list: "offer_list (committed_offers w1) = A @ (k, v) # B" using partial(3) by (simp add: cut_of_def)
    have k: "length k = 44" "?W k = Some v" using sound_bookD(4,5) [OF w1(3), of k v] length_offer_key by (simp_all add: list)
    obtain C where C: "trie_clean_singlechild_nodes (partial_exec_key th) S = Inr C" "book C" "offer_list C = A"
      using partial(3) k(1) unfolding th(6) cut_of_def by auto
    have around: "offers C j = ?W j \<or> ?N j = ?W j \<and> offers C j = None" if "j \<noteq> k" for j
    proof -
      have "distinct (map fst (A @ (k, v) # B))" using offer_list_distinct [OF sound_bookD(1) [OF w1(3)]] by (simp add: list)
      then have "map_of A j = None \<or> map_of B j = None" by (auto simp: map_of_eq_None_iff)
      then show ?thesis
        using that partial(12) C(3) by (auto simp: offers_offer_list [of C] offers_offer_list [of "committed_offers w1"] list map_add_def split: option.splits if_splits)
    qed
    have "j \<in> dom ?W" if "j \<in> dom ?N" for j
    proof (cases "j = k")
      case False
      have "j \<in> dom (map_of B)" using that False partial(12) by (auto split: if_splits)
      then show ?thesis by (auto simp: offers_offer_list [of "committed_offers w1"] list map_add_dom_app_simps dom_map_of_conv_image_fst)
    qed (use k(2) in blast)
    then have domN: "dom ?N \<subseteq> dom ?M \<union> dom ?U" using domW by blast
    have domC: "dom (offers C) \<subseteq> dom ?M \<union> dom ?U"
    proof -
      have "dom (offers C) \<subseteq> dom ?W" unfolding offers_offer_list C(3) list by (auto simp: dom_map_of_conv_image_fst)
      then show ?thesis using domW by blast
    qed
    have rec: "if True \<and> j = k then v = u else offers C j = Some u" if "?W j = Some u" "?N j = None" for j u
      using that around [of j] k(2) by auto
    have "k \<in> dom ?M \<union> dom ?U" using k(2) domW by blast
    moreover have "distinct (map fst del)" "\<forall>(j, u) \<in> set del. length j = 44" "key_of ` set vec = dom ?U" "dom ?M \<inter> dom ?U = {}"
      using ac by blast+
    moreover have "\<forall>j u. ((?M |` (- fst ` set del)) ++ ?U) j = Some u \<and> ?N j = None \<longrightarrow> (if True \<and> j = k then v = u else offers C j = Some u)"
      unfolding W [symmetric] by (intro allI impI, elim conjE) (rule rec)
    ultimately have "block_record ?M ?U ?N th C True"
      unfolding block_record_def th using can C(1,2) [unfolded th] domN domC k(1) by blast
    then show thesis using that [OF w2(1) th(8) w2(2) partial(11)] by blast
  qed
qed

lemma undo_record:
  assumes r: "block_record M U N th C b" and w: "book (committed_offers w)"
    and K: "finite K" "card K < 2 ^ 32" "dom (offers (committed_offers w)) \<union> dom M \<union> dom U \<subseteq> K"
  shows "\<exists>T. undo_thunk th w = Inr (w\<lparr>committed_offers := T\<rparr>) \<and> book T \<and> dom (offers T) \<subseteq> K \<and>
    offers T = (let X = (offers (committed_offers w) ++ map_of (deleted_keys th) ++ offers C) |` (- dom U)
                in if b then X(partial_exec_key th \<mapsto> preexecute_partial_exec_offer th) else X)"
proof -
  note r = r [unfolded block_record_def]
  have sub: "dom (offers (committed_offers w)) \<union> fst ` set (deleted_keys th) \<union> dom (offers C) \<subseteq> K"
  proof -
    have "cancelled th \<subseteq> dom M" "dom (offers C) \<subseteq> dom M \<union> dom U" using r by - (elim conjE, assumption)+
    then show ?thesis using K(3) unfolding cancelled_def by blast
  qed
  obtain T where T: "undo_thunk th w = Inr (w\<lparr>committed_offers := T\<rparr>)" "book T"
    "offers T = (let X = (offers (committed_offers w) ++ map_of (deleted_keys th) ++ offers C) |` (- dom U)
                in if b then X(partial_exec_key th \<mapsto> preexecute_partial_exec_offer th) else X)"
  proof -
    have "\<forall>(k, v) \<in> set (deleted_keys th). length k = 44" "distinct (map fst (deleted_keys th))"
      "trie_clean_singlechild_nodes (partial_exec_key th) (cleared_offers th) = Inr C" "book C"
      "exists_partial_exec th = Some b" "length (partial_exec_key th) = 44" and U: "key_of ` set (uncommitted_offers_vec th) = dom U"
      using r by - (elim conjE, assumption)+
    then show ?thesis using that undo_thunk_spec [OF w _ _ _ _ K(1,2) sub, of b] unfolding U by blast
  qed
  have "b \<longrightarrow> partial_exec_key th \<in> dom M \<union> dom U" using r by (elim conjE) assumption
  then have "fst ` set (deleted_keys th) \<subseteq> K" "dom (offers C) \<subseteq> K" "b \<longrightarrow> partial_exec_key th \<in> K" using sub K(3) by blast+
  then have "dom ((offers (committed_offers w) ++ map_of (deleted_keys th) ++ offers C) |` (- dom U)) \<subseteq> K"
    using K(3) unfolding dom_restrict dom_map_add dom_map_of_conv_image_fst by blast
  then have "dom (offers T) \<subseteq> K"
    using \<open>b \<longrightarrow> partial_exec_key th \<in> K\<close> unfolding T(3) Let_def by (cases b) (simp_all only: if_True if_False simp_thms dom_fun_upd option.distinct insert_subset)
  then show ?thesis using T by blast
qed


section \<open>Two blocks\<close>

lemma undo_thunks_older:
  "\<forall>th \<in> set ths. thunk_block_number th \<le> m \<Longrightarrow>
     undo_thunks m (ths @ news) w = res_bind (undo_thunks m news w) (\<lambda>(kept, w'). Inr (ths @ kept, w'))"
proof (induction ths)
  case Nil
  show ?case by (cases "undo_thunks m news w") auto
next
  case (Cons th ths)
  then show ?case by (cases "undo_thunks m news w") (auto simp: not_less)
qed

lemma two_blocks_undone:
  assumes step1: "block_step n w w2" and step2: "block_step n' w2' w4"
    and between: "offers (committed_offers w2') = offers (committed_offers w2)" "thunks w2' = thunks w2"
      "wu_persisted_round_number w2' = wu_persisted_round_number w2"
    and old: "\<forall>th \<in> set (thunks w). thunk_block_number th \<le> m" "m < n" "m < n'" "wu_persisted_round_number w < m"
    and few: "card (dom (offers (committed_offers w)) \<union> dom (offers (uncommitted_offers w)) \<union> dom (offers (uncommitted_offers w2'))) < 2 ^ 32"
    and k: "offers (uncommitted_offers w) k \<noteq> None" "offers (committed_offers w2) k = Some v" "k \<notin> cancelled (last (thunks w4))"
      "offers (committed_offers w4) k = None"
  shows "\<exists>w5. rollback_thunks m w4 = Inr w5 \<and> thunks w5 = thunks w \<and>
    offers (committed_offers w) k = None \<and> offers (committed_offers w5) k = Some v"
proof -
  let ?M = "offers (committed_offers w)" and ?U = "offers (uncommitted_offers w)" and ?N = "offers (committed_offers w2)"
    and ?U' = "offers (uncommitted_offers w2')" and ?N' = "offers (committed_offers w4)"
  let ?K = "dom ?M \<union> dom ?U \<union> dom ?U'"
  obtain th C b where 1: "thunks w2 = thunks w @ [th]" "thunk_block_number th = n" "wu_persisted_round_number w2 = wu_persisted_round_number w"
    "book (committed_offers w2)" "block_record ?M ?U ?N th C b"
    using block_records [OF step1] .
  obtain th' C' b' where 2: "thunks w4 = thunks w2' @ [th']" "thunk_block_number th' = n'" "wu_persisted_round_number w4 = wu_persisted_round_number w2'"
    "book (committed_offers w4)" "block_record ?N ?U' ?N' th' C' b'"
    using block_records [OF step2] unfolding between(1) .
  have fin: "finite ?K"
    using step1 step2 book_inv finite_offers unfolding block_step_def block_ready_def by blast
  have domN: "dom ?N \<subseteq> dom ?M \<union> dom ?U" and domN': "dom ?N' \<subseteq> dom ?N \<union> dom ?U'" and disj: "dom ?N \<inter> dom ?U' = {}" "dom ?M \<inter> dom ?U = {}"
    using 1(5) 2(5) unfolding block_record_def by - (elim conjE, assumption)+
  obtain T where T: "undo_thunk th w4 = Inr (w4\<lparr>committed_offers := T\<rparr>)" "book T" "dom (offers T) \<subseteq> ?K"
    using undo_record [OF 1(5) 2(4) fin few] domN domN' by blast
  have T': "book (committed_offers (w4\<lparr>committed_offers := T\<rparr>))"
    "dom (offers (committed_offers (w4\<lparr>committed_offers := T\<rparr>))) \<union> dom ?N \<union> dom ?U' \<subseteq> ?K" using T(2,3) domN by auto
  obtain X where X: "undo_thunk th' (w4\<lparr>committed_offers := T\<rparr>) = Inr (w4\<lparr>committed_offers := X\<rparr>)"
    "offers X = (let Y = (offers T ++ map_of (deleted_keys th') ++ offers C') |` (- dom ?U')
                in if b' then Y(partial_exec_key th' \<mapsto> preexecute_partial_exec_offer th') else Y)"
    using undo_record [OF 2(5) T'(1) fin few T'(2)] by auto
  have "k \<notin> dom ?U'" using k(2) disj(1) by blast
  moreover have "if b' \<and> k = partial_exec_key th' then preexecute_partial_exec_offer th' = v else offers C' k = Some v"
  proof -
    have all: "\<forall>k v. ((?N |` (- cancelled th')) ++ ?U') k = Some v \<and> ?N' k = None \<longrightarrow>
        (if b' \<and> k = partial_exec_key th' then preexecute_partial_exec_offer th' = v else offers C' k = Some v)"
      using 2(5) unfolding block_record_def by (elim conjE) assumption
    have at: "((?N |` (- cancelled th')) ++ ?U') k = Some v"
      using k(2,3) \<open>k \<notin> dom ?U'\<close> by (simp add: 2(1) map_add_dom_app_simps)
    show ?thesis by (rule mp [OF spec [OF spec [OF all]] conjI [OF at k(4)]])
  qed
  ultimately have found: "offers X k = Some v" unfolding X(2) Let_def by (cases b') (auto split: if_splits)
  have "undo_thunks m (thunks w4) w4 = Inr (thunks w, w4\<lparr>committed_offers := X\<rparr>)"
    using undo_thunks_older [OF old(1), of "[th, th']" w4] T(1) X(1) old(2,3) by (simp add: 1(1,2) 2(1,2) between(2))
  then have "rollback_thunks m w4 = Inr (w4\<lparr>committed_offers := X, thunks := thunks w\<rparr>)"
    using old(4) 1(3) 2(3) between(3) by (simp add: rollback_thunks_def)
  moreover have "?M k = None" using k(1) disj(2) by blast
  ultimately show ?thesis using found by auto
qed

section \<open>The state between two blocks\<close>

text \<open>After a block there are no new offers.\<close>

lemma block_step_posts: "block_step n w w2 \<Longrightarrow> uncommitted_offers w2 = empty_trie"
proof -
  assume "block_step n w w2"
  then obtain w1 amount prices tax s c s2 c2 where w1: "block_ready w" "tentative_commit_for_validation n w = Inr w1"
    "sound_book (committed_offers w1)" and c: "commitment_sized c" and run: "process_clear_offers amount prices tax w1 s c = Inr (w2, s2, c2)"
    unfolding block_step_def by blast
  obtain vec del where "after_commit n (offers (committed_offers w)) (offers (uncommitted_offers w)) vec del w w1"
    using block_after_commit [OF w1(1,2)] .
  then have 1: "uncommitted_offers w1 = empty_trie" unfolding after_commit_def by (elim conjE) (erule ssubst, simp)
  obtain db log stats db2 log2 stats2 where s: "s = (db, log, stats)" "s2 = (db2, log2, stats2)" by (cases s, cases s2)
  show ?thesis
    using w1(3) c run [unfolded s]
  proof (cases rule: process_clear_cases)
    case full
    show ?thesis by (subst full(10)) (simp add: 1)
  next
    case partial
    show ?thesis by (subst partial(13)) (simp add: 1)
  qed
qed

lemma block_posts:
  assumes "block_step n w w2"
  shows "thunk_block_number (last (thunks w2)) = n" "dom (posted (last (thunks w2))) = dom (offers (uncommitted_offers w))"
    "dom (posted (last (thunks w2))) \<inter> dom (offers (committed_offers w)) = {}"
proof -
  obtain th C b where th: "thunks w2 = thunks w @ [th]" "thunk_block_number th = n"
    "block_record (offers (committed_offers w)) (offers (uncommitted_offers w)) (offers (committed_offers w2)) th C b"
    using block_records [OF assms] .
  have "dom (posted th) = dom (offers (uncommitted_offers w))" "dom (offers (committed_offers w)) \<inter> dom (offers (uncommitted_offers w)) = {}"
    using th(3) unfolding block_record_def by (auto simp: posted_def dom_map_of_conv_image_fst image_image)
  then show "thunk_block_number (last (thunks w2)) = n" "dom (posted (last (thunks w2))) = dom (offers (uncommitted_offers w))"
    "dom (posted (last (thunks w2))) \<inter> dom (offers (committed_offers w)) = {}" using th(1,2) by auto
qed

lemma book_ready:
  assumes "marked_book (committed_offers w)" "uncommitted_offers w = empty_trie" "card (dom (offers (committed_offers w))) < 2 ^ 32"
  shows "block_ready w"
  using assms by (simp add: block_ready_def)

lemma committed_book:
  assumes "block_ready w" "tentative_commit_for_validation n w = Inr w1"
  shows "book (committed_offers w1)"
  using block_after_commit [OF assms] unfolding after_commit_def by blast

end
