(* ===== verification/Batch_Cancel.thy ===== *)
theory Batch_Cancel
  imports Disk_Blocks
begin

text \<open>
  Blocks written together some of which cancel what earlier ones posted: \<open>write_thunks\<close> deletes in its first phase
  and inserts in its third, so that such a cancellation has no effect on the disk.  The disk ends up where the
  blocks would have led without them.
\<close>

section \<open>Cancellations of offers that are not on disk\<close>

definition without_cancelled :: "key set \<Rightarrow> WorkUnitLMDBCommitmentThunk \<Rightarrow> WorkUnitLMDBCommitmentThunk" where
  "without_cancelled D th = th\<lparr>deleted_keys := filter (\<lambda>(k, v). k \<notin> D) (deleted_keys th)\<rparr>"

lemma without_cancelled_sel [simp]:
  "cancelled (without_cancelled D th) = cancelled th - D" "posted (without_cancelled D th) = posted th"
  "partial_exec_key (without_cancelled D th) = partial_exec_key th" "exists_partial_exec (without_cancelled D th) = exists_partial_exec th"
  "partial_exec_amount (without_cancelled D th) = partial_exec_amount th"
  "uncommitted_offers_vec (without_cancelled D th) = uncommitted_offers_vec th" "take_partial (without_cancelled D th) = take_partial th"
  by (auto simp: without_cancelled_def cancelled_def posted_def take_partial_def fun_eq_iff image_iff split: option.split)

lemma thunk_ok_without: "thunk_ok th \<Longrightarrow> thunk_ok (without_cancelled D th)"
  by (auto simp: thunk_ok_def)

lemma phases_without:
  "beyond (map (without_cancelled D) ths) = beyond ths" "kept_offers (map (without_cancelled D) ths) = kept_offers ths"
  by (induction ths) simp_all

lemma inserted_without: "D \<inter> dom M = {} \<Longrightarrow> inserted (map (without_cancelled D) ths) M = inserted ths M"
proof -
  assume "D \<inter> dom M = {}"
  then have "M |` (- \<Union> (cancelled ` set (map (without_cancelled D) ths))) = M |` (- \<Union> (cancelled ` set ths))"
    by (auto simp: restrict_map_def fun_eq_iff domIff)
  then show ?thesis by (simp only: inserted_def phases_without)
qed

lemma partials_without:
  "partials_fit (map (without_cancelled D) ths) M = partials_fit ths M" "fold take_partial (map (without_cancelled D) ths) M = fold take_partial ths M"
  "none_left (map (without_cancelled D) ths) M = none_left ths M"
  by (induction ths arbitrary: M) (simp_all add: phases_without(1))

lemma write_phases_without:
  assumes L: "lmdb_laws 22 L" and d: "stored L d M" and ths: "\<forall>th \<in> set ths. partial_thunk th" "ths \<noteq> []"
    and ok: "batch_ok M (map (without_cancelled D) ths)" and D: "D \<inter> dom M = {}"
  shows "\<exists>d'. write_phases L ths d = Inr d' \<and> stored L d' (fold thunk_step (map (without_cancelled D) ths) M)"
proof -
  let ?N = "fold thunk_step (map (without_cancelled D) ths) M"
  have key0: "replicate (2 * WORKUNIT_KEY_LEN) 0 = replicate 44 0" by (simp add: WORKUNIT_KEY_LEN_def)
  obtain kb d1 where d1: "write_cancellations L ths False (replicate 44 0) d = Inr (True, kb, d1)" "length kb = 44"
    "{k. \<not> key_less k kb} = beyond ths" "stored L d1 (M |` (- \<Union> (cancelled ` set ths)))"
    using write_cancellations_stored [OF L d ths(1), of "replicate 44 0" False] ths(2) by (auto simp: not_less_zero_key)
  obtain d2 where d2: "write_executions L True kb d1 = Inr d2" "stored L d2 ((M |` (- \<Union> (cancelled ` set ths))) |` beyond ths)"
    using write_executions_below(1) [OF L d1(4,2)] unfolding d1(3) by blast
  obtain d3 where d3: "write_new_offers L (rev ths) (replicate 44 0) d2 = Inr d3" "stored L d3 (inserted ths M)"
    using write_new_offers_stored [OF L d2(2), of ths] ths(1) unfolding inserted_def by auto
  have p: "partials_fit ths (inserted ths M)" "fold take_partial ths (inserted ths M) = ?N"
    using batch_partials [OF ok] unfolding inserted_without [OF D] partials_without by simp_all
  obtain d4 where d4: "write_partial_executions L ths d3 = Inr d4" "stored L d4 ?N"
    using write_partial_executions_stored [OF L d3(2) ths(1) p(1)] unfolding p(2) by blast
  have "none_left ths ?N" using batch_none_left [OF ok] unfolding partials_without .
  then obtain d5 where d5: "write_cleared_later L ths d4 = Inr d5" "stored L d5 ?N"
    using write_cleared_later_stored [OF L d4(2) ths(1)] by blast
  show ?thesis using d1(1) d2(1) d3(1) d4(1) d5 by (simp add: write_phases_def key0)
qed

section \<open>The blocks without those cancellations\<close>

text \<open>No offer comes twice.\<close>

definition posted_once :: "(key \<Rightarrow> Offer option) \<Rightarrow> WorkUnitLMDBCommitmentThunk list \<Rightarrow> bool" where
  "posted_once M ths \<longleftrightarrow> (\<forall>th \<in> set ths. dom (posted th) \<inter> dom M = {}) \<and>
     sorted_wrt (\<lambda>th later. dom (posted later) \<inter> dom (posted th) = {}) ths"

lemma posted_once_snoc:
  "posted_once M (ths @ [th]) \<longleftrightarrow> posted_once M ths \<and> dom (posted th) \<inter> dom M = {} \<and> (\<forall>t \<in> set ths. dom (posted th) \<inter> dom (posted t) = {})"
  by (auto simp: posted_once_def sorted_wrt_append)

lemma fresh_without:
  assumes "posted_once M ths" "\<forall>th \<in> set ths. dom (posted th) \<subseteq> D"
  shows "fresh_batch M (map (without_cancelled D) ths)"
  using assms by (induction ths) (auto simp: posted_once_def fresh_batch_def)

lemma restrict_mono: "A \<subseteq>\<^sub>m B \<Longrightarrow> A |` K \<subseteq>\<^sub>m B |` K"
  by (auto simp: map_le_def restrict_map_def split: if_splits)

lemma take_partial_mono: "A \<subseteq>\<^sub>m B \<Longrightarrow> A (partial_exec_key th) = Some v \<Longrightarrow> take_partial th A \<subseteq>\<^sub>m take_partial th B"
  using map_le_at [of A B "partial_exec_key th" v] by (simp add: take_partial_def map_le_upd)

lemma thunk_step_mono:
  assumes "N \<subseteq>\<^sub>m S" "((N |` (- cancelled th)) ++ posted th) (partial_exec_key th) = Some v" "dom (posted th) \<inter> dom S = {}"
  shows "((S |` (- (cancelled th - D))) ++ posted th) (partial_exec_key th) = Some v"
    "thunk_step th N \<subseteq>\<^sub>m thunk_step (without_cancelled D th) S"
proof -
  have le: "(N |` (- cancelled th)) ++ posted th \<subseteq>\<^sub>m (S |` (- (cancelled th - D))) ++ posted th"
    using assms(1) by (auto simp: map_le_def map_add_def restrict_map_def domIff split: option.splits if_splits)
  show k: "((S |` (- (cancelled th - D))) ++ posted th) (partial_exec_key th) = Some v"
    by (rule map_le_at [where k = "partial_exec_key th", OF le]) (rule assms(2))
  have in_range: "partial_exec_key th \<in> beyond [th]" using key_less_irrefl by simp
  have "((N |` (- cancelled th)) ++ posted th) |` beyond [th] \<subseteq>\<^sub>m ((S |` (- (cancelled th - D))) ++ posted th) |` beyond [th]"
    by (rule restrict_mono [OF le])
  then have "take_partial th (((N |` (- cancelled th)) ++ posted th) |` beyond [th]) \<subseteq>\<^sub>m
      take_partial th (((S |` (- (cancelled th - D))) ++ posted th) |` beyond [th])"
    by (rule take_partial_mono) (simp only: restrict_in [OF in_range] assms(2))
  then show "thunk_step th N \<subseteq>\<^sub>m thunk_step (without_cancelled D th) S" by (simp add: thunk_step_def)
qed

lemma dom_fold_step: "k \<in> dom (fold thunk_step ths M) \<Longrightarrow> k \<in> dom M \<or> (\<exists>th \<in> set ths. k \<in> dom (posted th))"
proof (induction ths arbitrary: M)
  case (Cons th ths)
  then show ?case using dom_thunk_step [of k th M] by fastforce
qed simp

lemma blocks_without:
  assumes "blocks w ths w'"
  shows "posted_once (offers (committed_offers w)) ths \<and> (\<forall>th \<in> set ths. exists_partial_exec th = Some True) \<and> (\<forall>th \<in> set ths. dom (posted th) \<subseteq> D) \<longrightarrow>
    (\<forall>th \<in> set ths. partial_thunk th) \<and> batch_ok (offers (committed_offers w)) (map (without_cancelled D) ths) \<and>
    offers (committed_offers w') = fold thunk_step ths (offers (committed_offers w)) \<and>
    offers (committed_offers w') \<subseteq>\<^sub>m fold thunk_step (map (without_cancelled D) ths) (offers (committed_offers w))"
  using assms
proof induction
  case (next_block w ths w1 w2 n w3)
  obtain th where th: "thunks w3 = thunks w2 @ [th]" "thunk_ok th"
    "exists_partial_exec th = Some True \<and> offers (committed_offers w3) = thunk_step th (offers (committed_offers w2)) \<and>
       (\<exists>v. ((offers (committed_offers w2) |` (- cancelled th)) ++ posted th) (partial_exec_key th) = Some v \<and>
         0 \<le> sint (partial_exec_amount th) \<and> partial_exec_amount th \<le> offer_amount v) \<or>
     exists_partial_exec th = Some False \<and> offers (committed_offers w3) = Map.empty \<and> partial_exec_key th = replicate 44 15"
    by (rule block_thunk [OF next_block.hyps(5)])
  have last: "last (thunks w3) = th" using th(1) by simp
  let ?M = "offers (committed_offers w)" and ?N = "offers (committed_offers w2)"
  let ?S = "fold thunk_step (map (without_cancelled D) ths) ?M"
  show ?case unfolding last
  proof (intro impI, elim conjE)
    assume once: "posted_once ?M (ths @ [th])" and left: "\<forall>t \<in> set (ths @ [th]). exists_partial_exec t = Some True"
      and D: "\<forall>t \<in> set (ths @ [th]). dom (posted t) \<subseteq> D"
    have ih: "\<forall>t \<in> set ths. partial_thunk t" "batch_ok ?M (map (without_cancelled D) ths)" "?N = fold thunk_step ths ?M" "?N \<subseteq>\<^sub>m ?S"
      using next_block.IH next_block.hyps(2) once left D by (auto simp: posted_once_snoc)
    have e: "exists_partial_exec th = Some True" using left by simp
    obtain v where v: "((?N |` (- cancelled th)) ++ posted th) (partial_exec_key th) = Some v" "0 \<le> sint (partial_exec_amount th)"
      "partial_exec_amount th \<le> offer_amount v" and step: "offers (committed_offers w3) = thunk_step th ?N"
    proof -
      from th(3) e show ?thesis by (elim disjE conjE exE) (rule that, assumption+, simp)
    qed
    have "dom (posted th) \<inter> dom ?S = {}" using once dom_fold_step [of _ "map (without_cancelled D) ths" ?M] by (fastforce simp: posted_once_snoc)
    note mono = thunk_step_mono [OF ih(4) v(1) this, of D]
    have "batch_ok ?S [without_cancelled D th]"
      using thunk_ok_without [OF th(2)] e mono(1) v(2,3) \<open>dom (posted th) \<inter> dom ?S = {}\<close> by simp
    moreover have "fresh_batch ?M (map (without_cancelled D) ths @ [without_cancelled D th])" using fresh_without [OF once D] by simp
    ultimately have "batch_ok ?M (map (without_cancelled D) (ths @ [th]))" using batch_ok_snoc [OF ih(2)] by simp
    then show "(\<forall>t \<in> set (ths @ [th]). partial_thunk t) \<and> batch_ok ?M (map (without_cancelled D) (ths @ [th])) \<and>
        offers (committed_offers w3) = fold thunk_step (ths @ [th]) ?M \<and>
        offers (committed_offers w3) \<subseteq>\<^sub>m fold thunk_step (map (without_cancelled D) (ths @ [th])) ?M"
      using ih(1,3) th(2) e step mono(2) by simp
  qed
qed simp


section \<open>An offer posted and cancelled in one batch\<close>

lemma thunk_step_keeps:
  "M k = Some v \<Longrightarrow> k \<notin> cancelled th \<Longrightarrow> posted th k = None \<Longrightarrow> key_less (partial_exec_key th) k \<Longrightarrow> thunk_step th M k = Some v"
  "posted th k = Some v \<Longrightarrow> key_less (partial_exec_key th) k \<Longrightarrow> thunk_step th M k = Some v"
  using key_less_asym [of "partial_exec_key th" k] key_less_irrefl [of k]
  by (auto simp: thunk_step_def take_partial_def restrict_map_def map_add_def split: option.split)

lemma fold_step_keeps:
  "M k = Some v \<Longrightarrow> \<forall>th \<in> set ths. k \<notin> cancelled th \<and> posted th k = None \<and> key_less (partial_exec_key th) k \<Longrightarrow> fold thunk_step ths M k = Some v"
  by (induction ths arbitrary: M) (simp_all add: thunk_step_keeps)

lemma fold_step_none: "k \<notin> dom M \<Longrightarrow> \<forall>th \<in> set ths. k \<notin> dom (posted th) \<Longrightarrow> fold thunk_step ths M k = None"
  using dom_fold_step [of k ths M] by blast

lemma thunk_step_cancels: "k \<in> cancelled th \<Longrightarrow> k \<notin> dom (posted th) \<Longrightarrow> k \<notin> dom (thunk_step th M)"
  by (auto simp: thunk_step_def take_partial_def restrict_map_def map_add_def split: option.splits if_splits)

theorem persist_cancelled:
  assumes L: "lmdb_laws 22 L" and I: "env_open I" "lmdb_round I \<le> n" "stored L (table I) (offers (committed_offers w))"
    and run: "blocks w ths w'" "thunks w = []" "posted_once (offers (committed_offers w)) ths"
      "\<forall>th \<in> set ths. exists_partial_exec th = Some True"
    and numbers: "thunk_block_number (hd ths) = wu_persisted_round_number w + 1" "\<forall>th \<in> set ths. thunk_block_number th \<le> n"
    and k: "ths = xs @ th # ys @ later # zs" "posted th k = Some v" "k \<in> cancelled later"
      "\<forall>t \<in> set (th # ys @ later # zs). key_less (partial_exec_key t) k"
  shows "\<exists>I'. wu_persist_lmdb L n (w', I) = Inr (w'\<lparr>thunks := [], wu_persisted_round_number := n\<rparr>, I') \<and>
    offers (committed_offers w') k = None \<and> mdb_get L (get_bytes_array k) (table I') = Some v"
proof -
  let ?M = "offers (committed_offers w)" and ?D = "\<Union>t \<in> set ths. dom (posted t)"
  let ?S = "fold thunk_step (map (without_cancelled ?D) ths) ?M"
  have w': "thunks w' = ths" "wu_persisted_round_number w' = wu_persisted_round_number w" using blocks_batch [OF run(1)] run(2) by simp_all
  have D: "\<forall>t \<in> set ths. dom (posted t) \<subseteq> ?D" "?D \<inter> dom ?M = {}" using run(3) by (auto simp: posted_once_def)
  have b: "\<forall>t \<in> set ths. partial_thunk t" "batch_ok ?M (map (without_cancelled ?D) ths)" "offers (committed_offers w') = fold thunk_step ths ?M"
    using blocks_without [OF run(1), of ?D] run(3,4) D(1) by simp_all
  obtain d' where d': "write_phases L ths (table I) = Inr d'" "stored L d' ?S"
    using write_phases_without [OF L I(3) b(1) _ b(2) D(2)] k(1) by blast
  have "filter (\<lambda>th. thunk_block_number th \<le> n) ths = ths" "filter (\<lambda>th. \<not> thunk_block_number th \<le> n) ths = []"
    using numbers(2) by (simp_all add: filter_id_conv filter_empty_conv)
  then have "write_thunks L n w' (table I) = Inr (w'\<lparr>thunks := []\<rparr>, d')"
    using numbers(1) k(1) d'(1) by (simp add: write_thunks_def w' Let_def)
  then have run': "\<exists>I'. wu_persist_lmdb L n (w', I) = Inr (w'\<lparr>thunks := [], wu_persisted_round_number := n\<rparr>, I') \<and> table I' = d'"
    using I(1,2) by (simp add: wu_persist_lmdb_def commit_wtxn_def Let_def)
  have rest: "\<forall>t \<in> set (ys @ later # zs). k \<notin> dom (posted t)"
  proof -
    have "\<forall>t \<in> set (ys @ later # zs). dom (posted t) \<inter> dom (posted th) = {}"
      using run(3) unfolding posted_once_def k(1) sorted_wrt_append sorted_wrt.simps by simp
    then show ?thesis using k(2) by blast
  qed
  have "k \<in> ?D" using k(1,2) by auto
  have "fold thunk_step (map (without_cancelled ?D) (ys @ later # zs)) N k = Some v" if "N k = Some v" for N
  proof (rule fold_step_keeps [where M = N and k = k], rule that, rule ballI)
    fix t assume "t \<in> set (map (without_cancelled ?D) (ys @ later # zs))"
    then obtain u where u: "t = without_cancelled ?D u" "u \<in> set (ys @ later # zs)" unfolding set_map by blast
    have "k \<notin> dom (posted u)" by (rule bspec [OF rest u(2)])
    moreover have "key_less (partial_exec_key u) k" by (rule bspec [OF k(4)]) (simp add: u(2) [simplified])
    ultimately show "k \<notin> cancelled t \<and> posted t k = None \<and> key_less (partial_exec_key t) k"
      unfolding u(1) without_cancelled_sel using \<open>k \<in> ?D\<close> by blast
  qed
  moreover have "thunk_step (without_cancelled ?D th) N k = Some v" for N
    using thunk_step_keeps(2) [of "without_cancelled ?D th" k v N] k(2,4) by simp
  ultimately have "?S k = Some v" by (simp add: k(1))
  moreover have "length k = 44" using k(2) by (auto simp: posted_def dest!: map_of_SomeD)
  ultimately have "mdb_get L (get_bytes_array k) d' = Some v" using stored_get [OF d'(2)] by simp
  moreover have "fold thunk_step ths ?M k = None"
    using fold_step_none [OF thunk_step_cancels [OF k(3)], of zs] rest by (simp add: k(1))
  ultimately show ?thesis using run' b(3) by auto
qed

end
