(* ===== verification/Sample_Disk.thy ===== *)
theory Sample_Disk
  imports Rollback_Order Batch_Cancel
begin

text \<open>
  Concrete runs with the disk: a block that is written and read back, and two runs of two blocks each that are
  written together, after which the disk does not hold the book.
\<close>

declare delete_downwards.simps [code]

section \<open>One block\<close>

definition sample_disk :: "(byte list \<times> Offer) list" where
  "sample_disk = [(get_bytes_array (key_of (sample_offer 256 100)), sample_offer 256 100)]"

lemma stored_single: "length k = 44 \<Longrightarrow> stored list_lmdb [(get_bytes_array k, v)] [k \<mapsto> v]"
  using bytes_of_key [of k] by (auto simp: stored_def disk_map_def list_lmdb_def fun_eq_iff)

lemma sample_stored: "stored list_lmdb sample_disk (offers (committed_offers sample_block))"
  unfolding sample_disk_def sample_block_sel sample_leaf_book(2) by (rule stored_single [OF length_offer_key])

lemma sample_disk_block:
  obtains w2 where "blocks sample_block (thunks w2) w2" "fresh_batch (offers (committed_offers sample_block)) (thunks w2)"
    "thunks w2 \<noteq> []" "\<forall>th \<in> set (thunks w2). exists_partial_exec th = Some True" "\<forall>th \<in> set (thunks w2). thunk_block_number th = 1"
    "block_step 1 sample_block w2"
proof -
  have "returns (tentative_commit_for_validation 1 sample_block) (\<lambda>w1.
    returns (process_clear_offers (from_integral 120) [0x2000000, 0x1000000] 10 w1 (sample_database, Map.empty, no_stats) sample_commitment)
      (\<lambda>(w2, r). exists_partial_exec (last (thunks w2)) = Some True))"
    by code_simp
  then obtain w1 w2 s2 c2 where r: "tentative_commit_for_validation 1 sample_block = Inr w1"
    "process_clear_offers (from_integral 120) [0x2000000, 0x1000000] 10 w1 (sample_database, Map.empty, no_stats) sample_commitment = Inr (w2, s2, c2)"
    "exists_partial_exec (last (thunks w2)) = Some True"
    unfolding returns_iff by (auto simp: split_beta)
  have step: "block_step 1 sample_block w2"
    unfolding block_step_def using sample_block_ready r(1,2) sample_commit_sound [OF r(1)] sample_commitment_sized by blast
  obtain th where th: "thunks w2 = [th]" "thunk_block_number th = 1" "dom (posted th) \<inter> dom (offers (committed_offers sample_block)) = {}"
    by (rule block_thunk [OF step]) (simp add: sample_block_sel)
  have "blocks sample_block ([] @ [last (thunks w2)]) w2" by (rule next_block [OF no_block _ _ _ step]) simp_all
  then show thesis using that [of w2] th r(3) step by (simp add: fresh_batch_def)
qed

section \<open>Two blocks\<close>

definition sample_next ::
    "u64 \<Rightarrow> FractionalAsset \<Rightarrow> Offer MerkleTrie \<Rightarrow> key option \<Rightarrow> MerkleWorkUnit \<times> clearing_state \<Rightarrow> (MerkleWorkUnit \<times> clearing_state) res" where
  "sample_next n supply posts cancels = (\<lambda>(w, s).
     res_bind (wu_add_offers posts w) (\<lambda>w.
     res_bind (case cancels of None \<Rightarrow> Inr (None, w) | Some k \<Rightarrow> wu_mark_for_deletion k w) (\<lambda>(found, w).
     res_bind (tentative_commit_for_validation n w) (\<lambda>w.
     res_bind (process_clear_offers supply [0x2000000, 0x1000000] 10 w s sample_commitment) (\<lambda>(w, s, c). Inr (w, s))))))"

definition sample_start :: "MerkleWorkUnit \<times> clearing_state" where
  "sample_start = ((new_work_unit sample_category)\<lparr>committed_offers := trie_of (sample_leaf 256 100)\<rparr>, (sample_database, Map.empty, no_stats))"

text \<open>The ids of the offers in memory and on disk after two blocks.\<close>

definition memory_and_disk :: "(MerkleWorkUnit \<times> clearing_state) res \<Rightarrow> (u64 list \<times> u64 list) res" where
  "memory_and_disk r = res_bind r (\<lambda>(w, s). res_bind (write_thunks list_lmdb 2 w sample_disk) (\<lambda>(w', d).
     Inr (map (offerId \<circ> snd) (offer_list (committed_offers w')), map (offerId \<circ> snd) d)))"

text \<open>An offer that the first block executes in full, so that the market is empty, is still on disk.\<close>

lemma sample_emptied:
  "memory_and_disk (res_bind (sample_next 1 (from_integral 100) empty_trie None sample_start)
     (sample_next 2 (from_integral 0) (trie_of (sample_leaf 128 50)) None)) = Inr ([128], [128, 256])"
  by code_simp

section \<open>An offer that the second block executes or cancels\<close>

lemma sample_single_sound: "sound_book (trie_of (sample_leaf 256 100))"
proof -
  have "offer_list (trie_of (sample_leaf 256 100)) = [(key_of (sample_offer 256 100), sample_offer 256 100)]"
    by (simp add: offer_list_def trie_of_def sample_leaf_def)
  moreover have "few_leaves (trie_of (sample_leaf 256 100))"
    using few_offers [OF book_inv(1) [OF sample_leaf_book(1) [of 256 100]]] by (simp add: sample_leaf_book(2))
  ultimately show ?thesis
    using sample_leaf_book [of 256 100] by (simp add: sound_book_def amounts_def sample_offer_def is_valid_price_def PRICE_MAX_eq)
qed

abbreviation sample_second :: key where
  "sample_second \<equiv> key_of (sample_offer 512 50)"

text \<open>
  Block 3 posts the second offer and executes nothing.  Then either block 4 executes both offers, or the second one
  is cancelled and block 4 executes nothing.
\<close>

lemma sample_runs:
  "returns (tentative_commit_for_validation n sample_block) (\<lambda>w1.
   returns (process_clear_offers (from_integral 0) [0x2000000, 0x1000000] 10 w1 (sample_database, Map.empty, no_stats) sample_commitment) (\<lambda>(w2, s, c).
     offer_list (committed_offers w2) = offer_list sample_book \<and> leaves (root (uncommitted_offers w2)) = [] \<and>
     exists_partial_exec (last (thunks w2)) = Some True \<and> key_less (partial_exec_key (last (thunks w2))) sample_second \<and>
     returns (tentative_commit_for_validation (n + 1) w2) (\<lambda>w3. offer_list (committed_offers w3) = offer_list sample_book \<and> returns (process_clear_offers (from_integral 150) [0x2000000, 0x1000000] 10 w3 s sample_commitment)
       (\<lambda>(w4, _). deleted_keys (last (thunks w4)) = [] \<and> offers (committed_offers w4) sample_second = None)) \<and>
     returns (wu_mark_for_deletion sample_second w2) (\<lambda>(_, w2). returns (tentative_commit_for_validation (n + 1) w2) (\<lambda>w3.
       offer_list (committed_offers w3) = offer_list (trie_of (sample_leaf 256 100)) \<and>
       returns (process_clear_offers (from_integral 0) [0x2000000, 0x1000000] 10 w3 s sample_commitment)
         (\<lambda>(w4, _). exists_partial_exec (last (thunks w4)) = Some True \<and> key_less (partial_exec_key (last (thunks w4))) sample_second \<and>
            map fst (deleted_keys (last (thunks w4))) = [sample_second])))))"
  by code_simp


lemma sample_first_block:
  obtains w2 s where "block_step n sample_block w2" "sound_book (committed_offers w2)" "offer_list (committed_offers w2) = offer_list sample_book"
    "uncommitted_offers w2 = empty_trie" "exists_partial_exec (last (thunks w2)) = Some True"
    "key_less (partial_exec_key (last (thunks w2))) sample_second"
    "returns (tentative_commit_for_validation (n + 1) w2) (\<lambda>w3. offer_list (committed_offers w3) = offer_list sample_book \<and> returns (process_clear_offers (from_integral 150) [0x2000000, 0x1000000] 10 w3 s sample_commitment)
       (\<lambda>(w4, _). deleted_keys (last (thunks w4)) = [] \<and> offers (committed_offers w4) sample_second = None))"
    "returns (wu_mark_for_deletion sample_second w2) (\<lambda>(_, w2). returns (tentative_commit_for_validation (n + 1) w2) (\<lambda>w3.
       offer_list (committed_offers w3) = offer_list (trie_of (sample_leaf 256 100)) \<and>
       returns (process_clear_offers (from_integral 0) [0x2000000, 0x1000000] 10 w3 s sample_commitment)
         (\<lambda>(w4, _). exists_partial_exec (last (thunks w4)) = Some True \<and> key_less (partial_exec_key (last (thunks w4))) sample_second \<and>
            map fst (deleted_keys (last (thunks w4))) = [sample_second])))"
proof -
  obtain w1 r where w1: "tentative_commit_for_validation n sample_block = Inr w1"
    and r: "process_clear_offers (from_integral 0) [0x2000000, 0x1000000] 10 w1 (sample_database, Map.empty, no_stats) sample_commitment = Inr r"
    and rest: "case r of (w2, s, c) \<Rightarrow>
     offer_list (committed_offers w2) = offer_list sample_book \<and> leaves (root (uncommitted_offers w2)) = [] \<and>
     exists_partial_exec (last (thunks w2)) = Some True \<and> key_less (partial_exec_key (last (thunks w2))) sample_second \<and>
     returns (tentative_commit_for_validation (n + 1) w2) (\<lambda>w3. offer_list (committed_offers w3) = offer_list sample_book \<and> returns (process_clear_offers (from_integral 150) [0x2000000, 0x1000000] 10 w3 s sample_commitment)
       (\<lambda>(w4, _). deleted_keys (last (thunks w4)) = [] \<and> offers (committed_offers w4) sample_second = None)) \<and>
     returns (wu_mark_for_deletion sample_second w2) (\<lambda>(_, w2). returns (tentative_commit_for_validation (n + 1) w2) (\<lambda>w3.
       offer_list (committed_offers w3) = offer_list (trie_of (sample_leaf 256 100)) \<and>
       returns (process_clear_offers (from_integral 0) [0x2000000, 0x1000000] 10 w3 s sample_commitment)
         (\<lambda>(w4, _). exists_partial_exec (last (thunks w4)) = Some True \<and> key_less (partial_exec_key (last (thunks w4))) sample_second \<and>
            map fst (deleted_keys (last (thunks w4))) = [sample_second])))"
    using sample_runs [of n] unfolding returns_iff [of "tentative_commit_for_validation n sample_block"]
      returns_iff [of "process_clear_offers (from_integral 0) [0x2000000, 0x1000000] 10 _ (sample_database, Map.empty, no_stats) sample_commitment"] by blast
  obtain w2 s c where rw: "r = (w2, s, c)" by (cases r)
  have step: "block_step n sample_block w2"
    unfolding block_step_def using sample_block_ready w1 r [unfolded rw] sample_commit_sound [OF w1] sample_commitment_sized by blast
  note rest = rest [unfolded rw prod.case]
  have "sound_book (committed_offers w2)"
    using sound_book_same [OF sample_sound(1) block_offers(1) [OF step]] rest by blast
  then show thesis using that [OF step _ _ block_step_posts [OF step], of s] rest by blast
qed

lemma sample_filled:
  obtains w2 w4 where "block_step n sample_block w2" "block_step (n + 1) w2 w4" "uncommitted_offers w2 = empty_trie"
    "offers (committed_offers w2) sample_second = Some (sample_offer 512 50)"
    "sample_second \<notin> cancelled (last (thunks w4))" "offers (committed_offers w4) sample_second = None"
proof -
  obtain w2 s where w2: "block_step n sample_block w2" "sound_book (committed_offers w2)" "offer_list (committed_offers w2) = offer_list sample_book"
    "uncommitted_offers w2 = empty_trie"
    and run: "returns (tentative_commit_for_validation (n + 1) w2) (\<lambda>w3. offer_list (committed_offers w3) = offer_list sample_book \<and> returns (process_clear_offers (from_integral 150) [0x2000000, 0x1000000] 10 w3 s sample_commitment)
       (\<lambda>(w4, _). deleted_keys (last (thunks w4)) = [] \<and> offers (committed_offers w4) sample_second = None))"
    by (rule sample_first_block)
  obtain w3 w4 s4 c4 where w3: "tentative_commit_for_validation (n + 1) w2 = Inr w3"
    and w4: "process_clear_offers (from_integral 150) [0x2000000, 0x1000000] 10 w3 s sample_commitment = Inr (w4, s4, c4)"
    and fin: "offer_list (committed_offers w3) = offer_list sample_book" "deleted_keys (last (thunks w4)) = []" "offers (committed_offers w4) sample_second = None"
    using run unfolding returns_iff by auto
  have off: "offers (committed_offers w2) = offers sample_book" by (simp add: offers_offer_list w2(3))
  have ready: "block_ready w2"
    using book_ready [OF book_marked [OF sound_bookD(1) [OF w2(2)]] w2(4)] few_offers [OF book_inv(1) [OF sound_bookD(1) [OF w2(2)]]] sound_bookD(2) [OF w2(2)] by simp
  have "sound_book (committed_offers w3)" by (rule sound_book_same [OF sample_sound(1) committed_book [OF ready w3] fin(1)])
  then have "block_step (n + 1) w2 w4" unfolding block_step_def using ready w3 w4 sample_commitment_sized by blast
  moreover have "offers (committed_offers w2) sample_second = Some (sample_offer 512 50)"
    unfolding offers_offer_list w2(3) sample_sound(2) using sample_keys_less(2) [symmetric] by simp
  ultimately show thesis using that w2(1,4) fin by (auto simp: cancelled_def)
qed


lemma sample_cancelled_run:
  obtains w2 w2' w4 where "block_step n sample_block w2" "exists_partial_exec (last (thunks w2)) = Some True"
    "key_less (partial_exec_key (last (thunks w2))) sample_second" "uncommitted_offers w2 = empty_trie"
    "offers (committed_offers w2') = offers (committed_offers w2)" "thunks w2' = thunks w2"
    "wu_persisted_round_number w2' = wu_persisted_round_number w2" "uncommitted_offers w2' = empty_trie" "block_step (n + 1) w2' w4"
    "exists_partial_exec (last (thunks w4)) = Some True" "key_less (partial_exec_key (last (thunks w4))) sample_second"
    "cancelled (last (thunks w4)) = {sample_second}"
proof -
  obtain w2 s where w2: "block_step n sample_block w2" "sound_book (committed_offers w2)"
    "uncommitted_offers w2 = empty_trie" "exists_partial_exec (last (thunks w2)) = Some True"
    "key_less (partial_exec_key (last (thunks w2))) sample_second"
    and run: "returns (wu_mark_for_deletion sample_second w2) (\<lambda>(_, w2). returns (tentative_commit_for_validation (n + 1) w2) (\<lambda>w3.
       offer_list (committed_offers w3) = offer_list (trie_of (sample_leaf 256 100)) \<and>
       returns (process_clear_offers (from_integral 0) [0x2000000, 0x1000000] 10 w3 s sample_commitment)
         (\<lambda>(w4, _). exists_partial_exec (last (thunks w4)) = Some True \<and> key_less (partial_exec_key (last (thunks w4))) sample_second \<and>
            map fst (deleted_keys (last (thunks w4))) = [sample_second])))"
    by (rule sample_first_block)
  obtain T found where T: "trie_mark_for_deletion sample_second (committed_offers w2) = Inr (found, T)" "marked_book T"
    "offers T = offers (committed_offers w2)"
    using book_mark [OF book_marked [OF sound_bookD(1) [OF w2(2)]] sound_bookD(2) [OF w2(2)] length_offer_key] by blast
  let ?w = "w2\<lparr>committed_offers := T\<rparr>"
  obtain w3 w4 s4 c4 where w3: "tentative_commit_for_validation (n + 1) ?w = Inr w3"
    and w4: "process_clear_offers (from_integral 0) [0x2000000, 0x1000000] 10 w3 s sample_commitment = Inr (w4, s4, c4)"
    and fin: "offer_list (committed_offers w3) = offer_list (trie_of (sample_leaf 256 100))" "exists_partial_exec (last (thunks w4)) = Some True"
      "key_less (partial_exec_key (last (thunks w4))) sample_second" "map fst (deleted_keys (last (thunks w4))) = [sample_second]"
    using run T(1) unfolding returns_iff by (auto simp: wu_mark_for_deletion_def)
  have "card (dom (offers (committed_offers ?w))) < 2 ^ 32"
    using few_offers [OF book_inv(1) [OF sound_bookD(1) [OF w2(2)]]] sound_bookD(2) [OF w2(2)] by (simp add: T(3))
  then have ready: "block_ready ?w" using T(2) w2(3) by (intro book_ready) simp_all
  have "sound_book (committed_offers w3)" by (rule sound_book_same [OF sample_single_sound committed_book [OF ready w3] fin(1)])
  then have step: "block_step (n + 1) ?w w4" unfolding block_step_def using ready w3 w4 sample_commitment_sized by blast
  have "cancelled (last (thunks w4)) = set (map fst (deleted_keys (last (thunks w4))))" by (simp add: cancelled_def)
  then have "cancelled (last (thunks w4)) = {sample_second}" unfolding fin(4) by simp
  then show thesis using that [OF w2(1,4,5,3) _ _ _ _ step fin(2,3)] T(3) w2(3) by simp
qed


end
