(* ===== verification/Trie_Modify.thy ===== *)
theory Trie_Modify
  imports Trie_Laws
begin

text \<open>
  Changing values in place, \<open>modify_value_nolocks\<close>, \<open>get_subnode_ref_nolocks\<close> and
  \<open>invalidate_hash_to_node_nolocks\<close> of \<^verbatim>\<open>merkle_trie.h\<close>: the shape and the metadata stay, the cached
  hashes on the way are dropped.  A pointer into the trie is replaced by the function that is applied at the node
  it points to.
\<close>

section \<open>The operations\<close>

function (sequential) node_modify_value :: "key \<Rightarrow> ('v \<Rightarrow> 'v res) \<Rightarrow> 'v node \<Rightarrow> 'v node res" where
  "node_modify_value k fn (Leaf p v m h) = res_bind (fn v) (\<lambda>v'. Inr (Leaf p v' m None))"
| "node_modify_value k fn (Inner p cs m h) =
     (if prefix_match p k \<noteq> length p then Inl (Runtime_error ''invalid recurison: value nonexistend'')
      else res_bind (branch_bits k (length p)) (\<lambda>bb.
        case child_find bb cs of
          None \<Rightarrow> Inl (Runtime_error ''branch bits not found: can't modify nonexistent value'')
        | Some c \<Rightarrow> res_bind (node_modify_value k fn c) (\<lambda>c'. Inr (Inner p (child_emplace bb c' cs) m None))))"
  by pat_completeness auto

termination
  by (relation "measure (\<lambda>(k, fn, t). size t)") (auto simp only: node_termination)

fun modify_values :: "(key \<times> ('v \<Rightarrow> 'v res)) list \<Rightarrow> 'v node \<Rightarrow> 'v node res" where
  "modify_values [] t = Inr t"
| "modify_values ((k, fn) # kfs) t = res_bind (node_modify_value k fn t) (modify_values kfs)"

text \<open>
  The node that \<open>q\<close> leads to, with the hashes from the root down to it dropped; \<open>None\<close> is the null pointer.
\<close>

function (sequential) node_update_subnode :: "key \<Rightarrow> ('v node \<Rightarrow> 'v node res) \<Rightarrow> 'v node \<Rightarrow> 'v node option res" where
  "node_update_subnode q g (Leaf p v m h) =
     (if prefix_match p q = length q then res_bind (g (Leaf p v m h)) (\<lambda>t. Inr (Some (invalidate_hash t)))
      else if prefix_match p q < length p then Inr None else Inl Undefined)"
| "node_update_subnode q g (Inner p cs m h) =
     (if prefix_match p q = length q then res_bind (g (Inner p cs m h)) (\<lambda>t. Inr (Some (invalidate_hash t)))
      else if prefix_match p q < length p then Inr None
      else res_bind (branch_bits q (length p)) (\<lambda>bb.
        case child_find bb cs of
          None \<Rightarrow> Inl (Runtime_error ''can't recurse down nonexistent subtree!'')
        | Some c \<Rightarrow> res_bind (node_update_subnode q g c) (\<lambda>r.
            case r of
              None \<Rightarrow> res_bind (g (Inner p cs m h)) (\<lambda>t. Inr (Some (invalidate_hash t)))
            | Some c' \<Rightarrow> Inr (Some (Inner p (child_emplace bb c' cs) m None)))))"
  by pat_completeness auto

termination
  by (relation "measure (\<lambda>(q, g, t). size t)") (auto simp only: node_termination)

text \<open>The trie falls back to its root.\<close>

definition trie_update_subnode :: "key \<Rightarrow> ('v node \<Rightarrow> 'v node res) \<Rightarrow> 'v MerkleTrie \<Rightarrow> 'v MerkleTrie res" where
  "trie_update_subnode q g T =
     res_bind (node_update_subnode q g (root T)) (\<lambda>r.
     res_bind (case r of Some t \<Rightarrow> Inr t | None \<Rightarrow> res_bind (g (root T)) (\<lambda>t. Inr (invalidate_hash t))) (\<lambda>t.
     Inr \<lparr>root = t, root_hash = None\<rparr>))"

section \<open>Values change, nothing else does\<close>

definition revalued :: "nat \<Rightarrow> (key \<Rightarrow> 'v \<Rightarrow> 'v) \<Rightarrow> 'v node \<Rightarrow> 'v node \<Rightarrow> bool" where
  "revalued n u t t' \<longleftrightarrow> leaves t' = map (\<lambda>(k, v, m). (k, u k v, m)) (leaves t) \<and> node_prefix t' = node_prefix t \<and>
     metadata t' = metadata t \<and> wf_node n t' \<and> (sums_ok t \<longrightarrow> sums_ok t') \<and> (\<forall>E ign. cache_ok E ign t \<longrightarrow> cache_ok E ign t')"

lemma revalued_refl: "wf_node n t \<Longrightarrow> (\<And>k v m. (k, v, m) \<in> set (leaves t) \<Longrightarrow> u k v = v) \<Longrightarrow> revalued n u t t"
  unfolding revalued_def by (auto intro!: map_idI [symmetric])

lemma revalued_cong:
  "revalued n u t t' \<Longrightarrow> (\<And>k v m. (k, v, m) \<in> set (leaves t) \<Longrightarrow> u k v = u' k v) \<Longrightarrow> revalued n u' t t'"
  unfolding revalued_def by auto

lemma revalued_trans: "revalued n u t t' \<Longrightarrow> revalued n u' t' t'' \<Longrightarrow> revalued n (\<lambda>k v. u' k (u k v)) t t''"
  unfolding revalued_def by (auto simp: comp_def split_beta)

lemma revalued_invalidate: "revalued n u t t' \<Longrightarrow> revalued n u t (invalidate_hash t')"
  unfolding revalued_def by (cases t') (auto simp: cache_invalidate)

lemma revalued_path:
  assumes wf: "wf_node n (Inner p cs m h)" and find: "child_find b cs = Some c" and c': "revalued n u c c'"
    and other: "\<And>b' x k v m. (b', x) \<in> set cs \<Longrightarrow> b' \<noteq> b \<Longrightarrow> (k, v, m) \<in> set (leaves x) \<Longrightarrow> u k v = v"
  shows "revalued n u (Inner p cs m h) (Inner p (child_emplace b c' cs) m None)"
proof -
  define f where "f b' x = (if b' = b then c' else x)" for b' x
  have ord: "ordered cs" using wf by simp
  have map: "child_emplace b c' cs = map (\<lambda>(b, c). (b, f b c)) cs" using ord find by (simp add: child_emplace_map f_def)
  have rel: "revalued n u x (f b' x)" if bc: "(b', x) \<in> set cs" for b' x
  proof (cases "b' = b")
    case True
    then have "x = c" using find bc ord by (metis child_find_in option.inject)
    then show ?thesis using True c' by (simp add: f_def)
  next
    case False
    moreover have "wf_node n x" using wf bc by auto
    ultimately show ?thesis using other [OF bc False] by (auto simp: f_def intro: revalued_refl)
  qed
  have each: "leaves (f b' x) = map (\<lambda>(k, v, m). (k, u k v, m)) (leaves x)" "node_prefix (f b' x) = node_prefix x"
      "metadata (f b' x) = metadata x" "wf_node n (f b' x)" "sums_ok x \<Longrightarrow> sums_ok (f b' x)" "cache_ok E ign x \<Longrightarrow> cache_ok E ign (f b' x)"
    if "(b', x) \<in> set cs" for b' x E ign
    using rel [OF that] by (simp_all add: revalued_def)
  have set: "set (child_emplace b c' cs) = (\<lambda>(b, c). (b, f b c)) ` set cs" unfolding map by simp
  have "ordered (child_emplace b c' cs)" by (rule ordered_child_emplace [OF ord])
  moreover have "length (child_emplace b c' cs) = length cs" unfolding map by simp
  ultimately have "wf_node n (Inner p (child_emplace b c' cs) m None)" using wf each(2,4) unfolding wf_node.simps set by auto
  moreover have "leaves (Inner p (child_emplace b c' cs) m None) = map (\<lambda>(k, v, m). (k, u k v, m)) (leaves (Inner p cs m h))"
  proof -
    have "map (\<lambda>(b, c). leaves (f b c)) cs = map (\<lambda>(b, c). map (\<lambda>(k, v, m). (k, u k v, m)) (leaves c)) cs"
      using each(1) by auto
    then have "concat (map (\<lambda>(b, c). leaves (f b c)) cs) = concat (map (\<lambda>(b, c). map (\<lambda>(k, v, m). (k, u k v, m)) (leaves c)) cs)"
      by (rule arg_cong [of _ _ concat])
    then show ?thesis unfolding map leaves.simps map_concat map_map by (simp only: comp_def case_prod_unfold fst_conv snd_conv)
  qed
  moreover have "sums_ok (Inner p cs m h) \<longrightarrow> sums_ok (Inner p (child_emplace b c' cs) m None)"
  proof -
    have "map (metadata \<circ> snd) (child_emplace b c' cs) = map (metadata \<circ> snd) cs" unfolding map using each(3) by auto
    then show ?thesis using each(5) unfolding meta_ok.simps set by (auto simp: comp_def case_prod_unfold)
  qed
  moreover have "cache_ok E ign (Inner p cs m h) \<longrightarrow> cache_ok E ign (Inner p (child_emplace b c' cs) m None)" for E ign
    using each(6) unfolding cache_ok.simps set by auto
  ultimately show ?thesis by (simp add: revalued_def del: leaves.simps wf_node.simps)
qed

lemma node_modify_correct:
  assumes "wf_node n t" "length k = n" "(k, v, m) \<in> set (leaves t)" "fn v = Inr v'"
  shows "\<exists>t'. node_modify_value k fn t = Inr t' \<and> revalued n (\<lambda>j x. if j = k then v' else x) t t'"
  using assms
proof (induction t rule: node_induct)
  case (Inner p cs m' h)
  note wf = Inner.prems(1)
  obtain c where c: "prefix p k" "child_find (k ! length p) cs = Some c" "(k, v, m) \<in> set (leaves c)"
    using Inner.prems(3) leaf_in_Inner [OF wf Inner.prems(2), of "(v, m)"] by (auto simp del: leaves.simps)
  have mem: "(k ! length p, c) \<in> set cs" using c(2) wf by (simp add: child_find_in)
  have "wf_node n c" using mem wf by auto
  from Inner.IH [OF mem this Inner.prems(2) c(3) Inner.prems(4)]
  obtain c' where c': "node_modify_value k fn c = Inr c'" "revalued n (\<lambda>j x. if j = k then v' else x) c c'" by blast
  have "j \<noteq> k" if "(b', x) \<in> set cs" "b' \<noteq> k ! length p" "(j, y) \<in> set (leaves x)" for b' x j y
  proof
    assume "j = k"
    then have "prefix (p @ [b']) k" using child_contents_prefix [OF wf that(1), of "drop_md (j, y)"] that(3) by (force simp: contents_leaves)
    then show False using that(2) by (auto simp: prefix_def nth_append)
  qed
  then have "revalued n (\<lambda>j x. if j = k then v' else x) (Inner p cs m' h) (Inner p (child_emplace (k ! length p) c' cs) m' None)"
    by (intro revalued_path [OF wf c(2) c'(2)]) auto
  moreover have "branch_bits k (length p) = Inr (k ! length p)" using wf Inner.prems(2) by (simp add: branch_bits_def)
  ultimately show ?case using c(1,2) c'(1) by (simp add: prefix_match_full)
qed (auto simp: revalued_def)

lemma revalued_keys: "revalued n u t t' \<Longrightarrow> (\<exists>v m. (k, v, m) \<in> set (leaves t')) \<longleftrightarrow> (\<exists>v m. (k, v, m) \<in> set (leaves t))"
  by (force simp: revalued_def)

lemma modify_values_correct:
  assumes "wf_node n t" "\<forall>(k, fn) \<in> set kfs. length k = n \<and> (\<exists>v m. (k, v, m) \<in> set (leaves t)) \<and> (\<forall>v. fn v = Inr (new k))"
  shows "\<exists>t'. modify_values kfs t = Inr t' \<and> revalued n (\<lambda>j x. if j \<in> fst ` set kfs then new j else x) t t'"
  using assms
proof (induction kfs arbitrary: t)
  case (Cons kf kfs)
  obtain k fn where kf: "kf = (k, fn)" by (cases kf)
  obtain v m where k: "length k = n" "(k, v, m) \<in> set (leaves t)" "fn v = Inr (new k)" using Cons.prems(2) kf by auto
  obtain t1 where t1: "node_modify_value k fn t = Inr t1" "revalued n (\<lambda>j x. if j = k then new k else x) t t1"
    using node_modify_correct [OF Cons.prems(1) k(1,2), of fn] k(3) by blast
  have wf1: "wf_node n t1" using t1(2) by (simp add: revalued_def)
  have "\<forall>(k, fn) \<in> set kfs. length k = n \<and> (\<exists>v m. (k, v, m) \<in> set (leaves t1)) \<and> (\<forall>v. fn v = Inr (new k))"
    using Cons.prems(2) revalued_keys [OF t1(2)] by auto
  from Cons.IH [OF wf1 this]
  obtain t' where t': "modify_values kfs t1 = Inr t'" "revalued n (\<lambda>j x. if j \<in> fst ` set kfs then new j else x) t1 t'" by blast
  have "revalued n (\<lambda>j x. if j \<in> fst ` set (kf # kfs) then new j else x) t t'"
    by (rule revalued_cong [OF revalued_trans [OF t1(2) t'(2)]]) (auto simp: kf)
  then show ?case using t1(1) t'(1) kf by auto
qed (auto intro: revalued_refl)

lemma update_subnode_correct:
  fixes g :: "'v node \<Rightarrow> 'v node res"
  assumes "wf_node n t" "K \<subseteq> fst ` set (leaves t)" "K \<noteq> {}" "\<forall>k \<in> K. prefix q k" "\<And>k v. k \<notin> K \<Longrightarrow> u k v = v"
    and g: "\<And>s. wf_node n s \<Longrightarrow> K \<subseteq> fst ` set (leaves s) \<Longrightarrow> \<exists>s'. g s = Inr s' \<and> revalued n u s s'"
  shows "\<exists>t'. node_update_subnode q g t = Inr (Some t') \<and> revalued n u t t'"
  using assms(1,2)
proof (induction t rule: node_induct)
  case (Leaf p v m h)
  then have "prefix q p" using assms(3,4) by auto
  then have "prefix_match p q = length q" using prefix_match_full [of q p] by (simp add: prefix_match_commute)
  then show ?case using g [OF Leaf] revalued_invalidate by fastforce
next
  case (Inner p cs m h)
  note wf = Inner.prems(1)
  have len: "length k = n" if "k \<in> K" for k
  proof -
    obtain x where "(k, x) \<in> set (leaves (Inner p cs m h))" using \<open>k \<in> K\<close> Inner.prems(2) by (force simp del: leaves.simps)
    then have "drop_md (k, x) \<in> set (contents (Inner p cs m h))" unfolding contents_leaves set_map by (rule imageI)
    then show ?thesis using contents_prefix [OF wf, of "drop_md (k, x)"] by simp
  qed
  have child: "prefix p k \<and> (\<exists>c x. child_find (k ! length p) cs = Some c \<and> (k, x) \<in> set (leaves c))" if "k \<in> K" for k
    using that Inner.prems(2) leaf_in_Inner [OF wf len [OF that]] by (force simp del: leaves.simps)
  obtain k0 where k0: "k0 \<in> K" using assms(3) by blast
  have cases: "prefix q p \<or> strict_prefix p q"
    using assms(4) child k0 prefix_same_cases [of p k0 q] by (auto simp: strict_prefix_def)
  show ?case
  proof (cases "prefix q p")
    case True
    then have "prefix_match p q = length q" using prefix_match_full [of q p] by (simp add: prefix_match_commute)
    then show ?thesis using g [OF Inner.prems] revalued_invalidate by fastforce
  next
    case False
    then have pq: "strict_prefix p q" using cases by blast
    then have lt: "length p < length q" by (simp add: prefix_length_less)
    have match: "prefix_match p q = length p" using pq by (simp add: prefix_match_full strict_prefix_def)
    have bit: "k ! length p = q ! length p" if "k \<in> K" for k using that assms(4) lt by (auto simp: prefix_def nth_append)
    obtain c where c: "child_find (q ! length p) cs = Some c" using child [OF k0] bit [OF k0] by auto
    have sub: "K \<subseteq> fst ` set (leaves c)" using child bit c by force
    have mem: "(q ! length p, c) \<in> set cs" using c wf by (simp add: child_find_in)
    have "wf_node n c" using mem wf by auto
    from Inner.IH [OF mem this sub] obtain c' where c': "node_update_subnode q g c = Inr (Some c')" "revalued n u c c'" by blast
    have "j \<notin> K" if "(b', x) \<in> set cs" "b' \<noteq> q ! length p" "(j, y) \<in> set (leaves x)" for b' x j y
    proof
      assume "j \<in> K"
      moreover have "prefix (p @ [b']) j" using child_contents_prefix [OF wf that(1), of "drop_md (j, y)"] that(3) by (force simp: contents_leaves)
      ultimately show False using that(2) bit [of j] by (auto simp: prefix_def nth_append)
    qed
    then have "revalued n u (Inner p cs m h) (Inner p (child_emplace (q ! length p) c' cs) m None)"
      using assms(5) by (intro revalued_path [OF wf c c'(2)]) blast
    moreover have "branch_bits q (length p) = Inr (q ! length p)" using lt by (simp add: branch_bits_def)
    ultimately show ?thesis using match lt c c'(1) by simp
  qed
qed

end
