(* ===== verification/Database_Commitment.thy ===== *)
theory Database_Commitment
  imports Memory_Database Trie_Modify
begin

text \<open>
  The state commitment of the accounts, \<^verbatim>\<open>memory_database.cc\<close>: the trie of commitments brought up to
  date with a block's log of modified accounts and hashed, tentatively by a validator, for good by a producer, or
  built from all accounts after a restart; and \<open>DatabaseAutoRollback\<close> of \<^verbatim>\<open>edce.cc\<close>, which undoes a
  validation that failed.
\<close>

section \<open>Operations\<close>

text \<open>\<open>TentativeValueModifyLambda\<close> and \<open>ProduceValueModifyLambda\<close>; only the second checks the index.\<close>

definition tentative_value_modify :: "MemoryDatabase \<Rightarrow> AccountID \<Rightarrow> AccountCommitment \<Rightarrow> AccountCommitment res" where
  "tentative_value_modify db owner value =
     (case user_id_to_idx_map db owner of
        None \<Rightarrow> Inl Out_of_range
      | Some idx \<Rightarrow>
          if idx < length (database db) then res_of_option Diverges (tentative_commitment (database db ! idx)) else Inl Undefined)"

definition produce_value_modify :: "MemoryDatabase \<Rightarrow> AccountID \<Rightarrow> AccountCommitment \<Rightarrow> AccountCommitment res" where
  "produce_value_modify db owner value =
     (case user_id_to_idx_map db owner of
        None \<Rightarrow> Inl Out_of_range
      | Some idx \<Rightarrow>
          if idx < length (database db) then res_of_option Diverges (produce_commitment (database db ! idx)) else Inl Out_of_range)"

text \<open>
  The log hands out disjoint subtrees of its trie, by the prefix of each and the owners of the entries below it;
  how it divides itself is a parameter.
\<close>

type_synonym work_root = "key \<times> AccountID list"

definition parallel_apply ::
    "(AccountID \<Rightarrow> AccountCommitment \<Rightarrow> AccountCommitment res) \<Rightarrow> work_root \<Rightarrow>
     AccountCommitment MerkleTrie \<Rightarrow> AccountCommitment MerkleTrie res" where
  "parallel_apply modify_lambda = (\<lambda>(prefix_bytes, owners).
     trie_update_subnode prefix_bytes (modify_values (map (\<lambda>owner. (account_key owner, modify_lambda owner)) owners)))"

fun iterate_over_log ::
    "(AccountID \<Rightarrow> AccountCommitment \<Rightarrow> AccountCommitment res) \<Rightarrow> work_root list \<Rightarrow>
     AccountCommitment MerkleTrie \<Rightarrow> AccountCommitment MerkleTrie res" where
  "iterate_over_log modify_lambda [] T = Inr T"
| "iterate_over_log modify_lambda (r # rs) T = res_bind (parallel_apply modify_lambda r T) (iterate_over_log modify_lambda rs)"

text \<open>The metadata of this trie has no deletion flags.\<close>

definition commitment_freeze_and_hash ::
    "AccountCommitment hash_env \<Rightarrow> MemoryDatabase \<Rightarrow> (Hash \<times> MemoryDatabase) res" where
  "commitment_freeze_and_hash E db =
     res_bind (freeze_and_hash E False (commitment_trie db)) (\<lambda>(h, T). Inr (h, db\<lparr>commitment_trie := T\<rparr>))"

definition tentative_produce_state_commitment ::
    "AccountCommitment hash_env \<Rightarrow> work_root list \<Rightarrow> MemoryDatabase \<Rightarrow> (Hash \<times> MemoryDatabase) res" where
  "tentative_produce_state_commitment E log db =
     res_bind (iterate_over_log (tentative_value_modify db) log (commitment_trie db)) (\<lambda>T.
     commitment_freeze_and_hash E (db\<lparr>commitment_trie := T\<rparr>))"

definition set_trie_commitment_to_user_account_commits :: "work_root list \<Rightarrow> MemoryDatabase \<Rightarrow> MemoryDatabase res" where
  "set_trie_commitment_to_user_account_commits log db =
     res_bind (iterate_over_log (produce_value_modify db) log (commitment_trie db)) (\<lambda>T. Inr (db\<lparr>commitment_trie := T\<rparr>))"

definition produce_state_commitment ::
    "AccountCommitment hash_env \<Rightarrow> work_root list \<Rightarrow> MemoryDatabase \<Rightarrow> (Hash \<times> MemoryDatabase) res" where
  "produce_state_commitment E log db =
     res_bind (set_trie_commitment_to_user_account_commits log db) (commitment_freeze_and_hash E)"

definition rollback_produce_state_commitment :: "work_root list \<Rightarrow> MemoryDatabase \<Rightarrow> MemoryDatabase res" where
  "rollback_produce_state_commitment log db = set_trie_commitment_to_user_account_commits log db"

text \<open>\<open>_produce_state_commitment\<close>: each range of the accounts builds a trie of its own that is merged in.\<close>

fun insert_commitments :: "UserAccount list \<Rightarrow> nat list \<Rightarrow> AccountCommitment MerkleTrie \<Rightarrow> AccountCommitment MerkleTrie res" where
  "insert_commitments accounts [] T = Inr T"
| "insert_commitments accounts (i # is) T =
     (if length accounts \<le> i then Inl Out_of_range
      else res_bind (write_trie_key (acct_owner (accounts ! i))) (\<lambda>key_buf.
           res_bind (res_of_option Diverges (produce_commitment (accounts ! i))) (\<lambda>commitment.
           res_bind (trie_insert account_insert_fn key_buf commitment T) (insert_commitments accounts is))))"

fun merge_ranges :: "UserAccount list \<Rightarrow> (nat \<times> nat) list \<Rightarrow> AccountCommitment MerkleTrie \<Rightarrow> AccountCommitment MerkleTrie res" where
  "merge_ranges accounts [] T = Inr T"
| "merge_ranges accounts ((b, e) # rs) T =
     res_bind (insert_commitments accounts [b ..< e] empty_trie) (\<lambda>local_trie.
     res_bind (trie_merge_in OverwriteMergeFn local_trie T) (merge_ranges accounts rs))"

definition rebuild_state_commitment ::
    "AccountCommitment hash_env \<Rightarrow> (nat \<times> nat) list \<Rightarrow> MemoryDatabase \<Rightarrow> (Hash \<times> MemoryDatabase) res" where
  "rebuild_state_commitment E ranges db =
     res_bind (merge_ranges (database db) ranges (commitment_trie db)) (\<lambda>T.
     commitment_freeze_and_hash E (db\<lparr>commitment_trie := T\<rparr>))"

section \<open>The roll back of a validation\<close>

record DatabaseAutoRollback =
  rollback_block_number :: u64
  do_rollback_for_validation :: bool
  do_rollback_produce_state_commitment :: bool
  rollback_log :: "work_root list option"

definition new_auto_rollback :: "u64 \<Rightarrow> DatabaseAutoRollback" where
  "new_auto_rollback current_block_number =
     \<lparr>rollback_block_number = current_block_number, do_rollback_for_validation = False,
      do_rollback_produce_state_commitment = False, rollback_log = None\<rparr>"

definition auto_commit_for_validation :: "DatabaseAutoRollback \<times> MemoryDatabase \<Rightarrow> (DatabaseAutoRollback \<times> MemoryDatabase) res" where
  "auto_commit_for_validation = (\<lambda>(r, db).
     res_bind (commit_new_accounts (rollback_block_number r) db) (\<lambda>db. Inr (r\<lparr>do_rollback_for_validation := True\<rparr>, db)))"

definition auto_produce_state_commitment ::
    "AccountCommitment hash_env \<Rightarrow> work_root list \<Rightarrow> DatabaseAutoRollback \<times> MemoryDatabase \<Rightarrow>
     (Hash \<times> DatabaseAutoRollback \<times> MemoryDatabase) res" where
  "auto_produce_state_commitment E dirty_accounts = (\<lambda>(r, db).
     res_bind (tentative_produce_state_commitment E dirty_accounts db) (\<lambda>(h, db).
     Inr (h, r\<lparr>do_rollback_produce_state_commitment := True, rollback_log := Some dirty_accounts\<rparr>, db)))"

definition auto_finalize_commit :: "DatabaseAutoRollback \<times> MemoryDatabase \<Rightarrow> (DatabaseAutoRollback \<times> MemoryDatabase) res" where
  "auto_finalize_commit = (\<lambda>(r, db).
     if \<not> do_rollback_for_validation r \<or> \<not> do_rollback_produce_state_commitment r
     then Inl (Runtime_error ''committing from invalid state'')
     else case rollback_log r of
       None \<Rightarrow> Inl Undefined
     | Some log \<Rightarrow> res_bind (commit_values_log (concat (map snd log)) db) (\<lambda>db.
         Inr (r\<lparr>do_rollback_for_validation := False, do_rollback_produce_state_commitment := False\<rparr>, db)))"

text \<open>The destructor.\<close>

definition auto_rollback :: "DatabaseAutoRollback \<Rightarrow> MemoryDatabase \<Rightarrow> MemoryDatabase res" where
  "auto_rollback r db =
     res_bind (if do_rollback_for_validation r
               then res_bind (rollback_new_accounts (rollback_block_number r) db) (\<lambda>db. Inr (rollback_values db)) else Inr db) (\<lambda>db.
     if do_rollback_produce_state_commitment r
     then case rollback_log r of None \<Rightarrow> Inl Undefined | Some log \<Rightarrow> rollback_produce_state_commitment log db
     else Inr db)"

section \<open>The trie of a map of commitments\<close>

definition commitment_leaves :: "(AccountID \<rightharpoonup> AccountCommitment) \<Rightarrow> key \<Rightarrow> (AccountCommitment \<times> Metadata) option" where
  "commitment_leaves f k = (if k \<in> range account_key then map_option (\<lambda>c. (c, size_metadata c)) (f (inv account_key k)) else None)"

definition holds :: "AccountCommitment hash_env \<Rightarrow> (AccountID \<rightharpoonup> AccountCommitment) \<Rightarrow> AccountCommitment MerkleTrie \<Rightarrow> bool" where
  "holds E f T \<longleftrightarrow> trie_inv 16 T \<and> hash_inv E T \<and> leaf_map (root T) = commitment_leaves f"

lemma inv_account_key [simp]: "inv account_key (account_key a) = a"
  by (rule inv_f_f) (simp add: inj_def)

lemma commitment_leaves_key [simp]: "commitment_leaves f (account_key a) = map_option (\<lambda>c. (c, size_metadata c)) (f a)"
  by (simp add: commitment_leaves_def)

lemma commitment_leaves_upd: "commitment_leaves (f(a \<mapsto> c)) = (commitment_leaves f)(account_key a \<mapsto> (c, size_metadata c))"
  by (rule ext) (auto simp: commitment_leaves_def)

lemma commitment_leaves_empty [simp]: "commitment_leaves Map.empty = Map.empty"
  by (rule ext) (simp add: commitment_leaves_def)

lemma commitment_leaves_card: "card (dom (commitment_leaves f)) = card (dom f)"
proof -
  have "dom (commitment_leaves f) = account_key ` dom f"
    by (auto simp: commitment_leaves_def dom_def split: if_splits)
  then show ?thesis by (simp add: card_image inj_on_def)
qed

lemma holds_empty: "holds E Map.empty empty_trie"
  by (simp add: holds_def empty_trie_inv)

lemma holds_insert:
  assumes "holds E f T"
  shows "\<exists>T'. trie_insert account_insert_fn (account_key a) c T = Inr T' \<and> holds E (f(a \<mapsto> c)) T'"
  using assms overwrite_trie.insert_refines [of 16 T "account_key a" size_metadata
      "\<lparr>commit_owner = 0, commit_assets = [], commit_last_committed_id = 0, commit_pk = replicate 32 0\<rparr>" c E]
  by (auto simp: holds_def refines_def Let_def size_metadata_def commitment_leaves_upd)

lemma holds_unmarked: "holds E f T \<Longrightarrow> filter marked (leaves (root T)) = []"
proof -
  assume T: "holds E f T"
  have "\<not> marked x" if "x \<in> set (leaves (root T))" for x
  proof -
    obtain k v m where x: "x = (k, v, m)" by (cases x)
    then have "leaf_map (root T) k = Some (v, m)" using T that leaf_map_iff [of 16 "root T" k v m] by (simp add: holds_def trie_inv_def)
    then have "m = size_metadata v" using T by (auto simp: holds_def commitment_leaves_def split: if_splits)
    then show ?thesis by (simp add: x deleted_count.flagged_def size_metadata_def)
  qed
  then show ?thesis by (simp add: filter_empty_conv)
qed

lemma holds_hash:
  assumes T: "holds E f T" and few: "card (dom f) < 2 ^ 32"
  shows "\<exists>T'. freeze_and_hash E False T = Inr (trie_digest E (root T), T') \<and> holds E f T'"
proof -
  have inv: "trie_inv 16 T" "few_leaves T" "hash_inv E T" using T few by (simp_all add: holds_def few_leaves_def commitment_leaves_card)
  show ?thesis
    using rehash_refines [OF inv] freeze_and_hash_unmarked [OF inv(1,2) holds_unmarked [OF T]] T by (auto simp: holds_def refines_def)
qed

lemma holds_same_hash:
  assumes T: "holds E f T" and U: "holds E f U" and few: "card (dom f) < 2 ^ 32"
  shows "trie_digest E (root T) = trie_digest E (root U)"
proof -
  have T': "trie_inv 16 T" "few_leaves T" "hash_inv E T" using T few by (simp_all add: holds_def few_leaves_def commitment_leaves_card)
  have U': "trie_inv 16 U" "few_leaves U" "hash_inv E U" using U few by (simp_all add: holds_def few_leaves_def commitment_leaves_card)
  have "map_option fst (live_part (leaf_map (root T)) k) = map_option fst (live_part (leaf_map (root U)) k)" for k
    using T U by (simp add: holds_def)
  from same_live_same_hash [OF T' U' this] show ?thesis
    using rehash_refines [OF T'] rehash_refines [OF U'] by auto
qed

section \<open>Bringing the trie up to date\<close>

definition covers :: "work_root list \<Rightarrow> AccountID set \<Rightarrow> bool" where
  "covers log A \<longleftrightarrow> set (concat (map snd log)) = A \<and>
     (\<forall>(q, owners) \<in> set log. owners \<noteq> [] \<and> (\<forall>a \<in> set owners. prefix q (account_key a)))"

lemma leaf_map_revalued:
  "revalued n u t t' \<Longrightarrow> leaf_map t' k = map_option (\<lambda>(v, m). (u k v, m)) (leaf_map t k)"
proof -
  have "map_of (map (\<lambda>(k, v, m). (k, u k v, m)) xs) k = map_option (\<lambda>(v, m). (u k v, m)) (map_of xs k)" for xs
    by (induction xs) auto
  then show "revalued n u t t' \<Longrightarrow> ?thesis" by (simp add: leaf_map_def revalued_def)
qed

lemma revalued_flags: "revalued n u t t' \<Longrightarrow> meta_ok flags_ok t \<Longrightarrow> meta_ok flags_ok t'"
  unfolding meta_ok_iff [of flags_ok] revalued_def by auto

lemma parallel_apply_correct:
  assumes T: "holds E f T" and a: "owners \<noteq> []" "\<forall>a \<in> set owners. prefix q (account_key a) \<and> a \<in> dom f \<and> (\<forall>v. fn a v = Inr (new a))"
  shows "\<exists>T'. parallel_apply fn (q, owners) T = Inr T' \<and> holds E (\<lambda>a. if a \<in> set owners then Some (new a) else f a) T'"
proof -
  define K where "K = account_key ` set owners"
  define u where "u k v = (if k \<in> K then new (inv account_key k) else v)" for k v
  let ?kfs = "map (\<lambda>owner. (account_key owner, fn owner)) owners"
  have inv: "trie_inv 16 T" "hash_inv E T" and map: "leaf_map (root T) = commitment_leaves f" using T by (simp_all add: holds_def)
  have sub: "K \<subseteq> fst ` set (leaves (root T))"
  proof
    fix k assume "k \<in> K"
    then obtain a where "a \<in> set owners" "k = account_key a" by (auto simp: K_def)
    then have "leaf_map (root T) k \<noteq> None" using a(2) by (auto simp: map)
    then show "k \<in> fst ` set (leaves (root T))" by (auto simp: leaf_map_def map_of_eq_None_iff)
  qed
  have ne: "K \<noteq> {}" using a(1) by (simp add: K_def)
  then have "leaves (root T) \<noteq> []" using sub by auto
  then have wf: "wf_node 16 (root T)" using inv(1) by (auto simp: trie_inv_def elim: wf_trie_cases)
  have g: "\<exists>s'. modify_values ?kfs s = Inr s' \<and> revalued 16 u s s'" if s: "wf_node 16 s" "K \<subseteq> fst ` set (leaves s)" for s
  proof -
    have "\<forall>(k, h) \<in> set ?kfs. length k = 16 \<and> (\<exists>v m. (k, v, m) \<in> set (leaves s)) \<and> (\<forall>v. h v = Inr (new (inv account_key k)))"
    proof -
      have "\<exists>v m. (account_key a, v, m) \<in> set (leaves s)" if "a \<in> set owners" for a
      proof -
        have "account_key a \<in> fst ` set (leaves s)" using s(2) that by (auto simp: K_def)
        then show ?thesis by force
      qed
      then show ?thesis using a(2) by simp
    qed
    moreover have "fst ` set ?kfs = K" by (simp add: K_def image_image)
    moreover have "u = (\<lambda>j x. if j \<in> K then new (inv account_key j) else x)" by (simp add: u_def [abs_def])
    ultimately show ?thesis using modify_values_correct [OF s(1), of ?kfs "\<lambda>k. new (inv account_key k)"] by simp
  qed
  have pre: "\<forall>k \<in> K. prefix q k" using a(2) by (auto simp: K_def)
  have id: "u k v = v" if "k \<notin> K" for k v using that by (simp add: u_def)
  obtain t' where t': "node_update_subnode q (modify_values ?kfs) (root T) = Inr (Some t')" "revalued 16 u (root T) t'"
    using update_subnode_correct [OF wf sub ne pre id g] by blast
  let ?T' = "\<lparr>root = t', root_hash = None\<rparr>"
  have "leaf_map t' = commitment_leaves (\<lambda>a. if a \<in> set owners then Some (new a) else f a)"
  proof
    fix k
    show "leaf_map t' k = commitment_leaves (\<lambda>a. if a \<in> set owners then Some (new a) else f a) k"
    proof (cases "k \<in> range account_key")
      case True
      then obtain a where k: "k = account_key a" by blast
      have "a \<in> set owners \<Longrightarrow> \<exists>c. f a = Some c" using \<open>\<forall>a \<in> set owners. prefix q (account_key a) \<and> a \<in> dom f \<and> (\<forall>v. fn a v = Inr (new a))\<close> by blast
      then show ?thesis
        by (cases "a \<in> set owners"; cases "f a")
          (auto simp: leaf_map_revalued [OF t'(2)] map k u_def K_def image_iff size_metadata_def)
    next
      case False
      then show ?thesis by (simp add: leaf_map_revalued [OF t'(2)] map commitment_leaves_def)
    qed
  qed
  moreover have "trie_inv 16 ?T'"
    using inv(1) t'(2) revalued_flags [OF t'(2)] by (auto simp: trie_inv_def wf_trie_def revalued_def)
  moreover have "hash_inv E ?T'" using inv(2) t'(2) by (simp add: hash_inv_def revalued_def)
  ultimately show ?thesis using t'(1) by (simp add: parallel_apply_def trie_update_subnode_def holds_def)
qed

lemma iterate_over_log_correct:
  assumes "holds E f T" "\<forall>(q, owners) \<in> set log. owners \<noteq> [] \<and> (\<forall>a \<in> set owners. prefix q (account_key a))"
    and "\<forall>a \<in> set (concat (map snd log)). a \<in> dom f \<and> (\<forall>v. fn a v = Inr (new a))"
  shows "\<exists>T'. iterate_over_log fn log T = Inr T' \<and>
    holds E (\<lambda>a. if a \<in> set (concat (map snd log)) then Some (new a) else f a) T'"
  using assms
proof (induction log arbitrary: f T)
  case (Cons r log)
  obtain q owners where r: "r = (q, owners)" by (cases r)
  have "owners \<noteq> []" "\<forall>a \<in> set owners. prefix q (account_key a) \<and> a \<in> dom f \<and> (\<forall>v. fn a v = Inr (new a))"
    using Cons.prems(2,3) by (auto simp: r)
  from parallel_apply_correct [OF Cons.prems(1) this] obtain T1 where
    T1: "parallel_apply fn (q, owners) T = Inr T1" "holds E (\<lambda>a. if a \<in> set owners then Some (new a) else f a) T1" by blast
  let ?f = "\<lambda>a. if a \<in> set owners then Some (new a) else f a"
  have all: "a \<in> dom f \<and> (\<forall>v. fn a v = Inr (new a))" if "a \<in> set (concat (map snd log))" for a
    using Cons.prems(3) that by (simp add: r)
  have "\<forall>a \<in> set (concat (map snd log)). a \<in> dom ?f \<and> (\<forall>v. fn a v = Inr (new a))"
  proof
    fix a assume "a \<in> set (concat (map snd log))"
    from all [OF this] show "a \<in> dom ?f \<and> (\<forall>v. fn a v = Inr (new a))" by auto
  qed
  moreover have "\<forall>(q, owners) \<in> set log. owners \<noteq> [] \<and> (\<forall>a \<in> set owners. prefix q (account_key a))" using Cons.prems(2) by simp
  ultimately obtain T' where T': "iterate_over_log fn log T1 = Inr T'"
    "holds E (\<lambda>a. if a \<in> set (concat (map snd log)) then Some (new a) else ?f a) T'"
    using Cons.IH [OF T1(2)] by blast
  have eq: "(\<lambda>a. if a \<in> set (concat (map snd log)) then Some (new a) else ?f a) =
      (\<lambda>a. if a \<in> set (concat (map snd (r # log))) then Some (new a) else f a)"
    by (auto simp: r fun_eq_iff)
  show ?case using T1(1) T'(1) T'(2) [unfolded eq] by (simp add: r)
qed simp

section \<open>The commitments of a database\<close>

text \<open>Transactions do not touch what \<open>produce_commitment\<close> reads: the trie of the last block stays right during a block.\<close>

definition account_commitments :: "MemoryDatabase \<Rightarrow> AccountID \<rightharpoonup> AccountCommitment" where
  "account_commitments db a = map_option (\<lambda>i. commitment_of (database db ! i)) (user_id_to_idx_map db a)"

definition committed_inv :: "AccountCommitment hash_env \<Rightarrow> MemoryDatabase \<Rightarrow> bool" where
  "committed_inv E db \<longleftrightarrow> db_inv db \<and> holds E (account_commitments db) (commitment_trie db) \<and> list_all representable (database db) \<and>
     length (database db) < 2 ^ 32"

lemma produce_commitment_of: "length (owned_assets u) \<le> 255 \<Longrightarrow> produce_commitment u = Some (commitment_of u)"
  using produce_commitment_eq [of u] by (simp add: commitment_of_def)

lemma representable_produce: "representable u \<Longrightarrow> produce_commitment u = Some (commitment_of u)"
  by (rule produce_commitment_of) (simp add: representable_def all_assets_def)

lemma representable_commit [simp]: "representable (acct_commit u) = representable u"
  by (simp add: representable_def all_assets_def acct_commit_def)

lemma representable_rollback: "representable u \<Longrightarrow> representable (acct_rollback u)"
  by (simp add: representable_def all_assets_def acct_rollback_def)

lemma commitment_of_rollback: "representable u \<Longrightarrow> commitment_of (acct_rollback u) = commitment_of u"
proof -
  assume u: "representable u"
  have "produce_commitment (acct_rollback u) = produce_commitment u"
    using u by (simp add: produce_commitment_eq representable_def all_assets_def acct_rollback_def asset_produce_commitment_def asset_rollback_def)
  then show ?thesis by (simp add: commitment_of_def)
qed

lemma tentative_is_committed:
  assumes "representable u"
  shows "tentative_commitment u = Some (commitment_of (acct_commit u))"
proof -
  let ?n = "length (owned_assets u)" and ?un = "uncommitted_assets u"
  have len: "?n + length ?un \<le> 255" using assms by (simp add: representable_def all_assets_def)
  have idx: "ucast (of_nat j :: u8) = (of_nat j :: AssetID)" if "j \<le> 255" for j
    using that by (simp add: unsigned_of_nat take_bit_nat_eq_self)
  have owned: "push_commitments (\<lambda>r i. asset_tentative_commitment r (ucast i)) (owned_assets u) 0 [] =
      Some (map (\<lambda>j. asset_tentative_commitment (owned_assets u ! j) (of_nat j)) [0..<?n])"
    using len by (subst push_commitments_complete) (auto simp: idx)
  have new: "push_commitments (\<lambda>r i. asset_tentative_commitment r (ucast i + of_nat ?n)) ?un 0 cs =
      Some (cs @ map (\<lambda>j. asset_tentative_commitment (?un ! j) (of_nat (j + ?n))) [0..<length ?un])" for cs
    using len by (subst push_commitments_complete) (auto simp: idx)
  have "tentative_commitment u = produce_commitment (acct_commit u)"
  proof -
    have all: "owned_assets (acct_commit u) = map (\<lambda>r. fst (asset_commit r)) (owned_assets u)
        @ map (\<lambda>r. revertable_asset (snd (asset_commit r))) ?un" by (simp add: acct_commit_def)
    have upt: "[0..<?n + length ?un] = [0..<?n] @ map (\<lambda>j. j + ?n) [0..<length ?un]"
      using upt_add_eq_append [of 0 ?n "length ?un"] map_add_upt [of ?n "length ?un"] by (simp add: add.commute)
    have r: "committed_available (fst (asset_commit r)) = available r" "snd (asset_commit r) = available r" for r
      by (simp_all add: asset_commit_def Let_def)
    have "produce_commitment (acct_commit u) = Some
      \<lparr>commit_owner = acct_owner u,
       commit_assets = map (\<lambda>j. asset_tentative_commitment (owned_assets u ! j) (of_nat j)) [0..<?n] @
         map (\<lambda>j. asset_tentative_commitment (?un ! j) (of_nat (j + ?n))) [0..<length ?un],
       commit_last_committed_id = last_committed_id u + get_seq_num_increment (sequence_number_vec u), commit_pk = acct_pk u\<rparr>"
      using len by (subst produce_commitment_eq)
        (auto simp: all upt nth_append r asset_produce_commitment_def asset_tentative_commitment_def revertable_asset_def acct_commit_def)
    then show ?thesis by (simp only: tentative_commitment_def owned new option.case)
  qed
  then show ?thesis using assms by (simp add: representable_produce)
qed

lemma acct_commit_idem: "acct_commit (acct_commit u) = acct_commit u"
  by (simp add: acct_commit_def asset_commit_def get_seq_num_increment_def Let_def revertable_asset_def comp_def)

definition pending :: "MemoryDatabase \<Rightarrow> AccountID \<rightharpoonup> AccountCommitment" where
  "pending db a = map_option (\<lambda>i. commitment_of (acct_commit (database db ! i))) (user_id_to_idx_map db a)"

lemma database_index:
  assumes "db_inv db" "user_id_to_idx_map db a = Some i"
  shows "i < length (database db)" "acct_owner (database db ! i) = a"
  using assms by (auto simp: db_inv_def indexes_def)

lemma database_card: "db_inv db \<Longrightarrow> card (dom (user_id_to_idx_map db)) = length (database db)"
  using indexes_dom [of "user_id_to_idx_map db" 0 "database db"] indexes_distinct [of "user_id_to_idx_map db" 0 "database db"]
    distinct_card [of "map acct_owner (database db)"] by (simp add: db_inv_def)

lemma dom_commitments [simp]: "dom (account_commitments db) = dom (user_id_to_idx_map db)" "dom (pending db) = dom (user_id_to_idx_map db)"
  by (auto simp: account_commitments_def pending_def)

lemma value_modify:
  assumes inv: "db_inv db" "list_all representable (database db)" and a: "a \<in> dom (user_id_to_idx_map db)"
  shows "produce_value_modify db a v = Inr (the (account_commitments db a))" "tentative_value_modify db a v = Inr (the (pending db a))"
proof -
  obtain i where i: "user_id_to_idx_map db a = Some i" using a by blast
  then have "i < length (database db)" "representable (database db ! i)" using database_index [OF inv(1) i] inv(2) by (simp_all add: list_all_length)
  then show "produce_value_modify db a v = Inr (the (account_commitments db a))" "tentative_value_modify db a v = Inr (the (pending db a))"
    using i by (simp_all add: produce_value_modify_def tentative_value_modify_def account_commitments_def pending_def
        representable_produce tentative_is_committed)
qed

lemma log_update:
  assumes inv: "db_inv db" "list_all representable (database db)" and T: "holds E f (commitment_trie db)" "dom f = dom (user_id_to_idx_map db)"
    and log: "covers log A" "A \<subseteq> dom (user_id_to_idx_map db)"
  shows "\<exists>T'. iterate_over_log (produce_value_modify db) log (commitment_trie db) = Inr T' \<and>
      holds E (\<lambda>a. if a \<in> A then account_commitments db a else f a) T'"
    "\<exists>T'. iterate_over_log (tentative_value_modify db) log (commitment_trie db) = Inr T' \<and>
      holds E (\<lambda>a. if a \<in> A then pending db a else f a) T'"
proof -
  have A: "set (concat (map snd log)) = A" "\<forall>(q, owners) \<in> set log. owners \<noteq> [] \<and> (\<forall>a \<in> set owners. prefix q (account_key a))"
    using log(1) by (simp_all add: covers_def)
  have some: "Some (the (account_commitments db a)) = account_commitments db a" "Some (the (pending db a)) = pending db a" if "a \<in> A" for a
    using that log(2) by (auto simp: account_commitments_def pending_def)
  have eq: "(\<lambda>a. if a \<in> A then Some (the (account_commitments db a)) else f a) = (\<lambda>a. if a \<in> A then account_commitments db a else f a)"
    "(\<lambda>a. if a \<in> A then Some (the (pending db a)) else f a) = (\<lambda>a. if a \<in> A then pending db a else f a)"
    using some by auto
  have p: "\<forall>a \<in> set (concat (map snd log)). a \<in> dom f \<and> (\<forall>v. produce_value_modify db a v = Inr (the (account_commitments db a)))"
    "\<forall>a \<in> set (concat (map snd log)). a \<in> dom f \<and> (\<forall>v. tentative_value_modify db a v = Inr (the (pending db a)))"
    using value_modify [OF inv] log(2) T(2) unfolding A(1) by blast+
  show "\<exists>T'. iterate_over_log (produce_value_modify db) log (commitment_trie db) = Inr T' \<and>
      holds E (\<lambda>a. if a \<in> A then account_commitments db a else f a) T'"
    using iterate_over_log_correct [OF T(1) A(2) p(1)] unfolding A(1) eq .
  show "\<exists>T'. iterate_over_log (tentative_value_modify db) log (commitment_trie db) = Inr T' \<and>
      holds E (\<lambda>a. if a \<in> A then pending db a else f a) T'"
    using iterate_over_log_correct [OF T(1) A(2) p(2)] unfolding A(1) eq .
qed

lemma commitment_hash:
  assumes "holds E f (commitment_trie db)" "card (dom f) < 2 ^ 32"
  shows "\<exists>T'. commitment_freeze_and_hash E db = Inr (trie_digest E (root (commitment_trie db)), db\<lparr>commitment_trie := T'\<rparr>) \<and> holds E f T'"
  using holds_hash [OF assms] by (auto simp: commitment_freeze_and_hash_def)

lemma commit_values_log_eq:
  assumes "db_inv db"
  shows "commit_values_log owners db = Inr (db\<lparr>database := map (\<lambda>u. if acct_owner u \<in> set owners then acct_commit u else u) (database db)\<rparr>)"
  using assms
proof (induction owners arbitrary: db)
  case (Cons a owners)
  have dist: "distinct (map acct_owner (database db))" using Cons.prems indexes_distinct by (auto simp: db_inv_def)
  show ?case
  proof (cases "lookup_user_id db a")
    case None
    then have "a \<notin> acct_owner ` set (database db)"
      using Cons.prems indexes_dom [of "user_id_to_idx_map db" 0 "database db"] by (auto simp: db_inv_def lookup_user_id_def)
    then have "map (\<lambda>u. if acct_owner u \<in> set owners then acct_commit u else u) (database db) =
        map (\<lambda>u. if acct_owner u \<in> set (a # owners) then acct_commit u else u) (database db)" by auto
    then show ?thesis using None Cons by simp
  next
    case (Some i)
    then have i: "i < length (database db)" "acct_owner (database db ! i) = a"
      using database_index [OF Cons.prems] by (simp_all add: lookup_user_id_def)
    let ?db = "put_account i (acct_commit (database db ! i)) db"
    have "(database db)[i := acct_commit (database db ! i)] = map (\<lambda>u. if acct_owner u = a then acct_commit u else u) (database db)"
    proof (rule nth_equalityI)
      fix j assume "j < length ((database db)[i := acct_commit (database db ! i)])"
      then have j: "j < length (database db)" by simp
      have "acct_owner (database db ! j) = a \<longleftrightarrow> j = i"
        using dist i j nth_eq_iff_index_eq [of "map acct_owner (database db)" j i] by simp
      then show "(database db)[i := acct_commit (database db ! i)] ! j = map (\<lambda>u. if acct_owner u = a then acct_commit u else u) (database db) ! j"
        using j by (simp add: nth_list_update)
    qed simp
    moreover have "db_inv ?db" by (rule db_inv_put [OF Cons.prems]) simp
    ultimately show ?thesis
      using Cons.IH [of ?db] Some i(1) by (simp add: commit_value_def put_account_def acct_commit_idem cong: if_cong)
  qed
qed simp

section \<open>A block\<close>

lemma committed_keys_ok: "committed_inv E db \<Longrightarrow> trie_keys_ok db"
  by (auto simp: committed_inv_def holds_def trie_keys_ok_def account_commitments_def)

lemma account_leaves_commitments:
  assumes "distinct (map acct_owner us)"
  shows "account_leaves (commitment_leaves f) us =
    commitment_leaves (\<lambda>a. if a \<in> acct_owner ` set us then map_of (map (\<lambda>u. (acct_owner u, commitment_of (acct_commit u))) us) a else f a)"
proof
  fix k
  show "account_leaves (commitment_leaves f) us k = commitment_leaves
      (\<lambda>a. if a \<in> acct_owner ` set us then map_of (map (\<lambda>u. (acct_owner u, commitment_of (acct_commit u))) us) a else f a) k"
  proof (cases "k \<in> account_key ` acct_owner ` set us")
    case True
    then obtain u where u: "u \<in> set us" "k = account_key (acct_owner u)" by blast
    have "map_of (map (\<lambda>u. (acct_owner u, commitment_of (acct_commit u))) us) (acct_owner u) = Some (commitment_of (acct_commit u))"
      using assms u(1) by (intro map_of_is_SomeI) (auto simp: comp_def)
    then show ?thesis using account_leaves_nth [OF assms u(1)] u by (simp add: account_leaf_def)
  next
    case False
    then have "commitment_leaves (\<lambda>a. if a \<in> acct_owner ` set us then map_of (map (\<lambda>u. (acct_owner u, commitment_of (acct_commit u))) us) a else f a) k =
        commitment_leaves f k" by (auto simp: commitment_leaves_def)
    then show ?thesis using account_leaves_other [OF False] by simp
  qed
qed

lemma commit_new_accounts_committed:
  assumes inv: "committed_inv E db" and ready: "creation_ready block db"
  shows "\<exists>T. commit_new_accounts block db = Inr (clear_internal_data_structures
      (db\<lparr>database := database db @ map acct_commit (uncommitted_db db), commitment_trie := T,
          user_id_to_idx_map := uncommitted_idx_map db ++ user_id_to_idx_map db,
          account_creation_thunks := account_creation_thunks db @
            [\<lparr>creation_block = block, num_accounts_created = length (uncommitted_db db)\<rparr>]\<rparr>))" (is "\<exists>T. _ = Inr (?db1 T)")
    and "\<And>db1. commit_new_accounts block db = Inr db1 \<Longrightarrow> committed_inv E db1"
proof -
  let ?un = "uncommitted_db db" and ?n = "length (database db)"
  have db: "db_inv db" "holds E (account_commitments db) (commitment_trie db)" "list_all representable (database db)"
    using inv by (simp_all add: committed_inv_def)
  obtain T where T: "commit_new_accounts block db = Inr (?db1 T)" "trie_inv 16 T" "hash_inv E T"
    "leaf_map (root T) = account_leaves (leaf_map (root (commitment_trie db))) ?un"
    using commit_new_accounts_correct [OF db(1) committed_keys_ok [OF inv] ready, of E] db(2) by (auto simp: holds_def)
  then show "\<exists>T. commit_new_accounts block db = Inr (?db1 T)" by blast
  have idx: "indexes (uncommitted_idx_map db) ?n ?un" "dom (user_id_to_idx_map db) \<inter> dom (uncommitted_idx_map db) = {}"
    using db(1) by (simp_all add: db_inv_def)
  have dist: "distinct (map acct_owner ?un)" and dom: "dom (uncommitted_idx_map db) = acct_owner ` set ?un"
    using indexes_distinct [OF idx(1)] indexes_dom [OF idx(1)] .
  have "account_commitments (?db1 T) a = (if a \<in> acct_owner ` set ?un
      then map_of (map (\<lambda>u. (acct_owner u, commitment_of (acct_commit u))) ?un) a else account_commitments db a)" for a
  proof (cases "uncommitted_idx_map db a")
    case None
    then have "a \<notin> acct_owner ` set ?un" using dom by auto
    moreover have "i < ?n" if "user_id_to_idx_map db a = Some i" for i using database_index [OF db(1) that] by blast
    ultimately show ?thesis using None
      by (cases "user_id_to_idx_map db a") (auto simp: account_commitments_def clear_internal_data_structures_def map_add_def nth_append)
  next
    case (Some i)
    then have i: "?n \<le> i" "i < ?n + length ?un" "acct_owner (?un ! (i - ?n)) = a" using idx(1) by (auto simp: indexes_def)
    then have mem: "?un ! (i - ?n) \<in> set ?un" by simp
    have "user_id_to_idx_map db a = None" using idx(2) Some by blast
    moreover have "map_of (map (\<lambda>u. (acct_owner u, commitment_of (acct_commit u))) ?un) a = Some (commitment_of (acct_commit (?un ! (i - ?n))))"
      using dist mem i(3) by (intro map_of_is_SomeI) (auto simp: comp_def)
    moreover have "a \<in> acct_owner ` set ?un" using mem i(3) by blast
    ultimately show ?thesis using Some i
      by (simp add: account_commitments_def clear_internal_data_structures_def map_add_def nth_append)
  qed
  then have "account_commitments (?db1 T) = (\<lambda>a. if a \<in> acct_owner ` set ?un
      then map_of (map (\<lambda>u. (acct_owner u, commitment_of (acct_commit u))) ?un) a else account_commitments db a)" by blast
  then have "leaf_map (root T) = commitment_leaves (account_commitments (?db1 T))"
    using T(4) db(2) account_leaves_commitments [OF dist] by (simp add: holds_def)
  then have "holds E (account_commitments (?db1 T)) (commitment_trie (?db1 T))"
    using T(2,3) by (simp add: holds_def clear_internal_data_structures_def)
  moreover have "db_inv (?db1 T)" using commit_new_accounts_inv(1) [OF db(1) committed_keys_ok [OF inv] T(1) ready] .
  moreover have "list_all representable (database (?db1 T))"
    using db(3) ready by (auto simp: clear_internal_data_structures_def creation_ready_def list_all_iff)
  moreover have "length (database (?db1 T)) < 2 ^ 32"
  proof -
    have "card (dom (leaf_map (root (commitment_trie db)))) = ?n"
      using db(2) database_card [OF db(1)] by (simp add: holds_def commitment_leaves_card)
    then show ?thesis using ready by (simp add: clear_internal_data_structures_def creation_ready_def)
  qed
  ultimately have "committed_inv E (?db1 T)" by (simp add: committed_inv_def)
  then show "\<And>db1. commit_new_accounts block db = Inr db1 \<Longrightarrow> committed_inv E db1" using T(1) by simp
qed

text \<open>The accounts that the log does not list were not modified.\<close>

definition logged :: "AccountID set \<Rightarrow> MemoryDatabase \<Rightarrow> bool" where
  "logged A db \<longleftrightarrow> A \<subseteq> dom (user_id_to_idx_map db) \<union> dom (uncommitted_idx_map db) \<and>
     (\<forall>u \<in> set (database db). acct_owner u \<notin> A \<longrightarrow> acct_commit u = u)"

lemma commitments_unlogged:
  assumes "committed_inv E db" "\<forall>u \<in> set (database db). acct_owner u \<notin> A \<longrightarrow> acct_commit u = u"
  shows "(\<lambda>a. if a \<in> A then pending db a else account_commitments db a) = pending db"
proof
  fix a
  have "account_commitments db a = pending db a" if "a \<notin> A"
  proof (cases "user_id_to_idx_map db a")
    case (Some i)
    then have "i < length (database db)" "acct_owner (database db ! i) = a"
      using assms(1) database_index [of db a i] by (auto simp: committed_inv_def)
    then have "acct_commit (database db ! i) = database db ! i" using assms(2) that by simp
    then show ?thesis by (simp add: account_commitments_def pending_def Some)
  qed (simp add: account_commitments_def pending_def)
  then show "(if a \<in> A then pending db a else account_commitments db a) = pending db a" by simp
qed

lemma commitments_commit_values: "db_inv db \<Longrightarrow> account_commitments (commit_values db) = pending db"
  by (rule ext) (auto simp: account_commitments_def pending_def commit_values_def map_option_case split: option.split dest: database_index(1))

text \<open>The validator hashes first and commits then; the producer commits first.\<close>

lemma committed_values:
  assumes inv: "committed_inv E db" and T: "holds E (pending db) T"
  shows "committed_inv E (commit_values (db\<lparr>commitment_trie := T\<rparr>))"
proof -
  let ?db = "db\<lparr>commitment_trie := T\<rparr>"
  have db: "db_inv ?db" "list_all representable (database ?db)" "length (database ?db) < 2 ^ 32" using inv by (simp_all add: committed_inv_def db_inv_def)
  have "account_commitments (commit_values ?db) = pending db"
    using commitments_commit_values [OF db(1)] by (simp add: pending_def [abs_def])
  then show ?thesis
    using db_inv_values(1) [OF db(1)] T db(2,3) by (simp add: committed_inv_def commit_values_def list_all_iff)
qed

lemma tentative_hash:
  assumes inv: "committed_inv E db" and log: "covers log A" "A \<subseteq> dom (user_id_to_idx_map db)"
    and same: "\<forall>u \<in> set (database db). acct_owner u \<notin> A \<longrightarrow> acct_commit u = u"
  shows "\<exists>T T'. tentative_produce_state_commitment E log db = Inr (trie_digest E (root T), db\<lparr>commitment_trie := T'\<rparr>) \<and>
    holds E (pending db) T \<and> holds E (pending db) T'"
proof -
  have db: "db_inv db" "list_all representable (database db)" "holds E (account_commitments db) (commitment_trie db)" "length (database db) < 2 ^ 32"
    using inv by (simp_all add: committed_inv_def)
  obtain T where T: "iterate_over_log (tentative_value_modify db) log (commitment_trie db) = Inr T"
    "holds E (\<lambda>a. if a \<in> A then pending db a else account_commitments db a) T" using log_update(2) [OF db(1-3) _ log] by auto
  have T': "holds E (pending db) T" using T(2) unfolding commitments_unlogged [OF inv same] .
  have "card (dom (pending db)) < 2 ^ 32" using database_card [OF db(1)] db(4) by simp
  with commitment_hash [of E "pending db" "db\<lparr>commitment_trie := T\<rparr>"] T' show ?thesis
    by (auto simp: tentative_produce_state_commitment_def T(1))
qed

lemma produced_hash:
  assumes inv: "committed_inv E db" and log: "covers log A" "A \<subseteq> dom (user_id_to_idx_map db)"
    and same: "\<forall>u \<in> set (database db). acct_owner u \<notin> A \<longrightarrow> acct_commit u = u"
  shows "\<exists>T T'. produce_state_commitment E log (commit_values db) = Inr (trie_digest E (root T), (commit_values db)\<lparr>commitment_trie := T'\<rparr>) \<and>
    holds E (pending db) T \<and> holds E (pending db) T'"
proof -
  have db: "db_inv db" "list_all representable (database db)" "holds E (account_commitments db) (commitment_trie db)" "length (database db) < 2 ^ 32"
    using inv by (simp_all add: committed_inv_def)
  let ?p = "commit_values db"
  have p: "db_inv ?p" "list_all representable (database ?p)" "account_commitments ?p = pending db" "user_id_to_idx_map ?p = user_id_to_idx_map db"
    "commitment_trie ?p = commitment_trie db"
    using db_inv_values(1) [OF db(1)] db(2) commitments_commit_values [OF db(1)] by (simp_all add: commit_values_def list_all_iff)
  obtain T where T: "iterate_over_log (produce_value_modify ?p) log (commitment_trie ?p) = Inr T"
    "holds E (\<lambda>a. if a \<in> A then account_commitments ?p a else account_commitments db a) T"
    using log_update(1) [OF p(1,2) _ _ log(1), of E "account_commitments db"] db(3) log(2) by (auto simp: p(4,5))
  have T': "holds E (pending db) T" using T(2) unfolding p(3) commitments_unlogged [OF inv same] .
  have "card (dom (pending db)) < 2 ^ 32" using database_card [OF db(1)] db(4) by simp
  with commitment_hash [of E "pending db" "?p\<lparr>commitment_trie := T\<rparr>"] T' show ?thesis
    by (auto simp: produce_state_commitment_def set_trie_commitment_to_user_account_commits_def T(1))
qed

lemma logged_after_creation:
  assumes inv: "committed_inv E db" and ready: "creation_ready block db" and log: "logged A db" and c: "commit_new_accounts block db = Inr db1"
  shows "A \<subseteq> dom (user_id_to_idx_map db1)" "\<forall>u \<in> set (database db1). acct_owner u \<notin> A \<longrightarrow> acct_commit u = u"
proof -
  have db1: "user_id_to_idx_map db1 = uncommitted_idx_map db ++ user_id_to_idx_map db"
    "database db1 = database db @ map acct_commit (uncommitted_db db)"
    using commit_new_accounts_committed(1) [OF inv ready] c by (auto simp: clear_internal_data_structures_def)
  show "A \<subseteq> dom (user_id_to_idx_map db1)" using log unfolding db1 logged_def dom_map_add by blast
  show "\<forall>u \<in> set (database db1). acct_owner u \<notin> A \<longrightarrow> acct_commit u = u"
    using log unfolding db1 logged_def by (auto simp: acct_commit_idem)
qed

lemma validator_and_producer:
  assumes inv: "committed_inv E db" and ready: "creation_ready block db" and logged: "logged A db" and log: "covers log A" "covers log' A"
  shows "\<exists>h r1 db1 r2 db2 r3 db3 p0 p1 p2. auto_commit_for_validation (new_auto_rollback block, db) = Inr (r1, db1) \<and>
    auto_produce_state_commitment E log (r1, db1) = Inr (h, r2, db2) \<and> auto_finalize_commit (r2, db2) = Inr (r3, db3) \<and>
    commit_new_accounts block db = Inr p0 \<and> commit_values_log (concat (map snd log')) p0 = Inr p1 \<and>
    produce_state_commitment E log' p1 = Inr (h, p2) \<and>
    database db3 = database p2 \<and> user_id_to_idx_map db3 = user_id_to_idx_map p2 \<and> committed_inv E db3 \<and> committed_inv E p2"
proof -
  obtain db1 where db1: "commit_new_accounts block db = Inr db1" using commit_new_accounts_committed(1) [OF inv ready] by blast
  have inv1: "committed_inv E db1" using commit_new_accounts_committed(2) [OF inv ready db1] .
  note A = logged_after_creation [OF inv ready logged db1]
  obtain T T' where T: "tentative_produce_state_commitment E log db1 = Inr (trie_digest E (root T), db1\<lparr>commitment_trie := T'\<rparr>)"
    "holds E (pending db1) T" "holds E (pending db1) T'" using tentative_hash [OF inv1 log(1) A] by blast
  obtain U U' where U: "produce_state_commitment E log' (commit_values db1) = Inr (trie_digest E (root U), (commit_values db1)\<lparr>commitment_trie := U'\<rparr>)"
    "holds E (pending db1) U" "holds E (pending db1) U'" using produced_hash [OF inv1 log(2) A] by blast
  have "card (dom (pending db1)) < 2 ^ 32" using database_card [of db1] inv1 by (simp add: committed_inv_def)
  then have h: "trie_digest E (root U) = trie_digest E (root T)" by (rule holds_same_hash [OF U(2) T(2)])
  let ?v = "db1\<lparr>commitment_trie := T'\<rparr>" and ?p = "db1\<lparr>commitment_trie := U'\<rparr>"
  have "db_inv ?v" using inv1 by (simp add: committed_inv_def db_inv_def)
  moreover have "map (\<lambda>u. if acct_owner u \<in> set (concat (map snd log)) then acct_commit u else u) (database ?v) = map acct_commit (database ?v)"
    using A(2) log(1) by (auto simp: covers_def)
  ultimately have v: "commit_values_log (concat (map snd log)) ?v = Inr (commit_values ?v)"
    using commit_values_log_eq [of ?v "concat (map snd log)"] by (simp only: commit_values_def)
  have "map (\<lambda>u. if acct_owner u \<in> set (concat (map snd log')) then acct_commit u else u) (database db1) = map acct_commit (database db1)"
    using A(2) log(2) by (auto simp: covers_def)
  then have w: "commit_values_log (concat (map snd log')) db1 = Inr (commit_values db1)"
    using commit_values_log_eq [of db1 "concat (map snd log')"] inv1 by (simp only: commit_values_def committed_inv_def)
  have p: "(commit_values db1)\<lparr>commitment_trie := U'\<rparr> = commit_values ?p" by (simp add: commit_values_def)
  have fin: "committed_inv E (commit_values ?v)" "committed_inv E (commit_values ?p)"
    using committed_values [OF inv1] T(3) U(3) by blast+
  have "database (commit_values ?v) = database (commit_values ?p)" "user_id_to_idx_map (commit_values ?v) = user_id_to_idx_map (commit_values ?p)"
    by (simp_all add: commit_values_def)
  moreover have "auto_commit_for_validation (new_auto_rollback block, db) = Inr ((new_auto_rollback block)\<lparr>do_rollback_for_validation := True\<rparr>, db1)"
    by (simp add: auto_commit_for_validation_def new_auto_rollback_def db1)
  moreover have "auto_finalize_commit ((new_auto_rollback block)\<lparr>do_rollback_for_validation := True,
      do_rollback_produce_state_commitment := True, rollback_log := Some log\<rparr>, ?v) =
    Inr ((new_auto_rollback block)\<lparr>rollback_log := Some log\<rparr>, commit_values ?v)"
    by (simp only: auto_finalize_commit_def) (simp add: new_auto_rollback_def v [simplified])
  ultimately show ?thesis
    using T(1) U(1) [unfolded h p] fin db1 w by (auto simp: auto_produce_state_commitment_def)
qed

section \<open>A failed validation\<close>

lemma undo_creations_none: "list_all (\<lambda>th. creation_block th \<le> block) thunks \<Longrightarrow> undo_creations block thunks db = Inr (thunks, db)"
  by (induction thunks arbitrary: db) (auto simp: not_less)

lemma commitments_rollback: "committed_inv E db \<Longrightarrow> account_commitments (rollback_values db) = account_commitments db"
proof
  fix a assume inv: "committed_inv E db"
  show "account_commitments (rollback_values db) a = account_commitments db a"
  proof (cases "user_id_to_idx_map db a")
    case (Some i)
    then have "i < length (database db)" using inv database_index by (auto simp: committed_inv_def)
    then show ?thesis using inv Some
      by (simp add: account_commitments_def rollback_values_def commitment_of_rollback committed_inv_def list_all_length)
  qed (simp add: account_commitments_def rollback_values_def)
qed

text \<open>
  The roll back compares with the number of the block that failed: its new accounts stay, and so does the record of
  their creation, which keeps any further attempt at the block from starting.
\<close>

lemma failed_validation:
  assumes inv: "committed_inv E db" and ready: "creation_ready block db" and logged: "logged A db" and log: "covers log A"
    and old: "list_all (\<lambda>th. creation_block th \<le> block) (account_creation_thunks db)" and block: "block \<noteq> 0"
  shows "\<exists>h r1 db1 r2 db2 db3. auto_commit_for_validation (new_auto_rollback block, db) = Inr (r1, db1) \<and>
    auto_produce_state_commitment E log (r1, db1) = Inr (h, r2, db2) \<and> auto_rollback r2 db2 = Inr db3 \<and>
    committed_inv E db3 \<and> database db3 = map acct_rollback (database db1) \<and> user_id_to_idx_map db3 = user_id_to_idx_map db1 \<and>
    account_creation_thunks db3 = account_creation_thunks db @
      [\<lparr>creation_block = block, num_accounts_created = length (uncommitted_db db)\<rparr>]"
proof -
  obtain db1 where T0: "commit_new_accounts block db = Inr db1"
    and fresh: "uncommitted_db db1 = []" "uncommitted_idx_map db1 = Map.empty" "reserved_account_ids db1 = {}"
      "account_creation_thunks db1 = account_creation_thunks db @
        [\<lparr>creation_block = block, num_accounts_created = length (uncommitted_db db)\<rparr>]"
    using commit_new_accounts_committed(1) [OF inv ready] by (auto simp: clear_internal_data_structures_def)
  have inv1: "committed_inv E db1" using commit_new_accounts_committed(2) [OF inv ready T0] .
  note A = logged_after_creation [OF inv ready logged T0]
  obtain T T' where T: "tentative_produce_state_commitment E log db1 = Inr (trie_digest E (root T), db1\<lparr>commitment_trie := T'\<rparr>)"
    "holds E (pending db1) T" "holds E (pending db1) T'" using tentative_hash [OF inv1 log A] by blast
  let ?v = "db1\<lparr>commitment_trie := T'\<rparr>"
  let ?w = "rollback_values ?v"
  have "undo_creations block (account_creation_thunks ?v) ?v = Inr (account_creation_thunks ?v, ?v)"
    using old by (intro undo_creations_none) (simp add: fresh)
  then have undone: "rollback_new_accounts block ?v = Inr ?v" by (simp add: rollback_new_accounts_def clear_internal_data_structures_def fresh)
  have db1: "db_inv ?v" "list_all representable (database ?v)" "account_commitments ?v = account_commitments db1" "length (database ?v) < 2 ^ 32"
    using inv1 by (simp_all add: committed_inv_def db_inv_def account_commitments_def [abs_def])
  have cw: "account_commitments ?w = account_commitments db1"
    using commitments_rollback [OF inv1] by (simp add: account_commitments_def [abs_def] rollback_values_def)
  have w: "db_inv ?w" "list_all representable (database ?w)" "holds E (pending db1) (commitment_trie ?w)"
    "dom (pending db1) = dom (user_id_to_idx_map ?w)" "A \<subseteq> dom (user_id_to_idx_map ?w)"
    using db_inv_values(2) [OF db1(1)] db1(2) T(3) A(1) by (auto simp: rollback_values_def list_all_iff representable_rollback)
  obtain U where U: "iterate_over_log (produce_value_modify ?w) log (commitment_trie ?w) = Inr U"
    "holds E (\<lambda>a. if a \<in> A then account_commitments ?w a else pending db1 a) U" using log_update(1) [OF w(1-4) log w(5)] by blast
  have "(\<lambda>a. if a \<in> A then account_commitments ?w a else pending db1 a) = account_commitments ?w"
    using commitments_unlogged [OF inv1 A(2)] by (auto simp: cw fun_eq_iff split: if_splits)
  then have hold: "holds E (account_commitments ?w) U" using U(2) by simp
  let ?db3 = "?w\<lparr>commitment_trie := U\<rparr>"
  let ?r1 = "(new_auto_rollback block)\<lparr>do_rollback_for_validation := True\<rparr>"
  let ?r2 = "?r1\<lparr>do_rollback_produce_state_commitment := True, rollback_log := Some log\<rparr>"
  have "auto_commit_for_validation (new_auto_rollback block, db) = Inr (?r1, db1)"
    by (simp add: auto_commit_for_validation_def new_auto_rollback_def T0)
  moreover have "auto_produce_state_commitment E log (?r1, db1) = Inr (trie_digest E (root T), ?r2, ?v)"
    using T(1) by (simp add: auto_produce_state_commitment_def)
  moreover have "auto_rollback ?r2 ?v = Inr ?db3"
    using undone U(1) by (simp add: auto_rollback_def new_auto_rollback_def rollback_produce_state_commitment_def
        set_trie_commitment_to_user_account_commits_def)
  moreover have "committed_inv E ?db3"
  proof -
    have "account_commitments ?db3 = account_commitments ?w" by (simp add: account_commitments_def [abs_def])
    then show ?thesis using w(1,2) hold db1(4) by (simp add: committed_inv_def db_inv_def) (simp add: rollback_values_def)
  qed
  moreover have "database ?db3 = map acct_rollback (database db1)" "user_id_to_idx_map ?db3 = user_id_to_idx_map db1"
    "account_creation_thunks ?db3 = account_creation_thunks db @ [\<lparr>creation_block = block, num_accounts_created = length (uncommitted_db db)\<rparr>]"
    by (simp_all add: rollback_values_def fresh(4))
  ultimately show ?thesis by blast
qed

lemma creation_recorded:
  "account_creation_thunks db' = ths @ [\<lparr>creation_block = block, num_accounts_created = n\<rparr>] \<Longrightarrow> block \<noteq> 0 \<Longrightarrow>
   commit_new_accounts block db' = Inl (Runtime_error ''account creation thunks block number error'')"
  by (simp add: commit_new_accounts_def block_number_mismatch_def)

section \<open>Building the trie from all accounts\<close>

lemma insert_commitments_correct:
  assumes "holds E f T" "\<forall>i \<in> set is. i < length accounts" "list_all representable accounts" "distinct (map acct_owner accounts)"
  shows "\<exists>T'. insert_commitments accounts is T = Inr T' \<and>
    holds E (\<lambda>a. if a \<in> (\<lambda>i. acct_owner (accounts ! i)) ` set is then map_of (map (\<lambda>u. (acct_owner u, commitment_of u)) accounts) a else f a) T'"
  using assms(1,2)
proof (induction "is" arbitrary: f T)
  case (Cons i "is")
  let ?u = "accounts ! i" and ?M = "map_of (map (\<lambda>u. (acct_owner u, commitment_of u)) accounts)"
  have i: "i < length accounts" using Cons.prems(2) by simp
  obtain T1 where T1: "trie_insert account_insert_fn (account_key (acct_owner ?u)) (commitment_of ?u) T = Inr T1"
    "holds E (f(acct_owner ?u \<mapsto> commitment_of ?u)) T1" using holds_insert [OF Cons.prems(1)] by blast
  let ?f = "f(acct_owner ?u \<mapsto> commitment_of ?u)"
  obtain T' where T': "insert_commitments accounts is T1 = Inr T'"
    "holds E (\<lambda>a. if a \<in> (\<lambda>i. acct_owner (accounts ! i)) ` set is then ?M a else ?f a) T'"
    using Cons.IH [OF T1(2)] Cons.prems(2) by auto
  have "?M (acct_owner ?u) = Some (commitment_of ?u)"
    using assms(4) i by (intro map_of_is_SomeI) (auto simp: comp_def)
  then have "(\<lambda>a. if a \<in> (\<lambda>i. acct_owner (accounts ! i)) ` set is then ?M a else ?f a) =
      (\<lambda>a. if a \<in> (\<lambda>i. acct_owner (accounts ! i)) ` set (i # is) then ?M a else f a)" by auto
  moreover have "produce_commitment ?u = Some (commitment_of ?u)" using assms(3) i by (simp add: representable_produce list_all_length)
  ultimately show ?case using T1(1) T' i by auto
qed simp

lemma holds_merge:
  assumes T: "holds E f T" and U: "holds E g U" and few: "card (dom f) < 2 ^ 32" "card (dom g) < 2 ^ 32"
  shows "\<exists>T'. trie_merge_in OverwriteMergeFn U T = Inr T' \<and> holds E (f ++ g) T'"
proof -
  have inv: "trie_inv 16 T" "few_leaves T" "trie_inv 16 U" "few_leaves U"
    using T U few by (simp_all add: holds_def few_leaves_def commitment_leaves_card)
  let ?P = "\<lambda>v m. m = size_metadata v"
  have compat: "overwrite_merge.compatible ?P" unfolding overwrite_merge.compatible_def by (simp add: OverwriteMergeFn_def size_metadata_def)
  obtain T' where T': "trie_merge_in OverwriteMergeFn U T = Inr T'" "trie_inv 16 T'"
    "\<forall>k. trie_map (root T') k = merge_values (value_merge OverwriteMergeFn) (trie_map (root T) k) (trie_map (root U) k)"
    "\<forall>P. overwrite_merge.compatible P \<longrightarrow> meta_ok P (root T) \<longrightarrow> meta_ok P (root U) \<longrightarrow> meta_ok P (root T')"
    using overwrite_merge.trie_merge_correct [OF inv overwrite_compatible] by blast
  have plain: "meta_ok ?P (root V)" if V: "holds E h V" for h V
  proof -
    have "m = size_metadata v" if "(k, v, m) \<in> set (leaves (root V))" for k v m
    proof -
      have "leaf_map (root V) k = Some (v, m)" using V that leaf_map_iff [of 16 "root V" k v m] by (simp add: holds_def trie_inv_def)
      then show ?thesis using V by (auto simp: holds_def commitment_leaves_def split: if_splits)
    qed
    moreover have "sums_ok (root V)" using V meta_ok_iff [of flags_ok "root V"] by (simp add: holds_def trie_inv_def)
    ultimately show ?thesis unfolding meta_ok_iff [of ?P] by auto
  qed
  have ok: "meta_ok ?P (root T')" using T'(4) compat plain [OF T] plain [OF U] by blast
  have wf: "wf_trie 16 (root T')" using T'(2) by (simp add: trie_inv_def)
  have "leaf_map (root T') k = map_option (\<lambda>c. (c, size_metadata c)) (trie_map (root T') k)" for k
  proof (cases "leaf_map (root T') k")
    case (Some x)
    obtain v m where x: "x = (v, m)" by (cases x)
    then have "(k, v, m) \<in> set (leaves (root T'))" using Some leaf_map_iff [OF wf, of k v m] by simp
    then have "m = size_metadata v" using ok unfolding meta_ok_iff [of ?P] by auto
    then show ?thesis by (simp add: trie_map_leaf_map Some x)
  qed (simp add: trie_map_leaf_map)
  moreover have "trie_map (root T') k = map_option fst (commitment_leaves (f ++ g) k)" for k
  proof -
    have "merge_values (value_merge OverwriteMergeFn) x y = (case y of None \<Rightarrow> x | Some w \<Rightarrow> Some w)" for x y :: "AccountCommitment option"
      by (cases x; cases y) (simp_all add: OverwriteMergeFn_def)
    moreover have "trie_map (root T) k = map_option fst (commitment_leaves f k)" "trie_map (root U) k = map_option fst (commitment_leaves g k)"
      using T U by (simp_all add: holds_def trie_map_leaf_map)
    ultimately show ?thesis using T'(3) by (simp add: commitment_leaves_def map_add_def split: option.split)
  qed
  ultimately have "leaf_map (root T') = commitment_leaves (f ++ g)"
    by (intro ext) (auto simp: commitment_leaves_def comp_def option.map_comp map_option_case split: option.split)
  then show ?thesis using T'(1,2) merge_hash_inv [OF T'(1)] T U by (auto simp: holds_def)
qed

lemma merge_ranges_correct:
  assumes "holds E f T" "dom f \<subseteq> acct_owner ` set accounts" "\<forall>(b, e) \<in> set ranges. e \<le> length accounts" "list_all representable accounts"
    "distinct (map acct_owner accounts)" "length accounts < 2 ^ 32"
  shows "\<exists>T'. merge_ranges accounts ranges T = Inr T' \<and>
    holds E (\<lambda>a. if \<exists>(b, e) \<in> set ranges. \<exists>i. b \<le> i \<and> i < e \<and> acct_owner (accounts ! i) = a
      then map_of (map (\<lambda>u. (acct_owner u, commitment_of u)) accounts) a else f a) T'"
  using assms(1-3)
proof (induction ranges arbitrary: f T)
  case (Cons r ranges)
  obtain b e where r: "r = (b, e)" by (cases r)
  let ?M = "map_of (map (\<lambda>u. (acct_owner u, commitment_of u)) accounts)"
  let ?in = "\<lambda>a. \<exists>i. b \<le> i \<and> i < e \<and> acct_owner (accounts ! i) = a"
  have e: "e \<le> length accounts" using Cons.prems(3) by (simp add: r)
  obtain L where L: "insert_commitments accounts [b..<e] empty_trie = Inr L"
    "holds E (\<lambda>a. if a \<in> (\<lambda>i. acct_owner (accounts ! i)) ` set [b..<e] then ?M a else None) L"
    using insert_commitments_correct [OF holds_empty [of E] _ assms(4,5), of "[b..<e]"] e by auto
  define g where "g = (\<lambda>a. if ?in a then ?M a else None)"
  have "(\<lambda>a. if a \<in> (\<lambda>i. acct_owner (accounts ! i)) ` set [b..<e] then ?M a else None) = g"
    by (auto simp: g_def fun_eq_iff)
  then have Lg: "holds E g L" using L(2) by simp
  have M: "?M a \<noteq> None" if in_range: "?in a" for a
  proof -
    obtain i where i: "i < e" "acct_owner (accounts ! i) = a" using in_range by blast
    then have "i < length accounts" using e by simp
    with i(2) have "a \<in> acct_owner ` set accounts" by auto
    then show ?thesis by (auto simp: map_of_eq_None_iff image_iff)
  qed
  have card: "card (dom h) < 2 ^ 32" if "dom h \<subseteq> acct_owner ` set accounts" for h :: "AccountID \<rightharpoonup> AccountCommitment"
    using card_mono [OF _ that] card_image_le [of "set accounts" acct_owner] card_length [of accounts] assms(6) by simp
  have dg: "dom g \<subseteq> acct_owner ` set accounts" using e by (auto simp: g_def split: if_splits)
  obtain T1 where T1: "trie_merge_in OverwriteMergeFn L T = Inr T1" "holds E (f ++ g) T1"
    using holds_merge [OF Cons.prems(1) Lg card [OF Cons.prems(2)] card [OF dg]] by blast
  have fg: "(f ++ g) a = (if ?in a then ?M a else f a)" for a
  proof (cases "?in a")
    case True
    then obtain v where "?M a = Some v" using M by blast
    moreover have "g a = ?M a" unfolding g_def using True by (rule if_P)
    ultimately show ?thesis unfolding if_P [OF True] by (simp add: map_add_def)
  next
    case False
    have "g a = None" unfolding g_def using False by (rule if_not_P)
    then show ?thesis unfolding if_not_P [OF False] by (simp add: map_add_def)
  qed
  have "dom (f ++ g) \<subseteq> acct_owner ` set accounts" using Cons.prems(2) dg by auto
  from Cons.IH [OF T1(2) this] obtain T' where T': "merge_ranges accounts ranges T1 = Inr T'"
    "holds E (\<lambda>a. if \<exists>(b, e) \<in> set ranges. \<exists>i. b \<le> i \<and> i < e \<and> acct_owner (accounts ! i) = a then ?M a else (f ++ g) a) T'"
    using Cons.prems(3) by auto
  have "(\<lambda>a. if \<exists>(b, e) \<in> set ranges. \<exists>i. b \<le> i \<and> i < e \<and> acct_owner (accounts ! i) = a then ?M a else (f ++ g) a) =
      (\<lambda>a. if \<exists>(b, e) \<in> set (r # ranges). \<exists>i. b \<le> i \<and> i < e \<and> acct_owner (accounts ! i) = a then ?M a else f a)"
    by (rule ext) (simp add: fg r, blast)
  then show ?case using L(1) T1(1) T' by (simp add: r)
qed simp

lemma rebuild_from_accounts:
  assumes db: "db_inv db" "list_all representable (database db)" "length (database db) < 2 ^ 32" and empty: "commitment_trie db = empty_trie"
    and ranges: "\<forall>(b, e) \<in> set ranges. e \<le> length (database db)" "\<forall>i < length (database db). \<exists>(b, e) \<in> set ranges. b \<le> i \<and> i < e"
  shows "\<exists>T T2. rebuild_state_commitment E ranges db = Inr (trie_digest E (root T), db\<lparr>commitment_trie := T2\<rparr>) \<and>
    holds E (account_commitments db) T \<and> committed_inv E (db\<lparr>commitment_trie := T2\<rparr>)"
proof -
  let ?us = "database db" let ?M = "map_of (map (\<lambda>u. (acct_owner u, commitment_of u)) ?us)"
  let ?in = "\<lambda>a. \<exists>(b, e) \<in> set ranges. \<exists>i. b \<le> i \<and> i < e \<and> acct_owner (?us ! i) = a"
  have dist: "distinct (map acct_owner ?us)" and dom: "dom (user_id_to_idx_map db) = acct_owner ` set ?us"
    using indexes_distinct [of "user_id_to_idx_map db" 0 ?us] indexes_dom [of "user_id_to_idx_map db" 0 ?us] db(1) by (simp_all add: db_inv_def)
  obtain T where T: "merge_ranges ?us ranges empty_trie = Inr T" "holds E (\<lambda>a. if ?in a then ?M a else None) T"
    using merge_ranges_correct [OF holds_empty [of E] _ ranges(1) db(2) dist db(3)] by auto
  have "(if ?in a then ?M a else None) = account_commitments db a" for a
  proof (cases "user_id_to_idx_map db a")
    case None
    then have "a \<notin> acct_owner ` set ?us" using dom by auto
    then have "?M a = None" by (simp add: map_of_eq_None_iff image_image)
    then show ?thesis using None by (simp add: account_commitments_def)
  next
    case (Some i)
    then have i: "i < length ?us" "acct_owner (?us ! i) = a" using database_index [OF db(1)] by simp_all
    then have "?in a" using ranges(2) by blast
    moreover have "?M a = Some (commitment_of (?us ! i))" using dist i by (intro map_of_is_SomeI) (auto simp: comp_def)
    ultimately show ?thesis using Some by (simp add: account_commitments_def)
  qed
  then have T': "holds E (account_commitments db) T" using T(2) by presburger
  have few: "card (dom (account_commitments db)) < 2 ^ 32" using database_card [OF db(1)] db(3) by simp
  obtain T2 where T2: "commitment_freeze_and_hash E (db\<lparr>commitment_trie := T\<rparr>) = Inr (trie_digest E (root T), db\<lparr>commitment_trie := T2\<rparr>)"
    "holds E (account_commitments db) T2" using commitment_hash [of E "account_commitments db" "db\<lparr>commitment_trie := T\<rparr>"] T' few by auto
  have "committed_inv E (db\<lparr>commitment_trie := T2\<rparr>)"
    using db T2(2) by (simp add: committed_inv_def db_inv_def account_commitments_def [abs_def])
  then show ?thesis using T2(1) T(1) T' empty by (auto simp: rebuild_state_commitment_def)
qed

lemma same_state_hash:
  assumes inv: "committed_inv E db" and T: "holds E (account_commitments db) T"
  shows "\<exists>db1. commitment_freeze_and_hash E db = Inr (trie_digest E (root T), db1)"
proof -
  have db: "holds E (account_commitments db) (commitment_trie db)" "card (dom (account_commitments db)) < 2 ^ 32"
    using inv database_card [of db] by (simp_all add: committed_inv_def)
  from commitment_hash [OF this] show ?thesis unfolding holds_same_hash [OF db(1) T db(2)] by blast
qed

lemma rebuilt_hash:
  assumes inv: "committed_inv E db" and ranges: "\<forall>(b, e) \<in> set ranges. e \<le> length (database db)"
    "\<forall>i < length (database db). \<exists>(b, e) \<in> set ranges. b \<le> i \<and> i < e"
  shows "\<exists>h db1 T. commitment_freeze_and_hash E db = Inr (h, db1) \<and>
    rebuild_state_commitment E ranges (db\<lparr>commitment_trie := empty_trie\<rparr>) = Inr (h, db\<lparr>commitment_trie := T\<rparr>) \<and>
    committed_inv E (db\<lparr>commitment_trie := T\<rparr>)"
proof -
  let ?db = "db\<lparr>commitment_trie := empty_trie\<rparr>"
  have "db_inv ?db" "list_all representable (database ?db)" "length (database ?db) < 2 ^ 32" "commitment_trie ?db = empty_trie"
    "\<forall>(b, e) \<in> set ranges. e \<le> length (database ?db)" "\<forall>i < length (database ?db). \<exists>(b, e) \<in> set ranges. b \<le> i \<and> i < e"
    using inv ranges by (simp_all add: committed_inv_def db_inv_def)
  from rebuild_from_accounts [OF this, of E] obtain T T2 where
    T: "rebuild_state_commitment E ranges ?db = Inr (trie_digest E (root T), db\<lparr>commitment_trie := T2\<rparr>)"
      "holds E (account_commitments db) T" "committed_inv E (db\<lparr>commitment_trie := T2\<rparr>)"
    by (auto simp: account_commitments_def [abs_def])
  then show ?thesis using same_state_hash [OF inv T(2)] by blast
qed

lemma committed_inv_empty: "committed_inv E empty_database"
proof -
  have "account_commitments empty_database = Map.empty" by (rule ext) (simp add: account_commitments_def empty_database_def)
  then show ?thesis using holds_empty [of E] db_inv_empty by (simp add: committed_inv_def) (simp add: empty_database_def)
qed

lemma committed_inv_creation:
  assumes inv: "committed_inv E db" and new: "acct_owner u \<notin> dom (user_id_to_idx_map db) \<union> dom (uncommitted_idx_map db)"
  shows "committed_inv E (commit_account_creation (acct_owner u) u db)"
proof -
  have "db_inv (commit_account_creation (acct_owner u) u db)" using inv new by (intro db_inv_create) (simp_all add: committed_inv_def)
  moreover have "account_commitments (commit_account_creation (acct_owner u) u db) = account_commitments db"
    by (rule ext) (simp add: account_commitments_def commit_account_creation_def Let_def)
  ultimately show ?thesis using inv by (simp add: committed_inv_def) (simp add: commit_account_creation_def Let_def)
qed

end
