(* ===== verification/Database_Disk.thy ===== *)
theory Database_Disk
  imports Database_Commitment Lmdb_Wrapper
begin

text \<open>
  The accounts on disk, \<^verbatim>\<open>memory_database.h\<close> and \<^verbatim>\<open>memory_database.cc\<close>: every block leaves the
  commitments of the accounts it modified, which are written some blocks at a time; after a restart the accounts and
  the commitment trie are built from the table.  Values are kept decoded; a message that was never assigned is
  \<open>None\<close>.
\<close>

section \<open>Operations\<close>

record ThunkKVPair =
  thunk_key :: AccountID
  thunk_msg :: "AccountCommitment option"

record DBPersistenceThunk =
  thunk_kvs :: "ThunkKVPair list"
  kvs_block_number :: u64

record 'd AccountStore =
  memory :: MemoryDatabase
  account_lmdb :: "'d LMDBInstance"
  persistence_thunks :: "DBPersistenceThunk list"

text \<open>The key is the identifier in the byte order of the machine, here little-endian.\<close>

definition produce_lmdb_key :: "AccountID \<Rightarrow> byte list" where
  "produce_lmdb_key owner = rev (big_endian_bytes 8 owner)"

definition read_lmdb_key :: "byte list \<Rightarrow> AccountID" where
  "read_lmdb_key key = read_unsigned_big_endian (rev key)"

definition assign_kv :: "MemoryDatabase \<Rightarrow> AccountID \<Rightarrow> ThunkKVPair res" where
  "assign_kv db account =
     (case lookup_user_id db account of
        None \<Rightarrow> Inl (Runtime_error ''can't commit invalid account'')
      | Some idx \<Rightarrow>
          if length (database db) \<le> idx then Inl Undefined
          else res_bind (res_of_option Diverges (produce_commitment (database db ! idx))) (\<lambda>commitment.
               Inr \<lparr>thunk_key = account, thunk_msg = Some commitment\<rparr>))"

definition add_persistence_thunk :: "u64 \<Rightarrow> AccountID list \<Rightarrow> 'd AccountStore \<Rightarrow> 'd AccountStore res" where
  "add_persistence_thunk current_block_number log s =
     res_bind (res_map (assign_kv (memory s)) log) (\<lambda>xs.
     Inr (s\<lparr>persistence_thunks := persistence_thunks s @ [\<lparr>thunk_kvs = xs, kvs_block_number = current_block_number\<rparr>]\<rparr>))"

fun put_kvs :: "(AccountCommitment, 'd) lmdb \<Rightarrow> bool \<Rightarrow> ThunkKVPair list \<Rightarrow> 'd \<Rightarrow> 'd res" where
  "put_kvs L is_open [] d = Inr d"
| "put_kvs L is_open (kv # xs) d =
     (case thunk_msg kv of
        None \<Rightarrow> Inl (Runtime_error ''failed to accumulate value in persistence thunk'')
      | Some msg \<Rightarrow> put_kvs L is_open xs (if is_open then mdb_put L (produce_lmdb_key (thunk_key kv)) msg d else d))"

fun put_thunks :: "(AccountCommitment, 'd) lmdb \<Rightarrow> bool \<Rightarrow> DBPersistenceThunk list \<Rightarrow> u64 \<Rightarrow> 'd \<Rightarrow> ('d \<times> u64) res" where
  "put_thunks L is_open [] current_block_number d = Inr (d, current_block_number)"
| "put_thunks L is_open (th # ths) current_block_number d =
     (if kvs_block_number th \<noteq> current_block_number + 1 then Inl (Runtime_error ''can't persist blocks in wrong order!!!'')
      else res_bind (put_kvs L is_open (thunk_kvs th) d) (put_thunks L is_open ths (kvs_block_number th)))"

definition set_persisted_round :: "'d LMDBInstance \<Rightarrow> 'd AccountStore \<Rightarrow> 'd AccountStore" where
  "set_persisted_round I s = s\<lparr>account_lmdb := I, memory := memory s\<lparr>persisted_round_number := lmdb_round I\<rparr>\<rparr>"

definition commit_persistence_thunks :: "(AccountCommitment, 'd) lmdb \<Rightarrow> u64 \<Rightarrow> 'd AccountStore \<Rightarrow> 'd AccountStore res" where
  "commit_persistence_thunks L max_round_number s =
     (let thunks_to_commit = filter (\<lambda>th. kvs_block_number th \<le> max_round_number) (persistence_thunks s);
          s = s\<lparr>persistence_thunks := filter (\<lambda>th. max_round_number < kvs_block_number th) (persistence_thunks s)\<rparr>
      in if thunks_to_commit = [] then Inr s
         else res_bind (put_thunks L (env_open (account_lmdb s)) thunks_to_commit (lmdb_round (account_lmdb s)) (table (account_lmdb s)))
           (\<lambda>(d, current_block_number).
         res_bind (commit_wtxn d current_block_number (account_lmdb s)) (\<lambda>I.
           let s = set_persisted_round I s;
               s = s\<lparr>memory := memory s\<lparr>account_creation_thunks :=
                       filter (\<lambda>th. max_round_number < creation_block th) (account_creation_thunks (memory s))\<rparr>\<rparr>
           in if current_block_number \<noteq> max_round_number then Inl (Runtime_error ''missing commitment'') else Inr s)))"

text \<open>\<open>persist_lmdb\<close> writes all accounts.\<close>

fun put_accounts :: "(AccountCommitment, 'd) lmdb \<Rightarrow> UserAccount list \<Rightarrow> 'd \<Rightarrow> 'd res" where
  "put_accounts L [] d = Inr d"
| "put_accounts L (u # us) d =
     res_bind (res_of_option Diverges (produce_commitment u)) (\<lambda>commitment.
     put_accounts L us (mdb_put L (produce_lmdb_key (acct_owner u)) commitment d))"

definition db_persist_lmdb :: "(AccountCommitment, 'd) lmdb \<Rightarrow> u64 \<Rightarrow> 'd AccountStore \<Rightarrow> 'd AccountStore res" where
  "db_persist_lmdb L current_block_number s =
     res_bind (put_accounts L (database (memory s)) (table (account_lmdb s))) (\<lambda>d.
     res_bind (commit_wtxn d current_block_number (account_lmdb s)) (\<lambda>I. Inr (set_persisted_round I s)))"

fun load_accounts :: "(byte list \<times> AccountCommitment) list \<Rightarrow> MemoryDatabase \<Rightarrow> MemoryDatabase res" where
  "load_accounts [] db = Inr db"
| "load_accounts ((key, commitment) # es) db =
     (if read_lmdb_key key \<noteq> commit_owner commitment then Inl (Runtime_error ''key read error'')
      else res_bind (account_of_commitment commitment) (\<lambda>u.
           load_accounts es (db\<lparr>user_id_to_idx_map := [commit_owner commitment \<mapsto> length (database db)] ++ user_id_to_idx_map db,
                                 database := database db @ [u]\<rparr>)))"

definition db_load_lmdb_contents_to_memory ::
    "(AccountCommitment, 'd) lmdb \<Rightarrow> AccountCommitment hash_env \<Rightarrow> (nat \<times> nat) list \<Rightarrow> 'd AccountStore \<Rightarrow> 'd AccountStore res" where
  "db_load_lmdb_contents_to_memory L E ranges s =
     res_bind (load_accounts (mdb_entries L (table (account_lmdb s))) (memory s)) (\<lambda>db.
     res_bind (rebuild_state_commitment E ranges db) (\<lambda>(h, db). Inr (s\<lparr>memory := db\<rparr>)))"

text \<open>
  \<open>clear_persistence_thunks_and_reload\<close> goes back to the persisted block: the thunks from the newest on, each
  account as the table has it.  The trie of commitments is not brought along.
\<close>

fun reload_kvs :: "(AccountCommitment, 'd) lmdb \<Rightarrow> 'd \<Rightarrow> ThunkKVPair list \<Rightarrow> MemoryDatabase \<Rightarrow> MemoryDatabase res" where
  "reload_kvs L d [] db = Inr db"
| "reload_kvs L d (kv # xs) db =
     (case mdb_get L (produce_lmdb_key (thunk_key kv)) d of
        None \<Rightarrow> reload_kvs L d xs db
      | Some commitment \<Rightarrow>
          (case user_id_to_idx_map db (thunk_key kv) of
             None \<Rightarrow> Inl (Runtime_error ''invalid lookup to user_id_to_idx_map!'')
           | Some idx \<Rightarrow>
               if length (database db) \<le> idx then Inl Undefined
               else res_bind (account_of_commitment commitment) (\<lambda>u. reload_kvs L d xs (put_account idx u db))))"

fun reload_thunks :: "(AccountCommitment, 'd) lmdb \<Rightarrow> 'd \<Rightarrow> u64 \<Rightarrow> DBPersistenceThunk list \<Rightarrow> MemoryDatabase \<Rightarrow> MemoryDatabase res" where
  "reload_thunks L d expected [] db = Inr db"
| "reload_thunks L d expected (th # ths) db =
     (if expected < kvs_block_number th then res_bind (reload_kvs L d (thunk_kvs th) db) (reload_thunks L d expected ths)
      else reload_thunks L d expected ths db)"

definition clear_persistence_thunks_and_reload :: "(AccountCommitment, 'd) lmdb \<Rightarrow> u64 \<Rightarrow> 'd AccountStore \<Rightarrow> 'd AccountStore res" where
  "clear_persistence_thunks_and_reload L expected_persisted_round_number s =
     res_bind (rollback_new_accounts expected_persisted_round_number (memory s)) (\<lambda>db.
     if expected_persisted_round_number \<noteq> lmdb_round (account_lmdb s) then Inl (Runtime_error ''invalid load!'')
     else res_bind (reload_thunks L (table (account_lmdb s)) expected_persisted_round_number (rev (persistence_thunks s)) db) (\<lambda>db.
          Inr (s\<lparr>memory := db, persistence_thunks := []\<rparr>)))"

text \<open>A restart: the table is opened again and the accounts are loaded into an empty database.\<close>

definition restart_accounts ::
    "(AccountCommitment, 'd) lmdb \<Rightarrow> AccountCommitment hash_env \<Rightarrow> (nat \<times> nat) list \<Rightarrow> 'd LMDBInstance \<Rightarrow> 'd AccountStore res" where
  "restart_accounts L E ranges I =
     res_bind (open_db (I\<lparr>lmdb_round := 0\<rparr>)) (\<lambda>I.
     db_load_lmdb_contents_to_memory L E ranges
       (set_persisted_round I \<lparr>memory = empty_database, account_lmdb = I, persistence_thunks = []\<rparr>))"

section \<open>Accounts and their commitments\<close>

lemma lmdb_key_simps [simp]: "read_lmdb_key (produce_lmdb_key a) = a" "length (produce_lmdb_key a) = 8"
  "produce_lmdb_key a = produce_lmdb_key b \<longleftrightarrow> a = b"
proof -
  show r: "read_lmdb_key (produce_lmdb_key a) = a" for a
    using read_unsigned_of_bytes [of a "[]"] by (simp add: read_lmdb_key_def produce_lmdb_key_def)
  show "length (produce_lmdb_key a) = 8" by (simp add: produce_lmdb_key_def)
  show "produce_lmdb_key a = produce_lmdb_key b \<longleftrightarrow> a = b" using r by metis
qed

definition good_commitment :: "AccountID \<Rightarrow> AccountCommitment \<Rightarrow> bool" where
  "good_commitment a c \<longleftrightarrow> (\<exists>u. representable u \<and> acct_owner u = a \<and> c = commitment_of u)"

lemma commitments_good: "committed_inv E db \<Longrightarrow> account_commitments db a = Some c \<Longrightarrow> good_commitment a c"
proof -
  assume inv: "committed_inv E db" and c: "account_commitments db a = Some c"
  obtain i where i: "user_id_to_idx_map db a = Some i" "c = commitment_of (database db ! i)" using c by (auto simp: account_commitments_def)
  then have "i < length (database db)" "acct_owner (database db ! i) = a" using inv database_index [of db a i] by (simp_all add: committed_inv_def)
  then show "good_commitment a c" using inv i(2) by (auto simp: good_commitment_def committed_inv_def list_all_length)
qed

lemma good_account:
  assumes "good_commitment a c"
  shows "\<exists>u. account_of_commitment c = Inr u \<and> acct_owner u = a \<and> commit_owner c = a \<and> representable u \<and>
    commitment_of u = c \<and> acct_commit u = u"
proof -
  obtain u where u: "representable u" "acct_owner u = a" "c = commitment_of u" using assms by (auto simp: good_commitment_def)
  let ?cs = "map (\<lambda>j. asset_produce_commitment (owned_assets u ! j) (of_nat j)) [0..<length (owned_assets u)]"
  have len: "length (owned_assets u) \<le> 255" using u(1) by (simp add: representable_def all_assets_def)
  have c: "c = \<lparr>commit_owner = a, commit_assets = ?cs, commit_last_committed_id = last_committed_id u, commit_pk = acct_pk u\<rparr>"
    using produce_commitment_eq [OF len] u by (simp add: commitment_of_def)
  have "load_assets ?cs [] = Inr (map (\<lambda>c. revertable_asset (amount_available c)) ?cs)"
    using len load_assets_in_order [of ?cs 0 "[]"] by (simp add: asset_produce_commitment_def)
  then have load: "account_of_commitment c = Inr \<lparr>owned_assets = map (\<lambda>c. revertable_asset (amount_available c)) ?cs, uncommitted_assets = [],
      sequence_number_vec = 0, last_committed_id = last_committed_id u, acct_owner = a, acct_pk = acct_pk u\<rparr>" (is "_ = Inr ?v")
    by (simp add: account_of_commitment_def c)
  have "produce_commitment ?v = Some c"
    using len by (subst produce_commitment_eq) (auto simp: c asset_produce_commitment_def revertable_asset_def)
  then have "commitment_of ?v = c" by (simp add: commitment_of_def)
  moreover have "acct_commit ?v = ?v"
    by (simp add: acct_commit_def asset_commit_def get_seq_num_increment_def Let_def revertable_asset_def)
  moreover have "representable ?v" using len by (simp add: representable_def all_assets_def)
  ultimately show ?thesis using load by (intro exI [of _ ?v]) (simp add: c)
qed

section \<open>The table\<close>

definition table_holds :: "(AccountCommitment, 'd) lmdb \<Rightarrow> (AccountID \<rightharpoonup> AccountCommitment) \<Rightarrow> 'd \<Rightarrow> bool" where
  "table_holds L f d \<longleftrightarrow> dom (disk_map L d) \<subseteq> range produce_lmdb_key \<and> (\<forall>a. disk_map L d (produce_lmdb_key a) = f a)"

lemma table_put:
  assumes "lmdb_laws n L" "table_holds L f d"
  shows "table_holds L (f(a \<mapsto> c)) (mdb_put L (produce_lmdb_key a) c d)"
proof -
  have "disk_map L (mdb_put L (produce_lmdb_key a) c d) = (disk_map L d)(produce_lmdb_key a \<mapsto> c)" using assms(1) by (simp add: lmdb_laws_def)
  then show ?thesis using assms(2) by (auto simp: table_holds_def)
qed

fun written :: "ThunkKVPair list \<Rightarrow> (AccountID \<rightharpoonup> AccountCommitment) \<Rightarrow> AccountID \<rightharpoonup> AccountCommitment" where
  "written [] f = f"
| "written (kv # xs) f = written xs (f(thunk_key kv := thunk_msg kv))"

definition complete :: "ThunkKVPair list \<Rightarrow> bool" where
  "complete xs \<longleftrightarrow> (\<forall>kv \<in> set xs. thunk_msg kv \<noteq> None)"

lemma put_kvs_correct:
  assumes L: "lmdb_laws n L"
  shows "complete xs \<Longrightarrow> table_holds L f d \<Longrightarrow> \<exists>d'. put_kvs L True xs d = Inr d' \<and> table_holds L (written xs f) d'"
proof (induction xs arbitrary: f d)
  case (Cons kv xs)
  obtain c where c: "thunk_msg kv = Some c" using Cons.prems(1) by (auto simp: complete_def)
  have "complete xs" using Cons.prems(1) by (simp add: complete_def)
  from Cons.IH [OF this table_put [OF L Cons.prems(2)]] obtain d' where
    "put_kvs L True xs (mdb_put L (produce_lmdb_key (thunk_key kv)) c d) = Inr d'" "table_holds L (written xs (f(thunk_key kv \<mapsto> c))) d'"
    by blast
  then show ?case by (simp add: c del: fun_upd_apply)
qed auto

lemma put_accounts_correct:
  assumes L: "lmdb_laws n L"
  shows "list_all representable us \<Longrightarrow> table_holds L f d \<Longrightarrow>
    \<exists>d'. put_accounts L us d = Inr d' \<and> table_holds L (f ++ map_of (rev (map (\<lambda>u. (acct_owner u, commitment_of u)) us))) d'"
proof (induction us arbitrary: f d)
  case (Cons u us)
  have "list_all representable us" using Cons.prems(1) by simp
  from Cons.IH [OF this table_put [OF L Cons.prems(2)]] obtain d' where
    "put_accounts L us (mdb_put L (produce_lmdb_key (acct_owner u)) (commitment_of u) d) = Inr d'"
    "table_holds L (f(acct_owner u \<mapsto> commitment_of u) ++ map_of (rev (map (\<lambda>u. (acct_owner u, commitment_of u)) us))) d'" by blast
  then show ?case using Cons.prems(1) by (simp add: representable_produce del: fun_upd_apply)
qed auto

section \<open>Blocks and the table\<close>

text \<open>The pending thunks lead from the state of the last block on disk to that of the last block; \<open>h\<close> has the states of all blocks.\<close>

fun chain :: "(u64 \<Rightarrow> AccountID \<rightharpoonup> AccountCommitment) \<Rightarrow> u64 \<Rightarrow> DBPersistenceThunk list \<Rightarrow> bool" where
  "chain h r [] = True"
| "chain h r (th # ths) \<longleftrightarrow> kvs_block_number th = r + 1 \<and> r < r + 1 \<and> complete (thunk_kvs th) \<and> h (r + 1) = written (thunk_kvs th) (h r) \<and> chain h (r + 1) ths"

definition last_block :: "u64 \<Rightarrow> DBPersistenceThunk list \<Rightarrow> u64" where
  "last_block r ths = (if ths = [] then r else kvs_block_number (last ths))"

lemma last_block_simps [simp]: "last_block r [] = r" "last_block r (th # ths) = last_block (kvs_block_number th) ths"
  "last_block r (ths @ [th]) = kvs_block_number th"
  by (simp_all add: last_block_def)

lemma chain_append: "chain h r (xs @ ys) \<longleftrightarrow> chain h r xs \<and> chain h (last_block r xs) ys"
proof (induction xs arbitrary: r)
  case (Cons th xs)
  show ?case using Cons.IH [of "r + 1"] by (cases "kvs_block_number th = r + 1") simp_all
qed simp

lemma chain_above: "chain h r ths \<Longrightarrow> th \<in> set ths \<Longrightarrow> r < kvs_block_number th"
proof (induction ths arbitrary: r)
  case (Cons x ths)
  then show ?case using Cons.IH [of "r + 1"] by (auto intro: less_trans)
qed simp

lemma chain_last: "chain h r ths \<Longrightarrow> r \<le> last_block r ths"
  using chain_above [of h r ths "last ths"] by (auto simp: last_block_def intro: less_imp_le)

lemma chain_other:
  "chain h r ths \<Longrightarrow> last_block r ths < b \<Longrightarrow> chain (h(b := f)) r ths"
proof (induction ths arbitrary: r)
  case (Cons th ths)
  then have th: "kvs_block_number th = r + 1" "r < r + 1" "chain h (r + 1) ths" "last_block (r + 1) ths < b" by simp_all
  have "r + 1 \<le> last_block (r + 1) ths" by (rule chain_last [OF th(3)])
  then have "r + 1 < b" using th(4) by (rule le_less_trans)
  moreover from this have "r < b" using th(2) less_trans by blast
  ultimately have "r + 1 \<noteq> b" "r \<noteq> b" by blast+
  then show ?case using Cons by simp
qed simp

text \<open>Writing up to a block divides the thunks.\<close>

lemma chain_split:
  assumes "chain h r ths"
  shows "\<exists>xs ys. ths = xs @ ys \<and> filter (\<lambda>th. kvs_block_number th \<le> m) ths = xs \<and> filter (\<lambda>th. m < kvs_block_number th) ths = ys"
  using assms
proof (induction ths arbitrary: r)
  case (Cons th ths)
  show ?case
  proof (cases "kvs_block_number th \<le> m")
    case True
    obtain xs ys where s: "ths = xs @ ys" "filter (\<lambda>th. kvs_block_number th \<le> m) ths = xs" "filter (\<lambda>th. m < kvs_block_number th) ths = ys"
    proof -
      have "chain h (r + 1) ths" using Cons.prems by simp
      from Cons.IH [OF this] show ?thesis using that by blast
    qed
    have "th # ths = (th # xs) @ ys" using s(1) by simp
    moreover have "filter (\<lambda>th. kvs_block_number th \<le> m) (th # ths) = th # xs" "filter (\<lambda>th. m < kvs_block_number th) (th # ths) = ys"
      using s(2,3) True by (simp_all add: not_less)
    ultimately show ?thesis by blast
  next
    case False
    then have "m < kvs_block_number x" if "x \<in> set (th # ths)" for x
      using that Cons.prems chain_above [of h "r + 1" ths x] by (auto simp: not_le intro: less_trans)
    then have "filter (\<lambda>th. kvs_block_number th \<le> m) (th # ths) = []" "filter (\<lambda>th. m < kvs_block_number th) (th # ths) = th # ths"
      by (auto simp: filter_empty_conv filter_id_conv not_le simp del: filter.simps)
    then show ?thesis by (metis append_Nil)
  qed
qed simp

lemma put_thunks_correct:
  assumes L: "lmdb_laws n L"
  shows "chain h r ths \<Longrightarrow> table_holds L (h r) d \<Longrightarrow>
    \<exists>d'. put_thunks L True ths r d = Inr (d', last_block r ths) \<and> table_holds L (h (last_block r ths)) d'"
proof (induction ths arbitrary: r d)
  case (Cons th ths)
  then have th: "kvs_block_number th = r + 1" "complete (thunk_kvs th)" "h (r + 1) = written (thunk_kvs th) (h r)" "chain h (r + 1) ths" by simp_all
  obtain d1 where d1: "put_kvs L True (thunk_kvs th) d = Inr d1" "table_holds L (h (r + 1)) d1"
    using put_kvs_correct [OF L th(2) Cons.prems(2)] th(3) by auto
  show ?case using Cons.IH [OF th(4) d1(2)] d1(1) th(1) by auto
qed simp

section \<open>Loading\<close>

lemma load_accounts_correct:
  assumes "distinct (map fst es)" "\<forall>(k, c) \<in> set es. \<exists>a. k = produce_lmdb_key a \<and> good_commitment a c \<and> user_id_to_idx_map db a = None"
    and "db_inv db" "list_all representable (database db)" "uncommitted_db db = []" "uncommitted_idx_map db = Map.empty"
  shows "\<exists>db'. load_accounts es db = Inr db' \<and> db_inv db' \<and> list_all representable (database db') \<and>
    account_commitments db' = account_commitments db ++ map_of (map (\<lambda>(k, c). (read_lmdb_key k, c)) es) \<and>
    length (database db') = length (database db) + length es \<and> commitment_trie db' = commitment_trie db \<and>
    persisted_round_number db' = persisted_round_number db \<and> account_creation_thunks db' = account_creation_thunks db"
  using assms
proof (induction es arbitrary: db)
  case (Cons e es)
  obtain a c where e: "e = (produce_lmdb_key a, c)" "good_commitment a c" "user_id_to_idx_map db a = None"
    using Cons.prems(2) by (cases e) auto
  obtain u where u: "account_of_commitment c = Inr u" "acct_owner u = a" "commit_owner c = a" "representable u" "commitment_of u = c"
    using good_account [OF e(2)] by blast
  define db1 where "db1 = db\<lparr>user_id_to_idx_map := [a \<mapsto> length (database db)] ++ user_id_to_idx_map db, database := database db @ [u]\<rparr>"
  have "indexes ([a \<mapsto> length (database db)] ++ user_id_to_idx_map db) 0 (database db @ [u])"
    using Cons.prems(3) e(3) u(2) indexes_single [of u "length (database db)"]
    by (intro indexes_append) (auto simp: db_inv_def simp del: indexes_single)
  then have inv1: "db_inv db1" using Cons.prems(5,6) by (simp add: db1_def db_inv_def)
  have "\<exists>b. k = produce_lmdb_key b \<and> good_commitment b c' \<and> user_id_to_idx_map db1 b = None" if kc: "(k, c') \<in> set es" for k c'
  proof -
    obtain b where b: "k = produce_lmdb_key b" "good_commitment b c'" "user_id_to_idx_map db b = None" using Cons.prems(2) kc by auto
    moreover have "b \<noteq> a" using Cons.prems(1) kc b(1) by (force simp: e(1))
    ultimately show ?thesis by (auto simp: db1_def map_add_def)
  qed
  then obtain db' where db': "load_accounts es db1 = Inr db'" "db_inv db'" "list_all representable (database db')"
    "account_commitments db' = account_commitments db1 ++ map_of (map (\<lambda>(k, c). (read_lmdb_key k, c)) es)"
    "length (database db') = length (database db1) + length es" "commitment_trie db' = commitment_trie db1"
    "persisted_round_number db' = persisted_round_number db1" "account_creation_thunks db' = account_creation_thunks db1"
    using Cons.IH [OF _ _ inv1] Cons.prems(1,4,5,6) u(4) by (auto simp: db1_def)
  have "account_commitments db1 b = ((account_commitments db)(a \<mapsto> c)) b" for b
  proof (cases "user_id_to_idx_map db b")
    case None
    then show ?thesis using u(5) by (auto simp: account_commitments_def db1_def map_add_def)
  next
    case (Some i)
    then have "i < length (database db)" "b \<noteq> a" using database_index(1) [OF Cons.prems(3) Some] e(3) by auto
    then show ?thesis using Some by (simp add: account_commitments_def db1_def map_add_def nth_append)
  qed
  then have "account_commitments db1 = (account_commitments db)(a \<mapsto> c)" by blast
  moreover have "a \<notin> dom (map_of (map (\<lambda>(k, c). (read_lmdb_key k, c)) es))"
  proof
    assume "a \<in> dom (map_of (map (\<lambda>(k, c). (read_lmdb_key k, c)) es))"
    then obtain c' where "(a, c') \<in> set (map (\<lambda>(k, c). (read_lmdb_key k, c)) es)" by (auto dest: map_of_SomeD)
    then obtain k where k: "(k, c') \<in> set es" "a = read_lmdb_key k" by auto
    then have "k = produce_lmdb_key a" using Cons.prems(2) by auto
    then show False using Cons.prems(1) k(1) by (force simp: e(1))
  qed
  ultimately have map: "account_commitments db' = account_commitments db ++ map_of (map (\<lambda>(k, c). (read_lmdb_key k, c)) (e # es))"
    using db'(4) by (simp add: e(1) map_add_upd_left)
  have "load_accounts (e # es) db = Inr db'" using u(1,3) db'(1) by (simp add: e(1) db1_def)
  then show ?case
  proof (intro exI [of _ db'] conjI)
    show "account_commitments db' = account_commitments db ++ map_of (map (\<lambda>(k, c). (read_lmdb_key k, c)) (e # es))" by (rule map)
  qed (use db' in \<open>simp_all add: db1_def\<close>)
qed simp

section \<open>Runs\<close>

text \<open>What a node does with a block of its own: the accounts of the log, in the order of the log, go into the thunk.\<close>

definition account_block ::
    "AccountCommitment hash_env \<Rightarrow> u64 \<Rightarrow> work_root list \<Rightarrow> AccountID list \<Rightarrow> 'd AccountStore \<Rightarrow> (Hash \<times> 'd AccountStore) res" where
  "account_block E block log owners s =
     res_bind (commit_new_accounts block (memory s)) (\<lambda>db.
     res_bind (commit_values_log owners db) (\<lambda>db.
     res_bind (produce_state_commitment E log db) (\<lambda>(h, db).
     res_bind (add_persistence_thunk block owners (s\<lparr>memory := db\<rparr>)) (\<lambda>s. Inr (h, s)))))"

text \<open>
  \<open>h\<close> collects the committed accounts of every block.  A run starts with memory and table equal; between blocks
  transactions change only what is not committed.
\<close>

inductive store_run ::
    "(AccountCommitment, 'd) lmdb \<Rightarrow> AccountCommitment hash_env \<Rightarrow> (u64 \<Rightarrow> AccountID \<rightharpoonup> AccountCommitment) \<Rightarrow> 'd AccountStore \<Rightarrow> bool"
    for L E where
  start: "committed_inv E db \<Longrightarrow> account_creation_thunks db = [] \<Longrightarrow> persisted_round_number db = r \<Longrightarrow> table_holds L (account_commitments db) d \<Longrightarrow>
    store_run L E (\<lambda>b. account_commitments db)
      \<lparr>memory = db, account_lmdb = \<lparr>table = d, meta_round = Some r, env_open = True, lmdb_round = r\<rparr>, persistence_thunks = []\<rparr>"
| work: "store_run L E h s \<Longrightarrow> committed_inv E db \<Longrightarrow> account_commitments db = account_commitments (memory s) \<Longrightarrow>
    account_creation_thunks db = account_creation_thunks (memory s) \<Longrightarrow> persisted_round_number db = persisted_round_number (memory s) \<Longrightarrow>
    store_run L E h (s\<lparr>memory := db\<rparr>)"
| block: "store_run L E h s \<Longrightarrow> creation_ready block (memory s) \<Longrightarrow> block \<noteq> 0 \<Longrightarrow> logged A (memory s) \<Longrightarrow>
    dom (uncommitted_idx_map (memory s)) \<subseteq> A \<Longrightarrow> covers log A \<Longrightarrow> set owners = A \<Longrightarrow>
    account_block E block log owners s = Inr (hash, s') \<Longrightarrow> store_run L E (h(block := account_commitments (memory s'))) s'"
| persist: "store_run L E h s \<Longrightarrow> commit_persistence_thunks L max_round_number s = Inr s' \<Longrightarrow> store_run L E h s'"

definition store_inv ::
    "(AccountCommitment, 'd) lmdb \<Rightarrow> AccountCommitment hash_env \<Rightarrow> (u64 \<Rightarrow> AccountID \<rightharpoonup> AccountCommitment) \<Rightarrow> 'd AccountStore \<Rightarrow> bool" where
  "store_inv L E h s \<longleftrightarrow> (let r = lmdb_round (account_lmdb s) in
     env_open (account_lmdb s) \<and> meta_round (account_lmdb s) = Some r \<and> table_holds L (h r) (table (account_lmdb s)) \<and>
     chain h r (persistence_thunks s) \<and> h (last_block r (persistence_thunks s)) = account_commitments (memory s) \<and> committed_inv E (memory s) \<and>
     (\<forall>b a c. h b a = Some c \<longrightarrow> good_commitment a c) \<and> (\<forall>b. finite (dom (h b)) \<and> card (dom (h b)) < 2 ^ 32) \<and>
     persisted_round_number (memory s) = r \<and>
     map creation_block (account_creation_thunks (memory s)) = map kvs_block_number (persistence_thunks s))"

lemma commitments_few: "committed_inv E db \<Longrightarrow> finite (dom (account_commitments db)) \<and> card (dom (account_commitments db)) < 2 ^ 32"
  using database_card [of db] indexes_dom [of "user_id_to_idx_map db" 0 "database db"] by (simp add: committed_inv_def db_inv_def)

lemma written_assigned: "written (map (\<lambda>a. \<lparr>thunk_key = a, thunk_msg = g a\<rparr>) owners) f = (\<lambda>a. if a \<in> set owners then g a else f a)"
  by (induction owners arbitrary: f) (auto simp: fun_eq_iff)

lemma assign_kv_correct:
  assumes "committed_inv E db" "a \<in> dom (user_id_to_idx_map db)"
  shows "assign_kv db a = Inr \<lparr>thunk_key = a, thunk_msg = account_commitments db a\<rparr>"
proof -
  obtain i where i: "user_id_to_idx_map db a = Some i" using assms(2) by blast
  then have "i < length (database db)" "representable (database db ! i)" using assms(1) database_index [of db a i] by (simp_all add: committed_inv_def list_all_length)
  then show ?thesis using i by (simp add: assign_kv_def lookup_user_id_def account_commitments_def representable_produce)
qed

lemma next_block:
  assumes ready: "\<not> block_number_mismatch db block" and block: "block \<noteq> 0"
    and sync: "map creation_block (account_creation_thunks db) = map kvs_block_number ths" "persisted_round_number db = r"
  shows "block = last_block r ths + 1" "last_block r ths < last_block r ths + 1"
proof -
  have "account_creation_thunks db = [] \<longleftrightarrow> ths = []" using sync(1) by (metis list.map_disc_iff)
  moreover have "creation_block (last (account_creation_thunks db)) = kvs_block_number (last ths)" if "ths \<noteq> []"
    using sync(1) that by (metis last_map list.map_disc_iff)
  ultimately show b: "block = last_block r ths + 1"
    using ready block sync(2) by (auto simp: block_number_mismatch_def last_block_def)
  have "1 + last_block r ths \<noteq> 0" using block b by (simp add: add.commute)
  then show "last_block r ths < last_block r ths + 1" using unatSuc [of "last_block r ths"] by (simp add: word_less_nat_alt add.commute)
qed

lemma block_store:
  assumes inv: "store_inv L E h s" and ready: "creation_ready block (memory s)" "block \<noteq> 0" and logged: "logged A (memory s)"
    and new: "dom (uncommitted_idx_map (memory s)) \<subseteq> A" and log: "covers log A" "set owners = A"
  shows "\<exists>hash s'. account_block E block log owners s = Inr (hash, s') \<and> store_inv L E (h(block := account_commitments (memory s'))) s'"
proof -
  let ?r = "lmdb_round (account_lmdb s)" and ?ths = "persistence_thunks s"
  have inv0: "committed_inv E (memory s)" and I: "env_open (account_lmdb s)" "meta_round (account_lmdb s) = Some ?r"
    "table_holds L (h ?r) (table (account_lmdb s))" "chain h ?r ?ths" "h (last_block ?r ?ths) = account_commitments (memory s)"
    "\<forall>b a c. h b a = Some c \<longrightarrow> good_commitment a c" "\<forall>b. finite (dom (h b)) \<and> card (dom (h b)) < 2 ^ 32"
    "persisted_round_number (memory s) = ?r" "map creation_block (account_creation_thunks (memory s)) = map kvs_block_number ?ths"
    using inv by (simp_all add: store_inv_def Let_def)
  obtain db1 where c: "commit_new_accounts block (memory s) = Inr db1"
    and db1: "account_creation_thunks db1 = account_creation_thunks (memory s) @ [\<lparr>creation_block = block, num_accounts_created = length (uncommitted_db (memory s))\<rparr>]"
      "persisted_round_number db1 = persisted_round_number (memory s)"
      "user_id_to_idx_map db1 = uncommitted_idx_map (memory s) ++ user_id_to_idx_map (memory s)"
      "database db1 = database (memory s) @ map acct_commit (uncommitted_db (memory s))"
    using commit_new_accounts_committed(1) [OF inv0 ready(1)] by (auto simp: clear_internal_data_structures_def)
  have inv1: "committed_inv E db1" using commit_new_accounts_committed(2) [OF inv0 ready(1) c] .
  note A = logged_after_creation [OF inv0 ready(1) logged c]
  have "map (\<lambda>u. if acct_owner u \<in> set owners then acct_commit u else u) (database db1) = map acct_commit (database db1)"
    using A(2) log(2) by auto
  then have v: "commit_values_log owners db1 = Inr (commit_values db1)"
    using commit_values_log_eq [of db1 owners] inv1 by (simp only: commit_values_def committed_inv_def)
  obtain U U' where U: "produce_state_commitment E log (commit_values db1) = Inr (trie_digest E (root U), (commit_values db1)\<lparr>commitment_trie := U'\<rparr>)"
    "holds E (pending db1) U" "holds E (pending db1) U'" using produced_hash [OF inv1 log(1) A] by blast
  define db3 where "db3 = commit_values (db1\<lparr>commitment_trie := U'\<rparr>)"
  have p: "(commit_values db1)\<lparr>commitment_trie := U'\<rparr> = db3" by (simp add: commit_values_def db3_def)
  have inv3: "committed_inv E db3" unfolding db3_def by (rule committed_values [OF inv1 U(3)])
  have same: "user_id_to_idx_map db3 = user_id_to_idx_map db1" "account_creation_thunks db3 = account_creation_thunks db1"
    "persisted_round_number db3 = persisted_round_number db1" "database db3 = map acct_commit (database db1)"
    by (simp_all add: db3_def commit_values_def)
  let ?xs = "map (\<lambda>a. \<lparr>thunk_key = a, thunk_msg = account_commitments db3 a\<rparr>) owners"
  have "res_map (assign_kv db3) owners = Inr ?xs"
  proof (rule res_map_Inr)
    fix a assume "a \<in> set owners"
    then have "a \<in> dom (user_id_to_idx_map db3)" unfolding same(1) using A(1) log(2) by blast
    then show "assign_kv db3 a = Inr \<lparr>thunk_key = a, thunk_msg = account_commitments db3 a\<rparr>" by (rule assign_kv_correct [OF inv3])
  qed
  then have step: "account_block E block log owners s = Inr (trie_digest E (root U),
      s\<lparr>memory := db3, persistence_thunks := ?ths @ [\<lparr>thunk_kvs = ?xs, kvs_block_number = block\<rparr>]\<rparr>)" (is "_ = Inr (_, ?s')")
    using c v U(1) p by (simp add: account_block_def add_persistence_thunk_def)
  have com: "(\<lambda>a. if a \<in> A then account_commitments db3 a else account_commitments (memory s) a) = account_commitments db3"
  proof
    fix a
    have "account_commitments (memory s) a = account_commitments db3 a" if a: "a \<notin> A"
    proof -
      have un: "uncommitted_idx_map (memory s) a = None" using a new by blast
      show ?thesis
      proof (cases "user_id_to_idx_map (memory s) a")
        case None
        then show ?thesis using un by (simp add: account_commitments_def same(1) db1(3) map_add_def)
      next
        case (Some i)
        then have i: "i < length (database (memory s))" "acct_owner (database (memory s) ! i) = a"
          using inv0 database_index [of "memory s" a i] by (simp_all add: committed_inv_def)
        then have "acct_commit (database (memory s) ! i) = database (memory s) ! i" using logged a by (simp add: logged_def)
        then show ?thesis using Some i(1) by (simp add: account_commitments_def same db1(3,4) map_add_def nth_append)
      qed
    qed
    then show "(if a \<in> A then account_commitments db3 a else account_commitments (memory s) a) = account_commitments db3 a" by simp
  qed
  have nb: "block = last_block ?r ?ths + 1" "last_block ?r ?ths < last_block ?r ?ths + 1"
    using next_block [OF _ ready(2) I(9,8)] ready(1) by (simp_all add: creation_ready_def)
  let ?h = "h(block := account_commitments db3)"
  have below: "last_block ?r ?ths < block" using nb by simp
  then have "?r < block" using chain_last [OF I(4)] by (rule le_less_trans [rotated])
  then have r: "?h ?r = h ?r" by auto
  have "complete ?xs"
  proof -
    have "account_commitments db3 a \<noteq> None" if "a \<in> set owners" for a using that A(1) log(2) by (auto simp: account_commitments_def same(1))
    then show ?thesis by (auto simp: complete_def)
  qed
  then have "chain ?h ?r (?ths @ [\<lparr>thunk_kvs = ?xs, kvs_block_number = block\<rparr>])"
    using chain_other [OF I(4) below] nb below I(5) com log(2) by (auto simp: chain_append written_assigned)
  moreover have "map creation_block (account_creation_thunks db3) = map kvs_block_number (?ths @ [\<lparr>thunk_kvs = ?xs, kvs_block_number = block\<rparr>])"
    using I(9) by (simp add: same db1)
  ultimately have "store_inv L E ?h ?s'"
    using I(1-3,6-8) inv3 commitments_good [OF inv3] commitments_few [OF inv3] r by (simp add: store_inv_def Let_def same db1)
  then show ?thesis using step by auto
qed

definition persisted :: "u64 \<Rightarrow> u64 \<Rightarrow> 'd \<Rightarrow> 'd AccountStore \<Rightarrow> 'd AccountStore" where
  "persisted m b d s = s\<lparr>persistence_thunks := filter (\<lambda>th. m < kvs_block_number th) (persistence_thunks s),
     account_lmdb := (account_lmdb s)\<lparr>lmdb_round := b, meta_round := Some b, table := d\<rparr>,
     memory := (memory s)\<lparr>persisted_round_number := b,
       account_creation_thunks := filter (\<lambda>th. m < creation_block th) (account_creation_thunks (memory s))\<rparr>\<rparr>"

lemma persist_form:
  assumes L: "lmdb_laws n L" and inv: "store_inv L E h s" and r: "r = lmdb_round (account_lmdb s)"
    and xs: "filter (\<lambda>th. kvs_block_number th \<le> m) (persistence_thunks s) = xs" "xs \<noteq> []" "chain h r xs"
  shows "\<exists>d. table_holds L (h (last_block r xs)) d \<and> commit_persistence_thunks L m s =
    (if last_block r xs \<noteq> m then Inl (Runtime_error ''missing commitment'') else Inr (persisted m (last_block r xs) d s))"
proof -
  have I: "env_open (account_lmdb s)" "table_holds L (h r) (table (account_lmdb s))" using inv by (simp_all add: store_inv_def Let_def r)
  let ?b = "last_block r xs"
  obtain d where d: "put_thunks L True xs r (table (account_lmdb s)) = Inr (d, ?b)" "table_holds L (h ?b) d"
    using put_thunks_correct [OF L xs(3) I(2)] by blast
  have "commit_wtxn d ?b (account_lmdb s) = Inr ((account_lmdb s)\<lparr>lmdb_round := ?b, meta_round := Some ?b, table := d\<rparr>)"
    using chain_last [OF xs(3)] I(1) by (simp add: commit_wtxn_def Let_def not_less r)
  then show ?thesis
    using d I(1) xs r by (intro exI [of _ d]) (simp add: commit_persistence_thunks_def Let_def set_persisted_round_def persisted_def)
qed

lemma persist_store:
  assumes L: "lmdb_laws n L" and inv: "store_inv L E h s" and c: "commit_persistence_thunks L m s = Inr s'"
  shows "store_inv L E h s'"
proof -
  let ?r = "lmdb_round (account_lmdb s)" and ?ths = "persistence_thunks s"
  have I: "env_open (account_lmdb s)" "meta_round (account_lmdb s) = Some ?r"
    "table_holds L (h ?r) (table (account_lmdb s))" "chain h ?r ?ths" "h (last_block ?r ?ths) = account_commitments (memory s)"
    "committed_inv E (memory s)" "map creation_block (account_creation_thunks (memory s)) = map kvs_block_number ?ths"
    and G: "\<forall>b a c. h b a = Some c \<longrightarrow> good_commitment a c" "\<forall>b. finite (dom (h b)) \<and> card (dom (h b)) < 2 ^ 32"
    using inv by (simp_all add: store_inv_def Let_def)
  obtain xs ys where s: "?ths = xs @ ys" "filter (\<lambda>th. kvs_block_number th \<le> m) ?ths = xs" "filter (\<lambda>th. m < kvs_block_number th) ?ths = ys"
    using chain_split [OF I(4)] by blast
  show ?thesis
  proof (cases "xs = []")
    case True
    then have "s' = s\<lparr>persistence_thunks := ys\<rparr>" using c s by (simp add: commit_persistence_thunks_def Let_def)
    moreover have "ys = ?ths" using s(1) True by simp
    ultimately show ?thesis using inv by (simp add: store_inv_def Let_def)
  next
    case False
    let ?b = "last_block ?r xs"
    have ch: "chain h ?r xs" "chain h ?b ys" using I(4) by (simp_all add: s(1) chain_append)
    obtain d where d: "table_holds L (h ?b) d" "s' = persisted m ?b d s"
      using persist_form [OF L inv refl s(2) False ch(1)] c by (auto split: if_splits)
    have "map creation_block (filter (\<lambda>th. m < creation_block th) (account_creation_thunks (memory s))) =
        filter (\<lambda>b. m < b) (map creation_block (account_creation_thunks (memory s)))" by (simp add: filter_map comp_def)
    also have "\<dots> = map kvs_block_number ys" using s(3) by (simp add: I(7) filter_map comp_def)
    finally have sync: "map creation_block (filter (\<lambda>th. m < creation_block th) (account_creation_thunks (memory s))) = map kvs_block_number ys" .
    have last: "last_block ?r ?ths = last_block ?b ys" using s(1) by (auto simp: last_block_def)
    have mem: "account_commitments (memory s') = account_commitments (memory s)" "committed_inv E (memory s')"
      using I(6) by (simp_all add: d(2) persisted_def account_commitments_def [abs_def] committed_inv_def db_inv_def)
    show ?thesis
      using I(1,5) d(1) s(3) ch(2) mem sync G last by (simp add: store_inv_def Let_def d(2) persisted_def)
  qed
qed

text \<open>Every pending block can be the last one written.\<close>

lemma chain_below: "chain h r ths \<Longrightarrow> th \<in> set ths \<Longrightarrow> kvs_block_number th \<le> last_block r ths"
proof (induction ths arbitrary: r)
  case (Cons x ths)
  then show ?case using Cons.IH [of "r + 1"] chain_last [of h "r + 1" ths] by auto
qed simp

lemma persist_pending:
  assumes L: "lmdb_laws n L" and inv: "store_inv L E h s" and th: "th \<in> set (persistence_thunks s)"
  shows "\<exists>s'. commit_persistence_thunks L (kvs_block_number th) s = Inr s' \<and> lmdb_round (account_lmdb s') = kvs_block_number th"
proof -
  let ?r = "lmdb_round (account_lmdb s)" and ?m = "kvs_block_number th"
  have ch: "chain h ?r (persistence_thunks s)" using inv by (simp add: store_inv_def Let_def)
  obtain xs ys where s: "persistence_thunks s = xs @ ys" "filter (\<lambda>th. kvs_block_number th \<le> ?m) (persistence_thunks s) = xs"
    using chain_split [OF ch] by blast
  have mem: "th \<in> set xs" using th by (simp flip: s(2))
  then have ne: "xs \<noteq> []" by auto
  have cx: "chain h ?r xs" using ch by (simp add: s(1) chain_append)
  have "last xs \<in> set (filter (\<lambda>th. kvs_block_number th \<le> ?m) (persistence_thunks s))" unfolding s(2) using ne by simp
  then have "last_block ?r xs \<le> ?m" using ne by (simp add: last_block_def)
  then have b: "last_block ?r xs = ?m" using chain_below [OF cx mem] by (rule order_antisym)
  then show ?thesis using persist_form [OF L inv refl s(2) ne cx] by (auto simp: persisted_def)
qed

lemma start_store:
  assumes "committed_inv E db" "account_creation_thunks db = []" "persisted_round_number db = r" "table_holds L (account_commitments db) d"
  shows "store_inv L E (\<lambda>b. account_commitments db)
    \<lparr>memory = db, account_lmdb = \<lparr>table = d, meta_round = Some r, env_open = True, lmdb_round = r\<rparr>, persistence_thunks = []\<rparr>"
  using assms commitments_good commitments_few [OF assms(1)] by (auto simp: store_inv_def Let_def)

theorem store_run_inv: "store_run L E h s \<Longrightarrow> lmdb_laws n L \<Longrightarrow> store_inv L E h s"
proof (induction rule: store_run.induct)
  case (start db r d)
  then show ?case by (intro start_store)
next
  case (work h s db)
  then show ?case by (simp add: store_inv_def Let_def)
next
  case (block h s block A log owners hash s')
  then have "store_inv L E h s" by blast
  from block_store [OF this block.hyps(2-7)] obtain hash2 s2 where
    s2: "account_block E block log owners s = Inr (hash2, s2)" "store_inv L E (h(block := account_commitments (memory s2))) s2" by blast
  have "s2 = s'" using s2(1) block.hyps(8) by simp
  then show ?case using s2(2) by blast
next
  case (persist h s m s')
  then show ?case using persist_store by blast
qed

section \<open>Restart\<close>

lemma table_entries:
  assumes L: "lmdb_laws n L" and T: "table_holds L f d"
  shows "map_of (map (\<lambda>(k, c). (read_lmdb_key k, c)) (mdb_entries L d)) = f"
    "distinct (map fst (mdb_entries L d))" "\<forall>(k, c) \<in> set (mdb_entries L d). \<exists>a. k = produce_lmdb_key a \<and> f a = Some c"
    "length (mdb_entries L d) = card (dom f)"
proof -
  let ?es = "mdb_entries L d"
  have es: "map_of ?es = disk_map L d" "distinct (map fst ?es)" using L by (simp_all add: lmdb_laws_def)
  then show "distinct (map fst ?es)" by blast
  show keys: "\<forall>(k, c) \<in> set ?es. \<exists>a. k = produce_lmdb_key a \<and> f a = Some c"
  proof clarify
    fix k c assume "(k, c) \<in> set ?es"
    then have k: "disk_map L d k = Some c" using es map_of_is_SomeI [of ?es k c] by simp
    then obtain a where "k = produce_lmdb_key a" using T by (force simp: table_holds_def)
    then show "\<exists>a. k = produce_lmdb_key a \<and> f a = Some c" using k T by (auto simp: table_holds_def)
  qed
  let ?ms = "map (\<lambda>(k, c). (read_lmdb_key k, c)) ?es"
  have "inj_on read_lmdb_key (fst ` set ?es)"
  proof (rule inj_onI)
    fix x y assume xy: "x \<in> fst ` set ?es" "y \<in> fst ` set ?es" "read_lmdb_key x = read_lmdb_key y"
    have "\<exists>a. z = produce_lmdb_key a" if "z \<in> fst ` set ?es" for z using keys that by auto
    then obtain a b where "x = produce_lmdb_key a" "y = produce_lmdb_key b" using xy by blast
    then show "x = y" using xy(3) by simp
  qed
  moreover have "map fst ?ms = map read_lmdb_key (map fst ?es)" by (simp add: comp_def case_prod_unfold)
  ultimately have dist: "distinct (map fst ?ms)" using es(2) by (simp only: distinct_map set_map)
  have mem: "(a, c) \<in> set ?ms \<longleftrightarrow> f a = Some c" for a c
  proof
    assume "(a, c) \<in> set ?ms"
    then show "f a = Some c" using keys by auto
  next
    assume "f a = Some c"
    then have "disk_map L d (produce_lmdb_key a) = Some c" using T by (simp add: table_holds_def)
    then have "(produce_lmdb_key a, c) \<in> set ?es" using es(1) by (metis map_of_SomeD)
    then show "(a, c) \<in> set ?ms" by (force simp: image_iff)
  qed
  show f: "map_of ?ms = f"
  proof
    fix a
    show "map_of ?ms a = f a" using mem [of a] map_of_eq_Some_iff [OF dist, of a] by (cases "f a"; cases "map_of ?ms a") auto
  qed
  have "dom f = set (map fst ?ms)" unfolding f [symmetric] dom_map_of_conv_image_fst set_map ..
  then have "card (dom f) = length (map fst ?ms)" using distinct_card [OF dist] by (simp only:)
  then show "length ?es = card (dom f)" by simp
qed

lemma restart_store:
  assumes L: "lmdb_laws n L" and inv: "store_inv L E h s" and r: "r = lmdb_round (account_lmdb s)"
    and ranges: "\<forall>(b, e) \<in> set ranges. e \<le> card (dom (h r))" "\<forall>i < card (dom (h r)). \<exists>(b, e) \<in> set ranges. b \<le> i \<and> i < e"
  shows "\<exists>s'. restart_accounts L E ranges (account_lmdb s) = Inr s' \<and> store_inv L E (\<lambda>b. h r) s' \<and>
    account_commitments (memory s') = h r \<and> persistence_thunks s' = [] \<and> lmdb_round (account_lmdb s') = r \<and>
    (persistence_thunks s = [] \<longrightarrow> (\<exists>hash m m'. commitment_freeze_and_hash E (memory s) = Inr (hash, m) \<and>
       commitment_freeze_and_hash E (memory s') = Inr (hash, m')))"
proof -
  have I: "env_open (account_lmdb s)" "meta_round (account_lmdb s) = Some r" "table_holds L (h r) (table (account_lmdb s))"
    "h (last_block r (persistence_thunks s)) = account_commitments (memory s)" "committed_inv E (memory s)"
    and G: "\<forall>b a c. h b a = Some c \<longrightarrow> good_commitment a c" "\<forall>b. finite (dom (h b)) \<and> card (dom (h b)) < 2 ^ 32"
    using inv by (simp_all add: store_inv_def Let_def r)
  let ?es = "mdb_entries L (table (account_lmdb s))" and ?db = "empty_database\<lparr>persisted_round_number := r\<rparr>"
  note E = table_entries [OF L I(3)]
  have keys: "\<forall>(k, c) \<in> set ?es. \<exists>a. k = produce_lmdb_key a \<and> good_commitment a c \<and> user_id_to_idx_map ?db a = None"
    using E(3) G(1) by (fastforce simp: empty_database_def)
  have db: "db_inv ?db" "list_all representable (database ?db)" "uncommitted_db ?db = []" "uncommitted_idx_map ?db = Map.empty"
    "account_commitments ?db = Map.empty" "length (database ?db) = 0" "commitment_trie ?db = empty_trie" "persisted_round_number ?db = r" "account_creation_thunks ?db = []"
    by (auto simp: empty_database_def db_inv_def account_commitments_def)
  obtain db1 where db1: "load_accounts ?es ?db = Inr db1" "db_inv db1" "list_all representable (database db1)"
    "account_commitments db1 = h r" "length (database db1) = card (dom (h r))" "commitment_trie db1 = empty_trie" "persisted_round_number db1 = r"
    "account_creation_thunks db1 = []"
    using load_accounts_correct [OF E(2) keys db(1-4)] unfolding E(1,4) db(5-9) by auto
  have "length (database db1) < 2 ^ 32" using G(2) by (simp add: db1(5))
  from rebuild_from_accounts [OF db1(2,3) this db1(6), of ranges E] ranges obtain T T2 where
    T: "rebuild_state_commitment E ranges db1 = Inr (trie_digest E (root T), db1\<lparr>commitment_trie := T2\<rparr>)"
      "holds E (h r) T" "committed_inv E (db1\<lparr>commitment_trie := T2\<rparr>)"
    by (auto simp: db1(4,5))
  let ?db2 = "db1\<lparr>commitment_trie := T2\<rparr>"
  let ?s' = "\<lparr>memory = ?db2, account_lmdb = account_lmdb s, persistence_thunks = []\<rparr>"
  have "open_db ((account_lmdb s)\<lparr>lmdb_round := 0\<rparr>) = Inr (account_lmdb s)" using I(1,2) by (simp add: open_db_def r)
  then have step: "restart_accounts L E ranges (account_lmdb s) = Inr ?s'"
    using db1(1) T(1) r by (simp add: restart_accounts_def set_persisted_round_def db_load_lmdb_contents_to_memory_def)
  have com: "account_commitments ?db2 = h r" using db1(4) by (simp add: account_commitments_def [abs_def])
  have inv': "store_inv L E (\<lambda>b. h r) ?s'"
    using I(1-3) G T(3) com db1(7,8) r by (simp add: store_inv_def Let_def)
  have "\<exists>hash m m'. commitment_freeze_and_hash E (memory s) = Inr (hash, m) \<and> commitment_freeze_and_hash E ?db2 = Inr (hash, m')"
    if "persistence_thunks s = []"
  proof -
    have "holds E (account_commitments (memory s)) T" using T(2) I(4) that by simp
    then show ?thesis using same_state_hash [OF I(5)] same_state_hash [OF T(3), of T] T(2) com by auto
  qed
  then show ?thesis using step inv' com r by (intro exI [of _ ?s']) simp
qed

text \<open>
  \<open>persist_lmdb\<close> writes what is committed: called before \<open>commit_values\<close>, as the replay of a block does, it records
  the block as written without its changes.
\<close>

lemma persist_uncommitted:
  assumes L: "lmdb_laws n L" and inv: "committed_inv E db"
    and I: "env_open I" "table_holds L f (table I)" "lmdb_round I \<le> block" "dom f \<subseteq> dom (user_id_to_idx_map db)"
  shows "\<exists>s'. db_persist_lmdb L block \<lparr>memory = db, account_lmdb = I, persistence_thunks = []\<rparr> = Inr s' \<and>
    store_inv L E (\<lambda>b. account_commitments db) (s'\<lparr>memory := (memory s')\<lparr>account_creation_thunks := []\<rparr>\<rparr>) \<and>
    lmdb_round (account_lmdb s') = block \<and> account_commitments (memory s') = account_commitments db \<and> account_commitments (commit_values (memory s')) = pending db"
proof -
  let ?us = "database db"
  have db: "db_inv db" "list_all representable ?us" using inv by (simp_all add: committed_inv_def)
  have dist: "distinct (map acct_owner ?us)" and dom: "dom (user_id_to_idx_map db) = acct_owner ` set ?us"
    using indexes_distinct [of "user_id_to_idx_map db" 0 ?us] indexes_dom [of "user_id_to_idx_map db" 0 ?us] db(1) by (simp_all add: db_inv_def)
  let ?M = "map_of (rev (map (\<lambda>u. (acct_owner u, commitment_of u)) ?us))"
  obtain d where d: "put_accounts L ?us (table I) = Inr d" "table_holds L (f ++ ?M) d" using put_accounts_correct [OF L db(2) I(2)] by blast
  have "(f ++ ?M) a = account_commitments db a" for a
  proof (cases "user_id_to_idx_map db a")
    case None
    then have "a \<notin> dom (user_id_to_idx_map db)" by blast
    then have "f a = None" "a \<notin> acct_owner ` set ?us" using I(4) unfolding dom by blast+
    then have "?M a = None" by (simp add: map_of_eq_None_iff image_image)
    then show ?thesis using None \<open>f a = None\<close> by (simp add: account_commitments_def map_add_def)
  next
    case (Some i)
    then have i: "i < length ?us" "acct_owner (?us ! i) = a" using database_index [OF db(1)] by simp_all
    have "?M a = Some (commitment_of (?us ! i))"
    proof (rule map_of_is_SomeI)
      show "distinct (map fst (rev (map (\<lambda>u. (acct_owner u, commitment_of u)) ?us)))" using dist by (simp add: rev_map comp_def flip: rev_map)
      show "(a, commitment_of (?us ! i)) \<in> set (rev (map (\<lambda>u. (acct_owner u, commitment_of u)) ?us))" using i by auto
    qed
    then show ?thesis using Some by (simp add: account_commitments_def)
  qed
  then have T: "table_holds L (account_commitments db) d" using d(2) by (simp add: table_holds_def)
  define I' where "I' = I\<lparr>lmdb_round := block, meta_round := Some block, table := d\<rparr>"
  let ?s' = "\<lparr>memory = db\<lparr>persisted_round_number := block\<rparr>, account_lmdb = I', persistence_thunks = []\<rparr>"
  have step: "db_persist_lmdb L block \<lparr>memory = db, account_lmdb = I, persistence_thunks = []\<rparr> = Inr ?s'"
    using d(1) I(1,3) by (simp add: db_persist_lmdb_def commit_wtxn_def Let_def set_persisted_round_def I'_def not_less)
  have mem: "account_commitments (db\<lparr>persisted_round_number := block\<rparr>) = account_commitments db" "pending (db\<lparr>persisted_round_number := block\<rparr>) = pending db"
    "committed_inv E (db\<lparr>persisted_round_number := block\<rparr>)" "db_inv (db\<lparr>persisted_round_number := block\<rparr>)"
    using inv by (simp_all add: account_commitments_def [abs_def] pending_def [abs_def] committed_inv_def db_inv_def)
  have trimmed: "account_commitments (db\<lparr>persisted_round_number := block, account_creation_thunks := []\<rparr>) = account_commitments db"
    "committed_inv E (db\<lparr>persisted_round_number := block, account_creation_thunks := []\<rparr>)"
    using inv by (simp_all add: account_commitments_def [abs_def] committed_inv_def db_inv_def)
  have "store_inv L E (\<lambda>b. account_commitments db) (?s'\<lparr>memory := (memory ?s')\<lparr>account_creation_thunks := []\<rparr>\<rparr>)"
    using T trimmed I(1) commitments_good [OF inv] commitments_few [OF inv] by (auto simp: store_inv_def Let_def I'_def)
  then show ?thesis using step mem commitments_commit_values [OF mem(4)] by (intro exI [of _ ?s']) (simp add: I'_def)
qed

section \<open>Going back to the table\<close>

lemma holds_unique: "holds E f T \<Longrightarrow> holds E g T \<Longrightarrow> f = g"
proof -
  assume "holds E f T" "holds E g T"
  then have "commitment_leaves f = commitment_leaves g" by (simp add: holds_def)
  then have "commitment_leaves f (account_key a) = commitment_leaves g (account_key a)" for a by (rule arg_cong)
  then have "map_option fst (commitment_leaves f (account_key a)) = map_option fst (commitment_leaves g (account_key a))" for a by simp
  then have "f a = g a" for a by (simp add: option.map_comp comp_def option.map_ident)
  then show "f = g" by blast
qed

lemma reload_kvs_correct:
  assumes T: "table_holds L f d" "\<And>a c. f a = Some c \<Longrightarrow> good_commitment a c"
  shows "thunk_key ` set xs \<subseteq> dom f \<Longrightarrow> dom f \<subseteq> dom (user_id_to_idx_map db) \<Longrightarrow> db_inv db \<Longrightarrow> list_all representable (database db) \<Longrightarrow>
    \<exists>us. reload_kvs L d xs db = Inr (db\<lparr>database := us\<rparr>) \<and> db_inv (db\<lparr>database := us\<rparr>) \<and> list_all representable us \<and>
      account_commitments (db\<lparr>database := us\<rparr>) = (\<lambda>a. if a \<in> thunk_key ` set xs then f a else account_commitments db a)"
proof (induction xs arbitrary: db)
  case Nil
  then show ?case by (intro exI [of _ "database db"]) simp
next
  case (Cons kv xs)
  let ?a = "thunk_key kv"
  obtain c where c: "f ?a = Some c" using Cons.prems(1) by auto
  then have get: "mdb_get L (produce_lmdb_key ?a) d = Some c" using T(1) by (auto simp: table_holds_def disk_map_def)
  obtain i where i: "user_id_to_idx_map db ?a = Some i" using Cons.prems(2) c by blast
  have il: "i < length (database db)" "acct_owner (database db ! i) = ?a" using database_index [OF Cons.prems(3) i] .
  obtain u where u: "account_of_commitment c = Inr u" "acct_owner u = ?a" "representable u" "commitment_of u = c"
    using good_account [OF T(2) [OF c]] by blast
  let ?db = "put_account i u db"
  have inv: "db_inv ?db" by (rule db_inv_put [OF Cons.prems(3)]) (simp add: u(2) il(2))
  have rep: "list_all representable (database ?db)"
    using Cons.prems(4) u(3) il(1) by (simp add: put_account_def list_all_length nth_list_update)
  have com: "account_commitments ?db = (account_commitments db)(?a := f ?a)"
  proof
    fix b
    show "account_commitments ?db b = ((account_commitments db)(?a := f ?a)) b"
    proof (cases "user_id_to_idx_map db b")
      case None
      then show ?thesis using i by (auto simp: account_commitments_def)
    next
      case (Some j)
      then have "j < length (database db)" "acct_owner (database db ! j) = b" using database_index [OF Cons.prems(3)] by simp_all
      moreover have "j = i \<longleftrightarrow> b = ?a" using Some i calculation il by auto
      ultimately show ?thesis using Some il u(4) c by (simp add: account_commitments_def)
    qed
  qed
  obtain us where us: "reload_kvs L d xs ?db = Inr (?db\<lparr>database := us\<rparr>)" "db_inv (?db\<lparr>database := us\<rparr>)" "list_all representable us"
    "account_commitments (?db\<lparr>database := us\<rparr>) = (\<lambda>a. if a \<in> thunk_key ` set xs then f a else account_commitments ?db a)"
    using Cons.IH [OF _ _ inv rep] Cons.prems(1,2) by auto
  have eq: "?db\<lparr>database := us\<rparr> = db\<lparr>database := us\<rparr>" by (simp add: put_account_def)
  have "reload_kvs L d (kv # xs) db = Inr (db\<lparr>database := us\<rparr>)" using us(1) get i il(1) u(1) by (simp add: eq)
  moreover have "(\<lambda>a. if a \<in> thunk_key ` set xs then f a else account_commitments ?db a) =
      (\<lambda>a. if a \<in> thunk_key ` set (kv # xs) then f a else account_commitments db a)" by (auto simp: com fun_eq_iff)
  ultimately show ?case using us(2-4) unfolding eq by metis
qed

lemma reload_thunks_correct:
  assumes T: "table_holds L f d" "\<And>a c. f a = Some c \<Longrightarrow> good_commitment a c"
  shows "\<forall>th \<in> set ths. r < kvs_block_number th \<and> thunk_key ` set (thunk_kvs th) \<subseteq> dom f \<Longrightarrow> dom f \<subseteq> dom (user_id_to_idx_map db) \<Longrightarrow>
    db_inv db \<Longrightarrow> list_all representable (database db) \<Longrightarrow>
    \<exists>us. reload_thunks L d r ths db = Inr (db\<lparr>database := us\<rparr>) \<and> db_inv (db\<lparr>database := us\<rparr>) \<and> list_all representable us \<and>
      account_commitments (db\<lparr>database := us\<rparr>) = (\<lambda>a. if \<exists>th \<in> set ths. a \<in> thunk_key ` set (thunk_kvs th) then f a else account_commitments db a)"
proof (induction ths arbitrary: db)
  case Nil
  then show ?case by (intro exI [of _ "database db"]) simp
next
  case (Cons th ths)
  obtain us where us: "reload_kvs L d (thunk_kvs th) db = Inr (db\<lparr>database := us\<rparr>)" "db_inv (db\<lparr>database := us\<rparr>)" "list_all representable us"
    "account_commitments (db\<lparr>database := us\<rparr>) = (\<lambda>a. if a \<in> thunk_key ` set (thunk_kvs th) then f a else account_commitments db a)"
    using reload_kvs_correct [OF T _ Cons.prems(2-4), of "thunk_kvs th"] Cons.prems(1) by auto
  let ?db = "db\<lparr>database := us\<rparr>"
  obtain vs where vs: "reload_thunks L d r ths ?db = Inr (?db\<lparr>database := vs\<rparr>)" "db_inv (?db\<lparr>database := vs\<rparr>)" "list_all representable vs"
    "account_commitments (?db\<lparr>database := vs\<rparr>) = (\<lambda>a. if \<exists>th \<in> set ths. a \<in> thunk_key ` set (thunk_kvs th) then f a else account_commitments ?db a)"
    using Cons.IH [OF _ _ us(2)] Cons.prems(1,2) us(3) by auto
  have "(\<lambda>a. if \<exists>th \<in> set ths. a \<in> thunk_key ` set (thunk_kvs th) then f a else account_commitments ?db a) =
      (\<lambda>a. if \<exists>th \<in> set (th # ths). a \<in> thunk_key ` set (thunk_kvs th) then f a else account_commitments db a)" by (auto simp: us(4) fun_eq_iff)
  then show ?case using us(1) vs Cons.prems(1) by (intro exI [of _ vs]) simp
qed

lemma written_other: "a \<notin> thunk_key ` set xs \<Longrightarrow> written xs f a = f a"
  by (induction xs arbitrary: f) auto

lemma chain_unlisted: "chain h r ths \<Longrightarrow> \<forall>th \<in> set ths. a \<notin> thunk_key ` set (thunk_kvs th) \<Longrightarrow> h (last_block r ths) a = h r a"
proof (induction ths arbitrary: r)
  case (Cons th ths)
  then have th: "kvs_block_number th = r + 1" "h (r + 1) = written (thunk_kvs th) (h r)" "chain h (r + 1) ths" by simp_all
  have "h (last_block (r + 1) ths) a = h (r + 1) a" using Cons.IH [OF th(3)] Cons.prems(2) by simp
  also have "\<dots> = h r a" unfolding th(2) using Cons.prems(2) by (intro written_other) simp
  finally show ?case by (simp add: th(1))
qed simp

lemma written_dom: "complete xs \<Longrightarrow> written xs f a \<noteq> None \<longleftrightarrow> f a \<noteq> None \<or> a \<in> thunk_key ` set xs"
  by (induction xs arbitrary: f) (auto simp: complete_def)

lemma chain_grows: "chain h r ths \<Longrightarrow> h r a \<noteq> None \<Longrightarrow> h (last_block r ths) a \<noteq> None"
proof (induction ths arbitrary: r)
  case (Cons th ths)
  then have th: "kvs_block_number th = r + 1" "complete (thunk_kvs th)" "h (r + 1) = written (thunk_kvs th) (h r)" "chain h (r + 1) ths" by simp_all
  have "h (r + 1) a \<noteq> None" unfolding th(3) using written_dom [OF th(2)] Cons.prems(2) by blast
  then show ?case using Cons.IH [OF th(4)] th(1) by simp
qed simp

lemma chain_keys: "chain h r ths \<Longrightarrow> th \<in> set ths \<Longrightarrow> a \<in> thunk_key ` set (thunk_kvs th) \<Longrightarrow> h (last_block r ths) a \<noteq> None"
proof (induction ths arbitrary: r)
  case (Cons x ths)
  then have x: "kvs_block_number x = r + 1" "complete (thunk_kvs x)" "h (r + 1) = written (thunk_kvs x) (h r)" "chain h (r + 1) ths" by simp_all
  show ?case
  proof (cases "th \<in> set ths")
    case True
    then show ?thesis using Cons.IH [OF x(4)] Cons.prems(3) x(1) by simp
  next
    case False
    then have "h (r + 1) a \<noteq> None" unfolding x(3) using written_dom [OF x(2)] Cons.prems(2,3) by auto
    then show ?thesis using chain_grows [OF x(4)] x(1) by simp
  qed
qed simp

text \<open>
  With no accounts created since the block on disk, the accounts are those of that block again; the trie of commitments
  is still that of the last block, so that it holds the accounts only if they are the same.
\<close>

lemma undo_no_creations:
  "\<forall>th \<in> set ths. r < creation_block th \<and> num_accounts_created th = 0 \<Longrightarrow> undo_creations r ths db = Inr ([], db)"
  by (induction ths) (simp_all add: undo_creation_def Let_def)

lemma reload_store:
  assumes inv: "store_inv L E h s" and r: "r = lmdb_round (account_lmdb s)"
    and old: "\<forall>th \<in> set (account_creation_thunks (memory s)). num_accounts_created th = 0" "dom (h r) = dom (user_id_to_idx_map (memory s))"
  shows "\<exists>s'. clear_persistence_thunks_and_reload L r s = Inr s' \<and> account_commitments (memory s') = h r \<and> db_inv (memory s') \<and>
    list_all representable (database (memory s')) \<and> commitment_trie (memory s') = commitment_trie (memory s) \<and> persistence_thunks s' = [] \<and>
    (committed_inv E (memory s') \<longleftrightarrow> h r = account_commitments (memory s))"
proof -
  let ?ths = "persistence_thunks s"
  have I: "table_holds L (h r) (table (account_lmdb s))" "chain h r ?ths" "h (last_block r ?ths) = account_commitments (memory s)" "committed_inv E (memory s)"
    "map creation_block (account_creation_thunks (memory s)) = map kvs_block_number ?ths" and G: "\<And>a c. h r a = Some c \<Longrightarrow> good_commitment a c"
    using inv by (simp_all add: store_inv_def Let_def r)
  have db: "db_inv (memory s)" "list_all representable (database (memory s))" "holds E (account_commitments (memory s)) (commitment_trie (memory s))"
    "length (database (memory s)) < 2 ^ 32"
    using I(4) by (simp_all add: committed_inv_def)
  have "r < creation_block th" if "th \<in> set (account_creation_thunks (memory s))" for th
  proof -
    have "creation_block th \<in> set (map kvs_block_number ?ths)" using that by (auto simp flip: I(5))
    then show ?thesis using chain_above [OF I(2)] by auto
  qed
  then have "undo_creations r (account_creation_thunks (memory s)) (memory s) = Inr ([], memory s)" using old(1) by (intro undo_no_creations) blast
  then have undo: "rollback_new_accounts r (memory s) = Inr (clear_internal_data_structures ((memory s)\<lparr>account_creation_thunks := []\<rparr>))" (is "_ = Inr ?db")
    by (simp add: rollback_new_accounts_def)
  have same: "db_inv ?db" "database ?db = database (memory s)" "user_id_to_idx_map ?db = user_id_to_idx_map (memory s)"
    "account_commitments ?db = account_commitments (memory s)" "commitment_trie ?db = commitment_trie (memory s)"
    using db(1) by (simp_all add: clear_internal_data_structures_def db_inv_def account_commitments_def [abs_def])
  have keys: "a \<in> dom (h r)" if "th \<in> set ?ths" "a \<in> thunk_key ` set (thunk_kvs th)" for a th
    using chain_keys [OF I(2) that] by (auto simp: I(3) old(2) account_commitments_def)
  then have "\<forall>th \<in> set (rev ?ths). r < kvs_block_number th \<and> thunk_key ` set (thunk_kvs th) \<subseteq> dom (h r)" using chain_above [OF I(2)] by auto
  from reload_thunks_correct [OF I(1) G this, of ?db] obtain us where
    us: "reload_thunks L (table (account_lmdb s)) r (rev ?ths) ?db = Inr (?db\<lparr>database := us\<rparr>)" "db_inv (?db\<lparr>database := us\<rparr>)" "list_all representable us"
      "account_commitments (?db\<lparr>database := us\<rparr>) = (\<lambda>a. if \<exists>th \<in> set (rev ?ths). a \<in> thunk_key ` set (thunk_kvs th) then h r a else account_commitments ?db a)"
    using same old(2) db(2) by auto
  let ?s' = "s\<lparr>memory := ?db\<lparr>database := us\<rparr>, persistence_thunks := []\<rparr>"
  have "account_commitments (memory s) a = h r a" if "\<not> (\<exists>th \<in> set ?ths. a \<in> thunk_key ` set (thunk_kvs th))" for a
    using chain_unlisted [OF I(2)] that by (simp add: I(3))
  then have com: "account_commitments (?db\<lparr>database := us\<rparr>) = h r" unfolding us(4) by (auto simp: same(4) fun_eq_iff)
  have step: "clear_persistence_thunks_and_reload L r s = Inr ?s'" using undo us(1) r by (simp add: clear_persistence_thunks_and_reload_def)
  have few: "length us < 2 ^ 32"
    using database_card [OF us(2)] database_card [OF db(1)] db(4) by (simp add: same(3))
  have "committed_inv E (?db\<lparr>database := us\<rparr>) \<longleftrightarrow> h r = account_commitments (memory s)"
  proof
    assume "committed_inv E (?db\<lparr>database := us\<rparr>)"
    then have "holds E (h r) (commitment_trie (memory s))" using com same(5) by (simp add: committed_inv_def)
    then show "h r = account_commitments (memory s)" using db(3) holds_unique by blast
  next
    assume "h r = account_commitments (memory s)"
    then show "committed_inv E (?db\<lparr>database := us\<rparr>)" using us(2,3) com db(3) few same(5) by (simp add: committed_inv_def)
  qed
  then show ?thesis using step com us(2,3) same(5) by (intro exI [of _ ?s']) simp
qed

end
