(* ===== verification/Spec2Isabelle.thy ===== *)
theory Spec2Isabelle
  imports Clearing_Solvency Sample_Transaction Supply_Demand Mempool Header_Map Sample_Disk Database_Disk
begin

text \<open>
  SPEEDEX (namespace \<^verbatim>\<open>edce\<close> under \<^verbatim>\<open>src/implementation/src\<close>) is a replicated exchange:
  accounts hold balances of many assets, transactions pay, create accounts and post or cancel sell
  offers, and once per block all markets are cleared at one vector of prices.  The state of a
  replica is a database of accounts and one book of open offers per pair of assets; both are
  committed to by the root hashes of hashable prefix tries.

  \<^bold>\<open>The theories and the code they model.\<close>

  \<^item> \<open>Speedex_Prelude\<close>: machine integers as words (\<open>int64_t\<close> is a 64-bit word read with \<open>sint\<close>),
    exceptions as \<open>exn + 'a\<close>, and the facts on words the components share.
  \<^item> \<open>Price_Utils\<close>, \<open>Fixed_Precision\<close>: \<^verbatim>\<open>price_utils.h\<close> and
    \<^verbatim>\<open>fixed_point_value.h\<close>: prices and fractional amounts as fixed-point words, their
    encodings, comparisons, multiply-divide, rounding and tax.
  \<^item> \<open>Xdr_Types\<close>: the structs and enums of \<^verbatim>\<open>xdr/*.x\<close>.
  \<^item> \<open>Offer_Clearing\<close>, \<open>Clearing_Solvency\<close>: market indices
    (\<^verbatim>\<open>work_unit_manager_utils.h\<close>), payouts of executed offers
    (\<^verbatim>\<open>offer_clearing_logic.h\<close>), and the acceptance checks on a block's clearing
    (\<^verbatim>\<open>offer_clearing_params.h\<close>, \<^verbatim>\<open>work_unit_state_commitment.h/.cc\<close>); the
    argument that an accepted clearing never pays out more of an asset than it takes in.
  \<^item> \<open>Revertable_Asset\<close>: \<^verbatim>\<open>revertable_asset.h\<close>; one atomic balance.  Its operations as
    state passing, and the compare-and-exchange loop of the conditional transfer also as a step
    relation on interleaved threads.
  \<^item> \<open>User_Account\<close>: \<^verbatim>\<open>user_account.h/.cc\<close>; balances by asset, the window of sequence
    numbers, commit, rollback and commitments.
  \<^item> \<open>Trie_Metadata\<close>, \<open>Trie_Node\<close>, \<open>Trie_Insert\<close>, \<open>Trie_Shrink\<close>, \<open>Trie_Query\<close>, \<open>Trie_Mark\<close>,
    \<open>Trie_Split\<close>, \<open>Trie_Merge\<close>, \<open>Trie_Hash\<close>, \<open>Trie_Cache\<close>: \<^verbatim>\<open>merkle_trie_utils.h\<close> and the
    \<open>TrieNode\<close> half of \<^verbatim>\<open>merkle_trie.h\<close>, one theory per family of recursive operations.
  \<^item> \<open>Merkle_Trie\<close>, \<open>Trie_Refinement\<close>, \<open>Trie_Laws\<close>: the \<open>MerkleTrie\<close> object, the refinement of
    every operation to a finite map with flags, and the laws of rollback, merge, split and hash.
  \<^item> \<open>Trie_Keys\<close>: the keys of accounts (\<^verbatim>\<open>memory_database.h\<close>) and of offers
    (\<^verbatim>\<open>merkle_work_unit.h\<close>).
  \<^item> \<open>Memory_Database\<close>: \<^verbatim>\<open>memory_database.h/.cc\<close>; the vector of accounts and its index,
    provisional accounts, commit and rollback of new accounts, the validity checks.
  \<^item> \<open>Database_View\<close>: \<^verbatim>\<open>memory_database_view.h/.cc\<close>; the buffered view a transaction runs
    on, the unbuffered one a validator uses, and the contract both keep.
  \<^item> \<open>Modification_Log\<close>: \<^verbatim>\<open>account_modification_log.h/.cc\<close> and
    \<^verbatim>\<open>block_update_stats.h\<close>; what a block records about the accounts it touches.
  \<^item> \<open>Offer_Book\<close>, \<open>Book_Split\<close>: tries of offers as finite maps and as sorted lists.
  \<^item> \<open>Work_Unit\<close>, \<open>Work_Unit_Laws\<close>, \<open>Work_Unit_Undo\<close>: \<^verbatim>\<open>merkle_work_unit.h/.cc\<close> and
    \<^verbatim>\<open>merkle_work_unit_thunk.h\<close>; the book of one market: posting and cancelling, committing a
    block, clearing at the block's prices as a producer and as a validator, and undoing a block.
    \<open>Sample_Market\<close> holds a small market the statements are evaluated on.
  \<^item> \<open>Work_Unit_Manager\<close>, \<open>Serial_Manager\<close>: \<^verbatim>\<open>merkle_work_unit_manager.h/.cc\<close>; all markets of a
    replica, and the serial managers through which one thread posts and cancels offers.  The loops over the markets
    that can stop early run range by range; how the parallel loop divides the markets is a parameter.
  \<^item> \<open>Transaction_Processor\<close>: \<^verbatim>\<open>serial_transaction_processor.h/.cc\<close> and
    \<^verbatim>\<open>operation_metadata.h\<close>; the five operations, processing, unwinding and validating a
    transaction.  The class template is a record of the operations its parameters provide.
  \<^item> \<open>Serial_Laws\<close>, \<open>Transaction_View\<close>, \<open>Transaction_Laws\<close>, \<open>Transaction_Unwind\<close>, \<open>Transaction_Result\<close>: what
    posting, cancelling and unwinding do to the maps of offers and the marks, what each operation does to the
    money, and a whole transaction.  \<open>Manager_Laws\<close>: the vector of markets.  \<open>Sample_Transaction\<close> holds a
    small replica the statements are evaluated on.
  \<^item> \<open>Supply_Index\<close>, \<open>Supply_Laws\<close>, \<open>Supply_Spec\<close>, \<open>Supply_Demand\<close>: the index of a book by limit price and the
    supply and demand queries on it (\<^verbatim>\<open>merkle_work_unit.cc\<close>, \<^verbatim>\<open>merkle_work_unit_helpers.h\<close>).
  \<^item> \<open>Lmdb_Wrapper\<close>: \<^verbatim>\<open>lmdb_wrapper.h/.cc\<close>; LMDB itself is a parameter, a record of its
    operations, with its documented behaviour as the hypothesis \<open>lmdb_laws\<close>.
  \<^item> \<open>Work_Unit_Disk\<close>, \<open>Disk_Laws\<close>, \<open>Disk_Blocks\<close>: \<open>persist_lmdb\<close>, \<open>write_thunks\<close> and
    \<open>load_lmdb_contents_to_memory\<close> of \<^verbatim>\<open>merkle_work_unit.cc\<close>; what each phase does to the map on disk,
    that the thunk of a block describes what the block did to the book, and that the two together keep disk and
    memory equal.  \<open>Batch_Cancel\<close>: batches in which an offer is posted and then cancelled.
    \<open>Rollback_Order\<close>: two blocks undone at once.  \<open>Sample_Disk\<close> holds runs of two blocks and runs with a disk.
  \<^item> \<open>Trie_Modify\<close>: values changed in place below a subtree of a trie (\<^verbatim>\<open>merkle_trie.h\<close>).
  \<^item> \<open>Database_Commitment\<close>: the trie of account commitments, \<^verbatim>\<open>memory_database.cc\<close>, brought up to
    date with a block's log before or after its balances are committed, hashed, and rebuilt from all accounts; and
    \<open>DatabaseAutoRollback\<close> of \<^verbatim>\<open>edce.cc\<close>.
  \<^item> \<open>Database_Disk\<close>: the persistence thunks and the table of accounts, \<^verbatim>\<open>memory_database.cc\<close>:
    writing some blocks together, writing everything, loading, and going back to the table.
  \<^item> \<open>Header_Map\<close>: \<^verbatim>\<open>block_header_hash_map.h/.cc\<close>; the hashes of the blocks by number, in memory
    and on disk.
  \<^item> \<open>Mempool\<close>: \<^verbatim>\<open>mempool.h/.cc\<close>; the pool of waiting transactions.

  \<^bold>\<open>Abstractions.\<close>  A key of a trie is its list of 4-bit branch values, most significant first; a
  prefix of \<open>4 n\<close> bits is a list of length \<open>n\<close>; a branch node is an association list from branch values
  to children.  The cached hashes and metadata are part of a node, and that they are up to date is
  proved, not assumed.  Locks are not modelled: each operation is one step, as
  the exclusive lock makes it; the exception is the balance, whose lock-free loop is modelled by its
  atomic steps.  SHA-256 and the XDR encoding of values are parameters of the hashing
  definitions (the record \<open>hash_env\<close>); where a theorem needs collision resistance it assumes
  the hash to be injective on the messages hashed for the tries at hand.

  \<^bold>\<open>Bounds.\<close>  A node counts its leaves in 32 bits, so the theorems on tries speak of fewer than \<open>2^32\<close> leaves.
  The sums of a clearing are 128-bit words; \<open>clearing_in_range\<close> bounds the inputs such that they
  do not wrap.  Balances are 64-bit and wrap as in the code.  The model has no fuel: recursion is structural
  or carries a termination proof, and the two loops that can fail to end (the commitment of an account, and
  deleting along a cursor of the database parameter) are partial functions whose \<open>None\<close> is not returning.

  \<^bold>\<open>What the properties show.\<close>  Solvency of clearing and exactness of the arithmetic; the accounting of
  concurrent transfers and a bound on their steps; commit, rollback, sequence numbers and restart
  of an account; the trie as a map under any sequence of operations, its hash as a function of
  its contents only, and the binding of contents by the root hash; rollback, merge, split and
  deletion.
  The database theorems state that indices are stable and that creating accounts can be undone.
  The theorems on transactions state that a failed transaction leaves no trace and a successful one creates no
  money but what it prints; they speak of a state with room for the offers of the transaction
  (\<open>tx_ready\<close>) in which their identifiers, which derive from the sequence number, are unused.
  The theorems on markets state that a validator reaches the producer's state, and what rolling back
  blocks restores and what it does not.
  The theorems on supply and demand state what a query counts, and that no market demands more than it supplies.
  The theorems on the state hash state that producer and validator agree on it and that it depends on the
  accounts only; those on the table of accounts state what a restart finds after any run, which a step relation
  (\<open>store_run\<close>) describes: transactions between blocks, blocks, and writes of pending blocks.
  The theorems on persistence state that a run of blocks written together and read back gives the book in memory,
  for blocks that leave an offer and do not cancel within the batch, and what is written otherwise.
  \<^bold>\<open>Not modelled.\<close>  The parallel variants of the trie operations (the same recursion cut into
  TBB tasks), iterators and proofs, conversions from and to \<open>double\<close>, logging and file dumps,
  price computation
  (Tatonnement and the linear program, both on doubles), files of blocks, consensus, networking,
  signatures, simulators and experiments.
\<close>

section \<open>Transactions\<close>

text \<open>
  C1. Processing a transaction, whether it succeeds or fails, keeps the state of the processing thread
  well-formed: the maps of new offers and the books are well-formed tries with room for the offers to come, marks
  apart the books are the same, and every offer lies in a market that sells its asset.
\<close>

theorem transaction_keeps_state_well_formed:
  assumes "tx_ready n (transaction signed_tx) st" "process_transaction signed_tx st = Inr (status, st')"
  shows "tx_wf n st' \<and> same_markets (ts_markets st) (ts_markets st')"
  using transaction_failed [OF assms] transaction_applied [OF assms(1)] assms(2) by (cases "status = SUCCESS") simp_all

theorem transaction_keeps_state_well_formed_witness:
  "\<exists>st'. process_transaction (sample_tx 50 [MONEY_PRINTER \<lparr>printer_asset = 1, printer_amount = 5\<rparr>]) sample_state = Inr (SUCCESS, st') \<and>
    tx_wf 1000 st'"
proof (rule sample_applied)
  fix st'
  assume r: "process_transaction (sample_tx 50 [MONEY_PRINTER \<lparr>printer_asset = 1, printer_amount = 5\<rparr>]) sample_state = Inr (SUCCESS, st')"
  then show ?thesis using transaction_keeps_state_well_formed [OF sample_ready r] by auto
qed

text \<open>
  C2. A transaction that fails has no effect: every balance of the database is what it was, and so are
  the owners, sequence numbers and committed values of the accounts and the index; the new offers of the thread,
  the marks on the books, the log and the counters are unchanged.  Only reserved account identifiers may differ.
\<close>

theorem failed_transaction_has_no_effect:
  assumes "tx_ready n (transaction signed_tx) st" "process_transaction signed_tx st = Inr (status, st')" "status \<noteq> SUCCESS"
  shows "same_database (ts_db st) (ts_db st') \<and> ts_maps st' = ts_maps st \<and> ts_log st' = ts_log st \<and> ts_stats st' = ts_stats st"
  using transaction_failed(2-6) [OF assms] by blast

theorem failed_transaction_has_no_effect_witness:
  "\<exists>st'. process_transaction (sample_tx 5000 []) sample_state = Inr (INSUFFICIENT_BALANCE, st') \<and>
    same_database (ts_db sample_state) (ts_db st') \<and> ts_maps st' = ts_maps sample_state"
proof (rule sample_failed)
  fix st' assume r: "process_transaction (sample_tx 5000 []) sample_state = Inr (INSUFFICIENT_BALANCE, st')"
  then show ?thesis using failed_transaction_has_no_effect [OF sample_ready r] by auto
qed

text \<open>
  C3. A transaction that succeeds conserves the money: of every asset, the sum of all balances and of the
  amounts locked in open and in new offers, as 64-bit words, changes by what its \<open>MONEY_PRINTER\<close> operations print and by nothing
  else.
\<close>

theorem transaction_conserves_money:
  assumes "tx_ready n (transaction signed_tx) st" "process_transaction signed_tx st = Inr (SUCCESS, st')"
  shows "ts_money a st' = ts_money a st + (\<Sum>op \<leftarrow> operations (transaction signed_tx). printed a op)"
  using transaction_applied(3) [OF assms] .

theorem transaction_conserves_money_witness:
  "\<exists>st'. process_transaction (sample_tx 50 [MONEY_PRINTER \<lparr>printer_asset = 1, printer_amount = 5\<rparr>]) sample_state = Inr (SUCCESS, st') \<and>
    ts_money 0 st' = ts_money 0 sample_state \<and> ts_money 1 st' = ts_money 1 sample_state + 5"
proof (rule sample_applied)
  fix st'
  assume r: "process_transaction (sample_tx 50 [MONEY_PRINTER \<lparr>printer_asset = 1, printer_amount = 5\<rparr>]) sample_state = Inr (SUCCESS, st')"
  have s: "(\<Sum>op \<leftarrow> operations (transaction (sample_tx 50 [MONEY_PRINTER \<lparr>printer_asset = 1, printer_amount = 5\<rparr>])). printed a op) = (if a = 1 then 5 else 0)" for a
    by (simp add: sample_tx_def printed_def)
  have "ts_money a st' = ts_money a sample_state + (if a = 1 then 5 else 0)" for a
    using transaction_conserves_money [OF sample_ready r, of a] by (simp add: s)
  then show ?thesis using r by simp
qed

text \<open>
  C4. Cancelling an offer does not validate its category: in the category that buys what it sells, of the last
  asset, the market index is the number of markets, and \<open>process_transaction\<close> reads past the end of the vector.
\<close>

theorem cancel_out_of_bounds:
  assumes M: "markets_sized (os_markets st)" and c: "sellAsset (cancel_category op) = buyAsset (cancel_category op)" "offerType (cancel_category op) = SELL"
    "unat (sellAsset (cancel_category op)) + 1 = unat (wum_num_assets (os_markets st))"
  shows "process_cancel_sell_offer processing_handler md op st = Inl Undefined"
proof -
  let ?x = "unat (sellAsset (cancel_category op))"
  have "look_up_idx (cancel_category op) (os_markets st) = Inr (int (?x * (?x + 1)))"
    using look_up_idx_equal [OF _ c(1,2)] M c(3) by (simp add: markets_sized_def)
  moreover have "length (work_units (os_markets st)) = (?x + 1) * ?x" using M c(3) by (simp add: markets_sized_def)
  moreover have "nat (int (?x * (?x + 1))) = ?x * (?x + 1)" by (rule nat_int)
  ultimately have idx: "look_up_idx (cancel_category op) (os_markets st) = Inr (int (?x * (?x + 1)))"
    "\<not> nat (int (?x * (?x + 1))) < length (work_units (os_markets st))" by (simp_all only: mult.commute less_irrefl not_False_eq_True)
  then show ?thesis
    by (simp add: process_cancel_sell_offer_def processing_handler_def delete_offer_def view_mark_for_deletion_def wum_mark_for_deletion_def
        work_unit_at_def Let_def del: of_nat_mult of_nat_add nat_int)
qed

theorem cancel_out_of_bounds_witness:
  "process_cancel_sell_offer processing_handler \<lparr>tx_metadata = \<lparr>sourceAccount = 7, sequenceNumber = 1024\<rparr>, source_account_idx = 0, operation_id = 1024\<rparr>
     \<lparr>cancel_category = \<lparr>sellAsset = 1, buyAsset = 1, offerType = SELL\<rparr>, cancel_offerId = 256, cancel_minPrice = 1\<rparr>
     (start_state (ts_db sample_state) sample_state) = Inl Undefined"
  by (rule cancel_out_of_bounds) (simp_all add: start_state_def sample_state_def sample_markets_sized, simp add: sample_markets_def)



section \<open>Clearing\<close>

text \<open>
  C6. Solvency of a block: for any set of per-market executions that add up to the activated
  supplies, if \<open>check_clearing_params\<close> accepts those supplies at the given prices and tax rate, then
  for every asset the total credited to the executed offers (each payout converted, taxed and
  rounded on its own by the clearing code) is at most the total debited from the offers that sell it.
\<close>

theorem clearing_is_solvent:
  assumes "clearing_in_range prices n ss" "unat t < 128" "list_all2 executes es ss"
    and "check_clearing_params \<lparr>tax_rate = t, work_unit_params = ss\<rparr> prices n" "k < n"
  shows "asset_paid prices t n k es \<le> asset_sold n k es"
  using assms clearing_in_range_totals_fit [OF assms(1)]
  by (intro solvency) (auto simp: list_all2_conv_all_nth)

theorem clearing_is_solvent_witness:
  "asset_paid [0x1000000, 0x2000000] 10 2 1
     [\<lparr>full_amounts = [100, 7], partial_amount = from_raw 1000\<rparr>,
      \<lparr>full_amounts = [50], partial_amount = from_raw 4084\<rparr>]
   \<le> asset_sold 2 1
     [\<lparr>full_amounts = [100, 7], partial_amount = from_raw 1000\<rparr>,
      \<lparr>full_amounts = [50], partial_amount = from_raw 4084\<rparr>]"
proof (rule clearing_is_solvent
        [where ss = "[from_raw (107 * 1024 + 1000), from_raw (50 * 1024 + 4084)]"])
  show "clearing_in_range [0x1000000, 0x2000000] 2
          [from_raw (107 * 1024 + 1000), from_raw (50 * 1024 + 4084)]"
    by (simp add: clearing_in_range_def is_valid_price_def PRICE_MAX_eq)
  show "list_all2 executes
     [\<lparr>full_amounts = [100, 7], partial_amount = from_raw 1000\<rparr>,
      \<lparr>full_amounts = [50], partial_amount = from_raw 4084\<rparr>]
     [from_raw (107 * 1024 + 1000), from_raw (50 * 1024 + 4084)]"
    by (simp add: executes_def)
  show "check_clearing_params
     \<lparr>tax_rate = 10, work_unit_params = [from_raw (107 * 1024 + 1000), from_raw (50 * 1024 + 4084)]\<rparr>
     [0x1000000, 0x2000000] 2"
    by code_simp
qed simp_all

text \<open>
  C7. Market indices: for at most 46340 assets, \<open>category_to_idx\<close> numbers the valid categories of
  sell offers below \<open>n (n - 1)\<close> and \<open>category_from_idx\<close> is its inverse; every number in that range is
  the index of a valid category.
\<close>

theorem market_index_round_trip:
  assumes "unat n \<le> MAX_INDEXABLE_ASSETS"
  shows "(validate_category c n \<and> offerType c = SELL \<longrightarrow>
           (\<exists>i < unat n * (unat n - 1). category_to_idx c n = Inr (int i) \<and>
              category_from_idx (int i) (int (unat n)) = c)) \<and>
         (j < unat n * (unat n - 1) \<longrightarrow>
           validate_category (category_from_idx (int j) (int (unat n))) n \<and>
           category_to_idx (category_from_idx (int j) (int (unat n))) n = Inr (int j))"
  using category_idx_round_trip idx_category_round_trip assms by blast

theorem market_index_round_trip_witness:
  "validate_category (category_from_idx 7 4) 4 \<and> category_to_idx (category_from_idx 7 4) 4 = Inr 7"
  using market_index_round_trip [of 4 undefined 7] by (simp add: MAX_INDEXABLE_ASSETS_def)

section \<open>Markets\<close>

text \<open>
  C8. A validator reaches the producer's state: run on the same book and database with the commitment that
  \<open>process_clear_offers\<close> wrote, \<open>tentative_clear_offers_for_validation\<close> succeeds, leaves the same
  open offers, pays every account the same, counts the same executed offers, and sees the committed supply activated.
\<close>

theorem validator_follows_producer:
  assumes "sound_book (committed_offers w)" "commitment_sized c"
    and "\<forall>(k, v) \<in> set (offer_list (committed_offers w)). category v = wu_category w"
    and "process_clear_offers supply prices tax w (db, log, stats) c = Inr (w1, (db1, log1, stats1), c1)"
  shows "\<exists>w2 db2 log2 activated.
    tentative_clear_offers_for_validation c1 prices tax w (db, log, stats) acc = Inr (True, w2, (db2, log2, stats1), activated) \<and>
    offers (committed_offers w2) = offers (committed_offers w1) \<and>
    (\<forall>k. db_valid db k \<longrightarrow> db_balance db2 k = db_balance db1 k) \<and>
    fa_plus activated (partialExecOfferActivationAmount c1) = fa_plus acc supply \<and>
    fractionalSupplyActivated c1 = supply \<and> check_sanity c1"
  using validator_agrees [OF assms(1,2,3,4), of acc] unfolding agrees_def by auto

theorem validator_follows_producer_witness:
  "\<exists>w1 db1 log1 stats1 c1 w2 db2 log2 activated.
    process_clear_offers (from_integral 120) [0x2000000, 0x1000000] 10 sample_unit (sample_database, Map.empty, no_stats) sample_commitment =
      Inr (w1, (db1, log1, stats1), c1) \<and>
    tentative_clear_offers_for_validation c1 [0x2000000, 0x1000000] 10 sample_unit (sample_database, Map.empty, no_stats) (from_integral 0) =
      Inr (True, w2, (db2, log2, stats1), activated) \<and>
    offers (committed_offers w2) = offers (committed_offers w1) \<and> db_balance db2 (0, 1) = 238"
proof -
  obtain w1 db1 log1 stats1 c1 where r: "process_clear_offers (from_integral 120) [0x2000000, 0x1000000] 10 sample_unit
      (sample_database, Map.empty, no_stats) sample_commitment = Inr (w1, (db1, log1, stats1), c1)"
    and b: "db_balance db1 (0, 1) = 238" "db_valid sample_database (0, 1)" using sample_run .
  have u: "committed_offers sample_unit = sample_book" "wu_category sample_unit = sample_category"
    by (simp_all add: sample_unit_def new_work_unit_def)
  have "\<forall>(k, v) \<in> set (offer_list (committed_offers sample_unit)). category v = wu_category sample_unit"
    unfolding u sample_sound(2) by (simp add: sample_offer_def)
  from validator_follows_producer [OF sample_sound(1) [folded u(1)] sample_commitment_sized this r, of "from_integral 0"]
  show ?thesis using r b by fastforce
qed

text \<open>
  C9. Rolling a block back: after \<open>tentative_commit_for_validation\<close> and \<open>process_clear_offers\<close> of a
  block, \<open>rollback_thunks\<close> restores the book as it was before the block, except that an offer posted in the
  block stays when it is the one the block executed in part.
\<close>

theorem block_rolled_back:
  assumes "block_ready w" "tentative_commit_for_validation n w = Inr w1" "sound_book (committed_offers w1)" "commitment_sized c"
    and "process_clear_offers supply prices tax w1 (db, log, stats) c = Inr (w2, (db2, log2, stats2), c2)"
    and "\<forall>th \<in> set (thunks w). thunk_block_number th \<le> m" "m < n" "wu_persisted_round_number w < m"
  shows "\<exists>w3. rollback_thunks m w2 = Inr w3 \<and> thunks w3 = thunks w \<and>
    offers (committed_offers w3) = (let th = last (thunks w2); k = partial_exec_key th in
      if exists_partial_exec th = Some True \<and> offers (uncommitted_offers w) k \<noteq> None
      then (offers (committed_offers w))(k \<mapsto> preexecute_partial_exec_offer th) else offers (committed_offers w))"
  using block_undone [OF assms] by blast

theorem block_rolled_back_witness:
  "\<exists>w1 w2 w3 s2 c2. tentative_commit_for_validation 3 sample_block = Inr w1 \<and>
    process_clear_offers (from_integral 120) [0x2000000, 0x1000000] 10 w1 (sample_database, Map.empty, no_stats) sample_commitment =
      Inr (w2, s2, c2) \<and> rollback_thunks 2 w2 = Inr w3 \<and> thunks w3 = []"
proof -
  obtain w1 w2 db2 log2 stats2 c2 where r: "tentative_commit_for_validation 3 sample_block = Inr w1" "sound_book (committed_offers w1)"
    "process_clear_offers (from_integral 120) [0x2000000, 0x1000000] 10 w1 (sample_database, Map.empty, no_stats) sample_commitment =
      Inr (w2, (db2, log2, stats2), c2)" using sample_block_run .
  have "\<exists>w3. rollback_thunks 2 w2 = Inr w3 \<and> thunks w3 = []"
    using block_rolled_back [OF sample_block_ready r(1,2) sample_commitment_sized r(3), of 2] by (auto simp: sample_block_sel)
  then show ?thesis using r by blast
qed

text \<open>
  C10. Rolling back two blocks undoes the older one first, so that what the newer one executed comes back too late to
  be taken out again.  Let a block post the offer \<open>k\<close> and leave it open, and a later block execute it without its
  being cancelled; between the blocks offers may be posted and marked.  \<open>rollback_thunks\<close> to a number above what is
  persisted and between the earlier thunks and the two blocks returns and leaves only the earlier thunks, but the
  offer, which did not exist before the two blocks, is open again.  Fewer than \<open>2 ^ 32\<close> offers are involved.
\<close>

theorem two_blocks_rolled_back_wrongly:
  assumes "block_step n w w2" "block_step n' w2' w4"
    and "offers (committed_offers w2') = offers (committed_offers w2)" "thunks w2' = thunks w2"
    and "wu_persisted_round_number w2' = wu_persisted_round_number w2"
    and "\<forall>th \<in> set (thunks w). thunk_block_number th \<le> m" "m < n" "m < n'" "wu_persisted_round_number w < m"
    and "card (dom (offers (committed_offers w)) \<union> dom (offers (uncommitted_offers w)) \<union> dom (offers (uncommitted_offers w2'))) < 2 ^ 32"
    and "offers (uncommitted_offers w) k \<noteq> None" "offers (committed_offers w2) k = Some v" "k \<notin> cancelled (last (thunks w4))"
    and "offers (committed_offers w4) k = None"
  shows "\<exists>w5. rollback_thunks m w4 = Inr w5 \<and> thunks w5 = thunks w \<and>
    offers (committed_offers w) k = None \<and> offers (committed_offers w5) k = Some v"
  by (rule two_blocks_undone [OF assms])

theorem two_blocks_rolled_back_wrongly_witness:
  "\<exists>w2 w4 w5. block_step 3 sample_block w2 \<and> block_step 4 w2 w4 \<and> rollback_thunks 2 w4 = Inr w5 \<and> thunks w5 = [] \<and>
     offers (committed_offers sample_block) (key_of (sample_offer 512 50)) = None \<and>
     offers (committed_offers w5) (key_of (sample_offer 512 50)) = Some (sample_offer 512 50)"
proof -
  obtain w2 w4 where b: "block_step 3 sample_block w2" "block_step 4 w2 w4" "uncommitted_offers w2 = empty_trie"
    "offers (committed_offers w2) sample_second = Some (sample_offer 512 50)"
    "sample_second \<notin> cancelled (last (thunks w4))" "offers (committed_offers w4) sample_second = None"
    by (rule sample_filled [of 3]) simp
  have h: "\<forall>th \<in> set (thunks sample_block). thunk_block_number th \<le> 2" "(2 :: u64) < 3" "(2 :: u64) < 4" "wu_persisted_round_number sample_block < 2"
    "offers (uncommitted_offers sample_block) sample_second \<noteq> None"
    by (simp_all add: sample_block_sel sample_leaf_book(2))
  have few: "card (dom (offers (committed_offers sample_block)) \<union> dom (offers (uncommitted_offers sample_block)) \<union> dom (offers (uncommitted_offers w2))) < 2 ^ 32"
    using sample_block_ready unfolding b(3) block_ready_def by simp
  show ?thesis
    using two_blocks_rolled_back_wrongly [OF b(1,2) refl refl refl h(1-4) few h(5) b(4-6)] b(1,2) unfolding sample_block_sel(3) by blast
qed

section \<open>Supply and demand\<close>

text \<open>
  C11. The supply of a market at a price: \<open>metadata_traversal\<close> indexes a book by limit price, and \<open>get_metadata\<close>, a
  binary search, returns the sums of the amounts and of the amounts times prices over the offers whose limit is at
  most the price.  At the highest limit of the book it leaves the offers with that limit out.
\<close>

theorem supply_query:
  assumes "sound_book T"
  shows "\<exists>index. trie_metadata_traversal 12 T = Inr index \<and>
    (\<forall>p. get_metadata index p = ea_val (filter (\<lambda>(k, v). minPrice v \<le> p \<and> \<not> (minPrice v = p \<and> highest_price T p)) (offer_list T)))"
  using traversal_index [OF assms] get_metadata_covered [OF assms, of _] by (auto simp: covered_def covered_price_def)

theorem supply_query_witness:
  "\<exists>index. trie_metadata_traversal 12 sample_book = Inr index \<and>
    ea_endow (get_metadata index 0x1000000) = 0 \<and> ea_endow (get_metadata index 0x1000001) = 150"
proof -
  obtain index where i: "trie_metadata_traversal 12 sample_book = Inr index"
    "\<And>p. get_metadata index p = ea_val (filter (\<lambda>(k, v). minPrice v \<le> p \<and> \<not> (minPrice v = p \<and> highest_price sample_book p)) (offer_list sample_book))"
    using supply_query [OF sample_sound(1)] by blast
  have h: "highest_price sample_book p \<longleftrightarrow> p = 0x1000000" for p
    by (auto simp: highest_price_def sample_sound(2) sample_offer_def)
  have "ea_endow (get_metadata index 0x1000000) = 0 \<and> ea_endow (get_metadata index 0x1000001) = 150"
    unfolding i(2) h by (simp add: sample_sound(2) ea_val_def) (simp add: sample_offer_def)
  then show ?thesis using i(1) by blast
qed

text \<open>
  C12. Demands and supplies: at prices whose ratio has a fixed-point representation, and while the amounts on offer
  stay below \<open>2 ^ 63\<close> after smoothing, a query adds a demand and a supply of the market to the two vectors whose
  values at the prices satisfy that no more is demanded than is supplied; without smoothing the supply is that of
  the offers that the supply query counts.
\<close>

theorem demand_is_supplied:
  assumes "sound_book T" "trie_metadata_traversal 12 T = Inr index"
    and "price_of prices (sellAsset c) = Inr a" "price_of prices (buyAsset c) = Inr b" "a \<noteq> 0" "b \<noteq> 0"
    and "unat s < 64" "unat a < unat b * 2 ^ 40" "amounts (offer_list T) * 2 ^ unat s < 2 ^ 63"
    and "unat (buyAsset c) < length dem" "unat (sellAsset c) < length sups"
  shows "\<exists>d u. calculate_demands_and_supplies index c prices s (dem, sups) =
        Inr (dem[unat (buyAsset c) := dem ! unat (buyAsset c) + d], sups[unat (sellAsset c) := sups ! unat (sellAsset c) + u]) \<and>
      unat d * unat b \<le> unat u * unat a \<and> (s = 0 \<longrightarrow> unat u = nat (amounts (covered T (divide_prices a b))) * 2 ^ 24)"
  by (rule demand_query_ok [OF assms])

theorem demand_is_supplied_witness:
  "\<exists>index d u. trie_metadata_traversal 12 sample_book = Inr index \<and>
    calculate_demands_and_supplies index sample_category [0x2000000, 0x1000000] 0 ([0, 0], [0, 0]) = Inr ([0, d], [u, 0]) \<and>
    unat d * 0x1000000 \<le> unat u * 0x2000000 \<and> unat u = 150 * 2 ^ 24"
proof -
  obtain index where i: "trie_metadata_traversal 12 sample_book = Inr index" using traversal_index [OF sample_sound(1)] by blast
  have q: "divide_prices 0x2000000 0x1000000 = 0x2000000" by code_simp
  have c: "amounts (covered sample_book 0x2000000) = 150" "amounts (offer_list sample_book) = 150"
    by (simp_all add: covered_def covered_price_def highest_price_def sample_sound(2)) (simp_all add: sample_offer_def)
  have "\<exists>d u. calculate_demands_and_supplies index sample_category [0x2000000, 0x1000000] 0 ([0, 0], [0, 0]) = Inr ([0, d], [u, 0]) \<and>
    unat d * 0x1000000 \<le> unat u * 0x2000000 \<and> unat u = 150 * 2 ^ 24"
    using demand_is_supplied [OF sample_sound(1) i, of "[0x2000000, 0x1000000]" sample_category "0x2000000" "0x1000000" 0 "[0, 0]" "[0, 0]"]
    by (simp add: price_of_def sample_category_def q c)
  then show ?thesis using i by blast
qed

section \<open>Persistence\<close>

text \<open>
  C13. A market survives a restart: after a run of blocks each of which left an offer at which it stopped, with no
  offer posted twice and none cancelled within the batch, \<open>persist_lmdb\<close> returns, the disk holds the committed
  offers, and \<open>load_lmdb_contents_to_memory\<close> of a new work unit rebuilds the same trie.  The database is a
  parameter that behaves as a sorted map.
\<close>

theorem market_survives_restart:
  assumes "lmdb_laws 22 L" "env_open I" "lmdb_round I \<le> n" "stored L (table I) (offers (committed_offers w))"
    and "blocks w ths w'" "thunks w = []" "ths \<noteq> []" "fresh_batch (offers (committed_offers w)) ths"
    and "\<forall>th \<in> set ths. exists_partial_exec th = Some True"
    and "thunk_block_number (hd ths) = wu_persisted_round_number w + 1" "\<forall>th \<in> set ths. thunk_block_number th \<le> n"
  shows "\<exists>I' w''. wu_persist_lmdb L n (w', I) = Inr (w'\<lparr>thunks := [], wu_persisted_round_number := n\<rparr>, I') \<and>
    stored L (table I') (offers (committed_offers w')) \<and>
    wu_load_lmdb_contents_to_memory L I' (new_work_unit (wu_category w')) = Inr w'' \<and>
    skeleton (root (committed_offers w'')) = skeleton (root (committed_offers w'))"
proof -
  obtain I' where I': "wu_persist_lmdb L n (w', I) = Inr (w'\<lparr>thunks := [], wu_persisted_round_number := n\<rparr>, I')"
    "stored L (table I') (offers (committed_offers w'))" using persist_blocks [OF assms] by blast
  obtain m w2 where last: "block_step m w2 w'" using assms(5,7) by (cases rule: blocks.cases) auto
  obtain w'' where w'': "wu_load_lmdb_contents_to_memory L I' (new_work_unit (wu_category w')) = Inr w''" "book (committed_offers w'')"
    "offers (committed_offers w'') = offers (committed_offers w')"
    using load_stored [OF assms(1) I'(2) block_offers [OF last], of "new_work_unit (wu_category w')"] by (auto simp: new_work_unit_def)
  have "skeleton (root (committed_offers w'')) = skeleton (root (committed_offers w'))"
    using skeleton_determined w''(2,3) block_offers(1) [OF last] by (auto simp: book_def)
  then show ?thesis using I' w''(1) by blast
qed

theorem market_survives_restart_witness:
  "\<exists>w I w''. block_step 1 sample_block w \<and>
    wu_persist_lmdb list_lmdb 1 (w, open_env (new_instance sample_disk)) = Inr (w\<lparr>thunks := [], wu_persisted_round_number := 1\<rparr>, I) \<and>
    wu_load_lmdb_contents_to_memory list_lmdb I (new_work_unit (wu_category w)) = Inr w'' \<and>
    skeleton (root (committed_offers w'')) = skeleton (root (committed_offers w))"
proof -
  obtain w where w: "blocks sample_block (thunks w) w" "fresh_batch (offers (committed_offers sample_block)) (thunks w)" "thunks w \<noteq> []"
    "\<forall>th \<in> set (thunks w). exists_partial_exec th = Some True" "\<forall>th \<in> set (thunks w). thunk_block_number th = 1"
    "block_step 1 sample_block w" by (rule sample_disk_block)
  have I: "env_open (open_env (new_instance sample_disk))" "lmdb_round (open_env (new_instance sample_disk)) \<le> 1"
    "table (open_env (new_instance sample_disk)) = sample_disk" by (simp_all add: open_env_def new_instance_def)
  have st: "stored list_lmdb (table (open_env (new_instance sample_disk))) (offers (committed_offers sample_block))"
    unfolding I(3) by (rule sample_stored)
  have "thunk_block_number (hd (thunks w)) = wu_persisted_round_number sample_block + 1" "\<forall>th \<in> set (thunks w). thunk_block_number th \<le> 1"
    using w(3,5) by (simp_all add: sample_block_sel)
  from market_survives_restart [OF list_lmdb_laws I(1,2) st w(1) sample_block_sel(3) w(3,2,4) this]
  obtain I w'' where
    "wu_persist_lmdb list_lmdb 1 (w, open_env (new_instance sample_disk)) = Inr (w\<lparr>thunks := [], wu_persisted_round_number := 1\<rparr>, I)"
    "wu_load_lmdb_contents_to_memory list_lmdb I (new_work_unit (wu_category w)) = Inr w''"
    "skeleton (root (committed_offers w'')) = skeleton (root (committed_offers w))" by (elim exE conjE) (rule that)
  then show ?thesis using w(6) by (intro exI conjI)
qed

text \<open>
  C14. Blocks written together: a cancellation has no effect on the disk when the offer was posted in the same batch.
  In any run of blocks each of which left an offer at which it stopped, with no offer posted twice, let one block
  post the offer \<open>k\<close> and a later one cancel it, with its key above every key at which the blocks from the first one
  on stopped.  \<open>persist_lmdb\<close> returns, the market in memory does not have the offer, and the disk has it:
  \<open>write_thunks\<close> deletes what was cancelled before it inserts what was posted.  The database is a parameter that
  behaves as a sorted map and holds the book from before the run, which starts right after the persisted block.
\<close>

theorem batch_written_wrongly:
  assumes "lmdb_laws 22 L" "env_open I" "lmdb_round I \<le> n" "stored L (table I) (offers (committed_offers w))"
    and "blocks w ths w'" "thunks w = []" "posted_once (offers (committed_offers w)) ths"
    and "\<forall>th \<in> set ths. exists_partial_exec th = Some True"
    and "thunk_block_number (hd ths) = wu_persisted_round_number w + 1" "\<forall>th \<in> set ths. thunk_block_number th \<le> n"
    and "ths = xs @ th # ys @ later # zs" "posted th k = Some v" "k \<in> cancelled later"
    and "\<forall>t \<in> set (th # ys @ later # zs). key_less (partial_exec_key t) k"
  shows "\<exists>I'. wu_persist_lmdb L n (w', I) = Inr (w'\<lparr>thunks := [], wu_persisted_round_number := n\<rparr>, I') \<and>
    offers (committed_offers w') k = None \<and> mdb_get L (get_bytes_array k) (table I') = Some v"
  by (rule persist_cancelled [OF assms])

theorem batch_written_wrongly_witness:
  "\<exists>th later w' I'. blocks sample_block [th, later] w' \<and>
     wu_persist_lmdb list_lmdb 2 (w', open_env (new_instance sample_disk)) = Inr (w'\<lparr>thunks := [], wu_persisted_round_number := 2\<rparr>, I') \<and>
     offers (committed_offers w') (key_of (sample_offer 512 50)) = None \<and>
     mdb_get list_lmdb (get_bytes_array (key_of (sample_offer 512 50))) (table I') \<noteq> None"
proof -
  obtain w2 w2' w4 where w2: "block_step 1 sample_block w2" "exists_partial_exec (last (thunks w2)) = Some True"
    "key_less (partial_exec_key (last (thunks w2))) sample_second"
    and between: "offers (committed_offers w2') = offers (committed_offers w2)" "thunks w2' = thunks w2"
      "wu_persisted_round_number w2' = wu_persisted_round_number w2" "uncommitted_offers w2' = empty_trie"
    and w4: "block_step 2 w2' w4" "exists_partial_exec (last (thunks w4)) = Some True"
      "key_less (partial_exec_key (last (thunks w4))) sample_second" "cancelled (last (thunks w4)) = {sample_second}"
    by (rule sample_cancelled_run [of 1]) simp
  let ?th = "last (thunks w2)" and ?later = "last (thunks w4)" and ?I = "open_env (new_instance sample_disk)"
  have blocks1: "blocks sample_block ([] @ [?th]) w2" by (rule blocks.next_block [OF blocks.no_block _ _ _ w2(1)]) simp_all
  have blocks: "blocks sample_block [?th, ?later] w4" using blocks.next_block [OF blocks1 between(1-3) w4(1)] by simp
  have th: "thunk_block_number ?th = 1" "dom (posted ?th) = {sample_second}" "dom (posted ?th) \<inter> dom (offers (committed_offers sample_block)) = {}"
    using block_posts [OF w2(1)] by (simp_all add: sample_block_sel sample_leaf_book(2))
  have later: "thunk_block_number ?later = 2" "dom (posted ?later) = {}"
    using block_posts [OF w4(1)] between(4) by (simp_all add: book_empty(2))
  obtain v where v: "posted ?th sample_second = Some v" using th(2) by blast
  have I: "env_open ?I" "lmdb_round ?I \<le> 2" "table ?I = sample_disk" by (simp_all add: open_env_def new_instance_def)
  have st: "stored list_lmdb (table ?I) (offers (committed_offers sample_block))" unfolding I(3) by (rule sample_stored)
  have once: "posted_once (offers (committed_offers sample_block)) [?th, ?later]"
    using th(3) later(2) by (simp add: posted_once_def)
  have h: "\<forall>t \<in> set [?th, ?later]. exists_partial_exec t = Some True" "thunk_block_number (hd [?th, ?later]) = wu_persisted_round_number sample_block + 1"
    "\<forall>t \<in> set [?th, ?later]. thunk_block_number t \<le> 2" "[?th, ?later] = [] @ ?th # [] @ ?later # []" "sample_second \<in> cancelled ?later"
    "\<forall>t \<in> set (?th # [] @ ?later # []). key_less (partial_exec_key t) sample_second"
    using w2(2,3) w4(2-4) th(1) later(1) by (simp_all add: sample_block_sel)
  show ?thesis
    using batch_written_wrongly [OF list_lmdb_laws I(1,2) st blocks sample_block_sel(3) once h(1-4) v h(5,6)] blocks by blast
qed

section \<open>The markets of a replica\<close>

text \<open>
  Adding assets keeps the markets: with more assets, up to the number whose markets an index can count, every
  market there was is found under its category, every new one is empty, and each stands at its index.
\<close>

theorem adding_assets_keeps_markets:
  assumes "markets_placed M" "wum_num_assets M \<le> n" "unat n \<le> MAX_INDEXABLE_ASSETS"
  shows "\<exists>M'. increase_num_traded_assets n M = Inr M' \<and> markets_placed M' \<and> wum_num_assets M' = n \<and>
    (\<forall>c. trades c (wum_num_assets M) \<longrightarrow> market_of c M' = market_of c M) \<and>
    (\<forall>c. trades c n \<and> \<not> trades c (wum_num_assets M) \<longrightarrow> market_of c M' = Inr (new_work_unit c))"
proof -
  obtain M' where M': "increase_num_traded_assets n M = Inr M'" "markets_placed M'" "wum_num_assets M' = n"
    "\<And>c. trades c n \<Longrightarrow> market_of c M' = Inr (grown_market n M c)"
    using assets_added [OF assms] by blast
  have "market_of c M' = market_of c M" if c: "trades c (wum_num_assets M)" for c
  proof -
    obtain i where "market_of c M = Inr (work_units M ! i)" by (rule market_at [OF assms(1) c])
    then show ?thesis using M'(4) [OF trades_more [OF c assms(2)]] c by (simp add: grown_market_def)
  qed
  then show ?thesis using M' by (auto simp: grown_market_def)
qed

theorem adding_assets_keeps_markets_witness:
  "\<exists>M'. increase_num_traded_assets 3 sample_markets = Inr M' \<and> market_of sample_category M' = market_of sample_category sample_markets \<and>
    market_of \<lparr>sellAsset = 2, buyAsset = 1, offerType = SELL\<rparr> M' = Inr (new_work_unit \<lparr>sellAsset = 2, buyAsset = 1, offerType = SELL\<rparr>)"
proof -
  have "wu_category (work_units sample_markets ! 0) = category_from_idx 0 2" "wu_category (work_units sample_markets ! 1) = category_from_idx 1 2"
    unfolding sample_markets_sel new_work_unit_def sample_category_def by code_simp+
  then have "markets_placed sample_markets"
    using two_markets by (auto simp: markets_placed_def sample_markets_sel MAX_INDEXABLE_ASSETS_def less_2_cases_iff)
  moreover have "wum_num_assets sample_markets \<le> 3" "unat (3 :: u16) \<le> MAX_INDEXABLE_ASSETS" by (simp_all add: sample_markets_sel MAX_INDEXABLE_ASSETS_def)
  moreover have "trades sample_category (wum_num_assets sample_markets)" "trades \<lparr>sellAsset = 2, buyAsset = 1, offerType = SELL\<rparr> 3"
    "\<not> trades \<lparr>sellAsset = 2, buyAsset = 1, offerType = SELL\<rparr> (wum_num_assets sample_markets)"
    unfolding sample_markets_sel by code_simp+
  ultimately show ?thesis using adding_assets_keeps_markets [of sample_markets 3] by blast
qed

text \<open>
  C15. Loading blocks from disk takes the success of a market for a failure: a range of the parallel loop over the
  markets skips those that are persisted already and ends at the first market that it clears.  The markets after it
  in the range are left as they were, the other ranges run as they would, and when none of them throws the call
  reports a failure.  How the loop is divided into ranges is arbitrary.
\<close>

theorem loading_stops_at_success:
  assumes "length (work_units M) \<le> length (commitments C)" "vs = make_minimum_size stats (length (work_units M))"
    and "divide_ranges division (zip (commitments C) (zip (work_units M) (take (length (work_units M)) vs))) = rs @ (before @ (c, w, a) # after) # rs'"
    and "\<forall>(c, w, a) \<in> set before. \<not> wu_persisted_round_number w < n" "wu_persisted_round_number w < n"
    and "run_ranges (load_range n (checker_prices C) (checker_tax_rate C)) rs s = Inr (fs, ws, db, log)"
    and "tentative_clear_offers_for_validation c (checker_prices C) (checker_tax_rate C) w (db, log, no_stats) a = Inr (True, w', (db', log', st), a')"
    and "run_ranges (load_range n (checker_prices C) (checker_tax_rate C)) rs' (db', log') = Inr (fs', ws', s')"
  shows "clear_offers_for_data_loading division n C stats M s =
    Inr (True, M\<lparr>work_units := map fst (ws @ map snd before @ (w', a') # map snd after @ ws')\<rparr>,
      map snd (ws @ map snd before @ (w', a') # map snd after @ ws') @ drop (length (work_units M)) vs, s')"
proof -
  have "load_range n (checker_prices C) (checker_tax_rate C) (before @ (c, w, a) # after) (db, log) =
      Inr (True, map snd before @ (w', a') # map snd after, db', log')"
    using load_markets_stops [OF assms(4,5,7)] by (simp add: load_range_def)
  then show ?thesis
    using assms(1,3,6,8) by (simp add: clear_offers_for_data_loading_def Let_def run_ranges_append comp_def flip: assms(2))
qed

theorem loading_stops_at_success_witness:
  "\<exists>w1 w3 M vs s. clear_offers_for_data_loading [2] 1 \<lparr>commitments = replicate 3 sample_commitment, checker_prices = [0x2000000, 0x1000000], checker_tax_rate = 10\<rparr>
      [] (sample_markets\<lparr>work_units := replicate 3 ((new_work_unit sample_category)\<lparr>thunks := [new_thunk 1]\<rparr>)\<rparr>) (sample_database, Map.empty) =
    Inr (True, M, vs, s) \<and> work_units M = [w1, (new_work_unit sample_category)\<lparr>thunks := [new_thunk 1]\<rparr>, w3]"
proof -
  let ?u = "(new_work_unit sample_category)\<lparr>thunks := [new_thunk 1]\<rparr>" and ?x = "from_raw 0"
    and ?C = "\<lparr>commitments = replicate 3 sample_commitment, checker_prices = [0x2000000, 0x1000000], checker_tax_rate = 10\<rparr>"
  let ?M = "sample_markets\<lparr>work_units := replicate 3 ?u\<rparr>" and ?m = "(sample_commitment, ?u, ?x)"
  have "returns (tentative_clear_offers_for_validation sample_commitment [0x2000000, 0x1000000] 10 ?u (sample_database, Map.empty, no_stats) ?x)
    (\<lambda>(ok, _, (db, log, _), _). ok \<and>
      returns (tentative_clear_offers_for_validation sample_commitment [0x2000000, 0x1000000] 10 ?u (db, log, no_stats) ?x) (\<lambda>(ok, _). ok))"
    by code_simp
  then obtain w1 db1 log1 st1 a1 w3 db3 log3 st3 a3 where
    1: "tentative_clear_offers_for_validation sample_commitment (checker_prices ?C) (checker_tax_rate ?C) ?u (sample_database, Map.empty, no_stats) ?x =
      Inr (True, w1, (db1, log1, st1), a1)" and
    3: "tentative_clear_offers_for_validation sample_commitment (checker_prices ?C) (checker_tax_rate ?C) ?u (db1, log1, no_stats) ?x =
      Inr (True, w3, (db3, log3, st3), a3)"
    unfolding returns_iff by auto
  have u: "wu_persisted_round_number ?u < 1" by (simp add: new_work_unit_def)
  have last: "run_ranges (load_range 1 (checker_prices ?C) (checker_tax_rate ?C)) [[?m]] (db1, log1) = Inr ([True], [(w3, a3)], db3, log3)"
    using load_markets_stops [OF _ u 3, of "[]" "[]"] by (simp add: load_range_def)
  have len: "length (work_units ?M) \<le> length (commitments ?C)" "[?x, ?x, ?x, ?x] = make_minimum_size [] (length (work_units ?M))"
    by (simp_all add: make_minimum_size_def numeral_3_eq_3)
  have div: "divide_ranges [2] (zip (commitments ?C) (zip (work_units ?M) (take (length (work_units ?M)) [?x, ?x, ?x, ?x]))) =
      [] @ ([] @ ?m # [?m]) # [[?m]]"
    by (simp add: numeral_3_eq_3 numeral_2_eq_2)
  have first: "run_ranges (load_range 1 (checker_prices ?C) (checker_tax_rate ?C)) [] (sample_database, Map.empty) = Inr ([], [], sample_database, Map.empty)"
    by simp
  show ?thesis
    using loading_stops_at_success [OF len div _ u first 1 last] by (intro exI conjI) (assumption | simp)+
qed

section \<open>Prices\<close>

text \<open>
  Price keys: a valid price written into a buffer reads back as the same price, and comparing the
  written bytes as \<open>memcmp\<close> does compares the prices.
\<close>

theorem price_bytes_round_trip:
  assumes "is_valid_price p" "is_valid_price q" "6 \<le> length buf"
  shows "\<exists>bp bq. write_price_big_endian buf p = Inr bp \<and> write_price_big_endian buf q = Inr bq \<and>
    read_price_big_endian bp = p \<and> read_price_big_endian bq = q \<and>
    drop 6 bp = drop 6 buf \<and> (memcmp_less (take 6 bp) (take 6 bq) \<longleftrightarrow> p < q)"
proof -
  have "unat r < 256 ^ 6" if "is_valid_price r" for r
    using that by (simp add: is_valid_price_def PRICE_MAX_eq word_le_nat_alt)
  then show ?thesis
    using assms memcmp_less_bytes [of p 6 q] by (simp add: price_encoding_round_trip)
qed

theorem price_bytes_round_trip_witness:
  "\<exists>bp bq. write_price_big_endian (replicate 8 7) 0x1000000 = Inr bp \<and>
    write_price_big_endian (replicate 8 7) 0x2FFFFFF = Inr bq \<and>
    read_price_big_endian bp = 0x1000000 \<and> read_price_big_endian bq = 0x2FFFFFF \<and>
    drop 6 bp = drop 6 (replicate 8 7) \<and>
    (memcmp_less (take 6 bp) (take 6 bq) \<longleftrightarrow> 0x1000000 < (0x2FFFFFF :: u64))"
  by (rule price_bytes_round_trip) (simp_all add: is_valid_price_def PRICE_MAX_eq)

text \<open>
  C16. Conversion at a price ratio: \<open>wide_multiply_val_by_a_over_b\<close>, which multiplies the quotient and the
  remainder of the value by the denominator separately, in 128 bits that wrap, returns the exact quotient
  \<open>val * a div b\<close> whenever that fits in 128 bits and the denominator is not zero.
\<close>

theorem wide_multiply_is_exact:
  assumes "b \<noteq> 0" "unat val * unat a div unat b < 2 ^ 128"
  shows "unat (wide_multiply_val_by_a_over_b val a b) = unat val * unat a div unat b"
  using assms by (rule wide_multiply_exact)

theorem wide_multiply_is_exact_witness:
  "unat (wide_multiply_val_by_a_over_b (2 ^ 90) 3000000000 7) = 2 ^ 90 * 3000000000 div 7"
  using wide_multiply_is_exact [of 7 "2 ^ 90" 3000000000] by simp

section \<open>Balances and accounts\<close>

text \<open>
  C17. Concurrent balance updates: threads run \<open>conditional_transfer_available\<close> (a load and
  compare-and-exchange loop, which may fail spuriously) and \<open>fetch_add\<close> on one balance.  At every
  reachable state the balance is the initial one plus the amounts of the calls that returned true, and
  when only conditional calls run and the balance starts non-negative it stays so.
\<close>

theorem concurrent_transfers_account:
  assumes "race_step\<^sup>*\<^sup>* s s'"
  shows "cell s' = cell s + (total_applied s' - total_applied s) \<and>
    (only_conditional s \<and> \<not> is_negative (cell s) \<longrightarrow> \<not> is_negative (cell s'))"
  using race_accounts [OF assms] race_nonneg [OF assms] by blast

theorem concurrent_transfers_account_witness:
  "\<not> is_negative (cell \<lparr>cell = 1, threads = [Returned (- 4) True, Returned (- 3) False]\<rparr>)"
proof -
  let ?s = "\<lparr>cell = 5, threads = [Loop_head (- 4), Loop_head (- 3)]\<rparr> :: race"
  have 1: "race_step ?s \<lparr>cell = 5, threads = [Loaded (- 4) 5, Loop_head (- 3)]\<rparr>"
    using race_step.load [of 0 ?s "- 4"] by simp
  have 2: "race_step \<lparr>cell = 5, threads = [Loaded (- 4) 5, Loop_head (- 3)]\<rparr>
      \<lparr>cell = 1, threads = [Returned (- 4) True, Loop_head (- 3)]\<rparr>"
    using race_step.exchange [of 0 "\<lparr>cell = 5, threads = [Loaded (- 4) 5, Loop_head (- 3)]\<rparr>" "- 4" 5]
    by (simp add: is_negative_def)
  have 3: "race_step \<lparr>cell = 1, threads = [Returned (- 4) True, Loop_head (- 3)]\<rparr>
      \<lparr>cell = 1, threads = [Returned (- 4) True, Loaded (- 3) 1]\<rparr>"
    using race_step.load [of 1 "\<lparr>cell = 1, threads = [Returned (- 4) True, Loop_head (- 3)]\<rparr>" "- 3"] by simp
  have 4: "race_step \<lparr>cell = 1, threads = [Returned (- 4) True, Loaded (- 3) 1]\<rparr>
      \<lparr>cell = 1, threads = [Returned (- 4) True, Returned (- 3) False]\<rparr>"
    using race_step.refuse [of 1 "\<lparr>cell = 1, threads = [Returned (- 4) True, Loaded (- 3) 1]\<rparr>" "- 3" 1]
    by (simp add: is_negative_def)
  have "race_step\<^sup>*\<^sup>* ?s \<lparr>cell = 1, threads = [Returned (- 4) True, Returned (- 3) False]\<rparr>"
    using 1 2 3 4 by (blast intro: converse_rtranclp_into_rtranclp rtranclp.rtrancl_refl)
  from concurrent_transfers_account [OF this] show ?thesis
    by (simp add: only_conditional_def is_negative_def)
qed

text \<open>
  C18. Progress of the retry loop: among \<open>n\<close> threads no schedule in which an exchange fails only when the cell no
  longer holds the value loaded takes more than \<open>n * (2 * n + 3)\<close> steps, and a schedule can go on until all calls have returned.  Where it
  ends, the cell has changed by exactly the amounts of the calls that returned true; if all calls are conditional
  and it was not negative at the start, it is not negative.
\<close>

theorem transfers_finish:
  assumes "(genuine_step ^^ k) s s'" "n = length (threads s)"
  shows "k \<le> n * (2 * n + 3) \<and> (list_all (\<lambda>t. \<not> unfinished t) (threads s') \<longleftrightarrow> (\<forall>s''. \<not> genuine_step s' s'')) \<and>
    cell s' = cell s + (total_applied s' - total_applied s) \<and> (only_conditional s \<and> \<not> is_negative (cell s) \<longrightarrow> \<not> is_negative (cell s'))"
proof -
  have run: "race_step\<^sup>*\<^sup>* s s'" using genuine_steps_run [OF assms(1)] ..
  have "k \<le> n * (2 * n + 3)" using genuine_steps_work [OF assms(1)] race_work_bound [of s] assms(2) by simp
  moreover have "list_all (\<lambda>t. \<not> unfinished t) (threads s')" if "\<forall>s''. \<not> genuine_step s' s''"
    using that unfinished_can_step [of _ s'] by (auto simp: list_all_length)
  moreover have "\<not> genuine_step s' s''" if r: "list_all (\<lambda>t. \<not> unfinished t) (threads s')" for s''
  proof
    assume "genuine_step s' s''"
    then have "race_step s' s''" by (simp add: genuine_step_def)
    then show False using r by (cases rule: race_step.cases) (auto simp: list_all_length unfinished_def dest: spec)
  qed
  ultimately show ?thesis
    using race_accounts [OF run] race_nonneg [OF run] by blast
qed

theorem transfers_finish_witness:
  "cell \<lparr>cell = 1, threads = [Returned (- 4) True, Returned (- 3) False]\<rparr> = 5 +
     (total_applied \<lparr>cell = 1, threads = [Returned (- 4) True, Returned (- 3) False]\<rparr> - total_applied \<lparr>cell = 5, threads = [Loop_head (- 4), Loop_head (- 3)]\<rparr>) \<and>
   (\<forall>s. \<not> genuine_step \<lparr>cell = 1, threads = [Returned (- 4) True, Returned (- 3) False]\<rparr> s)"
proof -
  let ?s = "\<lparr>cell = 5, threads = [Loop_head (- 4), Loop_head (- 3)]\<rparr> :: race"
    and ?l = "\<lparr>cell = 5, threads = [Loaded (- 4) 5, Loop_head (- 3)]\<rparr> :: race"
    and ?b = "\<lparr>cell = 5, threads = [Loaded (- 4) 5, Loaded (- 3) 5]\<rparr> :: race"
    and ?x = "\<lparr>cell = 1, threads = [Returned (- 4) True, Loaded (- 3) 5]\<rparr> :: race"
    and ?r = "\<lparr>cell = 1, threads = [Returned (- 4) True, Loop_head (- 3)]\<rparr> :: race"
    and ?a = "\<lparr>cell = 1, threads = [Returned (- 4) True, Loaded (- 3) 1]\<rparr> :: race"
    and ?e = "\<lparr>cell = 1, threads = [Returned (- 4) True, Returned (- 3) False]\<rparr> :: race"
  have steps: "race_step ?s ?l" "race_step ?l ?b" "race_step ?b ?x" "race_step ?x ?r" "race_step ?r ?a" "race_step ?a ?e"
    using race_step.load [of 0 ?s "- 4"] race_step.load [of 1 ?l "- 3"] race_step.exchange [of 0 ?b "- 4" 5] race_step.retry [of 1 ?x "- 3" 5]
      race_step.load [of 1 ?r "- 3"] race_step.refuse [of 1 ?a "- 3" 1] by (simp_all add: is_negative_def)
  have "genuine_step ?s ?l" "genuine_step ?l ?b" "genuine_step ?b ?x" "genuine_step ?x ?r" "genuine_step ?r ?a" "genuine_step ?a ?e"
    using steps by (auto simp: genuine_step_def less_Suc_eq)
  then have "(genuine_step ^^ 6) ?s ?e" by (simp add: numeral_eq_Suc relcompp_apply) blast
  from transfers_finish [OF this refl] show ?thesis by (simp add: unfinished_def)
qed

text \<open>
  C19. Rollback of an account: after any sequence of transfers, escrows, conditional operations,
  look-ups and sequence-number reservations, \<open>rollback\<close> gives back every committed balance and the
  last committed sequence number, and no number is reserved.
\<close>

theorem account_rollback_restores:
  "let u' = acct_rollback (fold run_acct_op xs u)
   in (\<forall>a. acct_balance u' a = acct_committed_balance u a) \<and>
      last_committed_id u' = last_committed_id u \<and> reserved u' = {}"
proof -
  have "last_committed_id (acct_rollback v) = last_committed_id v" "reserved (acct_rollback v) = {}" for v
    by (simp_all add: acct_rollback_def reserved_def)
  then show ?thesis by (simp add: acct_rollback_balances run_acct_ops_committed Let_def)
qed

text \<open>
  Commit of an account: after any sequence of operations, \<open>commit\<close> keeps every available balance,
  makes it the committed one, and advances the last committed sequence number past the highest
  reserved one.
\<close>

theorem account_commit_makes_permanent:
  assumes "unat (last_committed_id u) + 256 * 64 < 2 ^ 64"
  shows "let v = fold run_acct_op xs u; u' = acct_commit v
   in (\<forall>a. acct_balance u' a = acct_balance v a \<and> acct_committed_balance u' a = acct_balance v a) \<and>
      reserved u' = {} \<and>
      unat (last_committed_id u') = unat (last_committed_id u) +
        (if reserved v = {} then 0 else 256 * Suc (Max (reserved v)))"
  using assms acct_commit_window [of "fold run_acct_op xs u"]
  by (simp add: acct_commit_balances run_acct_ops_committed Let_def)

theorem account_commit_makes_permanent_witness:
  "let v = fold run_acct_op [Transfer_available 3 100, Reserve 512] (new_user_account 7 [1]); u' = acct_commit v
   in (\<forall>a. acct_balance u' a = acct_balance v a \<and> acct_committed_balance u' a = acct_balance v a) \<and>
      reserved u' = {} \<and>
      unat (last_committed_id u') = unat (last_committed_id (new_user_account 7 [1])) +
        (if reserved v = {} then 0 else 256 * Suc (Max (reserved v)))"
  by (rule account_commit_makes_permanent) (simp add: new_user_account_def)

text \<open>
  C20. A sequence number is used once: in the window of 64 numbers above the last committed one, a
  number that is not reserved can be reserved, then not again; releasing it undoes the reservation;
  and after a commit it is too low.
\<close>

theorem sequence_number_used_once:
  assumes w: "in_window u s j" and free: "j \<notin> reserved u"
    and fit: "unat (last_committed_id u) + 256 * 64 < 2 ^ 64"
  shows "snd (reserve_sequence_number u s) = SUCCESS \<and>
    (let u1 = fst (reserve_sequence_number u s)
     in snd (reserve_sequence_number u1 s) = SEQ_NUM_TEMP_IN_USE \<and>
        snd (reserve_sequence_number (acct_commit u1) s) = SEQ_NUM_TOO_LOW \<and>
        (\<exists>u2. release_sequence_number u1 s = Inr u2 \<and> reserved u2 = reserved u))"
proof -
  define u1 where "u1 = fst (reserve_sequence_number u s)"
  have r: "reserved u1 = insert j (reserved u)" "last_committed_id u1 = last_committed_id u"
    using reserve_in_window [OF w] by (simp_all add: u1_def)
  then have w1: "in_window u1 s j" using w by (simp add: in_window_def)
  show ?thesis
    unfolding u1_def [symmetric] Let_def
    using reserve_in_window(1) [OF w] reserve_in_window(1) [OF w1] release_in_window [OF w1]
      committed_number_too_low [OF w1] free fit r by auto
qed

theorem sequence_number_used_once_witness:
  "snd (reserve_sequence_number (new_user_account 7 [1]) 768) = SUCCESS"
  using sequence_number_used_once [of "new_user_account 7 [1]" 768 2]
  by (simp add: in_window_def reserved_def new_user_account_def)

text \<open>
  C21. Numbers beyond the window: the offset of a sequence number is narrowed to eight bits before it
  is compared with 64, so a number \<open>256 * i\<close> slots beyond slot \<open>j\<close> of the window is accepted in
  place of it, although it lies too far ahead; a commit then advances the window by at most 64 slots.
\<close>

theorem far_sequence_number_accepted:
  assumes "j < 64" "unat s = unat (last_committed_id u) + 256 * (Suc j + 256 * i)" "j \<notin> reserved u"
    and "unat (last_committed_id u) + 256 * 64 < 2 ^ 64"
  shows "snd (reserve_sequence_number u s) = SUCCESS \<and>
    unat (last_committed_id (acct_commit (fst (reserve_sequence_number u s))))
      \<le> unat (last_committed_id u) + 256 * 64"
proof -
  define u1 where "u1 = fst (reserve_sequence_number u s)"
  have r: "snd (reserve_sequence_number u s) = SUCCESS" "reserved u1 = insert j (reserved u)"
    using reserve_far [OF assms(1,2)] assms(3) by (simp_all add: u1_def)
  have "last_committed_id u1 = last_committed_id u" by (simp add: u1_def)
  moreover have "Max (reserved u1) < 64"
    using reserved_less [of _ u1] r(2) by (subst Max_less_iff) (auto intro: finite_subset [of _ "{..<64}"])
  ultimately show ?thesis
    using acct_commit_window(2) [of u1] assms(4) r unfolding u1_def [symmetric] by auto
qed

theorem far_sequence_number_accepted_witness:
  "snd (reserve_sequence_number (new_user_account 7 [1]) (256 * 257)) = SUCCESS"
  using far_sequence_number_accepted [of 0 "256 * 257" "new_user_account 7 [1]" 1]
  by (simp add: reserved_def new_user_account_def)

text \<open>
  One account survives a restart: with at most 255 assets, \<open>produce_commitment\<close> returns a commitment,
  and the account built from it has the committed balances, the same owner, key and last committed
  sequence number.
\<close>

theorem account_restart:
  assumes "length (owned_assets u) \<le> 255"
  shows "\<exists>c u'. produce_commitment u = Some c \<and> account_of_commitment c = Inr u' \<and>
     (\<forall>a. acct_balance u' a = acct_committed_balance u a \<and>
          acct_committed_balance u' a = acct_committed_balance u a) \<and>
     last_committed_id u' = last_committed_id u \<and> acct_owner u' = acct_owner u \<and>
     acct_pk u' = acct_pk u \<and> reserved u' = {}"
  using account_commitment_round_trip [OF assms] produce_commitment_eq [OF assms] by blast

theorem account_restart_witness:
  "\<exists>c u'. produce_commitment (acct_commit (acct_transfer_available (new_user_account 7 [1]) 2 50)) = Some c \<and>
     account_of_commitment c = Inr u' \<and> acct_balance u' 2 = 50"
proof -
  let ?u = "acct_commit (acct_transfer_available (new_user_account 7 [1]) 2 50)"
  have "acct_balance (new_user_account 7 [1]) 2 = 0"
    by (simp add: acct_balance_def asset_at_def new_user_account_def all_assets_def empty_asset_def)
  then have "acct_committed_balance ?u 2 = 50"
    by (simp add: acct_commit_balances account.balance_transfer)
  moreover have "length (owned_assets ?u) \<le> 255"
    by (simp add: acct_commit_def acct_transfer_available_def operate_on_asset_def grow_uncommitted_def
        new_user_account_def Let_def)
  ultimately show ?thesis using account_restart [of ?u] by metis
qed

text \<open>
  C22. The commitment loop counts assets in an 8-bit variable: an account with 256 assets or more makes
  \<open>produce_commitment\<close> run forever.
\<close>

theorem commitment_loop_diverges:
  assumes "256 \<le> length (owned_assets u)"
  shows "produce_commitment u = None"
  using assms by (rule produce_commitment_diverges)

theorem commitment_loop_diverges_witness:
  "produce_commitment (acct_commit (acct_transfer_available (new_user_account 7 [1]) 255 1)) = None"
proof (rule commitment_loop_diverges)
  show "256 \<le> length (owned_assets (acct_commit (acct_transfer_available (new_user_account 7 [1]) 255 1)))"
    by (simp add: acct_commit_def acct_transfer_available_def operate_on_asset_def grow_uncommitted_def
        new_user_account_def Let_def)
qed

section \<open>The Merkle trie\<close>

lemma run_from_empty:
  assumes "0 < n" "fresh_metadata mk" "length zs < 2 ^ 32" "list_all (op_key_ok n) zs" "list_all hash_safe zs"
  shows "\<exists>T. run_ops E ul mk dflt zs empty_trie = Inr T \<and> trie_inv n T \<and> few_leaves T \<and> hash_inv E T \<and>
    leaf_map (root T) = fold (spec_op mk) zs Map.empty"
proof -
  have "card (dom (leaf_map (root (empty_trie :: 'a MerkleTrie)))) + length zs < 2 ^ 32"
    using assms(3) by (simp add: empty_trie_inv)
  from run_ops_refines [OF empty_trie_inv(1) [OF assms(1)] this assms(2,4), of E ul dflt] obtain T
    where "run_ops E ul mk dflt zs empty_trie = Inr T" "trie_inv n T"
      "leaf_map (root T) = fold (spec_op mk) zs (leaf_map (root empty_trie))"
      "card (dom (leaf_map (root T))) \<le> card (dom (leaf_map (root (empty_trie :: 'a MerkleTrie)))) + length zs" "hash_inv E T"
    using assms(5) empty_trie_inv(2) [of E] by blast
  then show ?thesis using assms(3) by (auto simp: few_leaves_def empty_trie_inv)
qed

text \<open>
  C23. The trie implements a map: any program of insertions (overwriting, or flagged for rollback), deletions, marks,
  removal of what is marked and clearing of flags runs without an exception from a well-formed trie, leaves it
  well formed, and changes the association of keys to values and leaf metadata as the specification of each step
  says.  The keys have the length of the trie's, fresh leaves carry no flags, and the leaves at the start and the
  steps are together fewer than \<open>2 ^ 32\<close>.  A program that also hashes starts from a trie whose cached hashes are
  right and contains no \<open>Mark_below\<close>, \<open>Mark_all\<close> or \<open>Clear_marks\<close>, which leave the cached root hash as it was.
\<close>

theorem trie_implements_map:
  assumes "trie_inv n T" "card (dom (leaf_map (root T))) + length xs < 2 ^ 32" "fresh_metadata mk"
    and "list_all (op_key_ok n) xs" "Rehash \<in> set xs \<longrightarrow> hash_inv E T \<and> list_all hash_safe xs"
  shows "\<exists>T'. run_ops E ul mk dflt xs T = Inr T' \<and> trie_inv n T' \<and>
    leaf_map (root T') = fold (spec_op mk) xs (leaf_map (root T))"
  using run_ops_refines [OF assms(1-4), of E ul dflt] assms(5) by blast

theorem trie_implements_map_witness:
  "\<exists>T'. run_ops \<lparr>SHA256 = (\<lambda>m. take 32 (m @ replicate 32 0)), copy_data = (\<lambda>v. []), default_value = 0\<rparr> False size_metadata 0
      [Insert [1, 2] 10, Insert_new [1, 3] (11 :: nat), Rehash, Mark [1, 2], Apply_deletions] empty_trie = Inr T' \<and>
    leaf_map (root T') = [[1, 3] \<mapsto> (11, set_rollback 1 (size_metadata 11))]"
proof -
  let ?E = "\<lparr>SHA256 = (\<lambda>m. take 32 (m @ replicate 32 0)), copy_data = (\<lambda>v. []), default_value = 0\<rparr>" and ?xs = "[Insert [1, 2] 10, Insert_new [1, 3] (11 :: nat), Rehash, Mark [1, 2], Apply_deletions]"
  have "\<exists>T'. run_ops ?E False size_metadata 0 ?xs empty_trie = Inr T' \<and>
    trie_inv 2 T' \<and> leaf_map (root T') = fold (spec_op size_metadata) ?xs (leaf_map (root empty_trie))"
    by (rule trie_implements_map) (simp_all add: empty_trie_inv fresh_metadata_def size_metadata_def)
  moreover have "fold (spec_op size_metadata) ?xs Map.empty = [[1, 3] \<mapsto> (11, set_rollback 1 (size_metadata 11))]"
    by (auto simp: relabel_def live_part_def marking_def size_metadata_def fun_eq_iff split: option.split)
  ultimately show ?thesis by (auto simp: empty_trie_inv)
qed

text \<open>
  C24. The root hash depends on the live contents only: two programs run from the empty trie, with insertions,
  deletions, marks of single keys, removal of what is marked and intermediate hashing in any order, that leave the
  same unmarked key-value pairs give the same root hash.  Neither contains \<open>Mark_below\<close>, \<open>Mark_all\<close> or
  \<open>Clear_marks\<close> (\<open>hash_safe\<close>), after which the cached root hash is stale; each has fewer than \<open>2 ^ 32\<close> steps,
  keys of one length, and fresh leaves without flags.
\<close>

theorem trie_hash_history_independent:
  assumes "0 < n" "fresh_metadata mk" "length xs < 2 ^ 32" "length ys < 2 ^ 32"
    and "list_all (op_key_ok n) xs" "list_all (op_key_ok n) ys" "list_all hash_safe xs" "list_all hash_safe ys"
    and "\<And>k. map_option fst (live_part (fold (spec_op mk) xs Map.empty) k) =
             map_option fst (live_part (fold (spec_op mk) ys Map.empty) k)"
  shows "\<exists>T U h T' U'. run_ops E ul mk dflt xs empty_trie = Inr T \<and> run_ops E ul mk dflt ys empty_trie = Inr U \<and>
    freeze_and_hash E True T = Inr (h, T') \<and> freeze_and_hash E True U = Inr (h, U')"
proof -
  obtain T where T: "run_ops E ul mk dflt xs empty_trie = Inr T" "trie_inv n T" "few_leaves T" "hash_inv E T"
    "leaf_map (root T) = fold (spec_op mk) xs Map.empty" using run_from_empty [OF assms(1,2,3,5,7)] by blast
  obtain U where U: "run_ops E ul mk dflt ys empty_trie = Inr U" "trie_inv n U" "few_leaves U" "hash_inv E U"
    "leaf_map (root U) = fold (spec_op mk) ys Map.empty" using run_from_empty [OF assms(1,2,4,6,8)] by blast
  show ?thesis
    using same_live_same_hash [OF T(2-4) U(2-4)] assms(9) T(1,5) U(1,5) by auto
qed

theorem trie_hash_history_independent_witness:
  "\<exists>T U h T' U'.
    run_ops \<lparr>SHA256 = (\<lambda>m. take 32 (m @ replicate 32 0)), copy_data = (\<lambda>v. []), default_value = 0\<rparr> False size_metadata 0 [Insert [1, 2] 10, Rehash, Insert [3, 1] (7 :: nat), Mark [1, 2]] empty_trie = Inr T \<and>
    run_ops \<lparr>SHA256 = (\<lambda>m. take 32 (m @ replicate 32 0)), copy_data = (\<lambda>v. []), default_value = 0\<rparr> False size_metadata 0 [Insert [3, 1] (7 :: nat)] empty_trie = Inr U \<and>
    freeze_and_hash \<lparr>SHA256 = (\<lambda>m. take 32 (m @ replicate 32 0)), copy_data = (\<lambda>v. []), default_value = 0\<rparr> True T = Inr (h, T') \<and> freeze_and_hash \<lparr>SHA256 = (\<lambda>m. take 32 (m @ replicate 32 0)), copy_data = (\<lambda>v. []), default_value = 0\<rparr> True U = Inr (h, U')"
  by (rule trie_hash_history_independent [where n = 2])
    (auto simp: fresh_metadata_def size_metadata_def live_part_def relabel_def marking_def)

text \<open>
  C25. The root hash commits to the contents: take two well-formed tries with keys of one length, below \<open>2 ^ 16\<close> bits,
  with fewer than \<open>2 ^ 32\<close> leaves of which none is marked, and with cached hashes that are right
  (\<open>hash_inv\<close>).  If the hash function is injective on the byte strings hashed for the two and returns 32 bytes, and
  serialisation is injective, equal root hashes mean equal maps.
\<close>

theorem trie_root_hash_binding:
  assumes "inj_on (SHA256 E) S" "\<forall>x. length (SHA256 E x) = 32" "inj (copy_data E)" "4 * n < 2 ^ 16"
    and T: "trie_inv n T" "few_leaves T" "hash_inv E T" "filter marked (leaves (root T)) = []"
      "insert (root_message E (root T)) (set (hash_inputs E (root T))) \<subseteq> S"
    and U: "trie_inv n U" "few_leaves U" "hash_inv E U" "filter marked (leaves (root U)) = []"
      "insert (root_message E (root U)) (set (hash_inputs E (root U))) \<subseteq> S"
    and "freeze_and_hash E True T = Inr (h, T')" "freeze_and_hash E True U = Inr (h, U')"
  shows "trie_map (root T) = trie_map (root U)"
proof -
  have "trie_digest E (root T) = trie_digest E (root U)"
    using rehash_refines [OF T(1-3)] rehash_refines [OF U(1-3)] assms(15,16) by auto
  then show ?thesis using root_hash_binds [OF assms(1-4) T(1,2,4,5) U(1,2,4,5)] by blast
qed

theorem trie_root_hash_binding_witness:
  "trie_map (root (trie_of (Leaf [1, 2] (5 :: u8) (Metadata 1 0 0 0) None))) =
   trie_map (root (trie_of (Leaf [1, 2] (5 :: u8) (set_rollback 1 (Metadata 1 0 0 0)) None)))"
proof -
  let ?E = "\<lparr>SHA256 = (\<lambda>m. take 32 (m @ replicate 32 0)), copy_data = (\<lambda>v. [v]), default_value = 0\<rparr> :: u8 hash_env"
  let ?t = "Leaf [1, 2] (5 :: u8) (Metadata 1 0 0 0) None" and ?u = "Leaf [1, 2] (5 :: u8) (set_rollback 1 (Metadata 1 0 0 0)) None"
  have sizes: "trie_inv 2 (trie_of ?t)" "trie_inv 2 (trie_of ?u)" "few_leaves (trie_of ?t)" "few_leaves (trie_of ?u)"
    "hash_inv ?E (trie_of ?t)" "hash_inv ?E (trie_of ?u)" "filter marked (leaves ?t) = []" "filter marked (leaves ?u) = []"
    by (simp_all add: trie_inv_def wf_trie_def trie_of_def few_leaves_def leaf_map_def hash_inv_def size_metadata_def
        deleted_count.flagged_def)
  have same: "root_message ?E ?t = root_message ?E ?u" "trie_digest ?E ?t = trie_digest ?E ?u"
    by (simp_all add: root_message_def trie_digest_def size_metadata_def deleted_count.unflagged_def)
  have "root_message ?E ?t = [0, 0, 0, 1] @ digest ?E True ?t"
    by (simp add: root_message_def size_metadata_def deleted_count.unflagged_def) code_simp
  then have inj: "inj_on (SHA256 ?E) (insert (root_message ?E ?t) (set (hash_inputs ?E ?t)))"
    by (simp add: inj_on_def node_header_def) code_simp
  obtain h T' U' where "freeze_and_hash ?E True (trie_of ?t) = Inr (h, T')" "freeze_and_hash ?E True (trie_of ?u) = Inr (h, U')"
    using rehash_refines [OF sizes(1,3,5)] rehash_refines [OF sizes(2,4,6)] same(2) by (auto simp: trie_of_def)
  moreover have "\<forall>x. length (SHA256 ?E x) = 32" by auto
  ultimately show ?thesis
    using trie_root_hash_binding [OF inj _ _ _ sizes(1,3,5) _ _ sizes(2,4,6), of h T' U']
    using sizes(7,8) same(1) by (simp add: trie_of_def inj_def deleted_count.flagged_def)
qed

text \<open>
  C26. Rolling back new keys: from a trie with at least one leaf and no rollback flags, inserting any
  number of absent keys with the rollback flag and then calling \<open>do_rollback\<close> gives back the same
  association of keys to values and metadata.
\<close>

theorem rollback_undoes_insertions:
  assumes inv: "trie_inv n T" and few: "card (dom (leaf_map (root T))) + length kvs < 2 ^ 32" and mk: "fresh_metadata mk"
    and keys: "\<forall>k \<in> fst ` set kvs. length k = n \<and> leaf_map (root T) k = None"
    and old: "\<forall>k v m. leaf_map (root T) k = Some (v, m) \<longrightarrow> num_rollback_subnodes m = 0"
    and ne: "leaf_map (root T) \<noteq> Map.empty"
  shows "\<exists>T1 T2. run_ops E ul mk dflt (map (\<lambda>(k, v). Insert_new k v) kvs) T = Inr T1 \<and>
    trie_do_rollback T1 = Inr T2 \<and> trie_inv n T2 \<and> leaf_map (root T2) = leaf_map (root T)"
proof -
  let ?xs = "map (\<lambda>(k, v). Insert_new k v) kvs"
  have "list_all (op_key_ok n) ?xs" "Rehash \<notin> set ?xs" using keys by (auto simp: list_all_iff)
  then obtain T1 where T1: "run_ops E ul mk dflt ?xs T = Inr T1" "trie_inv n T1"
    "leaf_map (root T1) = fold (spec_op mk) ?xs (leaf_map (root T))" "few_leaves T1"
    using run_ops_refines [OF inv _ mk, of ?xs E ul dflt] few by (auto simp: few_leaves_def)
  have "old_part (leaf_map (root T1)) = leaf_map (root T)"
    unfolding T1(3) using keys old by (intro old_part_inserts) auto
  then show ?thesis using do_rollback_leaf_map [OF T1(2,4)] ne T1(1) by auto
qed

theorem rollback_undoes_insertions_witness:
  "\<exists>T T1 T2. run_ops \<lparr>SHA256 = (\<lambda>m. take 32 (m @ replicate 32 0)), copy_data = (\<lambda>v. []), default_value = 0\<rparr> False size_metadata 0 [Insert [1, 2] (10 :: nat)] empty_trie = Inr T \<and>
    run_ops \<lparr>SHA256 = (\<lambda>m. take 32 (m @ replicate 32 0)), copy_data = (\<lambda>v. []), default_value = 0\<rparr> False size_metadata 0 (map (\<lambda>(k, v). Insert_new k v) [([1, 3], 4), ([2, 2], 5)]) T = Inr T1 \<and>
    trie_do_rollback T1 = Inr T2 \<and> leaf_map (root T2) = leaf_map (root T)"
proof -
  let ?E = "\<lparr>SHA256 = (\<lambda>m. take 32 (m @ replicate 32 0)), copy_data = (\<lambda>v. []), default_value = 0\<rparr>"
  obtain T where T: "run_ops ?E False size_metadata 0 [Insert [1, 2] (10 :: nat)] empty_trie = Inr T" "trie_inv 2 T"
    "leaf_map (root T) = [[1, 2] \<mapsto> (10, size_metadata 10)]"
    using run_from_empty [of 2 size_metadata "[Insert [1, 2] (10 :: nat)]" ?E False 0]
    by (auto simp: fresh_metadata_def size_metadata_def)
  have "\<exists>T1 T2. run_ops ?E False size_metadata 0 (map (\<lambda>(k, v). Insert_new k v) [([1, 3], 4), ([2, 2], 5)]) T = Inr T1 \<and>
    trie_do_rollback T1 = Inr T2 \<and> trie_inv 2 T2 \<and> leaf_map (root T2) = leaf_map (root T)"
    by (rule rollback_undoes_insertions [OF T(2)]) (auto simp: T(3) fresh_metadata_def size_metadata_def)
  then show ?thesis using T(1) by blast
qed

text \<open>
  C27. A trie that holds a single new leaf is not rolled back: \<open>do_rollback\<close> drops the verdict that the
  root itself should be erased.
\<close>

theorem single_leaf_not_rolled_back:
  assumes "k \<noteq> []" "fresh_metadata mk"
  shows "\<exists>T T'. trie_insert (RollbackInsertFn mk dflt) k v empty_trie = Inr T \<and> trie_do_rollback T = Inr T' \<and>
    trie_map (root T') k = Some v"
  using assms
  by (auto simp: trie_insert_def empty_trie_def make_empty_node_def RollbackInsertFn_def Let_def trie_do_rollback_def
      node_do_rollback_def trie_map_def contract_def get_single_child_def fresh_metadata_def)

theorem single_leaf_not_rolled_back_witness:
  "\<exists>T T'. trie_insert (RollbackInsertFn size_metadata 0) [1, 2] (5 :: nat) empty_trie = Inr T \<and>
    trie_do_rollback T = Inr T' \<and> trie_map (root T') [1, 2] = Some 5"
  by (rule single_leaf_not_rolled_back) (simp_all add: fresh_metadata_def size_metadata_def)

text \<open>
  Merging: \<open>merge_in\<close> of one well-formed trie into another does not throw, gives a well-formed
  trie, and its map is the union of the two, the merged-in value winning where both have the key.
\<close>

theorem merge_is_union:
  assumes "trie_inv n T" "few_leaves T" "trie_inv n U" "few_leaves U"
  shows "\<exists>T'. trie_merge_in OverwriteMergeFn U T = Inr T' \<and> trie_inv n T' \<and> root_hash T' = None \<and>
    trie_map (root T') = trie_map (root T) ++ trie_map (root U)"
proof -
  have "merge_values (value_merge OverwriteMergeFn) x y = (case y of None \<Rightarrow> x | Some w \<Rightarrow> Some w)" for x y :: "'a option"
    by (cases x; cases y) (simp_all add: OverwriteMergeFn_def)
  then show ?thesis
    using overwrite_merge.trie_merge_correct [OF assms overwrite_compatible]
    by (fastforce simp: map_add_def fun_eq_iff)
qed

theorem merge_is_union_witness:
  "\<exists>T'. trie_merge_in OverwriteMergeFn (trie_of (Leaf [1, 3] 7 (Metadata 1 0 0 0) None))
      (trie_of (Leaf [1, 2] (5 :: nat) (Metadata 1 0 0 0) None)) = Inr T' \<and>
    trie_map (root T') [1, 3] = Some 7"
proof -
  let ?T = "trie_of (Leaf [1, 2] (5 :: nat) (Metadata 1 0 0 0) None)" and ?U = "trie_of (Leaf [1, 3] (7 :: nat) (Metadata 1 0 0 0) None)"
  have "\<exists>T'. trie_merge_in OverwriteMergeFn ?U ?T = Inr T' \<and> trie_inv 2 T' \<and> root_hash T' = None \<and>
    trie_map (root T') = trie_map (root ?T) ++ trie_map (root ?U)"
    by (rule merge_is_union)
      (simp_all add: trie_inv_def wf_trie_def trie_of_def few_leaves_def leaf_map_def size_metadata_def)
  then show ?thesis by (auto simp: trie_of_def trie_map_def)
qed

text \<open>
  C28. Splitting a book at a key, where every leaf offers a positive amount and all together less than \<open>2 ^ 63\<close>:
  \<open>endow_lt_key\<close> gives exactly the total offered below the key, and \<open>endow_split\<close> at that total moves exactly the
  leaves below the key to the new trie and keeps the others, in a well-formed trie.
\<close>

theorem split_below_key:
  assumes "wf_trie n (root T)" "meta_ok positive_endow (root T)" "length k = n"
    and "endow_total (leaves (root T)) < 2 ^ 63"
  shows "\<exists>threshold S T'. trie_endow_lt_key k T = Inr threshold \<and> trie_endow_split threshold T = Inr (S, T') \<and>
    leaves (root S) = filter (\<lambda>x. key_less (fst x) k) (leaves (root T)) \<and>
    leaves (root T') = filter (\<lambda>x. \<not> key_less (fst x) k) (leaves (root T)) \<and> wf_trie n (root T') \<and>
    sint threshold = endow_total (filter (\<lambda>x. key_less (fst x) k) (leaves (root T)))"
  using assms by (rule split_at_key)

theorem split_below_key_witness:
  "\<exists>threshold S T'. trie_endow_lt_key [1, 3] (trie_of (Inner [1] [(2, Leaf [1, 2] CHR ''a'' (Metadata 1 0 0 40) None),
      (3, Leaf [1, 3] CHR ''b'' (Metadata 1 0 0 2) None)] (Metadata 2 0 0 42) None)) = Inr threshold \<and>
    trie_endow_split threshold (trie_of (Inner [1] [(2, Leaf [1, 2] CHR ''a'' (Metadata 1 0 0 40) None),
      (3, Leaf [1, 3] CHR ''b'' (Metadata 1 0 0 2) None)] (Metadata 2 0 0 42) None)) = Inr (S, T') \<and>
    leaves (root S) = [([1, 2], CHR ''a'', Metadata 1 0 0 40)] \<and> sint threshold = 40"
proof -
  let ?T = "trie_of (Inner [1] [(2, Leaf [1, 2] CHR ''a'' (Metadata 1 0 0 40) None),
      (3, Leaf [1, 3] CHR ''b'' (Metadata 1 0 0 2) None)] (Metadata 2 0 0 42) None)"
  have "\<exists>threshold S T'. trie_endow_lt_key [1, 3] ?T = Inr threshold \<and> trie_endow_split threshold ?T = Inr (S, T') \<and>
    leaves (root S) = filter (\<lambda>x. key_less (fst x) [1, 3]) (leaves (root ?T)) \<and>
    leaves (root T') = filter (\<lambda>x. \<not> key_less (fst x) [1, 3]) (leaves (root ?T)) \<and> wf_trie 2 (root T') \<and>
    sint threshold = endow_total (filter (\<lambda>x. key_less (fst x) [1, 3]) (leaves (root ?T)))"
    by (rule split_below_key) (simp_all add: trie_of_def wf_trie_def ordered_def plus_Metadata_def zero_Metadata_def)
  then show ?thesis by (auto simp: trie_of_def)
qed

text \<open>
  Cleaning the split-off trie: the trie returned by \<open>endow_split\<close> may have nodes with one child on
  the path to the first offer left behind; \<open>clean_singlechild_nodes\<close> along that offer's key keeps its
  leaves and makes it well formed.
\<close>

theorem split_then_clean:
  assumes "wf_trie n (root T)" "meta_ok positive_endow (root T)" "0 \<le> sint threshold"
    and "sint threshold < endow_total (leaves (root T))" "endow_total (leaves (root T)) < 2 ^ 63"
  shows "\<exists>S T'. trie_endow_split threshold T = Inr (S, T') \<and> leaves (root T) = leaves (root S) @ leaves (root T') \<and>
    leaves (root T') \<noteq> [] \<and> endow_total (leaves (root S)) \<le> sint threshold \<and>
    sint threshold < endow_total (leaves (root S)) + leaf_endow (hd (leaves (root T'))) \<and>
    (leaves (root S) \<noteq> [] \<longrightarrow>
      (\<exists>S'. trie_clean_singlechild_nodes (fst (hd (leaves (root T')))) S = Inr S' \<and> wf_trie n (root S') \<and>
        leaves (root S') = leaves (root S)))"
proof -
  obtain S T' A B where r: "trie_endow_split threshold T = Inr (S, T')" "leaves (root T) = A @ B"
    "leaves (root S) = A" "leaves (root T') = B" "wf_trie n (root T')" "endow_total A \<le> sint threshold"
    "B \<noteq> [] \<longrightarrow> sint threshold < endow_total A + leaf_endow (hd B)"
    "S = empty_trie \<or> wf_node n (root S) \<or> B \<noteq> [] \<and> path_loose n (fst (hd B)) (root S)"
    using endow_split_correct [OF assms(1,2) _ assms(3) less_imp_le [OF assms(4)] assms(5)] by blast
  have B: "B \<noteq> []" using r(2,6) assms(4) by auto
  have n: "0 < n" using assms(1) by (simp add: wf_trie_def)
  have "wf_node n (root T')" using r(4,5) B by (auto elim: wf_trie_cases)
  then have "length (fst (hd B)) = n" using leaves_prefix [of n "root T'" "hd B"] B r(4) by auto
  from clean_correct [OF n _ this, of "root S" "root_hash S"]
  have "\<exists>S'. trie_clean_singlechild_nodes (fst (hd B)) S = Inr S' \<and> wf_trie n (root S') \<and> leaves (root S') = A" if "A \<noteq> []"
    using r(3,8) that by (cases S) (auto simp: empty_trie_def)
  then show ?thesis using r B by (intro exI [of _ S] exI [of _ T']) simp
qed

theorem split_then_clean_witness:
  "\<exists>S T' S'. trie_endow_split 41 (trie_of (Inner [1] [(2, Leaf [1, 2] CHR ''a'' (Metadata 1 0 0 40) None), (3, Leaf [1, 3] CHR ''b'' (Metadata 1 0 0 2) None)] (Metadata 2 0 0 42) None)) = Inr (S, T') \<and>
    trie_clean_singlechild_nodes (fst (hd (leaves (root T')))) S = Inr S' \<and> wf_trie 2 (root S')"
proof -
  let ?T = "trie_of (Inner [1] [(2, Leaf [1, 2] CHR ''a'' (Metadata 1 0 0 40) None), (3, Leaf [1, 3] CHR ''b'' (Metadata 1 0 0 2) None)] (Metadata 2 0 0 42) None)"
  have "endow_total (leaves (root ?T)) = 42" by (simp add: trie_of_def)
  moreover have "wf_trie 2 (root ?T)" "meta_ok positive_endow (root ?T)"
    by (simp_all add: trie_of_def wf_trie_def ordered_def plus_Metadata_def zero_Metadata_def)
  ultimately obtain S T' where r: "trie_endow_split 41 ?T = Inr (S, T')" "leaves (root ?T) = leaves (root S) @ leaves (root T')"
    "41 < endow_total (leaves (root S)) + leaf_endow (hd (leaves (root T')))" "leaves (root T') \<noteq> []"
    "leaves (root S) \<noteq> [] \<longrightarrow>
      (\<exists>S'. trie_clean_singlechild_nodes (fst (hd (leaves (root T')))) S = Inr S' \<and> wf_trie 2 (root S') \<and>
        leaves (root S') = leaves (root S))"
    using split_then_clean [of 2 ?T 41] by auto
  have "leaves (root S) \<noteq> []"
  proof
    assume e: "leaves (root S) = []"
    then have "leaves (root T') = leaves (root ?T)" using r(2) by simp
    then show False using r(3) e by (simp add: trie_of_def)
  qed
  then show ?thesis using r(1,5) by blast
qed

text \<open>
  Reading a trie: \<open>contains_key\<close> answers whether the map has the key, and \<open>get_value\<close> returns the
  value of a key that is present.
\<close>

theorem trie_lookup:
  assumes "wf_node n t" "length k = n"
  shows "node_contains_key k t = Inr (trie_map t k \<noteq> None) \<and>
    (\<forall>v. trie_map t k = Some v \<longrightarrow> node_get_value k t = Inr (Some v))"
  using node_contains_key_correct [OF assms] node_get_value_present [OF assms] by blast

theorem trie_lookup_witness:
  "node_contains_key [1, 4] (Inner [1] [(2, Leaf [1, 2] (5 :: nat) 0 None), (3, Leaf [1, 3] 6 0 None)] 0 None) = Inr False"
  using trie_lookup [of 2 "Inner [1] [(2, Leaf [1, 2] (5 :: nat) 0 None), (3, Leaf [1, 3] 6 0 None)] 0 None" "[1, 4]"]
  by (simp add: ordered_def trie_map_def)

text \<open>
  Traversals are in key order: the keys, the values and the calls of \<open>apply\<close> are those of one list
  of pairs, sorted by key, that is the map; \<open>get_lowest_key\<close> is its first key, and \<open>apply_lt_key\<close>
  visits its elements below the bound.
\<close>

theorem trie_traversal_sorted:
  assumes "wf_node n t" "meta_ok unit_size t" "length (leaves t) \<le> 1000000000" "length k = n"
  shows "\<exists>kvs. trie_map t = map_of kvs \<and> sorted_wrt key_less (map fst kvs) \<and>
    node_accumulate_keys t = map fst kvs \<and> node_accumulate_values t = Inr (map snd kvs) \<and>
    node_apply t = map snd kvs \<and> node_get_lowest_key t = Some (fst (hd kvs)) \<and>
    node_apply_lt_key k t = Inr (map snd (filter (\<lambda>x. key_less (fst x) k) kvs))"
proof -
  have "map (\<lambda>x. fst (snd x)) (lt_leaves k t) = map snd (filter (\<lambda>x. key_less (fst x) k) (contents t))"
    by (simp add: lt_leaves_def contents_leaves filter_map comp_def)
  then show ?thesis
    using contents_ascending [OF assms(1)] node_apply_lt_key_correct [OF assms(1,4)] node_get_lowest_key_correct [OF assms(1)]
    by (intro exI [of _ "contents t"])
      (simp add: trie_map_def ascending_def node_accumulate_keys_correct node_accumulate_values_correct [OF assms(2,3)]
        node_apply_correct)
qed

theorem trie_traversal_sorted_witness:
  "\<exists>kvs. trie_map (Inner [1] [(2, Leaf [1, 2] CHR ''a'' (Metadata 1 0 0 40) None), (3, Leaf [1, 3] CHR ''b'' (Metadata 1 0 0 2) None)] (Metadata 2 0 0 42) None) = map_of kvs \<and> node_accumulate_keys (Inner [1] [(2, Leaf [1, 2] CHR ''a'' (Metadata 1 0 0 40) None), (3, Leaf [1, 3] CHR ''b'' (Metadata 1 0 0 2) None)] (Metadata 2 0 0 42) None) = map fst kvs \<and>
    node_apply_lt_key [1, 3] (Inner [1] [(2, Leaf [1, 2] CHR ''a'' (Metadata 1 0 0 40) None), (3, Leaf [1, 3] CHR ''b'' (Metadata 1 0 0 2) None)] (Metadata 2 0 0 42) None) = Inr (map snd (filter (\<lambda>x. key_less (fst x) [1, 3]) kvs))"
  using trie_traversal_sorted [of 2 "(Inner [1] [(2, Leaf [1, 2] CHR ''a'' (Metadata 1 0 0 40) None), (3, Leaf [1, 3] CHR ''b'' (Metadata 1 0 0 2) None)] (Metadata 2 0 0 42) None)" "[1, 3]"]
  by (fastforce simp: ordered_def plus_Metadata_def zero_Metadata_def simp del: node_accumulate_keys.simps node_apply_lt_key.simps)

text \<open>
  Inserting an absent key and deleting it again returns the inserted value, and restores both the
  map and the root hash.
\<close>

theorem insert_delete_round_trip:
  assumes inv: "trie_inv n T" and few: "Suc (card (dom (leaf_map (root T)))) < 2 ^ 32" and hash: "hash_inv E T"
    and mk: "fresh_metadata mk" and k: "length k = n" "leaf_map (root T) k = None"
  shows "\<exists>T1 T2 h T' T2'. trie_insert (OverwriteInsertFn mk dflt) k v T = Inr T1 \<and>
    trie_perform_deletion k T1 = Inr (Some v, T2) \<and> leaf_map (root T2) = leaf_map (root T) \<and>
    freeze_and_hash E True T = Inr (h, T') \<and> freeze_and_hash E True T2 = Inr (h, T2')"
proof -
  have few': "few_leaves T" using few by (simp add: few_leaves_def)
  have step: "op_key_ok n (Insert k v)" "Insert k v = Rehash \<Longrightarrow> hash_inv E T" using k by simp_all
  obtain T1 where T1: "trie_insert (OverwriteInsertFn mk dflt) k v T = Inr T1"
    "refines n T T1 (spec_op mk (Insert k v) (leaf_map (root T)))" "hash_inv E T1"
    using run_op_refines [OF inv few' mk step, of False dflt] hash by auto
  have inv1: "trie_inv n T1" "leaf_map (root T1) = (leaf_map (root T))(k \<mapsto> (v, mk v))" using T1(2) by (simp_all add: refines_def)
  have few1: "few_leaves T1" using refines_few [OF inv T1(2)] few by (simp add: few_leaves_def)
  obtain T2 where T2: "trie_perform_deletion k T1 = Inr (trie_map (root T1) k, T2)"
    "refines n T1 T2 ((leaf_map (root T1))(k := None))" "hash_inv E T2"
    using deletion_refines [OF inv1(1) k(1) few1, of E] T1(3) by blast
  have inv2: "trie_inv n T2" "leaf_map (root T2) = leaf_map (root T)"
    using T2(2) inv1(2) k(2) by (auto simp: refines_def fun_upd_idem)
  moreover have "few_leaves T2" using few' inv2(2) by (simp add: few_leaves_def)
  moreover have "trie_map (root T1) k = Some v" using inv1(2) by (simp add: trie_map_leaf_map)
  ultimately show ?thesis
    using same_live_same_hash [OF inv few' hash inv2(1) _ T2(3)] T1(1) T2(1) by auto
qed

theorem insert_delete_round_trip_witness:
  "\<exists>T1 T2 h T' T2'. trie_insert (OverwriteInsertFn size_metadata 0) [1, 2] (5 :: u8) empty_trie = Inr T1 \<and>
    trie_perform_deletion [1, 2] T1 = Inr (Some 5, T2) \<and> leaf_map (root T2) = leaf_map (root empty_trie) \<and>
    freeze_and_hash \<lparr>SHA256 = (\<lambda>m. take 32 (m @ replicate 32 0)), copy_data = (\<lambda>v. [v]), default_value = 0\<rparr> True empty_trie = Inr (h, T') \<and> freeze_and_hash \<lparr>SHA256 = (\<lambda>m. take 32 (m @ replicate 32 0)), copy_data = (\<lambda>v. [v]), default_value = 0\<rparr> True T2 = Inr (h, T2')"
  by (rule insert_delete_round_trip [where n = 2]) (simp_all add: empty_trie_inv fresh_metadata_def size_metadata_def)

text \<open>
  The order of a book: \<open>generate_key\<close> never fails on a price in range, and the order of the keys
  of two offers, which is the order every traversal and split of the book follows, is by price, then
  owner, then identifier; no two offers share a key.
\<close>

theorem offers_sorted_by_price:
  assumes "is_valid_price (minPrice x)" "is_valid_price (minPrice y)"
  shows "\<exists>k l. generate_offer_key x = Inr k \<and> generate_offer_key y = Inr l \<and>
    (key_less k l \<longleftrightarrow> minPrice x < minPrice y \<or> minPrice x = minPrice y \<and>
       (offer_owner x < offer_owner y \<or> offer_owner x = offer_owner y \<and> offerId x < offerId y)) \<and>
    (k = l \<longleftrightarrow> minPrice x = minPrice y \<and> offer_owner x = offer_owner y \<and> offerId x = offerId y)"
  using offer_key_less [OF assms] offer_key_inject [OF assms] by simp

theorem offers_sorted_by_price_witness:
  "\<exists>k l. generate_offer_key \<lparr>category = \<lparr>sellAsset = 0, buyAsset = 1, offerType = SELL\<rparr>, offerId = 256, offer_owner = 9, amount = 5, minPrice = 0x1000000\<rparr> = Inr k \<and>
     generate_offer_key \<lparr>category = \<lparr>sellAsset = 0, buyAsset = 1, offerType = SELL\<rparr>, offerId = 512, offer_owner = 3, amount = 5, minPrice = 0x1000001\<rparr> = Inr l \<and> key_less k l"
  using offers_sorted_by_price [of "\<lparr>category = \<lparr>sellAsset = 0, buyAsset = 1, offerType = SELL\<rparr>, offerId = 256, offer_owner = 9, amount = 5, minPrice = 0x1000000\<rparr>"
      "\<lparr>category = \<lparr>sellAsset = 0, buyAsset = 1, offerType = SELL\<rparr>, offerId = 512, offer_owner = 3, amount = 5, minPrice = 0x1000001\<rparr>"]
  by (fastforce simp: is_valid_price_def PRICE_MAX_eq)

section \<open>The account database\<close>

text \<open>
  C29. Committing new accounts keeps the index: \<open>commit_new_accounts\<close> succeeds, the two index maps
  stay exactly the positions of the accounts in the two vectors, every index handed out before stays
  valid and names the same account, and the account a new identifier got provisionally is the one it
  has from now on.
\<close>

theorem new_accounts_keep_index:
  assumes "db_inv db" "trie_keys_ok db" "creation_ready block db"
  shows "\<exists>db'. commit_new_accounts block db = Inr db' \<and> db_inv db' \<and> trie_keys_ok db' \<and>
    (\<forall>a i. lookup_user_id db a = Some i \<longrightarrow> lookup_user_id db' a = Some i \<and> database db' ! i = database db ! i) \<and>
    (\<forall>a i. uncommitted_idx_map db a = Some i \<longrightarrow> lookup_user_id db' a = Some i \<and>
       database db' ! i = acct_commit (uncommitted_db db ! (i - length (database db))))"
proof -
  obtain db' where c: "commit_new_accounts block db = Inr db'" using commit_new_accounts_correct [OF assms] by blast
  show ?thesis using c commit_new_accounts_inv [OF assms(1,2) c assms(3)] by blast
qed

theorem new_accounts_keep_index_witness:
  "\<exists>db'. commit_new_accounts 1 (commit_account_creation 7 (new_user_account 7 [1]) empty_database) = Inr db' \<and>
     lookup_user_id db' 7 = Some 0"
proof -
  let ?db = "commit_account_creation 7 (new_user_account 7 [1]) empty_database"
  have "db_inv ?db"
    by (auto simp: db_inv_def indexes_def commit_account_creation_def empty_database_def new_user_account_def)
  moreover have "trie_keys_ok ?db" "creation_ready 1 ?db"
    by (simp_all add: trie_keys_ok_def creation_ready_def commit_account_creation_def empty_database_def block_number_mismatch_def
        empty_trie_inv representable_def new_user_account_def all_assets_def)
  ultimately show ?thesis
    using new_accounts_keep_index [of ?db 1] by (fastforce simp: commit_account_creation_def empty_database_def)
qed

text \<open>
  C30. Rolling back a block that created accounts: committing them and then rolling back to an earlier
  block restores the accounts, the index, the creation log and the contents of the commitment trie;
  what was provisional is gone.
\<close>

theorem account_creation_rolled_back:
  assumes "db_inv db" "trie_keys_ok db" "creation_ready block db"
    and "list_all (\<lambda>th. creation_block th \<le> target) (account_creation_thunks db)" "target < block"
  shows "\<exists>db1 T2. commit_new_accounts block db = Inr db1 \<and>
    rollback_new_accounts target db1 = Inr (clear_internal_data_structures (db\<lparr>commitment_trie := T2\<rparr>)) \<and>
    trie_inv 16 T2 \<and> leaf_map (root T2) = leaf_map (root (commitment_trie db))"
  using commit_then_rollback [OF assms] by blast

theorem account_creation_rolled_back_witness:
  "\<exists>db1 T2. commit_new_accounts 1 (commit_account_creation 7 (new_user_account 7 [1]) empty_database) = Inr db1 \<and>
    rollback_new_accounts 0 db1 = Inr (clear_internal_data_structures
      ((commit_account_creation 7 (new_user_account 7 [1]) empty_database)\<lparr>commitment_trie := T2\<rparr>))"
proof -
  let ?db = "commit_account_creation 7 (new_user_account 7 [1]) empty_database"
  have "db_inv ?db"
    by (auto simp: db_inv_def indexes_def commit_account_creation_def empty_database_def new_user_account_def)
  moreover have "trie_keys_ok ?db" "creation_ready 1 ?db"
    by (simp_all add: trie_keys_ok_def creation_ready_def commit_account_creation_def empty_database_def block_number_mismatch_def
        empty_trie_inv representable_def new_user_account_def all_assets_def)
  moreover have "account_creation_thunks ?db = []" by (simp add: commit_account_creation_def empty_database_def)
  ultimately show ?thesis using account_creation_rolled_back [of ?db 1 0] by fastforce
qed

text \<open>
  The validity check of the whole database never rejects a committed account: whatever the
  schedule of the parallel reduction, a range with an invalid account returns before it records the
  failure, so the answer depends on the uncommitted accounts only.
\<close>

theorem check_valid_state_skips_committed:
  "check_valid_state schedule db \<longleftrightarrow> list_all acct_in_valid_state (uncommitted_db db)"
  by (rule check_valid_state_eq)

text \<open>
  The check of the accounts a block touched does see them: it answers whether every touched
  account and every uncommitted account has no negative balance.
\<close>

theorem check_valid_state_of_log:
  assumes "set dirty \<subseteq> dom (user_id_to_idx_map db)" "db_inv db"
  shows "check_valid_state_log dirty db = Inr
    ((\<forall>a \<in> set dirty. \<forall>i. lookup_user_id db a = Some i \<longrightarrow> acct_in_valid_state (database db ! i)) \<and>
     list_all acct_in_valid_state (uncommitted_db db))"
  using assms by (rule check_valid_state_log_eq)

theorem check_valid_state_of_log_witness:
  "check_valid_state_log [7] (empty_database\<lparr>user_id_to_idx_map := [7 \<mapsto> 0],
     database := [acct_transfer_available (new_user_account 7 [1]) 2 (- 5)]\<rparr>) = Inr False"
proof -
  let ?db = "empty_database\<lparr>user_id_to_idx_map := [7 \<mapsto> 0],
     database := [acct_transfer_available (new_user_account 7 [1]) 2 (- 5)]\<rparr>"
  have "db_inv ?db"
    using acct_frame_ops(1) [of "new_user_account 7 [1]" 2 "- 5"] by (auto simp: db_inv_def indexes_def empty_database_def acct_frame_def)
  moreover have "\<not> acct_in_valid_state (acct_transfer_available (new_user_account 7 [1]) 2 (- 5))" by code_simp
  ultimately show ?thesis
    using check_valid_state_of_log [of "[7]" ?db] by (simp add: empty_database_def lookup_user_id_def)
qed

section \<open>State hashes and the accounts on disk\<close>

text \<open>One account, created in block one.\<close>

definition sample_hash_env :: "AccountCommitment hash_env" where
  "sample_hash_env = \<lparr>SHA256 = (\<lambda>m. take 32 (m @ replicate 32 0)), copy_data = (\<lambda>v. []),
     default_value = \<lparr>commit_owner = 0, commit_assets = [], commit_last_committed_id = 0, commit_pk = []\<rparr>\<rparr>"

definition one_account :: MemoryDatabase where
  "one_account = commit_account_creation 7 (new_user_account 7 [1]) empty_database"

definition one_log :: "work_root list" where
  "one_log = [([], [7])]"

lemma one_account_sel:
  "database one_account = []" "uncommitted_db one_account = [new_user_account 7 [1]]" "user_id_to_idx_map one_account = Map.empty"
  "uncommitted_idx_map one_account = [7 \<mapsto> 0]" "account_creation_thunks one_account = []" "persisted_round_number one_account = 0"
  "account_commitments one_account = Map.empty"
  by (auto simp: one_account_def commit_account_creation_def empty_database_def account_commitments_def)

lemma one_account_ready:
  "committed_inv E one_account" "creation_ready 1 one_account" "logged {7} one_account" "covers one_log {7}"
proof -
  have "acct_owner (new_user_account 7 [1]) = 7" by (simp add: new_user_account_def)
  then show "committed_inv E one_account"
    using committed_inv_creation [OF committed_inv_empty [of E], of "new_user_account 7 [1]"] by (simp add: one_account_def) (simp add: empty_database_def)
  show "creation_ready 1 one_account"
    by (simp add: creation_ready_def one_account_def commit_account_creation_def empty_database_def block_number_mismatch_def
        empty_trie_inv representable_def new_user_account_def all_assets_def)
  show "logged {7} one_account" by (simp add: logged_def one_account_sel)
  show "covers one_log {7}" by (simp add: covers_def one_log_def)
qed

text \<open>
  C31. Producer and validator have the same state hash: the validator, which hashes the accounts before it commits
  their balances, and the producer, which commits them first, get the same hash of the accounts for one block, whatever
  parts their logs of modified accounts are divided into; then they hold the same accounts and a trie of their commitments.
\<close>

theorem state_hash_agrees:
  assumes "committed_inv E db" "creation_ready block db" "logged A db" "covers log A" "covers log' A"
  shows "\<exists>h r1 db1 r2 db2 r3 db3 p0 p1 p2. auto_commit_for_validation (new_auto_rollback block, db) = Inr (r1, db1) \<and>
    auto_produce_state_commitment E log (r1, db1) = Inr (h, r2, db2) \<and> auto_finalize_commit (r2, db2) = Inr (r3, db3) \<and>
    commit_new_accounts block db = Inr p0 \<and> commit_values_log (concat (map snd log')) p0 = Inr p1 \<and>
    produce_state_commitment E log' p1 = Inr (h, p2) \<and>
    database db3 = database p2 \<and> user_id_to_idx_map db3 = user_id_to_idx_map p2 \<and> committed_inv E db3 \<and> committed_inv E p2"
  using assms by (rule validator_and_producer)

theorem state_hash_agrees_witness:
  "\<exists>h r1 db1 r2 db2 p0 p1 p2. auto_commit_for_validation (new_auto_rollback 1, one_account) = Inr (r1, db1) \<and>
    auto_produce_state_commitment sample_hash_env one_log (r1, db1) = Inr (h, r2, db2) \<and>
    commit_new_accounts 1 one_account = Inr p0 \<and> commit_values_log [7] p0 = Inr p1 \<and>
    produce_state_commitment sample_hash_env one_log p1 = Inr (h, p2)"
  using state_hash_agrees [OF one_account_ready(1) [of sample_hash_env] one_account_ready(2-4) one_account_ready(4)] by (auto simp: one_log_def)

text \<open>
  C32. The state hash is a function of the accounts: the trie built from all accounts, in whatever ranges they are
  inserted, has the hash of the trie that was brought up to date block by block.
\<close>

theorem rebuilt_state_hash:
  assumes "committed_inv E db" "\<forall>(b, e) \<in> set ranges. e \<le> length (database db)"
    "\<forall>i < length (database db). \<exists>(b, e) \<in> set ranges. b \<le> i \<and> i < e"
  shows "\<exists>h db1 T. commitment_freeze_and_hash E db = Inr (h, db1) \<and>
    rebuild_state_commitment E ranges (db\<lparr>commitment_trie := empty_trie\<rparr>) = Inr (h, db\<lparr>commitment_trie := T\<rparr>) \<and>
    committed_inv E (db\<lparr>commitment_trie := T\<rparr>)"
  using assms by (rule rebuilt_hash)

theorem rebuilt_state_hash_witness:
  "\<exists>db1 h db2 T. commit_new_accounts 1 one_account = Inr db1 \<and> length (database db1) = 1 \<and>
    commitment_freeze_and_hash sample_hash_env db1 = Inr (h, db2) \<and>
    rebuild_state_commitment sample_hash_env [(0, 1)] (db1\<lparr>commitment_trie := empty_trie\<rparr>) = Inr (h, db1\<lparr>commitment_trie := T\<rparr>)"
proof -
  obtain db1 where db1: "commit_new_accounts 1 one_account = Inr db1" "length (database db1) = 1"
    using commit_new_accounts_committed(1) [OF one_account_ready(1,2)]
    by (auto simp: clear_internal_data_structures_def one_account_sel)
  have "committed_inv sample_hash_env db1" by (rule commit_new_accounts_committed(2) [OF one_account_ready(1,2) db1(1)])
  from rebuilt_state_hash [OF this, of "[(0, 1)]"] show ?thesis using db1 by fastforce
qed

text \<open>
  C33. A failed validation cannot be repeated: after \<open>commit_for_validation\<close> and \<open>produce_state_commitment\<close> the
  rollback restores the balances, the index and the trie of commitments for the accounts there are, but the
  accounts the block created stay, and the next attempt to commit the new accounts of a block of this number throws.
\<close>

theorem failed_validation_blocks_retry:
  assumes "committed_inv E db" "creation_ready block db" "logged A db" "covers log A"
    and "list_all (\<lambda>th. creation_block th \<le> block) (account_creation_thunks db)" "block \<noteq> 0"
  shows "\<exists>h r1 db1 r2 db2 db3. auto_commit_for_validation (new_auto_rollback block, db) = Inr (r1, db1) \<and>
    auto_produce_state_commitment E log (r1, db1) = Inr (h, r2, db2) \<and> auto_rollback r2 db2 = Inr db3 \<and>
    committed_inv E db3 \<and> database db3 = map acct_rollback (database db1) \<and>
    dom (user_id_to_idx_map db3) = dom (user_id_to_idx_map db) \<union> dom (uncommitted_idx_map db) \<and>
    commit_new_accounts block db3 = Inl (Runtime_error ''account creation thunks block number error'')"
proof -
  obtain h r1 db1 r2 db2 db3 where f: "auto_commit_for_validation (new_auto_rollback block, db) = Inr (r1, db1)"
    "auto_produce_state_commitment E log (r1, db1) = Inr (h, r2, db2)" "auto_rollback r2 db2 = Inr db3"
    "committed_inv E db3" "database db3 = map acct_rollback (database db1)" "user_id_to_idx_map db3 = user_id_to_idx_map db1"
    "account_creation_thunks db3 = account_creation_thunks db @ [\<lparr>creation_block = block, num_accounts_created = length (uncommitted_db db)\<rparr>]"
    using failed_validation [OF assms] by blast
  have "commit_new_accounts block db = Inr db1" using f(1) by (auto simp: auto_commit_for_validation_def new_auto_rollback_def res_bind_eq_Inr)
  then have "user_id_to_idx_map db1 = uncommitted_idx_map db ++ user_id_to_idx_map db"
    using commit_new_accounts_committed(1) [OF assms(1,2)] by (auto simp: clear_internal_data_structures_def)
  then have "dom (user_id_to_idx_map db1) = dom (user_id_to_idx_map db) \<union> dom (uncommitted_idx_map db)" by simp
  then show ?thesis using f creation_recorded [OF f(7) assms(6)] by auto
qed

theorem failed_validation_blocks_retry_witness:
  "\<exists>h r1 db1 r2 db2 db3. auto_commit_for_validation (new_auto_rollback 1, one_account) = Inr (r1, db1) \<and>
    auto_produce_state_commitment sample_hash_env one_log (r1, db1) = Inr (h, r2, db2) \<and> auto_rollback r2 db2 = Inr db3 \<and>
    dom (user_id_to_idx_map db3) = {7} \<and> commit_new_accounts 1 db3 = Inl (Runtime_error ''account creation thunks block number error'')"
  using failed_validation_blocks_retry [OF one_account_ready(1) [of sample_hash_env] one_account_ready(2-4)] by (auto simp: one_account_sel)

text \<open>
  C34. Accounts survive a restart: after any run of transactions, blocks and writes of pending blocks, the table loads
  as the accounts of the last block written, with the commitments they had when that block was made and a trie
  of these; with no block pending the state hash is the one before the restart.  The database is a parameter
  that behaves as a map.
\<close>

theorem accounts_survive_restart:
  assumes "lmdb_laws n L" "store_run L E h s" "r = lmdb_round (account_lmdb s)"
    and "\<forall>(b, e) \<in> set ranges. e \<le> card (dom (h r))" "\<forall>i < card (dom (h r)). \<exists>(b, e) \<in> set ranges. b \<le> i \<and> i < e"
  shows "\<exists>s'. restart_accounts L E ranges (account_lmdb s) = Inr s' \<and> lmdb_round (account_lmdb s') = r \<and>
    account_commitments (memory s') = h r \<and> committed_inv E (memory s') \<and>
    (persistence_thunks s = [] \<longrightarrow> (\<exists>hash m m'. commitment_freeze_and_hash E (memory s) = Inr (hash, m) \<and>
       commitment_freeze_and_hash E (memory s') = Inr (hash, m')))"
proof -
  have "store_inv L E h s" by (rule store_run_inv [OF assms(2,1)])
  from restart_store [OF assms(1) this assms(3-5)] obtain s' where s':
    "restart_accounts L E ranges (account_lmdb s) = Inr s'" "store_inv L E (\<lambda>b. h r) s'" "account_commitments (memory s') = h r"
    "lmdb_round (account_lmdb s') = r" "persistence_thunks s = [] \<longrightarrow> (\<exists>hash m m'. commitment_freeze_and_hash E (memory s) = Inr (hash, m) \<and>
       commitment_freeze_and_hash E (memory s') = Inr (hash, m'))" by blast
  have "committed_inv E (memory s')" using s'(2) by (simp add: store_inv_def Let_def)
  then show ?thesis using s' by blast
qed

lemma one_store_run:
  "\<exists>h s. store_run list_lmdb E h s \<and> lmdb_round (account_lmdb s) = 1 \<and> persistence_thunks s = [] \<and> h 1 7 \<noteq> None"
proof -
  let ?I = "\<lparr>table = [] :: (byte list \<times> AccountCommitment) list, meta_round = Some 0, env_open = True, lmdb_round = 0\<rparr>" and ?h = "\<lambda>b. account_commitments empty_database"
  let ?start = "\<lparr>memory = empty_database, account_lmdb = ?I, persistence_thunks = []\<rparr>" and ?s = "\<lparr>memory = one_account, account_lmdb = ?I, persistence_thunks = []\<rparr>"
  have e: "account_commitments empty_database = Map.empty" "account_creation_thunks empty_database = []" "persisted_round_number empty_database = 0"
    by (auto simp: empty_database_def account_commitments_def)
  have "table_holds list_lmdb (account_commitments empty_database) []" by (simp add: table_holds_def disk_map_def list_lmdb_def e)
  then have "store_run list_lmdb E ?h ?start" using e by (intro store_run.start committed_inv_empty)
  from store_run.work [OF this one_account_ready(1)] have run: "store_run list_lmdb E ?h ?s" by (simp add: e one_account_sel)
  have ready: "creation_ready 1 (memory ?s)" "(1 :: u64) \<noteq> 0" "logged {7} (memory ?s)" "dom (uncommitted_idx_map (memory ?s)) \<subseteq> {7}"
    using one_account_ready(2,3) by (simp_all add: one_account_sel)
  obtain hash s1 where s1: "account_block E 1 one_log [7] ?s = Inr (hash, s1)"
    using block_store [OF store_run_inv [OF run list_lmdb_laws [of 8]] ready one_account_ready(4), of "[7]"] by auto
  then obtain db where db: "add_persistence_thunk 1 [7] (?s\<lparr>memory := db\<rparr>) = Inr s1" by (auto simp: account_block_def res_bind_eq_Inr)
  then obtain kv where kv: "assign_kv db 7 = Inr kv" "persistence_thunks s1 = [\<lparr>thunk_kvs = [kv], kvs_block_number = 1\<rparr>]" "memory s1 = db"
    by (auto simp: add_persistence_thunk_def res_bind_eq_Inr)
  have "account_commitments (memory s1) 7 \<noteq> None"
    using kv(1) by (auto simp: assign_kv_def lookup_user_id_def kv(3) account_commitments_def split: option.splits)
  moreover have run1: "store_run list_lmdb E (?h(1 := account_commitments (memory s1))) s1"
    using store_run.block [OF run ready one_account_ready(4) _ s1] by simp
  moreover obtain s2 where s2: "commit_persistence_thunks list_lmdb 1 s1 = Inr s2" "lmdb_round (account_lmdb s2) = 1"
    using persist_pending [OF list_lmdb_laws [of 8] store_run_inv [OF run1 list_lmdb_laws [of 8]], of "\<lparr>thunk_kvs = [kv], kvs_block_number = 1\<rparr>"] by (auto simp: kv(2))
  moreover have "persistence_thunks s2 = []"
    using s2(1) by (auto simp: commit_persistence_thunks_def Let_def kv(2) set_persisted_round_def res_bind_eq_Inr split: if_splits prod.splits)
  ultimately show ?thesis using store_run.persist [OF run1 s2(1)] by (intro exI [of _ "?h(1 := account_commitments (memory s1))"] exI [of _ s2]) simp
qed

theorem accounts_survive_restart_witness:
  "\<exists>h s s' n. store_run list_lmdb sample_hash_env h s \<and> restart_accounts list_lmdb sample_hash_env [(0, n)] (account_lmdb s) = Inr s' \<and>
    lmdb_round (account_lmdb s') = 1 \<and> account_commitments (memory s') = h 1 \<and> h 1 7 \<noteq> None \<and>
    (\<exists>hash m m'. commitment_freeze_and_hash sample_hash_env (memory s) = Inr (hash, m) \<and>
       commitment_freeze_and_hash sample_hash_env (memory s') = Inr (hash, m'))"
proof -
  obtain h s where s: "store_run list_lmdb sample_hash_env h s" "lmdb_round (account_lmdb s) = 1" "persistence_thunks s = []" "h 1 7 \<noteq> None"
    using one_store_run [of sample_hash_env] by blast
  from accounts_survive_restart [OF list_lmdb_laws [of 8] s(1) refl, of "[(0, card (dom (h 1)))]"] show ?thesis using s by fastforce
qed

text \<open>
  C35. A replayed block is written without its changes: the replay commits the new accounts of a block and calls
  \<open>persist_lmdb\<close> before the balances are committed.  The disk then has the number of the block and, for every account
  there was, the commitment from before it, and so has a node that restarts; the node that replayed goes on
  with the balances the block left.
\<close>

theorem replay_written_without_changes:
  assumes "lmdb_laws n L" "committed_inv E db" "creation_ready block db"
    and "env_open I" "table_holds L f (table I)" "lmdb_round I \<le> block" "dom f \<subseteq> dom (user_id_to_idx_map db)"
  shows "\<exists>db1 s'. commit_new_accounts block db = Inr db1 \<and>
    db_persist_lmdb L block \<lparr>memory = db1, account_lmdb = I, persistence_thunks = []\<rparr> = Inr s' \<and>
    (\<exists>s''. restart_accounts L E [(0, length (database db1))] (account_lmdb s') = Inr s'' \<and> persisted_round_number (memory s'') = block \<and>
       (\<forall>a \<in> dom (user_id_to_idx_map db). account_commitments (memory s'') a = account_commitments db a)) \<and>
    (\<forall>a \<in> dom (user_id_to_idx_map db). account_commitments (commit_values (memory s')) a = pending db a)"
proof -
  obtain db1 where db1: "commit_new_accounts block db = Inr db1" and new: "database db1 = database db @ map acct_commit (uncommitted_db db)"
    "user_id_to_idx_map db1 = uncommitted_idx_map db ++ user_id_to_idx_map db"
    using commit_new_accounts_committed(1) [OF assms(2,3)] by (auto simp: clear_internal_data_structures_def)
  have inv: "committed_inv E db1" by (rule commit_new_accounts_committed(2) [OF assms(2,3) db1])
  have "dom f \<subseteq> dom (user_id_to_idx_map db1)" using assms(7) by (auto simp: new(2))
  from persist_uncommitted [OF assms(1) inv assms(4,5,6) this] obtain s' where s':
    "db_persist_lmdb L block \<lparr>memory = db1, account_lmdb = I, persistence_thunks = []\<rparr> = Inr s'"
    "store_inv L E (\<lambda>b. account_commitments db1) (s'\<lparr>memory := (memory s')\<lparr>account_creation_thunks := []\<rparr>\<rparr>)" (is "store_inv L E _ ?t")
    "lmdb_round (account_lmdb s') = block" "account_commitments (commit_values (memory s')) = pending db1" by blast
  have card: "card (dom (account_commitments db1)) = length (database db1)"
    using database_card [of db1] inv by (simp add: committed_inv_def)
  from restart_store [OF assms(1) s'(2), of block "[(0, length (database db1))]"] obtain s'' where s'':
    "restart_accounts L E [(0, length (database db1))] (account_lmdb s') = Inr s''" "store_inv L E (\<lambda>b. account_commitments db1) s''"
    "account_commitments (memory s'') = account_commitments db1" "lmdb_round (account_lmdb s'') = block"
    using s'(3) card by auto
  have round: "persisted_round_number (memory s'') = block" using s''(2,4) by (simp add: store_inv_def Let_def)
  have old: "account_commitments db1 a = account_commitments db a" "pending db1 a = pending db a" if a: "a \<in> dom (user_id_to_idx_map db)" for a
  proof -
    obtain i where i: "user_id_to_idx_map db a = Some i" using a by blast
    then have "i < length (database db)" using assms(2) database_index [of db a i] by (simp add: committed_inv_def)
    then show "account_commitments db1 a = account_commitments db a" "pending db1 a = pending db a"
      using i by (simp_all add: account_commitments_def pending_def new nth_append map_add_def)
  qed
  show ?thesis using db1 s'(1,4) s''(1,3) round old by (intro exI [of _ db1] exI [of _ s']) auto
qed

theorem replay_written_without_changes_witness:
  "\<exists>db db1 s' s''. account_commitments db 7 \<noteq> pending db 7 \<and> commit_new_accounts 2 db = Inr db1 \<and>
    db_persist_lmdb list_lmdb 2 \<lparr>memory = db1, account_lmdb = \<lparr>table = [], meta_round = Some 1, env_open = True, lmdb_round = 1\<rparr>, persistence_thunks = []\<rparr> = Inr s' \<and>
    restart_accounts list_lmdb sample_hash_env [(0, length (database db1))] (account_lmdb s') = Inr s'' \<and> persisted_round_number (memory s'') = 2 \<and>
    account_commitments (memory s'') 7 = account_commitments db 7 \<and> account_commitments (commit_values (memory s')) 7 = pending db 7"
proof -
  let ?u = "acct_commit (new_user_account 7 [1])" let ?v = "acct_transfer_available ?u 2 50"
  let ?I = "\<lparr>table = [] :: (byte list \<times> AccountCommitment) list, meta_round = Some 1, env_open = True, lmdb_round = 1\<rparr>"
  obtain db0 where db0: "commit_new_accounts 1 one_account = Inr db0" and sel: "database db0 = [?u]" "user_id_to_idx_map db0 = [7 \<mapsto> 0]"
    "uncommitted_db db0 = []" "uncommitted_idx_map db0 = Map.empty" "account_creation_thunks db0 = [\<lparr>creation_block = 1, num_accounts_created = 1\<rparr>]"
    using commit_new_accounts_committed(1) [OF one_account_ready(1,2)]
    by (auto simp: clear_internal_data_structures_def one_account_sel)
  have inv0: "committed_inv sample_hash_env db0" by (rule commit_new_accounts_committed(2) [OF one_account_ready(1,2) db0])
  let ?db = "put_account 0 ?v db0"
  have u: "representable ?v" "acct_owner ?v = 7" "acct_owner ?u = 7" "owned_assets ?u = []" "owned_assets ?v = []"
    by (simp_all add: representable_def all_assets_def acct_commit_def acct_transfer_available_def operate_on_asset_def grow_uncommitted_def
        new_user_account_def Let_def case_prod_unfold)
  then have same: "commitment_of ?v = commitment_of ?u"
    by (simp add: commitment_of_def produce_commitment_eq) (simp add: acct_transfer_available_def operate_on_asset_def Let_def case_prod_unfold)
  have "length (owned_assets (acct_commit ?v)) = 3"
    by (simp add: acct_commit_def acct_transfer_available_def operate_on_asset_def grow_uncommitted_def new_user_account_def Let_def case_prod_unfold)
  then have "length (commit_assets (commitment_of (acct_commit ?v))) = 3" by (simp add: commitment_of_def produce_commitment_eq)
  moreover have "length (commit_assets (commitment_of ?u)) = 0" using u(4) by (simp add: commitment_of_def produce_commitment_eq)
  ultimately have other: "commitment_of (acct_commit ?v) \<noteq> commitment_of ?u" by (metis zero_neq_numeral)
  have com: "account_commitments ?db = account_commitments db0" by (rule ext) (simp add: account_commitments_def put_account_def sel u same)
  have inv: "committed_inv sample_hash_env ?db"
    using inv0 com db_inv_put [of db0 0 ?v] u by (simp add: committed_inv_def sel) (simp add: put_account_def sel)
  have "card (dom (leaf_map (root (commitment_trie db0)))) = card (dom (account_commitments db0))"
    using inv0 by (simp add: committed_inv_def holds_def commitment_leaves_card)
  then have "creation_ready 2 ?db"
    using commitments_few [OF inv0] by (simp add: creation_ready_def block_number_mismatch_def put_account_def sel)
  from replay_written_without_changes [OF list_lmdb_laws [of 8] inv this, of ?I Map.empty] have
    "\<exists>db1 s'. commit_new_accounts 2 ?db = Inr db1 \<and> db_persist_lmdb list_lmdb 2 \<lparr>memory = db1, account_lmdb = ?I, persistence_thunks = []\<rparr> = Inr s' \<and>
      (\<exists>s''. restart_accounts list_lmdb sample_hash_env [(0, length (database db1))] (account_lmdb s') = Inr s'' \<and> persisted_round_number (memory s'') = 2 \<and>
         (\<forall>a \<in> dom (user_id_to_idx_map ?db). account_commitments (memory s'') a = account_commitments ?db a)) \<and>
      (\<forall>a \<in> dom (user_id_to_idx_map ?db). account_commitments (commit_values (memory s')) a = pending ?db a)"
    by (simp add: table_holds_def disk_map_def list_lmdb_def)
  moreover have "7 \<in> dom (user_id_to_idx_map ?db)" "account_commitments ?db 7 \<noteq> pending ?db 7"
    using other by (simp_all add: put_account_def sel account_commitments_def pending_def same)
  ultimately show ?thesis by blast
qed

section \<open>The log of modified accounts\<close>

text \<open>
  C36. The log of modified accounts does not depend on the order in which threads wrote it.  Two logs of one account
  with the same entries, each as often, have the same identifiers after \<open>LogNormalizeFn\<close>.  They are the same log if
  moreover the sequence number tells its new transactions apart, that is, entries with one sequence number are one
  transaction, which may have been logged several times; without that, the order of such entries is not determined.
\<close>

theorem log_order_irrelevant:
  assumes "log_owner l = log_owner l'" "mset (identifiers_self l) = mset (identifiers_self l')"
    and "mset (identifiers_others l) = mset (identifiers_others l')" "mset (new_transactions_self l) = mset (new_transactions_self l')"
  shows "log_owner (normalize_log l) = log_owner (normalize_log l') \<and>
    identifiers_self (normalize_log l) = identifiers_self (normalize_log l') \<and>
    identifiers_others (normalize_log l) = identifiers_others (normalize_log l') \<and>
    (inj_on (\<lambda>x. sequenceNumber (Transaction.metadata (transaction x))) (set (new_transactions_self l)) \<longrightarrow>
      normalize_log l = normalize_log l')"
proof -
  have "same_entries l l'" using assms by (simp add: same_entries_def)
  then show ?thesis using normalize_log_order by blast
qed

theorem log_order_irrelevant_witness:
  "normalize_log \<lparr>log_owner = 7, new_transactions_self = [], identifiers_self = [512, 256],
      identifiers_others = [\<lparr>txid_owner = 9, txid_sequence_number = 1\<rparr>, \<lparr>txid_owner = 8, txid_sequence_number = 5\<rparr>]\<rparr> =
   normalize_log \<lparr>log_owner = 7, new_transactions_self = [], identifiers_self = [256, 512],
      identifiers_others = [\<lparr>txid_owner = 8, txid_sequence_number = 5\<rparr>, \<lparr>txid_owner = 9, txid_sequence_number = 1\<rparr>]\<rparr>"
  using log_order_irrelevant [of "\<lparr>log_owner = 7, new_transactions_self = [], identifiers_self = [512, 256],
      identifiers_others = [\<lparr>txid_owner = 9, txid_sequence_number = 1\<rparr>, \<lparr>txid_owner = 8, txid_sequence_number = 5\<rparr>]\<rparr>"
    "\<lparr>log_owner = 7, new_transactions_self = [], identifiers_self = [256, 512],
      identifiers_others = [\<lparr>txid_owner = 8, txid_sequence_number = 5\<rparr>, \<lparr>txid_owner = 9, txid_sequence_number = 1\<rparr>]\<rparr>"] by simp

text \<open>
  Merging the logs of two threads: \<open>LogMergeFn\<close> never throws on logs of one account and, after
  normalisation, gives the same log whichever of the two is merged into the other; normalisation loses no
  identifier, but leaves repeated ones: the index of its loop advances twice.
\<close>

theorem merged_logs_normalize:
  assumes "log_owner l = log_owner l'"
    and "distinct (map (\<lambda>x. sequenceNumber (Transaction.metadata (transaction x))) (new_transactions_self l @ new_transactions_self l'))"
  shows "\<exists>m m'. log_value_merge l l' = Inr m \<and> log_value_merge l' l = Inr m' \<and> normalize_log m = normalize_log m' \<and>
    set (identifiers_self (normalize_log m)) = set (identifiers_self l) \<union> set (identifiers_self l') \<and>
    set (identifiers_others (normalize_log m)) = set (identifiers_others l) \<union> set (identifiers_others l')"
proof -
  obtain m m' where m: "log_value_merge l l' = Inr m" "log_value_merge l' l = Inr m'" "same_entries m m'"
    using log_value_merge_commute [OF assms(1)] by blast
  have new: "new_transactions_self m = new_transactions_self l @ new_transactions_self l'"
    using m(1) by (auto simp: log_value_merge_def Let_def split: if_splits)
  have "normalize_log m = normalize_log m'"
    by (rule normalize_log_order(4) [OF m(3)]) (use assms(2) in \<open>unfold new distinct_map, blast\<close>)
  then show ?thesis using m(1,2) by (auto simp: normalize_keeps_entries log_value_merge_def Let_def split: if_splits)
qed

theorem merged_logs_normalize_witness:
  "\<exists>m m'. log_value_merge \<lparr>log_owner = 7, new_transactions_self = [], identifiers_self = [512, 512], identifiers_others = []\<rparr>
      \<lparr>log_owner = 7, new_transactions_self = [], identifiers_self = [256], identifiers_others = []\<rparr> = Inr m \<and>
    identifiers_self (normalize_log m) = [256, 512, 512]"
proof -
  have "\<exists>m m'. log_value_merge \<lparr>log_owner = 7, new_transactions_self = [], identifiers_self = [512, 512], identifiers_others = []\<rparr>
      \<lparr>log_owner = 7, new_transactions_self = [], identifiers_self = [256], identifiers_others = []\<rparr> = Inr m \<and>
     log_value_merge \<lparr>log_owner = 7, new_transactions_self = [], identifiers_self = [256], identifiers_others = []\<rparr>
      \<lparr>log_owner = 7, new_transactions_self = [], identifiers_self = [512, 512], identifiers_others = []\<rparr> = Inr m' \<and>
     normalize_log m = normalize_log m' \<and> set (identifiers_self (normalize_log m)) = set [512, 512] \<union> set [256] \<and>
     set (identifiers_others (normalize_log m)) = set [] \<union> set []"
    using merged_logs_normalize [of "\<lparr>log_owner = 7, new_transactions_self = [], identifiers_self = [512, 512], identifiers_others = []\<rparr>"
        "\<lparr>log_owner = 7, new_transactions_self = [], identifiers_self = [256], identifiers_others = []\<rparr>"] by simp
  then show ?thesis by (auto simp: log_value_merge_def normalize_log_def dedup_skips [unfolded One_nat_def])
qed

section \<open>The chain of block hashes and the pool\<close>

text \<open>
  C37. Producer and validator have the same block hashes: on the same chain, \<open>insert_for_production\<close> block by block
  and \<open>tentative_insert_for_validation\<close> with \<open>finalize_validation\<close> give the same trie, which maps the number of
  every block from one on to its hash.
\<close>

theorem header_maps_agree:
  assumes "h 0 = replicate 32 0" "n + 1 < 2 ^ 64"
  shows "\<exists>T. produce_headers h n (new_header_map I) = Inr ((new_header_map I)\<lparr>block_map := T, last_committed_block_number := of_nat n\<rparr>) \<and>
    validate_headers h n (new_header_map I) = Inr ((new_header_map I)\<lparr>block_map := T, last_committed_block_number := of_nat (n + 1)\<rparr>) \<and>
    (\<forall>a. trie_map (root T) (account_key a) = (if 1 \<le> unat a \<and> unat a \<le> n then Some (h (unat a)) else None))"
  using header_maps_of_chain [of h n, OF assms, of I undefined] chain_map_iff [of n h] assms(2)
  by (auto simp: header_inv_def trie_map_leaf_map header_leaf_def)

theorem header_maps_agree_witness:
  "\<exists>T. produce_headers (\<lambda>i. replicate 32 (of_nat i)) 2 (new_header_map (new_instance ())) =
      Inr ((new_header_map (new_instance ()))\<lparr>block_map := T, last_committed_block_number := 2\<rparr>) \<and>
    trie_map (root T) (account_key 1) = Some (replicate 32 1) \<and> trie_map (root T) (account_key 3) = None"
  using header_maps_agree [of "\<lambda>i. replicate 32 (of_nat i)" 2 "new_instance ()"] by force

text \<open>
  C38. Block hashes survive a restart: from an empty table, \<open>persist_lmdb\<close> of a validator that has finalised block
  \<open>n + 1\<close> followed by \<open>load_lmdb_contents_to_memory\<close> of a new map restores the hash of every block and the
  number of the last committed block.  The database is a parameter that behaves as a sorted map.
\<close>

theorem headers_survive_restart:
  assumes "lmdb_laws 8 L" "disk_map L d = Map.empty" "h 0 = replicate 32 0" "\<forall>i. length (h i) = 32" "n + 1 < 2 ^ 64"
  shows "\<exists>m I m'. validate_headers h n (new_header_map (open_env (new_instance d))) = Inr m \<and>
    header_persist_lmdb L (of_nat (n + 1)) m = Inr (m\<lparr>header_lmdb := I\<rparr>) \<and>
    header_load_lmdb_contents_to_memory L (new_header_map I) = Inr m' \<and>
    trie_map (root (block_map m')) = trie_map (root (block_map m)) \<and> last_committed_block_number m' = last_committed_block_number m"
proof -
  obtain T where T: "validate_headers h n (new_header_map (open_env (new_instance d))) =
      Inr ((new_header_map (open_env (new_instance d)))\<lparr>block_map := T, last_committed_block_number := of_nat (n + 1)\<rparr>)" "header_inv undefined h n T"
    using header_maps_of_chain [of h n, OF assms(3,5), of "open_env (new_instance d)"] by blast
  define m where "m = (new_header_map (open_env (new_instance d)))\<lparr>block_map := T, last_committed_block_number := of_nat (n + 1)\<rparr>"
  have "header_inv undefined h n (block_map m)" "header_lmdb m = (new_instance d)\<lparr>env_open := True\<rparr>" "last_committed_block_number m = of_nat (n + 1)"
    using T(2) by (simp_all add: m_def new_header_map_def open_env_def)
  then show ?thesis
    using restart_headers [OF assms(1,2,4,5), of undefined m] T(1) [folded m_def] by (fastforce simp: header_inv_def trie_map_leaf_map fun_eq_iff)
qed

theorem headers_survive_restart_witness:
  "\<exists>m I m'. validate_headers (\<lambda>i. replicate 32 (of_nat i)) 2 (new_header_map (open_env (new_instance []))) = Inr m \<and>
    header_persist_lmdb list_lmdb 3 m = Inr (m\<lparr>header_lmdb := I\<rparr>) \<and>
    header_load_lmdb_contents_to_memory list_lmdb (new_header_map I) = Inr m' \<and>
    trie_map (root (block_map m')) = trie_map (root (block_map m)) \<and> last_committed_block_number m' = last_committed_block_number m"
  using headers_survive_restart [OF list_lmdb_laws, of "[]" "\<lambda>i. replicate 32 (of_nat i)" 2]
  by (simp add: disk_map_def list_lmdb_def)

text \<open>
  C39. A failed validation leaves the hash it inserted: the hash of block \<open>n + 1\<close> is absent before
  \<open>tentative_insert_for_validation\<close> and still there after \<open>rollback_validation\<close>, which deletes the next number.
\<close>

theorem failed_validation_keeps_hash:
  assumes "h 0 = replicate 32 0" "n + 2 < 2 ^ 32"
  shows "\<exists>m m1 m2. validate_headers h n (new_header_map I) = Inr m \<and>
    tentative_insert_for_validation (of_nat (n + 1)) (h (n + 1)) m = Inr (True, m1) \<and> header_rollback_validation m1 = Inr m2 \<and>
    trie_map (root (block_map m)) (account_key (of_nat (n + 1))) = None \<and>
    trie_map (root (block_map m2)) (account_key (of_nat (n + 1))) = Some (h (n + 1))"
proof -
  have n: "n + 1 < 2 ^ 64" using assms(2) by simp
  obtain T where T: "validate_headers h n (new_header_map I) =
      Inr ((new_header_map I)\<lparr>block_map := T, last_committed_block_number := of_nat (n + 1)\<rparr>)" "header_inv undefined h n T"
    using header_maps_of_chain [of h n, OF assms(1) n, of I] by blast
  define m where "m = (new_header_map I)\<lparr>block_map := T, last_committed_block_number := of_nat (n + 1)\<rparr>"
  have m: "header_inv undefined h n (block_map m)" "last_committed_block_number m = of_nat (n + 1)" using T(2) by (simp_all add: m_def)
  obtain m1 m2 where m12: "tentative_insert_for_validation (of_nat (n + 1)) (h (n + 1)) m = Inr (True, m1)"
    "header_rollback_validation m1 = Inr m2" "header_inv undefined h (n + 1) (block_map m2)" using rollback_keeps_header [OF m(1) assms(2) m(2)] by blast
  have u: "unat (of_nat (n + 1) :: u64) = n + 1" by (rule unat_of_nat_small) (use n in simp)
  have "trie_map (root (block_map m)) (account_key (of_nat (n + 1))) = None"
    "trie_map (root (block_map m2)) (account_key (of_nat (n + 1))) = Some (h (n + 1))"
    using chain_map_iff [of n h "of_nat (n + 1)"] chain_map_iff [of "n + 1" h "of_nat (n + 1)"] m(1) m12(3) n
    unfolding u by (simp_all add: header_inv_def trie_map_leaf_map header_leaf_def)
  then show ?thesis using T(1) [folded m_def] m12(1,2) by blast
qed

theorem failed_validation_keeps_hash_witness:
  "\<exists>m m1 m2. validate_headers (\<lambda>i. replicate 32 (of_nat i)) 2 (new_header_map (new_instance ())) = Inr m \<and>
    tentative_insert_for_validation 3 (replicate 32 3) m = Inr (True, m1) \<and> header_rollback_validation m1 = Inr m2 \<and>
    trie_map (root (block_map m)) (account_key 3) = None \<and> trie_map (root (block_map m2)) (account_key 3) = Some (replicate 32 3)"
  using failed_validation_keeps_hash [of "\<lambda>i. replicate 32 (of_nat i)" 2 "new_instance ()"] by simp

text \<open>
  Producer and validator count differently: after the same chain a producer refuses to validate the next block,
  and a node that validated throws when it should produce it, since one counts the last block inserted and the other
  the block it is inserted for.
\<close>

theorem roles_do_not_mix:
  assumes "h 0 = replicate 32 0" "n + 2 < 2 ^ 64"
  shows "\<exists>mp mv. produce_headers h n (new_header_map I) = Inr mp \<and> validate_headers h n (new_header_map I) = Inr mv \<and>
    (\<forall>hash. tentative_insert_for_validation (of_nat (n + 1)) hash mp = Inr (False, mp) \<and>
       insert_for_production (of_nat (n + 1)) hash mv = Inl (Runtime_error ''inserting wrong block number''))"
proof -
  have "n + 1 < 2 ^ 64" using assms(2) by simp
  then obtain T where "produce_headers h n (new_header_map I) = Inr ((new_header_map I)\<lparr>block_map := T, last_committed_block_number := of_nat n\<rparr>)"
    "validate_headers h n (new_header_map I) = Inr ((new_header_map I)\<lparr>block_map := T, last_committed_block_number := of_nat (n + 1)\<rparr>)"
    using header_maps_of_chain [of h n, OF assms(1)] by blast
  moreover define mp mv where "mp = (new_header_map I)\<lparr>block_map := T, last_committed_block_number := of_nat n\<rparr>"
    and "mv = (new_header_map I)\<lparr>block_map := T, last_committed_block_number := of_nat (n + 1)\<rparr>"
  moreover have "last_committed_block_number mp = of_nat n" "last_committed_block_number mv = of_nat (n + 1)" by (simp_all add: mp_def mv_def)
  ultimately show ?thesis using header_roles(1) [OF assms(2), of mp] header_roles(2) [OF assms(2), of mv] by blast
qed

theorem roles_do_not_mix_witness:
  "\<exists>mp mv. produce_headers (\<lambda>i. replicate 32 (of_nat i)) 2 (new_header_map (new_instance ())) = Inr mp \<and>
    validate_headers (\<lambda>i. replicate 32 (of_nat i)) 2 (new_header_map (new_instance ())) = Inr mv \<and>
    tentative_insert_for_validation 3 (replicate 32 3) mp = Inr (False, mp) \<and>
    insert_for_production 3 (replicate 32 3) mv = Inl (Runtime_error ''inserting wrong block number'')"
proof -
  have "replicate 32 (of_nat 0 :: byte) = replicate 32 0" "2 + 2 < (2 :: nat) ^ 64" "of_nat (2 + 1) = (3 :: u64)" by simp_all
  from roles_do_not_mix [where h = "\<lambda>i. replicate 32 (of_nat i)" and n = 2 and I = "new_instance ()", OF this(1,2), unfolded this(3)]
  show ?thesis by blast
qed

text \<open>
  C40. Cleaning the pool: it removes exactly the transactions marked as confirmed, keeps the count of the pool, and
  afterwards any two neighbouring chunks hold at least the target size together.  On an empty pool it reads a chunk
  that is not there.
\<close>

theorem mempool_cleaning_correct:
  assumes "mempool_ok m"
  shows "if mempool m = [] then mempool_cleaning m = Inl Undefined
    else \<exists>m'. mempool_cleaning m = Inr m' \<and> mempool_ok m' \<and> all_txs (mempool m') = (\<Sum>c \<leftarrow> mempool m. kept c) \<and>
      (\<forall>j. j + 1 < length (mempool m') \<longrightarrow>
        TARGET_CHUNK_SIZE m \<le> chunk_size (mempool m' ! j) + chunk_size (mempool m' ! (j + 1)))"
proof (cases "mempool m = []")
  case True
  then show ?thesis by (simp add: mempool_cleaning_def mempool_remove_confirmed_txs_def join_small_chunks_def)
qed (use mempool_cleaning_ok [OF assms] in simp)

theorem mempool_cleaning_correct_witness:
  "\<exists>m'. mempool_cleaning \<lparr>mempool = [\<lparr>txs = [sample_tx 1 [], sample_tx 2 []], confirmed_txs_to_remove = [True, False]\<rparr>, new_chunk [sample_tx 3 []]],
      buffered_mempool = [], mempool_size = 3, TARGET_CHUNK_SIZE = 3\<rparr> = Inr m' \<and>
    all_txs (mempool m') = {#sample_tx 2 [], sample_tx 3 []#} \<and> mempool_size m' = 2"
proof -
  let ?m = "\<lparr>mempool = [\<lparr>txs = [sample_tx 1 [], sample_tx 2 []], confirmed_txs_to_remove = [True, False]\<rparr>, new_chunk [sample_tx 3 []]],
      buffered_mempool = [], mempool_size = 3, TARGET_CHUNK_SIZE = 3\<rparr>"
  have m: "mempool_ok ?m" by (simp add: mempool_ok_def aligned_def new_chunk_def)
  obtain m' where m': "mempool_cleaning ?m = Inr m'" "mempool_ok m'" "all_txs (mempool m') = (\<Sum>c \<leftarrow> mempool ?m. kept c)"
    using mempool_cleaning_correct [OF m] by auto
  then have "all_txs (mempool m') = {#sample_tx 2 [], sample_tx 3 []#}" by (simp add: kept_def unconfirmed_def new_chunk_def)
  then show ?thesis using m'(1,2) unfolding mempool_ok_def by simp
qed

end
